(* ===== verification/Prelude.thy ===== *)
theory Prelude
  imports Main "HOL-Library.Word"
begin

unbundle bit_operations_syntax

text \<open>
  What every component of the development shares: bytes and byte strings, the
  little-endian representation of the integers that the C code stores through
  casted pointers, the flat byte-addressed memory that holds the message
  structures, and the small operation type ('a option with a threaded state)
  that renders the C convention "return false on failure, with the stream
  updated in either case".
\<close>

section \<open>Bytes, addresses, memory\<close>

type_synonym byte = "8 word"

text \<open>
  An address is an unbounded integer: pointer arithmetic inside one object does
  not wrap. Memory is total; which addresses an operation may touch is the
  subject of the frame lemmas, not of the type.
\<close>

type_synonym addr = int
type_synonym mem = "int \<Rightarrow> 8 word"

text \<open>
  Collections: \<open>wire_simps\<close> gathers the evaluation equations of the byte-level
  operations, \<open>frame_intros\<close> the facts saying which addresses an operation
  leaves alone.
\<close>

named_theorems wire_simps
named_theorems frame_intros

section \<open>Little-endian integers\<close>

primrec le_bytes :: "nat \<Rightarrow> nat \<Rightarrow> byte list" where
  "le_bytes 0 v = []"
| "le_bytes (Suc n) v = word_of_nat v # le_bytes n (v div 256)"

primrec le_value :: "byte list \<Rightarrow> nat" where
  "le_value [] = 0"
| "le_value (b # bs) = unat b + 256 * le_value bs"

lemma length_le_bytes [simp]: "length (le_bytes n v) = n"
  by (induction n arbitrary: v) auto

lemma unat_byte_less [simp]: "unat (b :: byte) < 256"
  using unsigned_less [of b] by simp

lemma unat32_less [simp]: "unat (v :: 32 word) < 2 ^ 32"
  using unsigned_less [of v, where ?'a = nat] by simp

lemma unat64_less [simp]: "unat (v :: 64 word) < 2 ^ 64"
  using unsigned_less [of v, where ?'a = nat] by simp

lemma unat_length: "n < 2 ^ 32 \<Longrightarrow> unat (word_of_nat n :: 32 word) = n"
  by (simp add: unat_of_nat take_bit_nat_eq_self)

lemma unat_byte_of_nat [simp]: "unat (word_of_nat v :: byte) = v mod 256"
  by (simp add: unsigned_of_nat take_bit_eq_mod)

lemma unat_ucast_byte: "unat (ucast (w :: 'a::len word) :: byte) = unat w mod 256"
  by (simp add: unsigned_ucast_eq take_bit_eq_mod)

lemma le_value_bound: "le_value bs < 256 ^ length bs"
proof (induction bs)
  case (Cons b bs)
  have "unat b + 256 * le_value bs < 256 + 256 * le_value bs"
    by simp
  also have "\<dots> \<le> 256 * 256 ^ length bs"
    using Cons.IH by simp
  finally show ?case by simp
qed simp

lemma le_value_le_bytes: "le_value (le_bytes n v) = v mod 256 ^ n"
  by (induction n arbitrary: v) (simp_all add: mod_mult2_eq)

lemma le_value_le_bytes_id [simp]: "v < 256 ^ n \<Longrightarrow> le_value (le_bytes n v) = v"
  by (simp add: le_value_le_bytes)

lemma le_bytes_le_value [simp]: "le_bytes (length bs) (le_value bs) = bs"
proof (induction bs)
  case (Cons b bs)
  have "unat (word_of_nat (unat b + 256 * le_value bs) :: byte) = unat b"
    by (simp only: unat_byte_of_nat mod_mult_self2) simp
  then have "(word_of_nat (unat b + 256 * le_value bs) :: byte) = b"
    by (simp only: word_unat_eq_iff)
  with Cons.IH show ?case by simp
qed simp

lemma le_bytes_mod: "le_bytes n (v mod 256 ^ n) = le_bytes n v"
  by (metis le_bytes_le_value le_value_le_bytes length_le_bytes)

lemma le_bytes_inject:
  "le_bytes n v = le_bytes n w \<longleftrightarrow> v mod 256 ^ n = w mod 256 ^ n"
  by (metis le_bytes_mod le_value_le_bytes)

section \<open>The seven payload bits and the continuation bit\<close>

lemma and_mask7: "(v :: 'a::len word) AND 0x7F = v mod 128"
  using take_bit_eq_mask [of 7 v] by (simp add: take_bit_eq_mod mask_eq_exp_minus_1)

lemma byte_low7: "unat (b AND 0x7F :: byte) = unat b mod 128"
  by (simp add: and_mask7 unat_mod)

lemma word64_low7: "unat (v AND 0x7F :: 64 word) = unat v mod 128"
  by (simp add: and_mask7 unat_mod)

lemma byte_msb: "(b AND 0x80 :: byte) = 0 \<longleftrightarrow> unat b < 128"
proof -
  have "b AND 0x80 = 0 \<longleftrightarrow> \<not> bit (unat b) 7"
    using and_exp_eq_0_iff_not_bit [of b 7] by (simp add: bit_unsigned_iff)
  moreover have "bit (unat b) 7 \<longleftrightarrow> 128 \<le> unat b"
  proof -
    have "unat b div 128 = (if 128 \<le> unat b then 1 else 0)"
      using unat_byte_less [of b] by (auto intro!: div_nat_eqI)
    then show ?thesis unfolding bit_iff_odd by simp
  qed
  ultimately show ?thesis by (simp add: not_le)
qed

lemma byte_or_msb: "unat b < 128 \<Longrightarrow> unat (b OR 0x80 :: byte) = unat b + 128"
proof -
  assume "unat b < 128"
  then have "b AND 0x80 = 0" by (simp add: byte_msb)
  then have "b OR 0x80 = b + 0x80" by (simp add: disjunctive_add_eq_or)
  then show ?thesis using \<open>unat b < 128\<close> by (simp add: unat_word_ariths)
qed

lemma or_push_bit_add:
  fixes p :: nat
  assumes "a < 2 ^ p"
  shows "(word_of_nat a :: 'a::len word) OR push_bit p (word_of_nat x) = word_of_nat (a + 2 ^ p * x)"
proof -
  have "\<not> bit (word_of_nat a :: 'a word) n" if "p \<le> n" for n
  proof -
    have "a < 2 ^ n" using assms that by (meson less_le_trans one_le_numeral power_increasing)
    then have "\<not> bit a n" by (simp add: bit_iff_odd)
    then show ?thesis by (simp add: bit_simps)
  qed
  then have "(word_of_nat a :: 'a word) AND push_bit p (word_of_nat x) = 0"
    by (intro bit_word_eqI) (auto simp: bit_simps not_le)
  then have "(word_of_nat a :: 'a word) OR push_bit p (word_of_nat x)
      = word_of_nat a + push_bit p (word_of_nat x)"
    by (simp add: disjunctive_add_eq_or)
  then show ?thesis by (simp add: push_bit_eq_mult mult.commute)
qed

lemma ucast_byte: "(ucast (b :: byte) :: 'a::len word) = word_of_nat (unat b)"
  by simp

lemma le_bytes_numeral [simp]:
  "le_bytes (numeral k) v = word_of_nat v # le_bytes (pred_numeral k) (v div 256)"
  by (simp only: numeral_eq_Suc [of k] le_bytes.simps)

lemma ucast_low8: "(ucast (w AND 0xFF) :: byte) = ucast w" for w :: "'a::len word"
proof -
  define m :: "'a word" where "m = mask 8"
  then have "0xFF = m" by (simp add: mask_eq_exp_minus_1)
  moreover have "(ucast (w AND m) :: byte) = ucast w"
    by (rule bit_word_eqI) (auto simp: m_def bit_ucast_iff bit_and_iff bit_mask_iff dest: bit_imp_le_length)
  ultimately show ?thesis by simp
qed

lemma byte_of_drop: "ucast (drop_bit k v AND 0xFF) = (word_of_nat (unat v div 2 ^ k) :: byte)" for v :: "'a::len word"
proof -
  have "unat (drop_bit k v) = unat v div 2 ^ k"
    unfolding unsigned_drop_bit_eq by (simp only: drop_bit_eq_div take_bit_nat_eq_self [OF unsigned_less])
  then show ?thesis
    by (simp only: ucast_low8 word_unat_eq_iff unat_byte_of_nat unat_ucast_byte)
qed

lemma le_value_snoc: "le_value (bs @ [b]) = le_value bs + 256 ^ length bs * unat b"
  by (induction bs) (auto simp: algebra_simps)

lemma or_push_byte:
  assumes "8 * length bs = p"
  shows "(word_of_nat (le_value bs) :: 'a::len word) OR push_bit p (ucast b)
    = word_of_nat (le_value (bs @ [b]))"
proof -
  have p: "(2 :: nat) ^ p = 256 ^ length bs" using power_mult [of "2 :: nat" 8 "length bs"] assms by simp
  then have "le_value bs < 2 ^ p" using le_value_bound [of bs] by simp
  from or_push_bit_add [OF this, of "unat b", where 'a = 'a] show ?thesis
    by (simp only: ucast_byte le_value_snoc p)
qed

text \<open>One more group of seven bits.\<close>

lemma group_added:
  "a < 2 ^ p \<Longrightarrow> (word_of_nat a :: 'w::len word) OR push_bit p (ucast (b AND 0x7F :: byte))
     = word_of_nat (a + 2 ^ p * (unat b mod 128))"
proof -
  assume a: "a < 2 ^ p"
  have "(ucast (b AND 0x7F) :: 'w word) = word_of_nat (unat b mod 128)"
    by (simp only: ucast_byte byte_low7)
  then show ?thesis by (simp only: or_push_bit_add [OF a])
qed

lemma group_bound: "a < 2 ^ p \<Longrightarrow> a + 2 ^ p * (unat (b :: byte) mod 128) < 2 ^ (p + 7)"
proof -
  assume a: "a < 2 ^ p"
  have "unat b mod 128 \<le> 127" by (simp add: less_Suc_eq_le [symmetric])
  then have "2 ^ p * (unat b mod 128) \<le> 2 ^ p * (127 :: nat)" by (rule mult_left_mono) simp
  moreover have "(2 :: nat) ^ (p + 7) = 2 ^ p * 127 + 2 ^ p" by (simp add: power_add)
  ultimately show ?thesis using a by linarith
qed

section \<open>Loads and stores\<close>

definition store_bytes :: "addr \<Rightarrow> byte list \<Rightarrow> mem \<Rightarrow> mem" where
  "store_bytes a bs m =
     (\<lambda>x. if a \<le> x \<and> x < a + int (length bs) then bs ! nat (x - a) else m x)"

definition load_bytes :: "addr \<Rightarrow> nat \<Rightarrow> mem \<Rightarrow> byte list" where
  "load_bytes a n m = map (\<lambda>i. m (a + int i)) [0..<n]"

definition load_nat :: "addr \<Rightarrow> nat \<Rightarrow> mem \<Rightarrow> nat" where
  "load_nat a n m = le_value (load_bytes a n m)"

definition store_nat :: "addr \<Rightarrow> nat \<Rightarrow> nat \<Rightarrow> mem \<Rightarrow> mem" where
  "store_nat a n v m = store_bytes a (le_bytes n v) m"

text \<open>The addresses of an object of \<open>n\<close> bytes at \<open>a\<close>.\<close>

definition region :: "addr \<Rightarrow> nat \<Rightarrow> addr set" where
  "region a n = {a ..< a + int n}"

lemma region_iff [simp]: "x \<in> region a n \<longleftrightarrow> a \<le> x \<and> x < a + int n"
  by (simp add: region_def)

lemma region_empty [simp]: "region a 0 = {}"
  by (simp add: region_def)

lemma region_mono: "b \<le> a \<Longrightarrow> a + int n \<le> b + int k \<Longrightarrow> region a n \<subseteq> region b k"
  by (auto simp: region_def)

lemma length_load_bytes [simp]: "length (load_bytes a n m) = n"
  by (simp add: load_bytes_def)

lemma nth_load_bytes [simp]: "i < n \<Longrightarrow> load_bytes a n m ! i = m (a + int i)"
  by (simp add: load_bytes_def)

lemma load_nat_bound: "load_nat a n m < 256 ^ n"
  using le_value_bound [of "load_bytes a n m"] by (simp add: load_nat_def)

lemma store_bytes_other: "x \<notin> region a (length bs) \<Longrightarrow> store_bytes a bs m x = m x"
  by (auto simp: store_bytes_def)

lemma store_nat_other [frame_intros]: "x \<notin> region a n \<Longrightarrow> store_nat a n v m x = m x"
  by (simp add: store_nat_def store_bytes_other)

lemma store_bytes_Nil [simp]: "store_bytes a [] m = m"
  by (rule ext) (auto simp add: store_bytes_def)

lemma load_store_same [simp]: "load_bytes a (length bs) (store_bytes a bs m) = bs"
  by (rule nth_equalityI) (auto simp: store_bytes_def)

lemma load_store_nat: "load_nat a n (store_nat a n v m) = v mod 256 ^ n"
proof -
  have "load_bytes a n (store_bytes a (le_bytes n v) m) = le_bytes n v"
    using load_store_same [of a "le_bytes n v" m] by simp
  then show ?thesis
    by (simp add: load_nat_def store_nat_def le_value_le_bytes)
qed

lemma load_store_nat_id [simp]: "v < 256 ^ n \<Longrightarrow> load_nat a n (store_nat a n v m) = v"
  by (simp add: load_store_nat)

lemma load_bytes_cong:
  "(\<And>x. x \<in> region a n \<Longrightarrow> m x = m' x) \<Longrightarrow> load_bytes a n m = load_bytes a n m'"
  by (rule nth_equalityI) auto

lemma load_bytes_frame:
  "region a n \<inter> region b (length bs) = {} \<Longrightarrow>
     load_bytes a n (store_bytes b bs m) = load_bytes a n m"
  by (rule load_bytes_cong) (blast intro: store_bytes_other)

lemma load_nat_frame:
  "region a n \<inter> region b k = {} \<Longrightarrow> load_nat a n (store_nat b k v m) = load_nat a n m"
  by (simp add: load_nat_def store_nat_def load_bytes_frame)

section \<open>Operations that may fail\<close>

text \<open>
  \<open>('a, 's) op\<close> is a C function that returns \<open>bool\<close> and delivers its result
  through an out-parameter: the value is \<open>None\<close> where the C function returns
  \<open>false\<close>. The state is returned in both cases, since a failing call leaves its
  partial effects behind. \<open>obind m f\<close> is the idiom
  \<^verbatim>\<open>if (!m(...)) return false; f(...)\<close>.
\<close>

type_synonym ('a, 's) op = "'s \<Rightarrow> 'a option \<times> 's"

definition oreturn :: "'a \<Rightarrow> ('a, 's) op" where
  "oreturn x s = (Some x, s)"

definition obind :: "('a, 's) op \<Rightarrow> ('a \<Rightarrow> ('b, 's) op) \<Rightarrow> ('b, 's) op" where
  "obind m f s = (case m s of (None, s') \<Rightarrow> (None, s') | (Some x, s') \<Rightarrow> f x s')"

lemma obind_Some [simp]: "m s = (Some x, s') \<Longrightarrow> obind m f s = f x s'"
  by (simp add: obind_def)

lemma obind_None [simp]: "m s = (None, s') \<Longrightarrow> obind m f s = (None, s')"
  by (simp add: obind_def)

lemma obind_eq_Some:
  "obind m f s = (Some y, t) \<longleftrightarrow> (\<exists>x s'. m s = (Some x, s') \<and> f x s' = (Some y, t))"
  by (auto simp: obind_def split: prod.splits option.splits)

lemma obind_cases:
  assumes "obind m f s = (r, t)"
  obtains (fail) "m s = (None, t)" "r = None"
    | (ok) x s' where "m s = (Some x, s')" "f x s' = (r, t)"
  using assms by (auto simp: obind_def split: prod.splits option.splits)

lemma obind_cong [fundef_cong]:
  assumes "m s = m' s'" and "\<And>x t. m' s' = (Some x, t) \<Longrightarrow> f x t = f' x t"
  shows "obind m f s = obind m' f' s'"
  using assms by (auto simp: obind_def split: prod.splits option.splits)

end
