(* ===== verification/Pb_Types.thy ===== *)
theory Pb_Types
  imports Prelude
begin

text \<open>
  The data of nanopb's \<^verbatim>\<open>pb.h\<close>: the packed field type byte and its three
  parts, the field descriptor \<^verbatim>\<open>pb_field_t\<close>, wire types, error messages, the
  callback and extension structures as they lie in memory, and the
  \<^verbatim>\<open>PB_FIELD\<close> macros with which generated code builds its descriptor tables.
  The build sets \<^verbatim>\<open>PB_FIELD_32BIT\<close>, so \<^verbatim>\<open>pb_size_t\<close> is 32 bits wide; the target is LP64,
  so pointers and \<^verbatim>\<open>size_t\<close> take 8 bytes.
\<close>

section \<open>Field types\<close>

type_synonym pb_type_t = "8 word"

datatype pb_ltype =
    PB_LTYPE_VARINT | PB_LTYPE_UVARINT | PB_LTYPE_SVARINT
  | PB_LTYPE_FIXED32 | PB_LTYPE_FIXED64
  | PB_LTYPE_BYTES | PB_LTYPE_STRING | PB_LTYPE_SUBMESSAGE
  | PB_LTYPE_EXTENSION | PB_LTYPE_FIXED_LENGTH_BYTES
  | PB_LTYPE_UNDECLARED

datatype pb_htype =
    PB_HTYPE_REQUIRED | PB_HTYPE_OPTIONAL | PB_HTYPE_REPEATED | PB_HTYPE_ONEOF

datatype pb_atype =
    PB_ATYPE_STATIC | PB_ATYPE_CALLBACK | PB_ATYPE_POINTER | PB_ATYPE_UNDECLARED

text \<open>
  The numbers behind the names. The low nibbles \<open>0x0A\<close> to \<open>0x0F\<close> and the
  allocation bits \<open>0xC0\<close> have no name in the header: they read as the
  \<open>UNDECLARED\<close> constructors, whose own codes are the first unused ones.
\<close>

fun ltype_code :: "pb_ltype \<Rightarrow> pb_type_t" where
  "ltype_code PB_LTYPE_VARINT = 0x00"
| "ltype_code PB_LTYPE_UVARINT = 0x01"
| "ltype_code PB_LTYPE_SVARINT = 0x02"
| "ltype_code PB_LTYPE_FIXED32 = 0x03"
| "ltype_code PB_LTYPE_FIXED64 = 0x04"
| "ltype_code PB_LTYPE_BYTES = 0x05"
| "ltype_code PB_LTYPE_STRING = 0x06"
| "ltype_code PB_LTYPE_SUBMESSAGE = 0x07"
| "ltype_code PB_LTYPE_EXTENSION = 0x08"
| "ltype_code PB_LTYPE_FIXED_LENGTH_BYTES = 0x09"
| "ltype_code PB_LTYPE_UNDECLARED = 0x0A"

fun htype_code :: "pb_htype \<Rightarrow> pb_type_t" where
  "htype_code PB_HTYPE_REQUIRED = 0x00"
| "htype_code PB_HTYPE_OPTIONAL = 0x10"
| "htype_code PB_HTYPE_REPEATED = 0x20"
| "htype_code PB_HTYPE_ONEOF = 0x30"

fun atype_code :: "pb_atype \<Rightarrow> pb_type_t" where
  "atype_code PB_ATYPE_STATIC = 0x00"
| "atype_code PB_ATYPE_POINTER = 0x80"
| "atype_code PB_ATYPE_CALLBACK = 0x40"
| "atype_code PB_ATYPE_UNDECLARED = 0xC0"

definition PB_LTYPE_MASK :: pb_type_t where "PB_LTYPE_MASK = 0x0F"
definition PB_HTYPE_MASK :: pb_type_t where "PB_HTYPE_MASK = 0x30"
definition PB_ATYPE_MASK :: pb_type_t where "PB_ATYPE_MASK = 0xC0"

definition PB_LTYPE :: "pb_type_t \<Rightarrow> pb_ltype" where
  "PB_LTYPE x = (let c = x AND PB_LTYPE_MASK in
     if c = 0x00 then PB_LTYPE_VARINT else if c = 0x01 then PB_LTYPE_UVARINT
     else if c = 0x02 then PB_LTYPE_SVARINT else if c = 0x03 then PB_LTYPE_FIXED32
     else if c = 0x04 then PB_LTYPE_FIXED64 else if c = 0x05 then PB_LTYPE_BYTES
     else if c = 0x06 then PB_LTYPE_STRING else if c = 0x07 then PB_LTYPE_SUBMESSAGE
     else if c = 0x08 then PB_LTYPE_EXTENSION
     else if c = 0x09 then PB_LTYPE_FIXED_LENGTH_BYTES else PB_LTYPE_UNDECLARED)"

definition PB_HTYPE :: "pb_type_t \<Rightarrow> pb_htype" where
  "PB_HTYPE x = (let c = x AND PB_HTYPE_MASK in
     if c = 0x00 then PB_HTYPE_REQUIRED else if c = 0x10 then PB_HTYPE_OPTIONAL
     else if c = 0x20 then PB_HTYPE_REPEATED else PB_HTYPE_ONEOF)"

definition PB_ATYPE :: "pb_type_t \<Rightarrow> pb_atype" where
  "PB_ATYPE x = (let c = x AND PB_ATYPE_MASK in
     if c = 0x00 then PB_ATYPE_STATIC else if c = 0x80 then PB_ATYPE_POINTER
     else if c = 0x40 then PB_ATYPE_CALLBACK else PB_ATYPE_UNDECLARED)"

text \<open>\<^verbatim>\<open>PB_LTYPE(type) <= PB_LTYPE_LAST_PACKABLE\<close>\<close>

definition PB_LTYPE_LAST_PACKABLE :: pb_type_t where "PB_LTYPE_LAST_PACKABLE = 0x04"

definition packable :: "pb_ltype \<Rightarrow> bool" where
  "packable lt \<longleftrightarrow> ltype_code lt \<le> PB_LTYPE_LAST_PACKABLE"

lemma packable_simps [simp]:
  "packable PB_LTYPE_VARINT" "packable PB_LTYPE_UVARINT" "packable PB_LTYPE_SVARINT"
  "packable PB_LTYPE_FIXED32" "packable PB_LTYPE_FIXED64"
  "\<not> packable PB_LTYPE_BYTES" "\<not> packable PB_LTYPE_STRING"
  "\<not> packable PB_LTYPE_SUBMESSAGE" "\<not> packable PB_LTYPE_EXTENSION"
  "\<not> packable PB_LTYPE_FIXED_LENGTH_BYTES" "\<not> packable PB_LTYPE_UNDECLARED"
  by (simp_all add: packable_def PB_LTYPE_LAST_PACKABLE_def)

text \<open>\<^verbatim>\<open>PB_ATYPE_x | PB_HTYPE_y | ltype\<close>, as the field macros write it.\<close>

definition pb_type :: "pb_atype \<Rightarrow> pb_htype \<Rightarrow> pb_ltype \<Rightarrow> pb_type_t" where
  "pb_type a h l = atype_code a OR htype_code h OR ltype_code l"

lemma PB_LTYPE_pb_type [simp]: "PB_LTYPE (pb_type a h l) = l"
  by (cases a; cases h; cases l) (simp_all add: PB_LTYPE_def pb_type_def PB_LTYPE_MASK_def)

lemma PB_HTYPE_pb_type [simp]: "PB_HTYPE (pb_type a h l) = h"
  by (cases a; cases h; cases l) (simp_all add: PB_HTYPE_def pb_type_def PB_HTYPE_MASK_def)

lemma PB_ATYPE_pb_type [simp]: "PB_ATYPE (pb_type a h l) = a"
  by (cases a; cases h; cases l) (simp_all add: PB_ATYPE_def pb_type_def PB_ATYPE_MASK_def)

section \<open>Sizes and limits\<close>

definition PB_SIZE_MAX :: nat where "PB_SIZE_MAX = 2 ^ 32 - 1"
definition PB_MAX_REQUIRED_FIELDS :: nat where "PB_MAX_REQUIRED_FIELDS = 64"
definition sizeof_ptr :: nat where "sizeof_ptr = 8"
definition sizeof_pb_size :: nat where "sizeof_pb_size = 4"

text \<open>\<^verbatim>\<open>pb_bytes_array_t\<close>: the length, then the bytes.\<close>

definition bytes_offset :: nat where "bytes_offset = sizeof_pb_size"

definition PB_BYTES_ARRAY_T_ALLOCSIZE :: "nat \<Rightarrow> nat" where
  "PB_BYTES_ARRAY_T_ALLOCSIZE n = n + bytes_offset"

section \<open>Field descriptors\<close>

text \<open>
  \<^verbatim>\<open>pb_field_s\<close>. The pointer member holds the descriptor table of a submessage,
  or the bytes of a default value, or is null. Descriptors of statically
  allocated submessages are finite trees, as the structures they describe are.
\<close>

datatype pb_field = PbField
    (ftag: nat) (ftype: pb_type_t) (data_offset: nat) (size_offset: int)
    (data_size: nat) (array_size: nat) (fptr: pb_field_ptr)
  and pb_field_ptr = PtrNull | PtrFields "pb_field list" | PtrDefault "byte list"

text \<open>\<^verbatim>\<open>(const pb_field_t*)field->ptr\<close> where the pointer holds a descriptor table.\<close>

definition submsg_fields :: "pb_field \<Rightarrow> pb_field list" where
  "submsg_fields f = (case fptr f of PtrFields fs \<Rightarrow> fs | _ \<Rightarrow> [])"

definition PB_LAST_FIELD :: pb_field where
  "PB_LAST_FIELD = PbField 0 0 0 0 0 0 PtrNull"

text \<open>
  A descriptor table ends with \<open>PB_LAST_FIELD\<close>; reading one past the listed
  descriptors finds the terminator.
\<close>

definition field_at :: "pb_field list \<Rightarrow> nat \<Rightarrow> pb_field" where
  "field_at fs i = (if i < length fs then fs ! i else PB_LAST_FIELD)"

lemma ftag_last [simp]: "ftag PB_LAST_FIELD = 0"
  by (simp add: PB_LAST_FIELD_def)

lemma submsg_fields_last [simp]: "submsg_fields PB_LAST_FIELD = []"
  by (simp add: PB_LAST_FIELD_def submsg_fields_def)

lemma field_at_in: "ftag (field_at fs i) \<noteq> 0 \<Longrightarrow> i < length fs \<and> field_at fs i = fs ! i \<and> field_at fs i \<in> set fs"
  by (auto simp: field_at_def split: if_splits)

text \<open>The descriptor measure on which recursion into submessages descends.\<close>

definition fields_size :: "pb_field list \<Rightarrow> nat" where
  "fields_size fs = size_list size fs"

lemma submsg_fields_size: "f \<in> set fs \<Longrightarrow> fields_size (submsg_fields f) < fields_size fs"
proof -
  assume f: "f \<in> set fs"
  have "fields_size (submsg_fields f) < size f"
    by (cases f) (auto simp: fields_size_def submsg_fields_def split: pb_field_ptr.splits)
  also have "size f \<le> fields_size fs"
    using f unfolding fields_size_def by (induction fs) auto
  finally show ?thesis .
qed

lemma submsg_field_at_size:
  "ftag (field_at fs i) \<noteq> 0 \<Longrightarrow> fields_size (submsg_fields (field_at fs i)) < fields_size fs"
  using field_at_in [of fs i] submsg_fields_size by blast

section \<open>Wire types\<close>

text \<open>
  The enumeration \<^verbatim>\<open>pb_wire_type_t\<close>. The decoder casts three bits of the tag to
  it, so values without a name occur as well.
\<close>

datatype pb_wire_type =
    PB_WT_VARINT | PB_WT_64BIT | PB_WT_STRING | PB_WT_32BIT | PB_WT_UNNAMED nat

fun wire_type_code :: "pb_wire_type \<Rightarrow> nat" where
  "wire_type_code PB_WT_VARINT = 0"
| "wire_type_code PB_WT_64BIT = 1"
| "wire_type_code PB_WT_STRING = 2"
| "wire_type_code PB_WT_32BIT = 5"
| "wire_type_code (PB_WT_UNNAMED n) = n"

definition wire_type_of :: "nat \<Rightarrow> pb_wire_type" where
  "wire_type_of n = (if n = 0 then PB_WT_VARINT else if n = 1 then PB_WT_64BIT
     else if n = 2 then PB_WT_STRING else if n = 5 then PB_WT_32BIT else PB_WT_UNNAMED n)"

lemma wire_type_code_of [simp]: "wire_type_code (wire_type_of n) = n"
  by (simp add: wire_type_of_def)

section \<open>Error messages\<close>

text \<open>\<^verbatim>\<open>PB_SET_ERROR\<close> keeps the first message; \<^verbatim>\<open>PB_GET_ERROR\<close> never fails.\<close>

definition PB_SET_ERROR :: "string option \<Rightarrow> string \<Rightarrow> string option" where
  "PB_SET_ERROR e msg = (case e of Some e' \<Rightarrow> Some e' | None \<Rightarrow> Some msg)"

definition PB_GET_ERROR :: "string option \<Rightarrow> string" where
  "PB_GET_ERROR e = (case e of Some m \<Rightarrow> m | None \<Rightarrow> ''(none)'')"

section \<open>Callback and extension structures in memory\<close>

text \<open>\<^verbatim>\<open>pb_callback_t\<close>: the function pointer, then the argument pointer.\<close>

definition callback_funcs :: "addr \<Rightarrow> mem \<Rightarrow> nat" where
  "callback_funcs p m = load_nat p sizeof_ptr m"

definition callback_arg :: "addr \<Rightarrow> addr" where
  "callback_arg p = p + int sizeof_ptr"

text \<open>\<^verbatim>\<open>pb_extension_t\<close>: type, dest, next, found.\<close>

definition ext_type :: "addr \<Rightarrow> mem \<Rightarrow> nat" where
  "ext_type p m = load_nat p sizeof_ptr m"

definition ext_dest_addr :: "addr \<Rightarrow> addr" where
  "ext_dest_addr p = p + int sizeof_ptr"

definition ext_dest :: "addr \<Rightarrow> mem \<Rightarrow> addr" where
  "ext_dest p m = int (load_nat (ext_dest_addr p) sizeof_ptr m)"

definition ext_next :: "addr \<Rightarrow> mem \<Rightarrow> addr" where
  "ext_next p m = int (load_nat (p + 16) sizeof_ptr m)"

definition ext_found_addr :: "addr \<Rightarrow> addr" where
  "ext_found_addr p = p + 24"

section \<open>The field macros\<close>

text \<open>
  A structure member as the macros see it: \<^verbatim>\<open>offsetof(st, m)\<close>,
  \<^verbatim>\<open>sizeof(st.m)\<close> and \<^verbatim>\<open>sizeof(st.m[0])\<close>.
\<close>

record c_member =
  m_offset :: nat
  m_size :: nat
  m_elem :: nat

definition pb_arraysize :: "c_member \<Rightarrow> nat" where
  "pb_arraysize m = m_size m div m_elem m"

definition pb_delta :: "c_member \<Rightarrow> c_member \<Rightarrow> int" where
  "pb_delta m1 m2 = int (m_offset m1) - int (m_offset m2)"

datatype pb_placement = FIRST | OTHER | UNION

fun PB_DATAOFFSET :: "pb_placement \<Rightarrow> c_member \<Rightarrow> c_member \<Rightarrow> nat" where
  "PB_DATAOFFSET FIRST m1 m2 = m_offset m1"
| "PB_DATAOFFSET OTHER m1 m2 = m_offset m1 - m_offset m2 - m_size m2"
| "PB_DATAOFFSET UNION m1 m2 = PB_SIZE_MAX"

definition PB_REQUIRED_STATIC where
  "PB_REQUIRED_STATIC t m fd lt p =
     PbField t (pb_type PB_ATYPE_STATIC PB_HTYPE_REQUIRED lt) fd 0 (m_size m) 0 p"

definition PB_OPTIONAL_STATIC where
  "PB_OPTIONAL_STATIC t m has fd lt p =
     PbField t (pb_type PB_ATYPE_STATIC PB_HTYPE_OPTIONAL lt) fd (pb_delta has m) (m_size m) 0 p"

definition PB_SINGULAR_STATIC where
  "PB_SINGULAR_STATIC t m fd lt p =
     PbField t (pb_type PB_ATYPE_STATIC PB_HTYPE_OPTIONAL lt) fd 0 (m_size m) 0 p"

definition PB_REPEATED_STATIC where
  "PB_REPEATED_STATIC t m count fd lt p =
     PbField t (pb_type PB_ATYPE_STATIC PB_HTYPE_REPEATED lt) fd (pb_delta count m)
       (m_elem m) (pb_arraysize m) p"

definition PB_REQUIRED_POINTER where
  "PB_REQUIRED_POINTER t m fd lt p =
     PbField t (pb_type PB_ATYPE_POINTER PB_HTYPE_REQUIRED lt) fd 0 (m_elem m) 0 p"

definition PB_OPTIONAL_POINTER where
  "PB_OPTIONAL_POINTER t m fd lt p =
     PbField t (pb_type PB_ATYPE_POINTER PB_HTYPE_OPTIONAL lt) fd 0 (m_elem m) 0 p"

definition PB_REPEATED_POINTER where
  "PB_REPEATED_POINTER t m count fd lt p =
     PbField t (pb_type PB_ATYPE_POINTER PB_HTYPE_REPEATED lt) fd (pb_delta count m) (m_elem m) 0 p"

definition PB_REQUIRED_CALLBACK where
  "PB_REQUIRED_CALLBACK t m fd lt p =
     PbField t (pb_type PB_ATYPE_CALLBACK PB_HTYPE_REQUIRED lt) fd 0 (m_size m) 0 p"

definition PB_OPTIONAL_CALLBACK where
  "PB_OPTIONAL_CALLBACK t m fd lt p =
     PbField t (pb_type PB_ATYPE_CALLBACK PB_HTYPE_OPTIONAL lt) fd 0 (m_size m) 0 p"

definition PB_REPEATED_CALLBACK where
  "PB_REPEATED_CALLBACK t m fd lt p =
     PbField t (pb_type PB_ATYPE_CALLBACK PB_HTYPE_REPEATED lt) fd 0 (m_size m) 0 p"

definition PB_OPTEXT_STATIC where
  "PB_OPTEXT_STATIC t m lt p =
     PbField t (pb_type PB_ATYPE_STATIC PB_HTYPE_REQUIRED lt) 0 0 (m_size m) 0 p"

definition PB_ONEOF_STATIC where
  "PB_ONEOF_STATIC t m which fd lt p =
     PbField t (pb_type PB_ATYPE_STATIC PB_HTYPE_ONEOF lt) fd (pb_delta which m) (m_size m) 0 p"

definition PB_ONEOF_POINTER where
  "PB_ONEOF_POINTER t m which fd lt p =
     PbField t (pb_type PB_ATYPE_POINTER PB_HTYPE_ONEOF lt) fd (pb_delta which m) (m_elem m) 0 p"

text \<open>
  \<^verbatim>\<open>PB_FIELD\<close> and \<^verbatim>\<open>PB_ONEOF_FIELD\<close> paste the rule and the allocation into the name
  of one of the macros above. \<open>aux\<close> is the \<^verbatim>\<open>has_m\<close>, \<^verbatim>\<open>m_count\<close> or \<^verbatim>\<open>which_u\<close>
  member that the chosen macro refers to.
\<close>

datatype pb_rules = REQUIRED | OPTIONAL | SINGULAR | REPEATED | OPTEXT | ONEOF
datatype pb_allocation = STATIC | POINTER | CALLBACK

fun PB_FIELD_RULE :: "pb_rules \<Rightarrow> pb_allocation \<Rightarrow> nat \<Rightarrow> c_member \<Rightarrow> c_member \<Rightarrow> nat \<Rightarrow> pb_ltype
    \<Rightarrow> pb_field_ptr \<Rightarrow> pb_field option" where
  "PB_FIELD_RULE REQUIRED STATIC t m aux fd lt p = Some (PB_REQUIRED_STATIC t m fd lt p)"
| "PB_FIELD_RULE OPTIONAL STATIC t m aux fd lt p = Some (PB_OPTIONAL_STATIC t m aux fd lt p)"
| "PB_FIELD_RULE SINGULAR STATIC t m aux fd lt p = Some (PB_SINGULAR_STATIC t m fd lt p)"
| "PB_FIELD_RULE REPEATED STATIC t m aux fd lt p = Some (PB_REPEATED_STATIC t m aux fd lt p)"
| "PB_FIELD_RULE OPTEXT STATIC t m aux fd lt p = Some (PB_OPTEXT_STATIC t m lt p)"
| "PB_FIELD_RULE ONEOF STATIC t m aux fd lt p = Some (PB_ONEOF_STATIC t m aux fd lt p)"
| "PB_FIELD_RULE REQUIRED POINTER t m aux fd lt p = Some (PB_REQUIRED_POINTER t m fd lt p)"
| "PB_FIELD_RULE OPTIONAL POINTER t m aux fd lt p = Some (PB_OPTIONAL_POINTER t m fd lt p)"
| "PB_FIELD_RULE SINGULAR POINTER t m aux fd lt p = Some (PB_OPTIONAL_POINTER t m fd lt p)"
| "PB_FIELD_RULE REPEATED POINTER t m aux fd lt p = Some (PB_REPEATED_POINTER t m aux fd lt p)"
| "PB_FIELD_RULE OPTEXT POINTER t m aux fd lt p = Some (PB_OPTIONAL_POINTER t m fd lt p)"
| "PB_FIELD_RULE ONEOF POINTER t m aux fd lt p = Some (PB_ONEOF_POINTER t m aux fd lt p)"
| "PB_FIELD_RULE REQUIRED CALLBACK t m aux fd lt p = Some (PB_REQUIRED_CALLBACK t m fd lt p)"
| "PB_FIELD_RULE OPTIONAL CALLBACK t m aux fd lt p = Some (PB_OPTIONAL_CALLBACK t m fd lt p)"
| "PB_FIELD_RULE SINGULAR CALLBACK t m aux fd lt p = Some (PB_OPTIONAL_CALLBACK t m fd lt p)"
| "PB_FIELD_RULE REPEATED CALLBACK t m aux fd lt p = Some (PB_REPEATED_CALLBACK t m fd lt p)"
| "PB_FIELD_RULE OPTEXT CALLBACK t m aux fd lt p = Some (PB_OPTIONAL_CALLBACK t m fd lt p)"
| "PB_FIELD_RULE ONEOF CALLBACK t m aux fd lt p = None"

text \<open>The protobuf types and their \<^verbatim>\<open>PB_LTYPE_MAP_x\<close>.\<close>

datatype proto_type =
    BOOL | BYTES | DOUBLE | ENUM | UENUM | FIXED32 | FIXED64 | FLOAT | INT32 | INT64
  | MESSAGE | SFIXED32 | SFIXED64 | SINT32 | SINT64 | STRING | UINT32 | UINT64
  | EXTENSION | FIXED_LENGTH_BYTES

fun PB_LTYPE_MAP :: "proto_type \<Rightarrow> pb_ltype" where
  "PB_LTYPE_MAP BOOL = PB_LTYPE_VARINT"
| "PB_LTYPE_MAP BYTES = PB_LTYPE_BYTES"
| "PB_LTYPE_MAP DOUBLE = PB_LTYPE_FIXED64"
| "PB_LTYPE_MAP ENUM = PB_LTYPE_VARINT"
| "PB_LTYPE_MAP UENUM = PB_LTYPE_UVARINT"
| "PB_LTYPE_MAP FIXED32 = PB_LTYPE_FIXED32"
| "PB_LTYPE_MAP FIXED64 = PB_LTYPE_FIXED64"
| "PB_LTYPE_MAP FLOAT = PB_LTYPE_FIXED32"
| "PB_LTYPE_MAP INT32 = PB_LTYPE_VARINT"
| "PB_LTYPE_MAP INT64 = PB_LTYPE_VARINT"
| "PB_LTYPE_MAP MESSAGE = PB_LTYPE_SUBMESSAGE"
| "PB_LTYPE_MAP SFIXED32 = PB_LTYPE_FIXED32"
| "PB_LTYPE_MAP SFIXED64 = PB_LTYPE_FIXED64"
| "PB_LTYPE_MAP SINT32 = PB_LTYPE_SVARINT"
| "PB_LTYPE_MAP SINT64 = PB_LTYPE_SVARINT"
| "PB_LTYPE_MAP STRING = PB_LTYPE_STRING"
| "PB_LTYPE_MAP UINT32 = PB_LTYPE_UVARINT"
| "PB_LTYPE_MAP UINT64 = PB_LTYPE_UVARINT"
| "PB_LTYPE_MAP EXTENSION = PB_LTYPE_EXTENSION"
| "PB_LTYPE_MAP FIXED_LENGTH_BYTES = PB_LTYPE_FIXED_LENGTH_BYTES"

definition PB_FIELD :: "nat \<Rightarrow> proto_type \<Rightarrow> pb_rules \<Rightarrow> pb_allocation \<Rightarrow> pb_placement \<Rightarrow>
    c_member \<Rightarrow> c_member \<Rightarrow> c_member \<Rightarrow> pb_field_ptr \<Rightarrow> pb_field option" where
  "PB_FIELD t ty rules alloc place m aux prev p =
     PB_FIELD_RULE rules alloc t m aux (PB_DATAOFFSET place m prev) (PB_LTYPE_MAP ty) p"

end
