(* ===== verification/Pb_Iter.thy ===== *)
theory Pb_Iter
  imports Pb_Types
begin

text \<open>
  nanopb's field iterator (\<^verbatim>\<open>pb_common.c\<close>): it walks a descriptor table and keeps
  the address of the current member and of its size or presence member by
  adding up sizes and offsets, so that one table describes both the wire format
  and the layout of the C structure. The lemmas say where the iterator is, what
  the search finds, and that the addresses are the \<^verbatim>\<open>offsetof\<close> of the members
  when the table comes from the \<^verbatim>\<open>PB_FIELD\<close> macros.
\<close>

section \<open>The iterator\<close>

record pb_field_iter =
  it_start :: "pb_field list"
  it_pos :: nat
  it_required :: nat
  it_dest :: addr
  it_pData :: addr
  it_pSize :: addr

text \<open>\<^verbatim>\<open>*iter->pos\<close>\<close>

definition it_field :: "pb_field_iter \<Rightarrow> pb_field" where
  "it_field it = field_at (it_start it) (it_pos it)"

definition pb_field_iter_begin :: "pb_field list \<Rightarrow> addr \<Rightarrow> bool \<times> pb_field_iter" where
  "pb_field_iter_begin fs dest =
     (let pData = dest + int (data_offset (field_at fs 0));
          it = \<lparr> it_start = fs, it_pos = 0, it_required = 0, it_dest = dest,
                 it_pData = pData, it_pSize = pData + size_offset (field_at fs 0) \<rparr>
      in (ftag (it_field it) \<noteq> 0, it))"

definition pb_field_iter_next :: "pb_field_iter \<Rightarrow> bool \<times> pb_field_iter" where
  "pb_field_iter_next it =
     (let prev = it_field it in
      if ftag prev = 0 then (False, it)
      else
        let it1 = it\<lparr> it_pos := it_pos it + 1 \<rparr>; cur = it_field it1 in
        if ftag cur = 0 then (False, snd (pb_field_iter_begin (it_start it) (it_dest it)))
        else if PB_HTYPE (ftype prev) = PB_HTYPE_ONEOF \<and> PB_HTYPE (ftype cur) = PB_HTYPE_ONEOF
             \<and> data_offset cur = PB_SIZE_MAX
        then (True, it1)
        else
          let prev_size =
                (if PB_ATYPE (ftype prev) = PB_ATYPE_STATIC
                    \<and> PB_HTYPE (ftype prev) = PB_HTYPE_REPEATED
                 then data_size prev * array_size prev
                 else if PB_ATYPE (ftype prev) = PB_ATYPE_POINTER then sizeof_ptr
                 else data_size prev);
              required = (if PB_HTYPE (ftype prev) = PB_HTYPE_REQUIRED
                          then it_required it + 1 else it_required it);
              pData = it_pData it + int prev_size + int (data_offset cur)
          in (True, it1\<lparr> it_required := required, it_pData := pData,
                         it_pSize := pData + size_offset cur \<rparr>))"

text \<open>
  The search is a \<^verbatim>\<open>do ... while (iter->pos != start)\<close> loop. One turn per
  descriptor brings the iterator back to where it started, so the fuel is one
  more than the length of the table; \<open>None\<close> would be a loop that goes on.
\<close>

fun iter_find_loop :: "nat \<Rightarrow> nat \<Rightarrow> nat \<Rightarrow> pb_field_iter \<Rightarrow> (bool \<times> pb_field_iter) option" where
  "iter_find_loop 0 tag start it = None"
| "iter_find_loop (Suc n) tag start it =
     (if ftag (it_field it) = tag \<and> PB_LTYPE (ftype (it_field it)) \<noteq> PB_LTYPE_EXTENSION
      then Some (True, it)
      else let it' = snd (pb_field_iter_next it) in
        if it_pos it' = start then Some (False, it')
        else iter_find_loop n tag start it')"

definition pb_field_iter_find :: "pb_field_iter \<Rightarrow> nat \<Rightarrow> (bool \<times> pb_field_iter) option" where
  "pb_field_iter_find it tag =
     iter_find_loop (Suc (length (it_start it))) tag (it_pos it) it"

section \<open>Where the iterator is\<close>

text \<open>The number of descriptors before the terminator.\<close>

definition n_fields :: "pb_field list \<Rightarrow> nat" where
  "n_fields fs = length (takeWhile (\<lambda>f. ftag f \<noteq> 0) fs)"

lemma n_fields_le: "n_fields fs \<le> length fs"
  by (simp add: n_fields_def length_takeWhile_le)

lemma field_at_before_end: "i < n_fields fs \<Longrightarrow> ftag (field_at fs i) \<noteq> 0"
  using n_fields_le [of fs]
  by (simp add: field_at_def n_fields_def) (metis nth_mem set_takeWhileD takeWhile_nth)

lemma field_at_end: "ftag (field_at fs (n_fields fs)) = 0"
  by (auto simp: field_at_def n_fields_def intro: nth_length_takeWhile dest: nth_length_takeWhile)

lemma field_at_mem: "i < n_fields fs \<Longrightarrow> field_at fs i \<in> set fs"
  using field_at_before_end field_at_in by blast

text \<open>
  The space one field takes in the structure, and the address at which the
  iterator finds the \<open>i\<close>-th field.
\<close>

definition field_extent :: "pb_field \<Rightarrow> nat" where
  "field_extent f =
     (if PB_ATYPE (ftype f) = PB_ATYPE_STATIC \<and> PB_HTYPE (ftype f) = PB_HTYPE_REPEATED
      then data_size f * array_size f
      else if PB_ATYPE (ftype f) = PB_ATYPE_POINTER then sizeof_ptr
      else data_size f)"

definition same_union :: "pb_field \<Rightarrow> pb_field \<Rightarrow> bool" where
  "same_union prev cur \<longleftrightarrow> PB_HTYPE (ftype prev) = PB_HTYPE_ONEOF
     \<and> PB_HTYPE (ftype cur) = PB_HTYPE_ONEOF \<and> data_offset cur = PB_SIZE_MAX"

fun field_addr :: "pb_field list \<Rightarrow> addr \<Rightarrow> nat \<Rightarrow> addr" where
  "field_addr fs dest 0 = dest + int (data_offset (field_at fs 0))"
| "field_addr fs dest (Suc i) =
     (if same_union (field_at fs i) (field_at fs (Suc i)) then field_addr fs dest i
      else field_addr fs dest i + int (field_extent (field_at fs i))
             + int (data_offset (field_at fs (Suc i))))"

text \<open>
  Inside a union the iterator does not recompute \<^verbatim>\<open>pSize\<close>: all members of a
  union share one \<^verbatim>\<open>which_\<close> member.
\<close>

fun field_size_addr :: "pb_field list \<Rightarrow> addr \<Rightarrow> nat \<Rightarrow> addr" where
  "field_size_addr fs dest 0 = field_addr fs dest 0 + size_offset (field_at fs 0)"
| "field_size_addr fs dest (Suc i) =
     (if same_union (field_at fs i) (field_at fs (Suc i)) then field_size_addr fs dest i
      else field_addr fs dest (Suc i) + size_offset (field_at fs (Suc i)))"

definition required_before :: "pb_field list \<Rightarrow> nat \<Rightarrow> nat" where
  "required_before fs i =
     length (filter (\<lambda>j. PB_HTYPE (ftype (field_at fs j)) = PB_HTYPE_REQUIRED) [0..<i])"

lemma required_before_0 [simp]: "required_before fs 0 = 0"
  by (simp add: required_before_def)

lemma required_before_Suc:
  "required_before fs (Suc i) = required_before fs i
     + (if PB_HTYPE (ftype (field_at fs i)) = PB_HTYPE_REQUIRED then 1 else 0)"
  by (simp add: required_before_def)

text \<open>The iterator at the \<open>i\<close>-th field.\<close>

definition iter_at :: "pb_field list \<Rightarrow> addr \<Rightarrow> nat \<Rightarrow> pb_field_iter" where
  "iter_at fs dest i = \<lparr> it_start = fs, it_pos = i, it_required = required_before fs i,
     it_dest = dest, it_pData = field_addr fs dest i, it_pSize = field_size_addr fs dest i \<rparr>"

lemma iter_at_simps [simp]:
  "it_start (iter_at fs dest i) = fs" "it_pos (iter_at fs dest i) = i"
  "it_required (iter_at fs dest i) = required_before fs i" "it_dest (iter_at fs dest i) = dest"
  "it_pData (iter_at fs dest i) = field_addr fs dest i"
  "it_pSize (iter_at fs dest i) = field_size_addr fs dest i"
  "it_field (iter_at fs dest i) = field_at fs i"
  by (simp_all add: iter_at_def it_field_def)

lemma iter_begin_eq: "pb_field_iter_begin fs dest = (0 < n_fields fs, iter_at fs dest 0)"
proof -
  have "ftag (field_at fs 0) \<noteq> 0 \<longleftrightarrow> 0 < n_fields fs"
    using field_at_before_end [of 0 fs] field_at_end [of fs] by (cases "n_fields fs") auto
  then show ?thesis
    by (simp add: pb_field_iter_begin_def iter_at_def it_field_def Let_def)
qed

lemma iter_next_step:
  assumes "Suc i < n_fields fs"
  shows "pb_field_iter_next (iter_at fs dest i) = (True, iter_at fs dest (Suc i))"
proof -
  have "ftag (field_at fs i) \<noteq> 0" "ftag (field_at fs (Suc i)) \<noteq> 0"
    using assms field_at_before_end [of i fs] field_at_before_end [of "Suc i" fs] by linarith+
  then show ?thesis
    by (auto simp: pb_field_iter_next_def iter_at_def it_field_def Let_def same_union_def
        field_extent_def required_before_Suc)
qed

lemma iter_next_wrap:
  assumes "Suc i = n_fields fs"
  shows "pb_field_iter_next (iter_at fs dest i) = (False, iter_at fs dest 0)"
proof -
  have "ftag (field_at fs i) \<noteq> 0"
    using assms field_at_before_end [of i fs] by linarith
  moreover have "ftag (field_at fs (Suc i)) = 0"
    using field_at_end [of fs] assms by simp
  ultimately show ?thesis
    using iter_begin_eq [of fs dest]
    by (simp add: pb_field_iter_next_def iter_at_def it_field_def Let_def)
qed

lemma iter_next_empty:
  "n_fields fs = 0 \<Longrightarrow> pb_field_iter_next (iter_at fs dest 0) = (False, iter_at fs dest 0)"
  using field_at_end [of fs] by (simp add: pb_field_iter_next_def it_field_def iter_at_def Let_def)

text \<open>One turn, whatever the position: the next field, or the first after the last.\<close>

definition next_pos :: "pb_field list \<Rightarrow> nat \<Rightarrow> nat" where
  "next_pos fs i = (if Suc i < n_fields fs then Suc i else 0)"

definition valid_pos :: "pb_field list \<Rightarrow> nat \<Rightarrow> bool" where
  "valid_pos fs i \<longleftrightarrow> i < n_fields fs \<or> n_fields fs = 0 \<and> i = 0"

lemma valid_next_pos [simp]: "valid_pos fs i \<Longrightarrow> valid_pos fs (next_pos fs i)"
  by (auto simp: valid_pos_def next_pos_def)

lemma valid_pos_0 [simp]: "valid_pos fs 0"
  by (auto simp: valid_pos_def)

lemma iter_next_eq:
  assumes "valid_pos fs i"
  shows "pb_field_iter_next (iter_at fs dest i)
    = (Suc i < n_fields fs, iter_at fs dest (next_pos fs i))"
proof -
  consider "Suc i < n_fields fs" | "Suc i = n_fields fs" | "n_fields fs = 0" "i = 0"
    using assms unfolding valid_pos_def by linarith
  then show ?thesis
    by cases (simp_all add: iter_next_step iter_next_wrap iter_next_empty next_pos_def)
qed

section \<open>What the search finds\<close>

definition field_matches :: "nat \<Rightarrow> pb_field \<Rightarrow> bool" where
  "field_matches tag f \<longleftrightarrow> ftag f = tag \<and> PB_LTYPE (ftype f) \<noteq> PB_LTYPE_EXTENSION"

lemma next_pos_mod: "i < n_fields fs \<Longrightarrow> next_pos fs i = Suc i mod n_fields fs"
  by (auto simp: next_pos_def) (metis Suc_lessI mod_self)

text \<open>
  The two searches of the library, for a tag and for the extension placeholder, are
  one loop with two tests.
\<close>

fun iter_scan :: "nat \<Rightarrow> (pb_field \<Rightarrow> bool) \<Rightarrow> nat \<Rightarrow> pb_field_iter \<Rightarrow> (bool \<times> pb_field_iter) option" where
  "iter_scan 0 Q start it = None"
| "iter_scan (Suc n) Q start it =
     (if Q (it_field it) then Some (True, it)
      else let it' = snd (pb_field_iter_next it) in
        if it_pos it' = start then Some (False, it') else iter_scan n Q start it')"

lemma iter_find_loop_scan: "iter_find_loop n tag start it = iter_scan n (field_matches tag) start it"
  by (induction n arbitrary: it) (simp_all add: field_matches_def Let_def)

lemma iter_scan_turn:
  fixes fs :: "pb_field list"
  defines "N \<equiv> n_fields fs"
  assumes "k < N" and "s < N" and "N \<le> n + k"
    and "\<forall>k' < k. \<not> Q (field_at fs ((s + k') mod N))"
  shows "\<exists>b j. iter_scan n Q s (iter_at fs dest ((s + k) mod N)) = Some (b, iter_at fs dest j)
    \<and> j < N \<and> (if b then Q (field_at fs j)
                else j = s \<and> (\<forall>k' < N. \<not> Q (field_at fs ((s + k') mod N))))"
  using assms(2-)
proof (induction n arbitrary: k)
  case 0
  then show ?case by simp
next
  case (Suc n)
  let ?i = "(s + k) mod N"
  have i: "?i < N" using Suc.prems by simp
  show ?case
  proof (cases "Q (field_at fs ?i)")
    case True
    then show ?thesis using i by auto
  next
    case False
    have nxt: "snd (pb_field_iter_next (iter_at fs dest ?i)) = iter_at fs dest ((s + Suc k) mod N)"
      using i by (simp add: iter_next_eq valid_pos_def N_def next_pos_mod mod_Suc_eq)
    have unfolded: "iter_scan (Suc n) Q s (iter_at fs dest ?i) =
        (if (s + Suc k) mod N = s then Some (False, iter_at fs dest ((s + Suc k) mod N))
         else iter_scan n Q s (iter_at fs dest ((s + Suc k) mod N)))"
      using False nxt by (auto simp: Let_def)
    have seen: "\<forall>k' < Suc k. \<not> Q (field_at fs ((s + k') mod N))"
      using Suc.prems False by (auto simp: less_Suc_eq)
    show ?thesis
    proof (cases "(s + Suc k) mod N = s")
      case True
      have "Suc k = N"
      proof (rule ccontr)
        assume "Suc k \<noteq> N"
        then have "Suc k < N" using Suc.prems by simp
        with True \<open>s < N\<close> show False
          by (cases "s + Suc k < N") (auto simp: mod_if split: if_splits)
      qed
      then show ?thesis using True unfolded seen \<open>s < N\<close> by auto
    next
      case False
      have "Suc k < N"
      proof (rule ccontr)
        assume "\<not> Suc k < N"
        then have "Suc k = N" using Suc.prems by simp
        with False \<open>s < N\<close> show False by simp
      qed
      then have "\<exists>b j. iter_scan n Q s (iter_at fs dest ((s + Suc k) mod N))
            = Some (b, iter_at fs dest j)
          \<and> j < N \<and> (if b then Q (field_at fs j)
             else j = s \<and> (\<forall>k' < N. \<not> Q (field_at fs ((s + k') mod N))))"
        using Suc.IH [of "Suc k"] Suc.prems seen by simp
      with False unfolded show ?thesis by simp
    qed
  qed
qed

lemma field_at_shift:
  assumes "j < N" and "s < (N :: nat)"
  shows "\<exists>k < N. (s + k) mod N = j"
proof (cases "s \<le> j")
  case True
  then show ?thesis using assms by (intro exI [of _ "j - s"]) auto
next
  case False
  then have "(s + (N - s + j)) mod N = j" and "N - s + j < N" using assms by auto
  then show ?thesis by blast
qed

text \<open>
  The search returns, whatever the position, with the iterator at a field of
  the same table; it answers \<open>true\<close> exactly when some field before the
  terminator passes the test, and is back where it started otherwise.
\<close>

lemma iter_scan_nonempty:
  assumes "i < n_fields fs"
  shows "\<exists>b j. iter_scan (Suc (length fs)) Q i (iter_at fs dest i) = Some (b, iter_at fs dest j)
    \<and> j < n_fields fs \<and> (b \<longrightarrow> Q (field_at fs j))
    \<and> (\<not> b \<longrightarrow> j = i \<and> (\<forall>j < n_fields fs. \<not> Q (field_at fs j)))"
proof -
  have "n_fields fs \<le> Suc (length fs) + 0" using n_fields_le [of fs] by simp
  from iter_scan_turn [where k = 0 and s = i and fs = fs and Q = Q and dest = dest, OF _ assms this]
  obtain b j where *: "iter_scan (Suc (length fs)) Q i (iter_at fs dest i) = Some (b, iter_at fs dest j)"
      "j < n_fields fs"
      "if b then Q (field_at fs j)
       else j = i \<and> (\<forall>k' < n_fields fs. \<not> Q (field_at fs ((i + k') mod n_fields fs)))"
    using assms by auto
  moreover have "\<not> b \<longrightarrow> (\<forall>j < n_fields fs. \<not> Q (field_at fs j))"
    using *(3) field_at_shift [OF _ assms] by (metis (full_types))
  ultimately show ?thesis by (auto split: if_splits)
qed

lemma iter_scan_empty:
  "n_fields fs = 0 \<Longrightarrow> iter_scan (Suc (length fs)) Q 0 (iter_at fs dest 0)
     = Some (Q (field_at fs 0), iter_at fs dest 0)"
  by (simp add: iter_next_empty)

lemma iter_scan_valid:
  assumes "valid_pos fs i"
  obtains b j where "iter_scan (Suc (length fs)) Q i (iter_at fs dest i) = Some (b, iter_at fs dest j)"
    and "valid_pos fs j" and "b \<longrightarrow> Q (field_at fs j)"
    and "\<not> b \<longrightarrow> j = i \<and> (\<forall>j < n_fields fs. \<not> Q (field_at fs j))"
proof (cases "n_fields fs = 0")
  case True
  then have "i = 0" using assms by (simp add: valid_pos_def)
  then show thesis using that [of "Q (field_at fs 0)" 0] iter_scan_empty [OF True] True by simp
next
  case False
  then have "i < n_fields fs" using assms by (simp add: valid_pos_def)
  from iter_scan_nonempty [OF this, of Q dest] that show thesis by (auto simp: valid_pos_def)
qed

lemma iter_find_eq_scan:
  "pb_field_iter_find (iter_at fs dest i) tag = iter_scan (Suc (length fs)) (field_matches tag) i (iter_at fs dest i)"
  by (simp only: pb_field_iter_find_def iter_find_loop_scan iter_at_simps)

lemma iter_find_nonempty:
  assumes "i < n_fields fs"
  shows "\<exists>b j. pb_field_iter_find (iter_at fs dest i) tag = Some (b, iter_at fs dest j)
    \<and> j < n_fields fs \<and> (b \<longrightarrow> field_matches tag (field_at fs j))
    \<and> (\<not> b \<longrightarrow> j = i \<and> (\<forall>j < n_fields fs. \<not> field_matches tag (field_at fs j)))"
  unfolding iter_find_eq_scan by (rule iter_scan_nonempty [OF assms])

lemma iter_find_valid:
  assumes "valid_pos fs i"
  obtains b j where "pb_field_iter_find (iter_at fs dest i) tag = Some (b, iter_at fs dest j)"
    and "valid_pos fs j" and "b \<longrightarrow> field_matches tag (field_at fs j)"
    and "\<not> b \<longrightarrow> j = i \<and> (\<forall>j < n_fields fs. \<not> field_matches tag (field_at fs j))"
  unfolding iter_find_eq_scan by (rule iter_scan_valid [OF assms])

section \<open>Descriptor tables built by the macros\<close>

text \<open>
  One line of a generated table, \<^verbatim>\<open>PB_FIELD(...)\<close> or \<^verbatim>\<open>PB_ONEOF_FIELD(...)\<close>, and the
  table of a list of lines: each line names the member before it.
\<close>

record pb_decl =
  d_tag :: nat
  d_type :: proto_type
  d_rules :: pb_rules
  d_alloc :: pb_allocation
  d_place :: pb_placement
  d_mem :: c_member
  d_aux :: c_member
  d_ptr :: pb_field_ptr

definition decl_field :: "c_member \<Rightarrow> pb_decl \<Rightarrow> pb_field option" where
  "decl_field prev d = PB_FIELD (d_tag d) (d_type d) (d_rules d) (d_alloc d) (d_place d)
     (d_mem d) (d_aux d) prev (d_ptr d)"

fun pb_table :: "c_member \<Rightarrow> pb_decl list \<Rightarrow> pb_field list option" where
  "pb_table prev [] = Some []"
| "pb_table prev (d # ds) =
     (case decl_field prev d of None \<Rightarrow> None
      | Some f \<Rightarrow> map_option (Cons f) (pb_table (d_mem d) ds))"

text \<open>
  What a C compiler guarantees of the members: a repeated static member is an
  array of whole entries, a pointer takes 8 bytes, the members follow each other
  without overlap, and the members of one union start at the same offset.
\<close>

definition decl_ok :: "pb_decl \<Rightarrow> bool" where
  "decl_ok d \<longleftrightarrow> d_tag d \<noteq> 0 \<and> d_rules d \<noteq> OPTEXT \<and> m_offset (d_mem d) < PB_SIZE_MAX
     \<and> (d_alloc d = STATIC \<and> d_rules d = REPEATED \<longrightarrow> m_elem (d_mem d) dvd m_size (d_mem d))
     \<and> (d_alloc d = POINTER \<longrightarrow> m_size (d_mem d) = sizeof_ptr)"

fun struct_ok :: "pb_decl \<Rightarrow> pb_decl list \<Rightarrow> bool" where
  "struct_ok p [] = True"
| "struct_ok p (d # ds) = (decl_ok d \<and> struct_ok d ds \<and>
     (case d_place d of
        FIRST \<Rightarrow> False
      | OTHER \<Rightarrow> m_offset (d_mem p) + m_size (d_mem p) \<le> m_offset (d_mem d)
      | UNION \<Rightarrow> d_rules p = ONEOF \<and> d_rules d = ONEOF
                 \<and> m_offset (d_mem d) = m_offset (d_mem p) \<and> d_aux d = d_aux p))"

definition message_ok :: "pb_decl list \<Rightarrow> bool" where
  "message_ok ds = (case ds of [] \<Rightarrow> True
     | d # ds \<Rightarrow> decl_ok d \<and> d_place d = FIRST \<and> struct_ok d ds)"

definition message_table :: "pb_decl list \<Rightarrow> pb_field list option" where
  "message_table ds = (case ds of [] \<Rightarrow> Some [] | d # ds' \<Rightarrow> pb_table (d_mem d) ds)"

lemma decl_field_facts:
  assumes "decl_field prev d = Some f" and "decl_ok d"
  shows "ftag f = d_tag d" "data_offset f = PB_DATAOFFSET (d_place d) (d_mem d) prev"
    "field_extent f = m_size (d_mem d)"
    "PB_HTYPE (ftype f) = PB_HTYPE_ONEOF \<longleftrightarrow> d_rules d = ONEOF"
    "d_rules d = ONEOF \<Longrightarrow> size_offset f = pb_delta (d_aux d) (d_mem d)"
    "d_rules d \<noteq> ONEOF \<Longrightarrow> size_offset f = 0 \<or> size_offset f = pb_delta (d_aux d) (d_mem d)"
    "fptr f = d_ptr d"
  using assms
  by (cases "d_rules d"; cases "d_alloc d";
      auto simp: decl_field_def PB_FIELD_def decl_ok_def field_extent_def pb_arraysize_def
        PB_REQUIRED_STATIC_def PB_OPTIONAL_STATIC_def PB_SINGULAR_STATIC_def PB_REPEATED_STATIC_def
        PB_REQUIRED_POINTER_def PB_OPTIONAL_POINTER_def PB_REPEATED_POINTER_def
        PB_REQUIRED_CALLBACK_def PB_OPTIONAL_CALLBACK_def PB_REPEATED_CALLBACK_def
        PB_ONEOF_STATIC_def PB_ONEOF_POINTER_def)+

lemma pb_table_nth:
  assumes "pb_table prev ds = Some fs" and "i < length ds"
  shows "decl_field (if i = 0 then prev else d_mem (ds ! (i - 1))) (ds ! i) = Some (fs ! i)"
  using assms
proof (induction ds arbitrary: prev fs i)
  case (Cons d ds)
  then obtain f fs' where f: "decl_field prev d = Some f" "pb_table (d_mem d) ds = Some fs'"
      "fs = f # fs'"
    by (auto split: option.splits)
  show ?case
  proof (cases i)
    case (Suc j)
    then show ?thesis using Cons.IH [OF f(2), of j] Cons.prems f(3) by (cases j) auto
  qed (use f in simp)
qed simp

lemma pb_table_length: "pb_table prev ds = Some fs \<Longrightarrow> length fs = length ds"
  by (induction ds arbitrary: prev fs) (auto split: option.splits)

lemma struct_ok_nth:
  assumes "struct_ok p ds" and "i < length ds"
  shows "decl_ok (ds ! i) \<and> struct_ok (if i = 0 then p else ds ! (i - 1)) [ds ! i]"
  using assms
proof (induction ds arbitrary: p i)
  case (Cons d ds)
  then show ?case by (cases i) (auto split: nat.splits if_splits simp: nth_Cons')
qed simp

lemma message_decl:
  assumes "message_table ds = Some fs" and "message_ok ds" and "i < length ds"
  shows "decl_ok (ds ! i)"
    and "decl_field (d_mem (ds ! (i - 1))) (ds ! i) = Some (fs ! i)"
    and "i = 0 \<Longrightarrow> d_place (ds ! i) = FIRST"
    and "0 < i \<Longrightarrow> struct_ok (ds ! (i - 1)) [ds ! i]"
    and "length fs = length ds"
proof -
  obtain d ds' where ds: "ds = d # ds'" using assms(3) by (cases ds) auto
  with assms have t: "pb_table (d_mem d) ds = Some fs" and d: "decl_ok d" "d_place d = FIRST"
      and st: "struct_ok d ds'"
    by (auto simp: message_table_def message_ok_def split: option.splits)
  show "length fs = length ds" using t by (rule pb_table_length)
  show "decl_field (d_mem (ds ! (i - 1))) (ds ! i) = Some (fs ! i)"
    using pb_table_nth [OF t assms(3)] ds by (auto split: if_splits)
  show "i = 0 \<Longrightarrow> d_place (ds ! i) = FIRST" using ds d by simp
  have *: "decl_ok (ds ! i) \<and> struct_ok (ds ! (i - 1)) [ds ! i]" if "0 < i"
    using struct_ok_nth [OF st, of "i - 1"] assms(3) ds that
    by (cases i; cases "i - 1") (auto simp del: struct_ok.simps)
  show "decl_ok (ds ! i)" using * d ds by (cases "i = 0") auto
  show "0 < i \<Longrightarrow> struct_ok (ds ! (i - 1)) [ds ! i]" using * by blast
qed

lemma message_n_fields:
  assumes "message_table ds = Some fs" and "message_ok ds"
  shows "n_fields fs = length ds"
proof (cases ds)
  case Nil
  then show ?thesis using assms by (simp add: message_table_def n_fields_def)
next
  case (Cons d ds')
  then have len: "length fs = length ds" using message_decl(5) [OF assms, of 0] by simp
  have "ftag (fs ! i) \<noteq> 0" if "i < length ds" for i
    using decl_field_facts(1) [OF message_decl(2,1) [OF assms that]] message_decl(1) [OF assms that]
    by (simp add: decl_ok_def)
  then have "\<forall>f \<in> set fs. ftag f \<noteq> 0" using len by (auto simp: in_set_conv_nth)
  then show ?thesis using len by (simp add: n_fields_def takeWhile_eq_all_conv [THEN iffD2])
qed

text \<open>
  The addresses the iterator computes are the addresses of the members, and the
  second address is that of the \<^verbatim>\<open>has_\<close>, \<^verbatim>\<open>_count\<close> or \<^verbatim>\<open>which_\<close> member where the
  descriptor has one.
\<close>

lemma message_addr:
  assumes "message_table ds = Some fs" and "message_ok ds" and "i < length ds"
  shows "field_addr fs dest i = dest + int (m_offset (d_mem (ds ! i)))
    \<and> (d_rules (ds ! i) = ONEOF \<or> size_offset (fs ! i) \<noteq> 0 \<longrightarrow>
        field_size_addr fs dest i = dest + int (m_offset (d_aux (ds ! i))))"
  using assms(3)
proof (induction i)
  case 0
  note f = message_decl [OF assms(1,2) 0]
  from decl_field_facts [OF f(2,1)] f(3,5) 0 show ?case
    by (auto simp: field_at_def pb_delta_def)
next
  case (Suc i)
  let ?p = "ds ! i" and ?d = "ds ! Suc i"
  note f = message_decl [OF assms(1,2) Suc.prems]
  have i: "i < length ds" using Suc.prems by simp
  note g = message_decl [OF assms(1,2) i]
  note ff = decl_field_facts [OF f(2,1)] and gg = decl_field_facts [OF g(2,1)]
  have at: "field_at fs i = fs ! i" "field_at fs (Suc i) = fs ! Suc i"
    using f(5) Suc.prems by (simp_all add: field_at_def)
  have st: "struct_ok ?p [?d]" using f(4) by simp
  have IH: "field_addr fs dest i = dest + int (m_offset (d_mem ?p))"
    "d_rules ?p = ONEOF \<Longrightarrow> field_size_addr fs dest i = dest + int (m_offset (d_aux ?p))"
    using Suc.IH i by auto
  show ?case
  proof (cases "d_place ?d")
    case UNION
    then have "same_union (fs ! i) (fs ! Suc i)"
      using st ff(2,4) gg(4) by (simp add: same_union_def)
    then show ?thesis using IH UNION st at by auto
  next
    case OTHER
    have "data_offset (fs ! Suc i) < PB_SIZE_MAX"
      using ff(2) f(1) OTHER unfolding decl_ok_def by (simp add: less_imp_diff_less)
    then have "\<not> same_union (fs ! i) (fs ! Suc i)" by (simp add: same_union_def)
    then show ?thesis using IH OTHER st at ff gg(3) by (auto simp: pb_delta_def)
  next
    case FIRST
    then show ?thesis using st by simp
  qed
qed

end
