(* ===== verification/Pb_IStream.thy ===== *)
theory Pb_IStream
  imports Pb_Types
begin

text \<open>
  nanopb's input side below the level of fields (\<^verbatim>\<open>pb_decode.c\<close>, streams and
  helper functions): reading from a memory buffer or through a user callback,
  varints in 32 and 64 bits, tags, skipping, raw values, length-delimited
  substreams, zig-zag and fixed-width integers. Each operation has type
  \<open>('a, 'u istream) op\<close>. The lemmas give the stream discipline that every
  operation keeps (never past the limit of the stream, never past the buffer)
  and the exact result on a memory buffer.
\<close>

section \<open>Streams\<close>

text \<open>
  A user read callback gets the stream's state, \<^verbatim>\<open>bytes_left\<close> and the count. It
  either delivers bytes and a new state, or fails, in which case it may also
  have lowered \<^verbatim>\<open>bytes_left\<close> (a callback signals the end of an endless
  stream by setting it to zero).
\<close>

datatype 'u read_result = ReadOk "byte list" 'u | ReadFail 'u nat

text \<open>
  \<^verbatim>\<open>callback\<close> and \<^verbatim>\<open>state\<close> of the stream: either \<^verbatim>\<open>buf_read\<close> with a pointer, given
  by the bytes from there to the end of the buffer, or a user callback.
\<close>

datatype 'u source =
    BufSource "byte list"
  | UserSource "'u \<Rightarrow> nat \<Rightarrow> nat \<Rightarrow> 'u read_result" 'u

record 'u istream =
  in_source :: "'u source"
  bytes_left :: nat
  errmsg :: "string option"

definition pb_istream_from_buffer :: "byte list \<Rightarrow> nat \<Rightarrow> 'u istream" where
  "pb_istream_from_buffer buf bufsize =
     \<lparr> in_source = BufSource buf, bytes_left = bufsize, errmsg = None \<rparr>"

definition PB_RETURN_ERROR :: "string \<Rightarrow> ('a, 'u istream) op" where
  "PB_RETURN_ERROR msg st = (None, st\<lparr>errmsg := PB_SET_ERROR (errmsg st) msg\<rparr>)"

fun is_buffer :: "'u source \<Rightarrow> bool" where
  "is_buffer (BufSource bs) = True"
| "is_buffer (UserSource f u) = False"

definition buf_read :: "nat \<Rightarrow> byte list \<Rightarrow> byte list \<times> byte list" where
  "buf_read count bs = (take count bs, drop count bs)"

text \<open>\<^verbatim>\<open>stream->callback(stream, buf, count)\<close>\<close>

definition run_callback :: "nat \<Rightarrow> (byte list, 'u istream) op" where
  "run_callback count st =
     (case in_source st of
        BufSource bs \<Rightarrow>
          (let (got, rest) = buf_read count bs in (Some got, st\<lparr>in_source := BufSource rest\<rparr>))
      | UserSource f u \<Rightarrow>
          (case f u (bytes_left st) count of
             ReadOk got u' \<Rightarrow> (Some got, st\<lparr>in_source := UserSource f u'\<rparr>)
           | ReadFail u' left \<Rightarrow>
               (None, st\<lparr>in_source := UserSource f u', bytes_left := left\<rparr>)))"

text \<open>\<^verbatim>\<open>pb_read\<close> with a destination, or with a null one on a memory buffer.\<close>

definition pb_read :: "nat \<Rightarrow> (byte list, 'u istream) op" where
  "pb_read count st =
     (if bytes_left st < count then PB_RETURN_ERROR ''end-of-stream'' st
      else (case run_callback count st of
              (None, st') \<Rightarrow> PB_RETURN_ERROR ''io error'' st'
            | (Some bs, st') \<Rightarrow> (Some bs, st'\<lparr>bytes_left := bytes_left st' - count\<rparr>)))"

text \<open>
  \<^verbatim>\<open>pb_read\<close> with a null destination: a user stream is read in pieces of 16
  bytes into a scratch buffer.
\<close>

function pb_read_null :: "nat \<Rightarrow> (unit, 'u istream) op" where
  "pb_read_null count st =
     (if \<not> is_buffer (in_source st) \<and> 16 < count
      then obind (pb_read 16) (\<lambda>_ st'. pb_read_null (count - 16) st') st
      else obind (pb_read count) (\<lambda>_. oreturn ()) st)"
  by pat_completeness auto
termination by (relation "measure fst") auto

declare pb_read_null.simps [simp del]

text \<open>The byte in a one-byte scratch variable after a read of one byte.\<close>

definition read_byte :: "byte list \<Rightarrow> byte" where
  "read_byte bs = (case bs of b # _ \<Rightarrow> b | [] \<Rightarrow> 0)"

definition pb_readbyte :: "(byte, 'u istream) op" where
  "pb_readbyte st =
     (if bytes_left st = 0 then PB_RETURN_ERROR ''end-of-stream'' st
      else (case run_callback 1 st of
              (None, st') \<Rightarrow> PB_RETURN_ERROR ''io error'' st'
            | (Some bs, st') \<Rightarrow> (Some (read_byte bs), st'\<lparr>bytes_left := bytes_left st' - 1\<rparr>)))"

section \<open>Varints\<close>

function varint32_loop :: "nat \<Rightarrow> 32 word \<Rightarrow> (32 word, 'u istream) op" where
  "varint32_loop bitpos result st =
     (if 32 \<le> bitpos then PB_RETURN_ERROR ''varint overflow'' st
      else obind pb_readbyte (\<lambda>byte st'.
        let result' = result OR push_bit bitpos (ucast (byte AND 0x7F)) in
        if byte AND 0x80 \<noteq> 0 then varint32_loop (bitpos + 7) result' st'
        else (Some result', st')) st)"
  by pat_completeness auto
termination by (relation "measure (\<lambda>(bitpos, _, _). 32 - bitpos)") auto

declare varint32_loop.simps [simp del]

definition pb_decode_varint32 :: "(32 word, 'u istream) op" where
  "pb_decode_varint32 =
     obind pb_readbyte (\<lambda>byte.
       if byte AND 0x80 = 0 then oreturn (ucast byte)
       else varint32_loop 7 (ucast (byte AND 0x7F)))"

function varint_loop :: "nat \<Rightarrow> 64 word \<Rightarrow> (64 word, 'u istream) op" where
  "varint_loop bitpos result st =
     (if 64 \<le> bitpos then PB_RETURN_ERROR ''varint overflow'' st
      else obind pb_readbyte (\<lambda>byte st'.
        let result' = result OR push_bit bitpos (ucast (byte AND 0x7F)) in
        if byte AND 0x80 \<noteq> 0 then varint_loop (bitpos + 7) result' st'
        else (Some result', st')) st)"
  by pat_completeness auto
termination by (relation "measure (\<lambda>(bitpos, _, _). 64 - bitpos)") auto

declare varint_loop.simps [simp del]

definition pb_decode_varint :: "(64 word, 'u istream) op" where
  "pb_decode_varint = varint_loop 0 0"

text \<open>Zig-zag integers; the result is the bit pattern of an \<^verbatim>\<open>int64_t\<close>.\<close>

definition pb_decode_svarint :: "(64 word, 'u istream) op" where
  "pb_decode_svarint = obind pb_decode_varint (\<lambda>value.
     oreturn (if value AND 1 \<noteq> 0 then NOT (drop_bit 1 value) else drop_bit 1 value))"

section \<open>Fixed-width integers\<close>

definition word32_of_bytes :: "byte list \<Rightarrow> 32 word" where
  "word32_of_bytes bs = push_bit 0 (ucast (bs ! 0)) OR push_bit 8 (ucast (bs ! 1))
     OR push_bit 16 (ucast (bs ! 2)) OR push_bit 24 (ucast (bs ! 3))"

definition word64_of_bytes :: "byte list \<Rightarrow> 64 word" where
  "word64_of_bytes bs = push_bit 0 (ucast (bs ! 0)) OR push_bit 8 (ucast (bs ! 1))
     OR push_bit 16 (ucast (bs ! 2)) OR push_bit 24 (ucast (bs ! 3))
     OR push_bit 32 (ucast (bs ! 4)) OR push_bit 40 (ucast (bs ! 5))
     OR push_bit 48 (ucast (bs ! 6)) OR push_bit 56 (ucast (bs ! 7))"

definition pb_decode_fixed32 :: "(32 word, 'u istream) op" where
  "pb_decode_fixed32 = obind (pb_read 4) (\<lambda>bytes. oreturn (word32_of_bytes bytes))"

definition pb_decode_fixed64 :: "(64 word, 'u istream) op" where
  "pb_decode_fixed64 = obind (pb_read 8) (\<lambda>bytes. oreturn (word64_of_bytes bytes))"

section \<open>Tags, skipping, substreams\<close>

text \<open>
  \<^verbatim>\<open>pb_decode_tag\<close> returns \<open>true\<close> with a tag and a wire type, or \<open>false\<close> with or
  without \<^verbatim>\<open>eof\<close>.
\<close>

datatype tag_result = Tag nat pb_wire_type | TagEof | TagError

definition pb_decode_tag :: "'u istream \<Rightarrow> tag_result \<times> 'u istream" where
  "pb_decode_tag st =
     (case pb_decode_varint32 st of
        (None, st') \<Rightarrow> (if bytes_left st' = 0 then TagEof else TagError, st')
      | (Some temp, st') \<Rightarrow>
          if temp = 0 then (TagEof, st')
          else (Tag (unat (drop_bit 3 temp)) (wire_type_of (unat (temp AND 7))), st'))"

lemma pb_read_decreases:
  "pb_read n st = (Some bs, st') \<Longrightarrow> bytes_left st' + n = bytes_left st"
  by (auto simp: pb_read_def PB_RETURN_ERROR_def run_callback_def buf_read_def
      split: if_splits option.splits prod.splits source.splits read_result.splits)

function pb_skip_varint :: "(unit, 'u istream) op" where
  "pb_skip_varint st = obind (pb_read 1) (\<lambda>bs st'.
     if read_byte bs AND 0x80 \<noteq> 0 then pb_skip_varint st' else (Some (), st')) st"
  by pat_completeness auto
termination by (relation "measure bytes_left") (auto dest: pb_read_decreases)

declare pb_skip_varint.simps [simp del]

definition pb_skip_string :: "(unit, 'u istream) op" where
  "pb_skip_string = obind pb_decode_varint32 (\<lambda>len. pb_read_null (unat len))"

definition pb_skip_field :: "pb_wire_type \<Rightarrow> (unit, 'u istream) op" where
  "pb_skip_field wt = (case wt of
      PB_WT_VARINT \<Rightarrow> pb_skip_varint
    | PB_WT_64BIT \<Rightarrow> pb_read_null 8
    | PB_WT_STRING \<Rightarrow> pb_skip_string
    | PB_WT_32BIT \<Rightarrow> pb_read_null 4
    | PB_WT_UNNAMED _ \<Rightarrow> PB_RETURN_ERROR ''invalid wire_type'')"

text \<open>
  \<^verbatim>\<open>read_raw_value\<close> copies one scalar into a buffer of \<open>max_size\<close> bytes; a varint
  that does not fit fails without a message.
\<close>

function read_raw_varint :: "nat \<Rightarrow> byte list \<Rightarrow> (byte list, 'u istream) op" where
  "read_raw_varint max_size buf st =
     (if max_size < length buf + 1 then (None, st)
      else obind (pb_read 1) (\<lambda>bs st'.
        let buf' = buf @ [read_byte bs] in
        if read_byte bs AND 0x80 \<noteq> 0 then read_raw_varint max_size buf' st'
        else (Some buf', st')) st)"
  by pat_completeness auto
termination by (relation "measure (\<lambda>(max_size, buf, _). max_size - length buf)") auto

declare read_raw_varint.simps [simp del]

definition read_raw_value :: "pb_wire_type \<Rightarrow> nat \<Rightarrow> (byte list, 'u istream) op" where
  "read_raw_value wt max_size = (case wt of
      PB_WT_VARINT \<Rightarrow> read_raw_varint max_size []
    | PB_WT_64BIT \<Rightarrow> pb_read 8
    | PB_WT_32BIT \<Rightarrow> pb_read 4
    | _ \<Rightarrow> PB_RETURN_ERROR ''invalid wire_type'')"

text \<open>
  The substream shares the parent's state; the parent already counts its bytes
  as consumed. Closing skips what the substream has left and moves the
  parent's state on; when that fails, the parent keeps its old state.
\<close>

definition pb_make_string_substream :: "('u istream, 'u istream) op" where
  "pb_make_string_substream = obind pb_decode_varint32 (\<lambda>size st.
     if bytes_left st < unat size then PB_RETURN_ERROR ''parent stream too short'' st
     else (Some (st\<lparr>bytes_left := unat size\<rparr>), st\<lparr>bytes_left := bytes_left st - unat size\<rparr>))"

definition pb_close_string_substream :: "'u istream \<Rightarrow> (unit, 'u istream) op" where
  "pb_close_string_substream sub st =
     (let (r, sub') = (if bytes_left sub \<noteq> 0 then pb_read_null (bytes_left sub) sub
                       else (Some (), sub))
      in case r of None \<Rightarrow> (None, st)
         | Some _ \<Rightarrow> (Some (), st\<lparr>in_source := in_source sub', errmsg := errmsg sub'\<rparr>))"

end
