(* ===== verification/Pb_OStream.thy ===== *)
theory Pb_OStream
  imports Pb_Types
begin

text \<open>
  nanopb's output side below the level of fields (\<^verbatim>\<open>pb_encode.c\<close>, streams and helper
  functions): writing to a memory buffer, through a user callback, or to the
  sizing stream that only counts; varints, zig-zag and fixed-width integers,
  tags and length-prefixed strings.
\<close>

section \<open>Streams\<close>

datatype 'u write_result = WriteOk 'u | WriteFail 'u

text \<open>
  \<^verbatim>\<open>callback\<close> and \<^verbatim>\<open>state\<close>: a null callback only counts; \<^verbatim>\<open>buf_write\<close> appends
  at its pointer, given by the bytes written so far; a user callback gets the
  bytes.
\<close>

datatype 'u sink =
    SizingSink
  | BufSink "byte list"
  | UserSink "'u \<Rightarrow> byte list \<Rightarrow> 'u write_result" 'u

record 'u ostream =
  out_sink :: "'u sink"
  max_size :: nat
  bytes_written :: nat
  out_errmsg :: "string option"

definition pb_ostream_from_buffer :: "nat \<Rightarrow> 'u ostream" where
  "pb_ostream_from_buffer bufsize =
     \<lparr> out_sink = BufSink [], max_size = bufsize, bytes_written = 0, out_errmsg = None \<rparr>"

definition PB_OSTREAM_SIZING :: "'u ostream" where
  "PB_OSTREAM_SIZING =
     \<lparr> out_sink = SizingSink, max_size = 0, bytes_written = 0, out_errmsg = None \<rparr>"

definition PB_RETURN_OERROR :: "string \<Rightarrow> ('a, 'u ostream) op" where
  "PB_RETURN_OERROR msg st = (None, st\<lparr>out_errmsg := PB_SET_ERROR (out_errmsg st) msg\<rparr>)"

fun is_sizing :: "'u sink \<Rightarrow> bool" where
  "is_sizing SizingSink = True"
| "is_sizing _ = False"

definition buf_write :: "byte list \<Rightarrow> byte list \<Rightarrow> byte list" where
  "buf_write buf written = written @ buf"

definition run_write_callback :: "byte list \<Rightarrow> (unit, 'u ostream) op" where
  "run_write_callback buf st =
     (case out_sink st of
        SizingSink \<Rightarrow> (Some (), st)
      | BufSink written \<Rightarrow> (Some (), st\<lparr>out_sink := BufSink (buf_write buf written)\<rparr>)
      | UserSink f u \<Rightarrow>
          (case f u buf of
             WriteOk u' \<Rightarrow> (Some (), st\<lparr>out_sink := UserSink f u'\<rparr>)
           | WriteFail u' \<Rightarrow> (None, st\<lparr>out_sink := UserSink f u'\<rparr>)))"

definition pb_write :: "byte list \<Rightarrow> (unit, 'u ostream) op" where
  "pb_write buf st =
     (if is_sizing (out_sink st)
      then (Some (), st\<lparr>bytes_written := bytes_written st + length buf\<rparr>)
      else if max_size st < bytes_written st + length buf then PB_RETURN_OERROR ''stream full'' st
      else (case run_write_callback buf st of
              (None, st') \<Rightarrow> PB_RETURN_OERROR ''io error'' st'
            | (Some _, st') \<Rightarrow>
                (Some (), st'\<lparr>bytes_written := bytes_written st' + length buf\<rparr>)))"

text \<open>\<^verbatim>\<open>pb_write(stream, NULL, size)\<close>, which the code only does on a sizing stream.\<close>

definition pb_write_null :: "nat \<Rightarrow> (unit, 'u ostream) op" where
  "pb_write_null count st = (Some (), st\<lparr>bytes_written := bytes_written st + count\<rparr>)"

section \<open>Integers\<close>

lemma unat_drop_bit7_less: "(v :: 64 word) \<noteq> 0 \<Longrightarrow> unat (drop_bit 7 v) < unat v"
proof -
  assume "v \<noteq> 0"
  then have "0 < unat v" by (simp add: unat_gt_0)
  moreover have "unat (drop_bit 7 v) = unat v div 128"
    by (simp add: drop_bit_eq_div unat_div)
  ultimately show ?thesis by simp
qed

function varint_groups :: "64 word \<Rightarrow> byte list" where
  "varint_groups value =
     (if value = 0 then []
      else (ucast (value AND 0x7F) OR 0x80) # varint_groups (drop_bit 7 value))"
  by pat_completeness auto
termination by (relation "measure unat") (auto intro: unat_drop_bit7_less)

declare varint_groups.simps [simp del]

text \<open>\<^verbatim>\<open>buffer[i-1] &= 0x7F\<close>\<close>

definition unset_top_of_last :: "byte list \<Rightarrow> byte list" where
  "unset_top_of_last bs = butlast bs @ [last bs AND 0x7F]"

definition pb_encode_varint :: "64 word \<Rightarrow> (unit, 'u ostream) op" where
  "pb_encode_varint value =
     (if value \<le> 0x7F then pb_write [ucast value]
      else pb_write (unset_top_of_last (varint_groups value)))"

definition zigzag :: "64 word \<Rightarrow> 64 word" where
  "zigzag value = (if sint value < 0 then NOT (push_bit 1 value) else push_bit 1 value)"

definition pb_encode_svarint :: "64 word \<Rightarrow> (unit, 'u ostream) op" where
  "pb_encode_svarint value = pb_encode_varint (zigzag value)"

definition bytes_of_word32 :: "32 word \<Rightarrow> byte list" where
  "bytes_of_word32 val = [ucast (val AND 0xFF), ucast (drop_bit 8 val AND 0xFF),
     ucast (drop_bit 16 val AND 0xFF), ucast (drop_bit 24 val AND 0xFF)]"

definition pb_encode_fixed32 :: "32 word \<Rightarrow> (unit, 'u ostream) op" where
  "pb_encode_fixed32 val = pb_write (bytes_of_word32 val)"

definition bytes_of_word64 :: "64 word \<Rightarrow> byte list" where
  "bytes_of_word64 val = [ucast (val AND 0xFF), ucast (drop_bit 8 val AND 0xFF),
     ucast (drop_bit 16 val AND 0xFF), ucast (drop_bit 24 val AND 0xFF),
     ucast (drop_bit 32 val AND 0xFF), ucast (drop_bit 40 val AND 0xFF),
     ucast (drop_bit 48 val AND 0xFF), ucast (drop_bit 56 val AND 0xFF)]"

definition pb_encode_fixed64 :: "64 word \<Rightarrow> (unit, 'u ostream) op" where
  "pb_encode_fixed64 val = pb_write (bytes_of_word64 val)"

section \<open>Tags and strings\<close>

definition pb_encode_tag :: "pb_wire_type \<Rightarrow> nat \<Rightarrow> (unit, 'u ostream) op" where
  "pb_encode_tag wiretype field_number =
     pb_encode_varint (push_bit 3 (word_of_nat field_number) OR word_of_nat (wire_type_code wiretype))"

definition wire_type_for :: "pb_ltype \<Rightarrow> pb_wire_type option" where
  "wire_type_for lt = (case lt of
      PB_LTYPE_VARINT \<Rightarrow> Some PB_WT_VARINT | PB_LTYPE_UVARINT \<Rightarrow> Some PB_WT_VARINT
    | PB_LTYPE_SVARINT \<Rightarrow> Some PB_WT_VARINT
    | PB_LTYPE_FIXED32 \<Rightarrow> Some PB_WT_32BIT
    | PB_LTYPE_FIXED64 \<Rightarrow> Some PB_WT_64BIT
    | PB_LTYPE_BYTES \<Rightarrow> Some PB_WT_STRING | PB_LTYPE_STRING \<Rightarrow> Some PB_WT_STRING
    | PB_LTYPE_SUBMESSAGE \<Rightarrow> Some PB_WT_STRING
    | PB_LTYPE_FIXED_LENGTH_BYTES \<Rightarrow> Some PB_WT_STRING
    | _ \<Rightarrow> None)"

definition pb_encode_tag_for_field :: "pb_field \<Rightarrow> (unit, 'u ostream) op" where
  "pb_encode_tag_for_field f =
     (case wire_type_for (PB_LTYPE (ftype f)) of
        None \<Rightarrow> PB_RETURN_OERROR ''invalid field type''
      | Some wt \<Rightarrow> pb_encode_tag wt (ftag f))"

definition pb_encode_string :: "byte list \<Rightarrow> (unit, 'u ostream) op" where
  "pb_encode_string buffer =
     obind (pb_encode_varint (word_of_nat (length buffer))) (\<lambda>_. pb_write buffer)"

section \<open>What a write does\<close>

text \<open>
  An operation is an \<^emph>\<open>emitter\<close> of a byte string when it appends exactly these
  bytes: on the sizing stream it counts them, on a buffer with room it stores
  them, and on a buffer without room it fails with ``stream full''.
\<close>

definition buf_ostream :: "byte list \<Rightarrow> nat \<Rightarrow> nat \<Rightarrow> string option \<Rightarrow> 'u ostream" where
  "buf_ostream written limit n e =
     \<lparr> out_sink = BufSink written, max_size = limit, bytes_written = n, out_errmsg = e \<rparr>"

lemma buf_ostream_eq_iff [simp]:
  "buf_ostream w l n e = buf_ostream w' l' n' e' \<longleftrightarrow> w = w' \<and> l = l' \<and> n = n' \<and> e = e'"
  by (auto simp: buf_ostream_def)

lemma pb_write_buffer:
  "n + length bs \<le> l \<Longrightarrow>
     pb_write bs (buf_ostream w l n e) = (Some (), buf_ostream (w @ bs) l (n + length bs) e)"
  by (simp add: pb_write_def buf_ostream_def run_write_callback_def buf_write_def)

lemma pb_write_full:
  "l < n + length bs \<Longrightarrow>
     pb_write bs (buf_ostream w l n e) = (None, buf_ostream w l n (PB_SET_ERROR e ''stream full''))"
  by (simp add: pb_write_def buf_ostream_def PB_RETURN_OERROR_def)

lemma pb_write_sizing:
  "is_sizing (out_sink st) \<Longrightarrow>
     pb_write bs st = (Some (), st\<lparr>bytes_written := bytes_written st + length bs\<rparr>)"
  by (simp add: pb_write_def)

end
