(* ===== verification/Pb_Wire.thy ===== *)
theory Pb_Wire
  imports Pb_IStream Pb_OStream
begin

text \<open>
  The wire format, where the two sides meet. On the input side: the locale
  \<open>istream_reader\<close> is the stream discipline every reading operation keeps, and
  the results on a memory buffer are stated for all byte strings. On the output
  side: the locale \<open>emitter\<close> says which bytes an operation writes, counts or
  refuses to write. The locale \<open>wire_codec\<close> puts an emitter and a reader
  together; its client lemmas lift one value to a sequence of values.
\<close>

section \<open>The stream discipline\<close>

text \<open>
  A user read callback delivers as many bytes as asked for and never raises the
  limit. \<open>in_ok k st\<close>: the buffer holds the \<open>bytes_left\<close> bytes of the stream and
  \<open>k\<close> more (those that belong to the enclosing streams).
\<close>

definition callback_ok :: "('u \<Rightarrow> nat \<Rightarrow> nat \<Rightarrow> 'u read_result) \<Rightarrow> bool" where
  "callback_ok f \<longleftrightarrow> (\<forall>u left n.
     case f u left n of ReadOk bs u' \<Rightarrow> length bs = n | ReadFail u' left' \<Rightarrow> left' \<le> left)"

lemma callback_ok_Ok: "callback_ok f \<Longrightarrow> f u left n = ReadOk bs u' \<Longrightarrow> length bs = n"
  unfolding callback_ok_def by (drule spec [of _ u], drule spec [of _ left], drule spec [of _ n]) simp

lemma callback_ok_Fail: "callback_ok f \<Longrightarrow> f u left n = ReadFail u' left' \<Longrightarrow> left' \<le> left"
  unfolding callback_ok_def by (drule spec [of _ u], drule spec [of _ left], drule spec [of _ n]) simp

definition in_ok :: "nat \<Rightarrow> 'u istream \<Rightarrow> bool" where
  "in_ok k st = (case in_source st of
     BufSource bs \<Rightarrow> bytes_left st + k \<le> length bs
   | UserSource f u \<Rightarrow> callback_ok f)"

locale istream_reader =
  fixes r :: "('a, 'u istream) op"
  assumes keeps: "in_ok k st \<Longrightarrow> r st = (v, st') \<Longrightarrow> in_ok k st' \<and> bytes_left st' \<le> bytes_left st"
begin

lemma reader_in_ok: "in_ok k st \<Longrightarrow> in_ok k (snd (r st))"
  using keeps [of k st "fst (r st)" "snd (r st)"] by simp

lemma reader_bytes_left: "in_ok k st \<Longrightarrow> bytes_left (snd (r st)) \<le> bytes_left st"
  using keeps [of k st "fst (r st)" "snd (r st)"] by simp

end

lemma istream_readerI:
  "(\<And>k st v st'. in_ok k st \<Longrightarrow> r st = (v, st') \<Longrightarrow> in_ok k st' \<and> bytes_left st' \<le> bytes_left st)
   \<Longrightarrow> istream_reader r"
  by (rule istream_reader.intro)

named_theorems reader_intros

lemma reader_oreturn [reader_intros]: "istream_reader (oreturn x)"
  by (rule istream_readerI) (simp add: oreturn_def)

lemma reader_error [reader_intros]: "istream_reader (PB_RETURN_ERROR msg)"
  by (rule istream_readerI) (auto simp: PB_RETURN_ERROR_def in_ok_def split: source.splits)

lemma reader_obind [reader_intros]:
  assumes "istream_reader m" and "\<And>x. istream_reader (f x)"
  shows "istream_reader (obind m f)"
proof (rule istream_readerI)
  fix k st v st'
  assume ok: "in_ok k st" and run: "obind m f st = (v, st')"
  from run show "in_ok k st' \<and> bytes_left st' \<le> bytes_left st"
  proof (cases rule: obind_cases)
    case fail
    then show ?thesis using istream_reader.keeps [OF assms(1) ok] by blast
  next
    case (ok x s)
    with \<open>in_ok k st\<close> have "in_ok k s" "bytes_left s \<le> bytes_left st"
      using istream_reader.keeps [OF assms(1)] by blast+
    then show ?thesis using istream_reader.keeps [OF assms(2) _ ok(2)] by fastforce
  qed
qed

lemma reader_if [reader_intros]:
  "(c \<Longrightarrow> istream_reader a) \<Longrightarrow> (\<not> c \<Longrightarrow> istream_reader b) \<Longrightarrow> istream_reader (if c then a else b)"
  by simp

lemma run_callback_ok:
  assumes "in_ok k st" and "n \<le> bytes_left st" and "run_callback n st = (v, st')"
  shows "(case v of
      None \<Rightarrow> in_ok k st' \<and> bytes_left st' \<le> bytes_left st
    | Some bs \<Rightarrow> length bs = n \<and> bytes_left st' = bytes_left st
        \<and> in_ok k (st'\<lparr>bytes_left := bytes_left st' - n\<rparr>))"
proof (cases "in_source st")
  case (BufSource bs)
  then show ?thesis using assms by (auto simp: run_callback_def buf_read_def in_ok_def)
next
  case (UserSource f u)
  then have "callback_ok f" using assms(1) by (simp add: in_ok_def)
  then show ?thesis
    using assms(3) UserSource
    by (cases "f u (bytes_left st) n")
      (auto simp: run_callback_def in_ok_def dest: callback_ok_Ok callback_ok_Fail)
qed

lemma reader_pb_read [reader_intros]: "istream_reader (pb_read n)"
proof (rule istream_readerI)
  fix k st v st'
  assume ok: "in_ok k st" and run: "pb_read n st = (v, st')"
  show "in_ok k st' \<and> bytes_left st' \<le> bytes_left st"
  proof (cases "bytes_left st < n")
    case True
    then show ?thesis using run ok by (auto simp: pb_read_def PB_RETURN_ERROR_def in_ok_def split: source.splits)
  next
    case False
    obtain w s where c: "run_callback n st = (w, s)" by fastforce
    from run_callback_ok [OF ok _ c] False run c show ?thesis
      by (cases w) (auto simp: pb_read_def PB_RETURN_ERROR_def in_ok_def split: source.splits)
  qed
qed

lemma pb_readbyte_eq: "pb_readbyte = obind (pb_read 1) (\<lambda>bs. oreturn (read_byte bs))"
  by (rule ext) (auto simp: pb_readbyte_def pb_read_def obind_def oreturn_def PB_RETURN_ERROR_def
      split: option.splits prod.splits)

lemma reader_pb_readbyte [reader_intros]: "istream_reader pb_readbyte"
  unfolding pb_readbyte_eq by (intro reader_intros)

lemma reader_pb_read_null [reader_intros]: "istream_reader (pb_read_null n :: (unit, 'u istream) op)"
proof (induction n rule: less_induct)
  case (less n)
  show ?case
  proof (rule istream_readerI)
    fix k v and st st' :: "'u istream"
    assume ok: "in_ok k st" and run: "pb_read_null n st = (v, st')"
    have big: "istream_reader (obind (pb_read 16) (\<lambda>_. pb_read_null (n - 16 :: nat) :: (unit, 'u istream) op))" if "16 < n"
      by (intro reader_intros less.IH) (use that in simp)
    have small: "istream_reader (obind (pb_read n) (\<lambda>_. oreturn ()))"
      by (intro reader_intros)
    show "in_ok k st' \<and> bytes_left st' \<le> bytes_left st"
      using run istream_reader.keeps [OF big ok] istream_reader.keeps [OF small ok]
      by (auto simp: pb_read_null.simps [of n st] split: if_splits)
  qed
qed

lemma reader_varint32_loop [reader_intros]: "istream_reader (varint32_loop p w)"
proof (induction "32 - p" arbitrary: p w rule: less_induct)
  case less
  have unfold: "varint32_loop p w = (if 32 \<le> p then PB_RETURN_ERROR ''varint overflow''
      else obind pb_readbyte (\<lambda>b.
        if b AND 0x80 \<noteq> 0 then varint32_loop (p + 7) (w OR push_bit p (ucast (b AND 0x7F)))
        else oreturn (w OR push_bit p (ucast (b AND 0x7F)))))"
    by (rule ext) (auto simp: varint32_loop.simps [of p w] Let_def oreturn_def obind_def split: prod.splits option.splits)
  show ?case unfolding unfold by (intro reader_intros less.hyps) simp
qed

lemma reader_varint_loop [reader_intros]: "istream_reader (varint_loop p w)"
proof (induction "64 - p" arbitrary: p w rule: less_induct)
  case less
  have unfold: "varint_loop p w = (if 64 \<le> p then PB_RETURN_ERROR ''varint overflow''
      else obind pb_readbyte (\<lambda>b.
        if b AND 0x80 \<noteq> 0 then varint_loop (p + 7) (w OR push_bit p (ucast (b AND 0x7F)))
        else oreturn (w OR push_bit p (ucast (b AND 0x7F)))))"
    by (rule ext) (auto simp: varint_loop.simps [of p w] Let_def oreturn_def obind_def split: prod.splits option.splits)
  show ?case unfolding unfold by (intro reader_intros less.hyps) simp
qed

lemma reader_pb_decode_varint32 [reader_intros]: "istream_reader pb_decode_varint32"
  unfolding pb_decode_varint32_def by (intro reader_intros)

lemma reader_pb_decode_varint [reader_intros]: "istream_reader pb_decode_varint"
  unfolding pb_decode_varint_def by (intro reader_intros)

lemma reader_pb_decode_svarint [reader_intros]: "istream_reader pb_decode_svarint"
  unfolding pb_decode_svarint_def by (intro reader_intros)

lemma reader_pb_decode_fixed32 [reader_intros]: "istream_reader pb_decode_fixed32"
  unfolding pb_decode_fixed32_def by (intro reader_intros)

lemma reader_pb_decode_fixed64 [reader_intros]: "istream_reader pb_decode_fixed64"
  unfolding pb_decode_fixed64_def by (intro reader_intros)

lemma reader_pb_skip_varint [reader_intros]: "istream_reader pb_skip_varint"
proof (rule istream_readerI)
  fix k st and v :: "unit option" and st'
  assume "in_ok k st" and "pb_skip_varint st = (v, st')"
  then show "in_ok k st' \<and> bytes_left st' \<le> bytes_left st"
  proof (induction st arbitrary: st' rule: pb_skip_varint.induct)
    case (1 st)
    from 1(3) have "obind (pb_read 1) (\<lambda>bs s. if read_byte bs AND 0x80 \<noteq> 0 then pb_skip_varint s
        else (Some (), s)) st = (v, st')"
      by (simp add: pb_skip_varint.simps [of st])
    then show ?case
    proof (cases rule: obind_cases)
      case fail
      then show ?thesis using istream_reader.keeps [OF reader_pb_read 1(2)] by blast
    next
      case (ok bs s)
      then have s: "in_ok k s" "bytes_left s \<le> bytes_left st"
        using istream_reader.keeps [OF reader_pb_read 1(2)] by blast+
      then show ?thesis using ok 1(1) [OF ok(1) _ s(1)]
        by (cases "read_byte bs AND 0x80 = 0") force+
    qed
  qed
qed

lemma reader_pb_skip_string [reader_intros]: "istream_reader pb_skip_string"
  unfolding pb_skip_string_def by (intro reader_intros)

lemma reader_pb_skip_field [reader_intros]: "istream_reader (pb_skip_field wt)"
  unfolding pb_skip_field_def by (cases wt) (auto intro: reader_intros)

section \<open>Reading from a memory buffer\<close>

definition buf_stream :: "byte list \<Rightarrow> nat \<Rightarrow> string option \<Rightarrow> 'u istream" where
  "buf_stream bs left e = \<lparr> in_source = BufSource bs, bytes_left = left, errmsg = e \<rparr>"

lemma buf_stream_simps [simp]:
  "bytes_left (buf_stream bs n e) = n" "in_source (buf_stream bs n e) = BufSource bs"
  "errmsg (buf_stream bs n e) = e"
  "(buf_stream bs n e)\<lparr>bytes_left := k\<rparr> = buf_stream bs k e"
  "(buf_stream bs n e)\<lparr>in_source := BufSource cs\<rparr> = buf_stream cs n e"
  "(buf_stream bs n e)\<lparr>errmsg := e'\<rparr> = buf_stream bs n e'"
  "in_ok k (buf_stream bs n e) \<longleftrightarrow> n + k \<le> length bs"
  by (simp_all add: buf_stream_def in_ok_def)

lemma buf_stream_inject [simp]:
  "buf_stream bs n e = buf_stream bs' n' e' \<longleftrightarrow> bs = bs' \<and> n = n' \<and> e = e'"
  by (auto simp: buf_stream_def)

lemma error_buf [simp]:
  "PB_RETURN_ERROR msg (buf_stream bs n e) = (None, buf_stream bs n (PB_SET_ERROR e msg))"
  by (simp add: PB_RETURN_ERROR_def)

lemma pb_read_buf [wire_simps]:
  "pb_read k (buf_stream bs n e) =
     (if n < k then (None, buf_stream bs n (PB_SET_ERROR e ''end-of-stream''))
      else (Some (take k bs), buf_stream (drop k bs) (n - k) e))"
  by (simp add: pb_read_def run_callback_def buf_read_def)

lemma pb_read_null_buf [wire_simps]:
  "pb_read_null k (buf_stream bs n e) =
     (if n < k then (None, buf_stream bs n (PB_SET_ERROR e ''end-of-stream''))
      else (Some (), buf_stream (drop k bs) (n - k) e))"
  by (simp add: pb_read_null.simps [of k "buf_stream bs n e"] obind_def pb_read_buf oreturn_def)

lemma pb_readbyte_Cons [wire_simps]:
  "0 < n \<Longrightarrow> pb_readbyte (buf_stream (b # bs) n e) = (Some b, buf_stream bs (n - 1) e)"
  by (simp add: pb_readbyte_def run_callback_def buf_read_def read_byte_def)

lemma pb_readbyte_end [wire_simps]:
  "pb_readbyte (buf_stream bs 0 e) = (None, buf_stream bs 0 (PB_SET_ERROR e ''end-of-stream''))"
  by (simp add: pb_readbyte_def)

section \<open>Varints: the format\<close>

text \<open>
  A varint is a run of bytes with the continuation bit set, then one without;
  its value is read in base 128, least significant group first.
\<close>

fun is_varint :: "byte list \<Rightarrow> bool" where
  "is_varint [] = False"
| "is_varint (b # bs) = (if unat b < 128 then bs = [] else is_varint bs)"

primrec base128 :: "byte list \<Rightarrow> nat" where
  "base128 [] = 0"
| "base128 (b # bs) = unat b mod 128 + 128 * base128 bs"

fun varint_bytes :: "nat \<Rightarrow> byte list" where
  "varint_bytes n = (if n < 128 then [word_of_nat n]
     else word_of_nat (128 + n mod 128) # varint_bytes (n div 128))"

declare varint_bytes.simps [simp del]

lemma is_varint_not_Nil [simp]: "is_varint bs \<Longrightarrow> bs \<noteq> []"
  by auto

lemma continued_byte [simp]: "unat (128 + word_of_nat (n mod 128) :: byte) = 128 + n mod 128"
proof -
  have "unat (word_of_nat (128 + n mod 128) :: byte) = (128 + n mod 128) mod 256"
    by (rule unat_byte_of_nat)
  also have "\<dots> = 128 + n mod 128" by simp
  finally show ?thesis by simp
qed

lemma varint_bytes_ok [simp]: "is_varint (varint_bytes n)"
proof (induction n rule: varint_bytes.induct)
  case (1 n)
  then show ?case by (simp add: varint_bytes.simps [of n])
qed

lemma base128_varint_bytes [simp]: "base128 (varint_bytes n) = n"
proof (induction n rule: varint_bytes.induct)
  case (1 n)
  show ?case using 1 by (auto simp: varint_bytes.simps [of n])
qed

lemma varint_bytes_not_Nil [simp]: "varint_bytes n \<noteq> []"
  by (simp add: varint_bytes.simps [of n])

lemma varint_bytes_length: "0 < k \<Longrightarrow> n < 128 ^ k \<Longrightarrow> length (varint_bytes n) \<le> k"
proof (induction n arbitrary: k rule: varint_bytes.induct)
  case (1 n)
  show ?case
  proof (cases "n < 128")
    case False
    then have k: "1 < k" using "1.prems" by (cases "k = 1") auto
    have "n div 128 < 128 ^ (k - 1)"
      using "1.prems"(2) k by (cases k) (auto simp: less_mult_imp_div_less mult.commute)
    then have "length (varint_bytes (n div 128)) \<le> k - 1"
      using "1.IH" False k by simp
    then show ?thesis using False k by (simp add: varint_bytes.simps [of n])
  qed (use "1.prems" in \<open>simp add: varint_bytes.simps [of n]\<close>)
qed

text \<open>Any byte string starts with a varint, or else its first bytes all continue.\<close>

lemma varint_prefix_cases:
  obtains (varint) vs rest where "bs = vs @ rest" "is_varint vs" "length vs \<le> k"
    | (continues) "\<forall>b \<in> set (take k bs). 128 \<le> unat b"
proof (induction bs arbitrary: k thesis)
  case (Cons b bs)
  show ?case
  proof (cases "k = 0 \<or> unat b < 128")
    case True
    then show ?thesis
      using Cons.prems(1) [of "[b]" bs] Cons.prems(2) by (cases k) auto
  next
    case False
    show ?thesis
    proof (rule Cons.IH [of "k - 1"])
      fix vs rest
      assume "bs = vs @ rest" "is_varint vs" "length vs \<le> k - 1"
      then show thesis using False by (intro Cons.prems(1) [of "b # vs" rest]) auto
    next
      assume "\<forall>b \<in> set (take (k - 1) bs). 128 \<le> unat b"
      then show thesis using False by (intro Cons.prems(2)) (cases k; auto)
    qed
  qed
qed simp

lemma is_varint_prefix_unique:
  "is_varint vs \<Longrightarrow> is_varint ws \<Longrightarrow> vs @ xs = ws @ ys \<Longrightarrow> vs = ws \<and> xs = ys"
proof (induction vs arbitrary: ws)
  case (Cons b vs)
  then show ?case by (cases ws) (auto split: if_splits)
qed simp

lemma is_varint_not_all_continue:
  "is_varint vs \<Longrightarrow> length vs \<le> k \<Longrightarrow> \<not> (\<forall>b \<in> set (take k (vs @ rest)). 128 \<le> unat b)"
proof (induction vs arbitrary: k)
  case (Cons b vs)
  then show ?case by (cases k) (auto split: if_splits)
qed simp

section \<open>Varints: decoding\<close>

text \<open>
  The 32-bit and the 64-bit decoder run the same loop at two widths. The locale
  states the loop once; its lemmas say what the loop returns on a varint that is
  short enough, too long, or cut off.
\<close>

locale varint_machine =
  fixes step_loop :: "nat \<Rightarrow> 'w::len word \<Rightarrow> ('w word, 'u istream) op"
  assumes loop_eq: "step_loop p w st =
     (if LENGTH('w) \<le> p then PB_RETURN_ERROR ''varint overflow'' st
      else obind pb_readbyte (\<lambda>byte st'.
        let w' = w OR push_bit p (ucast (byte AND 0x7F)) in
        if byte AND 0x80 \<noteq> 0 then step_loop (p + 7) w' st' else (Some w', st')) st)"
begin

lemma loop_step:
  assumes "p < LENGTH('w)" and "a < 2 ^ p" and "0 < left"
  shows "step_loop p (word_of_nat a) (buf_stream (b # bs) left e) =
     (if 128 \<le> unat b
      then step_loop (p + 7) (word_of_nat (a + 2 ^ p * (unat b mod 128))) (buf_stream bs (left - 1) e)
      else (Some (word_of_nat (a + 2 ^ p * unat b)), buf_stream bs (left - 1) e))"
  using assms
  by (auto simp: loop_eq [of p] pb_readbyte_Cons byte_msb group_added not_le Let_def
      simp del: of_nat_add of_nat_mult)

lemma loop_varint:
  assumes "is_varint vs" and "a < 2 ^ p" and "p + 7 * (length vs - 1) < LENGTH('w)"
  shows "step_loop p (word_of_nat a) (buf_stream (vs @ rest) (length vs + n) e)
    = (Some (word_of_nat (a + 2 ^ p * base128 vs)), buf_stream rest n e)"
  using assms
proof (induction vs arbitrary: a p)
  case (Cons b vs)
  show ?case
  proof (cases "unat b < 128")
    case True
    then show ?thesis using Cons.prems by (simp add: loop_step del: of_nat_add of_nat_mult)
  next
    case False
    then have vs: "is_varint vs" using Cons.prems by simp
    then obtain j where "length vs = Suc j" by (cases vs) auto
    then have "p + 7 + 7 * (length vs - 1) < LENGTH('w)" using Cons.prems(3) by simp
    then have "step_loop (p + 7) (word_of_nat (a + 2 ^ p * (unat b mod 128)))
          (buf_stream (vs @ rest) (length vs + n) e)
        = (Some (word_of_nat (a + 2 ^ p * (unat b mod 128) + 2 ^ (p + 7) * base128 vs)), buf_stream rest n e)"
      using Cons.prems group_bound by (intro Cons.IH [OF vs]) auto
    moreover have "a + 2 ^ p * (unat b mod 128) + 2 ^ (p + 7) * base128 vs = a + 2 ^ p * base128 (b # vs)"
      by (simp add: power_add algebra_simps)
    ultimately show ?thesis
      using False Cons.prems by (simp add: loop_step del: of_nat_add of_nat_mult base128.simps)
  qed
qed simp

lemma loop_overlong:
  assumes "\<forall>b \<in> set bs. 128 \<le> unat b" and "a < 2 ^ p" and "LENGTH('w) \<le> p + 7 * length bs"
  shows "fst (step_loop p (word_of_nat a) (buf_stream (bs @ rest) (length bs + n) e)) = None"
  using assms
proof (induction bs arbitrary: a p)
  case Nil
  then show ?case by (simp add: loop_eq [of p])
next
  case (Cons b bs)
  show ?case
  proof (cases "LENGTH('w) \<le> p")
    case True
    then show ?thesis by (simp add: loop_eq [of p])
  next
    case False
    then show ?thesis
      using Cons.prems Cons.IH [OF _ group_bound [OF Cons.prems(2)], of b]
      by (simp add: loop_step del: of_nat_add of_nat_mult)
  qed
qed

lemma loop_cut_off:
  assumes "\<forall>b \<in> set bs. 128 \<le> unat b" and "a < 2 ^ p"
  shows "fst (step_loop p (word_of_nat a) (buf_stream (bs @ rest) (length bs) e)) = None"
  using assms
proof (induction bs arbitrary: a p)
  case Nil
  then show ?case by (simp add: loop_eq [of p] pb_readbyte_end)
next
  case (Cons b bs)
  show ?case
  proof (cases "LENGTH('w) \<le> p")
    case True
    then show ?thesis by (simp add: loop_eq [of p])
  next
    case False
    then show ?thesis
      using Cons.prems Cons.IH [OF _ group_bound [OF Cons.prems(2)], of b]
      by (simp add: loop_step del: of_nat_add of_nat_mult)
  qed
qed

text \<open>The loop from the start accepts exactly the varints that fit the width and the stream.\<close>

lemma loop_accepts:
  fixes k :: nat
  assumes k: "LENGTH('w) \<le> 7 * k" "7 * (k - 1) < LENGTH('w)" and left: "left \<le> length bs"
  shows "fst (step_loop 0 0 (buf_stream bs left e)) = Some v \<longleftrightarrow>
    (\<exists>vs rest. bs = vs @ rest \<and> is_varint vs \<and> length vs \<le> k \<and> length vs \<le> left
       \<and> v = word_of_nat (base128 vs))" (is "?L \<longleftrightarrow> ?R")
proof
  assume ?R
  then obtain vs rest where vs: "bs = vs @ rest" "is_varint vs" "length vs \<le> k" "length vs \<le> left"
      "v = word_of_nat (base128 vs)" by blast
  have "0 + 7 * (length vs - 1) < LENGTH('w)" using k(2) vs(3) by linarith
  with loop_varint [OF vs(2) _ this, of 0 rest "left - length vs" e] vs show ?L by simp
next
  assume L: ?L
  show ?R
  proof (cases rule: varint_prefix_cases [of bs "min k left"])
    case (varint vs rest)
    have "0 + 7 * (length vs - 1) < LENGTH('w)" using k(2) varint(3) by linarith
    with loop_varint [OF varint(2) _ this, of 0 rest "left - length vs" e] varint L
    have "v = word_of_nat (base128 vs)" by simp
    then show ?thesis using varint by auto
  next
    case continues
    let ?t = "take (min k left) bs"
    have split: "bs = ?t @ drop (min k left) bs" by simp
    show ?thesis
    proof (cases "k \<le> left")
      case True
      with left have len: "length ?t = k" by simp
      have "fst (step_loop 0 (word_of_nat 0) (buf_stream (?t @ drop (min k left) bs) (length ?t + (left - k)) e)) = None"
        using continues k(1) len by (intro loop_overlong) auto
      then show ?thesis using L len True by simp
    next
      case False
      with left have len: "length ?t = left" by simp
      have "fst (step_loop 0 (word_of_nat 0) (buf_stream (?t @ drop (min k left) bs) (length ?t) e)) = None"
        using continues by (intro loop_cut_off) auto
      then show ?thesis using L len by simp
    qed
  qed
qed

end

interpretation v32: varint_machine "varint32_loop :: nat \<Rightarrow> 32 word \<Rightarrow> (32 word, 'u istream) op"
  by unfold_locales (simp add: varint32_loop.simps)

interpretation v64: varint_machine "varint_loop :: nat \<Rightarrow> 64 word \<Rightarrow> (64 word, 'u istream) op"
  by unfold_locales (simp add: varint_loop.simps)

text \<open>The one-byte shortcut of \<open>pb_decode_varint32\<close> changes nothing.\<close>

lemma pb_decode_varint32_eq: "pb_decode_varint32 = varint32_loop 0 0"
proof (rule ext)
  fix st :: "'u istream"
  have "b AND 0x80 = 0 \<Longrightarrow> b AND 0x7F = b" for b :: byte
    using byte_msb [of b] byte_low7 [of b] by (simp add: word_unat_eq_iff [of "b AND 0x7F"])
  then show "pb_decode_varint32 st = varint32_loop 0 0 st"
    by (auto simp: pb_decode_varint32_def varint32_loop.simps [of 0] Let_def obind_def oreturn_def
        split: prod.splits option.splits)
qed

lemma pb_decode_varint_varint:
  "is_varint vs \<Longrightarrow> length vs \<le> 10 \<Longrightarrow>
     pb_decode_varint (buf_stream (vs @ rest) (length vs + n) e)
       = (Some (word_of_nat (base128 vs)), buf_stream rest n e)"
proof -
  assume vs: "is_varint vs" and len: "length vs \<le> 10"
  have "0 + 7 * (length vs - 1) < LENGTH(64)" using len by simp
  with v64.loop_varint [OF vs, of 0 0 rest n e] show ?thesis by (simp add: pb_decode_varint_def)
qed

lemma pb_decode_varint32_varint:
  "is_varint vs \<Longrightarrow> length vs \<le> 5 \<Longrightarrow>
     pb_decode_varint32 (buf_stream (vs @ rest) (length vs + n) e)
       = (Some (word_of_nat (base128 vs)), buf_stream rest n e)"
proof -
  assume vs: "is_varint vs" and len: "length vs \<le> 5"
  have "0 + 7 * (length vs - 1) < LENGTH(32)" using len by simp
  with v32.loop_varint [OF vs, of 0 0 rest n e] show ?thesis by (simp add: pb_decode_varint32_eq)
qed

lemma varint_bytes_10: "n < 2 ^ 64 \<Longrightarrow> length (varint_bytes n) \<le> 10"
  by (rule varint_bytes_length) auto

lemma varint_bytes_5: "n < 2 ^ 32 \<Longrightarrow> length (varint_bytes n) \<le> 5"
  by (rule varint_bytes_length) auto

lemma pb_decode_varint_bytes [wire_simps]:
  "pb_decode_varint (buf_stream (varint_bytes (unat v) @ rest) (length (varint_bytes (unat v)) + n) e)
     = (Some v, buf_stream rest n e)"
  using pb_decode_varint_varint [of "varint_bytes (unat v)" rest n e] varint_bytes_10 [of "unat v"]
    unat64_less [of v] by simp

lemma pb_decode_varint32_bytes [wire_simps]:
  "pb_decode_varint32 (buf_stream (varint_bytes (unat v) @ rest) (length (varint_bytes (unat v)) + n) e)
     = (Some v, buf_stream rest n e)"
  using pb_decode_varint32_varint [of "varint_bytes (unat v)" rest n e] varint_bytes_5 [of "unat v"]
    unat32_less [of v] by simp

end
