(* ===== verification/Pb_Codec.thy ===== *)
theory Pb_Codec
  imports Pb_Wire
begin

text \<open>
  The output side and the round trips. The locale \<open>emitter\<close> is the contract of
  every encoding operation: it stands for one byte string, which it counts on
  the sizing stream, appends to a buffer with room, and never writes past the
  limit of a buffer without room. The locale \<open>wire_codec\<close> joins an emitter and a
  reader of the same values; what it proves for sequences holds of every scalar
  format of the library.
\<close>

section \<open>Emitters\<close>

locale emitter =
  fixes f :: "(unit, 'u ostream) op" and out :: "byte list"
  assumes sizing: "is_sizing (out_sink st) \<Longrightarrow>
      f st = (Some (), st\<lparr>bytes_written := bytes_written st + length out\<rparr>)"
    and room: "n + length out \<le> l \<Longrightarrow>
      f (buf_ostream w l n e) = (Some (), buf_ostream (w @ out) l (n + length out) e)"
    and full: "n \<le> l \<Longrightarrow> l < n + length out \<Longrightarrow>
      \<exists>p e'. f (buf_ostream w l n e) = (None, buf_ostream (w @ p) l (n + length p) e')
        \<and> n + length p \<le> l"
begin

text \<open>
  On a buffer stream the operation succeeds exactly when the bytes fit, and the
  stream never holds more than its limit.
\<close>

lemma succeeds_iff: "n \<le> l \<Longrightarrow> fst (f (buf_ostream w l n e)) = Some () \<longleftrightarrow> n + length out \<le> l"
  using room [of n l w e] full [of n l w e] by (cases "n + length out \<le> l") auto

lemma within_limit:
  assumes "n \<le> l"
  shows "\<exists>p k e'. snd (f (buf_ostream w l n e)) = buf_ostream (w @ p) l k e' \<and> k = n + length p \<and> k \<le> l"
  using assms room [of n l w e] full [of n l w e] by (cases "n + length out \<le> l") auto

end

lemma emitter_write: "emitter (pb_write bs) bs"
proof
  fix n l w e
  assume "l < n + length bs" "n \<le> l"
  then show "\<exists>p e'. pb_write bs (buf_ostream w l n e) = (None, buf_ostream (w @ p) l (n + length p) e')
      \<and> n + length p \<le> l"
    by (intro exI [of _ "[]"]) (simp add: pb_write_full)
qed (simp_all add: pb_write_sizing pb_write_buffer)

lemma emitter_return: "emitter (oreturn ()) []"
  by unfold_locales (simp_all add: oreturn_def)

lemma emitter_obind:
  assumes f: "emitter f a" and g: "emitter g b"
  shows "emitter (obind f (\<lambda>_. g)) (a @ b)"
proof
  fix st :: "'a ostream"
  assume "is_sizing (out_sink st)"
  then show "obind f (\<lambda>_. g) st = (Some (), st\<lparr>bytes_written := bytes_written st + length (a @ b)\<rparr>)"
    using emitter.sizing [OF f] emitter.sizing [OF g] by (simp add: obind_def add.assoc)
next
  fix n l :: nat and w e
  assume "n + length (a @ b) \<le> l"
  then show "obind f (\<lambda>_. g) (buf_ostream w l n e)
      = (Some (), buf_ostream (w @ a @ b) l (n + length (a @ b)) e)"
    by (simp add: obind_def emitter.room [OF f] emitter.room [OF g])
next
  fix n l :: nat and w e
  assume n: "n \<le> l" and full: "l < n + length (a @ b)"
  show "\<exists>p e'. obind f (\<lambda>_. g) (buf_ostream w l n e) = (None, buf_ostream (w @ p) l (n + length p) e')
      \<and> n + length p \<le> l"
  proof (cases "n + length a \<le> l")
    case False
    then show ?thesis using emitter.full [OF f n, of w e] by (auto simp: obind_def)
  next
    case True
    obtain p e' where "g (buf_ostream (w @ a) l (n + length a) e)
        = (None, buf_ostream ((w @ a) @ p) l (n + length a + length p) e')" "n + length a + length p \<le> l"
      using emitter.full [OF g True, of "w @ a" e] full by auto
    then show ?thesis using True
      by (intro exI [of _ "a @ p"] exI [of _ e']) (simp add: obind_def emitter.room [OF f])
  qed
qed

section \<open>The bytes of the scalar formats\<close>

lemma varint_group_byte: "ucast (v AND 0x7F :: 64 word) OR 0x80 = (word_of_nat (128 + unat v mod 128) :: byte)"
proof -
  have low: "unat (ucast (v AND 0x7F) :: byte) = unat v mod 128"
    by (simp only: unat_ucast_byte word64_low7) simp
  then have "unat (ucast (v AND 0x7F) OR 0x80 :: byte) = unat v mod 128 + 128"
    by (simp add: byte_or_msb del: of_nat_unat)
  then show ?thesis by (simp add: word_unat_eq_iff)
qed

lemma varint_group_last: "(word_of_nat (128 + k mod 128) :: byte) AND 0x7F = word_of_nat (k mod 128)"
proof -
  have "unat ((word_of_nat (128 + k mod 128) :: byte) AND 0x7F) = unat (word_of_nat (k mod 128) :: byte)"
    by (simp only: byte_low7 unat_byte_of_nat) simp
  then show ?thesis by (simp only: word_unat_eq_iff)
qed

lemma varint_groups_bytes:
  "v \<noteq> 0 \<Longrightarrow> unset_top_of_last (varint_groups v) = varint_bytes (unat v)"
proof (induction v rule: varint_groups.induct)
  case (1 v)
  have next_v: "unat (drop_bit 7 v) = unat v div 128"
    by (simp add: drop_bit_eq_div unat_div)
  have gs: "varint_groups v = word_of_nat (128 + unat v mod 128) # varint_groups (drop_bit 7 v)"
    using 1(2) by (simp add: varint_groups.simps [of v] varint_group_byte del: of_nat_add)
  show ?case
  proof (cases "drop_bit 7 v = 0")
    case True
    then have "unat v < 128" using next_v by (simp add: div_eq_0_iff)
    moreover have "varint_groups (drop_bit 7 v) = []" using True by (simp add: varint_groups.simps)
    ultimately show ?thesis
      using varint_group_last [of "unat v"]
      by (simp add: gs unset_top_of_last_def varint_bytes.simps [of "unat v"] del: of_nat_add)
  next
    case False
    then have big: "\<not> unat v < 128" using next_v by (metis div_less unat_0_iff)
    have ne: "varint_groups (drop_bit 7 v) \<noteq> []" using False by (simp add: varint_groups.simps)
    have "unset_top_of_last (varint_groups v)
        = word_of_nat (128 + unat v mod 128) # unset_top_of_last (varint_groups (drop_bit 7 v))"
      using ne by (simp add: gs unset_top_of_last_def)
    also have "unset_top_of_last (varint_groups (drop_bit 7 v)) = varint_bytes (unat v div 128)"
      using 1(1) [OF 1(2) False] by (simp only: next_v)
    finally show ?thesis using big by (simp add: varint_bytes.simps [of "unat v"])
  qed
qed

lemma pb_encode_varint_eq: "pb_encode_varint v = pb_write (varint_bytes (unat v))"
proof (cases "v \<le> 0x7F")
  case True
  then have "unat v < 128" by (simp add: word_le_nat_alt)
  then show ?thesis using True by (simp add: pb_encode_varint_def varint_bytes.simps [of "unat v"])
next
  case False
  then have "v \<noteq> 0" by auto
  then show ?thesis using False by (simp add: pb_encode_varint_def varint_groups_bytes)
qed

text \<open>The scratch buffer of \<open>pb_encode_varint\<close> has ten bytes, and ten are enough.\<close>

lemma varint_groups_length: "length (varint_groups v) \<le> 10"
proof (cases "v = 0")
  case False
  then have "varint_groups v \<noteq> []" by (simp add: varint_groups.simps [of v])
  then have "length (varint_groups v) = length (unset_top_of_last (varint_groups v))"
    by (simp add: unset_top_of_last_def)
  then show ?thesis using False varint_bytes_10 [OF unat64_less] by (simp add: varint_groups_bytes)
qed (simp add: varint_groups.simps)

lemma bytes_of_word32_eq: "bytes_of_word32 v = le_bytes 4 (unat v)"
  using byte_of_drop [of 0 v] byte_of_drop [of 8 v] byte_of_drop [of 16 v] byte_of_drop [of 24 v]
  by (simp add: bytes_of_word32_def div_mult2_eq [symmetric])

lemma bytes_of_word64_eq: "bytes_of_word64 v = le_bytes 8 (unat v)"
  using byte_of_drop [of 0 v] byte_of_drop [of 8 v] byte_of_drop [of 16 v] byte_of_drop [of 24 v]
    byte_of_drop [of 32 v] byte_of_drop [of 40 v] byte_of_drop [of 48 v] byte_of_drop [of 56 v]
  by (simp add: bytes_of_word64_def div_mult2_eq [symmetric])

lemma word32_of_bytes_eq: "length bs = 4 \<Longrightarrow> word32_of_bytes bs = word_of_nat (le_value bs)"
proof -
  assume "length bs = 4"
  then obtain b0 b1 b2 b3 where bs: "bs = [b0, b1, b2, b3]"
    by (auto simp: numeral_eq_Suc length_Suc_conv)
  have "word32_of_bytes bs =
     ((ucast b0 OR push_bit 8 (ucast b1)) OR push_bit 16 (ucast b2)) OR push_bit 24 (ucast b3)"
    by (simp add: bs word32_of_bytes_def numeral_2_eq_2 numeral_3_eq_3 or.assoc)
  have c0: "(ucast b0 :: 32 word) = word_of_nat (le_value [b0])"
    and c1: "word_of_nat (le_value [b0]) OR push_bit 8 (ucast b1) = (word_of_nat (le_value [b0, b1]) :: 32 word)"
    and c2: "word_of_nat (le_value [b0, b1]) OR push_bit 16 (ucast b2) = (word_of_nat (le_value [b0, b1, b2]) :: 32 word)"
    and c3: "word_of_nat (le_value [b0, b1, b2]) OR push_bit 24 (ucast b3) = (word_of_nat (le_value [b0, b1, b2, b3]) :: 32 word)"
    by (simp, (subst or_push_byte; simp)+)
  with bs \<open>word32_of_bytes bs = _\<close> show ?thesis by (simp only: c0 c1 c2 c3)
qed

lemma word64_of_bytes_eq: "length bs = 8 \<Longrightarrow> word64_of_bytes bs = word_of_nat (le_value bs)"
proof -
  assume "length bs = 8"
  then obtain b0 b1 b2 b3 b4 b5 b6 b7 where bs: "bs = [b0, b1, b2, b3, b4, b5, b6, b7]"
    by (auto simp: numeral_eq_Suc length_Suc_conv)
  have "word64_of_bytes bs =
     ((((((ucast b0 OR push_bit 8 (ucast b1)) OR push_bit 16 (ucast b2)) OR push_bit 24 (ucast b3))
       OR push_bit 32 (ucast b4)) OR push_bit 40 (ucast b5)) OR push_bit 48 (ucast b6)) OR push_bit 56 (ucast b7)"
    by (simp add: bs word64_of_bytes_def or.assoc)
  have c0: "(ucast b0 :: 64 word) = word_of_nat (le_value [b0])"
    and c1: "word_of_nat (le_value [b0]) OR push_bit 8 (ucast b1) = (word_of_nat (le_value [b0, b1]) :: 64 word)"
    and c2: "word_of_nat (le_value [b0, b1]) OR push_bit 16 (ucast b2) = (word_of_nat (le_value [b0, b1, b2]) :: 64 word)"
    and c3: "word_of_nat (le_value [b0, b1, b2]) OR push_bit 24 (ucast b3) = (word_of_nat (le_value [b0, b1, b2, b3]) :: 64 word)"
    and c4: "word_of_nat (le_value [b0, b1, b2, b3]) OR push_bit 32 (ucast b4) = (word_of_nat (le_value [b0, b1, b2, b3, b4]) :: 64 word)"
    and c5: "word_of_nat (le_value [b0, b1, b2, b3, b4]) OR push_bit 40 (ucast b5) = (word_of_nat (le_value [b0, b1, b2, b3, b4, b5]) :: 64 word)"
    and c6: "word_of_nat (le_value [b0, b1, b2, b3, b4, b5]) OR push_bit 48 (ucast b6) = (word_of_nat (le_value [b0, b1, b2, b3, b4, b5, b6]) :: 64 word)"
    and c7: "word_of_nat (le_value [b0, b1, b2, b3, b4, b5, b6]) OR push_bit 56 (ucast b7) = (word_of_nat (le_value [b0, b1, b2, b3, b4, b5, b6, b7]) :: 64 word)"
    by (simp, (subst or_push_byte; simp)+)
  with bs \<open>word64_of_bytes bs = _\<close> show ?thesis by (simp only: c0 c1 c2 c3 c4 c5 c6 c7)
qed

lemma pb_encode_fixed32_eq: "pb_encode_fixed32 v = pb_write (le_bytes 4 (unat v))"
  by (simp only: pb_encode_fixed32_def bytes_of_word32_eq)

lemma pb_encode_fixed64_eq: "pb_encode_fixed64 v = pb_write (le_bytes 8 (unat v))"
  by (simp only: pb_encode_fixed64_def bytes_of_word64_eq)

lemma pb_decode_fixed32_buf:
  assumes "length bs = 4"
  shows "pb_decode_fixed32 (buf_stream (bs @ rest) (4 + n) e)
    = (Some (word_of_nat (le_value bs)), buf_stream rest n e)"
  using assms word32_of_bytes_eq [OF assms]
  by (simp add: pb_decode_fixed32_def obind_def oreturn_def pb_read_buf)

lemma pb_decode_fixed64_buf:
  assumes "length bs = 8"
  shows "pb_decode_fixed64 (buf_stream (bs @ rest) (8 + n) e)
    = (Some (word_of_nat (le_value bs)), buf_stream rest n e)"
  using assms word64_of_bytes_eq [OF assms]
  by (simp add: pb_decode_fixed64_def obind_def oreturn_def pb_read_buf)

section \<open>Zig-zag\<close>

definition unzigzag :: "64 word \<Rightarrow> 64 word" where
  "unzigzag value = (if value AND 1 \<noteq> 0 then NOT (drop_bit 1 value) else drop_bit 1 value)"

lemma pb_decode_svarint_eq: "pb_decode_svarint = obind pb_decode_varint (\<lambda>v. oreturn (unzigzag v))"
  by (simp add: pb_decode_svarint_def unzigzag_def)

lemma sint_negative_iff: "sint (v :: 64 word) < 0 \<longleftrightarrow> bit v 63"
  using bit_last_iff [of v] by simp

lemma unzigzag_zigzag [simp]: "unzigzag (zigzag v) = v"
proof -
  have odd: "w AND 1 \<noteq> 0 \<longleftrightarrow> bit w 0" for w :: "64 word"
    by (simp add: and_one_eq bit_0 odd_iff_mod_2_eq_one)
  define d where "d = push_bit 1 v"
  have d0: "\<not> bit d 0" and dS: "bit d (Suc n) \<longleftrightarrow> Suc n < 64 \<and> bit v n" for n
    by (simp_all only: d_def bit_push_bit_iff) auto
  have z: "zigzag v = (if bit v 63 then NOT d else d)"
    by (simp only: zigzag_def d_def sint_negative_iff)
  show ?thesis
  proof (rule bit_word_eqI)
    fix n :: nat
    assume "n < LENGTH(64)"
    then have "n = 63 \<or> n < 63" by auto
    then show "bit (unzigzag (zigzag v)) n \<longleftrightarrow> bit v n"
      unfolding unzigzag_def odd z by (auto simp: bit_not_iff bit_drop_bit_eq d0 dS dest: bit_imp_le_length)
  qed
qed

text \<open>The code of a signed value: small magnitudes get small codes.\<close>

lemma uint64_of_int: "0 \<le> k \<Longrightarrow> k < 2 ^ 64 \<Longrightarrow> uint (word_of_int k :: 64 word) = k"
  by (simp add: unsigned_of_int take_bit_int_eq_self)

lemma zigzag_value:
  "uint (zigzag v) = (if sint v < 0 then - 2 * sint v - 1 else 2 * sint v)"
proof -
  define k where "k = (if sint v < 0 then - 2 * sint v - 1 else 2 * sint v)"
  have "- (2 ^ 63) \<le> sint v" "sint v < 2 ^ 63"
    using sint_greater_eq [of v] sint_less [of v] by simp_all
  then have "0 \<le> k" "k < 2 ^ 64" by (auto simp: k_def)
  moreover have "zigzag v = word_of_int k"
    by (auto simp: zigzag_def k_def push_bit_eq_mult not_eq_complement)
  ultimately show ?thesis by (simp only: uint64_of_int k_def)
qed

section \<open>Codecs\<close>

text \<open>Writing the values of a list one after the other, and reading \<open>k\<close> values.\<close>

primrec put_all :: "('a \<Rightarrow> (unit, 's) op) \<Rightarrow> 'a list \<Rightarrow> (unit, 's) op" where
  "put_all put [] = oreturn ()"
| "put_all put (v # vs) = obind (put v) (\<lambda>_. put_all put vs)"

primrec get_all :: "('a, 's) op \<Rightarrow> nat \<Rightarrow> ('a list, 's) op" where
  "get_all get 0 = oreturn []"
| "get_all get (Suc k) = obind get (\<lambda>v. obind (get_all get k) (\<lambda>vs. oreturn (v # vs)))"

locale wire_codec =
  fixes put :: "'a \<Rightarrow> (unit, 'u ostream) op"
    and get :: "('a, 'v istream) op"
    and wire :: "'a \<Rightarrow> byte list"
  assumes emits: "emitter (put v) (wire v)"
    and reads: "get (buf_stream (wire v @ rest) (length (wire v) + n) e) = (Some v, buf_stream rest n e)"
begin

lemma put_all_emits: "emitter (put_all put vs) (concat (map wire vs))"
  by (induction vs) (simp_all add: emitter_return emitter_obind emits)

lemma get_all_reads:
  "get_all get (length vs) (buf_stream (concat (map wire vs) @ rest) (length (concat (map wire vs)) + n) e)
    = (Some vs, buf_stream rest n e)"
proof (induction vs)
  case (Cons v vs)
  have "get (buf_stream (concat (map wire (v # vs)) @ rest) (length (concat (map wire (v # vs))) + n) e)
      = (Some v, buf_stream (concat (map wire vs) @ rest) (length (concat (map wire vs)) + n) e)"
    using reads [of v "concat (map wire vs) @ rest" "length (concat (map wire vs)) + n" e]
    by (simp add: add.assoc)
  with Cons.IH show ?case by (simp add: obind_def oreturn_def)
qed (simp add: oreturn_def)

text \<open>No encoding is a prefix of another, so a stream of values has one reading.\<close>

lemma wire_prefix_free:
  assumes "wire v @ xs = wire w @ ys"
  shows "v = w \<and> xs = ys"
proof -
  let ?n = "length (wire v) + length (wire w)"
  have "get (buf_stream (wire w @ ys) ?n None) = (Some v, buf_stream xs (length (wire w)) None)"
    using reads [of v xs "length (wire w)" None] unfolding assms .
  moreover have "get (buf_stream (wire w @ ys) ?n None) = (Some w, buf_stream ys (length (wire v)) None)"
    using reads [of w ys "length (wire v)" None] unfolding add.commute [of "length (wire w)"] .
  ultimately have "(Some v, buf_stream xs (length (wire w)) None :: 'v istream)
      = (Some w, buf_stream ys (length (wire v)) None)"
    by (rule trans [OF sym])
  then show ?thesis by (simp add: buf_stream_def)
qed

text \<open>Encoding into a buffer with room and decoding that buffer.\<close>

lemma round_trip:
  assumes "length (wire v) \<le> limit"
  shows "\<exists>out. put v (pb_ostream_from_buffer limit)
      = (Some (), buf_ostream out limit (length out) None)
    \<and> get (pb_istream_from_buffer out (length out)) = (Some v, buf_stream [] 0 None)"
  using emitter.room [OF emits, of 0 v limit "[]" None] reads [of v "[]" 0 None] assms
  by (intro exI [of _ "wire v"])
     (simp add: pb_ostream_from_buffer_def pb_istream_from_buffer_def buf_ostream_def buf_stream_def)

end

lemma emitter_varint: "emitter (pb_encode_varint v) (varint_bytes (unat v))"
  by (simp add: pb_encode_varint_eq emitter_write)

interpretation varint_codec: wire_codec pb_encode_varint pb_decode_varint "\<lambda>v. varint_bytes (unat v)"
  by (rule wire_codec.intro [OF emitter_varint pb_decode_varint_bytes])

interpretation svarint_codec: wire_codec pb_encode_svarint pb_decode_svarint
  "\<lambda>v. varint_bytes (unat (zigzag v))"
proof (rule wire_codec.intro)
  fix v
  show "emitter (pb_encode_svarint v) (varint_bytes (unat (zigzag v)))"
    by (simp add: pb_encode_svarint_def emitter_varint)
next
  fix v rest n e
  show "pb_decode_svarint (buf_stream (varint_bytes (unat (zigzag v)) @ rest)
      (length (varint_bytes (unat (zigzag v))) + n) e) = (Some v, buf_stream rest n e)"
    by (simp add: pb_decode_svarint_eq obind_def pb_decode_varint_bytes oreturn_def)
qed

interpretation fixed32_codec: wire_codec pb_encode_fixed32 pb_decode_fixed32
  "\<lambda>v. le_bytes 4 (unat v)"
proof (rule wire_codec.intro)
  show "emitter (pb_encode_fixed32 v) (le_bytes 4 (unat v))" for v
    by (simp only: pb_encode_fixed32_eq emitter_write)
next
  fix v rest n e
  show "pb_decode_fixed32 (buf_stream (le_bytes 4 (unat v) @ rest) (length (le_bytes 4 (unat v)) + n) e)
      = (Some v, buf_stream rest n e)"
    using pb_decode_fixed32_buf [OF length_le_bytes, of "unat v" rest n e] unat32_less [of v]
    by (simp del: le_bytes_numeral)
qed

interpretation fixed64_codec: wire_codec pb_encode_fixed64 pb_decode_fixed64
  "\<lambda>v. le_bytes 8 (unat v)"
proof (rule wire_codec.intro)
  show "emitter (pb_encode_fixed64 v) (le_bytes 8 (unat v))" for v
    by (simp only: pb_encode_fixed64_eq emitter_write)
next
  fix v rest n e
  show "pb_decode_fixed64 (buf_stream (le_bytes 8 (unat v) @ rest) (length (le_bytes 8 (unat v)) + n) e)
      = (Some v, buf_stream rest n e)"
    using pb_decode_fixed64_buf [OF length_le_bytes, of "unat v" rest n e] unat64_less [of v]
    by (simp del: le_bytes_numeral)
qed

end
