(* ===== verification/Pb_Skip.thy ===== *)
theory Pb_Skip
  imports Pb_Codec
begin

text \<open>
  Tags, strings, skipping and substreams: what one field occupies on the wire, and
  that skipping consumes exactly that. The locale \<open>istream_reader\<close> is interpreted
  here on the operations with which the field decoders move through a stream.
\<close>

section \<open>Tags and strings\<close>

definition tag_value :: "nat \<Rightarrow> pb_wire_type \<Rightarrow> nat" where
  "tag_value fn wt = 8 * fn + wire_type_code wt"

lemma tag_word:
  "wire_type_code wt < 8 \<Longrightarrow>
     push_bit 3 (word_of_nat fn) OR word_of_nat (wire_type_code wt) = (word_of_nat (tag_value fn wt) :: 64 word)"
  using or_push_bit_add [of "wire_type_code wt" 3 fn, where 'a = 64]
  by (simp add: tag_value_def or.commute add.commute)

lemma unat_word64_of_nat: "n < 2 ^ 64 \<Longrightarrow> unat (word_of_nat n :: 64 word) = n"
  by (simp add: unsigned_of_nat take_bit_nat_eq_self)

lemma unat_word32_of_nat: "unat (word_of_nat n :: 32 word) = n mod 2 ^ 32"
  by (simp add: unsigned_of_nat take_bit_eq_mod)

lemma pb_encode_tag_eq:
  assumes "wire_type_code wt < 8" and "fn < 2 ^ 32"
  shows "pb_encode_tag wt fn = pb_write (varint_bytes (tag_value fn wt))"
proof -
  have "tag_value fn wt < 2 ^ 64" using assms by (simp add: tag_value_def)
  then show ?thesis
    by (simp only: pb_encode_tag_def tag_word [OF assms(1)] pb_encode_varint_eq unat_word64_of_nat)
qed

lemma pb_decode_tag_bytes:
  assumes "n < 2 ^ 35"
  shows "pb_decode_tag (buf_stream (varint_bytes n @ rest) (length (varint_bytes n) + k) e) =
    (if n mod 2 ^ 32 = 0 then TagEof
     else Tag (n mod 2 ^ 32 div 8) (wire_type_of (n mod 8)), buf_stream rest k e)"
proof -
  have len: "length (varint_bytes n) \<le> 5" using assms by (intro varint_bytes_length) auto
  let ?w = "word_of_nat n :: 32 word"
  have u: "unat ?w = n mod 2 ^ 32" by (rule unat_word32_of_nat)
  have z: "?w = 0 \<longleftrightarrow> n mod 2 ^ 32 = 0" using u by (metis unat_eq_zero)
  have d: "unat (drop_bit 3 ?w) = n mod 2 ^ 32 div 8"
    unfolding unsigned_drop_bit_eq using u by (simp add: drop_bit_eq_div take_bit_eq_mod)
  have "?w AND 7 = take_bit 3 ?w" by (simp add: take_bit_eq_mask mask_eq_exp_minus_1)
  then have "unat (?w AND 7) = n mod 2 ^ 32 mod 8"
    by (simp only: unsigned_take_bit_eq u) (simp add: take_bit_eq_mod)
  also have "\<dots> = n mod 8" by (simp add: mod_mod_cancel)
  finally have m: "unat (?w AND 7) = n mod 8" .
  show ?thesis
    by (simp only: pb_decode_tag_def pb_decode_varint32_varint [OF varint_bytes_ok len] base128_varint_bytes
        prod.case option.case z d m) simp
qed

lemma pb_encode_string_eq:
  "length bs < 2 ^ 64 \<Longrightarrow> emitter (pb_encode_string bs) (varint_bytes (length bs) @ bs)"
  unfolding pb_encode_string_def pb_encode_varint_eq
  by (simp add: unat_word64_of_nat emitter_obind emitter_write)

section \<open>What a field occupies\<close>

text \<open>
  The payload of a field on the wire. A skipped varint may have any length; a
  length prefix has at most five bytes and counts modulo \<open>2 ^ 32\<close>.
\<close>

definition wire_payload :: "pb_wire_type \<Rightarrow> byte list \<Rightarrow> bool" where
  "wire_payload wt bs = (case wt of
      PB_WT_VARINT \<Rightarrow> is_varint bs
    | PB_WT_64BIT \<Rightarrow> length bs = 8
    | PB_WT_32BIT \<Rightarrow> length bs = 4
    | PB_WT_STRING \<Rightarrow> (\<exists>vs body. bs = vs @ body \<and> is_varint vs \<and> length vs \<le> 5
        \<and> length body = base128 vs mod 2 ^ 32)
    | PB_WT_UNNAMED _ \<Rightarrow> False)"

lemma pb_skip_varint_varint:
  "is_varint vs \<Longrightarrow> pb_skip_varint (buf_stream (vs @ rest) (length vs + n) e) = (Some (), buf_stream rest n e)"
proof (induction vs)
  case (Cons b vs)
  then show ?case
    by (subst pb_skip_varint.simps) (simp add: obind_def pb_read_buf read_byte_def byte_msb split: if_splits)
qed simp

lemma pb_skip_varint_Some:
  assumes "pb_skip_varint (buf_stream bs left e) = (Some (), st)" and "left \<le> length bs"
  shows "\<exists>vs rest. bs = vs @ rest \<and> is_varint vs \<and> length vs \<le> left \<and> st = buf_stream rest (left - length vs) e"
  using assms
proof (induction bs arbitrary: left)
  case Nil
  then show ?case by (subst (asm) pb_skip_varint.simps) (simp add: obind_def pb_read_buf)
next
  case (Cons b bs)
  from Cons.prems(1) have l: "0 < left"
    by (subst (asm) pb_skip_varint.simps) (auto simp: obind_def pb_read_buf split: if_splits)
  show ?case
  proof (cases "unat b < 128")
    case True
    with Cons.prems l have "st = buf_stream bs (left - 1) e"
      by (subst (asm) pb_skip_varint.simps) (auto simp: obind_def pb_read_buf read_byte_def byte_msb)
    then show ?thesis using True l by (intro exI [of _ "[b]"] exI [of _ bs]) auto
  next
    case False
    with Cons.prems l have "pb_skip_varint (buf_stream bs (left - 1) e) = (Some (), st)"
      by (subst (asm) pb_skip_varint.simps) (auto simp: obind_def pb_read_buf read_byte_def byte_msb)
    from Cons.IH [OF this] Cons.prems(2) obtain vs rest where
      "bs = vs @ rest" "is_varint vs" "length vs \<le> left - 1" "st = buf_stream rest (left - 1 - length vs) e"
      by fastforce
    then show ?thesis using False l by (intro exI [of _ "b # vs"] exI [of _ rest]) auto
  qed
qed

lemma pb_decode_varint32_Some:
  fixes st :: "'u istream"
  assumes "pb_decode_varint32 (buf_stream bs left e) = (Some v, st)" and "left \<le> length bs"
  shows "\<exists>vs rest. bs = vs @ rest \<and> is_varint vs \<and> length vs \<le> 5 \<and> length vs \<le> left
    \<and> v = word_of_nat (base128 vs) \<and> st = buf_stream rest (left - length vs) e"
proof -
  have "fst (varint32_loop 0 0 (buf_stream bs left e :: 'u istream)) = Some v"
    using assms(1) by (simp add: pb_decode_varint32_eq)
  then obtain vs rest where vs: "bs = vs @ rest" "is_varint vs" "length vs \<le> 5" "length vs \<le> left"
      "v = word_of_nat (base128 vs)"
    using v32.loop_accepts [of 5 left bs e v] assms(2) by auto
  moreover have "st = buf_stream rest (left - length vs) e"
  proof -
    have "pb_decode_varint32 (buf_stream (vs @ rest) (length vs + (left - length vs)) e :: 'u istream)
        = (Some (word_of_nat (base128 vs)), buf_stream rest (left - length vs) e)"
      by (rule pb_decode_varint32_varint [OF vs(2,3)])
    then show ?thesis using assms(1) vs by simp
  qed
  ultimately show ?thesis by blast
qed

lemma pb_skip_string_payload:
  fixes e :: "string option"
  assumes "is_varint vs" and "length vs \<le> 5" and "length body = base128 vs mod 2 ^ 32"
  shows "pb_skip_string (buf_stream (vs @ body @ rest) (length vs + length body + n) e)
    = (Some (), buf_stream rest n e)"
    (is "pb_skip_string ?st = (_, ?st' :: 'u istream)")
proof -
  have "pb_decode_varint32 ?st = (Some (word_of_nat (base128 vs)), buf_stream (body @ rest) (length body + n) e)"
    using pb_decode_varint32_varint [OF assms(1,2), of "body @ rest" "length body + n" e] by (simp add: add.assoc)
  moreover have "unat (word_of_nat (base128 vs) :: 32 word) = length body"
    by (simp only: unat_word32_of_nat assms(3))
  ultimately show ?thesis by (simp add: pb_skip_string_def pb_read_null_buf)
qed

lemma pb_skip_string_Some:
  assumes "pb_skip_string (buf_stream bs left e) = (Some (), st)" and "left \<le> length bs"
  shows "\<exists>f rest. bs = f @ rest \<and> wire_payload PB_WT_STRING f \<and> length f \<le> left
    \<and> st = buf_stream rest (left - length f) e"
proof -
  from assms(1) obtain v s where v: "pb_decode_varint32 (buf_stream bs left e) = (Some v, s)"
      and r: "pb_read_null (unat v) s = (Some (), st)"
    by (auto simp: pb_skip_string_def obind_eq_Some)
  from pb_decode_varint32_Some [OF v assms(2)] obtain vs rest where vs: "bs = vs @ rest" "is_varint vs"
      "length vs \<le> 5" "length vs \<le> left" "v = word_of_nat (base128 vs)"
      "s = buf_stream rest (left - length vs) e" by blast
  let ?n = "unat v"
  have n: "?n = base128 vs mod 2 ^ 32" using vs(5) by (simp only: unat_word32_of_nat)
  from r vs(6) have le: "?n \<le> left - length vs" and st: "st = buf_stream (drop ?n rest) (left - length vs - ?n) e"
    by (auto simp: pb_read_null_buf split: if_splits)
  have ln: "?n \<le> length rest" using le vs(1,4) assms(2) by simp
  have "wire_payload PB_WT_STRING (vs @ take ?n rest)"
    using vs(2,3) n ln unfolding wire_payload_def pb_wire_type.case
    by (intro exI [of _ vs] exI [of _ "take ?n rest"]) simp
  then show ?thesis using vs(1,4) st le ln
    by (intro exI [of _ "vs @ take ?n rest"] exI [of _ "drop ?n rest"]) auto
qed

lemma pb_skip_field_payload:
  assumes "wire_payload wt f"
  shows "pb_skip_field wt (buf_stream (f @ rest) (length f + n) e) = (Some (), buf_stream rest n e)"
proof (cases wt)
  case PB_WT_STRING
  with assms obtain vs body where "f = vs @ body" "is_varint vs" "length vs \<le> 5"
      "length body = base128 vs mod 2 ^ 32"
    by (auto simp: wire_payload_def)
  then show ?thesis using PB_WT_STRING pb_skip_string_payload [of vs body rest n e]
    by (simp add: pb_skip_field_def)
qed (use assms in \<open>simp_all add: pb_skip_field_def wire_payload_def pb_skip_varint_varint pb_read_null_buf\<close>)

lemma pb_skip_field_Some:
  assumes "pb_skip_field wt (buf_stream bs left e) = (Some (), st)" and "left \<le> length bs"
  shows "\<exists>f rest. bs = f @ rest \<and> wire_payload wt f \<and> length f \<le> left \<and> st = buf_stream rest (left - length f) e"
proof -
  have fixed: "\<exists>f rest. bs = f @ rest \<and> length f = k \<and> k \<le> left \<and> st = buf_stream rest (left - k) e"
    if "pb_read_null k (buf_stream bs left e) = (Some (), st)" for k
    using that assms(2) by (intro exI [of _ "take k bs"] exI [of _ "drop k bs"])
      (auto simp: pb_read_null_buf split: if_splits)
  show ?thesis
  proof (cases wt)
    case PB_WT_VARINT
    then show ?thesis using pb_skip_varint_Some [OF _ assms(2)] assms(1)
      by (simp add: pb_skip_field_def wire_payload_def)
  next
    case PB_WT_STRING
    then show ?thesis using pb_skip_string_Some [OF _ assms(2)] assms(1) by (simp add: pb_skip_field_def)
  next
    case PB_WT_64BIT
    then show ?thesis using fixed [of 8] assms(1) unfolding pb_skip_field_def wire_payload_def by auto
  next
    case PB_WT_32BIT
    then show ?thesis using fixed [of 4] assms(1) unfolding pb_skip_field_def wire_payload_def by auto
  next
    case (PB_WT_UNNAMED n)
    then show ?thesis using assms(1) by (simp add: pb_skip_field_def PB_RETURN_ERROR_def)
  qed
qed

section \<open>Raw values and substreams\<close>

lemma reader_read_raw_varint [reader_intros]: "istream_reader (read_raw_varint m buf)"
proof (induction "m - length buf" arbitrary: buf rule: less_induct)
  case less
  have unfold: "read_raw_varint m buf = (if m < length buf + 1 then (\<lambda>st. (None, st))
      else obind (pb_read 1) (\<lambda>bs. if read_byte bs AND 0x80 \<noteq> 0 then read_raw_varint m (buf @ [read_byte bs])
        else oreturn (buf @ [read_byte bs])))"
    by (rule ext) (auto simp: read_raw_varint.simps [of m buf] Let_def oreturn_def obind_def
        split: prod.splits option.splits)
  have none: "istream_reader (\<lambda>st. (None, st))" by (rule istream_readerI) auto
  show ?case unfolding unfold by (intro reader_intros none less.hyps) simp
qed

lemma reader_read_raw_value [reader_intros]: "istream_reader (read_raw_value wt m)"
  unfolding read_raw_value_def by (cases wt) (auto intro: reader_intros)

interpretation varint_reader: istream_reader pb_decode_varint
  by (rule reader_pb_decode_varint)

interpretation skip_reader: istream_reader "pb_skip_field wt" for wt
  by (rule reader_pb_skip_field)

interpretation raw_reader: istream_reader "read_raw_value wt m" for wt m
  by (rule reader_read_raw_value)

interpretation varint_emitter: emitter "pb_encode_varint v" "varint_bytes (unat v)" for v
  by (rule emitter_varint)

text \<open>
  A substream gets the announced bytes, the parent what follows them. Closing
  leaves the parent right behind the string, however much of it was read.
\<close>

lemma pb_make_string_substream_ok:
  assumes "in_ok k st" and "pb_make_string_substream st = (Some sub, st')"
  shows "in_ok (bytes_left st' + k) sub" and "bytes_left sub + bytes_left st' \<le> bytes_left st"
    and "in_source st' = in_source sub" and "errmsg st' = errmsg sub"
proof -
  from assms(2) obtain size s where s: "pb_decode_varint32 st = (Some size, s)"
      and b: "unat size \<le> bytes_left s" and sub: "sub = s\<lparr>bytes_left := unat size\<rparr>"
      and st': "st' = s\<lparr>bytes_left := bytes_left s - unat size\<rparr>"
    by (auto simp: pb_make_string_substream_def obind_eq_Some PB_RETURN_ERROR_def split: if_splits)
  have "in_ok k s" "bytes_left s \<le> bytes_left st"
    using istream_reader.keeps [OF reader_pb_decode_varint32 assms(1) s] by simp_all
  then show "in_ok (bytes_left st' + k) sub" "bytes_left sub + bytes_left st' \<le> bytes_left st"
    "in_source st' = in_source sub" "errmsg st' = errmsg sub"
    using b sub st' by (auto simp: in_ok_def split: source.splits)
qed

lemma pb_close_string_substream_ok:
  assumes "in_ok (bytes_left st + k) sub" and "in_ok k st"
    and "pb_close_string_substream sub st = (v, st')"
  shows "in_ok k st' \<and> bytes_left st' = bytes_left st"
proof (cases "bytes_left sub = 0")
  case True
  then show ?thesis using assms
    by (auto simp: pb_close_string_substream_def in_ok_def split: source.splits)
next
  case False
  obtain r sub' where s: "pb_read_null (bytes_left sub) sub = (r, sub')" by fastforce
  from istream_reader.keeps [OF reader_pb_read_null assms(1) s]
  have ok: "in_ok (bytes_left st + k) sub'" by simp
  show ?thesis
  proof (cases r)
    case None
    then show ?thesis using s assms False by (auto simp: pb_close_string_substream_def)
  next
    case (Some u)
    then have "st' = st\<lparr>in_source := in_source sub', errmsg := errmsg sub'\<rparr>"
      using s assms(3) False by (auto simp: pb_close_string_substream_def)
    then show ?thesis using ok by (auto simp: in_ok_def split: source.splits)
  qed
qed

lemma pb_make_string_substream_buf:
  assumes "is_varint vs" and "length vs \<le> 5" and "base128 vs mod 2 ^ 32 = length body"
  shows "pb_make_string_substream (buf_stream (vs @ body @ rest) (length vs + length body + n) e)
    = (Some (buf_stream (body @ rest) (length body) e), buf_stream (body @ rest) n e)"
proof -
  have "unat (word_of_nat (base128 vs) :: 32 word) = length body"
    by (simp only: unat_word32_of_nat assms(3))
  then show ?thesis
    by (simp add: pb_make_string_substream_def obind_def add.assoc pb_decode_varint32_varint [OF assms(1,2)])
qed

lemma pb_close_string_substream_buf:
  "pb_close_string_substream (buf_stream bs n e') (buf_stream bs0 k e)
     = (Some (), buf_stream (drop n bs) k e')"
  by (simp add: pb_close_string_substream_def pb_read_null_buf Let_def)

end
