(* ===== verification/Wire_Properties.thy ===== *)
theory Wire_Properties
  imports Pb_Iter Pb_Skip
begin

text \<open>
  What the byte-level half of nanopb promises, stated of its entry points: which
  byte strings the varint decoders accept, that every scalar format reads back
  what was written, what a tag and a skipped field are, that a substream hands
  its parent back, and where the field iterator stands.
\<close>

section \<open>Varints\<close>

text \<open>C38: \<open>pb_decode_varint\<close> accepts exactly the byte strings that start with a varint of at
  most ten bytes, and returns its base-128 value modulo \<open>2 ^ 64\<close>: an overlong varint and one
  cut off by the end of the stream are rejected.\<close>

theorem decode_varint_accepts:
  "fst (pb_decode_varint (pb_istream_from_buffer bs (length bs))) = Some v \<longleftrightarrow>
    (\<exists>vs rest. bs = vs @ rest \<and> is_varint vs \<and> length vs \<le> 10 \<and> v = word_of_nat (base128 vs))"
  using v64.loop_accepts [of 10 "length bs" bs None v]
  by (auto simp: pb_decode_varint_def pb_istream_from_buffer_def buf_stream_def)

text \<open>\<open>pb_decode_varint32\<close> accepts exactly the varints of at most five bytes and reduces
  their value modulo \<open>2 ^ 32\<close>: the bits above 32 of a five-byte varint are dropped without an
  error.\<close>

theorem decode_varint32_accepts:
  "fst (pb_decode_varint32 (pb_istream_from_buffer bs (length bs))) = Some v \<longleftrightarrow>
    (\<exists>vs rest. bs = vs @ rest \<and> is_varint vs \<and> length vs \<le> 5 \<and> v = word_of_nat (base128 vs))"
  using v32.loop_accepts [of 5 "length bs" bs None v]
  by (auto simp: pb_decode_varint32_eq pb_istream_from_buffer_def buf_stream_def)

section \<open>Scalar formats\<close>

text \<open>Buffers with room, and the streams over them.\<close>

lemma ostream_from_buffer: "pb_ostream_from_buffer limit = buf_ostream [] limit 0 None"
  by (simp add: pb_ostream_from_buffer_def buf_ostream_def)

lemma istream_from_buffer: "pb_istream_from_buffer bs n = buf_stream bs n None"
  by (simp add: pb_istream_from_buffer_def buf_stream_def)

lemma concat_length_le: "(\<And>v. length (f v) \<le> k) \<Longrightarrow> length (concat (map f vs)) \<le> k * length vs"
proof (induction vs)
  case (Cons v vs)
  have "length (concat (map f vs)) \<le> k * length vs" by (rule Cons.IH [OF Cons.prems])
  with Cons.prems [of v] show ?case by simp
qed simp

text \<open>C39: a list of unsigned integers written by \<open>pb_encode_varint\<close> into a buffer with ten bytes
  per value is read back, value by value, by \<open>pb_decode_varint\<close>, and the stream is used up.\<close>

theorem varints_round_trip:
  assumes "10 * length vs \<le> limit"
  shows "\<exists>out. put_all pb_encode_varint vs (pb_ostream_from_buffer limit)
      = (Some (), buf_ostream out limit (length out) None)
    \<and> get_all pb_decode_varint (length vs) (pb_istream_from_buffer out (length out))
      = (Some vs, buf_stream [] 0 None)"
proof -
  let ?out = "concat (map (\<lambda>v :: 64 word. varint_bytes (unat v)) vs)"
  have "length ?out \<le> limit"
    using assms concat_length_le [of "\<lambda>v :: 64 word. varint_bytes (unat v)" 10 vs,
        OF varint_bytes_10 [OF unat64_less]] by linarith
  then show ?thesis
    using emitter.room [OF varint_codec.put_all_emits, of 0 vs limit "[]" None]
      varint_codec.get_all_reads [of vs "[]" 0 None]
    by (intro exI [of _ ?out]) (simp add: ostream_from_buffer istream_from_buffer)
qed

lemma varints_round_trip_witness:
  "\<exists>out. put_all pb_encode_varint [300, 0] (pb_ostream_from_buffer 20)
      = (Some (), buf_ostream out 20 (length out) None)
    \<and> get_all pb_decode_varint (length [300 :: 64 word, 0]) (pb_istream_from_buffer out (length out))
      = (Some [300, 0], buf_stream [] 0 None)"
  by (rule varints_round_trip) simp

text \<open>\<open>pb_encode_svarint\<close> writes the varint of the zig-zag code of its argument (\<open>2 n\<close> for
  \<open>n \<ge> 0\<close> and \<open>- 2 n - 1\<close> for a negative \<open>n\<close>, so that small magnitudes take few bytes), and
  \<open>pb_decode_svarint\<close> reads the same 64 bits back from it.\<close>

theorem svarint_round_trip:
  "pb_encode_svarint v = pb_write (varint_bytes
      (nat (if sint v < 0 then - 2 * sint v - 1 else 2 * sint v)))
   \<and> pb_decode_svarint (buf_stream (varint_bytes
        (nat (if sint v < 0 then - 2 * sint v - 1 else 2 * sint v)) @ rest)
        (length (varint_bytes (nat (if sint v < 0 then - 2 * sint v - 1 else 2 * sint v))) + n) e)
      = (Some v, buf_stream rest n e)"
proof -
  have "unat (zigzag v) = nat (if sint v < 0 then - 2 * sint v - 1 else 2 * sint v)"
    by (simp only: zigzag_value [symmetric] nat_uint_eq)
  then show ?thesis
    using svarint_codec.reads [of v rest n e] by (simp only: pb_encode_svarint_def pb_encode_varint_eq)
qed

text \<open>\<open>pb_encode_fixed32\<close> and \<open>pb_encode_fixed64\<close> write the bytes of their argument, least
  significant first, and the decoders put the same integer together from them.\<close>

theorem fixed_round_trip:
  "pb_encode_fixed32 v = pb_write (le_bytes 4 (unat v))
   \<and> pb_decode_fixed32 (buf_stream (le_bytes 4 (unat v) @ rest) (4 + n) e) = (Some v, buf_stream rest n e)
   \<and> pb_encode_fixed64 w = pb_write (le_bytes 8 (unat w))
   \<and> pb_decode_fixed64 (buf_stream (le_bytes 8 (unat w) @ rest) (8 + n) e) = (Some w, buf_stream rest n e)"
  using fixed32_codec.reads [of v rest n e] fixed64_codec.reads [of w rest n e]
  by (simp only: pb_encode_fixed32_eq pb_encode_fixed64_eq length_le_bytes)

section \<open>Tags\<close>

text \<open>The tag written for field number \<open>fn\<close> and wire type \<open>wt\<close> is decoded to \<open>fn\<close> modulo
  \<open>2 ^ 29\<close> with the same wire type (the five-byte varint is cut to 32 bits, so larger field numbers
  alias smaller ones), except that the tag 0 reads as the end of the message.\<close>

theorem tag_round_trip:
  assumes "fn < 2 ^ 32" and "wt \<in> {PB_WT_VARINT, PB_WT_64BIT, PB_WT_STRING, PB_WT_32BIT}"
  shows "\<exists>bs. pb_encode_tag wt fn = pb_write bs
    \<and> pb_decode_tag (buf_stream (bs @ rest) (length bs + n) e) =
        (if fn mod 2 ^ 29 = 0 \<and> wt = PB_WT_VARINT then TagEof else Tag (fn mod 2 ^ 29) wt,
         buf_stream rest n e)"
proof (intro exI conjI)
  have wt: "wire_type_code wt < 8" "wire_type_of (wire_type_code wt) = wt"
    using assms(2) by (auto simp: wire_type_of_def)
  show "pb_encode_tag wt fn = pb_write (varint_bytes (tag_value fn wt))"
    by (rule pb_encode_tag_eq [OF wt(1) assms(1)])
  let ?t = "tag_value fn wt"
  have lt: "?t < 2 ^ 35" using assms(1) wt(1) by (simp add: tag_value_def)
  have m8: "?t mod 8 = wire_type_code wt" using wt(1) by (simp add: tag_value_def)
  have "?t mod 2 ^ 32 = wire_type_code wt + 8 * (fn mod 2 ^ 29)"
    using mod_mult2_eq [of ?t 8 "2 ^ 29"] m8 wt(1) by (simp add: tag_value_def)
  then have d: "?t mod 2 ^ 32 div 8 = fn mod 2 ^ 29"
    and z: "?t mod 2 ^ 32 = 0 \<longleftrightarrow> fn mod 2 ^ 29 = 0 \<and> wt = PB_WT_VARINT"
    using wt(1) assms(2) by auto
  show "pb_decode_tag (buf_stream (varint_bytes ?t @ rest) (length (varint_bytes ?t) + n) e) =
        (if fn mod 2 ^ 29 = 0 \<and> wt = PB_WT_VARINT then TagEof else Tag (fn mod 2 ^ 29) wt,
         buf_stream rest n e)"
    by (simp only: pb_decode_tag_bytes [OF lt] d z m8 wt(2))
qed

lemma tag_round_trip_witness:
  "\<exists>bs. pb_encode_tag PB_WT_STRING 536870913 = pb_write bs
    \<and> pb_decode_tag (buf_stream (bs @ [7]) (length bs + 1) None) = (Tag 1 PB_WT_STRING, buf_stream [7] 1 None)"
  using tag_round_trip [of 536870913 PB_WT_STRING "[7]" 1 None] by simp

section \<open>Skipping and substreams\<close>

text \<open>\<open>pb_skip_field\<close> succeeds on a buffer exactly when the stream starts with a payload of the
  wire type (a varint of any length, four or eight bytes, a length prefix of at most five bytes with
  the announced bytes), and then it has consumed this payload and nothing else.\<close>

theorem skip_field_exact:
  assumes "left \<le> length bs"
  shows "pb_skip_field wt (buf_stream bs left e) = (Some (), st) \<longleftrightarrow>
    (\<exists>f rest. bs = f @ rest \<and> wire_payload wt f \<and> length f \<le> left
      \<and> st = buf_stream rest (left - length f) e)" (is "?L \<longleftrightarrow> ?R")
proof
  assume ?L
  then show ?R using assms by (rule pb_skip_field_Some)
next
  assume ?R
  then obtain f rest where f: "bs = f @ rest" "wire_payload wt f" "length f \<le> left"
      "st = buf_stream rest (left - length f) e" by blast
  then show ?L using pb_skip_field_payload [OF f(2), of rest "left - length f" e] by simp
qed

lemma skip_field_exact_witness:
  "pb_skip_field PB_WT_STRING (buf_stream [2, 97, 98, 8] 4 None) = (Some (), buf_stream [8] 1 None)"
proof -
  have "wire_payload PB_WT_STRING [2, 97, 98]"
    unfolding wire_payload_def pb_wire_type.case
    by (intro exI [of _ "[2]"] exI [of _ "[97, 98]"]) simp
  then show ?thesis
    using skip_field_exact [of 4 "[2, 97, 98, 8]" PB_WT_STRING None "buf_stream [8] 1 None"]
    by (intro iffD2 [OF skip_field_exact [of 4 "[2, 97, 98, 8]"]])
      (simp, intro exI [of _ "[2, 97, 98]"] exI [of _ "[8]"], simp)
qed

text \<open>a substream opened on a length-delimited field sees exactly the bytes of the field, however
  much of it is then read the stream that is closed again stands right behind the field, and the
  error message of the substream is passed on to the parent.\<close>

theorem substream_hands_back:
  assumes "is_varint vs" and "length vs \<le> 5" and "base128 vs mod 2 ^ 32 = length body"
    and "k \<le> length body"
  shows "pb_make_string_substream (buf_stream (vs @ body @ rest) (length vs + length body + n) e)
      = (Some (buf_stream (body @ rest) (length body) e :: 'u istream), buf_stream (body @ rest) n e)
    \<and> pb_close_string_substream (buf_stream (drop k body @ rest) (length body - k) e' :: 'u istream)
        (buf_stream (body @ rest) n e) = (Some (), buf_stream rest n e')"
  using pb_make_string_substream_buf [OF assms(1-3)] assms(4) by (simp add: pb_close_string_substream_buf)

lemma substream_hands_back_witness:
  "pb_make_string_substream (buf_stream [3, 1, 2, 3, 9] (length [3 :: byte, 1, 2, 3] + 1) None)
      = (Some (buf_stream [1, 2, 3, 9] (length [1 :: byte, 2, 3]) None :: unit istream), buf_stream [1, 2, 3, 9] 1 None)
    \<and> pb_close_string_substream (buf_stream [2, 3, 9] (length [2 :: byte, 3]) (Some ''x'') :: unit istream)
        (buf_stream [1, 2, 3, 9] 1 None)
      = (Some (), buf_stream [9] 1 (Some ''x''))"
  using substream_hands_back [where 'u = unit, of "[3]" "[1, 2, 3]" 1 "[9]" 1 None "Some ''x''"] by simp

text \<open>skipping, reading a raw value and the scalar decoders keep the stream discipline on memory
  buffers and on user callbacks alike: when at least \<open>k\<close> bytes lie behind the stream before, they
  still do afterwards, and the number of bytes left never grows, on success and on failure.\<close>

theorem readers_stay_within:
  assumes "in_ok k st"
  shows "in_ok k (snd (pb_skip_field wt st)) \<and> bytes_left (snd (pb_skip_field wt st)) \<le> bytes_left st
    \<and> in_ok k (snd (read_raw_value wt m st)) \<and> bytes_left (snd (read_raw_value wt m st)) \<le> bytes_left st
    \<and> in_ok k (snd (pb_decode_varint st)) \<and> bytes_left (snd (pb_decode_varint st)) \<le> bytes_left st"
  by (intro conjI skip_reader.reader_in_ok [OF assms] skip_reader.reader_bytes_left [OF assms]
      raw_reader.reader_in_ok [OF assms] raw_reader.reader_bytes_left [OF assms]
      varint_reader.reader_in_ok [OF assms] varint_reader.reader_bytes_left [OF assms])

lemma readers_stay_within_witness:
  "bytes_left (snd (pb_skip_field PB_WT_64BIT (buf_stream [1, 2, 3] 2 None :: unit istream))) \<le> 2"
  using readers_stay_within [of 1 "buf_stream [1, 2, 3] 2 None :: unit istream" PB_WT_64BIT 0] by simp

section \<open>The field iterator\<close>

text \<open>on a table made by the field macros for a C structure, the iterator reports for every field
  the address of its member and, where the descriptor names one, the address of its \<open>has_\<close>, \<open>_count\<close>
  or \<open>which_\<close> member; for any number of fields before it.\<close>

theorem iterator_addresses:
  assumes "message_table ds = Some fs" and "message_ok ds" and "i < length ds"
  shows "((\<lambda>it. snd (pb_field_iter_next it)) ^^ i) (snd (pb_field_iter_begin fs dest)) = iter_at fs dest i
    \<and> it_pData (iter_at fs dest i) = dest + int (m_offset (d_mem (ds ! i)))
    \<and> (d_rules (ds ! i) = ONEOF \<or> size_offset (fs ! i) \<noteq> 0 \<longrightarrow>
        it_pSize (iter_at fs dest i) = dest + int (m_offset (d_aux (ds ! i))))"
proof -
  have "((\<lambda>it. snd (pb_field_iter_next it)) ^^ i) (snd (pb_field_iter_begin fs dest)) = iter_at fs dest i"
    using assms(3)
  proof (induction i)
    case (Suc i)
    then show ?case
      using iter_next_step [of i fs dest] message_n_fields [OF assms(1,2)] by simp
  qed (simp add: iter_begin_eq)
  then show ?thesis using message_addr [OF assms] by simp
qed

definition sample_decls :: "pb_decl list" where
  "sample_decls =
     [\<lparr> d_tag = 1, d_type = INT32, d_rules = REQUIRED, d_alloc = STATIC, d_place = FIRST,
        d_mem = \<lparr> m_offset = 0, m_size = 4, m_elem = 4 \<rparr>, d_aux = \<lparr> m_offset = 0, m_size = 0, m_elem = 1 \<rparr>,
        d_ptr = PtrNull \<rparr>,
      \<lparr> d_tag = 2, d_type = UINT64, d_rules = OPTIONAL, d_alloc = STATIC, d_place = OTHER,
        d_mem = \<lparr> m_offset = 16, m_size = 8, m_elem = 8 \<rparr>, d_aux = \<lparr> m_offset = 4, m_size = 1, m_elem = 1 \<rparr>,
        d_ptr = PtrNull \<rparr>]"

lemma iterator_addresses_witness:
  "it_pSize (iter_at (the (message_table sample_decls)) 100 1) = 104"
proof -
  have ok: "message_ok sample_decls"
    by (simp add: sample_decls_def message_ok_def decl_ok_def PB_SIZE_MAX_def)
  obtain fs where fs: "message_table sample_decls = Some fs" and so: "size_offset (fs ! 1) = - 12"
    by (simp add: sample_decls_def message_table_def decl_field_def PB_FIELD_def PB_OPTIONAL_STATIC_def
        pb_delta_def)
  show ?thesis
    using iterator_addresses [OF fs ok, of 1 100] so fs by (simp add: sample_decls_def)
qed

text \<open>\<open>pb_field_iter_find\<close> returns from every position of a table with at least one field; it
  answers \<open>true\<close> exactly when some field has the tag and is not an extension placeholder, and then it
  stands at such a field; otherwise it is back where it started.\<close>

theorem iterator_find:
  assumes "i < n_fields fs"
  shows "\<exists>b j. pb_field_iter_find (iter_at fs dest i) tag = Some (b, iter_at fs dest j)
    \<and> j < n_fields fs
    \<and> (b \<longleftrightarrow> (\<exists>j < n_fields fs. ftag (field_at fs j) = tag
                 \<and> PB_LTYPE (ftype (field_at fs j)) \<noteq> PB_LTYPE_EXTENSION))
    \<and> (if b then ftag (field_at fs j) = tag else j = i)"
proof -
  from iter_find_nonempty [OF assms, of dest tag] obtain b j where
    *: "pb_field_iter_find (iter_at fs dest i) tag = Some (b, iter_at fs dest j)" "j < n_fields fs"
      "b \<longrightarrow> field_matches tag (field_at fs j)"
      "\<not> b \<longrightarrow> j = i \<and> (\<forall>j < n_fields fs. \<not> field_matches tag (field_at fs j))" by blast
  have "b \<longleftrightarrow> (\<exists>j < n_fields fs. field_matches tag (field_at fs j))" using * by blast
  then show ?thesis using *
    by (intro exI [of _ b] exI [of _ j] conjI) (simp_all add: field_matches_def split: if_splits)
qed

lemma iterator_find_witness:
  "\<exists>b j. pb_field_iter_find (iter_at [PbField 3 1 0 0 4 0 PtrNull] 0 0) 5
     = Some (b, iter_at [PbField 3 1 0 0 4 0 PtrNull] 0 j) \<and> \<not> b"
  using iterator_find [of 0 "[PbField 3 1 0 0 4 0 PtrNull]" 0 5] by (auto simp: n_fields_def field_at_def)

text \<open>the three parts of a field type that the macros pack into one byte are read back by
  \<open>PB_ATYPE\<close>, \<open>PB_HTYPE\<close> and \<open>PB_LTYPE\<close>, so two different types have different codes.\<close>

theorem field_type_packing:
  "PB_ATYPE (pb_type a h l) = a \<and> PB_HTYPE (pb_type a h l) = h \<and> PB_LTYPE (pb_type a h l) = l
   \<and> (pb_type a h l = pb_type a' h' l' \<longleftrightarrow> a = a' \<and> h = h' \<and> l = l')"
  using PB_ATYPE_pb_type PB_HTYPE_pb_type PB_LTYPE_pb_type by metis

end
