(* ===== verification/Pb_Proc.thy ===== *)
theory Pb_Proc
  imports Pb_Iter Pb_Skip
begin

text \<open>
  The operations on whole fields and messages: they work on a stream and on the
  memory that holds the message, call user functions, and loop under the control
  of the input. A \<open>proc\<close> therefore has, besides success and failure with the state
  in both cases, the two outcomes that the C text leaves open: undefined behaviour
  (a null or missing function pointer is called, an array of the implementation is
  read out of bounds, a shift is too wide) and a run that needs more steps than the
  fuel it was given.
\<close>

section \<open>Outcomes\<close>

datatype 'a outcome = Done 'a | Undef | Diverge

type_synonym ('a, 's) proc = "'s \<Rightarrow> ('a option \<times> 's) outcome"

definition preturn :: "'a \<Rightarrow> ('a, 's) proc" where
  "preturn x s = Done (Some x, s)"

definition pbind :: "('a, 's) proc \<Rightarrow> ('a \<Rightarrow> ('b, 's) proc) \<Rightarrow> ('b, 's) proc" where
  "pbind p f s = (case p s of
      Done (None, s') \<Rightarrow> Done (None, s')
    | Done (Some x, s') \<Rightarrow> f x s'
    | Undef \<Rightarrow> Undef
    | Diverge \<Rightarrow> Diverge)"

definition pundef :: "('a, 's) proc" where
  "pundef s = Undef"

definition pdiverge :: "('a, 's) proc" where
  "pdiverge s = Diverge"

lemma pbind_simps [simp]:
  "p s = Done (Some x, s') \<Longrightarrow> pbind p f s = f x s'"
  "p s = Done (None, s') \<Longrightarrow> pbind p f s = Done (None, s')"
  "p s = Undef \<Longrightarrow> pbind p f s = Undef"
  "p s = Diverge \<Longrightarrow> pbind p f s = Diverge"
  by (simp_all add: pbind_def)

lemma pbind_return [simp]: "pbind (preturn x) f s = f x s"
  by (simp add: pbind_def preturn_def)

lemma pbind_eq_Done:
  "pbind p f s = Done (r, t) \<longleftrightarrow>
     (p s = Done (None, t) \<and> r = None) \<or> (\<exists>x s'. p s = Done (Some x, s') \<and> f x s' = Done (r, t))"
  by (auto simp: pbind_def split: outcome.splits prod.splits option.splits)

lemma pbind_cases:
  assumes "pbind p f s = Done (r, t)"
  obtains (fail) "p s = Done (None, t)" "r = None"
    | (ok) x s' where "p s = Done (Some x, s')" "f x s' = Done (r, t)"
  using assms by (auto simp: pbind_eq_Done)

section \<open>A stream and the memory\<close>

type_synonym 'u dstate = "'u istream \<times> mem"

text \<open>An operation on the stream, an update of the memory, a failure with a message.\<close>

definition on_stream :: "('a, 'u istream) op \<Rightarrow> ('a, 'u dstate) proc" where
  "on_stream f s = (case f (fst s) of (r, st') \<Rightarrow> Done (r, (st', snd s)))"

definition on_mem :: "(mem \<Rightarrow> mem) \<Rightarrow> (unit, 'u dstate) proc" where
  "on_mem g s = Done (Some (), (fst s, g (snd s)))"

definition with_mem :: "(mem \<Rightarrow> ('a, 'u dstate) proc) \<Rightarrow> ('a, 'u dstate) proc" where
  "with_mem f s = f (snd s) s"

definition fail_with :: "string \<Rightarrow> ('a, 'u dstate) proc" where
  "fail_with msg = on_stream (PB_RETURN_ERROR msg)"

text \<open>\<^verbatim>\<open>pb_read\<close> into the memory.\<close>

definition read_into :: "addr \<Rightarrow> nat \<Rightarrow> (unit, 'u dstate) proc" where
  "read_into dest n = pbind (on_stream (pb_read n)) (\<lambda>bs. on_mem (store_bytes dest bs))"

text \<open>\<^verbatim>\<open>memset(dest, 0, n)\<close>\<close>

definition zero_bytes :: "addr \<Rightarrow> nat \<Rightarrow> mem \<Rightarrow> mem" where
  "zero_bytes dest n = store_bytes dest (replicate n 0)"

section \<open>The user's functions\<close>

text \<open>
  What a run depends on besides its arguments: the functions behind the pointers
  in the callback structures, and for the address of an extension type its decode
  function (\<open>None\<close> where the pointer is null) and the field its \<^verbatim>\<open>arg\<close> points to.
\<close>

record 'u env =
  env_callback :: "nat \<Rightarrow> pb_field \<Rightarrow> addr \<Rightarrow> (unit, 'u istream \<times> mem) proc"
  env_ext_decode :: "nat \<Rightarrow> (addr \<Rightarrow> nat \<Rightarrow> pb_wire_type \<Rightarrow> (unit, 'u istream \<times> mem) proc) option"
  env_ext_arg :: "nat \<Rightarrow> pb_field"

definition iter_from_extension :: "'u env \<Rightarrow> addr \<Rightarrow> mem \<Rightarrow> pb_field_iter" where
  "iter_from_extension env ext m =
     (let field = env_ext_arg env (ext_type ext m);
          it = snd (pb_field_iter_begin [field] (ext_dest ext m))
      in it\<lparr> it_pData := (if PB_ATYPE (ftype field) = PB_ATYPE_POINTER then ext_dest_addr ext
                           else ext_dest ext m),
             it_pSize := ext_found_addr ext \<rparr>)"

section \<open>Default values\<close>

text \<open>
  \<^verbatim>\<open>pb_field_set_to_default\<close> and \<^verbatim>\<open>pb_message_set_to_defaults\<close> call each other. The
  loops take the recursive call as an argument; the loop over a message turns once
  per descriptor, the loop over a chain of extensions once per extension, and the
  fuel bounds the chain and the nesting. The result is the new memory; a pointer
  member that does not hold what the field type calls for is undefined behaviour.
\<close>

fun message_defaults_loop ::
    "nat \<Rightarrow> (pb_field_iter \<Rightarrow> mem \<Rightarrow> mem outcome) \<Rightarrow> pb_field_iter \<Rightarrow> mem \<Rightarrow> mem outcome" where
  "message_defaults_loop 0 set_default it m = Diverge"
| "message_defaults_loop (Suc k) set_default it m =
     (case set_default it m of
        Done m' \<Rightarrow> (case pb_field_iter_next it of
            (True, it') \<Rightarrow> message_defaults_loop k set_default it' m'
          | (False, _) \<Rightarrow> Done m')
      | Undef \<Rightarrow> Undef
      | Diverge \<Rightarrow> Diverge)"

definition message_defaults ::
    "(pb_field_iter \<Rightarrow> mem \<Rightarrow> mem outcome) \<Rightarrow> pb_field list \<Rightarrow> addr \<Rightarrow> mem \<Rightarrow> mem outcome" where
  "message_defaults set_default fs dest m =
     (case pb_field_iter_begin fs dest of
        (False, _) \<Rightarrow> Done m
      | (True, it) \<Rightarrow> message_defaults_loop (Suc (length fs)) set_default it m)"

fun ext_defaults_loop ::
    "nat \<Rightarrow> 'u env \<Rightarrow> (pb_field_iter \<Rightarrow> mem \<Rightarrow> mem outcome) \<Rightarrow> addr \<Rightarrow> mem \<Rightarrow> mem outcome" where
  "ext_defaults_loop 0 env set_default ext m = Diverge"
| "ext_defaults_loop (Suc k) env set_default ext m =
     (if ext = 0 then Done m
      else let m1 = store_nat (ext_found_addr ext) 1 0 m in
        (case set_default (iter_from_extension env ext m1) m1 of
           Done m2 \<Rightarrow> ext_defaults_loop k env set_default (ext_next ext m2) m2
         | Undef \<Rightarrow> Undef
         | Diverge \<Rightarrow> Diverge))"

fun pb_field_set_to_default :: "nat \<Rightarrow> 'u env \<Rightarrow> pb_field_iter \<Rightarrow> mem \<Rightarrow> mem outcome" where
  "pb_field_set_to_default 0 env it m = Diverge"
| "pb_field_set_to_default (Suc n) env it m =
     (let f = it_field it; ty = ftype f in
      if PB_LTYPE ty = PB_LTYPE_EXTENSION
      then ext_defaults_loop n env (pb_field_set_to_default n env)
             (int (load_nat (it_pData it) sizeof_ptr m)) m
      else case PB_ATYPE ty of
        PB_ATYPE_STATIC \<Rightarrow>
          (if PB_HTYPE ty \<in> {PB_HTYPE_REPEATED, PB_HTYPE_ONEOF}
           then Done (store_nat (it_pSize it) sizeof_pb_size 0 m)
           else
             let m1 = (if PB_HTYPE ty = PB_HTYPE_OPTIONAL \<and> it_pSize it \<noteq> it_pData it
                       then store_nat (it_pSize it) 1 0 m else m)
             in if PB_LTYPE ty = PB_LTYPE_SUBMESSAGE
                then (case fptr f of
                    PtrFields fs \<Rightarrow> message_defaults (pb_field_set_to_default n env) fs (it_pData it) m1
                  | _ \<Rightarrow> Undef)
                else (case fptr f of
                    PtrDefault bs \<Rightarrow> Done (store_bytes (it_pData it) (take (data_size f) bs) m1)
                  | PtrFields _ \<Rightarrow> Undef
                  | PtrNull \<Rightarrow> Done (zero_bytes (it_pData it) (data_size f) m1)))
      | PB_ATYPE_POINTER \<Rightarrow>
          (let m1 = store_nat (it_pData it) sizeof_ptr 0 m
           in Done (if PB_HTYPE ty \<in> {PB_HTYPE_REPEATED, PB_HTYPE_ONEOF}
                    then store_nat (it_pSize it) sizeof_pb_size 0 m1 else m1))
      | _ \<Rightarrow> Done m)"

definition pb_message_set_to_defaults ::
    "nat \<Rightarrow> 'u env \<Rightarrow> pb_field list \<Rightarrow> addr \<Rightarrow> mem \<Rightarrow> mem outcome" where
  "pb_message_set_to_defaults n env fs dest m = message_defaults (pb_field_set_to_default n env) fs dest m"

definition set_defaults :: "nat \<Rightarrow> 'u env \<Rightarrow> pb_field list \<Rightarrow> addr \<Rightarrow> (unit, 'u dstate) proc" where
  "set_defaults n env fs dest s =
     (case pb_message_set_to_defaults n env fs dest (snd s) of
        Done m \<Rightarrow> Done (Some (), (fst s, m))
      | Undef \<Rightarrow> Undef
      | Diverge \<Rightarrow> Diverge)"

end
