(* ===== verification/Pb_Decode.thy ===== *)
theory Pb_Decode
  imports Pb_Proc
begin

text \<open>
  The decoder (\<^verbatim>\<open>pb_decode.c\<close>): the decoders of the field types, arrays, callbacks,
  extensions, and the message loop with its check for missing required fields.
  The operations below \<^verbatim>\<open>pb_decode_noinit\<close> take the decoder of nested messages as
  the argument \<open>sub\<close>; \<open>pb_decode_noinit\<close> ties the knot, with a fuel that drops at
  every nesting level and bounds the loops.
\<close>

section \<open>Integers\<close>

text \<open>
  The cast of a 64-bit integer to the signed (unsigned) integer type of \<open>k\<close> bytes
  and back; \<open>None\<close> for a size that no type has.
\<close>

definition cast_signed :: "nat \<Rightarrow> 64 word \<Rightarrow> 64 word option" where
  "cast_signed k v =
     (if k = 8 then Some v
      else if k = 4 then Some (scast (ucast v :: 32 word))
      else if k = 2 then Some (scast (ucast v :: 16 word))
      else if k = 1 then Some (scast (ucast v :: 8 word))
      else None)"

definition cast_unsigned :: "nat \<Rightarrow> 64 word \<Rightarrow> 64 word option" where
  "cast_unsigned k v =
     (if k = 8 then Some v
      else if k = 4 then Some (ucast (ucast v :: 32 word))
      else if k = 2 then Some (ucast (ucast v :: 16 word))
      else if k = 1 then Some (ucast (ucast v :: 8 word))
      else None)"

text \<open>The store through the casted pointer, then the check whether the value has changed.\<close>

definition store_clamped :: "pb_field \<Rightarrow> addr \<Rightarrow> 64 word \<Rightarrow> 64 word option \<Rightarrow> (unit, 'u dstate) proc" where
  "store_clamped f dest value cast =
     (case cast of
        None \<Rightarrow> fail_with ''invalid data_size''
      | Some clamped \<Rightarrow>
          pbind (on_mem (store_nat dest (data_size f) (unat clamped))) (\<lambda>_.
            if clamped \<noteq> value then fail_with ''integer too large'' else preturn ()))"

definition pb_dec_varint :: "pb_field \<Rightarrow> addr \<Rightarrow> (unit, 'u dstate) proc" where
  "pb_dec_varint f dest = pbind (on_stream pb_decode_varint) (\<lambda>value.
     let svalue = (if data_size f = 8 then value else scast (ucast value :: 32 word))
     in store_clamped f dest svalue (cast_signed (data_size f) svalue))"

definition pb_dec_uvarint :: "pb_field \<Rightarrow> addr \<Rightarrow> (unit, 'u dstate) proc" where
  "pb_dec_uvarint f dest = pbind (on_stream pb_decode_varint) (\<lambda>value.
     store_clamped f dest value (cast_unsigned (data_size f) value))"

definition pb_dec_svarint :: "pb_field \<Rightarrow> addr \<Rightarrow> (unit, 'u dstate) proc" where
  "pb_dec_svarint f dest = pbind (on_stream pb_decode_svarint) (\<lambda>value.
     store_clamped f dest value (cast_signed (data_size f) value))"

definition pb_dec_fixed32 :: "pb_field \<Rightarrow> addr \<Rightarrow> (unit, 'u dstate) proc" where
  "pb_dec_fixed32 f dest = pbind (on_stream pb_decode_fixed32) (\<lambda>v. on_mem (store_nat dest 4 (unat v)))"

definition pb_dec_fixed64 :: "pb_field \<Rightarrow> addr \<Rightarrow> (unit, 'u dstate) proc" where
  "pb_dec_fixed64 f dest = pbind (on_stream pb_decode_fixed64) (\<lambda>v. on_mem (store_nat dest 8 (unat v)))"

section \<open>Bytes and strings\<close>

definition pb_dec_bytes :: "pb_field \<Rightarrow> addr \<Rightarrow> (unit, 'u dstate) proc" where
  "pb_dec_bytes f dest = pbind (on_stream pb_decode_varint32) (\<lambda>w.
     let size = unat w; alloc_size = PB_BYTES_ARRAY_T_ALLOCSIZE size in
     if PB_SIZE_MAX < size then fail_with ''bytes overflow''
     else if alloc_size < size then fail_with ''size too large''
     else if PB_ATYPE (ftype f) = PB_ATYPE_POINTER then fail_with ''no malloc support''
     else if data_size f < alloc_size then fail_with ''bytes overflow''
     else pbind (on_mem (store_nat dest sizeof_pb_size size)) (\<lambda>_.
            read_into (dest + int bytes_offset) size))"

text \<open>
  \<^verbatim>\<open>alloc_size = size + 1\<close> is computed in 32 bits. The terminator is stored whether
  or not the read succeeded.
\<close>

definition pb_dec_string :: "pb_field \<Rightarrow> addr \<Rightarrow> (unit, 'u dstate) proc" where
  "pb_dec_string f dest = pbind (on_stream pb_decode_varint32) (\<lambda>w.
     let size = unat w; alloc_size = unat (w + 1) in
     if alloc_size < size then fail_with ''size too large''
     else if PB_ATYPE (ftype f) = PB_ATYPE_POINTER then fail_with ''no malloc support''
     else if data_size f < alloc_size then fail_with ''string overflow''
     else (\<lambda>s. case read_into dest size s of
              Done (status, (st, m)) \<Rightarrow> Done (status, (st, store_nat (dest + int size) 1 0 m))
            | Undef \<Rightarrow> Undef
            | Diverge \<Rightarrow> Diverge))"

definition pb_dec_fixed_length_bytes :: "pb_field \<Rightarrow> addr \<Rightarrow> (unit, 'u dstate) proc" where
  "pb_dec_fixed_length_bytes f dest = pbind (on_stream pb_decode_varint32) (\<lambda>w.
     let size = unat w in
     if PB_SIZE_MAX < size then fail_with ''bytes overflow''
     else if size = 0 then on_mem (zero_bytes dest (data_size f))
     else if size \<noteq> data_size f then fail_with ''incorrect fixed length bytes size''
     else read_into dest (data_size f))"

section \<open>Submessages\<close>

text \<open>
  Run on a substream, then close it: the result of closing comes first, the status
  of the run second.
\<close>

definition in_substream :: "'u istream \<Rightarrow> (unit, 'u dstate) proc \<Rightarrow> (unit, 'u dstate) proc" where
  "in_substream subst p s =
     (case p (subst, snd s) of
        Done (status, (subst', m)) \<Rightarrow>
          (case pb_close_string_substream subst' (fst s) of
             (None, st) \<Rightarrow> Done (None, (st, m))
           | (Some _, st) \<Rightarrow> Done (status, (st, m)))
      | Undef \<Rightarrow> Undef
      | Diverge \<Rightarrow> Diverge)"

definition pb_dec_submessage ::
    "nat \<Rightarrow> 'u env \<Rightarrow> (pb_field list \<Rightarrow> addr \<Rightarrow> (unit, 'u dstate) proc) \<Rightarrow>
     pb_field \<Rightarrow> addr \<Rightarrow> (unit, 'u dstate) proc" where
  "pb_dec_submessage n env sub f dest =
     pbind (on_stream pb_make_string_substream) (\<lambda>subst.
       case fptr f of
         PtrNull \<Rightarrow> fail_with ''invalid field descriptor''
       | PtrDefault _ \<Rightarrow> pundef
       | PtrFields fs \<Rightarrow>
           in_substream subst
             (if PB_HTYPE (ftype f) = PB_HTYPE_REPEATED
              then pbind (set_defaults n env fs dest) (\<lambda>_. sub fs dest)
              else sub fs dest))"

section \<open>One field\<close>

text \<open>
  The table \<^verbatim>\<open>PB_DECODERS\<close>, which has a null pointer for extensions and ends before
  the codes without a name.
\<close>

definition PB_DECODERS ::
    "nat \<Rightarrow> 'u env \<Rightarrow> (pb_field list \<Rightarrow> addr \<Rightarrow> (unit, 'u dstate) proc) \<Rightarrow>
     pb_ltype \<Rightarrow> pb_field \<Rightarrow> addr \<Rightarrow> (unit, 'u dstate) proc" where
  "PB_DECODERS n env sub lt = (case lt of
      PB_LTYPE_VARINT \<Rightarrow> pb_dec_varint
    | PB_LTYPE_UVARINT \<Rightarrow> pb_dec_uvarint
    | PB_LTYPE_SVARINT \<Rightarrow> pb_dec_svarint
    | PB_LTYPE_FIXED32 \<Rightarrow> pb_dec_fixed32
    | PB_LTYPE_FIXED64 \<Rightarrow> pb_dec_fixed64
    | PB_LTYPE_BYTES \<Rightarrow> pb_dec_bytes
    | PB_LTYPE_STRING \<Rightarrow> pb_dec_string
    | PB_LTYPE_SUBMESSAGE \<Rightarrow> pb_dec_submessage n env sub
    | PB_LTYPE_EXTENSION \<Rightarrow> (\<lambda>f dest. pundef)
    | PB_LTYPE_FIXED_LENGTH_BYTES \<Rightarrow> pb_dec_fixed_length_bytes
    | PB_LTYPE_UNDECLARED \<Rightarrow> (\<lambda>f dest. pundef))"

text \<open>
  The address of an array item: the offset is the product of two \<^verbatim>\<open>pb_size_t\<close>, that
  is, of 32 bits.
\<close>

definition item_addr :: "pb_field \<Rightarrow> addr \<Rightarrow> nat \<Rightarrow> addr" where
  "item_addr f pData i = pData + int (data_size f * i mod 2 ^ 32)"

text \<open>The loop over a packed array, on the substream; every turn reads an item.\<close>

fun packed_loop ::
    "nat \<Rightarrow> (pb_field \<Rightarrow> addr \<Rightarrow> (unit, 'u dstate) proc) \<Rightarrow> pb_field \<Rightarrow> addr \<Rightarrow> addr \<Rightarrow>
     (unit, 'u dstate) proc" where
  "packed_loop 0 func f pData pSize s = Diverge"
| "packed_loop (Suc k) func f pData pSize s =
     (let size = load_nat pSize sizeof_pb_size (snd s) in
      if 0 < bytes_left (fst s) \<and> size < array_size f
      then pbind (func f (item_addr f pData size)) (\<lambda>_.
           pbind (with_mem (\<lambda>m. on_mem (store_nat pSize sizeof_pb_size
                    (load_nat pSize sizeof_pb_size m + 1)))) (\<lambda>_.
           packed_loop k func f pData pSize)) s
      else preturn () s)"

definition decode_packed ::
    "nat \<Rightarrow> (pb_field \<Rightarrow> addr \<Rightarrow> (unit, 'u dstate) proc) \<Rightarrow> pb_field_iter \<Rightarrow> (unit, 'u dstate) proc" where
  "decode_packed n func it =
     pbind (on_stream pb_make_string_substream) (\<lambda>subst s.
       case packed_loop n func (it_field it) (it_pData it) (it_pSize it) (subst, snd s) of
         Done (status, (subst', m)) \<Rightarrow>
           if bytes_left subst' \<noteq> 0 then fail_with ''array overflow'' (fst s, m)
           else (case pb_close_string_substream subst' (fst s) of
                   (None, st) \<Rightarrow> Done (None, (st, m))
                 | (Some _, st) \<Rightarrow> Done (status, (st, m)))
       | Undef \<Rightarrow> Undef
       | Diverge \<Rightarrow> Diverge)"

definition decode_repeated ::
    "(pb_field \<Rightarrow> addr \<Rightarrow> (unit, 'u dstate) proc) \<Rightarrow> pb_field_iter \<Rightarrow> (unit, 'u dstate) proc" where
  "decode_repeated func it =
     with_mem (\<lambda>m.
       let size = load_nat (it_pSize it) sizeof_pb_size m; f = it_field it in
       if array_size f \<le> size then fail_with ''array overflow''
       else pbind (on_mem (store_nat (it_pSize it) sizeof_pb_size (size + 1))) (\<lambda>_.
              func f (item_addr f (it_pData it) size)))"

definition decode_oneof ::
    "nat \<Rightarrow> 'u env \<Rightarrow> (pb_field \<Rightarrow> addr \<Rightarrow> (unit, 'u dstate) proc) \<Rightarrow> pb_field_iter \<Rightarrow>
     (unit, 'u dstate) proc" where
  "decode_oneof n env func it =
     (let f = it_field it in
      pbind (on_mem (store_nat (it_pSize it) sizeof_pb_size (ftag f))) (\<lambda>_.
      pbind (if PB_LTYPE (ftype f) = PB_LTYPE_SUBMESSAGE
             then pbind (on_mem (zero_bytes (it_pData it) (data_size f))) (\<lambda>_.
                    case fptr f of PtrFields fs \<Rightarrow> set_defaults n env fs (it_pData it) | _ \<Rightarrow> pundef)
             else preturn ()) (\<lambda>_.
      func f (it_pData it))))"

definition decode_static_field ::
    "nat \<Rightarrow> 'u env \<Rightarrow> (pb_field list \<Rightarrow> addr \<Rightarrow> (unit, 'u dstate) proc) \<Rightarrow>
     pb_wire_type \<Rightarrow> pb_field_iter \<Rightarrow> (unit, 'u dstate) proc" where
  "decode_static_field n env sub wt it =
     (let f = it_field it; lt = PB_LTYPE (ftype f); func = PB_DECODERS n env sub lt in
      if lt = PB_LTYPE_UNDECLARED then pundef
      else case PB_HTYPE (ftype f) of
        PB_HTYPE_REQUIRED \<Rightarrow> func f (it_pData it)
      | PB_HTYPE_OPTIONAL \<Rightarrow>
          pbind (if it_pSize it \<noteq> it_pData it then on_mem (store_nat (it_pSize it) 1 1)
                 else preturn ()) (\<lambda>_. func f (it_pData it))
      | PB_HTYPE_REPEATED \<Rightarrow>
          if wt = PB_WT_STRING \<and> packable lt then decode_packed n func it
          else decode_repeated func it
      | PB_HTYPE_ONEOF \<Rightarrow> decode_oneof n env func it)"

definition decode_pointer_field :: "pb_wire_type \<Rightarrow> pb_field_iter \<Rightarrow> (unit, 'u dstate) proc" where
  "decode_pointer_field wt it = fail_with ''no malloc support''"

section \<open>Callbacks\<close>

text \<open>
  \<^verbatim>\<open>do ... while (substream.bytes_left)\<close>; the result is the substream, or \<open>None\<close> when
  the callback failed.
\<close>

fun callback_loop :: "nat \<Rightarrow> (unit, 'u dstate) proc \<Rightarrow> (unit, 'u dstate) proc" where
  "callback_loop 0 call s = Diverge"
| "callback_loop (Suc k) call s =
     pbind call (\<lambda>_ s'. if bytes_left (fst s') \<noteq> 0 then callback_loop k call s' else preturn () s') s"

definition decode_callback_field ::
    "nat \<Rightarrow> 'u env \<Rightarrow> pb_wire_type \<Rightarrow> pb_field_iter \<Rightarrow> (unit, 'u dstate) proc" where
  "decode_callback_field n env wt it =
     with_mem (\<lambda>m.
       let funcs = callback_funcs (it_pData it) m;
           call = env_callback env funcs (it_field it) (callback_arg (it_pData it)) in
       if funcs = 0 then on_stream (pb_skip_field wt)
       else if wt = PB_WT_STRING
       then pbind (on_stream pb_make_string_substream) (\<lambda>subst s.
              case callback_loop n call (subst, snd s) of
                Done (None, (subst', m')) \<Rightarrow> fail_with ''callback failed'' (fst s, m')
              | Done (Some _, (subst', m')) \<Rightarrow>
                  on_stream (pb_close_string_substream subst') (fst s, m')
              | Undef \<Rightarrow> Undef
              | Diverge \<Rightarrow> Diverge)
       else pbind (on_stream (read_raw_value wt 10)) (\<lambda>buffer s.
              case call (pb_istream_from_buffer buffer (length buffer), snd s) of
                Done (status, (subst', m')) \<Rightarrow> Done (status, (fst s, m'))
              | Undef \<Rightarrow> Undef
              | Diverge \<Rightarrow> Diverge))"

definition decode_field ::
    "nat \<Rightarrow> 'u env \<Rightarrow> (pb_field list \<Rightarrow> addr \<Rightarrow> (unit, 'u dstate) proc) \<Rightarrow>
     pb_wire_type \<Rightarrow> pb_field_iter \<Rightarrow> (unit, 'u dstate) proc" where
  "decode_field n env sub wt it = (case PB_ATYPE (ftype (it_field it)) of
      PB_ATYPE_STATIC \<Rightarrow> decode_static_field n env sub wt it
    | PB_ATYPE_POINTER \<Rightarrow> decode_pointer_field wt it
    | PB_ATYPE_CALLBACK \<Rightarrow> decode_callback_field n env wt it
    | PB_ATYPE_UNDECLARED \<Rightarrow> fail_with ''invalid field type'')"

section \<open>Extensions\<close>

definition default_extension_decoder ::
    "nat \<Rightarrow> 'u env \<Rightarrow> (pb_field list \<Rightarrow> addr \<Rightarrow> (unit, 'u dstate) proc) \<Rightarrow>
     addr \<Rightarrow> nat \<Rightarrow> pb_wire_type \<Rightarrow> (unit, 'u dstate) proc" where
  "default_extension_decoder n env sub ext tag wt =
     with_mem (\<lambda>m.
       if ftag (env_ext_arg env (ext_type ext m)) \<noteq> tag then preturn ()
       else let it = iter_from_extension env ext m in
         pbind (on_mem (store_nat (ext_found_addr ext) 1 1)) (\<lambda>_. decode_field n env sub wt it))"

fun decode_extension_loop ::
    "nat \<Rightarrow> (addr \<Rightarrow> (unit, 'u dstate) proc) \<Rightarrow> nat \<Rightarrow> addr \<Rightarrow> (unit, 'u dstate) proc" where
  "decode_extension_loop 0 handler pos ext s = Diverge"
| "decode_extension_loop (Suc k) handler pos ext s =
     (if ext \<noteq> 0 \<and> pos = bytes_left (fst s)
      then pbind (handler ext) (\<lambda>_.
             with_mem (\<lambda>m. decode_extension_loop k handler pos (ext_next ext m))) s
      else preturn () s)"

definition extension_handler ::
    "nat \<Rightarrow> 'u env \<Rightarrow> (pb_field list \<Rightarrow> addr \<Rightarrow> (unit, 'u dstate) proc) \<Rightarrow>
     nat \<Rightarrow> pb_wire_type \<Rightarrow> addr \<Rightarrow> (unit, 'u dstate) proc" where
  "extension_handler n env sub tag wt ext =
     with_mem (\<lambda>m. case env_ext_decode env (ext_type ext m) of
         Some decode \<Rightarrow> decode ext tag wt
       | None \<Rightarrow> default_extension_decoder n env sub ext tag wt)"

definition decode_extension ::
    "nat \<Rightarrow> 'u env \<Rightarrow> (pb_field list \<Rightarrow> addr \<Rightarrow> (unit, 'u dstate) proc) \<Rightarrow>
     nat \<Rightarrow> pb_wire_type \<Rightarrow> pb_field_iter \<Rightarrow> (unit, 'u dstate) proc" where
  "decode_extension n env sub tag wt it s =
     decode_extension_loop n (extension_handler n env sub tag wt) (bytes_left (fst s))
       (int (load_nat (it_pData it) sizeof_ptr (snd s))) s"

text \<open>As in the search for a tag, one turn per descriptor is enough.\<close>

fun find_extension_loop :: "nat \<Rightarrow> nat \<Rightarrow> pb_field_iter \<Rightarrow> (bool \<times> pb_field_iter) option" where
  "find_extension_loop 0 start it = None"
| "find_extension_loop (Suc k) start it =
     (if PB_LTYPE (ftype (it_field it)) = PB_LTYPE_EXTENSION then Some (True, it)
      else let it' = snd (pb_field_iter_next it) in
        if it_pos it' = start then Some (False, it') else find_extension_loop k start it')"

definition find_extension_field :: "pb_field_iter \<Rightarrow> (bool \<times> pb_field_iter) option" where
  "find_extension_field it = find_extension_loop (Suc (length (it_start it))) (it_pos it) it"

section \<open>The message loop\<close>

text \<open>\<^verbatim>\<open>iter\<close>, \<^verbatim>\<open>fields_seen\<close> and \<^verbatim>\<open>extension_range_start\<close>\<close>

record decode_vars =
  dv_iter :: pb_field_iter
  dv_seen :: "32 word list"
  dv_ext_start :: nat

definition decode_unknown ::
    "nat \<Rightarrow> 'u env \<Rightarrow> (pb_field list \<Rightarrow> addr \<Rightarrow> (unit, 'u dstate) proc) \<Rightarrow>
     nat \<Rightarrow> pb_wire_type \<Rightarrow> decode_vars \<Rightarrow> (decode_vars, 'u dstate) proc" where
  "decode_unknown n env sub tag wt v =
     (if dv_ext_start v \<le> tag
      then (case find_extension_field (dv_iter v) of
          None \<Rightarrow> pdiverge
        | Some (found, it) \<Rightarrow>
            let start = (if found then ftag (it_field it) else 2 ^ 32 - 1);
                v' = v\<lparr> dv_iter := it, dv_ext_start := start \<rparr>;
                skip = pbind (on_stream (pb_skip_field wt)) (\<lambda>_. preturn v')
            in if start \<le> tag
               then (\<lambda>s. pbind (decode_extension n env sub tag wt it) (\<lambda>_ s'.
                       if bytes_left (fst s) \<noteq> bytes_left (fst s') then preturn v' s'
                       else skip s') s)
               else skip)
      else pbind (on_stream (pb_skip_field wt)) (\<lambda>_. preturn v))"

definition mark_seen :: "pb_field_iter \<Rightarrow> 32 word list \<Rightarrow> 32 word list" where
  "mark_seen it seen =
     (if PB_HTYPE (ftype (it_field it)) = PB_HTYPE_REQUIRED
         \<and> it_required it < PB_MAX_REQUIRED_FIELDS
      then let i = it_required it div 32 in
        seen[i := seen ! i OR push_bit (it_required it mod 32) 1]
      else seen)"

definition decode_one ::
    "nat \<Rightarrow> 'u env \<Rightarrow> (pb_field list \<Rightarrow> addr \<Rightarrow> (unit, 'u dstate) proc) \<Rightarrow>
     nat \<Rightarrow> pb_wire_type \<Rightarrow> decode_vars \<Rightarrow> (decode_vars, 'u dstate) proc" where
  "decode_one n env sub tag wt v = (case pb_field_iter_find (dv_iter v) tag of
      None \<Rightarrow> pdiverge
    | Some (False, it) \<Rightarrow> decode_unknown n env sub tag wt (v\<lparr> dv_iter := it \<rparr>)
    | Some (True, it) \<Rightarrow>
        pbind (decode_field n env sub wt it) (\<lambda>_.
          preturn (v\<lparr> dv_iter := it, dv_seen := mark_seen it (dv_seen v) \<rparr>)))"

fun decode_loop ::
    "nat \<Rightarrow> (nat \<Rightarrow> pb_wire_type \<Rightarrow> decode_vars \<Rightarrow> (decode_vars, 'u dstate) proc) \<Rightarrow>
     decode_vars \<Rightarrow> (decode_vars, 'u dstate) proc" where
  "decode_loop 0 one v s = Diverge"
| "decode_loop (Suc k) one v s =
     (if bytes_left (fst s) = 0 then preturn v s
      else case pb_decode_tag (fst s) of
          (TagEof, st) \<Rightarrow> preturn v (st, snd s)
        | (TagError, st) \<Rightarrow> Done (None, (st, snd s))
        | (Tag tag wt, st) \<Rightarrow> pbind (one tag wt v) (\<lambda>v'. decode_loop k one v') (st, snd s))"

text \<open>
  The search for the end of the table counts the required fields. The result is the
  count, the type of the last field, and the iterator back at the first.
\<close>

fun required_loop :: "nat \<Rightarrow> pb_field_iter \<Rightarrow> (nat \<times> pb_type_t \<times> pb_field_iter) option" where
  "required_loop 0 it = None"
| "required_loop (Suc k) it =
     (case pb_field_iter_next it of
        (True, it') \<Rightarrow> required_loop k it'
      | (False, it') \<Rightarrow> Some (it_required it, ftype (it_field it), it'))"

definition required_count :: "pb_field_iter \<Rightarrow> nat option" where
  "required_count it = (case required_loop (Suc (length (it_start it))) it of
      None \<Rightarrow> None
    | Some (count, last_type, it') \<Rightarrow>
        Some (if PB_HTYPE last_type = PB_HTYPE_REQUIRED \<and> ftag (it_field it') \<noteq> 0
              then count + 1 else count))"

text \<open>
  \<^verbatim>\<open>fields_seen\<close> has two words. Reading a third, and shifting a word of 32 bits by 32,
  are undefined; both happen when the number of required fields is a multiple of 32
  (and the former for every number above 64).
\<close>

fun check_words :: "nat \<Rightarrow> 32 word list \<Rightarrow> bool outcome" where
  "check_words 0 seen = Done True"
| "check_words (Suc k) seen = (case seen of
     [] \<Rightarrow> Undef
   | w # ws \<Rightarrow> if w \<noteq> - 1 then Done False else check_words k ws)"

definition check_required :: "nat \<Rightarrow> 32 word list \<Rightarrow> bool outcome" where
  "check_required count seen =
     (if count = 0 then Done True
      else (case check_words (count div 32) seen of
          Done True \<Rightarrow>
            (if length seen \<le> count div 32 \<or> count mod 32 = 0 then Undef
             else Done (seen ! (count div 32) = drop_bit (32 - count mod 32) (- 1)))
        | r \<Rightarrow> r))"

definition finish_message :: "decode_vars \<Rightarrow> (unit, 'u dstate) proc" where
  "finish_message v = (case required_count (dv_iter v) of
      None \<Rightarrow> pdiverge
    | Some count \<Rightarrow> (case check_required count (dv_seen v) of
          Done True \<Rightarrow> preturn ()
        | Done False \<Rightarrow> fail_with ''missing required field''
        | Undef \<Rightarrow> pundef
        | Diverge \<Rightarrow> pdiverge))"

definition decode_message ::
    "nat \<Rightarrow> 'u env \<Rightarrow> (pb_field list \<Rightarrow> addr \<Rightarrow> (unit, 'u dstate) proc) \<Rightarrow>
     pb_field list \<Rightarrow> addr \<Rightarrow> (unit, 'u dstate) proc" where
  "decode_message n env sub fs dest =
     pbind (decode_loop n (decode_one n env sub)
              \<lparr> dv_iter = snd (pb_field_iter_begin fs dest), dv_seen = [0, 0], dv_ext_start = 0 \<rparr>)
       finish_message"

fun pb_decode_noinit ::
    "nat \<Rightarrow> 'u env \<Rightarrow> pb_field list \<Rightarrow> addr \<Rightarrow> (unit, 'u dstate) proc" where
  "pb_decode_noinit 0 env fs dest = pdiverge"
| "pb_decode_noinit (Suc n) env fs dest = decode_message n env (pb_decode_noinit n env) fs dest"

definition pb_decode :: "nat \<Rightarrow> 'u env \<Rightarrow> pb_field list \<Rightarrow> addr \<Rightarrow> (unit, 'u dstate) proc" where
  "pb_decode n env fs dest =
     pbind (set_defaults n env fs dest) (\<lambda>_. pb_decode_noinit n env fs dest)"

definition pb_decode_delimited :: "nat \<Rightarrow> 'u env \<Rightarrow> pb_field list \<Rightarrow> addr \<Rightarrow> (unit, 'u dstate) proc" where
  "pb_decode_delimited n env fs dest =
     pbind (on_stream pb_make_string_substream) (\<lambda>subst. in_substream subst (pb_decode n env fs dest))"

end
