(* ===== verification/Pb_Decode_Safe.thy ===== *)
theory Pb_Decode_Safe
  imports Pb_Decode
begin

text \<open>
  Memory safety of the decoder. The locale \<open>decoding\<close> is the contract every decoding
  operation keeps: it stays within its input stream, and it changes no byte of the
  memory outside a given set. \<open>fields_ok\<close> says that the members a descriptor table
  names lie inside the structure; for such tables, and user functions that keep the
  contract themselves, the whole decoder keeps it.
\<close>

section \<open>The contract\<close>

locale decoding =
  fixes p :: "('a, 'u dstate) proc" and A :: "addr set"
  assumes keeps: "in_ok k st \<Longrightarrow> p (st, m) = Done (v, (st', m')) \<Longrightarrow>
    in_ok k st' \<and> bytes_left st' \<le> bytes_left st \<and> (\<forall>x. x \<notin> A \<longrightarrow> m' x = m x)"
begin

lemma stream_kept: "in_ok k st \<Longrightarrow> p (st, m) = Done (v, (st', m')) \<Longrightarrow> in_ok k st' \<and> bytes_left st' \<le> bytes_left st"
  using keeps by blast

lemma memory_kept: "in_ok k st \<Longrightarrow> p (st, m) = Done (v, (st', m')) \<Longrightarrow> x \<notin> A \<Longrightarrow> m' x = m x"
  using keeps by blast

end

lemma decodingI:
  "(\<And>k st m v st' m'. in_ok k st \<Longrightarrow> p (st, m) = Done (v, (st', m')) \<Longrightarrow>
      in_ok k st' \<and> bytes_left st' \<le> bytes_left st \<and> (\<forall>x. x \<notin> A \<longrightarrow> m' x = m x)) \<Longrightarrow> decoding p A"
  by (rule decoding.intro)

named_theorems decoding_intros

lemma decoding_preturn [decoding_intros]: "decoding (preturn x) A"
  by (rule decodingI) (auto simp: preturn_def)

lemma decoding_pundef [decoding_intros]: "decoding pundef A"
  by (rule decodingI) (simp add: pundef_def)

lemma decoding_pdiverge [decoding_intros]: "decoding pdiverge A"
  by (rule decodingI) (simp add: pdiverge_def)

lemma decoding_pbind [decoding_intros]:
  assumes "decoding p A" and "\<And>x. decoding (f x) A"
  shows "decoding (pbind p f) A"
proof (rule decodingI)
  fix k st m v st' m'
  assume ok: "in_ok k st" and run: "pbind p f (st, m) = Done (v, (st', m'))"
  from run show "in_ok k st' \<and> bytes_left st' \<le> bytes_left st \<and> (\<forall>x. x \<notin> A \<longrightarrow> m' x = m x)"
  proof (cases rule: pbind_cases)
    case fail
    then show ?thesis using decoding.keeps [OF assms(1) ok] by blast
  next
    case (ok x s)
    obtain st1 m1 where s: "s = (st1, m1)" by fastforce
    have 1: "in_ok k st1 \<and> bytes_left st1 \<le> bytes_left st \<and> (\<forall>x. x \<notin> A \<longrightarrow> m1 x = m x)"
      using decoding.keeps [OF assms(1) \<open>in_ok k st\<close>] ok(1) unfolding s by blast
    have "in_ok k st' \<and> bytes_left st' \<le> bytes_left st1 \<and> (\<forall>x. x \<notin> A \<longrightarrow> m' x = m1 x)"
      using decoding.keeps [OF assms(2)] 1 ok(2) unfolding s by blast
    then show ?thesis using 1 by auto
  qed
qed

lemma decoding_if [decoding_intros]:
  "(c \<Longrightarrow> decoding a A) \<Longrightarrow> (\<not> c \<Longrightarrow> decoding b A) \<Longrightarrow> decoding (if c then a else b) A"
  by simp

lemma decoding_on_stream [decoding_intros]: "istream_reader f \<Longrightarrow> decoding (on_stream f) A"
proof (rule decodingI)
  fix k st m v st' m'
  assume "istream_reader f" "in_ok k st" "on_stream f (st, m) = Done (v, (st', m'))"
  then show "in_ok k st' \<and> bytes_left st' \<le> bytes_left st \<and> (\<forall>x. x \<notin> A \<longrightarrow> m' x = m x)"
    using istream_reader.keeps [of f k st v st'] by (auto simp: on_stream_def split: prod.splits)
qed

lemma decoding_fail_with [decoding_intros]: "decoding (fail_with msg) A"
  unfolding fail_with_def by (intro decoding_on_stream reader_error)

lemma decoding_on_mem: "(\<And>m x. x \<notin> A \<Longrightarrow> g m x = m x) \<Longrightarrow> decoding (on_mem g) A"
  by (rule decodingI) (auto simp: on_mem_def)

lemma decoding_store [decoding_intros]: "region a n \<subseteq> A \<Longrightarrow> decoding (on_mem (store_nat a n v)) A"
  by (rule decoding_on_mem) (meson store_nat_other subsetD)

lemma decoding_zero [decoding_intros]: "region a n \<subseteq> A \<Longrightarrow> decoding (on_mem (zero_bytes a n)) A"
  by (rule decoding_on_mem) (metis zero_bytes_def store_bytes_other length_replicate subsetD)

lemma decoding_with_mem [decoding_intros]: "(\<And>m. decoding (f m) A) \<Longrightarrow> decoding (with_mem f) A"
proof (rule decodingI)
  fix k st m v st' m'
  assume "\<And>m. decoding (f m) A" "in_ok k st" "with_mem f (st, m) = Done (v, (st', m'))"
  then show "in_ok k st' \<and> bytes_left st' \<le> bytes_left st \<and> (\<forall>x. x \<notin> A \<longrightarrow> m' x = m x)"
    unfolding with_mem_def snd_conv by (metis decoding.keeps)
qed

lemma pb_read_length: "in_ok k st \<Longrightarrow> pb_read n st = (Some bs, st') \<Longrightarrow> length bs = n"
proof -
  assume ok: "in_ok k st" and run: "pb_read n st = (Some bs, st')"
  then have n: "n \<le> bytes_left st"
    by (auto simp: pb_read_def PB_RETURN_ERROR_def split: if_splits)
  obtain w s where c: "run_callback n st = (w, s)" by fastforce
  then have "w = Some bs" using run n
    by (auto simp: pb_read_def PB_RETURN_ERROR_def split: option.splits)
  then show ?thesis using run_callback_ok [OF ok n c] by simp
qed

lemma decoding_read_into [decoding_intros]:
  assumes "region a n \<subseteq> A"
  shows "decoding (read_into a n) A"
proof (rule decodingI)
  fix k st m v st' m'
  assume ok: "in_ok k st" and run: "read_into a n (st, m) = Done (v, (st', m'))"
  obtain r s where r: "pb_read n st = (r, s)" by fastforce
  from istream_reader.keeps [OF reader_pb_read ok r]
  have s: "in_ok k s \<and> bytes_left s \<le> bytes_left st" .
  show "in_ok k st' \<and> bytes_left st' \<le> bytes_left st \<and> (\<forall>x. x \<notin> A \<longrightarrow> m' x = m x)"
  proof (cases r)
    case None
    then show ?thesis using run r s by (auto simp: read_into_def pbind_def on_stream_def)
  next
    case (Some bs)
    then have "m' = store_bytes a bs m" "st' = s"
      using run r by (auto simp: read_into_def pbind_def on_stream_def on_mem_def)
    moreover have "length bs = n" using pb_read_length [OF ok] r Some by simp
    ultimately show ?thesis using s assms store_bytes_other [of _ a bs m] by blast
  qed
qed

section \<open>Tables whose members lie inside the structure\<close>

text \<open>The width of the member behind \<^verbatim>\<open>pSize\<close>.\<close>

definition size_width :: "pb_field \<Rightarrow> nat" where
  "size_width f =
     (if PB_ATYPE (ftype f) \<notin> {PB_ATYPE_STATIC, PB_ATYPE_POINTER} then 0
      else case PB_HTYPE (ftype f) of
          PB_HTYPE_REQUIRED \<Rightarrow> 0
        | PB_HTYPE_OPTIONAL \<Rightarrow> if PB_ATYPE (ftype f) = PB_ATYPE_STATIC then 1 else 0
        | PB_HTYPE_REPEATED \<Rightarrow> sizeof_pb_size
        | PB_HTYPE_ONEOF \<Rightarrow> sizeof_pb_size)"

definition inside :: "nat \<Rightarrow> addr \<Rightarrow> nat \<Rightarrow> bool" where
  "inside sz a n \<longleftrightarrow> n = 0 \<or> 0 \<le> a \<and> a + int n \<le> int sz"

definition member_ok :: "nat \<Rightarrow> pb_field \<Rightarrow> addr \<Rightarrow> addr \<Rightarrow> bool" where
  "member_ok sz f a b \<longleftrightarrow>
     PB_LTYPE (ftype f) \<noteq> PB_LTYPE_EXTENSION
     \<and> inside sz a (field_extent f)
     \<and> (PB_HTYPE (ftype f) = PB_HTYPE_OPTIONAL \<and> a = b \<or> inside sz b (size_width f))
     \<and> (PB_LTYPE (ftype f) = PB_LTYPE_FIXED32 \<longrightarrow> 4 \<le> data_size f)
     \<and> (PB_LTYPE (ftype f) = PB_LTYPE_FIXED64 \<longrightarrow> 8 \<le> data_size f)
     \<and> data_size f * array_size f < 2 ^ 32"

text \<open>All members of the table and of the tables of its submessages.\<close>

function fields_ok :: "pb_field list \<Rightarrow> nat \<Rightarrow> bool" where
  "fields_ok fs sz \<longleftrightarrow>
     (\<forall>f \<in> set fs. ftag f \<noteq> 0)
     \<and> (\<forall>i < n_fields fs. member_ok sz (field_at fs i) (field_addr fs 0 i) (field_size_addr fs 0 i))
     \<and> (\<forall>f \<in> set fs. PB_LTYPE (ftype f) = PB_LTYPE_SUBMESSAGE \<longrightarrow> fields_ok (submsg_fields f) (data_size f))"
  by pat_completeness auto
termination
  by (relation "measure (\<lambda>(fs, _). fields_size fs)") (auto intro: submsg_fields_size)

declare fields_ok.simps [simp del]

lemma field_addr_shift: "field_addr fs dest i = dest + field_addr fs 0 i"
  by (induction i) auto

lemma field_size_addr_shift: "field_size_addr fs dest i = dest + field_size_addr fs 0 i"
  by (induction i) (simp_all add: field_addr_shift [of fs dest])

lemma inside_region:
  "inside sz a n \<Longrightarrow> region dest sz \<subseteq> A \<Longrightarrow> region (dest + a) n \<subseteq> A"
  by (cases "n = 0") (auto simp: inside_def subset_iff)

text \<open>What the field decoders need to know of a field at its addresses.\<close>

definition member_within :: "addr set \<Rightarrow> pb_field \<Rightarrow> addr \<Rightarrow> addr \<Rightarrow> bool" where
  "member_within A f a b \<longleftrightarrow>
     PB_LTYPE (ftype f) \<noteq> PB_LTYPE_EXTENSION
     \<and> region a (field_extent f) \<subseteq> A
     \<and> (PB_HTYPE (ftype f) = PB_HTYPE_OPTIONAL \<and> a = b \<or> region b (size_width f) \<subseteq> A)
     \<and> (PB_LTYPE (ftype f) = PB_LTYPE_FIXED32 \<longrightarrow> 4 \<le> data_size f)
     \<and> (PB_LTYPE (ftype f) = PB_LTYPE_FIXED64 \<longrightarrow> 8 \<le> data_size f)
     \<and> data_size f * array_size f < 2 ^ 32
     \<and> (PB_LTYPE (ftype f) = PB_LTYPE_SUBMESSAGE \<longrightarrow> fields_ok (submsg_fields f) (data_size f))"

lemma fields_ok_member:
  assumes "fields_ok fs sz" and "i < n_fields fs" and "region dest sz \<subseteq> A"
  shows "member_within A (field_at fs i) (field_addr fs dest i) (field_size_addr fs dest i)"
proof -
  have m: "member_ok sz (field_at fs i) (field_addr fs 0 i) (field_size_addr fs 0 i)"
    and s: "PB_LTYPE (ftype (field_at fs i)) = PB_LTYPE_SUBMESSAGE \<longrightarrow>
      fields_ok (submsg_fields (field_at fs i)) (data_size (field_at fs i))"
    using assms(1,2) field_at_mem [OF assms(2)] by (auto simp: fields_ok.simps [of fs sz])
  then show ?thesis
    using inside_region [OF _ assms(3)]
    by (auto simp: member_ok_def member_within_def field_addr_shift [of fs dest]
        field_size_addr_shift [of fs dest])
qed

text \<open>In an empty table the iterator stands at the terminator, which takes no space.\<close>

lemma field_at_empty:
  assumes "fields_ok fs sz" and "n_fields fs = 0"
  shows "field_at fs 0 = PB_LAST_FIELD"
proof -
  have "\<forall>f \<in> set fs. ftag f \<noteq> 0" using assms(1) by (simp add: fields_ok.simps [of fs sz])
  then have "fs = []" using assms(2) by (cases fs) (auto simp: n_fields_def)
  then show ?thesis by (simp add: field_at_def)
qed

lemma last_field_type: "PB_LTYPE (ftype PB_LAST_FIELD) = PB_LTYPE_VARINT"
  "PB_HTYPE (ftype PB_LAST_FIELD) = PB_HTYPE_REQUIRED" "PB_ATYPE (ftype PB_LAST_FIELD) = PB_ATYPE_STATIC"
  "data_size PB_LAST_FIELD = 0" "array_size PB_LAST_FIELD = 0"
  by (simp_all add: PB_LAST_FIELD_def PB_LTYPE_def PB_HTYPE_def PB_ATYPE_def Let_def)

lemma fields_ok_valid:
  assumes "fields_ok fs sz" and "valid_pos fs i" and "region dest sz \<subseteq> A"
  shows "member_within A (field_at fs i) (field_addr fs dest i) (field_size_addr fs dest i)"
proof (cases "n_fields fs = 0")
  case True
  then have "field_at fs i = PB_LAST_FIELD"
    using field_at_empty [OF assms(1)] assms(2) by (simp add: valid_pos_def)
  then show ?thesis by (simp add: member_within_def last_field_type field_extent_def size_width_def)
next
  case False
  then show ?thesis using fields_ok_member [OF assms(1) _ assms(3)] assms(2) by (simp add: valid_pos_def)
qed

lemma fields_ok_no_ext:
  assumes "fields_ok fs sz" and "valid_pos fs i"
  shows "PB_LTYPE (ftype (field_at fs i)) \<noteq> PB_LTYPE_EXTENSION"
  using fields_ok_valid [OF assms, of 0 UNIV] by (simp add: member_within_def)

section \<open>Field decoders\<close>

lemma decoding_store_clamped [decoding_intros]:
  "region dest (data_size f) \<subseteq> A \<Longrightarrow> decoding (store_clamped f dest v c) A"
  unfolding store_clamped_def by (cases c) (auto intro!: decoding_intros simp del: region_iff)

lemma decoding_dec_varint [decoding_intros]:
  "region dest (data_size f) \<subseteq> A \<Longrightarrow> decoding (pb_dec_varint f dest) A"
  unfolding pb_dec_varint_def Let_def by (intro decoding_intros reader_intros)

lemma decoding_dec_uvarint [decoding_intros]:
  "region dest (data_size f) \<subseteq> A \<Longrightarrow> decoding (pb_dec_uvarint f dest) A"
  unfolding pb_dec_uvarint_def by (intro decoding_intros reader_intros)

lemma decoding_dec_svarint [decoding_intros]:
  "region dest (data_size f) \<subseteq> A \<Longrightarrow> decoding (pb_dec_svarint f dest) A"
  unfolding pb_dec_svarint_def by (intro decoding_intros reader_intros)

lemma region_shrink: "region a n \<subseteq> A \<Longrightarrow> k \<le> n \<Longrightarrow> region a k \<subseteq> A"
  using region_mono [of a a k n] by auto

lemma region_within: "region a n \<subseteq> A \<Longrightarrow> a \<le> b \<Longrightarrow> b + int k \<le> a + int n \<Longrightarrow> region b k \<subseteq> A"
  using region_mono [of a b k n] by auto

lemma decoding_dec_fixed32 [decoding_intros]:
  "region dest (data_size f) \<subseteq> A \<Longrightarrow> 4 \<le> data_size f \<Longrightarrow> decoding (pb_dec_fixed32 f dest) A"
  unfolding pb_dec_fixed32_def by (intro decoding_intros reader_intros) (rule region_shrink)

lemma decoding_dec_fixed64 [decoding_intros]:
  "region dest (data_size f) \<subseteq> A \<Longrightarrow> 8 \<le> data_size f \<Longrightarrow> decoding (pb_dec_fixed64 f dest) A"
  unfolding pb_dec_fixed64_def by (intro decoding_intros reader_intros) (rule region_shrink)

lemma decoding_dec_bytes [decoding_intros]:
  assumes "region dest (data_size f) \<subseteq> A"
  shows "decoding (pb_dec_bytes f dest) A"
  unfolding pb_dec_bytes_def Let_def
proof (intro decoding_intros reader_intros)
  fix w :: "32 word"
  assume "\<not> data_size f < PB_BYTES_ARRAY_T_ALLOCSIZE (unat w)"
  then have "unat w + bytes_offset \<le> data_size f" by (simp add: PB_BYTES_ARRAY_T_ALLOCSIZE_def)
  then show "region dest sizeof_pb_size \<subseteq> A" "region (dest + int bytes_offset) (unat w) \<subseteq> A"
    unfolding bytes_offset_def by (intro region_within [OF assms]; linarith)+
qed

text \<open>An update of the memory after an operation, whatever its status.\<close>

lemma decoding_then_store:
  assumes "decoding p A" and "region a n \<subseteq> A"
  shows "decoding (\<lambda>s. case p s of
      Done (r, (st, m)) \<Rightarrow> Done (r, (st, store_nat a n v m)) | Undef \<Rightarrow> Undef | Diverge \<Rightarrow> Diverge) A"
proof (rule decodingI)
  fix k st m r st' m'
  assume ok: "in_ok k st" and run: "(case p (st, m) of
      Done (r, (st, m)) \<Rightarrow> Done (r, (st, store_nat a n v m)) | Undef \<Rightarrow> Undef | Diverge \<Rightarrow> Diverge)
      = Done (r, (st', m'))"
  then obtain m1 where "p (st, m) = Done (r, (st', m1))" "m' = store_nat a n v m1"
    by (auto split: outcome.splits prod.splits)
  then show "in_ok k st' \<and> bytes_left st' \<le> bytes_left st \<and> (\<forall>x. x \<notin> A \<longrightarrow> m' x = m x)"
    using decoding.keeps [OF assms(1) ok] assms(2) by (metis store_nat_other subsetD)
qed

text \<open>The sum in 32 bits wraps to zero or is the sum.\<close>

lemma unat32_add_1: "unat (w + 1 :: 32 word) < unat w \<or> unat (w + 1) = unat w + 1"
proof (cases "unat w + 1 < 2 ^ 32")
  case True
  then show ?thesis by (simp add: unat_word_ariths)
next
  case False
  then have "unat w = 2 ^ 32 - 1" using unat32_less [of w] by simp
  then show ?thesis by (simp add: unat_word_ariths)
qed

lemma decoding_dec_string [decoding_intros]:
  assumes "region dest (data_size f) \<subseteq> A"
  shows "decoding (pb_dec_string f dest) A"
  unfolding pb_dec_string_def Let_def
proof (intro decoding_pbind decoding_if decoding_fail_with decoding_on_stream reader_intros decoding_then_store
    decoding_read_into)
  fix w :: "32 word"
  assume "\<not> unat (w + 1) < unat w" and d: "\<not> data_size f < unat (w + 1)"
  then have "unat (w + 1) = unat w + 1" using unat32_add_1 [of w] by simp
  with d have "unat w + 1 \<le> data_size f" by simp
  then show "region dest (unat w) \<subseteq> A" "region (dest + int (unat w)) 1 \<subseteq> A"
    by (intro region_within [OF assms]; linarith)+
qed

lemma decoding_dec_fixed_length_bytes [decoding_intros]:
  "region dest (data_size f) \<subseteq> A \<Longrightarrow> decoding (pb_dec_fixed_length_bytes f dest) A"
  unfolding pb_dec_fixed_length_bytes_def Let_def by (intro decoding_intros reader_intros)

section \<open>Substreams\<close>

lemma reader_pb_make_string_substream [reader_intros]: "istream_reader pb_make_string_substream"
  unfolding pb_make_string_substream_def
  by (intro reader_obind reader_pb_decode_varint32, rule istream_readerI)
    (auto simp: PB_RETURN_ERROR_def in_ok_def split: if_splits source.splits)

lemma decoding_substream:
  assumes "\<And>k subst st m v st' m'. in_ok k st \<Longrightarrow> in_ok (bytes_left st + k) subst \<Longrightarrow>
      f subst (st, m) = Done (v, (st', m')) \<Longrightarrow>
      in_ok k st' \<and> bytes_left st' \<le> bytes_left st \<and> (\<forall>x. x \<notin> A \<longrightarrow> m' x = m x)"
  shows "decoding (pbind (on_stream pb_make_string_substream) f) A"
proof (rule decodingI)
  fix k st m v st' m'
  assume ok: "in_ok k st" and run: "pbind (on_stream pb_make_string_substream) f (st, m) = Done (v, (st', m'))"
  obtain r s where r: "pb_make_string_substream st = (r, s)" by fastforce
  show "in_ok k st' \<and> bytes_left st' \<le> bytes_left st \<and> (\<forall>x. x \<notin> A \<longrightarrow> m' x = m x)"
  proof (cases r)
    case None
    then have "st' = s" "m' = m" using run r by (auto simp: pbind_def on_stream_def)
    then show ?thesis using istream_reader.keeps [OF reader_pb_make_string_substream ok r] by simp
  next
    case (Some subst)
    have "f subst (s, m) = Done (v, (st', m'))"
      using run r Some by (simp add: pbind_def on_stream_def)
    moreover have "in_ok (bytes_left s + k) subst" "bytes_left s \<le> bytes_left st"
      using pb_make_string_substream_ok(1,2) [OF ok] r Some by auto
    moreover have "in_ok k s"
      using pb_make_string_substream_ok(1,3) [OF ok, of subst s] r Some
      by (auto simp: in_ok_def split: source.splits)
    ultimately show ?thesis using assms [of k s subst m v st' m'] by auto
  qed
qed

lemma decoding_in_substream:
  assumes "decoding p A" and "in_ok k st" and "in_ok (bytes_left st + k) subst"
    and "in_substream subst p (st, m) = Done (v, (st', m'))"
  shows "in_ok k st' \<and> bytes_left st' \<le> bytes_left st \<and> (\<forall>x. x \<notin> A \<longrightarrow> m' x = m x)"
proof -
  obtain status subst' where run: "p (subst, m) = Done (status, (subst', m'))"
      and close: "st' = snd (pb_close_string_substream subst' st)"
    using assms(4) by (auto simp: in_substream_def split: outcome.splits prod.splits option.splits)
  have "in_ok (bytes_left st + k) subst' \<and> (\<forall>x. x \<notin> A \<longrightarrow> m' x = m x)"
    using decoding.keeps [OF assms(1,3) run] by blast
  then show ?thesis
    using pb_close_string_substream_ok [OF _ assms(2), of subst' "fst (pb_close_string_substream subst' st)" st']
      close by (metis order_refl prod.collapse)
qed

lemma decoding_delimited [decoding_intros]:
  "decoding p A \<Longrightarrow> decoding (pbind (on_stream pb_make_string_substream) (\<lambda>subst. in_substream subst p)) A"
  by (rule decoding_substream) (erule (2) decoding_in_substream)

section \<open>Default values\<close>

definition mem_within :: "addr set \<Rightarrow> (mem \<Rightarrow> mem outcome) \<Rightarrow> bool" where
  "mem_within A g \<longleftrightarrow> (\<forall>m m'. g m = Done m' \<longrightarrow> (\<forall>x. x \<notin> A \<longrightarrow> m' x = m x))"

lemma message_defaults_within:
  assumes "\<And>i. i < n_fields fs \<Longrightarrow> mem_within A (set_default (iter_at fs dest i))"
  shows "mem_within A (message_defaults set_default fs dest)"
proof -
  have loop: "message_defaults_loop k set_default (iter_at fs dest i) m = Done m' \<Longrightarrow> i < n_fields fs \<Longrightarrow>
      x \<notin> A \<Longrightarrow> m' x = m x" for k i m m' x
  proof (induction k arbitrary: i m)
    case (Suc k)
    then obtain m1 where m1: "set_default (iter_at fs dest i) m = Done m1"
      by (auto split: outcome.splits)
    have "m1 x = m x" using assms [OF Suc.prems(2)] m1 Suc.prems(3) by (auto simp: mem_within_def)
    moreover have "m' x = m1 x"
    proof (cases "Suc i < n_fields fs")
      case True
      then show ?thesis using Suc.IH [of "Suc i" m1] Suc.prems m1 by (simp add: iter_next_step)
    next
      case False
      then have "Suc i = n_fields fs" using Suc.prems(2) by simp
      then show ?thesis using Suc.prems m1 by (simp add: iter_next_wrap)
    qed
    ultimately show ?case by simp
  qed simp
  show ?thesis
    unfolding mem_within_def message_defaults_def iter_begin_eq
    by (auto split: bool.splits dest: loop simp del: message_defaults_loop.simps)
qed

lemma set_to_default_within:
  assumes "member_within A (it_field it) (it_pData it) (it_pSize it)"
  shows "mem_within A (pb_field_set_to_default n env it)"
  using assms
proof (induction n arbitrary: it)
  case (Suc n)
  let ?f = "it_field it"
  have ext: "PB_LTYPE (ftype ?f) \<noteq> PB_LTYPE_EXTENSION"
    and data: "region (it_pData it) (field_extent ?f) \<subseteq> A"
    and size: "PB_HTYPE (ftype ?f) = PB_HTYPE_OPTIONAL \<and> it_pData it = it_pSize it
      \<or> region (it_pSize it) (size_width ?f) \<subseteq> A"
    and sub: "PB_LTYPE (ftype ?f) = PB_LTYPE_SUBMESSAGE \<longrightarrow> fields_ok (submsg_fields ?f) (data_size ?f)"
    using Suc.prems by (simp_all add: member_within_def)
  show ?case
    unfolding mem_within_def
  proof (intro allI impI)
    fix m m' x
    assume run: "pb_field_set_to_default (Suc n) env it m = Done m'" and x: "x \<notin> A"
    have size_store: "store_nat (it_pSize it) k v m0 x = m0 x" if "k \<le> size_width ?f"
      "\<not> (PB_HTYPE (ftype ?f) = PB_HTYPE_OPTIONAL \<and> it_pData it = it_pSize it)" for k v m0
      using size that x region_shrink by (meson store_nat_other subsetD)
    have data_store: "store_bytes (it_pData it) bs m0 x = m0 x" if "length bs \<le> field_extent ?f" for bs m0
      using data that x region_shrink by (meson store_bytes_other subsetD)
    show "m' x = m x"
    proof (cases "PB_ATYPE (ftype ?f)")
      case PB_ATYPE_STATIC
      show ?thesis
      proof (cases "PB_HTYPE (ftype ?f) \<in> {PB_HTYPE_REPEATED, PB_HTYPE_ONEOF}")
        case True
        then have "sizeof_pb_size \<le> size_width ?f" "PB_HTYPE (ftype ?f) \<noteq> PB_HTYPE_OPTIONAL"
          using PB_ATYPE_STATIC by (auto simp: size_width_def)
        then show ?thesis using run ext True PB_ATYPE_STATIC size_store by auto
      next
        case False
        then have extent: "field_extent ?f = data_size ?f" using PB_ATYPE_STATIC by (simp add: field_extent_def)
        define m1 where "m1 = (if PB_HTYPE (ftype ?f) = PB_HTYPE_OPTIONAL \<and> it_pSize it \<noteq> it_pData it
                       then store_nat (it_pSize it) 1 0 m else m)"
        have m1: "m1 x = m x"
          using size_store [of 1] PB_ATYPE_STATIC by (auto simp: m1_def size_width_def)
        show ?thesis
        proof (cases "PB_LTYPE (ftype ?f) = PB_LTYPE_SUBMESSAGE")
          case True
          then obtain fs where fs: "fptr ?f = PtrFields fs"
              "message_defaults (pb_field_set_to_default n env) fs (it_pData it) m1 = Done m'"
            using run ext False PB_ATYPE_STATIC m1_def by (auto simp: Let_def split: pb_field_ptr.splits)
          have "fields_ok fs (data_size ?f)" using sub True fs(1) by (simp add: submsg_fields_def)
          then have "mem_within A (pb_field_set_to_default n env (iter_at fs (it_pData it) i))" if "i < n_fields fs" for i
            using fields_ok_member [OF _ that] data extent by (intro Suc.IH) simp
          then have "mem_within A (message_defaults (pb_field_set_to_default n env) fs (it_pData it))"
            by (rule message_defaults_within)
          then have "m' x = m1 x" using fs(2) x unfolding mem_within_def by blast
          then show ?thesis using m1 by simp
        next
          case nosub: False
          from run ext False PB_ATYPE_STATIC nosub m1_def
          have "\<exists>bs. m' = store_bytes (it_pData it) bs m1 \<and> length bs \<le> data_size ?f"
            by (auto simp: Let_def zero_bytes_def split: pb_field_ptr.splits)
          then show ?thesis using data_store m1 extent by auto
        qed
      qed
    next
      case PB_ATYPE_POINTER
      then have "field_extent ?f = sizeof_ptr" by (simp add: field_extent_def)
      then have p: "store_nat (it_pData it) sizeof_ptr 0 m x = m x"
        unfolding store_nat_def by (intro data_store) simp
      show ?thesis
      proof (cases "PB_HTYPE (ftype ?f) \<in> {PB_HTYPE_REPEATED, PB_HTYPE_ONEOF}")
        case True
        then have "sizeof_pb_size \<le> size_width ?f" "PB_HTYPE (ftype ?f) \<noteq> PB_HTYPE_OPTIONAL"
          using PB_ATYPE_POINTER by (auto simp: size_width_def)
        then show ?thesis using run ext True PB_ATYPE_POINTER size_store p by (auto simp: Let_def)
      next
        case False
        then show ?thesis using run ext PB_ATYPE_POINTER p by (auto simp: Let_def)
      qed
    qed (use run ext in auto)
  qed
qed (simp add: mem_within_def)

lemma decoding_set_defaults:
  assumes "fields_ok fs sz" and "region dest sz \<subseteq> A"
  shows "decoding (set_defaults n env fs dest) A"
proof (rule decodingI)
  fix k st m v st' m'
  assume ok: "in_ok k st" and run: "set_defaults n env fs dest (st, m) = Done (v, (st', m'))"
  have "mem_within A (message_defaults (pb_field_set_to_default n env) fs dest)"
    using fields_ok_member [OF assms(1) _ assms(2)]
    by (intro message_defaults_within set_to_default_within) simp
  then show "in_ok k st' \<and> bytes_left st' \<le> bytes_left st \<and> (\<forall>x. x \<notin> A \<longrightarrow> m' x = m x)"
    using ok run
    by (auto simp: mem_within_def set_defaults_def pb_message_set_to_defaults_def split: outcome.splits)
qed

section \<open>One field\<close>

lemma decoding_dec_submessage:
  assumes sub: "\<And>gs d. fields_ok gs (data_size f) \<Longrightarrow> region d (data_size f) \<subseteq> A \<Longrightarrow> decoding (sub gs d) A"
    and f: "fields_ok (submsg_fields f) (data_size f)" and dest: "region dest (data_size f) \<subseteq> A"
  shows "decoding (pb_dec_submessage n env sub f dest) A"
proof (cases "fptr f")
  case PtrNull
  then show ?thesis unfolding pb_dec_submessage_def by (auto intro: decoding_intros reader_intros)
next
  case (PtrDefault bs)
  then show ?thesis unfolding pb_dec_submessage_def by (auto intro: decoding_intros reader_intros)
next
  case (PtrFields fs)
  then have fs: "fields_ok fs (data_size f)" using f by (simp add: submsg_fields_def)
  show ?thesis unfolding pb_dec_submessage_def PtrFields pb_field_ptr.case
    by (intro decoding_delimited decoding_if decoding_pbind decoding_set_defaults [OF fs dest] sub fs dest)
qed

lemma decoding_PB_DECODERS:
  assumes "\<And>gs d. fields_ok gs (data_size f) \<Longrightarrow> region d (data_size f) \<subseteq> A \<Longrightarrow> decoding (sub gs d) A"
    and "PB_LTYPE (ftype f) = PB_LTYPE_FIXED32 \<Longrightarrow> 4 \<le> data_size f"
    and "PB_LTYPE (ftype f) = PB_LTYPE_FIXED64 \<Longrightarrow> 8 \<le> data_size f"
    and "PB_LTYPE (ftype f) = PB_LTYPE_SUBMESSAGE \<Longrightarrow> fields_ok (submsg_fields f) (data_size f)"
    and "region dest (data_size f) \<subseteq> A"
  shows "decoding (PB_DECODERS n env sub (PB_LTYPE (ftype f)) f dest) A"
  using assms
  by (cases "PB_LTYPE (ftype f)")
    (auto simp: PB_DECODERS_def simp del: region_iff intro: decoding_intros decoding_dec_submessage)

lemma item_region:
  assumes "region a (data_size f * array_size f) \<subseteq> A" and "i < array_size f"
    and "data_size f * array_size f < 2 ^ 32"
  shows "region (item_addr f a i) (data_size f) \<subseteq> A"
proof -
  have le: "data_size f * i + data_size f \<le> data_size f * array_size f"
    using assms(2) by (metis Suc_leI add.commute mult_Suc_right mult_le_mono2)
  then have "data_size f * i mod 2 ^ 32 = data_size f * i \<or> data_size f = 0"
    using assms(3) by (cases "data_size f = 0") auto
  then show ?thesis
  proof
    assume "data_size f * i mod 2 ^ 32 = data_size f * i"
    then show ?thesis unfolding item_addr_def using le
      by (intro region_within [OF assms(1)]) linarith+
  qed simp
qed

text \<open>The relation every run keeps, written out once for the loops.\<close>

lemma decoding_packed_loop:
  assumes func: "\<And>i. i < array_size f \<Longrightarrow> decoding (func f (item_addr f pData i)) A"
    and size: "region pSize sizeof_pb_size \<subseteq> A"
  shows "decoding (packed_loop k func f pData pSize) A"
proof (induction k)
  case 0
  show ?case by (rule decodingI) simp
next
  case (Suc k)
  have step: "decoding (pbind (func f (item_addr f pData i)) (\<lambda>_.
           pbind (with_mem (\<lambda>m. on_mem (store_nat pSize sizeof_pb_size
                    (load_nat pSize sizeof_pb_size m + 1)))) (\<lambda>_.
           packed_loop k func f pData pSize))) A" if "i < array_size f" for i
    by (intro decoding_intros func that size Suc.IH)
  show ?case
  proof (rule decodingI)
    fix c st m v st' m'
    assume ok: "in_ok c st" and run: "packed_loop (Suc k) func f pData pSize (st, m) = Done (v, (st', m'))"
    show "in_ok c st' \<and> bytes_left st' \<le> bytes_left st \<and> (\<forall>x. x \<notin> A \<longrightarrow> m' x = m x)"
    proof (cases "0 < bytes_left st \<and> load_nat pSize sizeof_pb_size m < array_size f")
      case True
      then show ?thesis
        using run decoding.keeps [OF step ok, of "load_nat pSize sizeof_pb_size m" m v st' m']
        by (simp add: Let_def)
    next
      case False
      then show ?thesis using run ok by (auto simp: preturn_def Let_def split: if_splits)
    qed
  qed
qed

lemma decoding_packed:
  assumes func: "\<And>i. i < array_size (it_field it) \<Longrightarrow> decoding (func (it_field it) (item_addr (it_field it) (it_pData it) i)) A"
    and size: "region (it_pSize it) sizeof_pb_size \<subseteq> A"
  shows "decoding (decode_packed n func it) A"
  unfolding decode_packed_def
proof (rule decoding_substream, goal_cases)
  case (1 k subst st m v st' m')
  note ok = 1(1) and sub = 1(2) and run = 1(3)
  from run obtain status subst' m1 where loop: "packed_loop n func (it_field it) (it_pData it) (it_pSize it) (subst, m)
      = Done (status, (subst', m1))"
    by (auto split: outcome.splits prod.splits)
  have "decoding (packed_loop n func (it_field it) (it_pData it) (it_pSize it)) A"
    by (rule decoding_packed_loop) (rule func, assumption, rule size)
  from decoding.keeps [OF this sub loop]
  have sub': "in_ok (bytes_left st + k) subst'" and frame: "\<forall>x. x \<notin> A \<longrightarrow> m1 x = m x" by blast+
  show "in_ok k st' \<and> bytes_left st' \<le> bytes_left st \<and> (\<forall>x. x \<notin> A \<longrightarrow> m' x = m x)"
  proof (cases "bytes_left subst' = 0")
    case True
    obtain r s where r: "pb_close_string_substream subst' st = (r, s)" by fastforce
    have "st' = s" "m' = m1" using run loop True r by (auto split: option.splits)
    then show ?thesis using pb_close_string_substream_ok [OF sub' ok r] frame by simp
  next
    case False
    then show ?thesis
      using run loop frame decoding.keeps [OF decoding_fail_with ok, of "''array overflow''" m1 v st' m' "{}"] by auto
  qed
qed

lemma decoding_repeated:
  assumes func: "\<And>i. i < array_size (it_field it) \<Longrightarrow> decoding (func (it_field it) (item_addr (it_field it) (it_pData it) i)) A"
    and size: "region (it_pSize it) sizeof_pb_size \<subseteq> A"
  shows "decoding (decode_repeated func it) A"
  unfolding decode_repeated_def Let_def by (intro decoding_intros size func) simp

lemma decoding_oneof:
  assumes func: "decoding (func (it_field it) (it_pData it)) A"
    and size: "region (it_pSize it) sizeof_pb_size \<subseteq> A"
    and data: "region (it_pData it) (data_size (it_field it)) \<subseteq> A"
    and sub: "PB_LTYPE (ftype (it_field it)) = PB_LTYPE_SUBMESSAGE \<Longrightarrow>
      fields_ok (submsg_fields (it_field it)) (data_size (it_field it))"
  shows "decoding (decode_oneof n env func it) A"
proof -
  have "decoding (case fptr (it_field it) of PtrFields fs \<Rightarrow> set_defaults n env fs (it_pData it) | _ \<Rightarrow> pundef) A"
    if "PB_LTYPE (ftype (it_field it)) = PB_LTYPE_SUBMESSAGE"
    using sub [OF that] data
    by (auto simp: submsg_fields_def simp del: region_iff split: pb_field_ptr.splits
        intro: decoding_pundef decoding_set_defaults)
  then show ?thesis
    unfolding decode_oneof_def Let_def by (intro decoding_intros size func data)
qed

lemma decoding_static_field:
  assumes sub: "\<And>gs d. fields_ok gs (data_size (it_field it)) \<Longrightarrow> region d (data_size (it_field it)) \<subseteq> A \<Longrightarrow>
      decoding (sub gs d) A"
    and m: "member_within A (it_field it) (it_pData it) (it_pSize it)"
    and static: "PB_ATYPE (ftype (it_field it)) = PB_ATYPE_STATIC"
  shows "decoding (decode_static_field n env sub wt it) A"
proof -
  let ?f = "it_field it"
  let ?func = "PB_DECODERS n env sub (PB_LTYPE (ftype ?f))"
  have data: "region (it_pData it) (field_extent ?f) \<subseteq> A"
    and size: "PB_HTYPE (ftype ?f) = PB_HTYPE_OPTIONAL \<and> it_pData it = it_pSize it
      \<or> region (it_pSize it) (size_width ?f) \<subseteq> A"
    and nested: "PB_LTYPE (ftype ?f) = PB_LTYPE_SUBMESSAGE \<Longrightarrow> fields_ok (submsg_fields ?f) (data_size ?f)"
    and lim: "data_size ?f * array_size ?f < 2 ^ 32"
    using m by (simp_all add: member_within_def)
  have func: "region d (data_size ?f) \<subseteq> A \<Longrightarrow> decoding (?func ?f d) A" for d
    using m by (intro decoding_PB_DECODERS sub) (simp_all add: member_within_def)
  show ?thesis
  proof (cases "PB_HTYPE (ftype ?f)")
    case PB_HTYPE_REPEATED
    then have ext: "region (it_pData it) (data_size ?f * array_size ?f) \<subseteq> A" and sz: "region (it_pSize it) sizeof_pb_size \<subseteq> A"
      using data size static by (simp_all add: field_extent_def size_width_def del: region_iff)
    then show ?thesis unfolding decode_static_field_def Let_def PB_HTYPE_REPEATED pb_htype.case
      by (intro decoding_if decoding_pundef decoding_packed decoding_repeated func item_region lim)
  next
    case PB_HTYPE_ONEOF
    then have "region (it_pData it) (data_size ?f) \<subseteq> A" "region (it_pSize it) sizeof_pb_size \<subseteq> A"
      using data size static by (simp_all add: field_extent_def size_width_def del: region_iff)
    then show ?thesis unfolding decode_static_field_def Let_def PB_HTYPE_ONEOF pb_htype.case
      by (intro decoding_if decoding_pundef decoding_oneof func nested)
  next
    case PB_HTYPE_REQUIRED
    then have "region (it_pData it) (data_size ?f) \<subseteq> A"
      using data static by (simp add: field_extent_def del: region_iff)
    then show ?thesis unfolding decode_static_field_def Let_def PB_HTYPE_REQUIRED pb_htype.case
      by (intro decoding_if decoding_pundef func)
  next
    case PB_HTYPE_OPTIONAL
    then have "region (it_pData it) (data_size ?f) \<subseteq> A"
      and "it_pSize it \<noteq> it_pData it \<Longrightarrow> region (it_pSize it) 1 \<subseteq> A"
      using data size static by (auto simp add: field_extent_def size_width_def simp del: region_iff)
    then show ?thesis unfolding decode_static_field_def Let_def PB_HTYPE_OPTIONAL pb_htype.case
      by (intro decoding_if decoding_pundef decoding_pbind decoding_store decoding_preturn func)
  qed
qed

section \<open>Callbacks\<close>

text \<open>The user's functions keep the contract.\<close>

definition env_within :: "'u env \<Rightarrow> addr set \<Rightarrow> bool" where
  "env_within env A \<longleftrightarrow> (\<forall>funcs f arg. decoding (env_callback env funcs f arg) A)"

lemma decoding_callback_loop:
  assumes "decoding call A"
  shows "decoding (callback_loop k call) A"
proof (induction k)
  case 0
  show ?case by (rule decodingI) simp
next
  case (Suc k)
  have more: "decoding (\<lambda>s'. if bytes_left (fst s') \<noteq> 0 then callback_loop k call s' else preturn () s') A"
  proof (rule decodingI)
    fix c st m v st' m'
    assume "in_ok c st" "(if bytes_left (fst (st, m)) \<noteq> 0 then callback_loop k call (st, m)
      else preturn () (st, m)) = Done (v, (st', m'))"
    then show "in_ok c st' \<and> bytes_left st' \<le> bytes_left st \<and> (\<forall>x. x \<notin> A \<longrightarrow> m' x = m x)"
      using decoding.keeps [OF Suc.IH, of c st m v st' m']
        decoding.keeps [OF decoding_preturn, of c st "()" m v st' m' A] by (auto split: if_splits)
  qed
  have "callback_loop (Suc k) call = pbind call (\<lambda>_ s'. if bytes_left (fst s') \<noteq> 0 then callback_loop k call s'
      else preturn () s')"
    by (rule ext) simp
  then show ?case using decoding_pbind [OF assms more] by simp
qed

lemma decoding_callback_field:
  assumes "env_within env A"
  shows "decoding (decode_callback_field n env wt it) A"
proof -
  let ?call = "\<lambda>m. env_callback env (callback_funcs (it_pData it) m) (it_field it) (callback_arg (it_pData it))"
  have call: "decoding (?call m) A" for m
    using assms by (simp add: env_within_def)
  have str: "decoding (pbind (on_stream pb_make_string_substream) (\<lambda>subst s.
              case callback_loop n (?call m) (subst, snd s) of
                Done (None, (subst', m')) \<Rightarrow> fail_with ''callback failed'' (fst s, m')
              | Done (Some _, (subst', m')) \<Rightarrow>
                  on_stream (pb_close_string_substream subst') (fst s, m')
              | Undef \<Rightarrow> Undef
              | Diverge \<Rightarrow> Diverge)) A" for m
  proof (rule decoding_substream, goal_cases)
    case (1 k subst st m1 v st' m')
    then obtain r subst' m2 where loop: "callback_loop n (?call m) (subst, m1) = Done (r, (subst', m2))"
      by (auto split: outcome.splits prod.splits)
    from decoding.keeps [OF decoding_callback_loop [OF call] 1(2) loop]
    have sub': "in_ok (bytes_left st + k) subst'" and frame: "\<forall>x. x \<notin> A \<longrightarrow> m2 x = m1 x" by blast+
    show ?case
    proof (cases r)
      case None
      then show ?thesis using 1(3) loop frame
          decoding.keeps [OF decoding_fail_with 1(1), of "''callback failed''" m2 v st' m' "{}"] by auto
    next
      case (Some u)
      obtain c s where c: "pb_close_string_substream subst' st = (c, s)" by fastforce
      have "st' = s" "m' = m2" using 1(3) loop Some c by (auto simp: on_stream_def)
      then show ?thesis using pb_close_string_substream_ok [OF sub' 1(1) c] frame by simp
    qed
  qed
  have scalar: "decoding (pbind (on_stream (read_raw_value wt 10)) (\<lambda>buffer s.
              case ?call m (pb_istream_from_buffer buffer (length buffer), snd s) of
                Done (status, (subst', m')) \<Rightarrow> Done (status, (fst s, m'))
              | Undef \<Rightarrow> Undef
              | Diverge \<Rightarrow> Diverge)) A" for m
  proof (rule decoding_pbind [OF decoding_on_stream [OF reader_read_raw_value]], rule decodingI, goal_cases)
    case (1 buffer k st m1 v st' m')
    then obtain subst' where run: "?call m (pb_istream_from_buffer buffer (length buffer), m1) = Done (v, (subst', m'))"
        and st: "st' = st"
      by (auto split: outcome.splits prod.splits)
    have "in_ok 0 (pb_istream_from_buffer buffer (length buffer) :: 'a istream)"
      by (simp add: in_ok_def pb_istream_from_buffer_def)
    from decoding.keeps [OF call this run] show ?case using 1(1) st by simp
  qed
  show ?thesis
    unfolding decode_callback_field_def Let_def
    by (intro decoding_with_mem decoding_if str scalar decoding_on_stream reader_pb_skip_field)
qed

lemma decoding_field:
  assumes "\<And>gs d. fields_ok gs (data_size (it_field it)) \<Longrightarrow> region d (data_size (it_field it)) \<subseteq> A \<Longrightarrow>
      decoding (sub gs d) A"
    and "member_within A (it_field it) (it_pData it) (it_pSize it)" and "env_within env A"
  shows "decoding (decode_field n env sub wt it) A"
  unfolding decode_field_def decode_pointer_field_def
  by (cases "PB_ATYPE (ftype (it_field it))")
    (auto intro: decoding_static_field decoding_callback_field decoding_fail_with assms)

section \<open>Messages\<close>

lemma find_extension_loop_scan:
  "find_extension_loop k start it = iter_scan k (\<lambda>f. PB_LTYPE (ftype f) = PB_LTYPE_EXTENSION) start it"
  by (induction k arbitrary: it) (simp_all add: Let_def)

lemma find_extension_none:
  assumes "valid_pos fs i" and "\<And>i. valid_pos fs i \<Longrightarrow> PB_LTYPE (ftype (field_at fs i)) \<noteq> PB_LTYPE_EXTENSION"
  shows "find_extension_field (iter_at fs dest i) = Some (False, iter_at fs dest i)"
proof -
  obtain b j where "find_extension_field (iter_at fs dest i) = Some (b, iter_at fs dest j)" "valid_pos fs j"
      "b \<longrightarrow> PB_LTYPE (ftype (field_at fs j)) = PB_LTYPE_EXTENSION" "\<not> b \<longrightarrow> j = i"
    using iter_scan_valid [OF assms(1), of "\<lambda>f. PB_LTYPE (ftype f) = PB_LTYPE_EXTENSION" dest]
    unfolding find_extension_field_def find_extension_loop_scan iter_at_simps by metis
  then show ?thesis using assms(2) [of j] by auto
qed

text \<open>The loop variables while a message is decoded.\<close>

definition dv_ok :: "pb_field list \<Rightarrow> addr \<Rightarrow> decode_vars \<Rightarrow> bool" where
  "dv_ok fs dest v \<longleftrightarrow> (\<exists>i. valid_pos fs i \<and> dv_iter v = iter_at fs dest i)"

text \<open>
  What decoding one field or skipping it amounts to in a table without an extension
  placeholder: the tag is looked up, and either the field at the found position is
  decoded and marked, or the payload is skipped.
\<close>

lemma decode_one_plain:
  assumes "valid_pos fs i" and "\<And>i. valid_pos fs i \<Longrightarrow> PB_LTYPE (ftype (field_at fs i)) \<noteq> PB_LTYPE_EXTENSION"
    and "dv_iter v = iter_at fs dest i" and "tag < 2 ^ 32 - 1"
  obtains (found) j where "valid_pos fs j" "field_matches tag (field_at fs j)"
      "decode_one n env sub tag wt v = pbind (decode_field n env sub wt (iter_at fs dest j)) (\<lambda>_.
         preturn (v\<lparr> dv_iter := iter_at fs dest j, dv_seen := mark_seen (iter_at fs dest j) (dv_seen v) \<rparr>))"
    | (skipped) v' where "\<forall>j < n_fields fs. \<not> field_matches tag (field_at fs j)"
      "dv_iter v' = iter_at fs dest i" "dv_seen v' = dv_seen v"
      "decode_one n env sub tag wt v = pbind (on_stream (pb_skip_field wt)) (\<lambda>_. preturn v')"
proof -
  obtain b j where j: "pb_field_iter_find (iter_at fs dest i) tag = Some (b, iter_at fs dest j)"
      "valid_pos fs j" "b \<longrightarrow> field_matches tag (field_at fs j)"
      "\<not> b \<longrightarrow> j = i \<and> (\<forall>j < n_fields fs. \<not> field_matches tag (field_at fs j))"
    using iter_find_valid [OF assms(1)] by metis
  show thesis
  proof (cases b)
    case True
    then show thesis using j by (intro found [of j]) (simp_all add: decode_one_def assms(3))
  next
    case False
    have ext: "find_extension_field (iter_at fs dest i) = Some (False, iter_at fs dest i)"
      by (rule find_extension_none [OF assms(1,2)])
    let ?v' = "if dv_ext_start v \<le> tag then v\<lparr> dv_iter := iter_at fs dest i, dv_ext_start := 2 ^ 32 - 1 \<rparr>
      else v\<lparr> dv_iter := iter_at fs dest i \<rparr>"
    have "decode_one n env sub tag wt v = pbind (on_stream (pb_skip_field wt)) (\<lambda>_. preturn ?v')"
      using False j(1,4) ext assms(4) by (auto simp: decode_one_def decode_unknown_def assms(3))
    then show thesis using False j by (intro skipped [of ?v']) auto
  qed
qed

lemma pb_decode_tag_stream:
  assumes "in_ok k st" and "pb_decode_tag st = (r, st')"
  shows "in_ok k st' \<and> bytes_left st' \<le> bytes_left st"
    and "r = Tag tag wt \<Longrightarrow> tag < 2 ^ 29"
proof -
  obtain v s where v: "pb_decode_varint32 st = (v, s)" by fastforce
  have s: "s = st'" using assms(2) v by (auto simp: pb_decode_tag_def split: option.splits if_splits)
  then show "in_ok k st' \<and> bytes_left st' \<le> bytes_left st"
    using istream_reader.keeps [OF reader_pb_decode_varint32 assms(1) v] by simp
  assume "r = Tag tag wt"
  then obtain w where "tag = unat (drop_bit 3 (w :: 32 word))"
    using assms(2) v by (auto simp: pb_decode_tag_def split: option.splits if_splits)
  moreover have "unat (drop_bit 3 w) = unat w div 8"
    unfolding unsigned_drop_bit_eq using unat32_less [of w] by (simp add: drop_bit_eq_div take_bit_nat_eq_self)
  moreover have "unat w div 8 < 2 ^ 29" using unat32_less [of w] by (simp add: less_mult_imp_div_less)
  ultimately show "tag < 2 ^ 29" by simp
qed

lemma decoding_loop:
  assumes one: "\<And>tag wt v. P v \<Longrightarrow> tag < 2 ^ 29 \<Longrightarrow> decoding (one tag wt v) A"
    and inv: "\<And>tag wt v v' s s'. P v \<Longrightarrow> tag < 2 ^ 29 \<Longrightarrow> one tag wt v s = Done (Some v', s') \<Longrightarrow> P v'"
  shows "P v \<Longrightarrow> decoding (decode_loop k one v) A"
proof (induction k arbitrary: v)
  case 0
  show ?case by (rule decodingI) simp
next
  case (Suc k)
  show ?case
  proof (rule decodingI)
    fix c st m r st' m'
    assume ok: "in_ok c st" and run: "decode_loop (Suc k) one v (st, m) = Done (r, (st', m'))"
    obtain t s where t: "pb_decode_tag st = (t, s)" by fastforce
    have s: "in_ok c s \<and> bytes_left s \<le> bytes_left st" by (rule pb_decode_tag_stream(1) [OF ok t])
    show "in_ok c st' \<and> bytes_left st' \<le> bytes_left st \<and> (\<forall>x. x \<notin> A \<longrightarrow> m' x = m x)"
    proof (cases "bytes_left st = 0")
      case True
      then show ?thesis using run ok by (simp add: preturn_def)
    next
      case False
      show ?thesis
      proof (cases t)
        case (Tag tag wt)
        then have tag: "tag < 2 ^ 29" using pb_decode_tag_stream(2) [OF ok t] by blast
        have "pbind (one tag wt v) (decode_loop k one) (s, m) = Done (r, (st', m'))"
          using run False t Tag by simp
        moreover have d: "decoding (one tag wt v) A" by (rule one [OF Suc.prems tag])
        ultimately show ?thesis
        proof (cases rule: pbind_cases)
          case fail
          then show ?thesis using decoding.keeps [OF d, of c s m None st' m'] s by force
        next
          case (ok v' s1)
          obtain st1 m1 where s1: "s1 = (st1, m1)" by fastforce
          have 1: "in_ok c st1 \<and> bytes_left st1 \<le> bytes_left s \<and> (\<forall>x. x \<notin> A \<longrightarrow> m1 x = m x)"
            using decoding.keeps [OF d, of c s m] ok(1) s unfolding s1 by blast
          have "P v'" by (rule inv [OF Suc.prems tag ok(1)])
          from decoding.keeps [OF Suc.IH [OF this], of c st1 m1 r st' m'] 1 s ok(2) show ?thesis
            unfolding s1 by force
        qed
      next
        case TagEof
        then show ?thesis using run False t s by (simp add: preturn_def)
      next
        case TagError
        then show ?thesis using run False t s by simp
      qed
    qed
  qed
qed

lemma decoding_finish [decoding_intros]: "decoding (finish_message v) A"
  unfolding finish_message_def
  by (auto split: option.splits outcome.splits bool.splits intro: decoding_intros)

lemma decoding_noinit:
  assumes "fields_ok fs sz" and "region dest sz \<subseteq> A" and "env_within env A"
  shows "decoding (pb_decode_noinit n env fs dest) A"
  using assms(1,2)
proof (induction n arbitrary: fs sz dest)
  case (Suc n)
  let ?one = "decode_one n env (pb_decode_noinit n env)"
  have dec: "decoding (decode_field n env (pb_decode_noinit n env) wt (iter_at fs dest j)) A"
    if "valid_pos fs j" for wt j
    using fields_ok_valid [OF Suc.prems(1) that Suc.prems(2)]
    by (intro decoding_field Suc.IH) (simp_all add: assms(3))
  have one: "decoding (?one tag wt v) A \<and> (\<forall>s v' s'. ?one tag wt v s = Done (Some v', s') \<longrightarrow> dv_ok fs dest v')"
    if v: "dv_ok fs dest v" and tag: "tag < 2 ^ 29" for tag wt v
  proof -
    obtain i where i: "valid_pos fs i" "dv_iter v = iter_at fs dest i" using v by (auto simp: dv_ok_def)
    have tag32: "tag < 2 ^ 32 - 1" using tag by simp
    show ?thesis
    proof (rule decode_one_plain [OF i(1) fields_ok_no_ext [OF Suc.prems(1)] i(2) tag32,
          of n env "pb_decode_noinit n env" wt], assumption, goal_cases)
      case (1 j)
      show ?case unfolding 1(3) using 1(1)
        by (auto simp: pbind_eq_Done preturn_def dv_ok_def intro: decoding_pbind decoding_preturn dec)
    next
      case (2 v')
      show ?case unfolding 2(4) using i(1) 2(2)
        by (auto simp: pbind_eq_Done preturn_def dv_ok_def
            intro: decoding_pbind decoding_preturn decoding_on_stream reader_pb_skip_field)
    qed
  qed
  have "dv_ok fs dest \<lparr> dv_iter = snd (pb_field_iter_begin fs dest), dv_seen = [0, 0], dv_ext_start = 0 \<rparr>"
    by (auto simp: dv_ok_def iter_begin_eq intro: exI [of _ 0])
  with one show ?case
    unfolding pb_decode_noinit.simps decode_message_def
    by (intro decoding_pbind decoding_finish decoding_loop [where P = "dv_ok fs dest"]) blast+
qed (simp add: decoding_pdiverge)

lemma decoding_pb_decode:
  assumes "fields_ok fs sz" and "region dest sz \<subseteq> A" and "env_within env A"
  shows "decoding (pb_decode n env fs dest) A"
  unfolding pb_decode_def
  by (intro decoding_pbind decoding_set_defaults [OF assms(1,2)] decoding_noinit [OF assms])

lemma decoding_pb_decode_delimited:
  assumes "fields_ok fs sz" and "region dest sz \<subseteq> A" and "env_within env A"
  shows "decoding (pb_decode_delimited n env fs dest) A"
  unfolding pb_decode_delimited_def by (intro decoding_delimited decoding_pb_decode [OF assms])

interpretation skip_decoding: decoding "on_stream (pb_skip_field wt)" A for wt A
  by (intro decoding_on_stream reader_pb_skip_field)

interpretation finish_decoding: decoding "finish_message v" A for v A
  by (rule decoding_finish)

end
