(* ===== verification/Pb_Decode_Term.thy ===== *)
theory Pb_Decode_Term
  imports Pb_Decode_Safe
begin

text \<open>
  The decoder returns: with a fuel above the number of bytes in the stream plus the
  size of the descriptors, no run ends for lack of fuel, so every loop of the code
  ends on every input. The bytes of the stream bound the message loop, the packed
  arrays and the callback loops, since each turn consumes a byte; the descriptors
  bound the nesting.
\<close>

section \<open>Runs that return\<close>

definition returns :: "nat \<Rightarrow> ('a, 'u dstate) proc \<Rightarrow> bool" where
  "returns B p \<longleftrightarrow> (\<forall>k st m. in_ok k st \<longrightarrow> bytes_left st \<le> B \<longrightarrow> p (st, m) \<noteq> Diverge)"

lemma returnsI:
  "(\<And>k st m. in_ok k st \<Longrightarrow> bytes_left st \<le> B \<Longrightarrow> p (st, m) \<noteq> Diverge) \<Longrightarrow> returns B p"
  by (auto simp: returns_def)

lemma returnsD: "returns B p \<Longrightarrow> in_ok k st \<Longrightarrow> bytes_left st \<le> B \<Longrightarrow> p (st, m) \<noteq> Diverge"
  by (auto simp: returns_def)

lemma returns_mono: "returns B p \<Longrightarrow> b \<le> B \<Longrightarrow> returns b p"
  by (auto simp: returns_def)

named_theorems returns_intros

lemma returns_preturn [returns_intros]: "returns B (preturn x)"
  by (simp add: returns_def preturn_def)

lemma returns_pundef [returns_intros]: "returns B pundef"
  by (simp add: returns_def pundef_def)

lemma returns_on_stream [returns_intros]: "returns B (on_stream f)"
  by (simp add: returns_def on_stream_def split: prod.splits)

lemma returns_on_mem [returns_intros]: "returns B (on_mem g)"
  by (simp add: returns_def on_mem_def)

lemma returns_fail_with [returns_intros]: "returns B (fail_with msg)"
  unfolding fail_with_def by (rule returns_on_stream)

lemma returns_with_mem [returns_intros]: "(\<And>m. returns B (f m)) \<Longrightarrow> returns B (with_mem f)"
  by (auto simp: returns_def with_mem_def)

lemma returns_if [returns_intros]:
  "(c \<Longrightarrow> returns B a) \<Longrightarrow> (\<not> c \<Longrightarrow> returns B b) \<Longrightarrow> returns B (if c then a else b)"
  by simp

lemma returns_pbind:
  fixes p :: "('a, 'u dstate) proc"
  assumes p: "returns B p" "decoding p UNIV" and f: "\<And>x. returns B (f x)"
  shows "returns B (pbind p f)"
proof (rule returnsI)
  fix k m and st :: "'u istream"
  assume ok: "in_ok k st" and b: "bytes_left st \<le> B"
  show "pbind p f (st, m) \<noteq> Diverge"
  proof (cases "p (st, m)")
    case (Done r)
    then obtain v st' m' where r: "p (st, m) = Done (v, (st', m'))" by (metis prod.collapse)
    have "in_ok k st'" "bytes_left st' \<le> B" using decoding.keeps [OF p(2) ok r] b by simp_all
    then show ?thesis using r returnsD [OF f] by (cases v) auto
  qed (use returnsD [OF p(1) ok b, of m] in simp_all)
qed

lemma returns_pbind_simple [returns_intros]:
  "(\<And>s. p s \<noteq> Diverge) \<Longrightarrow> (\<And>x s. f x s \<noteq> Diverge) \<Longrightarrow> returns B (pbind p f)"
  by (auto simp: returns_def pbind_def split: outcome.splits option.splits)

text \<open>The decoders of scalars, bytes and strings have no loop of their own.\<close>

definition never_diverges :: "('a, 's) proc \<Rightarrow> bool" where
  "never_diverges p \<longleftrightarrow> (\<forall>s. p s \<noteq> Diverge)"

lemma never_pbind: "never_diverges p \<Longrightarrow> (\<And>x. never_diverges (f x)) \<Longrightarrow> never_diverges (pbind p f)"
  by (auto simp: never_diverges_def pbind_def split: outcome.splits option.splits)

lemma never_basic:
  "never_diverges (preturn x)" "never_diverges (on_stream f)" "never_diverges (on_mem g)"
  "never_diverges (fail_with msg)" "never_diverges pundef"
  by (auto simp: never_diverges_def preturn_def on_stream_def on_mem_def fail_with_def pundef_def split: prod.splits)

lemma never_if: "never_diverges a \<Longrightarrow> never_diverges b \<Longrightarrow> never_diverges (if c then a else b)"
  by simp

lemma never_read_into: "never_diverges (read_into a n)"
  unfolding read_into_def by (intro never_pbind never_basic)

lemma never_store_clamped: "never_diverges (store_clamped f dest v c)"
  unfolding store_clamped_def by (cases c) (auto intro!: never_pbind never_basic)

lemma never_then_store:
  "never_diverges p \<Longrightarrow> never_diverges (\<lambda>s. case p s of
      Done (r, (st, m)) \<Rightarrow> Done (r, (st, store_nat a n v m)) | Undef \<Rightarrow> Undef | Diverge \<Rightarrow> Diverge)"
  by (auto simp: never_diverges_def split: outcome.splits prod.splits)

lemma never_decoders:
  assumes "lt \<noteq> PB_LTYPE_SUBMESSAGE"
  shows "never_diverges (PB_DECODERS n env sub lt f dest)"
  using assms
  by (cases lt) (auto simp: PB_DECODERS_def pb_dec_varint_def pb_dec_uvarint_def pb_dec_svarint_def
      pb_dec_fixed32_def pb_dec_fixed64_def pb_dec_bytes_def pb_dec_string_def
      pb_dec_fixed_length_bytes_def Let_def
      intro!: never_pbind never_basic never_store_clamped never_read_into never_if never_then_store)

lemma never_returns: "never_diverges p \<Longrightarrow> returns B p"
  by (simp add: never_diverges_def returns_def)

section \<open>Progress\<close>

definition progress :: "('a, 'u dstate) proc \<Rightarrow> bool" where
  "progress p \<longleftrightarrow> (\<forall>k st m x st' m'. in_ok k st \<longrightarrow> p (st, m) = Done (Some x, (st', m')) \<longrightarrow>
     bytes_left st' < bytes_left st)"

lemma progressD: "progress p \<Longrightarrow> in_ok k st \<Longrightarrow> p (st, m) = Done (Some x, (st', m')) \<Longrightarrow>
    bytes_left st' < bytes_left st"
  unfolding progress_def by blast

lemma progress_pbind:
  assumes "progress p" "decoding p UNIV" "\<And>x. decoding (f x) UNIV"
  shows "progress (pbind p f)"
  unfolding progress_def
proof (intro allI impI)
  fix k st m x st' m'
  assume ok: "in_ok k st" and run: "pbind p f (st, m) = Done (Some x, (st', m'))"
  then obtain y s1 m1 where 1: "p (st, m) = Done (Some y, (s1, m1))" "f y (s1, m1) = Done (Some x, (st', m'))"
    by (auto simp: pbind_eq_Done)
  have "bytes_left s1 < bytes_left st" by (rule progressD [OF assms(1) ok 1(1)])
  moreover have "in_ok k s1" using decoding.keeps [OF assms(2) ok 1(1)] by simp
  then have "bytes_left st' \<le> bytes_left s1" using decoding.keeps [OF assms(3)] 1(2) by blast
  ultimately show "bytes_left st' < bytes_left st" by simp
qed

text \<open>A successful read of a byte consumes it.\<close>

definition consumes :: "('a, 'u istream) op \<Rightarrow> bool" where
  "consumes f \<longleftrightarrow> (\<forall>st x st'. f st = (Some x, st') \<longrightarrow> bytes_left st' < bytes_left st)"

lemma consumes_obind:
  "consumes f \<Longrightarrow> (\<And>x st y st'. g x st = (Some y, st') \<Longrightarrow> bytes_left st' \<le> bytes_left st) \<Longrightarrow> consumes (obind f g)"
  unfolding consumes_def obind_eq_Some by (meson le_less_trans)

lemma consumes_read: "0 < n \<Longrightarrow> consumes (pb_read n)"
  unfolding consumes_def by (auto dest: pb_read_decreases)

lemma consumes_readbyte: "consumes pb_readbyte"
  unfolding pb_readbyte_eq by (rule consumes_obind [OF consumes_read]) (auto simp: oreturn_def)

lemma varint_loop_le:
  "varint_loop p w st = (Some v, st') \<Longrightarrow> bytes_left st' < bytes_left st"
proof (induction p w st rule: varint_loop.induct)
  case (1 p w st)
  from 1(2) obtain b s where b: "pb_readbyte st = (Some b, s)" and p: "\<not> 64 \<le> p"
      and rest: "(let w' = w OR push_bit p (ucast (b AND 0x7F)) in
        if b AND 0x80 \<noteq> 0 then varint_loop (p + 7) w' s else (Some w', s)) = (Some v, st')"
    by (auto simp: varint_loop.simps [of p w st] obind_eq_Some PB_RETURN_ERROR_def split: if_splits)
  have s: "bytes_left s < bytes_left st" using consumes_readbyte b by (auto simp: consumes_def)
  show ?case
  proof (cases "b AND 0x80 \<noteq> 0")
    case True
    then show ?thesis using 1(1) [OF p b refl True] rest s by (simp add: Let_def)
  next
    case False
    then show ?thesis using rest s by (simp add: Let_def)
  qed
qed

lemma consumes_varint: "consumes pb_decode_varint"
  unfolding consumes_def pb_decode_varint_def using varint_loop_le by blast

lemma consumes_svarint: "consumes pb_decode_svarint"
  unfolding pb_decode_svarint_eq by (rule consumes_obind [OF consumes_varint]) (auto simp: oreturn_def)

lemma consumes_fixed: "consumes pb_decode_fixed32" "consumes pb_decode_fixed64"
  unfolding pb_decode_fixed32_def pb_decode_fixed64_def
  by (rule consumes_obind [OF consumes_read]; auto simp: oreturn_def)+

lemma varint32_loop_le:
  "varint32_loop p w st = (Some v, st') \<Longrightarrow> bytes_left st' < bytes_left st"
proof (induction p w st rule: varint32_loop.induct)
  case (1 p w st)
  from 1(2) obtain b s where b: "pb_readbyte st = (Some b, s)" and p: "\<not> 32 \<le> p"
      and rest: "(let w' = w OR push_bit p (ucast (b AND 0x7F)) in
        if b AND 0x80 \<noteq> 0 then varint32_loop (p + 7) w' s else (Some w', s)) = (Some v, st')"
    by (auto simp: varint32_loop.simps [of p w st] obind_eq_Some PB_RETURN_ERROR_def split: if_splits)
  have s: "bytes_left s < bytes_left st" using consumes_readbyte b by (auto simp: consumes_def)
  show ?case
  proof (cases "b AND 0x80 \<noteq> 0")
    case True
    then show ?thesis using 1(1) [OF p b refl True] rest s by (simp add: Let_def)
  next
    case False
    then show ?thesis using rest s by (simp add: Let_def)
  qed
qed

lemma consumes_varint32: "consumes pb_decode_varint32"
  unfolding consumes_def pb_decode_varint32_eq using varint32_loop_le by blast

lemma progress_on_stream: "consumes f \<Longrightarrow> progress (on_stream f)"
  by (auto simp: progress_def consumes_def on_stream_def split: prod.splits)

lemma progress_packable:
  assumes "packable lt"
  shows "progress (PB_DECODERS n env sub lt f dest)"
  using assms
  by (cases lt) (auto simp: PB_DECODERS_def pb_dec_varint_def pb_dec_uvarint_def pb_dec_svarint_def
      pb_dec_fixed32_def pb_dec_fixed64_def Let_def
      intro!: progress_pbind progress_on_stream consumes_varint consumes_svarint consumes_fixed
        decoding_on_stream decoding_store_clamped decoding_on_mem reader_intros)

section \<open>Loops over a stream\<close>

lemma returns_packed_loop:
  assumes func: "\<And>d. progress (func f d)" "\<And>d. decoding (func f d) UNIV" "\<And>d. never_diverges (func f d)"
  shows "bytes_left st < k \<Longrightarrow> in_ok c st \<Longrightarrow> packed_loop k func f pData pSize (st, m) \<noteq> Diverge"
proof (induction k arbitrary: st m)
  case (Suc k)
  let ?i = "load_nat pSize sizeof_pb_size m"
  show ?case
  proof (cases "0 < bytes_left st \<and> ?i < array_size f")
    case True
    show ?thesis
    proof (cases "func f (item_addr f pData ?i) (st, m)")
      case (Done r)
      then obtain v s1 m1 where r: "func f (item_addr f pData ?i) (st, m) = Done (v, (s1, m1))"
        by (metis prod.collapse)
      show ?thesis
      proof (cases v)
        case None
        then show ?thesis using True r by (simp add: Let_def)
      next
        case (Some u)
        then have "bytes_left s1 < bytes_left st"
          using progressD [OF func(1) Suc.prems(2)] r by blast
        moreover have "in_ok c s1" using decoding.keeps [OF func(2) Suc.prems(2) r] by simp
        ultimately show ?thesis using True r Some Suc.IH [of s1] Suc.prems(1)
          by (simp add: Let_def pbind_def with_mem_def on_mem_def)
      qed
    next
      case Undef
      then show ?thesis using True by (simp add: Let_def)
    next
      case Diverge
      then show ?thesis using func(3) by (simp add: never_diverges_def)
    qed
  next
    case False
    then show ?thesis by (auto simp: Let_def preturn_def)
  qed
qed simp

lemma pb_make_string_substream_less:
  assumes "pb_make_string_substream st = (Some sub, st')"
  shows "bytes_left sub + bytes_left st' < bytes_left st"
proof -
  from assms obtain w s where w: "pb_decode_varint32 st = (Some w, s)"
      and b: "unat w \<le> bytes_left s" and sub: "sub = s\<lparr>bytes_left := unat w\<rparr>"
      and st': "st' = s\<lparr>bytes_left := bytes_left s - unat w\<rparr>"
    by (auto simp: pb_make_string_substream_def obind_eq_Some PB_RETURN_ERROR_def split: if_splits)
  have "bytes_left s < bytes_left st" using consumes_varint32 w by (auto simp: consumes_def)
  then show ?thesis using b sub st' by simp
qed

lemma returns_substream:
  fixes f :: "'u istream \<Rightarrow> ('a, 'u dstate) proc"
  assumes "\<And>k subst st m. in_ok (bytes_left st + k) subst \<Longrightarrow> bytes_left subst < B \<Longrightarrow> f subst (st, m) \<noteq> Diverge"
  shows "returns B (pbind (on_stream pb_make_string_substream) f)"
proof (rule returnsI)
  fix k m and st :: "'u istream"
  assume ok: "in_ok k st" and b: "bytes_left st \<le> B"
  obtain r s where r: "pb_make_string_substream st = (r, s)" by fastforce
  show "pbind (on_stream pb_make_string_substream) f (st, m) \<noteq> Diverge"
  proof (cases r)
    case None
    then show ?thesis using r by (simp add: pbind_def on_stream_def)
  next
    case (Some sub)
    then have "in_ok (bytes_left s + k) sub" "bytes_left sub < B"
      using pb_make_string_substream_ok(1) [OF ok] pb_make_string_substream_less r b by fastforce+
    then show ?thesis using assms r Some by (simp add: pbind_def on_stream_def)
  qed
qed

lemma in_substream_returns:
  "p (subst, m) \<noteq> Diverge \<Longrightarrow> in_substream subst p (st, m) \<noteq> Diverge"
  by (auto simp: in_substream_def split: outcome.splits prod.splits option.splits)

text \<open>The user's functions return, and a successful call with bytes left consumes one.\<close>

definition env_returns :: "'u env \<Rightarrow> bool" where
  "env_returns env \<longleftrightarrow> env_within env UNIV \<and>
     (\<forall>funcs f arg k st m. in_ok k st \<longrightarrow> (case env_callback env funcs f arg (st, m) of
        Diverge \<Rightarrow> False
      | Done (Some _, (st', m')) \<Rightarrow> bytes_left st' < bytes_left st \<or> bytes_left st' = 0
      | _ \<Rightarrow> True))"

lemma returns_callback_loop:
  assumes call: "decoding call UNIV"
    and turn: "\<And>k st m. in_ok k st \<Longrightarrow> (case call (st, m) of
        Diverge \<Rightarrow> False
      | Done (Some _, (st', m')) \<Rightarrow> bytes_left st' < bytes_left st \<or> bytes_left st' = 0
      | _ \<Rightarrow> True)"
  shows "bytes_left st < k \<Longrightarrow> in_ok c st \<Longrightarrow> callback_loop k call (st, m) \<noteq> Diverge"
proof (induction k arbitrary: st m)
  case (Suc k)
  show ?case
  proof (cases "call (st, m)")
    case (Done r)
    then obtain v s1 m1 where r: "call (st, m) = Done (v, (s1, m1))" by (metis prod.collapse)
    have ok: "in_ok c s1" using decoding.keeps [OF call Suc.prems(2) r] by simp
    show ?thesis
      using turn [OF Suc.prems(2), of m] r Suc.IH [OF _ ok, of m1] Suc.prems(1)
      by (cases v) (auto simp: preturn_def)
  next
    case Diverge
    then show ?thesis using turn [OF Suc.prems(2), of m] by simp
  qed simp
qed simp

section \<open>Default values\<close>

lemma message_defaults_returns:
  assumes "\<And>i m. i < n_fields fs \<Longrightarrow> set_default (iter_at fs dest i) m \<noteq> Diverge"
  shows "message_defaults set_default fs dest m \<noteq> Diverge"
proof -
  have "message_defaults_loop k set_default (iter_at fs dest i) m \<noteq> Diverge"
    if "i < n_fields fs" "n_fields fs \<le> k + i" for k i m
    using that
  proof (induction k arbitrary: i m)
    case (Suc k)
    show ?case
    proof (cases "Suc i < n_fields fs")
      case True
      then show ?thesis using Suc assms [OF Suc.prems(1), of m]
        by (auto simp: iter_next_step split: outcome.splits)
    next
      case False
      then have "Suc i = n_fields fs" using Suc.prems by simp
      then show ?thesis using assms [OF Suc.prems(1), of m] by (auto simp: iter_next_wrap split: outcome.splits)
    qed
  qed simp
  then show ?thesis using n_fields_le [of fs]
    by (auto simp: message_defaults_def iter_begin_eq simp del: message_defaults_loop.simps split: bool.splits)
qed

lemma set_to_default_returns:
  assumes "it_field it = f" and "PB_LTYPE (ftype f) \<noteq> PB_LTYPE_EXTENSION"
    and "PB_LTYPE (ftype f) = PB_LTYPE_SUBMESSAGE \<Longrightarrow> fields_ok (submsg_fields f) (data_size f)"
    and "fields_size (submsg_fields f) < n"
  shows "pb_field_set_to_default n env it m \<noteq> Diverge"
  using assms
proof (induction n arbitrary: f it m)
  case (Suc n)
  have sub: "message_defaults (pb_field_set_to_default n env) fs (it_pData it) m1 \<noteq> Diverge"
    if fs: "fptr f = PtrFields fs" and sm: "PB_LTYPE (ftype f) = PB_LTYPE_SUBMESSAGE" for fs m1
  proof (rule message_defaults_returns)
    fix i m
    assume i: "i < n_fields fs"
    have ok: "fields_ok fs (data_size f)" "fields_size fs < Suc n"
      using Suc.prems(3,4) fs sm by (simp_all add: submsg_fields_def)
    have mem: "member_within UNIV (field_at fs i) (field_addr fs 0 i) (field_size_addr fs 0 i)"
      by (rule fields_ok_member [OF ok(1) i]) simp
    have "fields_size (submsg_fields (field_at fs i)) < n"
      using submsg_fields_size [OF field_at_mem [OF i]] ok(2) by simp
    then show "pb_field_set_to_default n env (iter_at fs (it_pData it) i) m \<noteq> Diverge"
      using mem by (intro Suc.IH [of _ "field_at fs i"]) (simp_all add: member_within_def)
  qed
  show ?case
    using Suc.prems(1,2) sub
    by (auto simp: Let_def split: pb_atype.splits pb_field_ptr.splits)
qed simp

lemma set_defaults_returns:
  assumes "fields_ok fs sz" and "fields_size fs \<le> n"
  shows "set_defaults n env fs dest s \<noteq> Diverge"
proof -
  have "message_defaults (pb_field_set_to_default n env) fs dest m \<noteq> Diverge" for m
  proof (rule message_defaults_returns)
    fix i m
    assume i: "i < n_fields fs"
    have "member_within UNIV (field_at fs i) (field_addr fs 0 i) (field_size_addr fs 0 i)"
      by (rule fields_ok_member [OF assms(1) i]) simp
    moreover have "fields_size (submsg_fields (field_at fs i)) < n"
      using submsg_fields_size [OF field_at_mem [OF i]] assms(2) by simp
    ultimately show "pb_field_set_to_default n env (iter_at fs dest i) m \<noteq> Diverge"
      by (intro set_to_default_returns [of _ "field_at fs i"]) (simp_all add: member_within_def)
  qed
  then show ?thesis
    by (simp add: set_defaults_def pb_message_set_to_defaults_def split: outcome.splits)
qed

section \<open>Fields and messages\<close>

lemma returns_dec_submessage:
  assumes sub: "\<And>gs d. fields_ok gs (data_size f) \<Longrightarrow> fields_size gs \<le> F \<Longrightarrow> returns B (sub gs d)"
    and f: "fields_ok (submsg_fields f) (data_size f)" "fields_size (submsg_fields f) \<le> F" and n: "F \<le> n"
  shows "returns (Suc B) (pb_dec_submessage n env sub f dest)"
proof (cases "fptr f")
  case PtrNull
  show ?thesis unfolding pb_dec_submessage_def PtrNull pb_field_ptr.case
    by (rule returns_pbind [OF returns_on_stream decoding_on_stream [OF reader_pb_make_string_substream] returns_fail_with])
next
  case (PtrDefault bs)
  show ?thesis unfolding pb_dec_submessage_def PtrDefault pb_field_ptr.case
    by (rule returns_pbind [OF returns_on_stream decoding_on_stream [OF reader_pb_make_string_substream] returns_pundef])
next
  case (PtrFields fs)
  then have fs: "fields_ok fs (data_size f)" "fields_size fs \<le> F" using f by (simp_all add: submsg_fields_def)
  have "returns B (set_defaults n env fs dest)"
    by (intro returnsI set_defaults_returns [OF fs(1) order_trans [OF fs(2) n]])
  then have body: "returns B (if PB_HTYPE (ftype f) = PB_HTYPE_REPEATED
      then pbind (set_defaults n env fs dest) (\<lambda>_. sub fs dest) else sub fs dest)"
    by (intro returns_if returns_pbind sub fs decoding_set_defaults [OF fs(1)] subset_UNIV)
  show ?thesis unfolding pb_dec_submessage_def PtrFields pb_field_ptr.case
  proof (rule returns_substream, goal_cases)
    case (1 k subst st m)
    then show ?case using returnsD [OF body] by (intro in_substream_returns) simp
  qed
qed

lemma returns_PB_DECODERS:
  assumes "\<And>gs d. fields_ok gs (data_size f) \<Longrightarrow> fields_size gs \<le> F \<Longrightarrow> returns B (sub gs d)"
    and "PB_LTYPE (ftype f) = PB_LTYPE_SUBMESSAGE \<Longrightarrow>
      fields_ok (submsg_fields f) (data_size f) \<and> fields_size (submsg_fields f) \<le> F"
    and "F \<le> n"
  shows "returns (Suc B) (PB_DECODERS n env sub (PB_LTYPE (ftype f)) f dest)"
proof (cases "PB_LTYPE (ftype f) = PB_LTYPE_SUBMESSAGE")
  case True
  then show ?thesis
    using returns_dec_submessage [of f F B sub n] assms by (simp add: PB_DECODERS_def)
next
  case False
  then show ?thesis by (intro never_returns never_decoders)
qed

lemma returns_packed:
  assumes "\<And>d. progress (func (it_field it) d)" "\<And>d. decoding (func (it_field it) d) UNIV"
    and "\<And>d. never_diverges (func (it_field it) d)" and "B < n"
  shows "returns B (decode_packed n func it)"
  unfolding decode_packed_def
proof (rule returns_substream, goal_cases)
  case (1 k subst st m)
  note ok = 1(1) and b = 1(2)
  have "packed_loop n func (it_field it) (it_pData it) (it_pSize it) (subst, m) \<noteq> Diverge"
    using b assms(4) by (intro returns_packed_loop [where func = func, OF assms(1-3) _ ok]) simp
  then show ?case
    by (auto simp: fail_with_def on_stream_def split: outcome.splits prod.splits option.splits)
qed

lemma returns_callback_field:
  assumes env: "env_returns env" and n: "B < n"
  shows "returns B (decode_callback_field n env wt it)"
proof -
  let ?call = "\<lambda>m. env_callback env (callback_funcs (it_pData it) m) (it_field it) (callback_arg (it_pData it))"
  have call: "decoding (?call m) UNIV" for m
    using env by (simp add: env_returns_def env_within_def)
  have turn: "case ?call m0 (st, m) of Diverge \<Rightarrow> False
      | Done (Some _, (st', m')) \<Rightarrow> bytes_left st' < bytes_left st \<or> bytes_left st' = 0 | _ \<Rightarrow> True"
    if "in_ok k st" for k st m m0
    using env that unfolding env_returns_def by blast
  have str: "returns B (pbind (on_stream pb_make_string_substream) (\<lambda>subst s.
              case callback_loop n (?call m0) (subst, snd s) of
                Done (None, (subst', m')) \<Rightarrow> fail_with ''callback failed'' (fst s, m')
              | Done (Some _, (subst', m')) \<Rightarrow> on_stream (pb_close_string_substream subst') (fst s, m')
              | Undef \<Rightarrow> Undef
              | Diverge \<Rightarrow> Diverge))" for m0
  proof (rule returns_substream, goal_cases)
    case (1 k subst st m)
    then have "callback_loop n (?call m0) (subst, m) \<noteq> Diverge"
      using returns_callback_loop [OF call turn _ 1(1)] n by (meson less_trans)
    then show ?case
      by (auto simp: fail_with_def on_stream_def split: outcome.splits prod.splits option.splits)
  qed
  have scalar: "returns B (pbind (on_stream (read_raw_value wt 10)) (\<lambda>buffer s.
              case ?call m0 (pb_istream_from_buffer buffer (length buffer), snd s) of
                Done (status, (subst', m')) \<Rightarrow> Done (status, (fst s, m'))
              | Undef \<Rightarrow> Undef
              | Diverge \<Rightarrow> Diverge))" for m0
  proof (rule returns_pbind [OF returns_on_stream decoding_on_stream [OF reader_read_raw_value]], rule returnsI, goal_cases)
    case (1 buffer k st m)
    have "in_ok 0 (pb_istream_from_buffer buffer (length buffer) :: 'a istream)"
      by (simp add: in_ok_def pb_istream_from_buffer_def)
    from turn [OF this, of m0 m] show ?case
      by (auto split: outcome.splits prod.splits)
  qed
  show ?thesis
    unfolding decode_callback_field_def Let_def
    by (intro returns_with_mem returns_if str scalar returns_on_stream)
qed

lemma returns_static_field:
  assumes sub: "\<And>gs d. fields_ok gs (data_size (it_field it)) \<Longrightarrow> fields_size gs \<le> F \<Longrightarrow> returns B (sub gs d)"
    and dec: "\<And>gs d. fields_ok gs (data_size (it_field it)) \<Longrightarrow> decoding (sub gs d) UNIV"
    and m: "member_within UNIV (it_field it) (it_pData it) (it_pSize it)"
    and static: "PB_ATYPE (ftype (it_field it)) = PB_ATYPE_STATIC"
    and F: "fields_size (submsg_fields (it_field it)) \<le> F" and n: "F \<le> n" "Suc B < n"
  shows "returns (Suc B) (decode_static_field n env sub wt it)"
proof -
  let ?f = "it_field it"
  let ?lt = "PB_LTYPE (ftype ?f)"
  let ?func = "PB_DECODERS n env sub ?lt"
  have nested: "?lt = PB_LTYPE_SUBMESSAGE \<Longrightarrow> fields_ok (submsg_fields ?f) (data_size ?f)"
    using m by (simp add: member_within_def)
  have func: "returns (Suc B) (?func ?f d)" for d
    using nested F n by (intro returns_PB_DECODERS [where F = F] sub) simp_all
  have fdec: "decoding (?func ?f d) UNIV" for d
    using m by (intro decoding_PB_DECODERS dec) (simp_all add: member_within_def)
  have packed: "returns (Suc B) (decode_packed n ?func it)" if "packable ?lt"
  proof (rule returns_packed)
    show "progress (?func ?f d)" for d by (rule progress_packable [OF that])
    have "?lt \<noteq> PB_LTYPE_SUBMESSAGE" using that by auto
    then show "never_diverges (?func ?f d)" for d by (rule never_decoders)
  qed (use fdec n in simp_all)
  have repeated: "returns (Suc B) (decode_repeated ?func it)"
    unfolding decode_repeated_def Let_def
    by (intro returns_with_mem returns_if returns_fail_with returns_pbind returns_on_mem decoding_on_mem func) simp
  have "returns (Suc B) (set_defaults n env fs (it_pData it))" if "fptr ?f = PtrFields fs" "?lt = PB_LTYPE_SUBMESSAGE" for fs
    using set_defaults_returns [of fs "data_size ?f" n env "it_pData it"] nested that F n
    by (intro returnsI) (simp add: submsg_fields_def)
  moreover have "decoding (set_defaults n env fs (it_pData it)) UNIV"
    if "fptr ?f = PtrFields fs" "?lt = PB_LTYPE_SUBMESSAGE" for fs
    using decoding_set_defaults [of fs "data_size ?f" "it_pData it" UNIV n env] nested that by (simp add: submsg_fields_def)
  ultimately have oneof: "returns (Suc B) (decode_oneof n env ?func it)"
    unfolding decode_oneof_def Let_def
    by (intro returns_pbind returns_if returns_on_mem decoding_on_mem decoding_if decoding_pbind returns_preturn
        decoding_preturn func)
      (auto split: pb_field_ptr.splits intro: returns_pundef decoding_pundef)
  show ?thesis
    unfolding decode_static_field_def Let_def
    by (cases "PB_HTYPE (ftype ?f)")
      (auto intro!: returns_if returns_pundef func packed repeated oneof returns_pbind returns_on_mem decoding_on_mem
        decoding_if decoding_preturn returns_preturn)
qed

lemma returns_field:
  assumes "\<And>gs d. fields_ok gs (data_size (it_field it)) \<Longrightarrow> fields_size gs \<le> F \<Longrightarrow> returns B (sub gs d)"
    and "\<And>gs d. fields_ok gs (data_size (it_field it)) \<Longrightarrow> decoding (sub gs d) UNIV"
    and "member_within UNIV (it_field it) (it_pData it) (it_pSize it)"
    and "fields_size (submsg_fields (it_field it)) \<le> F" and "F \<le> n" "Suc B < n" and "env_returns env"
  shows "returns (Suc B) (decode_field n env sub wt it)"
  unfolding decode_field_def decode_pointer_field_def
  by (cases "PB_ATYPE (ftype (it_field it))")
    (auto intro: returns_static_field [where F = F] returns_callback_field returns_fail_with assms)

lemma returns_decode_loop:
  assumes one: "\<And>tag wt v. P v \<Longrightarrow> tag < 2 ^ 29 \<Longrightarrow> decoding (one tag wt v) UNIV \<and> returns B (one tag wt v)"
    and inv: "\<And>tag wt v v' s s'. P v \<Longrightarrow> tag < 2 ^ 29 \<Longrightarrow> one tag wt v s = Done (Some v', s') \<Longrightarrow> P v'"
  shows "P v \<Longrightarrow> bytes_left st < k \<Longrightarrow> bytes_left st \<le> Suc B \<Longrightarrow> in_ok c st \<Longrightarrow> decode_loop k one v (st, m) \<noteq> Diverge"
proof (induction k arbitrary: v st m)
  case (Suc k)
  obtain t s where t: "pb_decode_tag st = (t, s)" by fastforce
  show ?case
  proof (cases "bytes_left st = 0")
    case True
    then show ?thesis by (simp add: preturn_def)
  next
    case False
    show ?thesis
    proof (cases t)
      case (Tag tag wt)
      have tag: "tag < 2 ^ 29" using pb_decode_tag_stream(2) [OF Suc.prems(4) t] Tag by blast
      have ok: "in_ok c s" using pb_decode_tag_stream(1) [OF Suc.prems(4) t] by simp
      have "\<exists>w. pb_decode_varint32 st = (Some w, s)"
        using t Tag by (auto simp: pb_decode_tag_def split: option.splits prod.splits if_splits)
      then have less: "bytes_left s < bytes_left st" using consumes_varint32 by (auto simp: consumes_def)
      have d: "decoding (one tag wt v) UNIV" and r: "returns B (one tag wt v)" using one [OF Suc.prems(1) tag] by auto
      show ?thesis
      proof (cases "one tag wt v (s, m)")
        case (Done res)
        then obtain x s1 m1 where x: "one tag wt v (s, m) = Done (x, (s1, m1))" by (metis prod.collapse)
        have s1: "in_ok c s1" "bytes_left s1 \<le> bytes_left s" using decoding.keeps [OF d ok x] by simp_all
        show ?thesis
        proof (cases x)
          case None
          then show ?thesis using False t Tag x by simp
        next
          case (Some v')
          then have "P v'" using inv [OF Suc.prems(1) tag] x by blast
          then have "decode_loop k one v' (s1, m1) \<noteq> Diverge"
            using Suc.IH [of v' s1 m1] s1 less Suc.prems(2,3) by simp
          then show ?thesis using False t Tag x Some by simp
        qed
      next
        case Undef
        then show ?thesis using False t Tag by simp
      next
        case Diverge
        then show ?thesis using returnsD [OF r ok] less Suc.prems(3) by simp
      qed
    qed (use False t in \<open>simp_all add: preturn_def\<close>)
  qed
qed simp

lemma decode_loop_inv:
  assumes inv: "\<And>tag wt v v' s s'. P v \<Longrightarrow> tag < 2 ^ 29 \<Longrightarrow> one tag wt v s = Done (Some v', s') \<Longrightarrow> P v'"
    and ok: "in_ok c st" and v: "P v" and run: "decode_loop k one v (st, m) = Done (Some v', s')"
    and one: "\<And>tag wt v. P v \<Longrightarrow> tag < 2 ^ 29 \<Longrightarrow> decoding (one tag wt v) UNIV"
  shows "P v'"
  using ok v run
proof (induction k arbitrary: v st m)
  case (Suc k)
  obtain t s where t: "pb_decode_tag st = (t, s)" by fastforce
  show ?case
  proof (cases "bytes_left st = 0")
    case True
    then show ?thesis using Suc.prems by (simp add: preturn_def)
  next
    case False
    show ?thesis
    proof (cases t)
      case (Tag tag wt)
      have tag: "tag < 2 ^ 29" using pb_decode_tag_stream(2) [OF Suc.prems(1) t] Tag by blast
      have s: "in_ok c s" using pb_decode_tag_stream(1) [OF Suc.prems(1) t] by simp
      from Suc.prems(3) False t Tag obtain v1 s1 m1 where
        1: "one tag wt v (s, m) = Done (Some v1, (s1, m1))" "decode_loop k one v1 (s1, m1) = Done (Some v', s')"
        by (auto simp: pbind_eq_Done)
      have "P v1" by (rule inv [OF Suc.prems(2) tag 1(1)])
      moreover have "in_ok c s1" using decoding.keeps [OF one [OF Suc.prems(2) tag] s 1(1)] by simp
      ultimately show ?thesis using Suc.IH 1(2) by blast
    qed (use False t Suc.prems in \<open>simp_all add: preturn_def\<close>)
  qed
qed simp

text \<open>
  The count of required fields, found from every position: the loop runs to the end
  of the table, and the iterator is then back at its start.
\<close>

lemma required_loop_eq:
  assumes "i < n_fields fs" and "n_fields fs \<le> k + i"
  shows "required_loop k (iter_at fs dest i)
    = Some (required_before fs (n_fields fs - 1), ftype (field_at fs (n_fields fs - 1)), iter_at fs dest 0)"
  using assms
proof (induction k arbitrary: i)
  case (Suc k)
  show ?case
  proof (cases "Suc i < n_fields fs")
    case True
    then show ?thesis using Suc by (simp add: iter_next_step)
  next
    case False
    then have "n_fields fs = Suc i" using Suc.prems by simp
    then show ?thesis by (simp add: iter_next_wrap)
  qed
qed simp

lemma required_count_eq:
  assumes "valid_pos fs i"
  shows "required_count (iter_at fs dest i) = Some (required_before fs (n_fields fs))"
proof (cases "n_fields fs")
  case 0
  then have "i = 0" using assms by (simp add: valid_pos_def)
  then show ?thesis using 0 field_at_end [of fs] by (simp add: required_count_def iter_next_empty)
next
  case (Suc N)
  then have "i < n_fields fs" "ftag (field_at fs 0) \<noteq> 0"
    using assms field_at_before_end [of 0 fs] by (simp_all add: valid_pos_def)
  then have "required_loop (Suc (length fs)) (iter_at fs dest i)
      = Some (required_before fs N, ftype (field_at fs N), iter_at fs dest 0)"
    using required_loop_eq [of i fs "Suc (length fs)" dest] n_fields_le [of fs] Suc
    by (simp del: required_loop.simps)
  then show ?thesis using Suc \<open>ftag (field_at fs 0) \<noteq> 0\<close>
    by (simp add: required_count_def required_before_Suc del: required_loop.simps)
qed

lemma check_required_returns: "check_required count seen \<noteq> Diverge"
proof -
  have "check_words k ws \<noteq> Diverge" for k ws
    by (induction k arbitrary: ws) (auto split: list.splits)
  then show ?thesis by (auto simp: check_required_def split: outcome.splits bool.splits)
qed

lemma finish_returns:
  assumes "dv_ok fs dest v"
  shows "finish_message v s \<noteq> Diverge"
proof -
  obtain i where "valid_pos fs i" "dv_iter v = iter_at fs dest i" using assms by (auto simp: dv_ok_def)
  then show ?thesis
    using required_count_eq [of fs i dest] check_required_returns
    by (auto simp: finish_message_def preturn_def pundef_def fail_with_def on_stream_def
        split: outcome.splits bool.splits prod.splits)
qed

text \<open>
  The fuel: one for every byte of the stream, one for every level of nesting, and two
  to spare.
\<close>

lemma returns_noinit:
  assumes "fields_ok fs sz" and "env_returns env" and "B + fields_size fs + 2 \<le> n"
  shows "returns B (pb_decode_noinit n env fs dest)"
  using assms(1,3)
proof (induction n arbitrary: fs sz dest B)
  case (Suc n)
  have env: "env_within env UNIV" using assms(2) by (simp add: env_returns_def)
  let ?one = "decode_one n env (pb_decode_noinit n env)"
  have dec: "decoding (pb_decode_noinit n env gs d) UNIV" if "fields_ok gs z" for gs z d
    by (rule decoding_noinit [OF that _ env]) simp
  have one: "(decoding (?one tag wt v) UNIV \<and> returns (B - 1) (?one tag wt v))
      \<and> (\<forall>s v' s'. ?one tag wt v s = Done (Some v', s') \<longrightarrow> dv_ok fs dest v')"
    if v: "dv_ok fs dest v" and tag: "tag < 2 ^ 29" and B: "0 < B" for tag wt v
  proof -
    obtain i where i: "valid_pos fs i" "dv_iter v = iter_at fs dest i" using v by (auto simp: dv_ok_def)
    have tag32: "tag < 2 ^ 32 - 1" using tag by simp
    show ?thesis
    proof (rule decode_one_plain [OF i(1) fields_ok_no_ext [OF Suc.prems(1)] i(2) tag32,
          of n env "pb_decode_noinit n env" wt], assumption, goal_cases)
      case (1 j)
      let ?it = "iter_at fs dest j"
      have m: "member_within UNIV (it_field ?it) (it_pData ?it) (it_pSize ?it)"
        using fields_ok_valid [OF Suc.prems(1) 1(1), of dest UNIV] by simp
      have F: "fields_size (submsg_fields (it_field ?it)) \<le> fields_size fs - 1"
        "fields_size fs = 0 \<Longrightarrow> submsg_fields (it_field ?it) = []"
      proof -
        have "field_at fs j = PB_LAST_FIELD \<or> field_at fs j \<in> set fs" by (auto simp: field_at_def)
        then show "fields_size (submsg_fields (it_field ?it)) \<le> fields_size fs - 1"
          "fields_size fs = 0 \<Longrightarrow> submsg_fields (it_field ?it) = []"
          using submsg_fields_size [of "field_at fs j" fs] by (auto simp: fields_size_def)
      qed
      have f: "returns (B - 1) (decode_field n env (pb_decode_noinit n env) wt ?it)" 
      proof (cases "B = 1")
        case True
        have "returns (Suc 0) (decode_field n env (pb_decode_noinit n env) wt ?it)"
        proof (rule returns_field [where F = "fields_size fs - 1"])
          show "returns 0 (pb_decode_noinit n env gs d)"
            if "fields_ok gs (data_size (it_field ?it))" "fields_size gs \<le> fields_size fs - 1" for gs d
            using that Suc.prems(2) True by (intro Suc.IH) auto
        qed (use m F assms(2) Suc.prems(2) True in \<open>auto intro: dec\<close>)
        then show ?thesis using True by (auto intro: returns_mono)
      next
        case False
        then obtain b where b: "B = Suc (Suc b)" using B by (cases B; cases "B - 1") auto
        have "returns (Suc b) (decode_field n env (pb_decode_noinit n env) wt ?it)"
        proof (rule returns_field [where F = "fields_size fs - 1"])
          show "returns b (pb_decode_noinit n env gs d)"
            if "fields_ok gs (data_size (it_field ?it))" "fields_size gs \<le> fields_size fs - 1" for gs d
            using that Suc.prems(2) b by (intro Suc.IH) auto
        qed (use m F assms(2) Suc.prems(2) b in \<open>auto intro: dec\<close>)
        then show ?thesis using b by simp
      qed
      have d: "decoding (decode_field n env (pb_decode_noinit n env) wt ?it) UNIV"
        using m by (intro decoding_field dec env) simp_all
      show ?case unfolding 1(3) using 1(1) f d
        by (auto simp: pbind_eq_Done preturn_def dv_ok_def
            intro: decoding_pbind decoding_preturn returns_pbind returns_preturn)
    next
      case (2 v')
      show ?case unfolding 2(4) using i(1) 2(2)
        by (auto simp: pbind_eq_Done preturn_def dv_ok_def
            intro: decoding_pbind decoding_preturn decoding_on_stream reader_pb_skip_field
              returns_pbind returns_preturn returns_on_stream)
    qed
  qed
  let ?v = "\<lparr> dv_iter = snd (pb_field_iter_begin fs dest), dv_seen = [0, 0], dv_ext_start = 0 \<rparr>"
  have v: "dv_ok fs dest ?v" by (auto simp: dv_ok_def iter_begin_eq intro: exI [of _ 0])
  show ?case
  proof (rule returnsI)
    fix k m and st :: "'a istream"
    assume ok: "in_ok k st" and b: "bytes_left st \<le> B"
    have loop: "decode_loop n ?one ?v (st, m) \<noteq> Diverge"
    proof (cases "bytes_left st = 0")
      case True
      then show ?thesis using Suc.prems(2) by (cases n) (simp_all add: preturn_def)
    next
      case False
      then have B: "0 < B" using b by simp
      show ?thesis
      proof (rule returns_decode_loop [where P = "dv_ok fs dest" and B = "B - 1", OF _ _ v _ _ ok])
        show "decoding (?one tag wt v) UNIV \<and> returns (B - 1) (?one tag wt v)"
          if "dv_ok fs dest v" "tag < 2 ^ 29" for tag wt v
          using one [OF that B] by blast
        show "dv_ok fs dest v'" if "dv_ok fs dest v" "tag < 2 ^ 29" "?one tag wt v s = Done (Some v', s')"
          for tag wt v v' s s'
          using one [OF that(1,2) B] that(3) by blast
      qed (use b B Suc.prems(2) in auto)
    qed
    show "pb_decode_noinit (Suc n) env fs dest (st, m) \<noteq> Diverge"
    proof (cases "decode_loop n ?one ?v (st, m)")
      case (Done r)
      then obtain x s where x: "decode_loop n ?one ?v (st, m) = Done (x, s)" by (cases r) auto
      show ?thesis
      proof (cases x)
        case None
        then show ?thesis using x by (simp add: decode_message_def)
      next
        case (Some v')
        have "dv_ok fs dest v'"
        proof (cases "bytes_left st = 0")
          case True
          then have "v' = ?v" using x Some Suc.prems(2) by (cases n) (simp_all add: preturn_def)
          then show ?thesis using v by simp
        next
          case False
          then have B: "0 < B" using b by simp
          show ?thesis
          proof (rule decode_loop_inv [where P = "dv_ok fs dest", OF _ ok v x [unfolded Some]])
            show "dv_ok fs dest v'" if "dv_ok fs dest v" "tag < 2 ^ 29" "?one tag wt v s = Done (Some v', s')"
              for tag wt v v' s s'
              using one [OF that(1,2) B] that(3) by blast
            show "decoding (?one tag wt v) UNIV" if "dv_ok fs dest v" "tag < 2 ^ 29" for tag wt v
              using one [OF that B] by blast
          qed
        qed
        then show ?thesis using x Some finish_returns by (simp add: decode_message_def)
      qed
    qed (use loop in \<open>simp_all add: decode_message_def\<close>)
  qed
qed simp

lemma returns_pb_decode:
  assumes "fields_ok fs sz" and "env_returns env" and "B + fields_size fs + 2 \<le> n"
  shows "returns B (pb_decode n env fs dest)"
  unfolding pb_decode_def
proof (rule returns_pbind)
  show "returns B (set_defaults n env fs dest)"
    using assms(3) by (intro returnsI set_defaults_returns [OF assms(1)]) simp
  show "decoding (set_defaults n env fs dest) UNIV"
    by (rule decoding_set_defaults [OF assms(1)]) simp
  show "returns B (pb_decode_noinit n env fs dest)"
    by (rule returns_noinit [OF assms])
qed

end
