(* ===== verification/Pb_Required.thy ===== *)
theory Pb_Required
  imports Pb_Decode_Term
begin

text \<open>
  Required fields. \<open>tags_read\<close> lists the tags a run of the message loop reads from its
  stream. The invariant of the loop: a bit set in \<^verbatim>\<open>fields_seen\<close> belongs to a required
  field whose tag was read. The test at the end accepts exactly when the bits of all
  required fields are set, as long as their number is below 64 and no multiple of 32;
  for a multiple of 32 it shifts by the width of the word.
\<close>

section \<open>The bits of fields_seen\<close>

definition seen_bit :: "32 word list \<Rightarrow> nat \<Rightarrow> bool" where
  "seen_bit seen i \<longleftrightarrow> bit (seen ! (i div 32)) (i mod 32)"

lemma mask_of_all_ones: "r \<le> 32 \<Longrightarrow> drop_bit (32 - r) (- 1 :: 32 word) = mask r"
  by (rule bit_word_eqI) (auto simp: bit_drop_bit_eq bit_mask_iff)

lemma eq_mask_iff: "(w :: 32 word) = mask r \<longleftrightarrow> (\<forall>i < 32. bit w i \<longleftrightarrow> i < r)"
  by (auto simp: bit_eq_iff bit_mask_iff bit_simps)

lemma eq_all_ones_iff: "(w :: 32 word) = - 1 \<longleftrightarrow> (\<forall>i < 32. bit w i)"
  by (auto simp: bit_eq_iff)

lemma check_required_eq:
  assumes "length seen = 2" and "N < 64" and "N mod 32 \<noteq> 0"
    and "\<And>i. N \<le> i \<Longrightarrow> i < 64 \<Longrightarrow> \<not> seen_bit seen i"
  shows "check_required N seen = Done (\<forall>i < N. seen_bit seen i)"
proof -
  obtain a b where ab: "seen = [a, b]"
    using assms(1) by (auto simp: numeral_2_eq_2 length_Suc_conv)
  show ?thesis
  proof (cases "N < 32")
    case True
    then have "\<not> bit a i" if "N \<le> i" "i < 32" for i
      using assms(4) [of i] that by (simp add: seen_bit_def ab)
    then have "a = mask N \<longleftrightarrow> (\<forall>i < N. bit a i)"
      unfolding eq_mask_iff using True by (meson less_trans not_le)
    then show ?thesis
      using True assms(3) by (auto simp: check_required_def ab seen_bit_def mask_of_all_ones)
  next
    case False
    define r where "r = N - 32"
    have "N \<noteq> 32" using assms(3) by auto
    then have N: "N = 32 + r" "r < 32" "0 < r" using False assms(2) by (auto simp: r_def)
    have "\<not> bit b i" if "r \<le> i" "i < 32" for i
      using assms(4) [of "32 + i"] that N by (simp add: seen_bit_def ab)
    then have b: "b = mask r \<longleftrightarrow> (\<forall>i < r. bit b i)"
      unfolding eq_mask_iff using N by (meson less_trans not_le)
    have all: "(\<forall>i < N. seen_bit seen i) \<longleftrightarrow> (\<forall>i < 32. bit a i) \<and> (\<forall>i < r. bit b i)"
    proof
      assume *: "\<forall>i < N. seen_bit seen i"
      have "bit a i" if "i < 32" for i using *[rule_format, of i] that N by (simp add: seen_bit_def ab)
      moreover have "bit b i" if "i < r" for i
        using *[rule_format, of "32 + i"] that N by (simp add: seen_bit_def ab)
      ultimately show "(\<forall>i < 32. bit a i) \<and> (\<forall>i < r. bit b i)" by blast
    next
      assume *: "(\<forall>i < 32. bit a i) \<and> (\<forall>i < r. bit b i)"
      show "\<forall>i < N. seen_bit seen i"
      proof (intro allI impI)
        fix i
        assume "i < N"
        show "seen_bit seen i"
        proof (cases "i < 32")
          case False
          then have "i div 32 = 1" "i mod 32 = i - 32" "i - 32 < r"
            using \<open>i < N\<close> N by (auto simp: div_nat_eqI mod_if)
          then show ?thesis using * by (simp add: seen_bit_def ab)
        qed (use * in \<open>simp add: seen_bit_def ab\<close>)
      qed
    qed
    have "N div 32 = Suc 0" "N mod 32 = r" using N by auto
    then show ?thesis
      using N unfolding all eq_all_ones_iff [symmetric] b [symmetric]
      by (auto simp: check_required_def ab mask_of_all_ones)
  qed
qed

text \<open>A multiple of 32, with all words full: the shift is undefined.\<close>

lemma check_required_undef:
  assumes "length seen = 2" and "N = 32 \<or> N = 64" and "\<And>i. i < N \<Longrightarrow> seen_bit seen i"
  shows "check_required N seen = Undef"
proof -
  obtain a b where ab: "seen = [a, b]"
    using assms(1) by (auto simp: numeral_2_eq_2 length_Suc_conv)
  have "bit a i" if "i < 32" for i
    using assms(3) [of i] assms(2) that by (auto simp: seen_bit_def ab)
  then have a: "a = - 1" unfolding eq_all_ones_iff by blast
  show ?thesis
  proof (cases "N = 32")
    case True
    then show ?thesis using a by (simp add: check_required_def ab)
  next
    case False
    then have N: "N = 64" using assms(2) by simp
    have "bit b i" if "i < 32" for i
      using assms(3) [of "32 + i"] that N by (simp add: seen_bit_def ab)
    then have "b = - 1" unfolding eq_all_ones_iff by blast
    then show ?thesis using a N by (simp add: check_required_def ab numeral_2_eq_2)
  qed
qed

lemma seen_bit_mark:
  assumes "length seen = 2" and "i < 64"
  shows "seen_bit (mark_seen it seen) i \<longleftrightarrow> seen_bit seen i
    \<or> PB_HTYPE (ftype (it_field it)) = PB_HTYPE_REQUIRED \<and> it_required it = i"
proof -
  obtain a b where ab: "seen = [a, b]"
    using assms(1) by (auto simp: numeral_2_eq_2 length_Suc_conv)
  let ?j = "it_required it"
  have eq: "i div 32 = ?j div 32 \<and> i mod 32 = ?j mod 32 \<longleftrightarrow> i = ?j"
    by (metis div_mult_mod_eq)
  show ?thesis
  proof (cases "PB_HTYPE (ftype (it_field it)) = PB_HTYPE_REQUIRED \<and> ?j < 64")
    case True
    then have "?j div 32 < 2" "i div 32 < 2" using assms(2) by auto
    then show ?thesis using True assms eq
      by (auto simp: mark_seen_def seen_bit_def PB_MAX_REQUIRED_FIELDS_def Let_def nth_list_update
          bit_or_iff bit_exp_iff)
  next
    case False
    then show ?thesis using assms(2) by (auto simp: mark_seen_def PB_MAX_REQUIRED_FIELDS_def)
  qed
qed

lemma length_mark_seen [simp]: "length (mark_seen it seen) = length seen"
  by (simp add: mark_seen_def Let_def)

section \<open>The tags of a run\<close>

fun tags_read ::
    "nat \<Rightarrow> (nat \<Rightarrow> pb_wire_type \<Rightarrow> decode_vars \<Rightarrow> (decode_vars, 'u dstate) proc) \<Rightarrow>
     decode_vars \<Rightarrow> 'u dstate \<Rightarrow> nat list" where
  "tags_read 0 one v s = []"
| "tags_read (Suc k) one v s =
     (if bytes_left (fst s) = 0 then []
      else case pb_decode_tag (fst s) of
          (Tag tag wt, st) \<Rightarrow> tag # (case one tag wt v (st, snd s) of
              Done (Some v', s') \<Rightarrow> tags_read k one v' s'
            | _ \<Rightarrow> [])
        | _ \<Rightarrow> [])"

definition message_tags ::
    "nat \<Rightarrow> 'u env \<Rightarrow> pb_field list \<Rightarrow> addr \<Rightarrow> 'u dstate \<Rightarrow> nat list" where
  "message_tags n env fs dest s =
     tags_read (n - 1) (decode_one (n - 1) env (pb_decode_noinit (n - 1) env))
       \<lparr> dv_iter = snd (pb_field_iter_begin fs dest), dv_seen = [0, 0], dv_ext_start = 0 \<rparr> s"

text \<open>A turn of the loop marks the field it decoded, or marks nothing.\<close>

lemma find_extension_valid:
  assumes "valid_pos fs i"
  obtains b j where "find_extension_field (iter_at fs dest i) = Some (b, iter_at fs dest j)" "valid_pos fs j"
  using iter_scan_valid [OF assms, of "\<lambda>f. PB_LTYPE (ftype f) = PB_LTYPE_EXTENSION" dest]
  unfolding find_extension_field_def find_extension_loop_scan iter_at_simps by metis

lemma decode_unknown_vars:
  assumes "dv_iter v = iter_at fs dest i" and "valid_pos fs i"
    and "decode_unknown n env sub tag wt v s = Done (Some v', s')"
  shows "dv_ok fs dest v' \<and> dv_seen v' = dv_seen v"
proof -
  obtain b j where "find_extension_field (iter_at fs dest i) = Some (b, iter_at fs dest j)" "valid_pos fs j"
    by (rule find_extension_valid [OF assms(2)])
  then show ?thesis using assms
    by (auto simp: decode_unknown_def dv_ok_def Let_def preturn_def pbind_eq_Done split: if_splits)
qed

lemma decode_one_vars:
  assumes "dv_iter v = iter_at fs dest i" and "valid_pos fs i"
    and "decode_one n env sub tag wt v s = Done (Some v', s')"
  shows "(\<exists>j. valid_pos fs j \<and> field_matches tag (field_at fs j) \<and> dv_iter v' = iter_at fs dest j
      \<and> dv_seen v' = mark_seen (iter_at fs dest j) (dv_seen v))
    \<or> dv_ok fs dest v' \<and> dv_seen v' = dv_seen v"
proof -
  obtain b j where j: "pb_field_iter_find (iter_at fs dest i) tag = Some (b, iter_at fs dest j)"
      "valid_pos fs j" "b \<longrightarrow> field_matches tag (field_at fs j)"
    using iter_find_valid [OF assms(2)] by metis
  show ?thesis
  proof (cases b)
    case True
    then show ?thesis using assms j
      by (auto simp: decode_one_def pbind_eq_Done preturn_def)
  next
    case False
    then have "decode_unknown n env sub tag wt (v\<lparr> dv_iter := iter_at fs dest j \<rparr>) s = Done (Some v', s')"
      using assms j by (simp add: decode_one_def)
    from decode_unknown_vars [OF _ j(2) this, of dest] show ?thesis by simp
  qed
qed

section \<open>The invariant\<close>

definition seen_ok :: "pb_field list \<Rightarrow> nat set \<Rightarrow> 32 word list \<Rightarrow> bool" where
  "seen_ok fs tags seen \<longleftrightarrow> length seen = 2 \<and>
     (\<forall>i < 64. seen_bit seen i \<longrightarrow>
        (\<exists>j < n_fields fs. PB_HTYPE (ftype (field_at fs j)) = PB_HTYPE_REQUIRED
           \<and> required_before fs j = i \<and> ftag (field_at fs j) \<in> tags))"

lemma seen_ok_mono: "seen_ok fs tags seen \<Longrightarrow> tags \<subseteq> tags' \<Longrightarrow> seen_ok fs tags' seen"
  unfolding seen_ok_def by blast

lemma seen_ok_mark:
  assumes "seen_ok fs tags seen" and "j < n_fields fs" and "ftag (field_at fs j) \<in> tags"
  shows "seen_ok fs tags (mark_seen (iter_at fs dest j) seen)"
  using assms by (auto simp: seen_ok_def seen_bit_mark)

lemma decode_loop_seen:
  assumes nonempty: "0 < n_fields fs"
  shows "decode_loop k (decode_one n env sub) v s = Done (Some v', s') \<Longrightarrow> dv_ok fs dest v \<Longrightarrow>
    seen_ok fs tags (dv_seen v) \<Longrightarrow>
    dv_ok fs dest v' \<and> seen_ok fs (tags \<union> set (tags_read k (decode_one n env sub) v s)) (dv_seen v')"
proof (induction k arbitrary: v s tags)
  case (Suc k)
  let ?one = "decode_one n env sub"
  obtain t st where t: "pb_decode_tag (fst s) = (t, st)" by fastforce
  show ?case
  proof (cases "bytes_left (fst s) = 0")
    case True
    then show ?thesis using Suc.prems by (auto simp: preturn_def)
  next
    case False
    show ?thesis
    proof (cases t)
      case (Tag tag wt)
      from Suc.prems(1) False t Tag obtain v1 s1 where
        1: "?one tag wt v (st, snd s) = Done (Some v1, s1)" "decode_loop k ?one v1 s1 = Done (Some v', s')"
        by (auto simp: pbind_eq_Done)
      obtain i where i: "dv_iter v = iter_at fs dest i" "valid_pos fs i"
        using Suc.prems(2) by (auto simp: dv_ok_def)
      have "dv_ok fs dest v1 \<and> seen_ok fs (insert tag tags) (dv_seen v1)"
        using decode_one_vars [OF i 1(1)]
      proof
        assume "\<exists>j. valid_pos fs j \<and> field_matches tag (field_at fs j) \<and> dv_iter v1 = iter_at fs dest j
            \<and> dv_seen v1 = mark_seen (iter_at fs dest j) (dv_seen v)"
        then obtain j where j: "valid_pos fs j" "ftag (field_at fs j) = tag" "dv_iter v1 = iter_at fs dest j"
            "dv_seen v1 = mark_seen (iter_at fs dest j) (dv_seen v)"
          by (auto simp: field_matches_def)
        then have "j < n_fields fs" using nonempty by (simp add: valid_pos_def)
        then show ?thesis using j seen_ok_mark [of fs "insert tag tags" "dv_seen v" j dest]
            seen_ok_mono [OF Suc.prems(3), of "insert tag tags"] by (auto simp: dv_ok_def)
      next
        assume "dv_ok fs dest v1 \<and> dv_seen v1 = dv_seen v"
        then show ?thesis using seen_ok_mono [OF Suc.prems(3), of "insert tag tags"] by auto
      qed
      with Suc.IH [OF 1(2), of "insert tag tags"] show ?thesis using False t Tag 1(1) by simp
    qed (use False t Suc.prems in \<open>simp_all add: preturn_def\<close>)
  qed
qed simp

lemma required_before_mono: "i \<le> j \<Longrightarrow> required_before fs i \<le> required_before fs j"
  by (induction j rule: dec_induct) (auto simp: required_before_Suc)

lemma required_before_less:
  "i < j \<Longrightarrow> PB_HTYPE (ftype (field_at fs i)) = PB_HTYPE_REQUIRED \<Longrightarrow> required_before fs i < required_before fs j"
  using required_before_mono [of "Suc i" j fs] by (simp add: required_before_Suc)

lemma required_before_inject:
  assumes "required_before fs i = required_before fs j"
    and "PB_HTYPE (ftype (field_at fs i)) = PB_HTYPE_REQUIRED"
    and "PB_HTYPE (ftype (field_at fs j)) = PB_HTYPE_REQUIRED"
  shows "i = j"
  using assms required_before_less [of i j fs] required_before_less [of j i fs]
  by (metis less_irrefl linorder_neqE_nat)

lemma decode_message_success:
  assumes "decode_message n env sub fs dest s = Done (Some (), s')" and "0 < n_fields fs"
  shows "\<exists>seen. seen_ok fs (set (tags_read n (decode_one n env sub)
      \<lparr> dv_iter = snd (pb_field_iter_begin fs dest), dv_seen = [0, 0], dv_ext_start = 0 \<rparr> s)) seen
    \<and> check_required (required_before fs (n_fields fs)) seen = Done True"
proof -
  let ?v = "\<lparr> dv_iter = snd (pb_field_iter_begin fs dest), dv_seen = [0, 0 :: 32 word], dv_ext_start = 0 \<rparr>"
  obtain v' s1 where 1: "decode_loop n (decode_one n env sub) ?v s = Done (Some v', s1)"
      "finish_message v' s1 = Done (Some (), s')"
    using assms(1) by (auto simp: decode_message_def pbind_eq_Done)
  have v: "dv_ok fs dest ?v" "seen_ok fs {} (dv_seen ?v)"
    by (auto simp: dv_ok_def iter_begin_eq seen_ok_def seen_bit_def nth_Cons' intro: exI [of _ 0])
  have ok: "dv_ok fs dest v'" "seen_ok fs (set (tags_read n (decode_one n env sub) ?v s)) (dv_seen v')"
    using decode_loop_seen [OF assms(2) 1(1) v] by simp_all
  obtain i where "valid_pos fs i" "dv_iter v' = iter_at fs dest i" using ok(1) by (auto simp: dv_ok_def)
  then have "check_required (required_before fs (n_fields fs)) (dv_seen v') = Done True"
    using 1(2) required_count_eq [of fs i dest]
    by (auto simp: finish_message_def pundef_def pdiverge_def fail_with_def on_stream_def PB_RETURN_ERROR_def
        split: outcome.splits bool.splits)
  then show ?thesis using ok(2) by blast
qed

end
