(* ===== verification/Pb_Decode_Defined.thy ===== *)
theory Pb_Decode_Defined
  imports Pb_Decode_Term
begin

text \<open>
  The decoder has no undefined behaviour: with tables in which every member has a decoder, every
  submessage its table, and in which the required fields can be counted in the words of \<^verbatim>\<open>fields_seen\<close>,
  no run ends in \<open>Undef\<close>, whatever the input. This is soundness of the tables in the sense of
  typing: \<open>fields_defined\<close> is checked once, and no run gets stuck.
\<close>

section \<open>Sound tables\<close>

definition field_defined :: "pb_field \<Rightarrow> bool" where
  "field_defined f \<longleftrightarrow>
     PB_ATYPE (ftype f) = PB_ATYPE_STATIC \<longrightarrow>
       PB_LTYPE (ftype f) \<noteq> PB_LTYPE_UNDECLARED
       \<and> (case fptr f of
            PtrFields _ \<Rightarrow> PB_LTYPE (ftype f) = PB_LTYPE_SUBMESSAGE
          | _ \<Rightarrow> PB_LTYPE (ftype f) \<noteq> PB_LTYPE_SUBMESSAGE)"

definition countable_required :: "nat \<Rightarrow> bool" where
  "countable_required N \<longleftrightarrow> N = 0 \<or> N < PB_MAX_REQUIRED_FIELDS \<and> N mod 32 \<noteq> 0"

text \<open>The table and the tables of its submessages.\<close>

function fields_defined :: "pb_field list \<Rightarrow> bool" where
  "fields_defined fs \<longleftrightarrow>
     countable_required (required_before fs (n_fields fs))
     \<and> (\<forall>f \<in> set fs. field_defined f)
     \<and> (\<forall>f \<in> set fs. PB_LTYPE (ftype f) = PB_LTYPE_SUBMESSAGE \<longrightarrow> fields_defined (submsg_fields f))"
  by pat_completeness auto
termination
  by (relation "measure fields_size") (auto intro: submsg_fields_size)

declare fields_defined.simps [simp del]

lemma field_at_cases: "field_at fs i = PB_LAST_FIELD \<or> field_at fs i \<in> set fs"
  by (auto simp: field_at_def)

lemma fields_defined_at:
  assumes "fields_defined fs"
  shows "field_defined (field_at fs i)"
    and "PB_LTYPE (ftype (field_at fs i)) = PB_LTYPE_SUBMESSAGE \<Longrightarrow> fields_defined (submsg_fields (field_at fs i))"
proof -
  have "field_defined PB_LAST_FIELD" by (simp add: field_defined_def last_field_type) (use last_field_type(1) in \<open>simp add: PB_LAST_FIELD_def\<close>)
  then show "field_defined (field_at fs i)"
    using field_at_cases [of fs i] assms by (auto simp: fields_defined.simps [of fs])
  show "fields_defined (submsg_fields (field_at fs i))" if "PB_LTYPE (ftype (field_at fs i)) = PB_LTYPE_SUBMESSAGE"
    using field_at_cases [of fs i] assms that by (auto simp: fields_defined.simps [of fs] last_field_type)
qed

section \<open>Runs that are defined\<close>

definition defined :: "('a, 's) proc \<Rightarrow> bool" where
  "defined p \<longleftrightarrow> (\<forall>s. p s \<noteq> Undef)"

lemma definedD: "defined p \<Longrightarrow> p s = Undef \<Longrightarrow> False"
  by (simp add: defined_def)

named_theorems defined_intros

lemma defined_basic [defined_intros]:
  "defined (preturn x)" "defined pdiverge" "defined (on_stream f)" "defined (on_mem g)" "defined (fail_with msg)"
  by (simp_all add: defined_def preturn_def pdiverge_def on_stream_def on_mem_def fail_with_def split: prod.splits)

lemma defined_pbind [defined_intros]: "defined p \<Longrightarrow> (\<And>x. defined (f x)) \<Longrightarrow> defined (pbind p f)"
  by (auto simp: defined_def pbind_def split: outcome.splits option.splits)

lemma defined_if [defined_intros]:
  "(c \<Longrightarrow> defined a) \<Longrightarrow> (\<not> c \<Longrightarrow> defined b) \<Longrightarrow> defined (if c then a else b)"
  by simp

lemma defined_with_mem [defined_intros]: "(\<And>m. defined (f m)) \<Longrightarrow> defined (with_mem f)"
  by (simp add: defined_def with_mem_def)

lemma defined_read_into [defined_intros]: "defined (read_into a n)"
  unfolding read_into_def by (intro defined_intros)

lemma defined_store_clamped [defined_intros]: "defined (store_clamped f dest v c)"
  unfolding store_clamped_def by (cases c) (auto intro!: defined_intros)

lemma defined_then_store [defined_intros]:
  "defined p \<Longrightarrow> defined (\<lambda>s. case p s of
      Done (r, (st, m)) \<Rightarrow> Done (r, (st, store_nat a n v m)) | Undef \<Rightarrow> Undef | Diverge \<Rightarrow> Diverge)"
  by (auto simp: defined_def split: outcome.splits prod.splits)

lemma defined_in_substream [defined_intros]: "defined p \<Longrightarrow> defined (in_substream subst p)"
  by (auto simp: defined_def in_substream_def split: outcome.splits prod.splits option.splits)

section \<open>Default values\<close>

lemma message_defaults_defined:
  assumes "\<And>i m. i < n_fields fs \<Longrightarrow> set_default (iter_at fs dest i) m \<noteq> Undef"
  shows "message_defaults set_default fs dest m \<noteq> Undef"
proof -
  have "message_defaults_loop k set_default (iter_at fs dest i) m \<noteq> Undef" if "i < n_fields fs" for k i m
    using that
  proof (induction k arbitrary: i m)
    case (Suc k)
    show ?case
    proof (cases "Suc i < n_fields fs")
      case True
      then show ?thesis using Suc assms [OF Suc.prems, of m]
        by (auto simp: iter_next_step split: outcome.splits)
    next
      case False
      then have "Suc i = n_fields fs" using Suc.prems by simp
      then show ?thesis using assms [OF Suc.prems, of m] by (auto simp: iter_next_wrap split: outcome.splits)
    qed
  qed simp
  then show ?thesis
    by (auto simp: message_defaults_def iter_begin_eq simp del: message_defaults_loop.simps split: bool.splits)
qed

text \<open>What the operations on a field need to know of it.\<close>

definition member_defined :: "pb_field \<Rightarrow> bool" where
  "member_defined f \<longleftrightarrow> field_defined f \<and> PB_LTYPE (ftype f) \<noteq> PB_LTYPE_EXTENSION
     \<and> (PB_LTYPE (ftype f) = PB_LTYPE_SUBMESSAGE \<longrightarrow>
          fields_defined (submsg_fields f) \<and> fields_ok (submsg_fields f) (data_size f))"

lemma table_member:
  assumes "fields_defined fs" and "fields_ok fs sz" and "valid_pos fs i"
  shows "member_defined (field_at fs i)"
  using fields_defined_at [OF assms(1), of i] fields_ok_valid [OF assms(2,3), of 0 UNIV]
  by (auto simp: member_defined_def member_within_def)

lemma member_submessage:
  assumes "member_defined f" and "PB_LTYPE (ftype f) = PB_LTYPE_SUBMESSAGE" and "PB_ATYPE (ftype f) = PB_ATYPE_STATIC"
  obtains fs where "fptr f = PtrFields fs" "fields_defined fs" "fields_ok fs (data_size f)"
  using assms by (auto simp: member_defined_def field_defined_def submsg_fields_def split: pb_field_ptr.splits)

lemma set_to_default_defined:
  "member_defined (it_field it) \<Longrightarrow> pb_field_set_to_default n env it m \<noteq> Undef"
proof (induction n arbitrary: it m)
  case (Suc n)
  let ?f = "it_field it"
  have sub: "message_defaults (pb_field_set_to_default n env) fs (it_pData it) m1 \<noteq> Undef"
    if "PB_LTYPE (ftype ?f) = PB_LTYPE_SUBMESSAGE" "fptr ?f = PtrFields fs" for fs m1
  proof (rule message_defaults_defined)
    fix i m
    assume i: "i < n_fields fs"
    have "fields_defined fs" "fields_ok fs (data_size ?f)"
      using Suc.prems that by (simp_all add: member_defined_def submsg_fields_def)
    then have "member_defined (field_at fs i)" using i by (intro table_member) (simp_all add: valid_pos_def)
    then show "pb_field_set_to_default n env (iter_at fs (it_pData it) i) m \<noteq> Undef" by (intro Suc.IH) simp
  qed
  have ext: "PB_LTYPE (ftype ?f) \<noteq> PB_LTYPE_EXTENSION" using Suc.prems by (simp add: member_defined_def)
  show ?case
  proof (cases "PB_ATYPE (ftype ?f) = PB_ATYPE_STATIC")
    case True
    then have "case fptr ?f of PtrFields _ \<Rightarrow> PB_LTYPE (ftype ?f) = PB_LTYPE_SUBMESSAGE
        | _ \<Rightarrow> PB_LTYPE (ftype ?f) \<noteq> PB_LTYPE_SUBMESSAGE"
      using Suc.prems by (simp add: member_defined_def field_defined_def)
    then show ?thesis using True ext sub by (auto simp: Let_def split: pb_field_ptr.splits)
  next
    case False
    then show ?thesis using ext by (auto simp: Let_def split: pb_atype.splits)
  qed
qed simp

lemma defined_set_defaults [defined_intros]:
  assumes "fields_defined fs" and "fields_ok fs sz"
  shows "defined (set_defaults n env fs dest)"
proof -
  have "message_defaults (pb_field_set_to_default n env) fs dest m \<noteq> Undef" for m
    using table_member [OF assms]
    by (intro message_defaults_defined set_to_default_defined) (simp add: valid_pos_def)
  then show ?thesis
    by (auto simp: defined_def set_defaults_def pb_message_set_to_defaults_def split: outcome.splits)
qed

section \<open>Fields\<close>

lemma defined_dec_submessage:
  assumes "\<And>gs d. fields_defined gs \<Longrightarrow> fields_ok gs (data_size f) \<Longrightarrow> defined (sub gs d)"
    and "fptr f = PtrFields fs" "fields_defined fs" "fields_ok fs (data_size f)"
  shows "defined (pb_dec_submessage n env sub f dest)"
  unfolding pb_dec_submessage_def assms(2) pb_field_ptr.case
  by (intro defined_intros assms(1,3,4) defined_set_defaults [OF assms(3,4)])

lemma defined_PB_DECODERS:
  assumes sub: "\<And>gs d. fields_defined gs \<Longrightarrow> fields_ok gs (data_size f) \<Longrightarrow> defined (sub gs d)"
    and f: "member_defined f" and static: "PB_ATYPE (ftype f) = PB_ATYPE_STATIC"
  shows "defined (PB_DECODERS n env sub (PB_LTYPE (ftype f)) f dest)"
proof (cases "PB_LTYPE (ftype f) = PB_LTYPE_SUBMESSAGE")
  case True
  obtain fs where "fptr f = PtrFields fs" "fields_defined fs" "fields_ok fs (data_size f)"
    by (rule member_submessage [OF f True static])
  then show ?thesis using defined_dec_submessage [OF sub] True by (simp add: PB_DECODERS_def)
next
  case False
  have "PB_LTYPE (ftype f) \<noteq> PB_LTYPE_EXTENSION" "PB_LTYPE (ftype f) \<noteq> PB_LTYPE_UNDECLARED"
    using f static by (simp_all add: member_defined_def field_defined_def)
  with False show ?thesis
    by (cases "PB_LTYPE (ftype f)")
      (auto simp: PB_DECODERS_def pb_dec_varint_def pb_dec_uvarint_def pb_dec_svarint_def pb_dec_fixed32_def
        pb_dec_fixed64_def pb_dec_bytes_def pb_dec_string_def pb_dec_fixed_length_bytes_def Let_def intro!: defined_intros)
qed

lemma defined_packed_loop:
  assumes "\<And>d. defined (func f d)"
  shows "defined (packed_loop k func f pData pSize)"
proof (induction k)
  case (Suc k)
  have "defined (pbind (func f d) (\<lambda>_. pbind (with_mem (\<lambda>m. on_mem (store_nat pSize sizeof_pb_size
      (load_nat pSize sizeof_pb_size m + 1)))) (\<lambda>_. packed_loop k func f pData pSize)))" for d
    by (intro defined_intros assms Suc.IH)
  then show ?case by (simp add: defined_def Let_def preturn_def)
qed (simp add: defined_def)

lemma defined_packed:
  assumes "\<And>d. defined (func (it_field it) d)"
  shows "defined (decode_packed n func it)"
  unfolding decode_packed_def
proof (intro defined_pbind defined_basic)
  fix subst :: "'a istream"
  have "defined (packed_loop n func (it_field it) (it_pData it) (it_pSize it))"
    by (rule defined_packed_loop) (rule assms)
  then show "defined (\<lambda>s. case packed_loop n func (it_field it) (it_pData it) (it_pSize it) (subst, snd s) of
         Done (status, (subst', m)) \<Rightarrow>
           if bytes_left subst' \<noteq> 0 then fail_with ''array overflow'' (fst s, m)
           else (case pb_close_string_substream subst' (fst s) of
                   (None, st) \<Rightarrow> Done (None, (st, m))
                 | (Some _, st) \<Rightarrow> Done (status, (st, m)))
       | Undef \<Rightarrow> Undef
       | Diverge \<Rightarrow> Diverge)"
    by (auto simp: defined_def fail_with_def on_stream_def split: outcome.splits prod.splits option.splits)
qed

lemma defined_oneof:
  assumes "defined (func (it_field it) (it_pData it))" and f: "member_defined (it_field it)"
    and static: "PB_ATYPE (ftype (it_field it)) = PB_ATYPE_STATIC"
  shows "defined (decode_oneof n env func it)"
proof -
  have "defined (case fptr (it_field it) of PtrFields fs \<Rightarrow> set_defaults n env fs (it_pData it) | _ \<Rightarrow> pundef)"
    if "PB_LTYPE (ftype (it_field it)) = PB_LTYPE_SUBMESSAGE"
    by (rule member_submessage [OF f that static]) (simp add: defined_set_defaults)
  then show ?thesis unfolding decode_oneof_def Let_def by (intro defined_intros assms(1))
qed

lemma defined_static_field:
  assumes sub: "\<And>gs d. fields_defined gs \<Longrightarrow> fields_ok gs (data_size (it_field it)) \<Longrightarrow> defined (sub gs d)"
    and f: "member_defined (it_field it)" and static: "PB_ATYPE (ftype (it_field it)) = PB_ATYPE_STATIC"
  shows "defined (decode_static_field n env sub wt it)"
proof -
  let ?func = "PB_DECODERS n env sub (PB_LTYPE (ftype (it_field it)))"
  have func: "defined (?func (it_field it) d)" for d by (rule defined_PB_DECODERS [OF sub f static])
  have "PB_LTYPE (ftype (it_field it)) \<noteq> PB_LTYPE_UNDECLARED"
    using f static by (simp add: member_defined_def field_defined_def)
  moreover have "defined (decode_repeated ?func it)"
    unfolding decode_repeated_def Let_def by (intro defined_intros func)
  ultimately show ?thesis
    using defined_packed [of ?func it n] defined_oneof [of ?func it n env, OF func f static] func
    unfolding decode_static_field_def Let_def
    by (cases "PB_HTYPE (ftype (it_field it))") (auto intro!: defined_intros)
qed

section \<open>Callbacks\<close>

text \<open>The user's functions have no undefined behaviour themselves.\<close>

definition env_defined :: "'u env \<Rightarrow> bool" where
  "env_defined env \<longleftrightarrow> (\<forall>funcs f arg. defined (env_callback env funcs f arg))"

lemma defined_callback_loop:
  assumes "defined call"
  shows "defined (callback_loop k call)"
proof (induction k)
  case (Suc k)
  have "defined (\<lambda>s'. if bytes_left (fst s') \<noteq> 0 then callback_loop k call s' else preturn () s')"
    using Suc.IH by (simp add: defined_def preturn_def)
  then have "defined (pbind call (\<lambda>_ s'. if bytes_left (fst s') \<noteq> 0 then callback_loop k call s' else preturn () s'))"
    using assms by (intro defined_pbind)
  then show ?case by (simp add: defined_def)
qed (simp add: defined_def)

lemma defined_callback_field:
  assumes "env_defined env"
  shows "defined (decode_callback_field n env wt it)"
proof -
  let ?call = "\<lambda>m. env_callback env (callback_funcs (it_pData it) m) (it_field it) (callback_arg (it_pData it))"
  have call: "defined (?call m)" for m using assms by (simp add: env_defined_def)
  have "defined (\<lambda>s. case callback_loop n (?call m) (subst, snd s) of
                Done (None, (subst', m')) \<Rightarrow> fail_with ''callback failed'' (fst s, m')
              | Done (Some _, (subst', m')) \<Rightarrow> on_stream (pb_close_string_substream subst') (fst s, m')
              | Undef \<Rightarrow> Undef
              | Diverge \<Rightarrow> Diverge)" for m subst
    using defined_callback_loop [OF call, of n m]
    by (auto simp: defined_def fail_with_def on_stream_def split: outcome.splits prod.splits option.splits)
  moreover have "defined (\<lambda>s. case ?call m (pb_istream_from_buffer buffer (length buffer), snd s) of
                Done (status, (subst', m')) \<Rightarrow> Done (status, (fst s, m'))
              | Undef \<Rightarrow> Undef
              | Diverge \<Rightarrow> Diverge)" for m buffer
    using call [of m] by (auto simp: defined_def split: outcome.splits prod.splits)
  ultimately show ?thesis
    unfolding decode_callback_field_def Let_def by (intro defined_intros)
qed

lemma defined_field:
  assumes "\<And>gs d. fields_defined gs \<Longrightarrow> fields_ok gs (data_size (it_field it)) \<Longrightarrow> defined (sub gs d)"
    and "member_defined (it_field it)" and "env_defined env"
  shows "defined (decode_field n env sub wt it)"
  unfolding decode_field_def decode_pointer_field_def
  by (cases "PB_ATYPE (ftype (it_field it))")
    (auto intro: defined_static_field defined_callback_field defined_intros assms)

section \<open>Messages\<close>

lemma pb_decode_tag_small: "pb_decode_tag st = (Tag tag wt, st') \<Longrightarrow> tag < 2 ^ 29"
proof -
  assume "pb_decode_tag st = (Tag tag wt, st')"
  then obtain w where "tag = unat (drop_bit 3 (w :: 32 word))"
    by (auto simp: pb_decode_tag_def split: option.splits if_splits prod.splits)
  moreover have "unat (drop_bit 3 w) = unat w div 8"
    unfolding unsigned_drop_bit_eq using unat32_less [of w] by (simp add: drop_bit_eq_div take_bit_nat_eq_self)
  moreover have "unat w div 8 < 2 ^ 29" using unat32_less [of w] by (simp add: less_mult_imp_div_less)
  ultimately show "tag < 2 ^ 29" by simp
qed

lemma decode_loop_defined:
  assumes "\<And>tag wt v. P v \<Longrightarrow> tag < 2 ^ 29 \<Longrightarrow> defined (one tag wt v)"
    and "\<And>tag wt v v' s s'. P v \<Longrightarrow> tag < 2 ^ 29 \<Longrightarrow> one tag wt v s = Done (Some v', s') \<Longrightarrow> P v'"
  shows "P v \<Longrightarrow> decode_loop k one v s \<noteq> Undef
    \<and> (\<forall>v' s'. decode_loop k one v s = Done (Some v', s') \<longrightarrow> P v')"
proof (induction k arbitrary: v s)
  case (Suc k)
  obtain t st where t: "pb_decode_tag (fst s) = (t, st)" by fastforce
  show ?case
  proof (cases "bytes_left (fst s) \<noteq> 0 \<and> (\<exists>tag wt. t = Tag tag wt)")
    case True
    then obtain tag wt where tag: "t = Tag tag wt" by blast
    then have small: "tag < 2 ^ 29" using pb_decode_tag_small t by blast
    show ?thesis
    proof (cases "one tag wt v (st, snd s)")
      case (Done r)
      obtain x s1 where r: "r = (x, s1)" by (cases r)
      show ?thesis
      proof (cases x)
        case (Some v1)
        then have "P v1" using assms(2) [OF Suc.prems small] Done r by blast
        then show ?thesis using Suc.IH [of v1 s1] True tag t Done r Some by simp
      qed (use True tag t Done r in simp)
    qed (use True tag t assms(1) [OF Suc.prems small, of wt] in \<open>auto simp: defined_def\<close>)
  next
    case False
    then show ?thesis using Suc.prems t by (cases t) (auto simp: preturn_def)
  qed
qed simp

lemma check_required_defined: "countable_required N \<Longrightarrow> length seen = 2 \<Longrightarrow> check_required N seen \<noteq> Undef"
proof -
  assume N: "countable_required N" and "length seen = 2"
  then obtain a b where seen: "seen = [a, b]" by (auto simp: numeral_2_eq_2 length_Suc_conv)
  have words: "check_words 0 ws = Done True" "check_words (Suc 0) [a, b] = Done (a = - 1)" for ws by simp_all
  have "N div 32 = 0 \<or> N div 32 = Suc 0" if "N < 64" using that by linarith
  then show ?thesis using N
    by (auto simp: countable_required_def PB_MAX_REQUIRED_FIELDS_def check_required_def seen words
        simp del: check_words.simps split: bool.splits)
qed

text \<open>The loop variables of a run over a sound table.\<close>

definition dv_sound :: "pb_field list \<Rightarrow> addr \<Rightarrow> decode_vars \<Rightarrow> bool" where
  "dv_sound fs dest v \<longleftrightarrow> dv_ok fs dest v \<and> length (dv_seen v) = 2"

lemma finish_message_defined:
  assumes "fields_defined fs" and "dv_sound fs dest v"
  shows "finish_message v s \<noteq> Undef"
proof -
  obtain i where "valid_pos fs i" "dv_iter v = iter_at fs dest i" using assms(2) by (auto simp: dv_sound_def dv_ok_def)
  moreover have "countable_required (required_before fs (n_fields fs))" using assms(1) by (simp add: fields_defined.simps [of fs])
  then have "check_required (required_before fs (n_fields fs)) (dv_seen v) \<noteq> Undef"
    using assms(2) by (intro check_required_defined) (simp_all add: dv_sound_def)
  ultimately show ?thesis
    by (auto simp: finish_message_def required_count_eq preturn_def pdiverge_def fail_with_def on_stream_def
        split: outcome.splits bool.splits prod.splits)
qed

lemma defined_noinit:
  assumes "fields_defined fs" and "fields_ok fs sz" and "env_defined env"
  shows "defined (pb_decode_noinit n env fs dest)"
  using assms(1,2)
proof (induction n arbitrary: fs sz dest)
  case (Suc n)
  let ?one = "decode_one n env (pb_decode_noinit n env)"
  have one: "defined (?one tag wt v) \<and> (\<forall>s v' s'. ?one tag wt v s = Done (Some v', s') \<longrightarrow> dv_sound fs dest v')"
    if v: "dv_sound fs dest v" and tag: "tag < 2 ^ 29" for tag wt v
  proof -
    obtain i where i: "valid_pos fs i" "dv_iter v = iter_at fs dest i" using v by (auto simp: dv_sound_def dv_ok_def)
    have tag32: "tag < 2 ^ 32 - 1" using tag by simp
    show ?thesis
    proof (rule decode_one_plain [OF i(1) fields_ok_no_ext [OF Suc.prems(2)] i(2) tag32,
          of n env "pb_decode_noinit n env" wt], assumption, goal_cases)
      case (1 j)
      have "defined (decode_field n env (pb_decode_noinit n env) wt (iter_at fs dest j))"
        using table_member [OF Suc.prems 1(1)] Suc.IH by (intro defined_field assms(3)) simp_all
      moreover have "length (mark_seen it seen) = length seen" for it seen by (simp add: mark_seen_def Let_def)
      ultimately show ?case unfolding 1(3) using 1(1) v
        by (auto simp: pbind_eq_Done preturn_def dv_sound_def dv_ok_def intro: defined_intros)
    next
      case (2 v')
      show ?case unfolding 2(4) using i(1) 2(2,3) v
        by (auto simp: pbind_eq_Done preturn_def dv_sound_def dv_ok_def intro: defined_intros)
    qed
  qed
  let ?v = "\<lparr> dv_iter = snd (pb_field_iter_begin fs dest), dv_seen = [0, 0], dv_ext_start = 0 \<rparr>"
  have "dv_sound fs dest ?v" by (auto simp: dv_sound_def dv_ok_def iter_begin_eq intro: exI [of _ 0])
  then have loop: "decode_loop n ?one ?v s \<noteq> Undef
      \<and> (\<forall>v' s'. decode_loop n ?one ?v s = Done (Some v', s') \<longrightarrow> dv_sound fs dest v')" for s
    using one by (intro decode_loop_defined [where P = "dv_sound fs dest"]) blast+
  have "decode_message n env (pb_decode_noinit n env) fs dest s \<noteq> Undef" for s
    using loop [of s]
    by (auto simp: decode_message_def pbind_def split: outcome.splits option.splits
        dest: finish_message_defined [OF Suc.prems(1)])
  then show ?case by (simp add: defined_def)
qed (simp add: defined_intros)

lemma defined_pb_decode:
  "fields_defined fs \<Longrightarrow> fields_ok fs sz \<Longrightarrow> env_defined env \<Longrightarrow> defined (pb_decode n env fs dest)"
  unfolding pb_decode_def by (intro defined_intros defined_noinit)

end
