(* ===== verification/Pb_Encode.thy ===== *)
theory Pb_Encode
  imports Pb_Proc
begin

text \<open>
  The encoder (\<^verbatim>\<open>pb_encode.c\<close>): the encoders of the field types, arrays with packing,
  the proto3 test for default values, callbacks, extensions, the message loop, and
  submessages with their length prefix. The message is read from the memory in the
  environment and never written. User functions work on the stream and on a world
  of their own, which the sizing pass and the writing pass over a submessage see one
  after the other. The operations below \<^verbatim>\<open>pb_encode\<close> take the encoder of nested
  messages as the argument \<open>sub\<close>.
\<close>

section \<open>State and environment\<close>

type_synonym ('u, 'w) estate = "'u ostream \<times> 'w"

record ('u, 'w) enc_env =
  ee_mem :: mem
  ee_callback :: "nat \<Rightarrow> pb_field \<Rightarrow> addr \<Rightarrow> (unit, 'u ostream \<times> 'w) proc"
  ee_ext_encode :: "nat \<Rightarrow> (addr \<Rightarrow> (unit, 'u ostream \<times> 'w) proc) option"
  ee_ext_arg :: "nat \<Rightarrow> pb_field"

definition on_ostream :: "('a, 'u ostream) op \<Rightarrow> ('a, ('u, 'w) estate) proc" where
  "on_ostream f s = (case f (fst s) of (r, st) \<Rightarrow> Done (r, (st, snd s)))"

definition enc_fail :: "string \<Rightarrow> ('a, ('u, 'w) estate) proc" where
  "enc_fail msg = on_ostream (PB_RETURN_OERROR msg)"

section \<open>Field encoders\<close>

text \<open>The integer of \<open>k\<close> bytes at an address, sign- or zero-extended to 64 bits.\<close>

definition load_signed :: "nat \<Rightarrow> addr \<Rightarrow> mem \<Rightarrow> 64 word option" where
  "load_signed k a m =
     (if k = 1 then Some (scast (word_of_nat (load_nat a 1 m) :: 8 word))
      else if k = 2 then Some (scast (word_of_nat (load_nat a 2 m) :: 16 word))
      else if k = 4 then Some (scast (word_of_nat (load_nat a 4 m) :: 32 word))
      else if k = 8 then Some (word_of_nat (load_nat a 8 m))
      else None)"

definition load_unsigned :: "nat \<Rightarrow> addr \<Rightarrow> mem \<Rightarrow> 64 word option" where
  "load_unsigned k a m =
     (if k \<in> {1, 2, 4, 8} then Some (word_of_nat (load_nat a k m)) else None)"

text \<open>Reading a scalar through a null pointer is undefined.\<close>

definition pb_enc_varint :: "mem \<Rightarrow> pb_field \<Rightarrow> addr \<Rightarrow> (unit, ('u, 'w) estate) proc" where
  "pb_enc_varint m f src = (case load_signed (data_size f) src m of
      None \<Rightarrow> enc_fail ''invalid data_size''
    | Some value \<Rightarrow> if src = 0 then pundef else on_ostream (pb_encode_varint value))"

definition pb_enc_uvarint :: "mem \<Rightarrow> pb_field \<Rightarrow> addr \<Rightarrow> (unit, ('u, 'w) estate) proc" where
  "pb_enc_uvarint m f src = (case load_unsigned (data_size f) src m of
      None \<Rightarrow> enc_fail ''invalid data_size''
    | Some value \<Rightarrow> if src = 0 then pundef else on_ostream (pb_encode_varint value))"

definition pb_enc_svarint :: "mem \<Rightarrow> pb_field \<Rightarrow> addr \<Rightarrow> (unit, ('u, 'w) estate) proc" where
  "pb_enc_svarint m f src = (case load_signed (data_size f) src m of
      None \<Rightarrow> enc_fail ''invalid data_size''
    | Some value \<Rightarrow> if src = 0 then pundef else on_ostream (pb_encode_svarint value))"

definition pb_enc_fixed32 :: "mem \<Rightarrow> pb_field \<Rightarrow> addr \<Rightarrow> (unit, ('u, 'w) estate) proc" where
  "pb_enc_fixed32 m f src =
     (if src = 0 then pundef else on_ostream (pb_encode_fixed32 (word_of_nat (load_nat src 4 m))))"

definition pb_enc_fixed64 :: "mem \<Rightarrow> pb_field \<Rightarrow> addr \<Rightarrow> (unit, ('u, 'w) estate) proc" where
  "pb_enc_fixed64 m f src =
     (if src = 0 then pundef else on_ostream (pb_encode_fixed64 (word_of_nat (load_nat src 8 m))))"

definition pb_enc_bytes :: "mem \<Rightarrow> pb_field \<Rightarrow> addr \<Rightarrow> (unit, ('u, 'w) estate) proc" where
  "pb_enc_bytes m f src =
     (if src = 0 then on_ostream (pb_encode_string [])
      else let size = load_nat src sizeof_pb_size m in
        if PB_ATYPE (ftype f) = PB_ATYPE_STATIC \<and> data_size f < PB_BYTES_ARRAY_T_ALLOCSIZE size
        then enc_fail ''bytes size exceeded''
        else on_ostream (pb_encode_string (load_bytes (src + int bytes_offset) size m)))"

text \<open>\<^verbatim>\<open>while (size < max_size && *p != '\0') { size++; p++; }\<close>\<close>

function strnlen_loop :: "nat \<Rightarrow> nat \<Rightarrow> addr \<Rightarrow> mem \<Rightarrow> nat" where
  "strnlen_loop len limit p m =
     (if len < limit \<and> m p \<noteq> 0 then strnlen_loop (len + 1) limit (p + 1) m else len)"
  by pat_completeness auto
termination by (relation "measure (\<lambda>(len, limit, _). limit - len)") auto

declare strnlen_loop.simps [simp del]

definition pb_enc_string :: "mem \<Rightarrow> pb_field \<Rightarrow> addr \<Rightarrow> (unit, ('u, 'w) estate) proc" where
  "pb_enc_string m f src =
     (let max_size = (if PB_ATYPE (ftype f) = PB_ATYPE_POINTER then 2 ^ 64 - 1 else data_size f);
          size = (if src = 0 then 0 else strnlen_loop 0 max_size src m)
      in on_ostream (pb_encode_string (load_bytes src size m)))"

text \<open>\<^verbatim>\<open>pb_write\<close> from a null pointer: the sizing stream only counts, any other one reads through it.\<close>

definition write_from_null :: "nat \<Rightarrow> (unit, ('u, 'w) estate) proc" where
  "write_from_null count s =
     (let st = fst s in
      if is_sizing (out_sink st) then on_ostream (pb_write_null count) s
      else if max_size st < bytes_written st + count then enc_fail ''stream full'' s
      else Undef)"

definition pb_enc_fixed_length_bytes :: "mem \<Rightarrow> pb_field \<Rightarrow> addr \<Rightarrow> (unit, ('u, 'w) estate) proc" where
  "pb_enc_fixed_length_bytes m f src =
     (if src = 0 \<and> data_size f \<noteq> 0
      then pbind (on_ostream (pb_encode_varint (word_of_nat (data_size f)))) (\<lambda>_. write_from_null (data_size f))
      else on_ostream (pb_encode_string (load_bytes src (data_size f) m)))"

section \<open>Submessages\<close>

text \<open>The writing pass, on a stream whose limit is the size found by the sizing pass.\<close>

definition write_submessage ::
    "(unit, ('u, 'w) estate) proc \<Rightarrow> nat \<Rightarrow> (unit, ('u, 'w) estate) proc" where
  "write_submessage body sub_size s =
     (let st = fst s in
      if is_sizing (out_sink st) then on_ostream (pb_write_null sub_size) s
      else if max_size st < bytes_written st + sub_size then enc_fail ''stream full'' s
      else (case body (\<lparr> out_sink = out_sink st, max_size = sub_size, bytes_written = 0,
                          out_errmsg = None \<rparr>, snd s) of
          Done (status, (sub, w)) \<Rightarrow>
            (let st' = st\<lparr> bytes_written := bytes_written st + bytes_written sub,
                            out_sink := out_sink sub, out_errmsg := out_errmsg sub \<rparr>
             in if bytes_written sub \<noteq> sub_size then enc_fail ''submsg size changed'' (st', w)
                else Done (status, (st', w)))
        | Undef \<Rightarrow> Undef
        | Diverge \<Rightarrow> Diverge))"

definition pb_encode_submessage ::
    "(pb_field list \<Rightarrow> addr \<Rightarrow> (unit, ('u, 'w) estate) proc) \<Rightarrow> pb_field list \<Rightarrow> addr \<Rightarrow>
     (unit, ('u, 'w) estate) proc" where
  "pb_encode_submessage sub fs src s =
     (case sub fs src (PB_OSTREAM_SIZING, snd s) of
        Done (None, (sizing, w)) \<Rightarrow> Done (None, ((fst s)\<lparr> out_errmsg := out_errmsg sizing \<rparr>, w))
      | Done (Some _, (sizing, w)) \<Rightarrow>
          (let size = bytes_written sizing in
           pbind (on_ostream (pb_encode_varint (word_of_nat size)))
             (\<lambda>_. write_submessage (sub fs src) size) (fst s, w))
      | Undef \<Rightarrow> Undef
      | Diverge \<Rightarrow> Diverge)"

definition pb_enc_submessage ::
    "(pb_field list \<Rightarrow> addr \<Rightarrow> (unit, ('u, 'w) estate) proc) \<Rightarrow> pb_field \<Rightarrow> addr \<Rightarrow>
     (unit, ('u, 'w) estate) proc" where
  "pb_enc_submessage sub f src = (case fptr f of
      PtrNull \<Rightarrow> enc_fail ''invalid field descriptor''
    | PtrDefault _ \<Rightarrow> pundef
    | PtrFields fs \<Rightarrow> pb_encode_submessage sub fs src)"

definition PB_ENCODERS ::
    "mem \<Rightarrow> (pb_field list \<Rightarrow> addr \<Rightarrow> (unit, ('u, 'w) estate) proc) \<Rightarrow> pb_ltype \<Rightarrow> pb_field \<Rightarrow> addr \<Rightarrow>
     (unit, ('u, 'w) estate) proc" where
  "PB_ENCODERS m sub lt = (case lt of
      PB_LTYPE_VARINT \<Rightarrow> pb_enc_varint m
    | PB_LTYPE_UVARINT \<Rightarrow> pb_enc_uvarint m
    | PB_LTYPE_SVARINT \<Rightarrow> pb_enc_svarint m
    | PB_LTYPE_FIXED32 \<Rightarrow> pb_enc_fixed32 m
    | PB_LTYPE_FIXED64 \<Rightarrow> pb_enc_fixed64 m
    | PB_LTYPE_BYTES \<Rightarrow> pb_enc_bytes m
    | PB_LTYPE_STRING \<Rightarrow> pb_enc_string m
    | PB_LTYPE_SUBMESSAGE \<Rightarrow> pb_enc_submessage sub
    | PB_LTYPE_EXTENSION \<Rightarrow> (\<lambda>f src. pundef)
    | PB_LTYPE_FIXED_LENGTH_BYTES \<Rightarrow> pb_enc_fixed_length_bytes m
    | PB_LTYPE_UNDECLARED \<Rightarrow> (\<lambda>f src. pundef))"

section \<open>Arrays\<close>

text \<open>The loop over the items, at distance \<^verbatim>\<open>data_size\<close>.\<close>

fun items_loop :: "nat \<Rightarrow> (addr \<Rightarrow> (unit, 's) proc) \<Rightarrow> nat \<Rightarrow> addr \<Rightarrow> (unit, 's) proc" where
  "items_loop 0 item step p = preturn ()"
| "items_loop (Suc k) item step p = pbind (item p) (\<lambda>_. items_loop k item step (p + int step))"

text \<open>
  The items of a packed array behind their length, which are not visited when the
  stream only counts; and the length of items that have no fixed size, found by a
  pass over a sizing stream.
\<close>

definition items_or_size :: "nat \<Rightarrow> (unit, ('u, 'w) estate) proc \<Rightarrow> (unit, ('u, 'w) estate) proc" where
  "items_or_size sz items s =
     (if is_sizing (out_sink (fst s)) then on_ostream (pb_write_null sz) s else items s)"

definition with_size ::
    "(unit, ('u, 'w) estate) proc \<Rightarrow> (nat \<Rightarrow> (unit, ('u, 'w) estate) proc) \<Rightarrow> (unit, ('u, 'w) estate) proc" where
  "with_size items finish s =
     (case items (PB_OSTREAM_SIZING, snd s) of
        Done (None, (_, w)) \<Rightarrow> Done (None, (fst s, w))
      | Done (Some _, (sizing, w)) \<Rightarrow> finish (bytes_written sizing) (fst s, w)
      | Undef \<Rightarrow> Undef
      | Diverge \<Rightarrow> Diverge)"

definition encode_packed ::
    "pb_field \<Rightarrow> addr \<Rightarrow> nat \<Rightarrow> (pb_field \<Rightarrow> addr \<Rightarrow> (unit, ('u, 'w) estate) proc) \<Rightarrow>
     (unit, ('u, 'w) estate) proc" where
  "encode_packed f pData count func =
     (let lt = PB_LTYPE (ftype f);
          items = items_loop count (func f) (data_size f) pData;
          finish = (\<lambda>sz. pbind (on_ostream (pb_encode_varint (word_of_nat sz))) (\<lambda>_. items_or_size sz items))
      in pbind (on_ostream (pb_encode_tag PB_WT_STRING (ftag f))) (\<lambda>_.
           if lt = PB_LTYPE_FIXED32 then finish (4 * count)
           else if lt = PB_LTYPE_FIXED64 then finish (8 * count)
           else with_size items finish))"

definition encode_unpacked ::
    "mem \<Rightarrow> pb_field \<Rightarrow> addr \<Rightarrow> nat \<Rightarrow> (pb_field \<Rightarrow> addr \<Rightarrow> (unit, ('u, 'w) estate) proc) \<Rightarrow>
     (unit, ('u, 'w) estate) proc" where
  "encode_unpacked m f pData count func =
     items_loop count (\<lambda>p.
       pbind (on_ostream (pb_encode_tag_for_field f)) (\<lambda>_.
         if PB_ATYPE (ftype f) = PB_ATYPE_POINTER
            \<and> PB_LTYPE (ftype f) \<in> {PB_LTYPE_STRING, PB_LTYPE_BYTES}
         then (if p = 0 then pundef else func f (int (load_nat p sizeof_ptr m)))
         else func f p))
       (data_size f) pData"

definition encode_array ::
    "mem \<Rightarrow> pb_field \<Rightarrow> addr \<Rightarrow> nat \<Rightarrow> (pb_field \<Rightarrow> addr \<Rightarrow> (unit, ('u, 'w) estate) proc) \<Rightarrow>
     (unit, ('u, 'w) estate) proc" where
  "encode_array m f pData count func =
     (if count = 0 then preturn ()
      else if PB_ATYPE (ftype f) \<noteq> PB_ATYPE_POINTER \<and> array_size f < count
      then enc_fail ''array max size exceeded''
      else if packable (PB_LTYPE (ftype f)) then encode_packed f pData count func
      else encode_unpacked m f pData count func)"

section \<open>The proto3 test for default values\<close>

fun default_loop :: "nat \<Rightarrow> (pb_field \<Rightarrow> addr \<Rightarrow> bool outcome) \<Rightarrow> pb_field_iter \<Rightarrow> bool outcome" where
  "default_loop 0 check it = Diverge"
| "default_loop (Suc k) check it =
     (case check (it_field it) (it_pData it) of
        Done True \<Rightarrow> (case pb_field_iter_next it of
            (True, it') \<Rightarrow> default_loop k check it'
          | (False, _) \<Rightarrow> Done True)
      | r \<Rightarrow> r)"

definition all_zero :: "byte list \<Rightarrow> bool" where
  "all_zero bs \<longleftrightarrow> list_all (\<lambda>b. b = 0) bs"

fun pb_check_proto3_default_value :: "nat \<Rightarrow> mem \<Rightarrow> pb_field \<Rightarrow> addr \<Rightarrow> bool outcome" where
  "pb_check_proto3_default_value 0 m f pData = Diverge"
| "pb_check_proto3_default_value (Suc n) m f pData =
     (let lt = PB_LTYPE (ftype f);
          catch_all = Done (all_zero (load_bytes pData (data_size f) m))
      in if PB_ATYPE (ftype f) = PB_ATYPE_STATIC
         then (case lt of
             PB_LTYPE_BYTES \<Rightarrow> Done (load_nat pData sizeof_pb_size m = 0)
           | PB_LTYPE_STRING \<Rightarrow> Done (m pData = 0)
           | PB_LTYPE_FIXED_LENGTH_BYTES \<Rightarrow> Done (data_size f = 0)
           | PB_LTYPE_SUBMESSAGE \<Rightarrow> (case fptr f of
                 PtrFields fs \<Rightarrow> (case pb_field_iter_begin fs pData of
                     (True, it) \<Rightarrow> default_loop (Suc (length fs)) (pb_check_proto3_default_value n m) it
                   | (False, _) \<Rightarrow> Done True)
               | _ \<Rightarrow> Undef)
           | _ \<Rightarrow> catch_all)
         else catch_all)"

section \<open>One field\<close>

text \<open>
  The presence of a field. \<^verbatim>\<open>pSize\<close> points into the structure when the descriptor has
  a \<^verbatim>\<open>size_offset\<close> and to the local \<^verbatim>\<open>implicit_has\<close> otherwise; reading a count or a
  tag through a pointer to that one-byte local is undefined.
\<close>

datatype presence = Stored addr | Implicit bool

definition has_field :: "mem \<Rightarrow> presence \<Rightarrow> bool" where
  "has_field m p = (case p of Stored a \<Rightarrow> m a \<noteq> 0 | Implicit b \<Rightarrow> b)"

definition size_field :: "mem \<Rightarrow> presence \<Rightarrow> nat outcome" where
  "size_field m p = (case p of Stored a \<Rightarrow> Done (load_nat a sizeof_pb_size m) | Implicit b \<Rightarrow> Undef)"

definition field_presence :: "nat \<Rightarrow> mem \<Rightarrow> pb_field \<Rightarrow> addr \<Rightarrow> presence outcome" where
  "field_presence n m f pData =
     (if size_offset f \<noteq> 0 then Done (Stored (pData + size_offset f))
      else (case (if PB_HTYPE (ftype f) = PB_HTYPE_OPTIONAL
                  then pb_check_proto3_default_value n m f pData else Done False) of
          Done is_default \<Rightarrow>
            Done (Implicit (if PB_ATYPE (ftype f) = PB_ATYPE_POINTER
                            then load_nat pData sizeof_ptr m \<noteq> 0 else \<not> is_default))
        | Undef \<Rightarrow> Undef
        | Diverge \<Rightarrow> Diverge))"

definition tag_and_value ::
    "pb_field \<Rightarrow> addr \<Rightarrow> (pb_field \<Rightarrow> addr \<Rightarrow> (unit, ('u, 'w) estate) proc) \<Rightarrow> (unit, ('u, 'w) estate) proc" where
  "tag_and_value f p func = pbind (on_ostream (pb_encode_tag_for_field f)) (\<lambda>_. func f p)"

definition encode_basic_field ::
    "nat \<Rightarrow> mem \<Rightarrow> (pb_field list \<Rightarrow> addr \<Rightarrow> (unit, ('u, 'w) estate) proc) \<Rightarrow> pb_field \<Rightarrow> addr \<Rightarrow>
     (unit, ('u, 'w) estate) proc" where
  "encode_basic_field n m sub f pData =
     (let lt = PB_LTYPE (ftype f); func = PB_ENCODERS m sub lt;
          p = (if PB_ATYPE (ftype f) = PB_ATYPE_POINTER then int (load_nat pData sizeof_ptr m)
               else pData)
      in if lt = PB_LTYPE_UNDECLARED then pundef
         else case field_presence n m f pData of
           Undef \<Rightarrow> pundef
         | Diverge \<Rightarrow> pdiverge
         | Done pres \<Rightarrow> (case PB_HTYPE (ftype f) of
             PB_HTYPE_REQUIRED \<Rightarrow>
               if p = 0 then enc_fail ''missing required field'' else tag_and_value f p func
           | PB_HTYPE_OPTIONAL \<Rightarrow> if has_field m pres then tag_and_value f p func else preturn ()
           | PB_HTYPE_REPEATED \<Rightarrow> (case size_field m pres of
                 Done count \<Rightarrow> encode_array m f p count func
               | Undef \<Rightarrow> pundef
               | Diverge \<Rightarrow> pdiverge)
           | PB_HTYPE_ONEOF \<Rightarrow> (case size_field m pres of
                 Done which \<Rightarrow> if which = ftag f then tag_and_value f p func else preturn ()
               | Undef \<Rightarrow> pundef
               | Diverge \<Rightarrow> pdiverge)))"

definition encode_callback_field ::
    "('u, 'w) enc_env \<Rightarrow> pb_field \<Rightarrow> addr \<Rightarrow> (unit, ('u, 'w) estate) proc" where
  "encode_callback_field env f pData =
     (let funcs = callback_funcs pData (ee_mem env) in
      if funcs = 0 then preturn ()
      else (\<lambda>s. case ee_callback env funcs f (callback_arg pData) s of
          Done (None, s') \<Rightarrow> enc_fail ''callback error'' s'
        | r \<Rightarrow> r))"

definition encode_field ::
    "nat \<Rightarrow> ('u, 'w) enc_env \<Rightarrow> (pb_field list \<Rightarrow> addr \<Rightarrow> (unit, ('u, 'w) estate) proc) \<Rightarrow>
     pb_field \<Rightarrow> addr \<Rightarrow> (unit, ('u, 'w) estate) proc" where
  "encode_field n env sub f pData = (case PB_ATYPE (ftype f) of
      PB_ATYPE_STATIC \<Rightarrow> encode_basic_field n (ee_mem env) sub f pData
    | PB_ATYPE_POINTER \<Rightarrow> encode_basic_field n (ee_mem env) sub f pData
    | PB_ATYPE_CALLBACK \<Rightarrow> encode_callback_field env f pData
    | PB_ATYPE_UNDECLARED \<Rightarrow> enc_fail ''invalid field type'')"

section \<open>Extensions and messages\<close>

definition default_extension_encoder ::
    "nat \<Rightarrow> ('u, 'w) enc_env \<Rightarrow> (pb_field list \<Rightarrow> addr \<Rightarrow> (unit, ('u, 'w) estate) proc) \<Rightarrow>
     addr \<Rightarrow> (unit, ('u, 'w) estate) proc" where
  "default_extension_encoder n env sub ext =
     (let m = ee_mem env; f = ee_ext_arg env (ext_type ext m) in
      if PB_ATYPE (ftype f) = PB_ATYPE_POINTER then encode_field n env sub f (ext_dest_addr ext)
      else encode_field n env sub f (ext_dest ext m))"

fun encode_extension_loop ::
    "nat \<Rightarrow> mem \<Rightarrow> (addr \<Rightarrow> (unit, 's) proc) \<Rightarrow> addr \<Rightarrow> (unit, 's) proc" where
  "encode_extension_loop 0 m handler ext = pdiverge"
| "encode_extension_loop (Suc k) m handler ext =
     (if ext = 0 then preturn ()
      else pbind (handler ext) (\<lambda>_. encode_extension_loop k m handler (ext_next ext m)))"

definition encode_extension_field ::
    "nat \<Rightarrow> ('u, 'w) enc_env \<Rightarrow> (pb_field list \<Rightarrow> addr \<Rightarrow> (unit, ('u, 'w) estate) proc) \<Rightarrow>
     pb_field \<Rightarrow> addr \<Rightarrow> (unit, ('u, 'w) estate) proc" where
  "encode_extension_field n env sub f pData =
     encode_extension_loop n (ee_mem env)
       (\<lambda>ext. case ee_ext_encode env (ext_type ext (ee_mem env)) of
           Some encode \<Rightarrow> encode ext
         | None \<Rightarrow> default_extension_encoder n env sub ext)
       (int (load_nat pData sizeof_ptr (ee_mem env)))"

definition encode_one ::
    "nat \<Rightarrow> ('u, 'w) enc_env \<Rightarrow> (pb_field list \<Rightarrow> addr \<Rightarrow> (unit, ('u, 'w) estate) proc) \<Rightarrow>
     pb_field_iter \<Rightarrow> (unit, ('u, 'w) estate) proc" where
  "encode_one n env sub it =
     (if PB_LTYPE (ftype (it_field it)) = PB_LTYPE_EXTENSION
      then encode_extension_field n env sub (it_field it) (it_pData it)
      else encode_field n env sub (it_field it) (it_pData it))"

fun encode_loop :: "nat \<Rightarrow> (pb_field_iter \<Rightarrow> (unit, 's) proc) \<Rightarrow> pb_field_iter \<Rightarrow> (unit, 's) proc" where
  "encode_loop 0 one it = pdiverge"
| "encode_loop (Suc k) one it =
     pbind (one it) (\<lambda>_. case pb_field_iter_next it of
         (True, it') \<Rightarrow> encode_loop k one it'
       | (False, _) \<Rightarrow> preturn ())"

definition encode_message ::
    "nat \<Rightarrow> ('u, 'w) enc_env \<Rightarrow> (pb_field list \<Rightarrow> addr \<Rightarrow> (unit, ('u, 'w) estate) proc) \<Rightarrow>
     pb_field list \<Rightarrow> addr \<Rightarrow> (unit, ('u, 'w) estate) proc" where
  "encode_message n env sub fs src = (case pb_field_iter_begin fs src of
      (False, _) \<Rightarrow> preturn ()
    | (True, it) \<Rightarrow> encode_loop (Suc (length fs)) (encode_one n env sub) it)"

fun pb_encode ::
    "nat \<Rightarrow> ('u, 'w) enc_env \<Rightarrow> pb_field list \<Rightarrow> addr \<Rightarrow> (unit, ('u, 'w) estate) proc" where
  "pb_encode 0 env fs src = pdiverge"
| "pb_encode (Suc n) env fs src = encode_message n env (pb_encode n env) fs src"

definition pb_encode_delimited ::
    "nat \<Rightarrow> ('u, 'w) enc_env \<Rightarrow> pb_field list \<Rightarrow> addr \<Rightarrow> (unit, ('u, 'w) estate) proc" where
  "pb_encode_delimited n env fs src = pb_encode_submessage (pb_encode n env) fs src"

definition pb_get_encoded_size ::
    "nat \<Rightarrow> ('u, 'w) enc_env \<Rightarrow> pb_field list \<Rightarrow> addr \<Rightarrow> 'w \<Rightarrow> (nat option \<times> 'w) outcome" where
  "pb_get_encoded_size n env fs src w =
     (case pb_encode n env fs src (PB_OSTREAM_SIZING, w) of
        Done (None, (_, w')) \<Rightarrow> Done (None, w')
      | Done (Some _, (sizing, w')) \<Rightarrow> Done (Some (bytes_written sizing), w')
      | Undef \<Rightarrow> Undef
      | Diverge \<Rightarrow> Diverge)"

end
