(* ===== verification/Pb_Encode_Spec.thy ===== *)
theory Pb_Encode_Spec
  imports Pb_Encode
begin

text \<open>
  The contract of the encoder. The locale \<open>encoding\<close> says that an operation stands
  for one byte string: it counts the bytes on a sizing stream, appends them to a
  buffer with room, and on a buffer without room fails and stays within the limit.
  Every other operation is \<open>fruitless\<close>: it never succeeds on a buffer and stays
  within the limit, and where the sizing stream nevertheless promises a size, a
  buffer of this size is left by undefined behaviour or a lack of fuel only. The
  two kinds are closed under sequencing, so \<open>pb_encode\<close> is of one of them when the
  user's functions are.
\<close>

section \<open>Two kinds of operations\<close>

locale encoding =
  fixes p :: "(unit, ('u, 'w) estate) proc" and out :: "byte list"
  assumes counts: "is_sizing (out_sink st) \<Longrightarrow>
      p (st, x) = Done (Some (), (st\<lparr>bytes_written := bytes_written st + length out\<rparr>, x))"
    and writes: "n + length out \<le> l \<Longrightarrow>
      p (buf_ostream w l n None, x) = Done (Some (), (buf_ostream (w @ out) l (n + length out) None, x))"
    and overflows: "n \<le> l \<Longrightarrow> l < n + length out \<Longrightarrow>
      \<exists>q e. p (buf_ostream w l n None, x) = Done (None, (buf_ostream (w @ q) l (n + length q) e, x))
        \<and> n + length q \<le> l"

text \<open>
  On a buffer: a failure within the limit or no result at all; with room for the
  promised size, no result.
\<close>

definition faulty :: "(unit, ('u, 'w) estate) proc \<Rightarrow> nat option \<Rightarrow> bool" where
  "faulty p c \<longleftrightarrow> (\<forall>w l n x. n \<le> l \<longrightarrow>
     (p (buf_ostream w l n None, x) = Undef \<or> p (buf_ostream w l n None, x) = Diverge
      \<or> (\<forall>k. c = Some k \<longrightarrow> l < n + k)
        \<and> (\<exists>q e. p (buf_ostream w l n None, x) = Done (None, (buf_ostream (w @ q) l (n + length q) e, x))
             \<and> n + length q \<le> l)))"

text \<open>On the sizing stream: a size, or no success.\<close>

definition sizes :: "(unit, ('u, 'w) estate) proc \<Rightarrow> nat option \<Rightarrow> bool" where
  "sizes p c \<longleftrightarrow> (\<forall>st x. is_sizing (out_sink st) \<longrightarrow> (case c of
      Some k \<Rightarrow> p (st, x) = Done (Some (), (st\<lparr>bytes_written := bytes_written st + k\<rparr>, x))
    | None \<Rightarrow> p (st, x) = Undef \<or> p (st, x) = Diverge
        \<or> (\<exists>st'. is_sizing (out_sink st') \<and> p (st, x) = Done (None, (st', x)))))"

definition fruitless :: "(unit, ('u, 'w) estate) proc \<Rightarrow> nat option \<Rightarrow> bool" where
  "fruitless p c \<longleftrightarrow> sizes p c \<and> faulty p c"

definition encoder :: "(unit, ('u, 'w) estate) proc \<Rightarrow> bool" where
  "encoder p \<longleftrightarrow> (\<exists>out. encoding p out) \<or> (\<exists>c. fruitless p c)"

named_theorems encoder_intros

lemma encoderI [intro]: "encoding p out \<Longrightarrow> encoder p" "fruitless p c \<Longrightarrow> encoder p"
  by (auto simp: encoder_def)

lemma encoder_cases [case_names bytes fruitless]:
  assumes "encoder p"
  obtains out where "encoding p out" | c where "fruitless p c"
  using assms unfolding encoder_def by blast

lemma encoding_sizes: "encoding p out \<Longrightarrow> sizes p (Some (length out))"
  by (simp add: sizes_def encoding.counts)

lemma encoder_sizes: "encoder p \<Longrightarrow> \<exists>c. sizes p c"
  by (erule encoder_cases) (auto simp: fruitless_def dest: encoding_sizes)

lemma sizesD: "sizes p (Some k) \<Longrightarrow> is_sizing (out_sink st) \<Longrightarrow>
    p (st, x) = Done (Some (), (st\<lparr>bytes_written := bytes_written st + k\<rparr>, x))"
  by (simp add: sizes_def)

lemma faultyD:
  assumes "faulty p c" and "n \<le> l"
  obtains (undef) "p (buf_ostream w l n None, x) = Undef" | (diverge) "p (buf_ostream w l n None, x) = Diverge"
    | (fail) q e where "p (buf_ostream w l n None, x) = Done (None, (buf_ostream (w @ q) l (n + length q) e, x))"
        "n + length q \<le> l" "\<forall>k. c = Some k \<longrightarrow> l < n + k"
  using assms unfolding faulty_def by blast

lemma sizing_stream [simp]: "is_sizing (out_sink PB_OSTREAM_SIZING)" "bytes_written PB_OSTREAM_SIZING = 0"
  by (simp_all add: PB_OSTREAM_SIZING_def)

lemma buf_ostream_simps [simp]:
  "\<not> is_sizing (out_sink (buf_ostream w l n e))" "max_size (buf_ostream w l n e) = l"
  "bytes_written (buf_ostream w l n e) = n" "out_sink (buf_ostream w l n e) = BufSink w"
  by (simp_all add: buf_ostream_def)

section \<open>Sequencing\<close>

lemma encoding_preturn: "encoding (preturn ()) []"
  by (rule encoding.intro) (simp_all add: preturn_def)

lemma encoding_on_ostream: "emitter f out \<Longrightarrow> encoding (on_ostream f) out"
proof (rule encoding.intro)
  fix n l :: nat and w x
  assume f: "emitter f out"
  show "is_sizing (out_sink st) \<Longrightarrow> on_ostream f (st, x)
      = Done (Some (), (st\<lparr>bytes_written := bytes_written st + length out\<rparr>, x))" for st x
    by (simp add: on_ostream_def emitter.sizing [OF f])
  show "n + length out \<le> l \<Longrightarrow> on_ostream f (buf_ostream w l n None, x)
      = Done (Some (), (buf_ostream (w @ out) l (n + length out) None, x))"
    by (simp add: on_ostream_def emitter.room [OF f])
  assume "n \<le> l" "l < n + length out"
  from emitter.full [OF f this, of w None]
  show "\<exists>q e. on_ostream f (buf_ostream w l n None, x)
      = Done (None, (buf_ostream (w @ q) l (n + length q) e, x)) \<and> n + length q \<le> l"
    by (auto simp: on_ostream_def)
qed

text \<open>A failure that writes nothing.\<close>

lemma fruitless_errmsg:
  fixes p :: "(unit, ('u, 'w) estate) proc"
  assumes "\<And>st x. p (st, x) = Undef \<or> p (st, x) = Diverge
    \<or> (\<exists>e. p (st, x) = Done (None, (st\<lparr> out_errmsg := e \<rparr>, x)))"
  shows "fruitless p None"
  unfolding fruitless_def
proof
  show "sizes p None"
    unfolding sizes_def option.case
  proof (intro allI impI)
    fix st :: "'u ostream" and x :: 'w
    assume "is_sizing (out_sink st)"
    then show "p (st, x) = Undef \<or> p (st, x) = Diverge
        \<or> (\<exists>st'. is_sizing (out_sink st') \<and> p (st, x) = Done (None, (st', x)))"
      using assms [of st x] by auto
  qed
  show "faulty p None"
    unfolding faulty_def
  proof (intro allI impI)
    fix w n x and l :: nat
    assume "n \<le> l"
    then show "p (buf_ostream w l n None, x) = Undef \<or> p (buf_ostream w l n None, x) = Diverge
      \<or> (\<forall>k. None = Some k \<longrightarrow> l < n + k)
        \<and> (\<exists>q e. p (buf_ostream w l n None, x) = Done (None, (buf_ostream (w @ q) l (n + length q) e, x))
             \<and> n + length q \<le> l)"
      using assms [of "buf_ostream w l n None" x]
      by (auto simp: buf_ostream_def intro!: exI [of _ "[]"])
  qed
qed

lemma fruitless_enc_fail: "fruitless (enc_fail msg) None"
  by (rule fruitless_errmsg) (auto simp: enc_fail_def on_ostream_def PB_RETURN_OERROR_def)

lemma fruitless_pundef: "fruitless pundef None"
  by (rule fruitless_errmsg) (simp add: pundef_def)

lemma fruitless_pdiverge: "fruitless pdiverge None"
  by (rule fruitless_errmsg) (simp add: pdiverge_def)

lemma sizes_pbind:
  fixes p q :: "(unit, ('u, 'w) estate) proc"
  assumes p: "sizes p c" and q: "sizes q d"
  shows "sizes (pbind p (\<lambda>_. q)) (case (c, d) of (Some a, Some b) \<Rightarrow> Some (a + b) | _ \<Rightarrow> None)"
proof (cases c)
  case None
  have "pbind p (\<lambda>_. q) (st, x) = Undef \<or> pbind p (\<lambda>_. q) (st, x) = Diverge
      \<or> (\<exists>st'. is_sizing (out_sink st') \<and> pbind p (\<lambda>_. q) (st, x) = Done (None, (st', x)))"
    if "is_sizing (out_sink st)" for st :: "'u ostream" and x :: 'w
  proof -
    from p that None have "p (st, x) = Undef \<or> p (st, x) = Diverge
        \<or> (\<exists>st'. is_sizing (out_sink st') \<and> p (st, x) = Done (None, (st', x)))"
      by (simp add: sizes_def)
    then show ?thesis by auto
  qed
  then show ?thesis using None by (simp add: sizes_def)
next
  case (Some a)
  then have "pbind p (\<lambda>_. q) (st, x) = q (st\<lparr>bytes_written := bytes_written st + a\<rparr>, x)"
    if "is_sizing (out_sink st)" for st :: "'u ostream" and x :: 'w
    using sizesD [OF p [unfolded Some] that] by simp
  note run = this
  show ?thesis
  proof (cases d)
    case None
    have "q (st', x) = Undef \<or> q (st', x) = Diverge
        \<or> (\<exists>st''. is_sizing (out_sink st'') \<and> q (st', x) = Done (None, (st'', x)))"
      if "is_sizing (out_sink st')" for st' :: "'u ostream" and x :: 'w
      using q that None by (simp add: sizes_def)
    then have "pbind p (\<lambda>_. q) (st, x) = Undef \<or> pbind p (\<lambda>_. q) (st, x) = Diverge
        \<or> (\<exists>st''. is_sizing (out_sink st'') \<and> pbind p (\<lambda>_. q) (st, x) = Done (None, (st'', x)))"
      if "is_sizing (out_sink st)" for st :: "'u ostream" and x :: 'w
      using run [OF that, of x] that by simp
    then show ?thesis using None \<open>c = Some a\<close> by (simp add: sizes_def)
  next
    case d: (Some b)
    show ?thesis using q Some d run by (simp add: sizes_def add.assoc)
  qed
qed

lemma encoding_pbind:
  assumes p: "encoding p a" and q: "encoding q b"
  shows "encoding (pbind p (\<lambda>_. q)) (a @ b)"
proof (rule encoding.intro)
  fix n l :: nat and w x
  show "is_sizing (out_sink st) \<Longrightarrow> pbind p (\<lambda>_. q) (st, x)
      = Done (Some (), (st\<lparr>bytes_written := bytes_written st + length (a @ b)\<rparr>, x))" for st x
    by (simp add: encoding.counts [OF p] encoding.counts [OF q] add.assoc)
  show "n + length (a @ b) \<le> l \<Longrightarrow> pbind p (\<lambda>_. q) (buf_ostream w l n None, x)
      = Done (Some (), (buf_ostream (w @ a @ b) l (n + length (a @ b)) None, x))"
    by (simp add: encoding.writes [OF p] encoding.writes [OF q] add.assoc)
  assume n: "n \<le> l" and full: "l < n + length (a @ b)"
  show "\<exists>r e. pbind p (\<lambda>_. q) (buf_ostream w l n None, x)
      = Done (None, (buf_ostream (w @ r) l (n + length r) e, x)) \<and> n + length r \<le> l"
  proof (cases "n + length a \<le> l")
    case False
    then show ?thesis using encoding.overflows [OF p n, of w x] by auto
  next
    case True
    obtain r e where "q (buf_ostream (w @ a) l (n + length a) None, x)
        = Done (None, (buf_ostream ((w @ a) @ r) l (n + length a + length r) e, x))" "n + length a + length r \<le> l"
      using encoding.overflows [OF q True, of "w @ a" x] full by auto
    then show ?thesis using True
      by (intro exI [of _ "a @ r"] exI [of _ e]) (simp add: encoding.writes [OF p] add.assoc)
  qed
qed

lemma faulty_pbind1:
  assumes p: "faulty p c"
  shows "faulty (pbind p f) (case (c, d) of (Some a, Some b) \<Rightarrow> Some (a + b) | _ \<Rightarrow> None)"
  unfolding faulty_def
proof (intro allI impI)
  fix w x n and l :: nat
  assume "n \<le> l"
  with p show "pbind p f (buf_ostream w l n None, x) = Undef \<or> pbind p f (buf_ostream w l n None, x) = Diverge
      \<or> (\<forall>k. (case (c, d) of (Some a, Some b) \<Rightarrow> Some (a + b) | _ \<Rightarrow> None) = Some k \<longrightarrow> l < n + k)
        \<and> (\<exists>q e. pbind p f (buf_ostream w l n None, x) = Done (None, (buf_ostream (w @ q) l (n + length q) e, x))
             \<and> n + length q \<le> l)"
  proof (cases rule: faultyD [of p c n l w x])
    case (fail q e)
    then show ?thesis by (auto split: option.splits)
  qed simp_all
qed

lemma faulty_pbind2:
  assumes p: "encoding p a" and q: "faulty q d"
  shows "faulty (pbind p (\<lambda>_. q)) (map_option ((+) (length a)) d)"
  unfolding faulty_def
proof (intro allI impI)
  fix w x n and l :: nat
  assume n: "n \<le> l"
  show "pbind p (\<lambda>_. q) (buf_ostream w l n None, x) = Undef \<or> pbind p (\<lambda>_. q) (buf_ostream w l n None, x) = Diverge
      \<or> (\<forall>k. map_option ((+) (length a)) d = Some k \<longrightarrow> l < n + k)
        \<and> (\<exists>r e. pbind p (\<lambda>_. q) (buf_ostream w l n None, x) = Done (None, (buf_ostream (w @ r) l (n + length r) e, x))
             \<and> n + length r \<le> l)"
  proof (cases "n + length a \<le> l")
    case False
    then show ?thesis using encoding.overflows [OF p n, of w x] by auto
  next
    case True
    have run: "pbind p (\<lambda>_. q) (buf_ostream w l n None, x) = q (buf_ostream (w @ a) l (n + length a) None, x)"
      by (simp add: encoding.writes [OF p True])
    from q True show ?thesis
    proof (cases rule: faultyD [of q d "n + length a" l "w @ a" x])
      case (fail r e)
      then show ?thesis unfolding run
        by (intro disjI2 conjI exI [of _ "a @ r"] exI [of _ e]) (auto simp: add.assoc)
    qed (simp_all add: run)
  qed
qed

lemma encoder_pbind [encoder_intros]:
  assumes "encoder p" and "encoder q"
  shows "encoder (pbind p (\<lambda>_. q))"
  using assms(1)
proof (cases rule: encoder_cases)
  case (bytes a)
  from assms(2) show ?thesis
  proof (cases rule: encoder_cases)
    case (bytes b)
    then show ?thesis using encoding_pbind [OF \<open>encoding p a\<close>] by blast
  next
    case (fruitless d)
    have "(case (Some (length a), d) of (Some a, Some b) \<Rightarrow> Some (a + b) | _ \<Rightarrow> None) = map_option ((+) (length a)) d"
      by (cases d) auto
    then have "fruitless (pbind p (\<lambda>_. q)) (map_option ((+) (length a)) d)"
      using fruitless sizes_pbind [OF encoding_sizes [OF bytes], of q d] faulty_pbind2 [OF bytes]
      by (simp add: fruitless_def)
    then show ?thesis by blast
  qed
next
  case (fruitless c)
  obtain d where "sizes q d" using encoder_sizes [OF assms(2)] by blast
  then show ?thesis using fruitless sizes_pbind [of p c q d] faulty_pbind1 [of p c _ d]
    unfolding fruitless_def encoder_def by blast
qed

lemma encoder_preturn [encoder_intros]: "encoder (preturn ())"
  using encoding_preturn by blast

lemma encoder_enc_fail [encoder_intros]: "encoder (enc_fail msg)"
  using fruitless_enc_fail by blast

lemma encoder_pundef [encoder_intros]: "encoder pundef"
  using fruitless_pundef by blast

lemma encoder_pdiverge [encoder_intros]: "encoder pdiverge"
  using fruitless_pdiverge by blast

lemma encoder_if [encoder_intros]:
  "(c \<Longrightarrow> encoder a) \<Longrightarrow> (\<not> c \<Longrightarrow> encoder b) \<Longrightarrow> encoder (if c then a else b)"
  by simp

section \<open>Scalars and strings\<close>

lemma encoding_varint: "encoding (on_ostream (pb_encode_varint v)) (varint_bytes (unat v))"
  by (rule encoding_on_ostream [OF emitter_varint])

lemma encoder_varint [encoder_intros]: "encoder (on_ostream (pb_encode_varint v))"
  using encoding_varint by blast

lemma encoder_svarint [encoder_intros]: "encoder (on_ostream (pb_encode_svarint v))"
  unfolding pb_encode_svarint_def by (rule encoder_varint)

lemma encoder_fixed32 [encoder_intros]: "encoder (on_ostream (pb_encode_fixed32 v))"
  unfolding pb_encode_fixed32_def using encoding_on_ostream [OF emitter_write] by blast

lemma encoder_fixed64 [encoder_intros]: "encoder (on_ostream (pb_encode_fixed64 v))"
  unfolding pb_encode_fixed64_def using encoding_on_ostream [OF emitter_write] by blast

lemma encoder_tag [encoder_intros]: "encoder (on_ostream (pb_encode_tag wt n))"
  unfolding pb_encode_tag_def by (rule encoder_varint)

lemma encoder_tag_for_field [encoder_intros]:
  "encoder (on_ostream (pb_encode_tag_for_field f) :: (unit, ('u, 'w) estate) proc)"
proof (cases "wire_type_for (PB_LTYPE (ftype f))")
  case None
  then have "(on_ostream (pb_encode_tag_for_field f) :: (unit, ('u, 'w) estate) proc)
      = enc_fail ''invalid field type''"
    by (intro ext) (simp add: pb_encode_tag_for_field_def on_ostream_def enc_fail_def)
  then show ?thesis by (simp add: encoder_enc_fail)
next
  case (Some wt)
  then have "(pb_encode_tag_for_field f :: (unit, 'u ostream) op) = pb_encode_tag wt (ftag f)"
    by (simp add: pb_encode_tag_for_field_def fun_eq_iff)
  then show ?thesis by (simp add: encoder_tag)
qed

lemma emitter_string: "emitter (pb_encode_string bs) (varint_bytes (unat (word_of_nat (length bs) :: 64 word)) @ bs)"
  unfolding pb_encode_string_def by (rule emitter_obind [OF emitter_varint emitter_write])

lemma encoder_string [encoder_intros]: "encoder (on_ostream (pb_encode_string bs))"
  using encoding_on_ostream [OF emitter_string] by blast

lemma encoder_items [encoder_intros]: "(\<And>p. encoder (item p)) \<Longrightarrow> encoder (items_loop k item step p)"
  by (induction k arbitrary: p) (simp_all add: encoder_intros)

section \<open>Submessages\<close>

lemma write_submessage_encoding:
  assumes "encoding body out"
  shows "encoding (write_submessage body (length out)) out"
proof (rule encoding.intro)
  fix n l :: nat and w x
  show "is_sizing (out_sink st) \<Longrightarrow> write_submessage body (length out) (st, x)
      = Done (Some (), (st\<lparr>bytes_written := bytes_written st + length out\<rparr>, x))" for st x
    by (simp add: write_submessage_def on_ostream_def pb_write_null_def)
  have sub: "\<lparr> out_sink = BufSink w, max_size = length out, bytes_written = 0, out_errmsg = None \<rparr>
      = buf_ostream w (length out) 0 None"
    by (simp add: buf_ostream_def)
  show "n + length out \<le> l \<Longrightarrow> write_submessage body (length out) (buf_ostream w l n None, x)
      = Done (Some (), (buf_ostream (w @ out) l (n + length out) None, x))"
    using encoding.writes [OF assms, of 0 "length out" w x]
    by (simp add: write_submessage_def sub) (simp add: buf_ostream_def)
  assume "n \<le> l" "l < n + length out"
  then show "\<exists>q e. write_submessage body (length out) (buf_ostream w l n None, x)
      = Done (None, (buf_ostream (w @ q) l (n + length q) e, x)) \<and> n + length q \<le> l"
    by (intro exI [of _ "[]"])
      (simp add: write_submessage_def enc_fail_def on_ostream_def PB_RETURN_OERROR_def buf_ostream_def)
qed

text \<open>The length prefix, then the body.\<close>

lemma pb_encode_submessage_encoding:
  assumes "encoding (sub fs src) out"
  shows "encoding (pb_encode_submessage sub fs src)
    (varint_bytes (unat (word_of_nat (length out) :: 64 word)) @ out)"
proof -
  have "pb_encode_submessage sub fs src
      = pbind (on_ostream (pb_encode_varint (word_of_nat (length out))))
          (\<lambda>_. write_submessage (sub fs src) (length out))"
    by (rule ext) (simp add: pb_encode_submessage_def encoding.counts [OF assms] Let_def)
  then show ?thesis
    using encoding_pbind [OF encoding_varint write_submessage_encoding [OF assms]] by simp
qed

lemma write_submessage_faulty:
  assumes "faulty body (Some k)"
  shows "fruitless (write_submessage body k) (Some k)"
  unfolding fruitless_def
proof
  show "sizes (write_submessage body k) (Some k)"
    by (simp add: sizes_def write_submessage_def on_ostream_def pb_write_null_def)
  show "faulty (write_submessage body k) (Some k)"
    unfolding faulty_def
  proof (intro allI impI)
    fix w x n and l :: nat
    assume n: "n \<le> l"
    let ?r = "write_submessage body k (buf_ostream w l n None, x)"
    show "?r = Undef \<or> ?r = Diverge \<or> (\<forall>k'. Some k = Some k' \<longrightarrow> l < n + k')
        \<and> (\<exists>q e. ?r = Done (None, (buf_ostream (w @ q) l (n + length q) e, x)) \<and> n + length q \<le> l)"
    proof (cases "n + k \<le> l")
      case True
      have sub: "\<lparr> out_sink = BufSink w, max_size = k, bytes_written = 0, out_errmsg = None \<rparr>
          = buf_ostream w k 0 None"
        by (simp add: buf_ostream_def)
      have "?r = (case body (buf_ostream w k 0 None, x) of Undef \<Rightarrow> Undef | Diverge \<Rightarrow> Diverge | _ \<Rightarrow> ?r)"
        using True by (simp add: write_submessage_def sub Let_def split: outcome.splits)
      moreover from assms have "body (buf_ostream w k 0 None, x) = Undef \<or> body (buf_ostream w k 0 None, x) = Diverge"
        by (cases rule: faultyD [of body "Some k" 0 k w x]) auto
      ultimately show ?thesis by auto
    next
      case False
      then show ?thesis using n
        by (intro disjI2 conjI exI [of _ "[]"])
          (auto simp add: write_submessage_def enc_fail_def on_ostream_def PB_RETURN_OERROR_def buf_ostream_def)
    qed
  qed
qed

lemma encoder_submessage [encoder_intros]:
  assumes "encoder (sub fs src)"
  shows "encoder (pb_encode_submessage sub fs src)"
  using assms
proof (cases rule: encoder_cases)
  case (bytes out)
  then show ?thesis using pb_encode_submessage_encoding by blast
next
  case (fruitless c)
  then have sz: "sizes (sub fs src) c" and f: "faulty (sub fs src) c" by (simp_all add: fruitless_def)
  show ?thesis
  proof (cases c)
    case None
    have "fruitless (pb_encode_submessage sub fs src) None"
    proof (rule fruitless_errmsg)
      fix st x
      have "sub fs src (PB_OSTREAM_SIZING, x) = Undef \<or> sub fs src (PB_OSTREAM_SIZING, x) = Diverge
          \<or> (\<exists>st'. is_sizing (out_sink st') \<and> sub fs src (PB_OSTREAM_SIZING, x) = Done (None, (st', x)))"
        using sz None by (simp add: sizes_def)
      then show "pb_encode_submessage sub fs src (st, x) = Undef \<or> pb_encode_submessage sub fs src (st, x) = Diverge
          \<or> (\<exists>e. pb_encode_submessage sub fs src (st, x) = Done (None, (st\<lparr> out_errmsg := e \<rparr>, x)))"
        by (auto simp: pb_encode_submessage_def)
    qed
    then show ?thesis by blast
  next
    case (Some k)
    have "pb_encode_submessage sub fs src = pbind (on_ostream (pb_encode_varint (word_of_nat k)))
        (\<lambda>_. write_submessage (sub fs src) k)"
      by (rule ext) (simp add: pb_encode_submessage_def sizesD [OF sz [unfolded Some]] Let_def)
    then show ?thesis
      using encoder_pbind [OF encoder_varint encoderI(2) [OF write_submessage_faulty [OF f [unfolded Some]]]]
      by simp
  qed
qed

section \<open>Arrays\<close>

text \<open>
  Items of a fixed size: each is written, or its pointer is null. The sizing pass
  of a packed array of such items does not look at them.
\<close>

lemma faulty_mono: "faulty p (Some k) \<Longrightarrow> faulty p None"
  unfolding faulty_def by auto

lemma fixed_items:
  assumes "\<And>p. (\<exists>out. length out = sz \<and> encoding (item p) out) \<or> faulty (item p) (Some sz)"
  shows "(\<exists>out. length out = sz * k \<and> encoding (items_loop k item step p) out)
    \<or> faulty (items_loop k item step p) (Some (sz * k))"
proof (induction k arbitrary: p)
  case 0
  have "encoding (items_loop 0 item step p) []" by (simp add: encoding_preturn)
  then show ?case by (intro disjI1 exI [of _ "[]"]) simp
next
  case (Suc k)
  let ?rest = "items_loop k item step (p + int step)"
  from assms [of p] show ?case
  proof
    assume "\<exists>out. length out = sz \<and> encoding (item p) out"
    then obtain a where a: "length a = sz" "encoding (item p) a" by blast
    from Suc.IH [of "p + int step"] show ?thesis
    proof
      assume "\<exists>out. length out = sz * k \<and> encoding ?rest out"
      then obtain b where "length b = sz * k" "encoding ?rest b" by blast
      then show ?thesis using a encoding_pbind [OF a(2)]
        by (intro disjI1 exI [of _ "a @ b"]) auto
    next
      assume "faulty ?rest (Some (sz * k))"
      then show ?thesis using a faulty_pbind2 [OF a(2), of ?rest "Some (sz * k)"]
        by (intro disjI2) simp
    qed
  next
    assume "faulty (item p) (Some sz)"
    then show ?thesis using faulty_pbind1 [of "item p" "Some sz" "\<lambda>_. ?rest" "Some (sz * k)"]
      by (intro disjI2) simp
  qed
qed

lemma faulty_pundef: "faulty pundef c"
  by (simp add: faulty_def pundef_def)

lemma enc_fixed32_item:
  "(\<exists>out. length out = 4 \<and> encoding (pb_enc_fixed32 m f p) out) \<or> faulty (pb_enc_fixed32 m f p) (Some 4)"
proof (cases "p = 0")
  case True
  then show ?thesis by (simp add: pb_enc_fixed32_def faulty_pundef)
next
  case False
  then show ?thesis
    by (intro disjI1 exI [of _ "bytes_of_word32 (word_of_nat (load_nat p 4 m))"] conjI)
      (simp_all add: pb_enc_fixed32_def pb_encode_fixed32_def encoding_on_ostream [OF emitter_write] bytes_of_word32_def)
qed

lemma enc_fixed64_item:
  "(\<exists>out. length out = 8 \<and> encoding (pb_enc_fixed64 m f p) out) \<or> faulty (pb_enc_fixed64 m f p) (Some 8)"
proof (cases "p = 0")
  case True
  then show ?thesis by (simp add: pb_enc_fixed64_def faulty_pundef)
next
  case False
  then show ?thesis
    by (intro disjI1 exI [of _ "bytes_of_word64 (word_of_nat (load_nat p 8 m))"] conjI)
      (simp_all add: pb_enc_fixed64_def pb_encode_fixed64_def encoding_on_ostream [OF emitter_write] bytes_of_word64_def)
qed

lemma items_or_size_encoding:
  assumes "encoding items out" and "length out = sz"
  shows "encoding (items_or_size sz items) out"
proof (rule encoding.intro)
  fix n l :: nat and w x
  show "is_sizing (out_sink st) \<Longrightarrow> items_or_size sz items (st, x)
      = Done (Some (), (st\<lparr>bytes_written := bytes_written st + length out\<rparr>, x))" for st x
    using assms(2) by (simp add: items_or_size_def on_ostream_def pb_write_null_def)
  show "n + length out \<le> l \<Longrightarrow> items_or_size sz items (buf_ostream w l n None, x)
      = Done (Some (), (buf_ostream (w @ out) l (n + length out) None, x))"
    by (simp add: items_or_size_def encoding.writes [OF assms(1)])
  assume "n \<le> l" "l < n + length out"
  from encoding.overflows [OF assms(1) this, of w x]
  show "\<exists>q e. items_or_size sz items (buf_ostream w l n None, x)
      = Done (None, (buf_ostream (w @ q) l (n + length q) e, x)) \<and> n + length q \<le> l"
    by (simp add: items_or_size_def)
qed

lemma items_or_size_faulty:
  assumes "faulty items (Some sz)"
  shows "fruitless (items_or_size sz items) (Some sz)"
  using assms
  by (simp add: fruitless_def sizes_def faulty_def items_or_size_def on_ostream_def pb_write_null_def)

lemma encoder_items_or_size:
  assumes "(\<exists>out. length out = sz \<and> encoding items out) \<or> faulty items (Some sz)"
  shows "encoder (pbind (on_ostream (pb_encode_varint (word_of_nat sz))) (\<lambda>_. items_or_size sz items))"
proof (rule encoder_pbind [OF encoder_varint])
  show "encoder (items_or_size sz items)"
    using assms items_or_size_encoding items_or_size_faulty by blast
qed

lemma encoder_with_size:
  assumes "encoder items"
    and "\<And>sz. (\<exists>out. length out = sz \<and> encoding items out) \<or> faulty items (Some sz) \<Longrightarrow> encoder (finish sz)"
  shows "encoder (with_size items finish)"
proof -
  have known: "with_size items finish = finish k" if "sizes items (Some k)" for k
    by (rule ext) (simp add: with_size_def sizesD [OF that])
  from assms(1) show ?thesis
  proof (cases rule: encoder_cases)
    case (bytes out)
    then show ?thesis using assms(2) [of "length out"] by (auto simp: known [OF encoding_sizes [OF bytes]])
  next
    case (fruitless c)
    then have sz: "sizes items c" and f: "faulty items c" by (simp_all add: fruitless_def)
    show ?thesis
    proof (cases c)
      case (Some k)
      then show ?thesis using assms(2) f known sz by simp
    next
      case None
      have "fruitless (with_size items finish) None"
      proof (rule fruitless_errmsg)
        fix st x
        have "items (PB_OSTREAM_SIZING, x) = Undef \<or> items (PB_OSTREAM_SIZING, x) = Diverge
            \<or> (\<exists>st'. is_sizing (out_sink st') \<and> items (PB_OSTREAM_SIZING, x) = Done (None, (st', x)))"
          using sz None by (simp add: sizes_def)
        then show "with_size items finish (st, x) = Undef \<or> with_size items finish (st, x) = Diverge
            \<or> (\<exists>e. with_size items finish (st, x) = Done (None, (st\<lparr> out_errmsg := e \<rparr>, x)))"
          by (auto simp: with_size_def intro: exI [of _ "out_errmsg st"])
      qed
      then show ?thesis by blast
    qed
  qed
qed

lemma encoder_enc_varint [encoder_intros]: "encoder (pb_enc_varint m f p)"
  by (auto simp: pb_enc_varint_def split: option.splits intro: encoder_intros)

lemma encoder_enc_uvarint [encoder_intros]: "encoder (pb_enc_uvarint m f p)"
  by (auto simp: pb_enc_uvarint_def split: option.splits intro: encoder_intros)

lemma encoder_enc_svarint [encoder_intros]: "encoder (pb_enc_svarint m f p)"
  by (auto simp: pb_enc_svarint_def split: option.splits intro: encoder_intros)

lemma encoder_enc_fixed32 [encoder_intros]: "encoder (pb_enc_fixed32 m f p)"
  unfolding pb_enc_fixed32_def by (intro encoder_intros)

lemma encoder_enc_fixed64 [encoder_intros]: "encoder (pb_enc_fixed64 m f p)"
  unfolding pb_enc_fixed64_def by (intro encoder_intros)

lemma encoder_enc_bytes [encoder_intros]: "encoder (pb_enc_bytes m f p)"
  unfolding pb_enc_bytes_def Let_def by (intro encoder_intros)

lemma encoder_enc_string [encoder_intros]: "encoder (pb_enc_string m f p)"
  unfolding pb_enc_string_def Let_def by (intro encoder_intros)

lemma fruitless_write_from_null: "fruitless (write_from_null count) (Some count)"
proof -
  have "sizes (write_from_null count) (Some count)"
    by (simp add: sizes_def write_from_null_def Let_def on_ostream_def pb_write_null_def)
  moreover have "faulty (write_from_null count) (Some count)"
    unfolding faulty_def
  proof (intro allI impI)
    fix w n x and l :: nat
    assume "n \<le> l"
    then show "write_from_null count (buf_ostream w l n None, x) = Undef \<or> write_from_null count (buf_ostream w l n None, x) = Diverge
      \<or> (\<forall>k. Some count = Some k \<longrightarrow> l < n + k)
        \<and> (\<exists>q e. write_from_null count (buf_ostream w l n None, x) = Done (None, (buf_ostream (w @ q) l (n + length q) e, x))
             \<and> n + length q \<le> l)"
      by (auto simp: write_from_null_def Let_def enc_fail_def on_ostream_def PB_RETURN_OERROR_def buf_ostream_def intro!: exI [of _ "[]"])
  qed
  ultimately show ?thesis by (simp add: fruitless_def)
qed

lemma encoder_write_from_null [encoder_intros]: "encoder (write_from_null count)"
  using fruitless_write_from_null by blast

lemma encoder_enc_fixed_length_bytes [encoder_intros]: "encoder (pb_enc_fixed_length_bytes m f p)"
  unfolding pb_enc_fixed_length_bytes_def by (intro encoder_intros)

section \<open>Fields\<close>

lemma encoder_enc_submessage [encoder_intros]:
  "(\<And>fs src. encoder (sub fs src)) \<Longrightarrow> encoder (pb_enc_submessage sub f p)"
  by (auto simp: pb_enc_submessage_def split: pb_field_ptr.splits intro: encoder_intros)

lemma encoder_PB_ENCODERS [encoder_intros]:
  "(\<And>fs src. encoder (sub fs src)) \<Longrightarrow> encoder (PB_ENCODERS m sub lt f p)"
  by (cases lt) (auto simp: PB_ENCODERS_def intro: encoder_intros)

lemma encoder_packed [encoder_intros]:
  assumes "\<And>fs src. encoder (sub fs src)"
  shows "encoder (encode_packed f pData count (PB_ENCODERS m sub (PB_LTYPE (ftype f))))"
proof -
  let ?items = "items_loop count (PB_ENCODERS m sub (PB_LTYPE (ftype f)) f) (data_size f) pData"
  have items: "encoder ?items" by (intro encoder_intros assms)
  have f32: "PB_LTYPE (ftype f) = PB_LTYPE_FIXED32 \<Longrightarrow>
      (\<exists>out. length out = 4 * count \<and> encoding ?items out) \<or> faulty ?items (Some (4 * count))"
    by (rule fixed_items) (simp add: PB_ENCODERS_def enc_fixed32_item)
  have f64: "PB_LTYPE (ftype f) = PB_LTYPE_FIXED64 \<Longrightarrow>
      (\<exists>out. length out = 8 * count \<and> encoding ?items out) \<or> faulty ?items (Some (8 * count))"
    by (rule fixed_items) (simp add: PB_ENCODERS_def enc_fixed64_item)
  show ?thesis
    unfolding encode_packed_def Let_def
    by (intro encoder_pbind encoder_tag encoder_if encoder_with_size items encoder_items_or_size f32 f64)
qed

lemma encoder_unpacked [encoder_intros]:
  assumes "\<And>p. encoder (func f p)"
  shows "encoder (encode_unpacked m f pData count func)"
  unfolding encode_unpacked_def by (intro encoder_intros assms)

lemma encoder_array [encoder_intros]:
  assumes "\<And>fs src. encoder (sub fs src)"
  shows "encoder (encode_array m f pData count (PB_ENCODERS m sub (PB_LTYPE (ftype f))))"
  unfolding encode_array_def by (intro encoder_intros assms)

lemma encoder_tag_and_value [encoder_intros]:
  "encoder (func f p) \<Longrightarrow> encoder (tag_and_value f p func)"
  unfolding tag_and_value_def by (intro encoder_intros)

lemma encoder_case_outcome:
  "(\<And>x. encoder (f x)) \<Longrightarrow>
     encoder (case r of Done x \<Rightarrow> f x | Undef \<Rightarrow> pundef | Diverge \<Rightarrow> pdiverge)"
  by (cases r) (simp_all add: encoder_pundef encoder_pdiverge)

lemma encoder_case_htype:
  "encoder a \<Longrightarrow> encoder b \<Longrightarrow> encoder c \<Longrightarrow> encoder d \<Longrightarrow>
     encoder (case h of PB_HTYPE_REQUIRED \<Rightarrow> a | PB_HTYPE_OPTIONAL \<Rightarrow> b
       | PB_HTYPE_REPEATED \<Rightarrow> c | PB_HTYPE_ONEOF \<Rightarrow> d)"
  by (cases h) simp_all

lemma encoder_basic_field [encoder_intros]:
  assumes "\<And>fs src. encoder (sub fs src)"
  shows "encoder (encode_basic_field n m sub f pData)"
  unfolding encode_basic_field_def Let_def
  by (intro encoder_if encoder_case_outcome encoder_case_htype encoder_preturn encoder_pundef encoder_enc_fail
      encoder_array encoder_tag_and_value encoder_PB_ENCODERS assms)

lemma encoder_on_fail:
  fixes p :: "(unit, ('u, 'w) estate) proc"
  assumes "encoder p"
  shows "encoder (\<lambda>s. case p s of Done (None, s') \<Rightarrow> enc_fail msg s' | r \<Rightarrow> r)" (is "encoder ?q")
  using assms
proof (cases rule: encoder_cases)
  case (bytes out)
  have "encoding ?q out"
  proof (rule encoding.intro)
    fix n l :: nat and w x
    show "is_sizing (out_sink st) \<Longrightarrow> ?q (st, x)
        = Done (Some (), (st\<lparr>bytes_written := bytes_written st + length out\<rparr>, x))" for st x
      by (simp add: encoding.counts [OF bytes])
    show "n + length out \<le> l \<Longrightarrow> ?q (buf_ostream w l n None, x)
        = Done (Some (), (buf_ostream (w @ out) l (n + length out) None, x))"
      by (simp add: encoding.writes [OF bytes])
    assume "n \<le> l" "l < n + length out"
    then show "\<exists>q e. ?q (buf_ostream w l n None, x) = Done (None, (buf_ostream (w @ q) l (n + length q) e, x))
        \<and> n + length q \<le> l"
      using encoding.overflows [OF bytes, of n l w x]
      by (auto simp: enc_fail_def on_ostream_def PB_RETURN_OERROR_def buf_ostream_def)
  qed
  then show ?thesis by blast
next
  case (fruitless c)
  have "sizes ?q c"
    unfolding sizes_def
  proof (intro allI impI)
    fix st :: "'u ostream" and x :: 'w
    assume "is_sizing (out_sink st)"
    show "case c of
        Some k \<Rightarrow> ?q (st, x) = Done (Some (), (st\<lparr>bytes_written := bytes_written st + k\<rparr>, x))
      | None \<Rightarrow> ?q (st, x) = Undef \<or> ?q (st, x) = Diverge
        \<or> (\<exists>st'. is_sizing (out_sink st') \<and> ?q (st, x) = Done (None, (st', x)))"
    proof (cases c)
      case None
      with fruitless \<open>is_sizing (out_sink st)\<close> have "p (st, x) = Undef \<or> p (st, x) = Diverge
          \<or> (\<exists>st'. is_sizing (out_sink st') \<and> p (st, x) = Done (None, (st', x)))"
        by (simp add: fruitless_def sizes_def)
      then show ?thesis using None by (auto simp: enc_fail_def on_ostream_def PB_RETURN_OERROR_def)
    next
      case (Some k)
      with fruitless have "sizes p (Some k)" by (simp add: fruitless_def)
      then show ?thesis using Some sizesD [OF _ \<open>is_sizing (out_sink st)\<close>, of p k x] by simp
    qed
  qed
  moreover have "faulty ?q c"
    unfolding faulty_def
  proof (intro allI impI)
    fix w x n and l :: nat
    assume n: "n \<le> l"
    from fruitless have "faulty p c" by (simp add: fruitless_def)
    from this n show "?q (buf_ostream w l n None, x) = Undef \<or> ?q (buf_ostream w l n None, x) = Diverge
      \<or> (\<forall>k. c = Some k \<longrightarrow> l < n + k)
        \<and> (\<exists>q e. ?q (buf_ostream w l n None, x) = Done (None, (buf_ostream (w @ q) l (n + length q) e, x))
             \<and> n + length q \<le> l)"
    proof (cases rule: faultyD [of p c n l w x])
      case (fail q e)
      then show ?thesis
        by (auto simp: enc_fail_def on_ostream_def PB_RETURN_OERROR_def buf_ostream_def)
    qed simp_all
  qed
  ultimately show ?thesis by (auto simp: fruitless_def)
qed

section \<open>Messages\<close>

text \<open>The user's functions are of one of the two kinds.\<close>

definition enc_env_ok :: "('u, 'w) enc_env \<Rightarrow> bool" where
  "enc_env_ok env \<longleftrightarrow> (\<forall>funcs f arg. encoder (ee_callback env funcs f arg))
     \<and> (\<forall>t. case ee_ext_encode env t of None \<Rightarrow> True | Some encode \<Rightarrow> \<forall>ext. encoder (encode ext))"

lemma encoder_callback_field [encoder_intros]:
  "enc_env_ok env \<Longrightarrow> encoder (encode_callback_field env f pData)"
  unfolding encode_callback_field_def Let_def
  by (intro encoder_if encoder_preturn encoder_on_fail) (simp add: enc_env_ok_def)

lemma encoder_field [encoder_intros]:
  assumes "enc_env_ok env" and "\<And>fs src. encoder (sub fs src)"
  shows "encoder (encode_field n env sub f pData)"
  unfolding encode_field_def
  by (cases "PB_ATYPE (ftype f)")
    (auto intro: encoder_basic_field encoder_callback_field encoder_enc_fail assms)

lemma encoder_default_extension [encoder_intros]:
  assumes "enc_env_ok env" and "\<And>fs src. encoder (sub fs src)"
  shows "encoder (default_extension_encoder n env sub ext)"
  unfolding default_extension_encoder_def Let_def by (intro encoder_intros assms)

lemma encoder_extension_loop [encoder_intros]:
  "(\<And>ext. encoder (handler ext)) \<Longrightarrow> encoder (encode_extension_loop k m handler ext)"
  by (induction k arbitrary: ext) (auto intro: encoder_intros)

lemma encoder_extension_field [encoder_intros]:
  assumes "enc_env_ok env" and "\<And>fs src. encoder (sub fs src)"
  shows "encoder (encode_extension_field n env sub f pData)"
  unfolding encode_extension_field_def
proof (rule encoder_extension_loop)
  fix ext
  show "encoder (case ee_ext_encode env (ext_type ext (ee_mem env)) of
      Some encode \<Rightarrow> encode ext | None \<Rightarrow> default_extension_encoder n env sub ext)"
    using assms(1) by (auto simp: enc_env_ok_def split: option.splits intro: encoder_default_extension assms)
qed

lemma encoder_loop [encoder_intros]:
  "(\<And>it. encoder (one it)) \<Longrightarrow> encoder (encode_loop k one it)"
proof (induction k arbitrary: it)
  case (Suc k)
  have "encoder (case pb_field_iter_next it of (True, it') \<Rightarrow> encode_loop k one it' | (False, _) \<Rightarrow> preturn ())"
    using Suc.IH [OF Suc.prems] by (auto intro: encoder_preturn split: prod.splits bool.splits)
  then show ?case unfolding encode_loop.simps by (intro encoder_pbind Suc.prems)
qed (simp add: encoder_pdiverge)

lemma encoder_message [encoder_intros]:
  assumes "enc_env_ok env" and "\<And>fs src. encoder (sub fs src)"
  shows "encoder (encode_message n env sub fs src)"
proof -
  have "encoder (encode_one n env sub it)" for it
    unfolding encode_one_def by (intro encoder_intros assms)
  then show ?thesis
    unfolding encode_message_def iter_begin_eq
    by (auto simp del: encode_loop.simps intro: encoder_intros split: bool.splits)
qed

lemma encoder_pb_encode [encoder_intros]:
  assumes "enc_env_ok env"
  shows "encoder (pb_encode n env fs src)"
proof (induction n arbitrary: fs src)
  case (Suc n)
  then show ?case by (simp add: encoder_message [OF assms])
qed (simp add: encoder_pdiverge)

lemma encoder_pb_encode_delimited:
  "enc_env_ok env \<Longrightarrow> encoder (pb_encode_delimited n env fs src)"
  unfolding pb_encode_delimited_def by (intro encoder_intros)

interpretation varint_encoding: encoding "on_ostream (pb_encode_varint v)" "varint_bytes (unat v)" for v
  by (rule encoding_varint)

end
