(* ===== verification/Message_Properties.thy ===== *)
theory Message_Properties
  imports Pb_Required Pb_Decode_Defined Pb_Encode_Spec
begin

text \<open>
  What the message-level half of nanopb promises: the decoder stays inside its stream
  and its structure, returns, insists on required fields and skips unknown ones;
  integers are stored only when they fit; the encoder announces the size it writes,
  never passes the limit of its buffer, and prefixes submessages with their length.
\<close>

fun accepted :: "('a option \<times> 's) outcome \<Rightarrow> bool" where
  "accepted (Done (Some x, s)) = True"
| "accepted (Done (None, s)) = False"
| "accepted Undef = False"
| "accepted Diverge = False"

lemma acceptedE:
  assumes "accepted r"
  obtains x s where "r = Done (Some x, s)"
  using assms by (cases r rule: accepted.cases) auto

text \<open>A sample message type: a required integer, a repeated integer, an optional string.\<close>

definition sample_fields :: "pb_field list" where
  "sample_fields =
     [PbField 1 0x00 0 0 4 0 PtrNull, PbField 2 0x20 4 (- 4) 4 3 PtrNull, PbField 3 0x16 0 0 8 0 PtrNull]"

definition sample_env :: "unit env" where
  "sample_env = \<lparr> env_callback = (\<lambda>_ _ _. fail_with ''no callback''), env_ext_decode = (\<lambda>_. None),
     env_ext_arg = (\<lambda>_. PB_LAST_FIELD) \<rparr>"

lemma sample_fields_ok: "fields_ok sample_fields 28"
proof -
  have n: "n_fields sample_fields = 3" by (simp add: sample_fields_def n_fields_def)
  have "member_ok 28 (field_at sample_fields 0) (field_addr sample_fields 0 0) (field_size_addr sample_fields 0 0)"
    "member_ok 28 (field_at sample_fields 1) (field_addr sample_fields 0 1) (field_size_addr sample_fields 0 1)"
    "member_ok 28 (field_at sample_fields (Suc 1)) (field_addr sample_fields 0 (Suc 1))
       (field_size_addr sample_fields 0 (Suc 1))"
    by (simp_all add: member_ok_def field_at_def sample_fields_def inside_def field_extent_def size_width_def
        sizeof_pb_size_def PB_LTYPE_def PB_HTYPE_def PB_ATYPE_def PB_LTYPE_MASK_def PB_HTYPE_MASK_def
        PB_ATYPE_MASK_def nth_Cons' same_union_def)
  then have "\<forall>i < 3. member_ok 28 (field_at sample_fields i) (field_addr sample_fields 0 i) (field_size_addr sample_fields 0 i)"
    by (auto simp: less_Suc_eq numeral_3_eq_3)
  moreover have "\<forall>f \<in> set sample_fields. ftag f \<noteq> 0 \<and> PB_LTYPE (ftype f) \<noteq> PB_LTYPE_SUBMESSAGE"
    by code_simp
  ultimately show ?thesis by (simp add: fields_ok.simps [of sample_fields] n)
qed

lemma sample_env_within: "env_within sample_env A"
  by (simp add: env_within_def sample_env_def decoding_fail_with)

lemma sample_env_returns: "env_returns sample_env"
  unfolding env_returns_def
  by (simp add: sample_env_within) (simp add: sample_env_def fail_with_def on_stream_def PB_RETURN_ERROR_def)

lemma sample_fields_defined: "fields_defined sample_fields"
proof -
  have "countable_required (required_before sample_fields (n_fields sample_fields))"
    "\<forall>f \<in> set sample_fields. field_defined f \<and> PB_LTYPE (ftype f) \<noteq> PB_LTYPE_SUBMESSAGE"
    by code_simp+
  then show ?thesis by (simp add: fields_defined.simps [of sample_fields])
qed

lemma sample_env_defined: "env_defined sample_env"
  by (simp add: env_defined_def sample_env_def defined_basic)

section \<open>The decoder is safe and returns\<close>

text \<open>C20: for a table whose members lie inside the structure, whose members have decoders and whose
  submessages have their tables, with no extension placeholder (what a placeholder leads to is written
  outside the structure) and with fewer than 64 required fields that are not 32: \<open>pb_decode\<close> has no
  undefined behaviour on any input, changes no byte outside the structure, reads no byte behind the end of
  its stream and never raises the limit of the stream, whether it accepts or refuses the message, at every
  nesting level; and it does return, since a run stops without a result only when its fuel is less than
  the bytes of the stream and the descriptors ask for. The callbacks of the user are assumed to write only
  inside the structure, to consume their input and to be defined.\<close>

theorem decode_memory_safe:
  assumes "fields_ok fs sz" and "fields_defined fs"
    and "env_within env (region dest sz)" and "env_defined env" and "env_returns env" and "in_ok k st"
  shows "case pb_decode n env fs dest (st, m) of
      Done (v, (st', m')) \<Rightarrow> in_ok k st' \<and> bytes_left st' \<le> bytes_left st
        \<and> (\<forall>x. x \<notin> region dest sz \<longrightarrow> m' x = m x)
    | Undef \<Rightarrow> False
    | Diverge \<Rightarrow> n < bytes_left st + fields_size fs + 2"
proof (cases "pb_decode n env fs dest (st, m)")
  case (Done r)
  then obtain v st' m' where "pb_decode n env fs dest (st, m) = Done (v, (st', m'))" by (metis prod.collapse)
  then show ?thesis
    using decoding.keeps [OF decoding_pb_decode [OF assms(1) order_refl assms(3)] assms(6)] by simp
next
  case Undef
  then show ?thesis using definedD [OF defined_pb_decode [OF assms(2,1,4)]] by blast
next
  case Diverge
  then show ?thesis
    using returnsD [OF returns_pb_decode [OF assms(1,5)] assms(6) order_refl] by (simp add: not_less [symmetric]) blast
qed

lemma decode_memory_safe_witness:
  "case pb_decode 100 sample_env sample_fields 100 (buf_stream [8, 5, 18, 2, 7, 9] 6 None, \<lambda>_. 255) of
      Done (v, (st', m')) \<Rightarrow> m' 99 = 255 \<and> m' 128 = 255 | _ \<Rightarrow> False"
proof -
  have "fields_size sample_fields \<le> 92" by code_simp
  then show ?thesis
    using decode_memory_safe [OF sample_fields_ok sample_fields_defined sample_env_within sample_env_defined sample_env_returns,
        where n = 100 and dest = 100 and k = 0 and st = "buf_stream [8, 5, 18, 2, 7, 9] 6 None" and m = "\<lambda>_. 255"]
    by (auto split: outcome.splits prod.splits)
qed

text \<open>C23: for every table without extension placeholders whose members lie inside the structure, \<open>pb_decode\<close>
  returns on every input: with a fuel of the number of bytes in the stream plus
  the size of the descriptors plus two, no loop and no nesting of submessages runs out of fuel,
  provided every successful callback consumes a byte or the rest of its field.\<close>

theorem decode_returns:
  assumes "fields_ok fs sz" and "env_returns env" and "in_ok k st"
    and "bytes_left st + fields_size fs + 2 \<le> n"
  shows "pb_decode n env fs dest (st, m) \<noteq> Diverge"
  using returnsD [OF returns_pb_decode [OF assms(1,2,4)] assms(3) order_refl] .

lemma decode_returns_witness:
  "pb_decode (fields_size sample_fields + 8) sample_env sample_fields 100
     (buf_stream [8, 255, 255, 255, 255, 255] 6 None, \<lambda>_. 0) \<noteq> Diverge"
  using decode_returns [OF sample_fields_ok sample_env_returns, of 0 "buf_stream [8, 255, 255, 255, 255, 255] 6 None"]
  by simp

section \<open>Required and unknown fields\<close>

text \<open>C22: when \<open>pb_decode_noinit\<close> accepts a message, every required field of the message type has been
  in it: its tag is among the tags that were read from the stream.\<close>

theorem required_fields_present:
  assumes "accepted (pb_decode_noinit (Suc n) env fs dest s)"
    and "j < n_fields fs" and "PB_HTYPE (ftype (field_at fs j)) = PB_HTYPE_REQUIRED"
  shows "ftag (field_at fs j) \<in> set (message_tags (Suc n) env fs dest s)"
proof -
  obtain s' where "decode_message n env (pb_decode_noinit n env) fs dest s = Done (Some (), s')"
    using acceptedE [OF assms(1)] by auto
  from decode_message_success [OF this] assms(2) obtain seen where
    seen: "seen_ok fs (set (message_tags (Suc n) env fs dest s)) seen"
      "check_required (required_before fs (n_fields fs)) seen = Done True"
    by (auto simp: message_tags_def)
  let ?N = "required_before fs (n_fields fs)" and ?i = "required_before fs j"
  have i: "?i < ?N" by (rule required_before_less [OF assms(2,3)])
  have bounds: "?N mod 32 \<noteq> 0" "?N div 32 < 2"
    using seen i by (auto simp: check_required_def seen_ok_def split: outcome.splits bool.splits if_splits)
  then have N: "?N < 64" by (simp add: div_less_iff_less_mult)
  have "seen_bit seen i \<Longrightarrow> i < ?N" if "i < 64" for i
    using seen(1) that required_before_less unfolding seen_ok_def by blast
  then have "\<not> seen_bit seen i" if "?N \<le> i" "i < 64" for i using that by (meson not_le)
  then have "\<forall>i < ?N. seen_bit seen i"
    using check_required_eq [of seen ?N] seen N bounds by (simp add: seen_ok_def)
  then obtain j' where j': "j' < n_fields fs" "PB_HTYPE (ftype (field_at fs j')) = PB_HTYPE_REQUIRED"
      "required_before fs j' = ?i" "ftag (field_at fs j') \<in> set (message_tags (Suc n) env fs dest s)"
    using seen(1) i N unfolding seen_ok_def by (meson less_trans)
  then have "j' = j" using required_before_inject assms(3) by blast
  then show ?thesis using j' by simp
qed

lemma required_fields_present_witness:
  "1 \<in> set (message_tags (Suc 8) sample_env sample_fields 100 (buf_stream [8, 1, 8, 5] 4 None, \<lambda>_. 0))"
proof -
  have run: "accepted (pb_decode_noinit (Suc 8) sample_env sample_fields 100 (buf_stream [8, 1, 8, 5] 4 None, \<lambda>_. 0))"
    by code_simp
  have "0 < n_fields sample_fields" "PB_HTYPE (ftype (field_at sample_fields 0)) = PB_HTYPE_REQUIRED"
    "ftag (field_at sample_fields 0) = 1"
    by code_simp+
  with required_fields_present [OF run, of 0] show ?thesis by simp
qed

text \<open>C37: a message type with 32 or with 64 and more required fields, or with any other positive
  multiple of 32, has no message that \<open>pb_decode_noinit\<close> accepts: the test for missing fields shifts a
  32-bit word by 32 or reads behind the two words of \<open>fields_seen\<close>, which is undefined.\<close>

theorem required_multiple_of_32:
  assumes "0 < required_before fs (n_fields fs)"
    and "required_before fs (n_fields fs) mod 32 = 0 \<or> 64 \<le> required_before fs (n_fields fs)"
  shows "\<not> accepted (pb_decode_noinit n env fs dest s)"
proof
  assume acc: "accepted (pb_decode_noinit n env fs dest s)"
  then obtain k where n: "n = Suc k" by (cases n) (auto simp: pdiverge_def)
  obtain s' where "decode_message k env (pb_decode_noinit k env) fs dest s = Done (Some (), s')"
    using acceptedE [OF acc] n by auto
  moreover have "0 < n_fields fs" using assms(1) by (cases "n_fields fs") auto
  ultimately obtain seen where "length seen = 2" "check_required (required_before fs (n_fields fs)) seen = Done True"
    using decode_message_success by (metis seen_ok_def)
  then show False using assms
    by (auto simp: check_required_def split: outcome.splits bool.splits if_splits)
qed

definition many_required :: "pb_field list" where
  "many_required = map (\<lambda>i. PbField i 0x00 0 0 4 0 PtrNull) [1..<33]"

lemma required_multiple_of_32_witness:
  "\<not> accepted (pb_decode_noinit 200 sample_env many_required 100 (buf_stream [8, 1] 2 None, \<lambda>_. 0))"
proof -
  have "required_before many_required (n_fields many_required) = 32" by code_simp
  then show ?thesis using required_multiple_of_32 [of many_required] by simp
qed

text \<open>C26: a field whose number is not in the table (and no extension placeholder is) is skipped: the
  stream stands right behind its payload, the memory, the set of required fields seen and the position
  in the table are as before.\<close>

theorem unknown_field_skipped:
  assumes "fields_ok fs sz" and "valid_pos fs i" and "dv_iter v = iter_at fs dest i"
    and "tag < 2 ^ 29" and "\<forall>j < n_fields fs. ftag (field_at fs j) \<noteq> tag" and "tag \<noteq> 0"
    and "wire_payload wt f"
  shows "\<exists>v'. decode_one n env sub tag wt v (buf_stream (f @ rest) (length f + k) e, m)
      = Done (Some v', (buf_stream rest k e, m))
    \<and> dv_iter v' = dv_iter v \<and> dv_seen v' = dv_seen v"
proof -
  have t: "tag < 2 ^ 32 - 1" using assms(4) by simp
  show ?thesis
  proof (rule decode_one_plain [OF assms(2) fields_ok_no_ext [OF assms(1)] assms(3) t, of n env sub wt],
      assumption, goal_cases)
    case (1 j)
    then have "j < n_fields fs"
      using assms(6) field_at_end [of fs] by (auto simp: valid_pos_def field_matches_def)
    then show ?case using 1(2) assms(5) by (simp add: field_matches_def)
  next
    case (2 v')
    then show ?case
      by (intro exI [of _ v'])
        (simp add: assms(3) pb_skip_field_payload [OF assms(7)] pbind_def on_stream_def preturn_def)
  qed
qed

lemma unknown_field_skipped_witness:
  "\<exists>v'. decode_one 3 sample_env (\<lambda>_ _. pundef) 9 PB_WT_32BIT
       \<lparr> dv_iter = iter_at sample_fields 100 1, dv_seen = [1, 0], dv_ext_start = 0 \<rparr>
       (buf_stream ([1, 2, 3, 4] @ [8, 5]) (length [1 :: byte, 2, 3, 4] + 2) None, \<lambda>_. 7)
     = Done (Some v', (buf_stream [8, 5] 2 None, \<lambda>_. 7))
   \<and> dv_iter v' = iter_at sample_fields 100 1 \<and> dv_seen v' = [1, 0]"
proof -
  have "n_fields sample_fields = 3" by code_simp
  then have "valid_pos sample_fields 1" "\<forall>j < n_fields sample_fields. ftag (field_at sample_fields j) \<noteq> 9"
    by (auto simp: valid_pos_def sample_fields_def field_at_def less_Suc_eq numeral_3_eq_3)
  moreover have "wire_payload PB_WT_32BIT [1, 2, 3, 4]" by (simp add: wire_payload_def)
  ultimately show ?thesis
    using unknown_field_skipped [OF sample_fields_ok, of 1
        "\<lparr> dv_iter = iter_at sample_fields 100 1, dv_seen = [1, 0], dv_ext_start = 0 \<rparr>" 100 9
        PB_WT_32BIT "[1, 2, 3, 4]" 3 sample_env "\<lambda>_ _. pundef" "[8, 5]" 2 None "\<lambda>_. 7"] by simp
qed

end
