(* ===== verification/Encode_Properties.thy ===== *)
theory Encode_Properties
  imports Pb_Encode_Spec Pb_Decode_Term
begin

text \<open>
  What the encoder promises: one message has one encoding, whose size
  \<open>pb_get_encoded_size\<close> announces; a buffer gets all of it or an error, and never
  more than its limit; submessages and delimited messages carry their length; the
  encoder returns. And where it deviates: the proto3 test for default values looks
  only at the first item of an array.
\<close>

section \<open>A sample message\<close>

text \<open>A required 32-bit integer of value 300 and a string \<^verbatim>\<open>"Hi"\<close> with its flag.\<close>

definition enc_sample_fields :: "pb_field list" where
  "enc_sample_fields = [PbField 1 0x00 0 0 4 0 PtrNull, PbField 2 0x16 1 (- 1) 4 0 PtrNull]"

definition enc_sample_env :: "(unit, unit) enc_env" where
  "enc_sample_env = \<lparr> ee_mem = store_bytes 8 [44, 1, 0, 0, 1, 72, 105, 0] (\<lambda>_. 0),
     ee_callback = (\<lambda>_ _ _. enc_fail ''no callback''), ee_ext_encode = (\<lambda>_. None),
     ee_ext_arg = (\<lambda>_. PB_LAST_FIELD) \<rparr>"

lemma enc_sample_env_ok: "enc_env_ok enc_sample_env"
  by (simp add: enc_env_ok_def enc_sample_env_def encoder_enc_fail)

text \<open>What a run has left in a buffer.\<close>

fun sent :: "(unit option \<times> ('u, unit) estate) outcome \<Rightarrow> (bool \<times> byte list \<times> nat \<times> nat \<times> string option) option" where
  "sent (Done (r, (st, x))) = (case out_sink st of
      BufSink w \<Rightarrow> Some (r \<noteq> None, w, max_size st, bytes_written st, out_errmsg st)
    | _ \<Rightarrow> None)"
| "sent Undef = None"
| "sent Diverge = None"

lemma sentD:
  assumes "sent r = Some (b, w, l, n, e)"
  shows "r = Done (if b then Some () else None, (buf_ostream w l n e, ()))"
  using assms by (cases r rule: sent.cases) (auto simp: buf_ostream_def not_Some_eq [symmetric] split: sink.splits)

lemma enc_sample_run:
  "pb_encode 3 enc_sample_env enc_sample_fields 8 (buf_ostream [] 9 0 None, ())
     = Done (Some (), (buf_ostream [8, 172, 2, 18, 2, 72, 105] 9 7 None, ()))"
proof -
  have "sent (pb_encode 3 enc_sample_env enc_sample_fields 8 (buf_ostream [] 9 0 None, ()))
      = Some (True, [8, 172, 2, 18, 2, 72, 105], 9, 7, None)" by code_simp
  from sentD [OF this] show ?thesis by simp
qed

lemma enc_sample_full:
  "sent (pb_encode 3 enc_sample_env enc_sample_fields 8 (buf_ostream [7] 6 1 None, ()))
     = Some (False, [7, 8, 172, 2, 18, 2], 6, 6, Some ''stream full'')"
  by code_simp

section \<open>Success and failure on a buffer\<close>

lemma encoder_success:
  assumes "encoder p" and "n \<le> l" and "p (buf_ostream w l n None, x) = Done (Some (), s')"
  obtains out where "encoding p out" "n + length out \<le> l"
    "s' = (buf_ostream (w @ out) l (n + length out) None, x)"
  using assms(1)
proof (cases rule: encoder_cases)
  case (bytes out)
  have "n + length out \<le> l"
    using encoding.overflows [OF bytes assms(2), of w x] assms(3) by (cases "n + length out \<le> l") auto
  then show thesis using that [OF bytes] encoding.writes [OF bytes, of n l w x] assms(3) by simp
next
  case (fruitless c)
  then have "faulty p c" by (simp add: fruitless_def)
  then show thesis
    by (cases rule: faultyD [OF _ assms(2), of p c w x]) (use assms(3) in auto)
qed

lemma encoder_stays_within:
  assumes "encoder p" and "n \<le> l" and "p (buf_ostream w l n None, x) = Done (r, (st', x'))"
  shows "\<exists>q e. st' = buf_ostream (w @ q) l (n + length q) e \<and> n + length q \<le> l \<and> x' = x"
  using assms(1)
proof (cases rule: encoder_cases)
  case (bytes out)
  show ?thesis
  proof (cases "n + length out \<le> l")
    case True
    then show ?thesis using encoding.writes [OF bytes True, of w x] assms(3) by auto
  next
    case False
    then show ?thesis using encoding.overflows [OF bytes assms(2), of w x] assms(3) by auto
  qed
next
  case (fruitless c)
  then have "faulty p c" by (simp add: fruitless_def)
  then show ?thesis
    by (cases rule: faultyD [OF _ assms(2), of p c w x]) (use assms(3) in auto)
qed

section \<open>Sizes and limits\<close>

text \<open>C21: one message has one encoding: when \<open>pb_encode\<close> succeeds on some buffer, the bytes it appends
  are those it appends to every buffer with room for them, and \<open>pb_get_encoded_size\<close> returns their
  number (for user callbacks that keep this contract themselves).\<close>

theorem encoded_size_exact:
  assumes "enc_env_ok env" and "n \<le> l"
    and "pb_encode k env fs src (buf_ostream w l n None, x) = Done (Some (), s')"
  shows "\<exists>out. s' = (buf_ostream (w @ out) l (n + length out) None, x)
    \<and> (\<forall>y. pb_get_encoded_size k env fs src y = Done (Some (length out), y))
    \<and> (\<forall>w' l' n' y. n' + length out \<le> l' \<longrightarrow>
        pb_encode k env fs src (buf_ostream w' l' n' None, y)
          = Done (Some (), (buf_ostream (w' @ out) l' (n' + length out) None, y)))"
proof -
  obtain out where out: "encoding (pb_encode k env fs src) out"
      "s' = (buf_ostream (w @ out) l (n + length out) None, x)"
    using encoder_success [OF encoder_pb_encode [OF assms(1)] assms(2,3)] by blast
  have "pb_get_encoded_size k env fs src y = Done (Some (length out), y)" for y
    by (simp add: pb_get_encoded_size_def encoding.counts [OF out(1)])
  then show ?thesis using encoding.writes [OF out(1)] out(2) by blast
qed

lemma encoded_size_exact_witness:
  "\<forall>y. \<exists>k. pb_get_encoded_size 3 enc_sample_env enc_sample_fields 8 y = Done (Some k, y)"
  using encoded_size_exact [OF enc_sample_env_ok _ enc_sample_run] by auto

text \<open>C24: \<open>pb_encode\<close> only appends to a buffer and never passes its limit, whether it succeeds or fails;
  \<open>bytes_written\<close> counts what it has appended. The callbacks of the user are assumed to keep the same contract.\<close>

theorem encode_stays_within:
  assumes "enc_env_ok env" and "n \<le> l"
    and "pb_encode k env fs src (buf_ostream w l n None, x) = Done (r, (st', x'))"
  shows "\<exists>q e. st' = buf_ostream (w @ q) l (n + length q) e \<and> n + length q \<le> l \<and> x' = x"
  by (rule encoder_stays_within [OF encoder_pb_encode [OF assms(1)] assms(2,3)])

lemma encode_stays_within_witness:
  "\<exists>q e. buf_ostream [7, 8, 172, 2, 18, 2] 6 6 (Some ''stream full'')
      = (buf_ostream ([7] @ q) 6 (1 + length q) e :: unit ostream) \<and> 1 + length q \<le> 6 \<and> () = ()"
proof -
  have "pb_encode 3 enc_sample_env enc_sample_fields 8 (buf_ostream [7] 6 1 None, ())
      = Done (None, (buf_ostream [7, 8, 172, 2, 18, 2] 6 6 (Some ''stream full''), ()))"
    using sentD [of "pb_encode 3 enc_sample_env enc_sample_fields 8 (buf_ostream [7] 6 1 None, ())"
      False "[7, 8, 172, 2, 18, 2]" 6 6 "Some ''stream full''"] enc_sample_full by simp
  from encode_stays_within [OF enc_sample_env_ok _ this] show ?thesis by simp
qed

text \<open>C25: when \<open>pb_encode\<close> turns a message into \<open>body\<close>, \<open>pb_encode_delimited\<close> writes the length of \<open>body\<close>
  as a varint and then \<open>body\<close>, to every buffer with room for both; and \<open>pb_make_string_substream\<close>
  cuts exactly \<open>body\<close> out of a stream that starts with these bytes.\<close>

theorem delimited_is_prefixed:
  assumes "enc_env_ok env" and "length body < 2 ^ 32"
    and "pb_encode k env fs src (buf_ostream [] l 0 None, x) = Done (Some (), (buf_ostream body l n None, x))"
    and "m + length (varint_bytes (length body)) + length body \<le> l'"
  shows "pb_encode_delimited k env fs src (buf_ostream w l' m None, y)
      = Done (Some (), (buf_ostream (w @ varint_bytes (length body) @ body) l'
          (m + length (varint_bytes (length body)) + length body) None, y))
    \<and> pb_make_string_substream (buf_stream (varint_bytes (length body) @ body @ rest)
        (length (varint_bytes (length body)) + length body + j) e)
      = (Some (buf_stream (body @ rest) (length body) e), buf_stream (body @ rest) j e)"
proof
  obtain out where "encoding (pb_encode k env fs src) out" "out = body"
    using encoder_success [OF encoder_pb_encode [OF assms(1)] _ assms(3)] by auto
  then have "encoding (pb_encode_delimited k env fs src) (varint_bytes (length body) @ body)"
    using pb_encode_submessage_encoding [of "pb_encode k env" fs src body] assms(2)
    by (simp add: pb_encode_delimited_def unat_of_nat take_bit_nat_eq_self)
  from encoding.writes [OF this, of m l' w y] assms(4)
  show "pb_encode_delimited k env fs src (buf_ostream w l' m None, y)
      = Done (Some (), (buf_ostream (w @ varint_bytes (length body) @ body) l'
          (m + length (varint_bytes (length body)) + length body) None, y))"
    by (simp add: add.assoc)
  have "length (varint_bytes (length body)) \<le> 5"
    using varint_bytes_length [of 5 "length body"] assms(2) by simp
  then show "pb_make_string_substream (buf_stream (varint_bytes (length body) @ body @ rest)
        (length (varint_bytes (length body)) + length body + j) e)
      = (Some (buf_stream (body @ rest) (length body) e), buf_stream (body @ rest) j e)"
    by (rule pb_make_string_substream_buf [OF varint_bytes_ok]) (use assms(2) in simp)
qed

lemma delimited_is_prefixed_witness:
  "pb_encode_delimited 3 enc_sample_env enc_sample_fields 8 (buf_ostream [255] 9 1 None, ())
     = Done (Some (), (buf_ostream [255, 7, 8, 172, 2, 18, 2, 72, 105] 9 9 None, ()))"
proof -
  have seven: "length [8 :: byte, 172, 2, 18, 2, 72, 105] = 7" and v: "varint_bytes 7 = [7]"
    by (simp_all add: varint_bytes.simps [of 7])
  show ?thesis
    using delimited_is_prefixed [OF enc_sample_env_ok _ enc_sample_run, THEN conjunct1, of 1 9 "[255]" "()"]
    unfolding seven v by simp
qed

section \<open>The test for default values\<close>

text \<open>
  A message with a submessage without \<^verbatim>\<open>has_\<close> flag, as proto3 calls for, which has a
  static array of up to three unsigned integers: \<^verbatim>\<open>{pb_size_t count; uint32_t items[3];}\<close>.
\<close>

definition proto3_inner :: "pb_field list" where
  "proto3_inner = [PbField 1 0x21 4 (- 4) 4 3 PtrNull]"

definition proto3_outer :: "pb_field list" where
  "proto3_outer = [PbField 1 0x17 0 0 16 0 (PtrFields proto3_inner)]"

lemma proto3_types:
  "PB_LTYPE 0x21 = PB_LTYPE_UVARINT" "PB_HTYPE 0x21 = PB_HTYPE_REPEATED" "PB_ATYPE 0x21 = PB_ATYPE_STATIC"
  "PB_LTYPE 0x17 = PB_LTYPE_SUBMESSAGE" "PB_HTYPE 0x17 = PB_HTYPE_OPTIONAL" "PB_ATYPE 0x17 = PB_ATYPE_STATIC"
  by (simp_all add: PB_LTYPE_def PB_HTYPE_def PB_ATYPE_def PB_LTYPE_MASK_def PB_HTYPE_MASK_def PB_ATYPE_MASK_def)

lemma le_value_zero: "le_value bs = 0 \<longleftrightarrow> all_zero bs"
  by (induction bs) (auto simp: all_zero_def unat_eq_0)

lemma proto3_tables: "n_fields proto3_inner = 1" "field_at proto3_inner 0 = PbField 1 0x21 4 (- 4) 4 3 PtrNull"
  "n_fields proto3_outer = 1" "field_at proto3_outer 0 = PbField 1 0x17 0 0 16 0 (PtrFields proto3_inner)"
  by (simp_all add: proto3_inner_def proto3_outer_def n_fields_def field_at_def)

lemma encoding_items:
  assumes "\<And>p. 0 < p \<Longrightarrow> \<exists>out. encoding (item p) out \<and> out \<noteq> []" and "0 < p"
  shows "\<exists>out. encoding (items_loop k item step p) out \<and> k \<le> length out"
  using assms(2)
proof (induction k arbitrary: p)
  case 0
  show ?case by (intro exI [of _ "[]"]) (simp add: encoding_preturn)
next
  case (Suc k)
  obtain a where a: "encoding (item p) a" "a \<noteq> []" using assms(1) Suc.prems by blast
  obtain b where b: "encoding (items_loop k item step (p + int step)) b" "k \<le> length b"
    using Suc.IH [of "p + int step"] Suc.prems by auto
  from a(2) have "1 \<le> length a" by (cases a) simp_all
  with b(2) have "Suc k \<le> length (a @ b)" by simp
  then show ?case using encoding_pbind [OF a(1) b(1)] by auto
qed

lemma with_size_known: "sizes items (Some k) \<Longrightarrow> with_size items finish = finish k"
  by (rule ext) (simp add: with_size_def sizesD)

lemma encoding_packed_uvarints:
  fixes m :: mem
  assumes "PB_LTYPE (ftype f) = PB_LTYPE_UVARINT" and "data_size f = 4" and "0 < p"
  shows "\<exists>out. encoding (encode_packed f p k (pb_enc_uvarint m) :: (unit, ('u, 'w) estate) proc) out
    \<and> k + 2 \<le> length out"
proof -
  have item: "\<exists>out. encoding (pb_enc_uvarint m f q :: (unit, ('u, 'w) estate) proc) out \<and> out \<noteq> []"
    if "0 < q" for q
  proof -
    have "(pb_enc_uvarint m f q :: (unit, ('u, 'w) estate) proc)
        = on_ostream (pb_encode_varint (word_of_nat (load_nat q 4 m)))"
      using that assms(2) by (simp add: pb_enc_uvarint_def load_unsigned_def)
    then show ?thesis using encoding_varint varint_bytes_not_Nil by metis
  qed
  obtain out where out: "encoding (items_loop k (pb_enc_uvarint m f) 4 p :: (unit, ('u, 'w) estate) proc) out"
      "k \<le> length out"
    using encoding_items [of "pb_enc_uvarint m f", OF item assms(3)] by blast
  have tag: "encoding (on_ostream (pb_encode_tag PB_WT_STRING (ftag f)) :: (unit, ('u, 'w) estate) proc)
      (varint_bytes (unat (push_bit 3 (word_of_nat (ftag f)) OR word_of_nat (wire_type_code PB_WT_STRING) :: 64 word)))"
    unfolding pb_encode_tag_def by (rule encoding_varint)
  have len: "1 \<le> length (varint_bytes n)" for n
    using varint_bytes_not_Nil [of n] by (cases "varint_bytes n") (simp_all del: varint_bytes_not_Nil)
  note all = encoding_pbind [OF tag encoding_pbind [OF encoding_varint items_or_size_encoding [OF out(1) refl]],
    of "word_of_nat (length out)"]
  have "encode_packed f p k (pb_enc_uvarint m) = (pbind (on_ostream (pb_encode_tag PB_WT_STRING (ftag f)))
      (\<lambda>_. pbind (on_ostream (pb_encode_varint (word_of_nat (length out))))
         (\<lambda>_. items_or_size (length out) (items_loop k (pb_enc_uvarint m f) 4 p))) :: (unit, ('u, 'w) estate) proc)"
    by (simp add: encode_packed_def Let_def assms(1,2) with_size_known [OF encoding_sizes [OF out(1)]])
  moreover have "k + 2 \<le> length (varint_bytes a @ varint_bytes b @ out)" for a b
    using out(2) len [of a] len [of b] by simp
  ultimately show ?thesis using all by metis
qed

lemma pbind_preturn: "pbind p preturn = p"
  by (rule ext) (simp add: pbind_def preturn_def split: outcome.splits option.splits prod.splits)

text \<open>the proto3 test for default values looks neither at the count of a static array nor behind
  its first item: a submessage whose array has items is left out when the first of them is zero, so
  that \<open>pb_encode\<close> writes nothing, although the array alone has an encoding of at least three bytes.\<close>

theorem proto3_array_is_lost:
  assumes "0 < src" and "0 < load_nat src 4 m" and "load_nat src 4 m \<le> 3" and "load_nat (src + 4) 4 m = 0"
    and "ee_mem env = m"
  shows "pb_encode (Suc (Suc (Suc n))) env proto3_outer src s = Done (Some (), s)
    \<and> (\<exists>k \<ge> 3. pb_get_encoded_size (Suc (Suc n)) env proto3_inner src x = Done (Some k, x))"
proof
  have zero: "all_zero (load_bytes (src + 4) 4 m)"
    using assms(4) by (simp add: load_nat_def le_value_zero)
  have "pb_check_proto3_default_value (Suc (Suc n)) m (field_at proto3_outer 0) src = Done True"
    using zero by (simp add: proto3_tables proto3_types iter_begin_eq iter_next_eq Let_def)
  then show "pb_encode (Suc (Suc (Suc n))) env proto3_outer src s = Done (Some (), s)"
    using assms(5)
    by (simp add: encode_message_def iter_begin_eq proto3_tables proto3_types iter_next_eq encode_one_def encode_field_def
        encode_basic_field_def field_presence_def has_field_def preturn_def pbind_def)
  obtain out where out: "encoding (encode_packed (field_at proto3_inner 0) (src + 4) (load_nat src 4 m)
        (pb_enc_uvarint m) :: (unit, ('a, 'b) estate) proc) out" "load_nat src 4 m + 2 \<le> length out"
    using encoding_packed_uvarints [of "field_at proto3_inner 0" "src + 4"] assms(1)
    by (auto simp: proto3_tables proto3_types)
  have "pb_encode (Suc (Suc n)) env proto3_inner src = encode_packed (field_at proto3_inner 0) (src + 4) (load_nat src 4 m)
      (pb_enc_uvarint m)"
    using assms(2,3,5)
    by (intro ext) (simp add: encode_message_def iter_begin_eq proto3_tables proto3_types iter_next_eq encode_one_def encode_field_def
        encode_basic_field_def field_presence_def size_field_def encode_array_def sizeof_pb_size_def PB_ENCODERS_def
        packable_def PB_LTYPE_LAST_PACKABLE_def
        pbind_preturn
        Let_def proto3_types)
  then show "\<exists>k \<ge> 3. pb_get_encoded_size (Suc (Suc n)) env proto3_inner src x = Done (Some k, x)"
    using out(2) assms(2) by (auto simp: pb_get_encoded_size_def encoding.counts [OF out(1)])
qed

text \<open>A count of two, and the items 0 and 5.\<close>

lemma proto3_array_is_lost_witness:
  "pb_encode 3 (enc_sample_env\<lparr> ee_mem := store_bytes 8 [2, 0, 0, 0, 0, 0, 0, 0, 5, 0, 0, 0] (\<lambda>_. 0) \<rparr>)
     proto3_outer 8 (buf_ostream [] 9 0 None, ()) = Done (Some (), (buf_ostream [] 9 0 None, ()))"
proof -
  let ?m = "store_bytes 8 [2, 0, 0, 0, 0, 0, 0, 0, 5, 0, 0, 0] (\<lambda>_. 0)"
  have "load_nat 8 4 ?m = 2" "load_nat (8 + 4) 4 ?m = 0" by code_simp+
  with proto3_array_is_lost [of 8 ?m "enc_sample_env\<lparr> ee_mem := ?m \<rparr>" 0
      "(buf_ostream [] 9 0 None, ())"] show ?thesis
    by (simp add: numeral_3_eq_3)
qed

end
