(* ===== verification/Ldb_Coding.thy ===== *)
theory Ldb_Coding
  imports Pb_Codec
begin

text \<open>
  leveldb's encodings (\<^verbatim>\<open>util/coding.cc\<close>, \<^verbatim>\<open>util/coding.h\<close>) and its hash (\<^verbatim>\<open>util/hash.cc\<close>).
  A \<^verbatim>\<open>Slice\<close> and a \<^verbatim>\<open>std::string\<close> are lists of bytes, a pointer into a buffer with its
  \<^verbatim>\<open>limit\<close> is the list of the bytes between them; a null result is \<open>None\<close>.
\<close>

text \<open>The rest of an input behind what its reader has taken.\<close>

lemma append_split:
  assumes "rest @ tail = a @ b" and "length a \<le> length rest"
  shows "rest = a @ drop (length a) rest" and "drop (length a) rest @ tail = b"
proof -
  obtain q where "rest = a @ q" "q @ tail = b"
    using assms by (auto simp: append_eq_append_conv2)
  then show "rest = a @ drop (length a) rest" and "drop (length a) rest @ tail = b" by simp_all
qed

section \<open>Slices\<close>

type_synonym slice = "byte list"

text \<open>The bytes of a string constant.\<close>

definition string_bytes :: "string \<Rightarrow> slice" where
  "string_bytes = map (\<lambda>c. word_of_nat (of_char c))"

text \<open>\<^verbatim>\<open>memcmp\<close> on two ranges of one length: the difference of the first bytes that differ.\<close>

fun memcmp :: "byte list \<Rightarrow> byte list \<Rightarrow> int" where
  "memcmp (a # as) (b # bs) = (if a = b then memcmp as bs else uint a - uint b)"
| "memcmp _ _ = 0"

definition slice_compare :: "slice \<Rightarrow> slice \<Rightarrow> int" where
  "slice_compare a b =
     (let min_len = (if length a < length b then length a else length b);
          r = memcmp (take min_len a) (take min_len b)
      in if r = 0 then (if length a < length b then - 1 else if length b < length a then 1 else 0)
         else r)"

definition starts_with :: "slice \<Rightarrow> slice \<Rightarrow> bool" where
  "starts_with a x \<longleftrightarrow> length x \<le> length a \<and> memcmp (take (length x) a) x = 0"

definition slice_eq :: "slice \<Rightarrow> slice \<Rightarrow> bool" where
  "slice_eq x y \<longleftrightarrow> length x = length y \<and> memcmp x y = 0"

section \<open>Fixed-width integers\<close>

text \<open>The byte order of the platforms the application is built for.\<close>

definition kLittleEndian :: bool where
  "kLittleEndian = True"

definition EncodeFixed32 :: "32 word \<Rightarrow> byte list" where
  "EncodeFixed32 value =
     (if kLittleEndian then le_bytes 4 (unat value)
      else [ucast (value AND 0xff), ucast (drop_bit 8 value AND 0xff),
            ucast (drop_bit 16 value AND 0xff), ucast (drop_bit 24 value AND 0xff)])"

definition EncodeFixed64 :: "64 word \<Rightarrow> byte list" where
  "EncodeFixed64 value =
     (if kLittleEndian then le_bytes 8 (unat value)
      else [ucast (value AND 0xff), ucast (drop_bit 8 value AND 0xff),
            ucast (drop_bit 16 value AND 0xff), ucast (drop_bit 24 value AND 0xff),
            ucast (drop_bit 32 value AND 0xff), ucast (drop_bit 40 value AND 0xff),
            ucast (drop_bit 48 value AND 0xff), ucast (drop_bit 56 value AND 0xff)])"

definition PutFixed32 :: "byte list \<Rightarrow> 32 word \<Rightarrow> byte list" where
  "PutFixed32 dst value = dst @ EncodeFixed32 value"

definition PutFixed64 :: "byte list \<Rightarrow> 64 word \<Rightarrow> byte list" where
  "PutFixed64 dst value = dst @ EncodeFixed64 value"

text \<open>The pointer points to at least four (eight) bytes.\<close>

definition DecodeFixed32 :: "byte list \<Rightarrow> 32 word" where
  "DecodeFixed32 p =
     (if kLittleEndian then word_of_nat (le_value (take 4 p))
      else ucast (p ! 0) OR push_bit 8 (ucast (p ! 1)) OR push_bit 16 (ucast (p ! 2))
        OR push_bit 24 (ucast (p ! 3)))"

definition DecodeFixed64 :: "byte list \<Rightarrow> 64 word" where
  "DecodeFixed64 p =
     (if kLittleEndian then word_of_nat (le_value (take 8 p))
      else let lo = ucast (DecodeFixed32 p); hi = ucast (DecodeFixed32 (drop 4 p))
           in push_bit 32 hi OR lo)"

section \<open>Varints\<close>

definition EncodeVarint32 :: "32 word \<Rightarrow> byte list" where
  "EncodeVarint32 v =
     (if v < 2 ^ 7 then [ucast v]
      else if v < 2 ^ 14 then [ucast (v OR 128), ucast (drop_bit 7 v)]
      else if v < 2 ^ 21 then [ucast (v OR 128), ucast (drop_bit 7 v OR 128), ucast (drop_bit 14 v)]
      else if v < 2 ^ 28
      then [ucast (v OR 128), ucast (drop_bit 7 v OR 128), ucast (drop_bit 14 v OR 128),
            ucast (drop_bit 21 v)]
      else [ucast (v OR 128), ucast (drop_bit 7 v OR 128), ucast (drop_bit 14 v OR 128),
            ucast (drop_bit 21 v OR 128), ucast (drop_bit 28 v)])"

lemma drop7_less: "\<not> v < 128 \<Longrightarrow> unat (drop_bit 7 v) < unat v" for v :: "64 word"
  by (simp add: drop_bit_eq_div word_less_nat_alt unat_div)

function EncodeVarint64 :: "64 word \<Rightarrow> byte list" where
  "EncodeVarint64 v =
     (if 128 \<le> v then ucast ((v AND 127) OR 128) # EncodeVarint64 (drop_bit 7 v) else [ucast v])"
  by pat_completeness auto
termination by (relation "measure unat") (auto simp: not_less [symmetric] intro: drop7_less)

declare EncodeVarint64.simps [simp del]

definition PutVarint32 :: "byte list \<Rightarrow> 32 word \<Rightarrow> byte list" where
  "PutVarint32 dst v = dst @ EncodeVarint32 v"

definition PutVarint64 :: "byte list \<Rightarrow> 64 word \<Rightarrow> byte list" where
  "PutVarint64 dst v = dst @ EncodeVarint64 v"

text \<open>The length of a slice is truncated to 32 bits when it becomes the argument of \<^verbatim>\<open>PutVarint32\<close>.\<close>

definition PutLengthPrefixedSlice :: "byte list \<Rightarrow> slice \<Rightarrow> byte list" where
  "PutLengthPrefixedSlice dst value = PutVarint32 dst (word_of_nat (length value)) @ value"

function VarintLength_loop :: "nat \<Rightarrow> 64 word \<Rightarrow> nat" where
  "VarintLength_loop len v = (if 128 \<le> v then VarintLength_loop (len + 1) (drop_bit 7 v) else len)"
  by pat_completeness auto
termination by (relation "measure (\<lambda>(_, v). unat v)") (auto simp: not_less [symmetric] intro: drop7_less)

declare VarintLength_loop.simps [simp del]

definition VarintLength :: "64 word \<Rightarrow> nat" where
  "VarintLength v = VarintLength_loop 1 v"

text \<open>
  The loops of \<^verbatim>\<open>GetVarint32PtrFallback\<close> and \<^verbatim>\<open>GetVarint64Ptr\<close>, which differ in the width and
  in the largest shift.
\<close>

fun GetVarint_loop :: "nat \<Rightarrow> nat \<Rightarrow> 'w::len word \<Rightarrow> byte list \<Rightarrow> ('w word \<times> byte list) option" where
  "GetVarint_loop last_shift shift result [] = None"
| "GetVarint_loop last_shift shift result (b # p) =
     (if last_shift < shift then None
      else if b AND 128 \<noteq> 0
      then GetVarint_loop last_shift (shift + 7) (result OR push_bit shift (ucast (b AND 127))) p
      else Some (result OR push_bit shift (ucast b), p))"

definition GetVarint32PtrFallback :: "byte list \<Rightarrow> (32 word \<times> byte list) option" where
  "GetVarint32PtrFallback p = GetVarint_loop 28 0 0 p"

definition GetVarint32Ptr :: "byte list \<Rightarrow> (32 word \<times> byte list) option" where
  "GetVarint32Ptr p = (case p of
      b # q \<Rightarrow> if b AND 128 = 0 then Some (ucast b, q) else GetVarint32PtrFallback p
    | [] \<Rightarrow> GetVarint32PtrFallback p)"

definition GetVarint64Ptr :: "byte list \<Rightarrow> (64 word \<times> byte list) option" where
  "GetVarint64Ptr p = GetVarint_loop 63 0 0 p"

definition GetVarint32 :: "slice \<Rightarrow> (32 word \<times> slice) option" where
  "GetVarint32 input = GetVarint32Ptr input"

definition GetVarint64 :: "slice \<Rightarrow> (64 word \<times> slice) option" where
  "GetVarint64 input = GetVarint64Ptr input"

definition GetLengthPrefixedSlice :: "slice \<Rightarrow> (slice \<times> slice) option" where
  "GetLengthPrefixedSlice input = (case GetVarint32 input of
      None \<Rightarrow> None
    | Some (len, rest) \<Rightarrow>
        if unat len \<le> length rest then Some (take (unat len) rest, drop (unat len) rest) else None)"

section \<open>The hash\<close>

text \<open>The words of four bytes, then the last one to three bytes.\<close>

definition hash_m :: "32 word" where "hash_m = 0xc6a4a793"

definition hash_tail :: "32 word \<Rightarrow> byte list \<Rightarrow> 32 word" where
  "hash_tail h data =
     (let h = (if length data = 3 then h + push_bit 16 (ucast (data ! 2)) else h);
          h = (if 2 \<le> length data then h + push_bit 8 (ucast (data ! 1)) else h)
      in if 1 \<le> length data
         then (let h = (h + ucast (data ! 0)) * hash_m in h XOR drop_bit 24 h)
         else h)"

function hash_words :: "32 word \<Rightarrow> byte list \<Rightarrow> 32 word" where
  "hash_words h data =
     (if 4 \<le> length data
      then let h = (h + DecodeFixed32 data) * hash_m
           in hash_words (h XOR drop_bit 16 h) (drop 4 data)
      else hash_tail h data)"
  by pat_completeness auto
termination by (relation "measure (\<lambda>(_, data). length data)") auto

declare hash_words.simps [simp del]

definition Hash :: "byte list \<Rightarrow> 32 word \<Rightarrow> 32 word" where
  "Hash data seed = hash_words (seed XOR (word_of_nat (length data) * hash_m)) data"

section \<open>Fixed-width integers: both byte orders agree\<close>

lemma EncodeFixed32_eq: "EncodeFixed32 v = le_bytes 4 (unat v)"
  by (simp add: EncodeFixed32_def kLittleEndian_def)

lemma EncodeFixed64_eq: "EncodeFixed64 v = le_bytes 8 (unat v)"
  by (simp add: EncodeFixed64_def kLittleEndian_def)

lemma DecodeFixed32_eq: "DecodeFixed32 p = word_of_nat (le_value (take 4 p))"
  by (simp add: DecodeFixed32_def kLittleEndian_def)

lemma DecodeFixed64_eq: "DecodeFixed64 p = word_of_nat (le_value (take 8 p))"
  by (simp add: DecodeFixed64_def kLittleEndian_def)

lemma length_EncodeFixed [simp]: "length (EncodeFixed32 v) = 4" "length (EncodeFixed64 w) = 8"
  by (simp_all add: EncodeFixed32_eq EncodeFixed64_eq del: le_bytes_numeral)

lemma DecodeFixed32_Encode [simp]: "DecodeFixed32 (EncodeFixed32 v @ rest) = v"
  using le_value_le_bytes_id [of "unat v" 4] unat32_less [of v]
  by (simp add: EncodeFixed32_eq DecodeFixed32_eq del: le_bytes_numeral)

lemma DecodeFixed64_Encode [simp]: "DecodeFixed64 (EncodeFixed64 v @ rest) = v"
  using le_value_le_bytes_id [of "unat v" 8] unat64_less [of v]
  by (simp add: EncodeFixed64_eq DecodeFixed64_eq del: le_bytes_numeral)

lemma Decode_Encode_Nil [simp]: "DecodeFixed32 (EncodeFixed32 v) = v" "DecodeFixed64 (EncodeFixed64 w) = w"
  using DecodeFixed32_Encode [of v "[]"] DecodeFixed64_Encode [of w "[]"] by simp_all

text \<open>The other branch, for big-endian machines, writes and reads the same bytes.\<close>

lemma EncodeFixed32_shifts:
  "[ucast (v AND 0xff), ucast (drop_bit 8 v AND 0xff), ucast (drop_bit 16 v AND 0xff),
    ucast (drop_bit 24 v AND 0xff)] = EncodeFixed32 (v :: 32 word)"
  using byte_of_drop [of 0 v] byte_of_drop [of 8 v] byte_of_drop [of 16 v] byte_of_drop [of 24 v]
  by (simp add: EncodeFixed32_eq div_mult2_eq [symmetric])

lemma EncodeFixed64_shifts:
  "[ucast (v AND 0xff), ucast (drop_bit 8 v AND 0xff), ucast (drop_bit 16 v AND 0xff),
    ucast (drop_bit 24 v AND 0xff), ucast (drop_bit 32 v AND 0xff), ucast (drop_bit 40 v AND 0xff),
    ucast (drop_bit 48 v AND 0xff), ucast (drop_bit 56 v AND 0xff)] = EncodeFixed64 (v :: 64 word)"
  using byte_of_drop [of 0 v] byte_of_drop [of 8 v] byte_of_drop [of 16 v] byte_of_drop [of 24 v]
    byte_of_drop [of 32 v] byte_of_drop [of 40 v] byte_of_drop [of 48 v] byte_of_drop [of 56 v]
  by (simp add: EncodeFixed64_eq div_mult2_eq [symmetric])

section \<open>Varints: the format of the wire\<close>

lemma continued_byte_eq:
  fixes v :: "'w::len word"
  assumes "8 \<le> LENGTH('w)"
  shows "(ucast (v OR 128) :: byte) = word_of_nat (128 + unat v mod 128)"
proof -
  have "(word_of_nat (unat v mod 128) :: byte) OR push_bit 7 (word_of_nat 1) = word_of_nat (unat v mod 128 + 2 ^ 7 * 1)"
    by (rule or_push_bit_add) simp
  moreover have "(word_of_nat (unat v mod 128) :: byte) = take_bit 7 (ucast v)"
    by (simp add: take_bit_eq_mod word_unat_eq_iff unat_mod unat_ucast_byte mod_mod_cancel)
  moreover have "(ucast (v OR 128) :: byte) = take_bit 7 (ucast v) OR push_bit 7 1"
  proof (rule bit_word_eqI)
    fix n :: nat
    assume "n < LENGTH(8)"
    moreover have "bit (128 :: 'w word) n \<longleftrightarrow> n = 7"
      using bit_exp_iff [of 7 n, where 'a = "'w word"] assms by (auto simp: possible_bit_word)
    ultimately show "bit (ucast (v OR 128) :: byte) n \<longleftrightarrow> bit (take_bit 7 (ucast v) OR push_bit 7 1 :: byte) n"
      using assms by (auto simp: bit_simps)
  qed
  ultimately show ?thesis by (simp add: add.commute)
qed

lemma unat_drop_bit: "unat (drop_bit k v) = unat v div 2 ^ k" for v :: "'w::len word"
  unfolding unsigned_drop_bit_eq by (simp only: drop_bit_eq_div take_bit_nat_eq_self [OF unsigned_less])

lemma EncodeVarint32_eq: "EncodeVarint32 v = varint_bytes (unat v)"
proof -
  note more = continued_byte_eq [where 'w = 32, simplified]
  have last: "(ucast (drop_bit k v) :: byte) = word_of_nat (unat v div 2 ^ k)" for k
    by (simp add: word_unat_eq_iff unat_ucast_byte unat_drop_bit)
  have bound: "unat v < 4294967296" using unat32_less [of v] by simp
  show ?thesis
    unfolding EncodeVarint32_def
    using last [of 0] bound
    by (simp add: varint_bytes.simps [of "unat v"] varint_bytes.simps [of "unat v div 128"]
        varint_bytes.simps [of "unat v div 16384"] varint_bytes.simps [of "unat v div 2097152"]
        varint_bytes.simps [of "unat v div 268435456"] more last unat_drop_bit word_less_nat_alt
        div_mult2_eq [symmetric] not_less div_less_iff_less_mult)
qed

lemma EncodeVarint64_eq: "EncodeVarint64 v = varint_bytes (unat v)"
proof (induction v rule: EncodeVarint64.induct)
  case (1 v)
  have low: "unat (v AND 127) = unat v mod 128" using word64_low7 [of v] by simp
  show ?case
  proof (cases "128 \<le> v")
    case True
    then have "\<not> unat v < 128" by (simp add: word_le_nat_alt)
    then show ?thesis
      using 1 [OF True] True continued_byte_eq [of "v AND 127"] low
      by (simp add: EncodeVarint64.simps [of v] varint_bytes.simps [of "unat v"] unat_drop_bit)
  next
    case False
    then have "unat v < 128" by (simp add: word_le_nat_alt)
    then show ?thesis
      using False by (simp add: EncodeVarint64.simps [of v] varint_bytes.simps [of "unat v"] word_unat_eq_iff unat_ucast_byte)
  qed
qed

lemma VarintLength_loop_eq: "VarintLength_loop k v + 1 = k + length (varint_bytes (unat v))"
proof (induction k v rule: VarintLength_loop.induct)
  case (1 k v)
  show ?case
    using 1 by (auto simp: VarintLength_loop.simps [of k v] varint_bytes.simps [of "unat v"] unat_drop_bit
        word_le_nat_alt)
qed

lemma VarintLength_eq: "VarintLength v = length (EncodeVarint64 v)"
  using VarintLength_loop_eq [of 1 v] by (simp add: VarintLength_def EncodeVarint64_eq)

text \<open>Reading: a varint of the wire, whose groups reach no further than the largest shift.\<close>

lemma and_mask8: "b AND 128 = 0 \<longleftrightarrow> unat b < 128" for b :: byte
  using byte_msb [of b] by simp

lemma and_127: "unat b < 128 \<Longrightarrow> b AND 127 = b" for b :: byte
  using byte_low7 [of b] by (simp add: word_unat_eq_iff)

lemma GetVarint_loop_Cons:
  assumes "shift \<le> k" and "a < 2 ^ shift"
  shows "GetVarint_loop k shift (word_of_nat a :: 'w::len word) (b # p) =
     (if 128 \<le> unat b
      then GetVarint_loop k (shift + 7) (word_of_nat (a + 2 ^ shift * (unat b mod 128))) p
      else Some (word_of_nat (a + 2 ^ shift * (unat b mod 128)), p))"
proof (cases "128 \<le> unat b")
  case True
  then show ?thesis using assms group_added [OF assms(2), of b, where 'w = 'w] by (simp add: and_mask8)
next
  case False
  then show ?thesis
    using assms group_added [OF assms(2), of b, where 'w = 'w] and_127 [of b] by (simp add: and_mask8)
qed

lemma GetVarint_loop_varint:
  assumes "is_varint vs" and "a < 2 ^ shift" and "shift + 7 * (length vs - 1) \<le> k"
  shows "GetVarint_loop k shift (word_of_nat a :: 'w::len word) (vs @ rest)
    = Some (word_of_nat (a + 2 ^ shift * base128 vs), rest)"
  using assms
proof (induction vs arbitrary: a shift)
  case (Cons b vs)
  let ?a = "a + 2 ^ shift * (unat b mod 128)"
  have k: "shift \<le> k" using Cons.prems(3) by simp
  show ?case
  proof (cases "128 \<le> unat b")
    case True
    then have vs: "is_varint vs" using Cons.prems(1) by simp
    then have "shift + 7 + 7 * (length vs - 1) \<le> k" using Cons.prems(3) by (cases vs) auto
    from Cons.IH [OF vs group_bound [OF Cons.prems(2)] this]
    show ?thesis
      using True by (simp only: append_Cons GetVarint_loop_Cons [OF k Cons.prems(2)] if_True base128.simps)
        (simp add: power_add algebra_simps)
  next
    case False
    then have "vs = []" using Cons.prems(1) by simp
    with False show ?thesis
      by (simp only: append_Cons GetVarint_loop_Cons [OF k Cons.prems(2)] if_False base128.simps) simp
  qed
qed simp

lemma GetVarint_loop_Some:
  assumes "GetVarint_loop k shift (word_of_nat a :: 'w::len word) p = Some (v, rest)" and "a < 2 ^ shift"
  shows "\<exists>vs. p = vs @ rest \<and> is_varint vs \<and> shift + 7 * (length vs - 1) \<le> k
    \<and> v = word_of_nat (a + 2 ^ shift * base128 vs)"
  using assms
proof (induction p arbitrary: a shift)
  case (Cons b p)
  have k: "shift \<le> k" using Cons.prems(1) by (auto split: if_splits)
  let ?a = "a + 2 ^ shift * (unat b mod 128)"
  show ?case
  proof (cases "128 \<le> unat b")
    case True
    then have "GetVarint_loop k (shift + 7) (word_of_nat ?a :: 'w word) p = Some (v, rest)"
      using Cons.prems by (simp only: GetVarint_loop_Cons [OF k Cons.prems(2)] if_True)
    from Cons.IH [OF this group_bound [OF Cons.prems(2)]] obtain vs where vs:
      "p = vs @ rest" "is_varint vs" "shift + 7 + 7 * (length vs - 1) \<le> k"
      "v = word_of_nat (?a + 2 ^ (shift + 7) * base128 vs)" by blast
    then have "length vs \<noteq> 0" by auto
    then show ?thesis
      using vs True by (intro exI [of _ "b # vs"]) (simp add: power_add algebra_simps)
  next
    case False
    then have "Some (word_of_nat ?a, p) = Some (v, rest)"
      using Cons.prems by (simp only: GetVarint_loop_Cons [OF k Cons.prems(2)] if_False)
    then show ?thesis using False k by (intro exI [of _ "[b]"]) auto
  qed
qed simp

lemma GetVarint32Ptr_eq: "GetVarint32Ptr p = GetVarint_loop 28 0 0 p"
  by (cases p) (simp_all add: GetVarint32Ptr_def GetVarint32PtrFallback_def)

lemma GetVarint32_varint:
  "is_varint vs \<Longrightarrow> length vs \<le> 5 \<Longrightarrow> GetVarint32 (vs @ rest) = Some (word_of_nat (base128 vs), rest)"
  using GetVarint_loop_varint [of vs 0 0 28 rest, where 'w = 32]
  by (simp add: GetVarint32_def GetVarint32Ptr_eq)

lemma GetVarint64_varint:
  "is_varint vs \<Longrightarrow> length vs \<le> 10 \<Longrightarrow> GetVarint64 (vs @ rest) = Some (word_of_nat (base128 vs), rest)"
  using GetVarint_loop_varint [of vs 0 0 63 rest, where 'w = 64]
  by (simp add: GetVarint64_def GetVarint64Ptr_def)

lemma GetVarint32_Some:
  "GetVarint32 p = Some (v, rest) \<Longrightarrow>
     \<exists>vs. p = vs @ rest \<and> is_varint vs \<and> length vs \<le> 5 \<and> v = word_of_nat (base128 vs)"
  using GetVarint_loop_Some [of 28 0 0 p v rest]
  by (fastforce simp: GetVarint32_def GetVarint32Ptr_eq)

lemma GetVarint64_Some:
  "GetVarint64 p = Some (v, rest) \<Longrightarrow>
     \<exists>vs. p = vs @ rest \<and> is_varint vs \<and> length vs \<le> 10 \<and> v = word_of_nat (base128 vs)"
  using GetVarint_loop_Some [of 63 0 0 p v rest]
  by (fastforce simp: GetVarint64_def GetVarint64Ptr_def)

lemma length_EncodeVarint32: "length (EncodeVarint32 v) \<le> 5" "EncodeVarint32 v \<noteq> []"
  using varint_bytes_5 [OF unat32_less [of v]] by (simp_all add: EncodeVarint32_eq)

lemma GetVarint32_Put [simp]: "GetVarint32 (EncodeVarint32 v @ rest) = Some (v, rest)"
  using GetVarint32_varint [of "varint_bytes (unat v)" rest] varint_bytes_5 [OF unat32_less [of v]]
  by (simp add: EncodeVarint32_eq)

lemma GetVarint64_Put [simp]: "GetVarint64 (EncodeVarint64 v @ rest) = Some (v, rest)"
  using GetVarint64_varint [of "varint_bytes (unat v)" rest] varint_bytes_10 [OF unat64_less [of v]]
  by (simp add: EncodeVarint64_eq)

lemma GetLengthPrefixedSlice_Put [simp]:
  "length s < 2 ^ 32 \<Longrightarrow> GetLengthPrefixedSlice (PutLengthPrefixedSlice [] s @ rest) = Some (s, rest)"
  by (simp add: GetLengthPrefixedSlice_def PutLengthPrefixedSlice_def PutVarint32_def unat_of_nat take_bit_nat_eq_self)

lemma GetLengthPrefixedSlice_shorter:
  "GetLengthPrefixedSlice p = Some (s, rest) \<Longrightarrow> length rest < length p"
proof -
  assume "GetLengthPrefixedSlice p = Some (s, rest)"
  then obtain len q where q: "GetVarint32 p = Some (len, q)" "rest = drop (unat len) q"
    by (auto simp: GetLengthPrefixedSlice_def split: option.splits if_splits)
  then obtain vs where "p = vs @ q" "is_varint vs" using GetVarint32_Some by blast
  then show ?thesis using q(2) by (cases vs) auto
qed

section \<open>Comparing slices\<close>

lemma memcmp_eq_0: "length a = length b \<Longrightarrow> memcmp a b = 0 \<longleftrightarrow> a = b"
  by (induction a b rule: memcmp.induct) (auto simp: word_uint_eq_iff)

lemma slice_eq_iff [simp]: "slice_eq x y \<longleftrightarrow> x = y"
  using memcmp_eq_0 [of x y] by (auto simp: slice_eq_def)

lemma starts_with_iff: "starts_with a x \<longleftrightarrow> (\<exists>ys. a = x @ ys)"
proof -
  have "memcmp (take (length x) a) x = 0 \<longleftrightarrow> take (length x) a = x" if "length x \<le> length a"
    using memcmp_eq_0 [of "take (length x) a" x] that by simp
  then show ?thesis unfolding starts_with_def by (metis append_eq_conv_conj append_take_drop_id length_append le_add1)
qed

end
