(* ===== verification/Ldb_Env.thy ===== *)
theory Ldb_Env
  imports Ldb_Coding
begin

text \<open>
  What the file formats of leveldb stand on: \<^verbatim>\<open>Status\<close> (\<^verbatim>\<open>include/leveldb/status.h\<close>,
  \<^verbatim>\<open>util/status.cc\<close>) and the files of the environment (\<^verbatim>\<open>include/leveldb/env.h\<close>), with the
  POSIX files (\<^verbatim>\<open>util/env_posix.cc\<close>) over streams of the C library. The locales
  \<open>sequential_file\<close> and \<open>writable_file\<close> state what the readers and writers of logs rely on.
\<close>

section \<open>Status\<close>

datatype status_code = kNotFound | kCorruption | kNotSupported | kInvalidArgument | kIOError

datatype Status = StatusOK | StatusError status_code string

text \<open>The private constructor, which joins the two messages.\<close>

definition make_Status :: "status_code \<Rightarrow> string \<Rightarrow> string \<Rightarrow> Status" where
  "make_Status code msg msg2 = StatusError code (if msg2 = [] then msg else msg @ '': '' @ msg2)"

definition status_ok :: "Status \<Rightarrow> bool" where
  "status_ok s \<longleftrightarrow> s = StatusOK"

definition Corruption :: "string \<Rightarrow> Status" where
  "Corruption msg = make_Status kCorruption msg []"

definition IOError :: "string \<Rightarrow> string \<Rightarrow> Status" where
  "IOError context err = make_Status kIOError context err"

fun has_code :: "status_code \<Rightarrow> Status \<Rightarrow> bool" where
  "has_code c StatusOK = False"
| "has_code c (StatusError d _) = (c = d)"

definition Status_ToString :: "Status \<Rightarrow> string" where
  "Status_ToString s = (case s of
      StatusOK \<Rightarrow> ''OK''
    | StatusError code msg \<Rightarrow>
        (case code of kNotFound \<Rightarrow> ''NotFound: '' | kCorruption \<Rightarrow> ''Corruption: ''
          | kNotSupported \<Rightarrow> ''Not implemented: '' | kInvalidArgument \<Rightarrow> ''Invalid argument: ''
          | kIOError \<Rightarrow> ''IO error: '') @ msg)"

section \<open>Files\<close>

text \<open>The virtual functions of the two classes of files, on a state of type \<open>'f\<close>.\<close>

record 'f SequentialFile =
  sf_Read :: "nat \<Rightarrow> 'f \<Rightarrow> (slice \<times> Status) \<times> 'f"
  sf_Skip :: "nat \<Rightarrow> 'f \<Rightarrow> Status \<times> 'f"

record 'f WritableFile =
  wf_Append :: "slice \<Rightarrow> 'f \<Rightarrow> Status \<times> 'f"
  wf_Flush :: "'f \<Rightarrow> Status \<times> 'f"

text \<open>
  Streams of the C library. A stream to read from has the bytes that are left and, where
  the medium is defective, the number of bytes after which reading fails; it says whether
  seeking fails. A stream to write to has the bytes written so far and, where the medium is
  bounded, the room that is left; it says whether flushing fails.
\<close>

record rstream =
  rs_name :: string
  rs_rest :: "byte list"
  rs_defect :: "nat option"
  rs_unseekable :: bool
  rs_errno :: string

record wstream =
  ws_name :: string
  ws_data :: "byte list"
  ws_room :: "nat option"
  ws_unflushable :: bool
  ws_errno :: string

definition fread :: "nat \<Rightarrow> rstream \<Rightarrow> byte list \<times> rstream" where
  "fread n f =
     (let k = (case rs_defect f of None \<Rightarrow> n | Some d \<Rightarrow> min n d)
      in (take k (rs_rest f),
          f\<lparr> rs_rest := drop k (rs_rest f), rs_defect := map_option (\<lambda>d. d - k) (rs_defect f) \<rparr>))"

definition fwrite :: "byte list \<Rightarrow> wstream \<Rightarrow> nat \<times> wstream" where
  "fwrite data f =
     (let k = (case ws_room f of None \<Rightarrow> length data | Some r \<Rightarrow> min (length data) r)
      in (k, f\<lparr> ws_data := ws_data f @ take k data, ws_room := map_option (\<lambda>r. r - k) (ws_room f) \<rparr>))"

definition PosixSequentialFile_Read :: "nat \<Rightarrow> rstream \<Rightarrow> (slice \<times> Status) \<times> rstream" where
  "PosixSequentialFile_Read n f =
     (let (result, f') = fread n f;
          s = (if length result < n
               then if rs_rest f' = [] then StatusOK else IOError (rs_name f) (rs_errno f)
               else StatusOK)
      in ((result, s), f'))"

text \<open>Seeking past the end of a file succeeds.\<close>

definition PosixSequentialFile_Skip :: "nat \<Rightarrow> rstream \<Rightarrow> Status \<times> rstream" where
  "PosixSequentialFile_Skip n f =
     (if rs_unseekable f then (IOError (rs_name f) (rs_errno f), f)
      else (StatusOK, f\<lparr> rs_rest := drop n (rs_rest f), rs_defect := map_option (\<lambda>d. d - n) (rs_defect f) \<rparr>))"

definition PosixSequentialFile :: "rstream SequentialFile" where
  "PosixSequentialFile = \<lparr> sf_Read = PosixSequentialFile_Read, sf_Skip = PosixSequentialFile_Skip \<rparr>"

definition PosixWritableFile_Append :: "slice \<Rightarrow> wstream \<Rightarrow> Status \<times> wstream" where
  "PosixWritableFile_Append data f =
     (let (r, f') = fwrite data f
      in (if r \<noteq> length data then IOError (ws_name f) (ws_errno f) else StatusOK, f'))"

definition PosixWritableFile_Flush :: "wstream \<Rightarrow> Status \<times> wstream" where
  "PosixWritableFile_Flush f =
     (if ws_unflushable f then (IOError (ws_name f) (ws_errno f), f) else (StatusOK, f))"

definition PosixWritableFile :: "wstream WritableFile" where
  "PosixWritableFile = \<lparr> wf_Append = PosixWritableFile_Append, wf_Flush = PosixWritableFile_Flush \<rparr>"

section \<open>Sound files\<close>

text \<open>
  A file is sound when its medium has no defect: reading delivers the contents block by
  block and falls short of the request only at the end; writing appends.
\<close>

locale sequential_file =
  fixes ops :: "'f SequentialFile" and contents :: "'f \<Rightarrow> byte list" and sound :: "'f \<Rightarrow> bool"
  assumes read_result: "sound f \<Longrightarrow> fst (sf_Read ops n f) = (take n (contents f), StatusOK)"
    and read_contents: "sound f \<Longrightarrow> contents (snd (sf_Read ops n f)) = drop n (contents f)"
    and read_sound: "sound f \<Longrightarrow> sound (snd (sf_Read ops n f))"
begin

lemma read_cases:
  assumes "sound f"
  obtains f' where "sf_Read ops n f = ((take n (contents f), StatusOK), f')" "sound f'"
    "contents f' = drop n (contents f)"
  using read_result [OF assms, of n] read_contents [OF assms, of n] read_sound [OF assms, of n]
  by (cases "sf_Read ops n f") auto

end

locale writable_file =
  fixes ops :: "'f WritableFile" and contents :: "'f \<Rightarrow> byte list" and sound :: "'f \<Rightarrow> bool"
  assumes append_ok: "sound f \<Longrightarrow> fst (wf_Append ops data f) = StatusOK"
    and append_contents: "sound f \<Longrightarrow> contents (snd (wf_Append ops data f)) = contents f @ data"
    and append_sound: "sound f \<Longrightarrow> sound (snd (wf_Append ops data f))"
    and flush_ok: "sound f \<Longrightarrow> fst (wf_Flush ops f) = StatusOK"
    and flush_contents: "sound f \<Longrightarrow> contents (snd (wf_Flush ops f)) = contents f"
    and flush_sound: "sound f \<Longrightarrow> sound (snd (wf_Flush ops f))"
begin

lemma append_cases:
  assumes "sound f"
  obtains f' where "wf_Append ops data f = (StatusOK, f')" "sound f'" "contents f' = contents f @ data"
  using append_ok [OF assms, of data] append_contents [OF assms, of data] append_sound [OF assms, of data]
  by (cases "wf_Append ops data f") auto

lemma flush_cases:
  assumes "sound f"
  obtains f' where "wf_Flush ops f = (StatusOK, f')" "sound f'" "contents f' = contents f"
  using flush_ok [OF assms] flush_contents [OF assms] flush_sound [OF assms]
  by (cases "wf_Flush ops f") auto

end

interpretation posix_sequential: sequential_file PosixSequentialFile rs_rest "\<lambda>f. rs_defect f = None"
  by unfold_locales
    (auto simp: PosixSequentialFile_def PosixSequentialFile_Read_def fread_def Let_def)

definition sound_wstream :: "wstream \<Rightarrow> bool" where
  "sound_wstream f \<longleftrightarrow> ws_room f = None \<and> \<not> ws_unflushable f"

interpretation posix_writable: writable_file PosixWritableFile ws_data sound_wstream
  by unfold_locales
    (auto simp: PosixWritableFile_def PosixWritableFile_Append_def PosixWritableFile_Flush_def fwrite_def Let_def
      sound_wstream_def)

end
