(* ===== verification/Ldb_Log.thy ===== *)
theory Ldb_Log
  imports Ldb_Env Ldb_Crc32c
begin

text \<open>
  The write-ahead log of leveldb: its format (\<^verbatim>\<open>db/log_format.h\<close>), the writer
  (\<^verbatim>\<open>db/log_writer.cc\<close>) and the reader (\<^verbatim>\<open>db/log_reader.cc\<close>). The checksum does not depend
  on the address of the buffer, so the address passed to \<open>Extend\<close> is 0.
\<close>

section \<open>The format\<close>

datatype RecordType = kZeroType | kFullType | kFirstType | kMiddleType | kLastType

fun type_code :: "RecordType \<Rightarrow> nat" where
  "type_code kZeroType = 0"
| "type_code kFullType = 1"
| "type_code kFirstType = 2"
| "type_code kMiddleType = 3"
| "type_code kLastType = 4"

definition kMaxRecordType :: nat where "kMaxRecordType = 4"
definition kBlockSize :: nat where "kBlockSize = 32768"
definition kHeaderSize :: nat where "kHeaderSize = 4 + 2 + 1"

section \<open>The writer\<close>

record 'f log_writer =
  lw_dest :: 'f
  lw_block_offset :: nat
  lw_type_crc :: "32 word list"

definition InitTypeCrc :: "32 word list" where
  "InitTypeCrc = map (\<lambda>i. crc_Value 0 [word_of_nat i]) [0..<Suc kMaxRecordType]"

definition Writer :: "'f \<Rightarrow> nat \<Rightarrow> 'f log_writer" where
  "Writer dest dest_length =
     \<lparr> lw_dest = dest, lw_block_offset = dest_length mod kBlockSize, lw_type_crc = InitTypeCrc \<rparr>"

text \<open>The seven bytes of the header.\<close>

definition record_header :: "32 word list \<Rightarrow> RecordType \<Rightarrow> slice \<Rightarrow> byte list" where
  "record_header type_crc t data =
     (let n = length data; crc = Mask (Extend 0 (type_crc ! type_code t) data)
      in EncodeFixed32 crc @ [word_of_nat (n mod 256), word_of_nat (n div 256), word_of_nat (type_code t)])"

definition EmitPhysicalRecord ::
    "'f WritableFile \<Rightarrow> RecordType \<Rightarrow> slice \<Rightarrow> 'f log_writer \<Rightarrow> Status \<times> 'f log_writer" where
  "EmitPhysicalRecord ops t data w =
     (let (s, f) = wf_Append ops (record_header (lw_type_crc w) t data) (lw_dest w);
          (s, f) = (if status_ok s then wf_Append ops data f else (s, f));
          (s, f) = (if status_ok s then wf_Flush ops f else (s, f))
      in (s, w\<lparr> lw_dest := f, lw_block_offset := lw_block_offset w + kHeaderSize + length data \<rparr>))"

text \<open>
  The end of the loop body picks the type of the fragment. \<^verbatim>\<open>dest_->Append\<close> of the
  trailer ignores the status.
\<close>

definition switch_block :: "'f WritableFile \<Rightarrow> 'f log_writer \<Rightarrow> 'f log_writer" where
  "switch_block ops w =
     (let leftover = int kBlockSize - int (lw_block_offset w)
      in if leftover < int kHeaderSize
         then (let f = (if 0 < leftover then snd (wf_Append ops (replicate (nat leftover) 0) (lw_dest w))
                        else lw_dest w)
               in w\<lparr> lw_dest := f, lw_block_offset := 0 \<rparr>)
         else w)"

definition fragment_type :: "bool \<Rightarrow> bool \<Rightarrow> RecordType" where
  "fragment_type at_begin at_end =
     (if at_begin \<and> at_end then kFullType else if at_begin then kFirstType
      else if at_end then kLastType else kMiddleType)"

lemma switch_block_offset:
  "lw_block_offset (switch_block ops w)
     = (if lw_block_offset w + kHeaderSize \<le> kBlockSize then lw_block_offset w else 0)"
  by (auto simp: switch_block_def Let_def kBlockSize_def kHeaderSize_def)

lemma EmitPhysicalRecord_offset:
  "lw_block_offset (snd (EmitPhysicalRecord ops t data w)) = lw_block_offset w + kHeaderSize + length data"
  by (simp add: EmitPhysicalRecord_def Let_def split_beta)

function AddRecord_loop ::
    "'f WritableFile \<Rightarrow> bool \<Rightarrow> slice \<Rightarrow> 'f log_writer \<Rightarrow> Status \<times> 'f log_writer" where
  "AddRecord_loop ops at_begin data w =
     (let w' = switch_block ops w;
          avail = kBlockSize - lw_block_offset w' - kHeaderSize;
          fragment_length = (if length data < avail then length data else avail);
          at_end = (length data = fragment_length);
          (s, w'') = EmitPhysicalRecord ops (fragment_type at_begin at_end) (take fragment_length data) w';
          left = drop fragment_length data
      in if status_ok s \<and> left \<noteq> [] then AddRecord_loop ops False left w'' else (s, w''))"
  by pat_completeness auto
termination
proof (relation "measure (\<lambda>(_, _, data, w). 2 * length data
    + (if lw_block_offset w + kHeaderSize = kBlockSize then 1 else 0))", goal_cases)
  case (2 ops bgn data w w' avail fragment_length at_end x s w'' left)
  have off: "lw_block_offset w'' = lw_block_offset w' + kHeaderSize + fragment_length"
    using EmitPhysicalRecord_offset [of ops "fragment_type bgn at_end" "take fragment_length data" w']
      2(5) [symmetric] 2(3) 2(6) [symmetric] by (auto simp: min_def split: if_splits)
  have w': "lw_block_offset w' = (if lw_block_offset w + kHeaderSize \<le> kBlockSize then lw_block_offset w else 0)"
    using 2(1) by (simp add: switch_block_offset)
  have "fragment_length < length data" using 2(3,7,8) by (auto split: if_splits)
  then have frag: "fragment_length = avail" using 2(3) by (auto split: if_splits)
  show ?case
  proof (cases "avail = 0")
    case True
    then have "lw_block_offset w' + kHeaderSize = kBlockSize" "fragment_length = 0"
      using 2(2) w' frag by (auto simp: kBlockSize_def kHeaderSize_def split: if_splits)
    then have "lw_block_offset w + kHeaderSize = kBlockSize" "lw_block_offset w'' = kBlockSize"
      using w' off by (auto simp: kBlockSize_def kHeaderSize_def split: if_splits)
    then show ?thesis using \<open>fragment_length = 0\<close> 2(7) by (simp add: kHeaderSize_def)
  next
    case False
    then have "Suc (2 * length left) < 2 * length data"
      using frag \<open>fragment_length < length data\<close> 2(7) by simp
    then show ?thesis by simp
  qed
qed simp

declare AddRecord_loop.simps [simp del]

definition AddRecord :: "'f WritableFile \<Rightarrow> slice \<Rightarrow> 'f log_writer \<Rightarrow> Status \<times> 'f log_writer" where
  "AddRecord ops data w = AddRecord_loop ops True data w"

section \<open>The reader\<close>

text \<open>
  The constants \<^verbatim>\<open>checksum_\<close>, \<^verbatim>\<open>initial_offset_\<close> and whether there is a reporter are members
  of the state, as in the class; \<open>lr_reports\<close> lists the calls of \<^verbatim>\<open>reporter_->Corruption\<close>.
\<close>

record 'f log_reader =
  lr_file :: 'f
  lr_reporter :: bool
  lr_reports :: "(64 word \<times> Status) list"
  lr_checksum :: bool
  lr_buffer :: slice
  lr_eof :: bool
  lr_last_record_offset :: "64 word"
  lr_end_of_buffer_offset :: "64 word"
  lr_initial_offset :: "64 word"
  lr_resyncing :: bool

definition Reader :: "'f \<Rightarrow> bool \<Rightarrow> bool \<Rightarrow> 64 word \<Rightarrow> 'f log_reader" where
  "Reader file reporter checksum initial_offset =
     \<lparr> lr_file = file, lr_reporter = reporter, lr_reports = [], lr_checksum = checksum, lr_buffer = [],
       lr_eof = False, lr_last_record_offset = 0, lr_end_of_buffer_offset = 0,
       lr_initial_offset = initial_offset, lr_resyncing = 0 < initial_offset \<rparr>"

definition kEof :: "32 word" where "kEof = word_of_nat (kMaxRecordType + 1)"
definition kBadRecord :: "32 word" where "kBadRecord = word_of_nat (kMaxRecordType + 2)"

definition ReportDrop :: "64 word \<Rightarrow> Status \<Rightarrow> 'f log_reader \<Rightarrow> 'f log_reader" where
  "ReportDrop bytes reason r =
     (if lr_reporter r
         \<and> lr_initial_offset r \<le> lr_end_of_buffer_offset r - word_of_nat (length (lr_buffer r)) - bytes
      then r\<lparr> lr_reports := lr_reports r @ [(bytes, reason)] \<rparr> else r)"

definition ReportCorruption :: "64 word \<Rightarrow> string \<Rightarrow> 'f log_reader \<Rightarrow> 'f log_reader" where
  "ReportCorruption bytes reason r = ReportDrop bytes (Corruption reason) r"

definition SkipToInitialBlock :: "'f SequentialFile \<Rightarrow> 'f log_reader \<Rightarrow> bool \<times> 'f log_reader" where
  "SkipToInitialBlock ops r =
     (let offset_in_block = lr_initial_offset r mod word_of_nat kBlockSize;
          block_start_location = lr_initial_offset r - offset_in_block;
          block_start_location =
            (if word_of_nat (kBlockSize - 6) < offset_in_block
             then block_start_location + word_of_nat kBlockSize else block_start_location);
          r = r\<lparr> lr_end_of_buffer_offset := block_start_location \<rparr>
      in if 0 < block_start_location
         then (let (s, f) = sf_Skip ops (unat block_start_location) (lr_file r);
                   r = r\<lparr> lr_file := f \<rparr>
               in if status_ok s then (True, r) else (False, ReportDrop block_start_location s r))
         else (True, r))"

text \<open>Reading the next block; the result says whether the read succeeded.\<close>

definition read_block :: "'f SequentialFile \<Rightarrow> 'f log_reader \<Rightarrow> bool \<times> 'f log_reader" where
  "read_block ops r =
     (let ((buffer, s), f) = sf_Read ops kBlockSize (lr_file r);
          r = r\<lparr> lr_file := f, lr_buffer := buffer,
                 lr_end_of_buffer_offset := lr_end_of_buffer_offset r + word_of_nat (length buffer) \<rparr>
      in if \<not> status_ok s
         then (False, (ReportDrop (word_of_nat kBlockSize) s (r\<lparr> lr_buffer := [] \<rparr>))\<lparr> lr_eof := True \<rparr>)
         else if length buffer < kBlockSize then (True, r\<lparr> lr_eof := True \<rparr>)
         else (True, r))"

text \<open>
  Parsing the record at the head of the buffer. \<open>fragment\<close> is the variable behind the
  pointer \<^verbatim>\<open>result\<close>, which keeps its contents on most failures. \<^verbatim>\<open>header[6]\<close> is a signed
  character that becomes an unsigned integer.
\<close>

definition parse_record :: "slice \<Rightarrow> 'f log_reader \<Rightarrow> 32 word \<times> slice \<times> 'f log_reader" where
  "parse_record fragment r =
     (let header = lr_buffer r;
          a = unat (header ! 4); b = unat (header ! 5);
          type = (scast (header ! 6) :: 32 word);
          len = a + 256 * b;
          drop_size = word_of_nat (length header)
      in if length header < kHeaderSize + len
         then (let r = r\<lparr> lr_buffer := [] \<rparr>
               in if \<not> lr_eof r
                  then (kBadRecord, fragment, ReportCorruption drop_size ''bad record length'' r)
                  else (kEof, fragment, r))
         else if type = 0 \<and> len = 0 then (kBadRecord, fragment, r\<lparr> lr_buffer := [] \<rparr>)
         else if lr_checksum r
                 \<and> crc_Value 0 (take (1 + len) (drop 6 header)) \<noteq> Unmask (DecodeFixed32 header)
         then (kBadRecord, fragment,
               ReportCorruption drop_size ''checksum mismatch'' (r\<lparr> lr_buffer := [] \<rparr>))
         else (let r = r\<lparr> lr_buffer := drop (kHeaderSize + len) header \<rparr>
               in if lr_end_of_buffer_offset r - word_of_nat (length (lr_buffer r))
                     - word_of_nat kHeaderSize - word_of_nat len < lr_initial_offset r
                  then (kBadRecord, [], r)
                  else (type, take len (drop kHeaderSize header), r)))"

text \<open>
  The loop continues after a block has been read, at most twice: then the block is full,
  or the end of the file has been seen.
\<close>

function ReadPhysicalRecord ::
    "'f SequentialFile \<Rightarrow> slice \<Rightarrow> 'f log_reader \<Rightarrow> 32 word \<times> slice \<times> 'f log_reader" where
  "ReadPhysicalRecord ops fragment r =
     (if length (lr_buffer r) < kHeaderSize
      then if lr_eof r then (kEof, fragment, r\<lparr> lr_buffer := [] \<rparr>)
           else (case read_block ops (r\<lparr> lr_buffer := [] \<rparr>) of
               (False, r') \<Rightarrow> (kEof, fragment, r')
             | (True, r') \<Rightarrow> ReadPhysicalRecord ops fragment r')
      else parse_record fragment r)"
  by pat_completeness auto
termination
proof (relation "measure (\<lambda>(_, _, r). if length (lr_buffer r) < kHeaderSize
    then if lr_eof r then 1 else 2 else 0)", goal_cases)
  case (2 ops fragment r b r')
  then have "read_block ops (r\<lparr> lr_buffer := [] \<rparr>) = (True, r')" by simp
  then have "lr_eof r' \<or> kHeaderSize \<le> length (lr_buffer r')"
    by (auto simp: read_block_def Let_def kHeaderSize_def kBlockSize_def split: prod.splits if_splits)
  then show ?case using 2 by auto
qed simp

declare ReadPhysicalRecord.simps [simp del]

text \<open>The decimal numeral of \<^verbatim>\<open>%u\<close>.\<close>

fun decimal :: "nat \<Rightarrow> string" where
  "decimal n = (if n < 10 then [char_of (48 + n)] else decimal (n div 10) @ [char_of (48 + n mod 10)])"

declare decimal.simps [simp del]

text \<open>The local variables of \<^verbatim>\<open>ReadRecord\<close>.\<close>

record record_vars =
  rv_in_fragmented :: bool
  rv_prospective :: "64 word"
  rv_fragment :: slice
  rv_scratch :: slice

text \<open>
  What one turn of the loop ends with: the next turn, a record, or the end of the file.
\<close>

datatype turn = Again | Found slice | NoMore

definition record_turn ::
    "32 word \<Rightarrow> 64 word \<Rightarrow> record_vars \<Rightarrow> 'f log_reader \<Rightarrow> turn \<times> record_vars \<times> 'f log_reader" where
  "record_turn type offset v r =
     (let scratch = rv_scratch v; fragment = rv_fragment v;
          n = word_of_nat (length scratch); m = word_of_nat (length fragment)
      in if type = 1 then
           (let r = (if rv_in_fragmented v \<and> scratch \<noteq> []
                     then ReportCorruption n ''partial record without end(1)'' r else r)
            in (Found fragment, v\<lparr> rv_prospective := offset, rv_scratch := [] \<rparr>,
                r\<lparr> lr_last_record_offset := offset \<rparr>))
         else if type = 2 then
           (let r = (if rv_in_fragmented v \<and> scratch \<noteq> []
                     then ReportCorruption n ''partial record without end(2)'' r else r)
            in (Again, v\<lparr> rv_prospective := offset, rv_scratch := fragment, rv_in_fragmented := True \<rparr>, r))
         else if type = 3 then
           (if \<not> rv_in_fragmented v
            then (Again, v, ReportCorruption m ''missing start of fragmented record(1)'' r)
            else (Again, v\<lparr> rv_scratch := scratch @ fragment \<rparr>, r))
         else if type = 4 then
           (if \<not> rv_in_fragmented v
            then (Again, v, ReportCorruption m ''missing start of fragmented record(2)'' r)
            else (Found (scratch @ fragment), v\<lparr> rv_scratch := scratch @ fragment \<rparr>,
                  r\<lparr> lr_last_record_offset := rv_prospective v \<rparr>))
         else if type = kEof then
           (NoMore, (if rv_in_fragmented v then v\<lparr> rv_scratch := [] \<rparr> else v), r)
         else if type = kBadRecord then
           (if rv_in_fragmented v
            then (Again, v\<lparr> rv_in_fragmented := False, rv_scratch := [] \<rparr>,
                  ReportCorruption n ''error in middle of record'' r)
            else (Again, v, r))
         else
           (Again, v\<lparr> rv_in_fragmented := False, rv_scratch := [] \<rparr>,
            ReportCorruption (m + (if rv_in_fragmented v then n else 0))
              (''unknown record type '' @ decimal (unat type)) r))"

text \<open>
  The loop: \<open>None\<close> when the fuel runs out, else whether a record was found. While the
  reader resynchronises, the rest of a record that began earlier is skipped.
\<close>

fun ReadRecord_loop ::
    "nat \<Rightarrow> 'f SequentialFile \<Rightarrow> record_vars \<Rightarrow> 'f log_reader \<Rightarrow> (slice option \<times> 'f log_reader) option" where
  "ReadRecord_loop 0 ops v r = None"
| "ReadRecord_loop (Suc n) ops v r =
     (let (type, fragment, r) = ReadPhysicalRecord ops (rv_fragment v) r;
          v = v\<lparr> rv_fragment := fragment \<rparr>;
          offset = lr_end_of_buffer_offset r - word_of_nat (length (lr_buffer r))
            - word_of_nat kHeaderSize - word_of_nat (length fragment)
      in if lr_resyncing r \<and> type = 3 then ReadRecord_loop n ops v r
         else if lr_resyncing r \<and> type = 4 then ReadRecord_loop n ops v (r\<lparr> lr_resyncing := False \<rparr>)
         else (case record_turn type offset v (r\<lparr> lr_resyncing := False \<rparr>) of
             (Again, v, r) \<Rightarrow> ReadRecord_loop n ops v r
           | (Found record, v, r) \<Rightarrow> Some (Some record, r)
           | (NoMore, v, r) \<Rightarrow> Some (None, r)))"

declare ReadRecord_loop.simps [simp del]

definition ReadRecord :: "nat \<Rightarrow> 'f SequentialFile \<Rightarrow> 'f log_reader \<Rightarrow> (slice option \<times> 'f log_reader) option" where
  "ReadRecord n ops r =
     (let (ok, r) = (if lr_last_record_offset r < lr_initial_offset r then SkipToInitialBlock ops r else (True, r))
      in if ok
         then ReadRecord_loop n ops
                \<lparr> rv_in_fragmented = False, rv_prospective = 0, rv_fragment = [], rv_scratch = [] \<rparr> r
         else Some (None, r))"

definition LastRecordOffset :: "'f log_reader \<Rightarrow> 64 word" where
  "LastRecordOffset r = lr_last_record_offset r"

end
