(* ===== verification/Ldb_Log_Spec.thy ===== *)
theory Ldb_Log_Spec
  imports Ldb_Log
begin

text \<open>
  The layout of a log as a function of the records, what the writer adds to a sound file,
  and what the reader makes of the beginning of a log, which is what a crash leaves of it.
\<close>

section \<open>The layout\<close>

definition physical :: "RecordType \<Rightarrow> slice \<Rightarrow> byte list" where
  "physical t d = record_header InitTypeCrc t d @ d"

lemma length_record_header: "length (record_header crcs t d) = 7"
  by (simp add: record_header_def Let_def)

lemma length_physical [simp]: "length (physical t d) = kHeaderSize + length d"
  by (simp add: physical_def length_record_header kHeaderSize_def)

definition block_start :: "nat \<Rightarrow> nat" where
  "block_start off = (if off + kHeaderSize \<le> kBlockSize then off else 0)"

definition padding :: "nat \<Rightarrow> byte list" where
  "padding off = (if off + kHeaderSize \<le> kBlockSize then [] else replicate (kBlockSize - off) 0)"

definition fragment_size :: "nat \<Rightarrow> slice \<Rightarrow> nat" where
  "fragment_size off data = min (length data) (kBlockSize - block_start off - kHeaderSize)"

text \<open>The bytes of a record (or of what is left of it) and the offset in the block behind them.\<close>

function layout :: "nat \<Rightarrow> bool \<Rightarrow> slice \<Rightarrow> byte list \<times> nat" where
  "layout off bgn data =
     (let n = fragment_size off data; off' = block_start off + kHeaderSize + n;
          bytes = padding off @ physical (fragment_type bgn (n = length data)) (take n data)
      in if n = length data then (bytes, off')
         else let (behind, off'') = layout off' False (drop n data) in (bytes @ behind, off''))"
  by pat_completeness auto
termination
  by (relation "measure (\<lambda>(off, _, data). 2 * length data + (if off + kHeaderSize = kBlockSize then 1 else 0))")
    (auto simp: fragment_size_def block_start_def min_def kHeaderSize_def kBlockSize_def split: if_splits)

declare layout.simps [simp del]

lemma fragment_size_le [simp]: "fragment_size off data \<le> length data"
  by (simp add: fragment_size_def)

lemma fragment_fits: "block_start off + kHeaderSize + fragment_size off data \<le> kBlockSize"
  by (auto simp: fragment_size_def block_start_def kHeaderSize_def kBlockSize_def)

lemma layout_offset: "snd (layout off bgn data) \<le> kBlockSize"
proof (induction off bgn data rule: layout.induct)
  case (1 off bgn data)
  then show ?case
    using fragment_fits [of off data] by (simp add: layout.simps [of off] Let_def split_beta)
qed

section \<open>The writer adds the layout\<close>

context writable_file
begin

lemma EmitPhysicalRecord_sound:
  assumes "sound (lw_dest w)" and "lw_type_crc w = InitTypeCrc"
  obtains w' where "EmitPhysicalRecord ops t d w = (StatusOK, w')" "sound (lw_dest w')"
    "contents (lw_dest w') = contents (lw_dest w) @ physical t d" "lw_type_crc w' = InitTypeCrc"
    "lw_block_offset w' = lw_block_offset w + kHeaderSize + length d"
proof -
  obtain f1 where 1: "wf_Append ops (record_header InitTypeCrc t d) (lw_dest w) = (StatusOK, f1)" "sound f1"
      "contents f1 = contents (lw_dest w) @ record_header InitTypeCrc t d"
    using append_cases [OF assms(1)] .
  obtain f2 where 2: "wf_Append ops d f1 = (StatusOK, f2)" "sound f2" "contents f2 = contents f1 @ d"
    using append_cases [OF 1(2)] .
  obtain f3 where 3: "wf_Flush ops f2 = (StatusOK, f3)" "sound f3" "contents f3 = contents f2"
    using flush_cases [OF 2(2)] .
  show thesis
    by (rule that [of "w\<lparr> lw_dest := f3, lw_block_offset := lw_block_offset w + kHeaderSize + length d \<rparr>"])
      (simp_all add: EmitPhysicalRecord_def assms(2) 1 2 3 status_ok_def physical_def)
qed

lemma switch_block_sound:
  assumes "sound (lw_dest w)" and "lw_type_crc w = InitTypeCrc"
  shows "sound (lw_dest (switch_block ops w))"
    and "contents (lw_dest (switch_block ops w)) = contents (lw_dest w) @ padding (lw_block_offset w)"
    and "lw_type_crc (switch_block ops w) = InitTypeCrc"
    and "lw_block_offset (switch_block ops w) = block_start (lw_block_offset w)"
  using append_contents [OF assms(1)] append_sound [OF assms(1)] assms
  by (auto simp: switch_block_def Let_def padding_def block_start_def kHeaderSize_def kBlockSize_def nat_diff_distrib)

lemma AddRecord_loop_sound:
  assumes "sound (lw_dest w)" and "lw_type_crc w = InitTypeCrc"
  shows "\<exists>w'. AddRecord_loop ops bgn data w = (StatusOK, w') \<and> sound (lw_dest w')
    \<and> contents (lw_dest w') = contents (lw_dest w) @ fst (layout (lw_block_offset w) bgn data)
    \<and> lw_type_crc w' = InitTypeCrc \<and> lw_block_offset w' = snd (layout (lw_block_offset w) bgn data)"
  using assms
proof (induction "lw_block_offset w" bgn data arbitrary: w rule: layout.induct)
  case (1 bgn data)
  let ?off = "lw_block_offset w" and ?w = "switch_block ops w"
  define n where "n = fragment_size ?off data"
  have sw: "sound (lw_dest ?w)" "contents (lw_dest ?w) = contents (lw_dest w) @ padding ?off"
      "lw_type_crc ?w = InitTypeCrc" "lw_block_offset ?w = block_start ?off"
    by (rule switch_block_sound [OF 1(2,3)])+
  obtain w' where w': "EmitPhysicalRecord ops (fragment_type bgn (n = length data)) (take n data) ?w = (StatusOK, w')"
      "sound (lw_dest w')" "contents (lw_dest w') = contents (lw_dest ?w)
         @ physical (fragment_type bgn (n = length data)) (take n data)"
      "lw_type_crc w' = InitTypeCrc" "lw_block_offset w' = lw_block_offset ?w + kHeaderSize + length (take n data)"
    using EmitPhysicalRecord_sound [OF sw(1,3)] .
  have frag: "(if length data < kBlockSize - lw_block_offset ?w - kHeaderSize then length data
      else kBlockSize - lw_block_offset ?w - kHeaderSize) = n"
    by (simp add: n_def fragment_size_def sw(4) min_def)
  have step: "AddRecord_loop ops bgn data w
      = (if drop n data \<noteq> [] then AddRecord_loop ops False (drop n data) w' else (StatusOK, w'))"
    using w'(1) by (subst AddRecord_loop.simps) (simp only: Let_def frag eq_commute [of "length data"], simp add: status_ok_def)
  have n: "n \<le> length data" by (simp add: n_def)
  then have off': "lw_block_offset w' = block_start ?off + kHeaderSize + n" by (simp add: w'(5) sw(4))
  show ?case
  proof (cases "n = length data")
    case True
    then show ?thesis using w' sw step off'
      by (simp add: layout.simps [of ?off] Let_def n_def [symmetric])
  next
    case False
    then have rest: "drop n data \<noteq> []" using n by simp
    from 1(1) [OF n_def off' refl False w'(2,4)] obtain w'' where
      "AddRecord_loop ops False (drop n data) w' = (StatusOK, w'')" "sound (lw_dest w'')"
      "contents (lw_dest w'') = contents (lw_dest w') @ fst (layout (lw_block_offset w') False (drop n data))"
      "lw_type_crc w'' = InitTypeCrc" "lw_block_offset w'' = snd (layout (lw_block_offset w') False (drop n data))"
      by auto
    then show ?thesis using False rest step w'(3) sw(2) off'
      by (simp add: layout.simps [of ?off] Let_def n_def [symmetric] split_beta)
  qed
qed

end

section \<open>Physical records\<close>

lemma InitTypeCrc_nth: "InitTypeCrc ! type_code t = crc_reference 0 [word_of_nat (type_code t)]"
  by (cases t) (simp_all add: InitTypeCrc_def kMaxRecordType_def crc_Value_def Extend_eq nth_append del: upt_Suc)

lemma record_crc: "Extend 0 (InitTypeCrc ! type_code t) d = crc_Value 0 (word_of_nat (type_code t) # d)"
  using crc_reference_append [of 0 "[word_of_nat (type_code t)]" d]
  by (simp add: Extend_eq crc_Value_def InitTypeCrc_nth)

lemma type_code_byte: "(scast (word_of_nat (type_code t) :: byte) :: 32 word) = word_of_nat (type_code t)"
  by (cases t) simp_all

text \<open>The fields of the header, as the reader finds them at the head of its buffer.\<close>

lemma header_fields:
  assumes "length d < 65536" and "take 7 buf = record_header InitTypeCrc t d"
  shows "unat (buf ! 4) + 256 * unat (buf ! 5) = length d" and "buf ! 6 = word_of_nat (type_code t)"
    and "DecodeFixed32 buf = Mask (crc_Value 0 (word_of_nat (type_code t) # d))"
proof -
  let ?h = "record_header InitTypeCrc t d"
  have buf: "buf = ?h @ drop 7 buf" using assms(2) by (metis append_take_drop_id)
  have "length d div 256 < 256" using assms(1) by (simp add: less_mult_imp_div_less)
  then show "unat (buf ! 4) + 256 * unat (buf ! 5) = length d"
    by (subst (1 2) buf) (simp add: record_header_def Let_def nth_append)
  show "buf ! 6 = word_of_nat (type_code t)"
    by (subst buf) (simp add: record_header_def Let_def nth_append)
  show "DecodeFixed32 buf = Mask (crc_Value 0 (word_of_nat (type_code t) # d))"
    by (subst buf) (simp add: record_header_def Let_def record_crc)
qed

lemma parse_record_whole:
  assumes "length d < 65536" and "t \<noteq> kZeroType" and "lr_buffer r = physical t d @ behind"
    and "lr_initial_offset r = 0"
  shows "parse_record fragment r = (word_of_nat (type_code t), d, r\<lparr> lr_buffer := behind \<rparr>)"
proof -
  have buf: "take 7 (lr_buffer r) = record_header InitTypeCrc t d"
    by (simp add: assms(3) physical_def length_record_header)
  note fields = header_fields [OF assms(1) buf]
  have len: "kHeaderSize + length d \<le> length (lr_buffer r)" using assms(3) by simp
  have t: "(word_of_nat (type_code t) :: 32 word) \<noteq> 0" using assms(2) by (cases t) simp_all
  have "drop (length (physical t d)) (lr_buffer r) = behind" by (simp only: assms(3) append_eq_conv_conj) simp
  then have behind: "drop (kHeaderSize + length d) (lr_buffer r) = behind" by simp
  have payload: "take (Suc (length d)) (drop 6 (lr_buffer r)) = word_of_nat (type_code t) # d"
    "take (length d) (drop kHeaderSize (lr_buffer r)) = d"
    by (simp_all add: assms(3) physical_def record_header_def Let_def kHeaderSize_def)
  show ?thesis
    using len t
    by (simp add: parse_record_def Let_def fields type_code_byte payload behind assms(4))
qed

lemma parse_record_cut:
  assumes "length d < 65536" and "lr_buffer r = take k (physical t d)" and "kHeaderSize \<le> length (lr_buffer r)"
    and "length (lr_buffer r) < kHeaderSize + length d" and "lr_eof r"
  shows "parse_record fragment r = (kEof, fragment, r\<lparr> lr_buffer := [] \<rparr>)"
proof -
  have "7 \<le> k" using assms(2,3) by (simp add: kHeaderSize_def)
  then have "take 7 (lr_buffer r) = record_header InitTypeCrc t d"
    by (simp add: assms(2) physical_def length_record_header min_def)
  from header_fields(1) [OF assms(1) this]
  show ?thesis using assms(4,5) by (simp add: parse_record_def Let_def)
qed

section \<open>The reader on the beginning of a log\<close>

context sequential_file
begin

text \<open>
  The reader stands at offset \<open>off\<close> of a block and \<open>rest\<close> is what it has not returned yet:
  the buffer holds the rest of the block, or the end of the file has been seen.
\<close>

definition reading :: "'f log_reader \<Rightarrow> nat \<Rightarrow> byte list \<Rightarrow> bool" where
  "reading r off rest \<longleftrightarrow> sound (lr_file r) \<and> rest = lr_buffer r @ contents (lr_file r) \<and> off \<le> kBlockSize
     \<and> (if lr_eof r then contents (lr_file r) = [] \<and> length (lr_buffer r) + off < kBlockSize
        else length (lr_buffer r) + off = kBlockSize)
     \<and> lr_initial_offset r = 0 \<and> \<not> lr_resyncing r"

lemma reading_eof:
  "reading r off rest \<Longrightarrow> lr_eof r \<Longrightarrow> reading (r\<lparr> lr_buffer := [] \<rparr>) off []"
  by (auto simp: reading_def)

lemma ReadPhysicalRecord_whole:
  assumes "reading r off (physical t d @ behind)" and "off + kHeaderSize + length d \<le> kBlockSize" and "t \<noteq> kZeroType"
  obtains r' where "ReadPhysicalRecord ops fragment r = (word_of_nat (type_code t), d, r')"
    "reading r' (off + kHeaderSize + length d) behind" "lr_reports r' = lr_reports r"
proof -
  have d: "length d < 65536" using assms(2) by (simp add: kBlockSize_def)
  obtain buf where buf: "lr_buffer r = physical t d @ buf" "behind = buf @ contents (lr_file r)"
  proof (cases "lr_eof r")
    case True
    then show thesis using assms(1) by (intro that [of behind]) (auto simp: reading_def)
  next
    case False
    then have "length (physical t d) \<le> length (lr_buffer r)" using assms(1,2) by (simp add: reading_def)
    moreover have "lr_buffer r @ contents (lr_file r) = physical t d @ behind" using assms(1) by (simp add: reading_def)
    ultimately have "lr_buffer r = physical t d @ drop (length (physical t d)) (lr_buffer r)"
      "behind = drop (length (physical t d)) (lr_buffer r) @ contents (lr_file r)"
      using append_split [of "lr_buffer r"] by blast+
    then show thesis by (rule that)
  qed
  have "ReadPhysicalRecord ops fragment r = (word_of_nat (type_code t), d, r\<lparr> lr_buffer := buf \<rparr>)"
    using parse_record_whole [OF d assms(3) buf(1), of fragment] assms(1) buf(1)
    by (simp add: ReadPhysicalRecord.simps [of ops fragment r] reading_def)
  moreover have "reading (r\<lparr> lr_buffer := buf \<rparr>) (off + kHeaderSize + length d) behind"
    using assms(1,2) buf by (auto simp: reading_def split: if_splits)
  ultimately show thesis by (rule that) simp
qed

lemma ReadPhysicalRecord_cut:
  assumes "reading r off rest" and "rest @ tail = physical t d @ behind" and "length rest < kHeaderSize + length d"
    and "off + kHeaderSize + length d \<le> kBlockSize"
  obtains r' where "ReadPhysicalRecord ops fragment r = (kEof, fragment, r')" "reading r' off []"
    "lr_reports r' = lr_reports r"
proof -
  have d: "length d < 65536" using assms(4) by (simp add: kBlockSize_def)
  have eof: "lr_eof r" using assms(1,3,4) by (auto simp: reading_def split: if_splits)
  then have rest: "rest = lr_buffer r" using assms(1) by (simp add: reading_def)
  have cut: "lr_buffer r = take (length rest) (physical t d)"
    using arg_cong [OF assms(2), of "take (length rest)"] assms(3) rest by simp
  have "ReadPhysicalRecord ops fragment r = (kEof, fragment, r\<lparr> lr_buffer := [] \<rparr>)"
    using parse_record_cut [OF d cut _ _ eof] assms(3) rest eof
    by (auto simp: ReadPhysicalRecord.simps [of ops fragment r])
  then show thesis using that reading_eof [OF assms(1) eof] by simp
qed

text \<open>Behind the last record of a block: the next block, or the end of the file.\<close>

lemma ReadPhysicalRecord_padding:
  assumes "reading r off rest" and "kBlockSize < off + kHeaderSize"
  obtains (refill) r' where "ReadPhysicalRecord ops fragment r = ReadPhysicalRecord ops fragment r'"
      "kBlockSize - off \<le> length rest" "reading r' 0 (drop (kBlockSize - off) rest)" "lr_reports r' = lr_reports r"
    | (eof) r' where "ReadPhysicalRecord ops fragment r = (kEof, fragment, r')"
      "length rest < kBlockSize - off \<or> length rest = kBlockSize - off" "reading r' off []" "lr_reports r' = lr_reports r"
proof (cases "lr_eof r")
  case True
  then have "length (lr_buffer r) + off < kBlockSize" "rest = lr_buffer r" using assms(1) by (simp_all add: reading_def)
  moreover from this assms(2) True have "ReadPhysicalRecord ops fragment r = (kEof, fragment, r\<lparr> lr_buffer := [] \<rparr>)"
    by (simp add: ReadPhysicalRecord.simps [of ops fragment r])
  ultimately show thesis
    using reading_eof [OF assms(1) True] by (intro eof [of "r\<lparr> lr_buffer := [] \<rparr>"]) auto
next
  case False
  then have buf: "length (lr_buffer r) + off = kBlockSize" and rest: "rest = lr_buffer r @ contents (lr_file r)"
    and sfile: "sound (lr_file r)"
    using assms(1) by (simp_all add: reading_def)
  obtain f where f: "sf_Read ops kBlockSize (lr_file r) = ((take kBlockSize (contents (lr_file r)), StatusOK), f)"
      "sound f" "contents f = drop kBlockSize (contents (lr_file r))"
    using read_cases [OF sfile] .
  let ?b = "take kBlockSize (contents (lr_file r))"
  define r' where "r' = r\<lparr> lr_file := f, lr_buffer := ?b,
    lr_end_of_buffer_offset := lr_end_of_buffer_offset r + word_of_nat (length ?b), lr_eof := length ?b < kBlockSize \<rparr>"
  have "read_block ops (r\<lparr> lr_buffer := [] \<rparr>) = (True, r')"
    using False by (simp add: read_block_def f(1) r'_def status_ok_def Let_def)
  then have "ReadPhysicalRecord ops fragment r = ReadPhysicalRecord ops fragment r'"
    using buf assms(2) False by (simp add: ReadPhysicalRecord.simps [of ops fragment r])
  moreover have "reading r' 0 (drop (kBlockSize - off) rest)"
    using assms(1) f(2,3) buf by (auto simp: reading_def r'_def rest min_def)
  ultimately show thesis using buf rest by (intro refill [of r']) (auto simp: r'_def)
qed

text \<open>A turn of the loop on a whole fragment, and at the end of the file.\<close>

lemma loop_end:
  assumes "ReadPhysicalRecord ops (rv_fragment v) r = (kEof, fragment, r')" and "\<not> lr_resyncing r'"
  shows "ReadRecord_loop (Suc n) ops v r = Some (None, r')"
proof -
  have "kEof \<noteq> 1" "kEof \<noteq> 2" "kEof \<noteq> 3" "kEof \<noteq> 4" by (simp_all add: kEof_def kMaxRecordType_def)
  moreover have "r'\<lparr> lr_resyncing := False \<rparr> = r'" using assms(2) by simp
  ultimately show ?thesis using assms by (simp add: ReadRecord_loop.simps Let_def record_turn_def)
qed

lemma loop_fragment:
  assumes "ReadPhysicalRecord ops (rv_fragment v) r = (word_of_nat (type_code (fragment_type bgn whole)), d, r')"
    and "\<not> lr_resyncing r'" and "rv_in_fragmented v \<longleftrightarrow> \<not> bgn"
  obtains (last) r'' where "whole" "ReadRecord_loop (Suc n) ops v r
        = Some (Some ((if bgn then [] else rv_scratch v) @ d), r'')"
      "\<exists>x. r'' = r'\<lparr> lr_last_record_offset := x \<rparr>"
    | (continued) v' where "\<not> whole" "ReadRecord_loop (Suc n) ops v r = ReadRecord_loop n ops v' r'"
      "rv_in_fragmented v'" "rv_scratch v' = (if bgn then [] else rv_scratch v) @ d"
proof -
  have same: "r'\<lparr> lr_resyncing := False \<rparr> = r'" using assms(2) by simp
  show thesis
  proof (cases whole)
    case True
    then show thesis using assms
      by (cases bgn; intro last) (auto simp: ReadRecord_loop.simps Let_def record_turn_def same fragment_type_def)
  next
    case False
    then show thesis using assms
      by (cases bgn) (auto simp: ReadRecord_loop.simps Let_def record_turn_def same fragment_type_def intro!: continued)
  qed
qed

lemma reading_simps [simp]:
  "reading (r\<lparr> lr_last_record_offset := x \<rparr>) off rest \<longleftrightarrow> reading r off rest"
  by (simp add: reading_def)

lemma reading_not_resyncing: "reading r off rest \<Longrightarrow> \<not> lr_resyncing r"
  by (simp add: reading_def)

text \<open>
  The loop on the beginning of a layout: the whole record when all of it is there, and
  otherwise the end of the file, without a report.
\<close>

lemma ReadRecord_loop_layout:
  assumes "reading r off rest" and "rest @ tail = fst (layout off bgn data) @ behind"
    and "rv_in_fragmented v \<longleftrightarrow> \<not> bgn" and "length rest < n"
  shows "\<exists>r'. lr_reports r' = lr_reports r \<and>
    (if length (fst (layout off bgn data)) \<le> length rest
     then ReadRecord_loop n ops v r = Some (Some ((if bgn then [] else rv_scratch v) @ data), r')
       \<and> reading r' (snd (layout off bgn data)) (drop (length (fst (layout off bgn data))) rest)
     else ReadRecord_loop n ops v r = Some (None, r') \<and> (\<exists>off'. reading r' off' []))"
  using assms
proof (induction off bgn data arbitrary: r rest n v rule: layout.induct)
  case (1 off bgn data)
  define m where "m = fragment_size off data"
  define whole where "whole \<longleftrightarrow> m = length data"
  let ?p = "physical (fragment_type bgn whole) (take m data)" and ?o = "block_start off"
  define off' where "off' = ?o + kHeaderSize + m"
  define A where "A = (if bgn then [] else rv_scratch v) @ data"
  define F where "F = layout off bgn data"
  define L where "L = (if whole then [] else fst (layout off' False (drop m data)))"
  have m: "m \<le> length data" "length (take m data) = m" by (simp_all add: m_def)
  have layout: "fst F = padding off @ ?p @ L" "snd F = (if whole then off' else snd (layout off' False (drop m data)))"
    unfolding L_def off'_def whole_def m_def F_def
    by (simp_all add: layout.simps [of off] Let_def split_beta)
  have fits: "?o + kHeaderSize + m \<le> kBlockSize" unfolding m_def by (rule fragment_fits)
  obtain k where k: "n = Suc k" using 1(5) by (cases n) auto
  text \<open>Behind the padding.\<close>
  have main: "\<exists>r'. lr_reports r' = lr_reports s \<and>
      (if length (?p @ L) \<le> length q
       then ReadRecord_loop n ops v s = Some (Some A, r')
         \<and> reading r' (snd F) (drop (length (?p @ L)) q)
       else ReadRecord_loop n ops v s = Some (None, r') \<and> (\<exists>off'. reading r' off' []))"
    if s: "reading s ?o q" and q: "q @ tail = (?p @ L) @ behind" "length q \<le> length rest" for s q
  proof (cases "length ?p \<le> length q")
    case False
    then have short: "length q < kHeaderSize + length (take m data)" by simp
    have eq: "q @ tail = ?p @ (L @ behind)" using q(1) by simp
    obtain s' where "ReadPhysicalRecord ops (rv_fragment v) s = (kEof, rv_fragment v, s')" "reading s' ?o []"
        "lr_reports s' = lr_reports s"
      using ReadPhysicalRecord_cut [OF s eq short] fits m by auto
    then show ?thesis
      using False loop_end [of v s "rv_fragment v" s' k] reading_not_resyncing k by fastforce
  next
    case True
    define q' where "q' = drop (length ?p) q"
    have qs: "q = ?p @ q'" "q' @ tail = L @ behind"
      using append_split [of q tail ?p "L @ behind"] q(1) True by (simp_all add: q'_def)
    have t: "fragment_type bgn whole \<noteq> kZeroType" by (simp add: fragment_type_def)
    obtain s' where s': "ReadPhysicalRecord ops (rv_fragment v) s
          = (word_of_nat (type_code (fragment_type bgn whole)), take m data, s')"
        "reading s' off' q'" "lr_reports s' = lr_reports s"
      using ReadPhysicalRecord_whole [OF s [unfolded qs(1)] _ t, of "rv_fragment v"] fits m
      unfolding off'_def by auto
    show ?thesis
    proof (cases rule: loop_fragment [OF s'(1) reading_not_resyncing [OF s'(2)] 1(4), of k])
      case (1 s'')
      then have whole: "take m data = data" "L = []" "snd F = off'" by (auto simp: whole_def L_def layout)
      obtain x where "s'' = s'\<lparr> lr_last_record_offset := x \<rparr>" using 1(3) by blast
      then have "lr_reports s'' = lr_reports s" "reading s'' off' q'" using s' by simp_all
      moreover have "ReadRecord_loop n ops v s = Some (Some A, s'')" using 1(2) k whole by (simp add: A_def)
      moreover have "length (?p @ L) \<le> length q" "drop (length (?p @ L)) q = q'"
        using qs(1) whole(2) by simp_all
      ultimately show ?thesis using whole(3) by metis
    next
      case (2 v')
      have frag: "m = fragment_size off data" "off' = block_start off + kHeaderSize + m" "m \<noteq> length data"
        using 2(1) by (simp_all add: m_def off'_def whole_def)
      have tail: "q' @ tail = fst (layout off' False (drop m data)) @ behind" using qs(2) 2(1) by (simp add: L_def)
      have len: "length q' < k" using 1(5) q(2) qs(1) k by (simp add: kHeaderSize_def)
      have frag': "rv_in_fragmented v' = (\<not> False)" using 2(3) by simp
      have L: "fst (layout off' False (drop m data)) = L" using 2(1) by (simp add: L_def)
      have "length (?p @ L) \<le> length q \<longleftrightarrow> length (fst (layout off' False (drop m data))) \<le> length q'"
        "drop (length (?p @ L)) q = drop (length (fst (layout off' False (drop m data)))) q'"
        unfolding L by (subst qs(1), simp)+
      moreover have "snd F = snd (layout off' False (drop m data))" using 2(1) layout(2) by simp
      moreover have "rv_scratch v' @ drop m data = A" by (simp add: A_def 2(4))
      moreover have "ReadRecord_loop n ops v s = ReadRecord_loop k ops v' s'" using 2(2) k by simp
      ultimately show ?thesis
        using 1(1) [OF frag(1,2) refl frag(3) s'(2) tail frag' len] s'(3) by (simp only: if_False)
    qed
  qed
  have tail: "rest @ tail = padding off @ ((?p @ L) @ behind)"
    using 1(3) by (simp only: F_def [symmetric] layout append.assoc)
  have "\<exists>r'. lr_reports r' = lr_reports r \<and>
      (if length (fst F) \<le> length rest
       then ReadRecord_loop n ops v r = Some (Some A, r') \<and> reading r' (snd F) (drop (length (fst F)) rest)
       else ReadRecord_loop n ops v r = Some (None, r') \<and> (\<exists>off'. reading r' off' []))"
  proof (cases "off + kHeaderSize \<le> kBlockSize")
    case True
    then have "padding off = []" "?o = off" by (simp_all add: padding_def block_start_def)
    then show ?thesis using main [of r rest] 1(2) tail by (simp only: layout append_Nil order_refl)
  next
    case False
    then have pad: "padding off = replicate (kBlockSize - off) 0" "?o = 0"
      by (simp_all add: padding_def block_start_def)
    have behind_last: "kBlockSize < off + kHeaderSize" using False by simp
    show ?thesis
    proof (cases rule: ReadPhysicalRecord_padding [OF 1(2) behind_last, of "rv_fragment v"])
      case (1 s)
      define q where "q = drop (kBlockSize - off) rest"
      have q: "rest = padding off @ q" "q @ tail = (?p @ L) @ behind"
        using append_split [OF tail] 1(2) by (simp_all add: q_def pad)
      have "ReadRecord_loop n ops v r = ReadRecord_loop n ops v s"
        using 1(1) k by (simp add: ReadRecord_loop.simps)
      moreover have "reading s ?o q" using 1(3) by (simp add: q_def pad)
      moreover have "length q \<le> length rest" by (simp add: q_def)
      moreover have "length (fst F) \<le> length rest \<longleftrightarrow> length (?p @ L) \<le> length q"
        "drop (length (fst F)) rest = drop (length (?p @ L)) q"
        unfolding layout(1) q(1) by simp_all
      ultimately show ?thesis
        using main [of s q, OF _ q(2)] 1(4) by metis
    next
      case (2 s)
      then have "\<not> length (fst F) \<le> length rest"
        by (auto simp: layout pad kHeaderSize_def)
      then show ?thesis
        using 2 loop_end [of v r "rv_fragment v" s k] reading_not_resyncing k by fastforce
    qed
  qed
  then show ?case unfolding A_def F_def .
qed

text \<open>At the end of a log there is nothing to read.\<close>

lemma ReadRecord_loop_end:
  assumes "reading r off []" and "\<not> rv_in_fragmented v" and "0 < n"
  obtains r' where "ReadRecord_loop n ops v r = Some (None, r')" "lr_reports r' = lr_reports r"
proof -
  let ?L = "fst (layout off True [])"
  have "fragment_size off [] = 0" by (simp add: fragment_size_def)
  then have "0 < length ?L" by (simp add: layout.simps [of off] Let_def kHeaderSize_def)
  then show thesis
    using ReadRecord_loop_layout [of r off "[]" ?L True "[]" "[]" v n] assms that by auto
qed

lemma ReadRecord_reading:
  "reading r off rest \<Longrightarrow> ReadRecord n ops r = ReadRecord_loop n ops
     \<lparr> rv_in_fragmented = False, rv_prospective = 0, rv_fragment = [], rv_scratch = [] \<rparr> r"
  by (simp add: ReadRecord_def reading_def)

lemma reading_Reader: "sound f \<Longrightarrow> reading (Reader f rep chk 0) kBlockSize (contents f)"
  by (simp add: reading_def Reader_def)

end

section \<open>Whole logs\<close>

text \<open>A client that writes records, and one that reads until there is no record left.\<close>

definition AddRecords :: "'f WritableFile \<Rightarrow> slice list \<Rightarrow> 'f log_writer \<Rightarrow> 'f log_writer" where
  "AddRecords ops records w = fold (\<lambda>data w. snd (AddRecord ops data w)) records w"

fun ReadRecords :: "nat \<Rightarrow> nat \<Rightarrow> 'f SequentialFile \<Rightarrow> 'f log_reader \<Rightarrow> (slice list \<times> 'f log_reader) option" where
  "ReadRecords 0 n ops r = None"
| "ReadRecords (Suc m) n ops r = (case ReadRecord n ops r of
      None \<Rightarrow> None
    | Some (None, r) \<Rightarrow> Some ([], r)
    | Some (Some data, r) \<Rightarrow> map_option (\<lambda>(records, r). (data # records, r)) (ReadRecords m n ops r))"

primrec layouts :: "nat \<Rightarrow> slice list \<Rightarrow> byte list" where
  "layouts off [] = []"
| "layouts off (data # records) =
     fst (layout off True data) @ layouts (snd (layout off True data)) records"

lemma layout_new_block: "layout kBlockSize bgn data = layout 0 bgn data"
proof -
  have "block_start kBlockSize = block_start 0" "padding kBlockSize = padding 0"
    by (simp_all add: block_start_def padding_def kHeaderSize_def kBlockSize_def)
  then show ?thesis by (subst (1 2) layout.simps) (simp only: fragment_size_def)
qed

lemma layouts_new_block: "layouts kBlockSize records = layouts 0 records"
  by (cases records) (simp_all add: layout_new_block)

context writable_file
begin

lemma AddRecords_written:
  assumes "sound (lw_dest w)" and "lw_type_crc w = InitTypeCrc"
  shows "contents (lw_dest (AddRecords ops records w)) = contents (lw_dest w) @ layouts (lw_block_offset w) records
    \<and> sound (lw_dest (AddRecords ops records w))"
  using assms
proof (induction records arbitrary: w)
  case (Cons data records)
  obtain w' where w': "AddRecord ops data w = (StatusOK, w')" "sound (lw_dest w')" "lw_type_crc w' = InitTypeCrc"
      "contents (lw_dest w') = contents (lw_dest w) @ fst (layout (lw_block_offset w) True data)"
      "lw_block_offset w' = snd (layout (lw_block_offset w) True data)"
    using AddRecord_loop_sound [OF Cons.prems] unfolding AddRecord_def by blast
  then show ?case using Cons.IH [OF w'(2,3)] by (simp add: AddRecords_def)
qed (simp add: AddRecords_def)

lemmas AddRecords_contents = AddRecords_written [THEN conjunct1]

lemmas AddRecords_sound = AddRecords_written [THEN conjunct2]

end

context sequential_file
begin

lemma ReadRecords_layouts:
  assumes "reading r off rest" and "rest @ tail = layouts off records" and "length records < m" and "length rest < n"
  shows "\<exists>k r'. ReadRecords m n ops r = Some (take k records, r') \<and> lr_reports r' = lr_reports r \<and> k \<le> length records
    \<and> (\<forall>j \<le> length records. length (layouts off (take j records)) \<le> length rest \<longleftrightarrow> j \<le> k)"
  using assms
proof (induction records arbitrary: r off rest m)
  case Nil
  then have rest: "rest = []" by simp
  obtain m' where m: "m = Suc m'" using Nil.prems(3) by (cases m) auto
  obtain r' where "ReadRecord n ops r = Some (None, r')" "lr_reports r' = lr_reports r"
    using ReadRecord_loop_end [of r off _ n] Nil.prems(1,4) rest ReadRecord_reading [OF Nil.prems(1)]
    by (metis gr_implies_not0 gr0I list.size(3) record_vars.select_convs(1))
  then show ?case using m by auto
next
  case (Cons data records)
  obtain m' where m: "m = Suc m'" using Cons.prems(3) by (cases m) auto
  let ?v = "\<lparr> rv_in_fragmented = False, rv_prospective = 0, rv_fragment = [], rv_scratch = [] \<rparr>"
  define L where "L = fst (layout off True data)"
  define off' where "off' = snd (layout off True data)"
  have split: "rest @ tail = L @ layouts off' records" using Cons.prems(2) by (simp add: L_def off'_def)
  from ReadRecord_loop_layout [OF Cons.prems(1) split [unfolded L_def] _ Cons.prems(4), of ?v]
  obtain r' where r': "lr_reports r' = lr_reports r"
    "if length L \<le> length rest then ReadRecord n ops r = Some (Some data, r') \<and> reading r' off' (drop (length L) rest)
     else ReadRecord n ops r = Some (None, r')"
    unfolding ReadRecord_reading [OF Cons.prems(1)] L_def off'_def by (auto split: if_splits)
  have first: "length (layouts off (take j (data # records))) =
      (case j of 0 \<Rightarrow> 0 | Suc i \<Rightarrow> length L + length (layouts off' (take i records)))" for j
    by (simp add: L_def off'_def split: nat.splits)
  show ?case
  proof (cases "length L \<le> length rest")
    case True
    have rest: "drop (length L) rest @ tail = layouts off' records" by (rule append_split(2) [OF split True])
    obtain k r'' where k: "ReadRecords m' n ops r' = Some (take k records, r'')" "lr_reports r'' = lr_reports r'"
      "\<forall>j \<le> length records. length (layouts off' (take j records)) \<le> length (drop (length L) rest) \<longleftrightarrow> j \<le> k"
      "k \<le> length records"
    proof -
      have "reading r' off' (drop (length L) rest)" using r'(2) True by simp
      moreover have "length records < m'" "length (drop (length L) rest) < n" using Cons.prems(3,4) m by auto
      ultimately show thesis using Cons.IH [OF _ rest] that by blast
    qed
    have "ReadRecords m n ops r = Some (take (Suc k) (data # records), r'')"
      using r'(2) True k(1) m by simp
    moreover have "length (layouts off (take j (data # records))) \<le> length rest \<longleftrightarrow> j \<le> Suc k"
      if "j \<le> length (data # records)" for j
    proof (cases j)
      case (Suc i)
      then have "length (layouts off' (take i records)) \<le> length (drop (length L) rest) \<longleftrightarrow> i \<le> k"
        using k(3) that by simp
      then show ?thesis unfolding first using Suc True by (simp add: le_diff_conv2 add.commute)
    qed (simp add: first)
    moreover have "Suc k \<le> length (data # records)" using k(4) by simp
    ultimately show ?thesis using k(2) r'(1) by metis
  next
    case False
    have "ReadRecords m n ops r = Some (take 0 (data # records), r')" using r'(2) False m by simp
    moreover have "length (layouts off (take j (data # records))) \<le> length rest \<longleftrightarrow> j \<le> 0" for j
      using False unfolding first by (auto split: nat.splits)
    ultimately show ?thesis using r'(1) le0 by metis
  qed
qed

end

section \<open>Several sessions\<close>

text \<open>The offset behind the records, and that it is the size of the file within the block.\<close>

primrec layouts_end :: "nat \<Rightarrow> slice list \<Rightarrow> nat" where
  "layouts_end off [] = off"
| "layouts_end off (data # records) = layouts_end (snd (layout off True data)) records"

lemma layouts_append: "layouts off (xs @ ys) = layouts off xs @ layouts (layouts_end off xs) ys"
  by (induction xs arbitrary: off) simp_all

lemma start_mod:
  "off \<le> kBlockSize \<Longrightarrow> (block_start off + n) mod kBlockSize = (off + (length (padding off) + n)) mod kBlockSize"
  by (auto simp: block_start_def padding_def add.assoc [symmetric])

lemma layout_offset_mod:
  "off \<le> kBlockSize \<Longrightarrow>
    snd (layout off bgn data) mod kBlockSize = (off + length (fst (layout off bgn data))) mod kBlockSize"
proof (induction off bgn data rule: layout.induct)
  case (1 off bgn data)
  define n where "n = fragment_size off data"
  define off' where "off' = block_start off + kHeaderSize + n"
  have fits: "off' \<le> kBlockSize" unfolding off'_def n_def by (rule fragment_fits)
  have n: "n \<le> length data" by (simp add: n_def)
  have start: "(off' + k) mod kBlockSize = (off + (length (padding off) + (kHeaderSize + n + k))) mod kBlockSize" for k
    using start_mod [OF 1(2), of "kHeaderSize + n + k"] by (simp only: off'_def add.assoc)
  show ?case
  proof (cases "n = length data")
    case True
    then show ?thesis using start [of 0]
      by (simp add: layout.simps [of off] Let_def n_def [symmetric] off'_def)
  next
    case False
    let ?rest = "layout off' False (drop n data)"
    have "layout off bgn data = (padding off @ physical (fragment_type bgn False) (take n data) @ fst ?rest, snd ?rest)"
      using False unfolding off'_def n_def by (simp add: layout.simps [of off] Let_def split_beta)
    then show ?thesis
      using 1(1) [OF n_def off'_def refl False fits] n start [of "length (fst ?rest)"] by simp
  qed
qed

lemma layouts_end_mod:
  "off \<le> kBlockSize \<Longrightarrow> layouts_end off records \<le> kBlockSize
    \<and> layouts_end off records mod kBlockSize = (off + length (layouts off records)) mod kBlockSize"
proof (induction records arbitrary: off)
  case (Cons data records)
  let ?off = "snd (layout off True data)" and ?k = "length (layouts (snd (layout off True data)) records)"
  have "(?off + ?k) mod kBlockSize = (off + length (fst (layout off True data)) + ?k) mod kBlockSize"
    using layout_offset_mod [OF Cons.prems, of True data] by (metis mod_add_left_eq)
  then show ?case using Cons.IH [OF layout_offset [of off True data]] by (simp add: add.assoc)
qed simp

lemma layouts_mod: "off \<le> kBlockSize \<Longrightarrow> layouts (off mod kBlockSize) records = layouts off records"
  using layouts_new_block [of records] by (cases "off = kBlockSize") simp_all

lemma layouts_reopened:
  "layouts (length (layouts 0 xs) mod kBlockSize) ys = layouts (layouts_end 0 xs) ys"
  using layouts_end_mod [of 0 xs] layouts_mod [of "layouts_end 0 xs" ys] by simp

text \<open>
  Sessions of a program that opens the log, appends records to it and leaves it: the
  writer starts at the size of the file.
\<close>

primrec write_sessions :: "slice list list \<Rightarrow> wstream \<Rightarrow> wstream" where
  "write_sessions [] f = f"
| "write_sessions (records # sessions) f =
     write_sessions sessions (lw_dest (AddRecords PosixWritableFile records (Writer f (length (ws_data f)))))"

lemma write_session:
  fixes records :: "slice list"
  assumes "sound_wstream f" and "ws_data f = layouts 0 xs"
  defines "g \<equiv> lw_dest (AddRecords PosixWritableFile records (Writer f (length (ws_data f))))"
  shows "sound_wstream g" and "ws_data g = layouts 0 (xs @ records)"
proof -
  let ?w = "Writer f (length (ws_data f))"
  have w: "sound_wstream (lw_dest ?w)" "lw_type_crc ?w = InitTypeCrc"
    "lw_block_offset ?w = length (layouts 0 xs) mod kBlockSize"
    by (simp_all add: Writer_def assms)
  show "sound_wstream g"
    unfolding g_def by (rule posix_writable.AddRecords_sound) (rule w)+
  show "ws_data g = layouts 0 (xs @ records)"
    using posix_writable.AddRecords_contents [OF w(1,2), of records]
    by (simp add: g_def w(3) layouts_reopened layouts_append) (simp add: Writer_def assms)
qed

lemma write_sessions_contents:
  assumes "sound_wstream f" and "ws_data f = layouts 0 xs"
  shows "ws_data (write_sessions sessions f) = layouts 0 (xs @ concat sessions)"
  using assms
proof (induction sessions arbitrary: f xs)
  case (Cons records sessions)
  then show ?case using write_session [OF Cons.prems, of records] by simp
qed simp

end
