(* ===== verification/Ldb_Log_Term.thy ===== *)
theory Ldb_Log_Term
  imports Ldb_Log
begin

text \<open>
  The reader of logs returns whatever the file holds, damaged records and failing reads
  included: every turn of its loop consumes bytes or sees the end of the file.
\<close>

locale finite_file =
  fixes ops :: "'f SequentialFile" and left :: "'f \<Rightarrow> nat"
  assumes read_consumes: "sf_Read ops n f = ((bytes, s), f') \<Longrightarrow> length bytes + left f' \<le> left f"
    and skip_consumes: "sf_Skip ops n f = (s, f') \<Longrightarrow> left f' \<le> left f"
begin

definition unread :: "'f log_reader \<Rightarrow> nat" where
  "unread r = length (lr_buffer r) + left (lr_file r)"

lemma unread_report [simp]:
  "unread (ReportDrop bytes reason r) = unread r" "unread (ReportCorruption bytes msg r) = unread r"
  by (simp_all add: ReportCorruption_def ReportDrop_def unread_def)

lemma unread_update [simp]:
  "unread (r\<lparr> lr_eof := e \<rparr>) = unread r" "unread (r\<lparr> lr_resyncing := q \<rparr>) = unread r"
  "unread (r\<lparr> lr_last_record_offset := x \<rparr>) = unread r"
  "unread (r\<lparr> lr_buffer := [] \<rparr>) = left (lr_file r)" "left (lr_file r) \<le> unread r"
  by (simp_all add: unread_def)

lemma unread_drop:
  "7 \<le> length (lr_buffer r) \<Longrightarrow> 7 \<le> k \<Longrightarrow> unread (r\<lparr> lr_buffer := drop k (lr_buffer r) \<rparr>) < unread r"
  "7 \<le> length (lr_buffer r) \<Longrightarrow> left (lr_file r) < unread r"
  by (auto simp: unread_def)

lemma unread_read_block:
  assumes "read_block ops r = (ok, r')" and "lr_buffer r = []"
  shows "unread r' \<le> unread r"
proof -
  obtain buf s f' where "sf_Read ops kBlockSize (lr_file r) = ((buf, s), f')" by (metis surj_pair)
  then show ?thesis
    using assms read_consumes [of kBlockSize "lr_file r" buf s f']
    by (auto simp: read_block_def Let_def unread_def ReportDrop_def split: if_splits)
qed

lemma unread_parse_record:
  assumes "parse_record fragment r = (t, d, r')" and "kHeaderSize \<le> length (lr_buffer r)"
  shows "unread r' < unread r"
  using assms(1) assms(2) [unfolded kHeaderSize_def]
  by (auto simp: parse_record_def Let_def kHeaderSize_def unread_drop split: if_splits)

lemma unread_ReadPhysicalRecord:
  assumes "ReadPhysicalRecord ops fragment r = (t, d, r')"
  shows "unread r' \<le> unread r \<and> (t \<noteq> kEof \<longrightarrow> unread r' < unread r)"
proof -
  have "unread r' \<le> unread r \<and> (t \<noteq> kEof \<longrightarrow> unread r' < unread r)"
    if "ReadPhysicalRecord ops' fragment r = (t, d, r')" and "ops' = ops" for ops'
    using that
  proof (induction ops' fragment r rule: ReadPhysicalRecord.induct)
    case (1 ops' fragment r)
    note step = ReadPhysicalRecord.simps [of ops' fragment r]
    obtain ok r0 where b: "read_block ops' (r\<lparr> lr_buffer := [] \<rparr>) = (ok, r0)" by (metis surj_pair)
    have r0: "unread r0 \<le> unread r"
      using unread_read_block [OF b [unfolded 1(3)]] by (simp add: unread_def)
    consider "kHeaderSize \<le> length (lr_buffer r)" | "length (lr_buffer r) < kHeaderSize" "lr_eof r"
      | "length (lr_buffer r) < kHeaderSize" "\<not> lr_eof r" "\<not> ok"
      | "length (lr_buffer r) < kHeaderSize" "\<not> lr_eof r" "ok" by linarith
    then show ?case
    proof cases
      case 1
      then show ?thesis using \<open>ReadPhysicalRecord ops' fragment r = (t, d, r')\<close> unread_parse_record
        unfolding step by (auto intro: less_imp_le)
    next
      case 2
      then show ?thesis using \<open>ReadPhysicalRecord ops' fragment r = (t, d, r')\<close>
        unfolding step by auto
    next
      case 3
      then show ?thesis using \<open>ReadPhysicalRecord ops' fragment r = (t, d, r')\<close> r0
        unfolding step by (auto simp: b)
    next
      case 4
      have "ReadPhysicalRecord ops' fragment r0 = (t, d, r')"
        using \<open>ReadPhysicalRecord ops' fragment r = (t, d, r')\<close> 4 unfolding step by (simp add: b)
      with 1(1) [OF 4(1,2) b [symmetric]] 4(3) 1(3) r0 show ?thesis by auto
    qed
  qed
  then show ?thesis using assms by blast
qed

lemma unread_record_turn:
  "record_turn t x v r = (y, v', r') \<Longrightarrow> unread r' = unread r"
  "record_turn t x v r = (y, v', r') \<Longrightarrow> t = kEof \<Longrightarrow> y = NoMore"
  by (auto simp: record_turn_def Let_def kEof_def kMaxRecordType_def split: if_splits)

lemma ReadRecord_loop_returns:
  "unread r < n \<Longrightarrow> \<exists>x r'. ReadRecord_loop n ops v r = Some (x, r') \<and> unread r' \<le> unread r
     \<and> (x \<noteq> None \<longrightarrow> unread r' < unread r)"
proof (induction n arbitrary: v r)
  case (Suc n)
  obtain t d r1 where p: "ReadPhysicalRecord ops (rv_fragment v) r = (t, d, r1)" by (metis surj_pair)
  note less = unread_ReadPhysicalRecord [OF p]
  define v1 where "v1 = v\<lparr> rv_fragment := d \<rparr>"
  define x where "x = lr_end_of_buffer_offset r1 - word_of_nat (length (lr_buffer r1))
            - word_of_nat kHeaderSize - word_of_nat (length d)"
  obtain y v2 r2 where t: "record_turn t x v1 (r1\<lparr> lr_resyncing := False \<rparr>) = (y, v2, r2)" by (metis surj_pair)
  have r2: "unread r2 = unread r1" using unread_record_turn(1) [OF t] by simp
  have eof: "t = kEof \<Longrightarrow> y = NoMore" by (rule unread_record_turn(2) [OF t])
  have again: "\<exists>x r'. ReadRecord_loop n ops w q = Some (x, r') \<and> unread r' \<le> unread r
      \<and> (x \<noteq> None \<longrightarrow> unread r' < unread r)" if "unread q = unread r1" "t \<noteq> kEof" for w q
    using Suc.IH [of q w] Suc.prems less that by fastforce
  have kEof: "kEof \<noteq> 3" "kEof \<noteq> 4" by (simp_all add: kEof_def kMaxRecordType_def)
  consider "lr_resyncing r1 \<and> t = 3" | "lr_resyncing r1 \<and> t = 4"
    | "\<not> (lr_resyncing r1 \<and> t = 3)" "\<not> (lr_resyncing r1 \<and> t = 4)" by blast
  then show ?case
  proof cases
    case 1
    then show ?thesis using again [of r1 v1] kEof p
      by (simp add: ReadRecord_loop.simps Let_def v1_def)
  next
    case 2
    then show ?thesis using again [of "r1\<lparr> lr_resyncing := False \<rparr>" v1] kEof p
      by (simp add: ReadRecord_loop.simps Let_def v1_def)
  next
    case 3
    have "ReadRecord_loop (Suc n) ops v r = (case y of Again \<Rightarrow> ReadRecord_loop n ops v2 r2
        | Found record \<Rightarrow> Some (Some record, r2) | NoMore \<Rightarrow> Some (None, r2))"
      using 3 t by (auto simp: ReadRecord_loop.simps Let_def p v1_def x_def split: turn.split)
    then show ?thesis using again [of r2 v2] less r2 eof by (auto split: turn.split)
  qed
qed simp

lemma ReadRecord_returns:
  assumes "unread r < n"
  shows "\<exists>x r'. ReadRecord n ops r = Some (x, r') \<and> unread r' \<le> unread r \<and> (x \<noteq> None \<longrightarrow> unread r' < unread r)"
proof -
  obtain ok q where q: "(if lr_last_record_offset r < lr_initial_offset r then SkipToInitialBlock ops r else (True, r)) = (ok, q)"
    by (metis surj_pair)
  have "unread q \<le> unread r"
  proof (cases "lr_last_record_offset r < lr_initial_offset r")
    case True
    then show ?thesis using q skip_consumes [of _ "lr_file r"]
      by (auto simp: SkipToInitialBlock_def Let_def unread_def ReportDrop_def split: if_splits prod.splits)
  qed (use q in simp)
  then show ?thesis
    using ReadRecord_loop_returns [of q n] assms unfolding ReadRecord_def Let_def q by fastforce
qed

end

interpretation posix_finite: finite_file PosixSequentialFile "\<lambda>f. length (rs_rest f)"
  by unfold_locales
    (auto simp: PosixSequentialFile_def PosixSequentialFile_Read_def PosixSequentialFile_Skip_def fread_def
      Let_def split: option.splits if_splits)

end
