(* ===== verification/Ldb_Crc_Detect.thy ===== *)
theory Ldb_Crc_Detect
  imports Ldb_Crc32c
begin

text \<open>
  What the checksum detects: damage of any kind that is confined to four adjacent bytes.
  One step of the reference loses nothing of its state, so two strings that differ only
  there keep different checksums.
\<close>

lemma bytes_eq_iff: "length x = length y \<Longrightarrow> le_value x = le_value y \<longleftrightarrow> x = y"
  by (metis le_bytes_le_value)

lemma xor_right_inj: "x XOR z = y XOR z \<longleftrightarrow> x = y" for x y z :: "'a::len word"
proof
  assume "x XOR z = y XOR z"
  then have "(x XOR z) XOR z = (y XOR z) XOR z" by simp
  then show "x = y" by (simp add: xor.assoc)
qed simp

lemma xor_left_inj: "z XOR x = z XOR y \<longleftrightarrow> x = y" for x y z :: "'a::len word"
  by (simp only: xor.commute [of z] xor_right_inj)

lemma xor_eq_0: "x XOR y = 0 \<longleftrightarrow> x = y" for x y :: "'a::len word"
  using xor_right_inj [of x y y] by simp

lemma crc_bit_eq_0:
  assumes "crc_bit l = 0"
  shows "l = 0"
proof -
  have "\<not> bit (drop_bit 1 l) 31"
    using bit_imp_le_length [of l 32] by (auto simp: bit_simps)
  moreover have "bit (0x82f63b78 :: 32 word) 31" by code_simp
  ultimately have "drop_bit 1 l \<noteq> 0x82f63b78" by metis
  then have even: "\<not> bit l 0" using assms by (auto simp: crc_bit_def xor_eq_0 simp del: bit_0)
  then have "drop_bit 1 l = 0" using assms by (simp add: crc_bit_def del: bit_0)
  then have "\<not> bit l (Suc n)" for n
    using bit_drop_bit_eq [of 1 l] by (metis bit_0_eq bot_apply bot_bool_def comp_apply plus_1_eq_Suc)
  then show ?thesis
    using even by (intro bit_word_eqI) (metis bit_0_eq bot_apply bot_bool_def not0_implies_Suc)
qed

lemma crc_bit_inj: "crc_bit x = crc_bit y \<longleftrightarrow> x = y"
proof
  assume "crc_bit x = crc_bit y"
  then have "crc_bit (x XOR y) = 0" by (simp only: crc_bit_xor xor_self_eq)
  then show "x = y" using crc_bit_eq_0 xor_eq_0 by blast
qed simp

lemma crc8_inj: "crc8 x = crc8 y \<longleftrightarrow> x = y"
  by (simp add: crc8_def crc_bit_inj)

lemma crc8_funpow_inj: "(crc8 ^^ n) x = (crc8 ^^ n) y \<longleftrightarrow> x = y"
  by (induction n) (simp_all add: crc8_inj)

lemma foldl_crc_byte_inj: "foldl crc_byte l bs = foldl crc_byte k bs \<longleftrightarrow> l = k"
  by (induction bs arbitrary: l k) (simp_all add: crc_byte_def crc8_inj xor_right_inj)

lemma word32_of_bytes_inj:
  assumes "length x = length y" and "length x \<le> 4"
  shows "(word_of_nat (le_value x) :: 32 word) = word_of_nat (le_value y) \<longleftrightarrow> x = y"
proof -
  have "le_value z < 2 ^ 32" if "length z \<le> 4" for z
    using le_value_bound [of z] power_increasing [OF that, of "256 :: nat"] by simp
  then show ?thesis
    using assms by (simp add: word_of_nat_eq_iff take_bit_nat_eq_self bytes_eq_iff)
qed

lemma crc_detects:
  assumes "length x = length y" and "length x \<le> 4" and "x \<noteq> y"
  shows "crc_Value p (a @ x @ b) \<noteq> crc_Value q (a @ y @ b)"
  using assms
  by (simp add: crc_Value_def Extend_eq crc_reference_def foldl_crc_byte_inj crc_bytes_word
      crc8_funpow_inj xor_left_inj word32_of_bytes_inj)

text \<open>Damage: up to four adjacent bytes have changed.\<close>

definition burst :: "byte list \<Rightarrow> byte list \<Rightarrow> bool" where
  "burst d e \<longleftrightarrow> (\<exists>a x y b. d = a @ x @ b \<and> e = a @ y @ b \<and> length x = length y \<and> length x \<le> 4 \<and> x \<noteq> y)"

lemma burstE:
  assumes "burst d e"
  obtains "length e = length d" "crc_Value p e \<noteq> crc_Value p d"
  using assms crc_detects by (fastforce simp: burst_def)

lemma Mask_inj: "Mask x = Mask y \<longleftrightarrow> x = y"
  by (metis Unmask_Mask)

lemma Mask_Unmask: "Mask (Unmask x) = x"
proof -
  have "surj Mask" by (rule finite_UNIV_inj_surj) (simp_all add: inj_def Mask_inj)
  then obtain y where "x = Mask y" by (rule surjE)
  then show ?thesis by simp
qed

lemma DecodeFixed32_inj: "length p = 4 \<Longrightarrow> length q = 4 \<Longrightarrow> DecodeFixed32 p = DecodeFixed32 q \<longleftrightarrow> p = q"
  by (simp add: DecodeFixed32_eq word32_of_bytes_inj)

lemma ucast_scast_byte: "(ucast (scast (b :: byte) :: 32 word) :: byte) = b"
  by (rule bit_word_eqI) (simp add: bit_simps)

lemma scast_byte_eq_0: "(scast (b :: byte) :: 32 word) = 0 \<longleftrightarrow> b = 0"
proof
  assume "(scast b :: 32 word) = 0"
  then have "(ucast (scast b :: 32 word) :: byte) = 0" by simp
  then show "b = 0" by (simp add: ucast_scast_byte)
qed simp

end
