(* ===== verification/Ldb_Properties.thy ===== *)
theory Ldb_Properties
  imports Ldb_Log_Spec Ldb_Log_Term Ldb_Crc_Detect
begin

text \<open>
  What the encodings, the checksum and the log of leveldb promise.
\<close>

section \<open>The log\<close>

text \<open>C1: the log survives a crash. Whatever sessions of a program appended to a new log, and wherever
  in the file a crash cuts it off, the reader returns exactly the records all of whose bytes are
  in the file, in the order they were written and without a report of corruption.\<close>

theorem log_survives_crash:
  assumes "sound_wstream f" and "ws_data f = []"
    and "rs_rest g = take n (ws_data (write_sessions sessions f))" and "rs_defect g = None"
  shows "\<exists>k r. ReadRecords (Suc (length (concat sessions))) (Suc n) PosixSequentialFile (Reader g rep chk 0)
        = Some (take k (concat sessions), r)
      \<and> lr_reports r = [] \<and> k \<le> length (concat sessions)
      \<and> (\<forall>j \<le> length (concat sessions).
          length (ws_data (write_sessions [take j (concat sessions)] f)) \<le> n \<longleftrightarrow> j \<le> k)"
proof -
  let ?all = "concat sessions"
  have written: "ws_data (write_sessions s f) = layouts 0 (concat s)" for s
    using write_sessions_contents [of f "[]" s] assms(1,2) by simp
  have start: "posix_sequential.reading (Reader g rep chk 0) kBlockSize (rs_rest g)"
    by (rule posix_sequential.reading_Reader) (rule assms(4))
  have cut: "rs_rest g @ drop n (layouts 0 ?all) = layouts kBlockSize ?all"
    by (simp add: assms(3) written layouts_new_block)
  have short: "length (layouts 0 (take j ?all)) \<le> length (layouts 0 ?all)" for j
    using layouts_append [of 0 "take j ?all" "drop j ?all"] by simp
  have "length (layouts 0 (take j ?all)) \<le> length (rs_rest g) \<longleftrightarrow> length (layouts 0 (take j ?all)) \<le> n" for j
    using short [of j] by (auto simp: assms(3) written)
  moreover have "length (rs_rest g) < Suc n" by (simp add: assms(3))
  moreover have "lr_reports (Reader g rep chk 0) = []" by (simp add: Reader_def)
  ultimately show ?thesis
    using posix_sequential.ReadRecords_layouts [OF start cut, of "Suc (length ?all)" "Suc n"]
    by (simp add: written layouts_new_block del: ReadRecords.simps write_sessions.simps)
qed

lemma log_survives_crash_witness:
  "\<exists>k r. ReadRecords 4 21 PosixSequentialFile (Reader \<lparr> rs_name = [], rs_rest = take 20 (ws_data
          (write_sessions [[[1, 2], [3]], [[4]]] \<lparr> ws_name = [], ws_data = [], ws_room = None, ws_unflushable = False, ws_errno = [] \<rparr>)),
          rs_defect = None, rs_unseekable = False, rs_errno = [] \<rparr> True True 0) = Some (take k [[1, 2], [3], [4]], r) \<and> lr_reports r = []"
proof -
  let ?f = "\<lparr> ws_name = [], ws_data = [], ws_room = None, ws_unflushable = False, ws_errno = [] \<rparr>"
  let ?g = "\<lparr> rs_name = [], rs_rest = take 20 (ws_data (write_sessions [[[1, 2], [3]], [[4]]] ?f)),
      rs_defect = None, rs_unseekable = False, rs_errno = [] \<rparr>"
  show ?thesis
    using log_survives_crash [of ?f ?g 20 "[[[1, 2], [3]], [[4]]]" True True]
    by (simp add: eval_nat_numeral sound_wstream_def del: ReadRecords.simps write_sessions.simps) blast
qed

text \<open>C31: the reader of logs returns on every file, damaged, truncated or failing, with any settings: a
  fuel of one more than the number of unread bytes is enough.\<close>

theorem log_reader_returns:
  "\<exists>record r'. ReadRecord (Suc (length (lr_buffer r) + length (rs_rest (lr_file r)))) PosixSequentialFile r
      = Some (record, r')
    \<and> length (lr_buffer r') + length (rs_rest (lr_file r')) \<le> length (lr_buffer r) + length (rs_rest (lr_file r))"
  using posix_finite.ReadRecord_returns [of r "Suc (length (lr_buffer r) + length (rs_rest (lr_file r)))"]
  by (auto simp: posix_finite.unread_def)

text \<open>C32: a reader that verifies checksums does not return a record that was damaged since it was written in
  its checksum (any of the four bytes), or in up to four adjacent bytes of its type and data: it drops the
  rest of the block and reports all of it as corrupt. Damage of the two bytes of the length is not covered, since
  the checksum is then computed over other bytes, nor is an empty record whose type becomes 0, which the
  reader takes for space that was allocated in advance and drops silently.\<close>

theorem damaged_record_is_dropped:
  assumes written: "record_header InitTypeCrc t d @ d = crc @ len @ body" "length crc = 4" "length len = 2"
    and read: "lr_buffer r = crc' @ len @ body' @ behind"
    and damaged: "length crc' = 4 \<and> crc' \<noteq> crc \<and> body' = body \<or> crc' = crc \<and> burst body body'"
    and "d \<noteq> [] \<or> hd body' \<noteq> 0" and "length d < 65536" and "lr_checksum r"
  shows "ReadPhysicalRecord ops fragment r = (kBadRecord, fragment,
      ReportCorruption (word_of_nat (length (lr_buffer r))) ''checksum mismatch'' (r\<lparr> lr_buffer := [] \<rparr>))"
proof -
  let ?tag = "word_of_nat (type_code t) :: byte" and ?h = "record_header InitTypeCrc t d"
  have "take 7 (?h @ d) = ?h" by (simp add: length_record_header)
  note header = header_fields [OF assms(7) this]
  have parts: "unat (len ! 0) + 256 * unat (len ! 1) = length d" "DecodeFixed32 crc = Mask (crc_Value 0 (?tag # d))"
    using header(1,3) written(2,3) by (simp_all add: written(1) nth_append DecodeFixed32_eq)
  have "drop 6 (?h @ d) = ?tag # d" by (simp add: record_header_def Let_def)
  then have body: "body = ?tag # d" using written(2,3) by (simp add: written(1))
  have "length body' = Suc (length d)" and crc': "length crc' = 4"
    using damaged body written(2) by (auto elim: burstE [where p = 0])
  then obtain ty e where body': "body' = ty # e" "length e = length d" by (cases body') auto
  have wrong: "crc_Value 0 body' \<noteq> Unmask (DecodeFixed32 crc')"
  proof (cases "crc' = crc")
    case True
    then have "burst body body'" using damaged by blast
    then show ?thesis by (rule burstE [where p = 0]) (simp add: True parts(2) body)
  next
    case False
    then have "DecodeFixed32 crc' \<noteq> DecodeFixed32 crc" "body' = body"
      using damaged DecodeFixed32_inj [OF crc' written(2)] by auto
    then show ?thesis using body parts(2) Mask_Unmask by metis
  qed
  have fields: "unat (lr_buffer r ! 4) + 256 * unat (lr_buffer r ! 5) = length d" "lr_buffer r ! 6 = ty"
    "DecodeFixed32 (lr_buffer r) = DecodeFixed32 crc'" "take (Suc (length d)) (drop 6 (lr_buffer r)) = body'"
    using parts(1) crc' written(3) by (simp_all add: read body' nth_append DecodeFixed32_eq)
  have size: "kHeaderSize + length d \<le> length (lr_buffer r)"
    using crc' written(3) by (simp add: read body' kHeaderSize_def)
  have "ty \<noteq> 0 \<or> d \<noteq> []" using assms(6) by (auto simp: body')
  then have zero: "\<not> ((scast ty :: 32 word) = 0 \<and> length d = 0)" by (simp add: scast_byte_eq_0)
  have "parse_record fragment r = (kBadRecord, fragment,
      ReportCorruption (word_of_nat (length (lr_buffer r))) ''checksum mismatch'' (r\<lparr> lr_buffer := [] \<rparr>))"
    using size zero wrong assms(8)
    by (cases "(scast ty :: 32 word) = 0") (simp_all add: parse_record_def Let_def fields)
  then show ?thesis using size by (simp add: ReadPhysicalRecord.simps [of ops fragment r])
qed

lemma damaged_record_is_dropped_witness:
  "fst (ReadPhysicalRecord PosixSequentialFile [] ((Reader \<lparr> rs_name = [], rs_rest = [], rs_defect = None, rs_unseekable = False, rs_errno = [] \<rparr>
      True True 0)\<lparr> lr_buffer := record_header InitTypeCrc kFullType [1, 2, 3] @ [1, 7, 3] \<rparr>)) = kBadRecord"
proof -
  let ?h = "record_header InitTypeCrc kFullType [1, 2, 3]"
  let ?r = "(Reader \<lparr> rs_name = [], rs_rest = [], rs_defect = None, rs_unseekable = False, rs_errno = [] \<rparr> True True 0)
      \<lparr> lr_buffer := ?h @ [1, 7, 3] \<rparr>"
  have header: "?h = EncodeFixed32 (Mask (Extend 0 (InitTypeCrc ! 1) [1, 2, 3])) @ [3, 0] @ [1]"
    by (simp add: record_header_def Let_def)
  have "burst [1, 1, 2, 3] [1, 1, 7, 3]"
    unfolding burst_def by (intro exI [of _ "[1, 1]"] exI [of _ "[2]"] exI [of _ "[7]"] exI [of _ "[3]"]) simp
  then show ?thesis
    using damaged_record_is_dropped [of kFullType "[1, 2, 3]" "EncodeFixed32 (Mask (Extend 0 (InitTypeCrc ! 1) [1, 2, 3]))"
        "[3, 0]" "[1, 1, 2, 3]" ?r "EncodeFixed32 (Mask (Extend 0 (InitTypeCrc ! 1) [1, 2, 3]))" "[1, 1, 7, 3]" "[]"
        PosixSequentialFile "[]"]
    by (simp add: header) (simp add: Reader_def)
qed

text \<open>C34: a record of the reserved type 5 with a correct checksum is taken for the end of the file: a reader
  that starts at the beginning of the file stops there, without a report, although records may follow.\<close>

theorem reserved_type_ends_log:
  assumes "lr_buffer r = EncodeFixed32 (Mask (crc_Value 0 (5 # d)))
        @ [word_of_nat (length d mod 256), word_of_nat (length d div 256), 5] @ d @ behind"
    and "length d < 65536" and "lr_initial_offset r = 0"
  shows "ReadRecord (Suc n) ops r = Some (None, r\<lparr> lr_buffer := behind, lr_resyncing := False \<rparr>)"
proof -
  have "length d div 256 < 256" using assms(2) by (simp add: less_mult_imp_div_less)
  then have len: "unat (lr_buffer r ! 4) + 256 * unat (lr_buffer r ! 5) = length d"
    by (simp add: assms(1) nth_append)
  have fields: "lr_buffer r ! 6 = 5" "DecodeFixed32 (lr_buffer r) = Mask (crc_Value 0 (5 # d))"
    "take (Suc (length d)) (drop 6 (lr_buffer r)) = 5 # d" "take (length d) (drop kHeaderSize (lr_buffer r)) = d"
    "drop (length d) (drop kHeaderSize (lr_buffer r)) = behind"
    by (simp_all add: assms(1) nth_append kHeaderSize_def)
  then have rest: "drop (kHeaderSize + length d) (lr_buffer r) = behind" by (simp add: add.commute)
  have size: "kHeaderSize + length d \<le> length (lr_buffer r)" by (simp add: assms(1) kHeaderSize_def)
  have "parse_record [] r = (kEof, d, r\<lparr> lr_buffer := behind \<rparr>)"
    using size by (simp add: parse_record_def Let_def len fields rest assms(3) kEof_def kMaxRecordType_def)
  then have "ReadPhysicalRecord ops [] r = (kEof, d, r\<lparr> lr_buffer := behind \<rparr>)"
    using size by (simp add: ReadPhysicalRecord.simps [of ops "[]" r])
  then show ?thesis
    by (simp add: ReadRecord_def assms(3) ReadRecord_loop.simps Let_def record_turn_def kEof_def kMaxRecordType_def)
qed

lemma reserved_type_ends_log_witness:
  "ReadRecord 1 PosixSequentialFile ((Reader \<lparr> rs_name = [], rs_rest = [], rs_defect = None, rs_unseekable = False, rs_errno = [] \<rparr> True True 0)
      \<lparr> lr_buffer := EncodeFixed32 (Mask (crc_Value 0 [5, 9])) @ [1, 0, 5, 9] @ record_header InitTypeCrc kFullType [1] @ [1] \<rparr>)
    = Some (None, (Reader \<lparr> rs_name = [], rs_rest = [], rs_defect = None, rs_unseekable = False, rs_errno = [] \<rparr> True True 0)
        \<lparr> lr_buffer := record_header InitTypeCrc kFullType [1] @ [1] \<rparr>)"
  using reserved_type_ends_log [of "(Reader \<lparr> rs_name = [], rs_rest = [], rs_defect = None, rs_unseekable = False, rs_errno = [] \<rparr> True True 0)
      \<lparr> lr_buffer := EncodeFixed32 (Mask (crc_Value 0 [5, 9])) @ [1, 0, 5, 9] @ record_header InitTypeCrc kFullType [1] @ [1] \<rparr>"
      "[9]" "record_header InitTypeCrc kFullType [1] @ [1]" 0 PosixSequentialFile]
  by (simp add: Reader_def)

section \<open>The checksum\<close>

text \<open>C33: the checksum that goes through tables four bytes at a time is CRC-32C computed bit by bit,
  for every address of the buffer; it can be computed piecewise; and masking it can be undone.\<close>

theorem crc32c_is_reference:
  "Extend p (crc_Value q a) b = crc_reference 0 (a @ b) \<and> Unmask (Mask crc) = crc"
  by (simp add: Extend_eq crc_Value_def crc_reference_append)

section \<open>The encodings\<close>

text \<open>C35: the readers of varints accept exactly the well-formed varints of at most five or ten bytes at the
  head of the input, return their value (reduced to the width) and leave the rest; everything else is refused.\<close>

theorem ldb_varint_accepts:
  "(GetVarint32 p = Some (v, rest) \<longleftrightarrow>
      (\<exists>vs. p = vs @ rest \<and> is_varint vs \<and> length vs \<le> 5 \<and> v = word_of_nat (base128 vs)))
   \<and> (GetVarint64 p = Some (w, rest) \<longleftrightarrow>
      (\<exists>vs. p = vs @ rest \<and> is_varint vs \<and> length vs \<le> 10 \<and> w = word_of_nat (base128 vs)))"
  using GetVarint32_Some [of p v rest] GetVarint64_Some [of p w rest]
  by (auto simp: GetVarint32_varint GetVarint64_varint)

text \<open>C36: whatever the writers append, the readers read back and leave the rest of the input: integers of
  both widths, fixed or variable, and slices with their length in front.\<close>

theorem ldb_coding_round_trip:
  assumes "length s < 2 ^ 32"
  shows "GetVarint32 (PutVarint32 [] v @ rest) = Some (v, rest)
    \<and> GetVarint64 (PutVarint64 [] w @ rest) = Some (w, rest)
    \<and> DecodeFixed32 (PutFixed32 [] v @ rest) = v \<and> DecodeFixed64 (PutFixed64 [] w @ rest) = w
    \<and> GetLengthPrefixedSlice (PutLengthPrefixedSlice [] s @ rest) = Some (s, rest)"
  using assms by (simp add: PutVarint32_def PutVarint64_def PutFixed32_def PutFixed64_def)

lemma ldb_coding_round_trip_witness:
  "GetLengthPrefixedSlice (PutLengthPrefixedSlice [] [1, 2, 3] @ [4]) = Some ([1, 2, 3], [4])"
  using ldb_coding_round_trip [of "[1, 2, 3]" 0 "[4]" 0] by simp

text \<open>the unrolled encoder of 32-bit varints writes the bytes that the loop for 64 bits writes, and
  the length of a varint is computed without writing it.\<close>

theorem ldb_varint_unrolled:
  "EncodeVarint32 v = EncodeVarint64 (ucast v) \<and> VarintLength w = length (EncodeVarint64 w)"
proof -
  have "unat (ucast v :: 64 word) = unat v"
    using unat32_less [of v] by (simp add: unsigned_ucast_eq take_bit_nat_eq_self)
  then show ?thesis by (simp add: EncodeVarint32_eq EncodeVarint64_eq VarintLength_eq)
qed

end
