(* ===== verification/Ldb_Keys.thy ===== *)
theory Ldb_Keys
  imports Ldb_Coding
begin

text \<open>
  Comparators (\<^verbatim>\<open>include/leveldb/comparator.h\<close>, \<^verbatim>\<open>util/comparator.cc\<close>) and the keys inside the
  database (\<^verbatim>\<open>db/dbformat.h\<close>, \<^verbatim>\<open>db/dbformat.cc\<close>). The locale \<open>comparator\<close> states what the header
  asks of a comparator; the bytewise comparator and the comparator of internal keys satisfy it.
  Assertions are not part of the model: the conditions they state are hypotheses.
\<close>

section \<open>Comparators\<close>

text \<open>The virtual functions of the class.\<close>

record Comparator =
  cmp_Name :: string
  cmp_Compare :: "slice \<Rightarrow> slice \<Rightarrow> int"
  cmp_FindShortestSeparator :: "slice \<Rightarrow> slice \<Rightarrow> slice"
  cmp_FindShortSuccessor :: "slice \<Rightarrow> slice"

text \<open>The loop that finds the length of the common prefix.\<close>

fun diff_index :: "slice \<Rightarrow> slice \<Rightarrow> nat" where
  "diff_index (a # as) (b # bs) = (if a = b then Suc (diff_index as bs) else 0)"
| "diff_index _ _ = 0"

definition bytewise_FindShortestSeparator :: "slice \<Rightarrow> slice \<Rightarrow> slice" where
  "bytewise_FindShortestSeparator start limit =
     (let min_length = min (length start) (length limit); i = diff_index start limit
      in if min_length \<le> i then start
         else let diff_byte = start ! i
              in if diff_byte < 0xff \<and> uint diff_byte + 1 < uint (limit ! i)
                 then take (i + 1) (start[i := diff_byte + 1])
                 else start)"

text \<open>The loop leaves the bytes it passes, which are all \<^verbatim>\<open>0xff\<close>, in place.\<close>

fun bytewise_FindShortSuccessor :: "slice \<Rightarrow> slice" where
  "bytewise_FindShortSuccessor [] = []"
| "bytewise_FindShortSuccessor (b # key) =
     (if b \<noteq> 0xff then [b + 1] else b # bytewise_FindShortSuccessor key)"

definition BytewiseComparator :: Comparator where
  "BytewiseComparator =
     \<lparr> cmp_Name = ''leveldb.BytewiseComparator'', cmp_Compare = slice_compare,
       cmp_FindShortestSeparator = bytewise_FindShortestSeparator,
       cmp_FindShortSuccessor = bytewise_FindShortSuccessor \<rparr>"

section \<open>Internal keys\<close>

datatype ValueType = kTypeDeletion | kTypeValue

fun value_type_code :: "ValueType \<Rightarrow> byte" where
  "value_type_code kTypeDeletion = 0"
| "value_type_code kTypeValue = 1"

definition kValueTypeForSeek :: ValueType where
  "kValueTypeForSeek = kTypeValue"

type_synonym SequenceNumber = "64 word"

definition kMaxSequenceNumber :: SequenceNumber where
  "kMaxSequenceNumber = push_bit 56 1 - 1"

record ParsedInternalKey =
  pk_user_key :: slice
  pk_sequence :: SequenceNumber
  pk_type :: ValueType

definition InternalKeyEncodingLength :: "ParsedInternalKey \<Rightarrow> nat" where
  "InternalKeyEncodingLength key = length (pk_user_key key) + 8"

definition PackSequenceAndType :: "SequenceNumber \<Rightarrow> ValueType \<Rightarrow> 64 word" where
  "PackSequenceAndType seq t = push_bit 8 seq OR ucast (value_type_code t)"

definition AppendInternalKey :: "byte list \<Rightarrow> ParsedInternalKey \<Rightarrow> byte list" where
  "AppendInternalKey result key =
     PutFixed64 (result @ pk_user_key key) (PackSequenceAndType (pk_sequence key) (pk_type key))"

definition InternalKey :: "slice \<Rightarrow> SequenceNumber \<Rightarrow> ValueType \<Rightarrow> slice" where
  "InternalKey user_key s t = AppendInternalKey [] \<lparr> pk_user_key = user_key, pk_sequence = s, pk_type = t \<rparr>"

definition ExtractUserKey :: "slice \<Rightarrow> slice" where
  "ExtractUserKey internal_key = take (length internal_key - 8) internal_key"

text \<open>The number at the end of an internal key.\<close>

definition key_tag :: "slice \<Rightarrow> 64 word" where
  "key_tag internal_key = DecodeFixed64 (drop (length internal_key - 8) internal_key)"

definition ParseInternalKey :: "slice \<Rightarrow> ParsedInternalKey option" where
  "ParseInternalKey internal_key =
     (let n = length internal_key; num = key_tag internal_key; c = num AND 0xff
      in if n < 8 then None
         else if c \<le> ucast (value_type_code kTypeValue)
         then Some \<lparr> pk_user_key = take (n - 8) internal_key, pk_sequence = drop_bit 8 num,
                     pk_type = (if c = 0 then kTypeDeletion else kTypeValue) \<rparr>
         else None)"

definition internal_Compare :: "Comparator \<Rightarrow> slice \<Rightarrow> slice \<Rightarrow> int" where
  "internal_Compare user akey bkey =
     (let r = cmp_Compare user (ExtractUserKey akey) (ExtractUserKey bkey)
      in if r = 0
         then (let anum = key_tag akey; bnum = key_tag bkey
               in if bnum < anum then - 1 else if anum < bnum then 1 else r)
         else r)"

definition internal_FindShortestSeparator :: "Comparator \<Rightarrow> slice \<Rightarrow> slice \<Rightarrow> slice" where
  "internal_FindShortestSeparator user start limit =
     (let user_start = ExtractUserKey start; user_limit = ExtractUserKey limit;
          tmp = cmp_FindShortestSeparator user user_start user_limit
      in if length tmp < length user_start \<and> cmp_Compare user user_start tmp < 0
         then PutFixed64 tmp (PackSequenceAndType kMaxSequenceNumber kValueTypeForSeek)
         else start)"

definition internal_FindShortSuccessor :: "Comparator \<Rightarrow> slice \<Rightarrow> slice" where
  "internal_FindShortSuccessor user key =
     (let user_key = ExtractUserKey key; tmp = cmp_FindShortSuccessor user user_key
      in if length tmp < length user_key \<and> cmp_Compare user user_key tmp < 0
         then PutFixed64 tmp (PackSequenceAndType kMaxSequenceNumber kValueTypeForSeek)
         else key)"

definition InternalKeyComparator :: "Comparator \<Rightarrow> Comparator" where
  "InternalKeyComparator user =
     \<lparr> cmp_Name = ''leveldb.InternalKeyComparator'', cmp_Compare = internal_Compare user,
       cmp_FindShortestSeparator = internal_FindShortestSeparator user,
       cmp_FindShortSuccessor = internal_FindShortSuccessor user \<rparr>"

text \<open>
  The buffer of a \<^verbatim>\<open>LookupKey\<close> and the offset of \<^verbatim>\<open>kstart_\<close> in it. The length in front of
  the key is truncated to 32 bits.
\<close>

record lookup_key =
  lk_start :: slice
  lk_kstart :: nat

definition LookupKey :: "slice \<Rightarrow> SequenceNumber \<Rightarrow> lookup_key" where
  "LookupKey user_key s =
     (let prefix = EncodeVarint32 (word_of_nat (length user_key + 8))
      in \<lparr> lk_start = prefix @ user_key @ EncodeFixed64 (PackSequenceAndType s kValueTypeForSeek),
           lk_kstart = length prefix \<rparr>)"

definition lk_memtable_key :: "lookup_key \<Rightarrow> slice" where
  "lk_memtable_key k = lk_start k"

definition lk_internal_key :: "lookup_key \<Rightarrow> slice" where
  "lk_internal_key k = drop (lk_kstart k) (lk_start k)"

definition lk_user_key :: "lookup_key \<Rightarrow> slice" where
  "lk_user_key k = take (length (lk_start k) - lk_kstart k - 8) (drop (lk_kstart k) (lk_start k))"

section \<open>What a comparator promises\<close>

locale comparator =
  fixes c :: Comparator and valid :: "slice \<Rightarrow> bool"
  assumes compare_eq: "valid a \<Longrightarrow> valid b \<Longrightarrow> cmp_Compare c a b = 0 \<longleftrightarrow> a = b"
    and compare_swap: "valid a \<Longrightarrow> valid b \<Longrightarrow> 0 < cmp_Compare c a b \<longleftrightarrow> cmp_Compare c b a < 0"
    and compare_trans: "valid a \<Longrightarrow> valid b \<Longrightarrow> valid d \<Longrightarrow>
      cmp_Compare c a b < 0 \<Longrightarrow> cmp_Compare c b d < 0 \<Longrightarrow> cmp_Compare c a d < 0"
    and separator: "valid start \<Longrightarrow> valid limit \<Longrightarrow> cmp_Compare c start limit < 0 \<Longrightarrow>
      valid (cmp_FindShortestSeparator c start limit)
      \<and> cmp_Compare c start (cmp_FindShortestSeparator c start limit) \<le> 0
      \<and> cmp_Compare c (cmp_FindShortestSeparator c start limit) limit < 0
      \<and> length (cmp_FindShortestSeparator c start limit) \<le> length start"
    and successor: "valid key \<Longrightarrow> valid (cmp_FindShortSuccessor c key)
      \<and> cmp_Compare c key (cmp_FindShortSuccessor c key) \<le> 0
      \<and> length (cmp_FindShortSuccessor c key) \<le> length key"
begin

lemma compare_linear:
  assumes "valid a" and "valid b"
  obtains "cmp_Compare c a b < 0" "cmp_Compare c b a > 0" | "a = b" | "cmp_Compare c b a < 0" "cmp_Compare c a b > 0"
  using compare_eq [OF assms] compare_swap [OF assms] compare_swap [OF assms(2,1)] by linarith

lemma compare_refl: "valid a \<Longrightarrow> cmp_Compare c a a = 0"
  by (simp add: compare_eq)

lemma compare_irrefl: "valid a \<Longrightarrow> \<not> cmp_Compare c a a < 0"
  by (simp add: compare_refl)

lemma compare_le_trans:
  "valid a \<Longrightarrow> valid b \<Longrightarrow> valid d \<Longrightarrow> cmp_Compare c a b \<le> 0 \<Longrightarrow> cmp_Compare c b d < 0 \<Longrightarrow> cmp_Compare c a d < 0"
  using compare_eq [of a b] compare_trans [of a b d] by (cases "cmp_Compare c a b = 0") auto

end

text \<open>
  A comparator of the user, which compares every slice. Two internal keys that are
  neighbours may have the same user key; the comparator of internal keys then asks for a
  separator of equal keys, about which the header says nothing.
\<close>

locale user_comparator = comparator c "\<lambda>_. True" for c +
  assumes separator_same: "cmp_FindShortestSeparator c a a = a"

section \<open>The bytewise comparator\<close>

lemma slice_compare_Nil [simp]:
  "slice_compare [] b = (if b = [] then 0 else - 1)" "slice_compare a [] = (if a = [] then 0 else 1)"
  by (simp_all add: slice_compare_def)

lemma slice_compare_Cons [simp]:
  "slice_compare (x # a) (y # b) = (if x = y then slice_compare a b else uint x - uint y)"
  by (auto simp: slice_compare_def Let_def word_uint_eq_iff)

text \<open>It is the lexicographic order of the bytes.\<close>

lemma slice_compare_lexordp: "slice_compare a b < 0 \<longleftrightarrow> ord_class.lexordp a b"
  by (induction a arbitrary: b; case_tac b) (auto simp: word_less_def word_uint_eq_iff)

lemma slice_compare_eq [simp]: "slice_compare a b = 0 \<longleftrightarrow> a = b"
  by (induction a arbitrary: b; case_tac b) (auto simp: word_uint_eq_iff)

lemma slice_compare_swap: "0 < slice_compare a b \<longleftrightarrow> slice_compare b a < 0"
  by (induction a arbitrary: b; case_tac b) auto

lemma slice_compare_trans: "slice_compare a b < 0 \<Longrightarrow> slice_compare b d < 0 \<Longrightarrow> slice_compare a d < 0"
  unfolding slice_compare_lexordp by (rule lexordp_trans)

lemma slice_compare_refl [simp]: "slice_compare a a = 0"
  by simp

lemma bytewise_separator_Cons:
  "bytewise_FindShortestSeparator (a # s) (b # l) =
     (if a = b then a # bytewise_FindShortestSeparator s l
      else if a < 0xff \<and> uint a + 1 < uint b then [a + 1] else a # s)"
  by (auto simp: bytewise_FindShortestSeparator_def Let_def)

lemma bytewise_separator_Nil:
  "bytewise_FindShortestSeparator [] l = []" "bytewise_FindShortestSeparator s [] = s"
  by (simp_all add: bytewise_FindShortestSeparator_def Let_def)

lemma uint_plus_1: "b < 0xff \<Longrightarrow> uint (b + 1) = uint b + 1" for b :: byte
  by (subst uint_plus_if') (auto simp: word_less_def)

lemma bytewise_separator:
  "slice_compare start limit < 0 \<Longrightarrow>
     slice_compare start (bytewise_FindShortestSeparator start limit) \<le> 0
     \<and> slice_compare (bytewise_FindShortestSeparator start limit) limit < 0
     \<and> length (bytewise_FindShortestSeparator start limit) \<le> length start"
  by (induction start limit rule: diff_index.induct)
    (auto simp: bytewise_separator_Cons bytewise_separator_Nil uint_plus_1 word_uint_eq_iff split: if_splits)

lemma bytewise_separator_same: "bytewise_FindShortestSeparator a a = a"
  by (induction a) (simp_all add: bytewise_separator_Cons bytewise_separator_Nil)

lemma byte_less_ff: "b \<noteq> 0xff \<Longrightarrow> b < 0xff" for b :: byte
  using unat_byte_less [of b] by (auto simp: word_less_nat_alt word_unat_eq_iff simp del: unat_byte_less)

lemma bytewise_successor:
  "slice_compare key (bytewise_FindShortSuccessor key) \<le> 0
     \<and> length (bytewise_FindShortSuccessor key) \<le> length key"
  by (induction key) (auto simp: uint_plus_1 byte_less_ff)

interpretation bytewise: user_comparator BytewiseComparator
proof unfold_locales
  fix a b :: slice
  show "cmp_Compare BytewiseComparator a b = 0 \<longleftrightarrow> a = b" by (simp add: BytewiseComparator_def)
qed (use slice_compare_swap slice_compare_trans bytewise_separator bytewise_separator_same bytewise_successor in
    \<open>auto simp: BytewiseComparator_def\<close>)

section \<open>The parts of an internal key\<close>

lemma ExtractUserKey_append [simp]: "ExtractUserKey (k @ EncodeFixed64 n) = k"
  by (simp add: ExtractUserKey_def)

lemma key_tag_append [simp]: "key_tag (k @ EncodeFixed64 n) = n"
  by (simp add: key_tag_def)

lemma EncodeFixed64_Decode: "length bs = 8 \<Longrightarrow> EncodeFixed64 (DecodeFixed64 bs) = bs"
  using le_bytes_le_value [of bs] le_value_bound [of bs]
  by (simp add: EncodeFixed64_eq DecodeFixed64_eq unat_of_nat take_bit_nat_eq_self del: le_bytes_numeral)

lemma internal_key_parts: "8 \<le> length k \<Longrightarrow> k = ExtractUserKey k @ EncodeFixed64 (key_tag k)"
  by (simp add: ExtractUserKey_def key_tag_def EncodeFixed64_Decode)

lemma internal_key_eq_iff:
  "8 \<le> length a \<Longrightarrow> 8 \<le> length b \<Longrightarrow> a = b \<longleftrightarrow> ExtractUserKey a = ExtractUserKey b \<and> key_tag a = key_tag b"
proof
  assume len: "8 \<le> length a" "8 \<le> length b"
    and parts: "ExtractUserKey a = ExtractUserKey b \<and> key_tag a = key_tag b"
  have "ExtractUserKey a @ EncodeFixed64 (key_tag a) = ExtractUserKey b @ EncodeFixed64 (key_tag b)"
    by (simp only: parts)
  from trans [OF internal_key_parts [OF len(1)] trans [OF this internal_key_parts [OF len(2), symmetric]]]
  show "a = b" .
qed simp

lemma PutFixed64_key [simp]:
  "ExtractUserKey (PutFixed64 k n) = k" "key_tag (PutFixed64 k n) = n" "length (PutFixed64 k n) = length k + 8"
  by (simp_all add: PutFixed64_def)

lemma InternalKey_parts [simp]:
  "ExtractUserKey (InternalKey k s t) = k" "key_tag (InternalKey k s t) = PackSequenceAndType s t"
  "length (InternalKey k s t) = length k + 8"
  by (simp_all add: InternalKey_def AppendInternalKey_def)

lemma value_type_less: "unat (value_type_code t) < 256" "unat (value_type_code t) \<le> 1"
  by (cases t; simp)+

lemma unat_kMaxSequenceNumber: "unat kMaxSequenceNumber = 2 ^ 56 - 1"
  by (simp add: kMaxSequenceNumber_def)

lemma unat_PackSequenceAndType:
  assumes "seq \<le> kMaxSequenceNumber"
  shows "unat (PackSequenceAndType seq t) = 256 * unat seq + unat (value_type_code t)"
proof -
  have "(word_of_nat (unat (value_type_code t)) :: 64 word) OR push_bit 8 (word_of_nat (unat seq))
      = word_of_nat (unat (value_type_code t) + 2 ^ 8 * unat seq)"
    by (rule or_push_bit_add) (simp add: value_type_less)
  then have eq: "PackSequenceAndType seq t = word_of_nat (256 * unat seq + unat (value_type_code t))"
    by (simp add: PackSequenceAndType_def or.commute [of _ "push_bit 8 seq"] add.commute [of "unat (value_type_code t)"]
        del: of_nat_add of_nat_mult)
  have "unat seq \<le> 2 ^ 56 - 1"
    using assms unat_kMaxSequenceNumber by (simp add: word_le_nat_alt)
  then have "256 * unat seq + unat (value_type_code t) < 2 ^ LENGTH(64)"
    using value_type_less(2) [of t] by simp
  then show ?thesis unfolding eq by (simp only: unsigned_of_nat take_bit_nat_eq_self of_nat_id)
qed

section \<open>The comparator of internal keys\<close>

context user_comparator
begin

lemma internal_Compare_less:
  "internal_Compare c a b < 0 \<longleftrightarrow> cmp_Compare c (ExtractUserKey a) (ExtractUserKey b) < 0
     \<or> ExtractUserKey a = ExtractUserKey b \<and> key_tag b < key_tag a"
  using compare_eq [of "ExtractUserKey a" "ExtractUserKey b"]
  by (auto simp: internal_Compare_def Let_def)

lemma internal_Compare_eq:
  "internal_Compare c a b = 0 \<longleftrightarrow> ExtractUserKey a = ExtractUserKey b \<and> key_tag a = key_tag b"
  using compare_eq [of "ExtractUserKey a" "ExtractUserKey b"]
  by (auto simp: internal_Compare_def Let_def)

lemma internal_Compare_greater:
  "0 < internal_Compare c a b \<longleftrightarrow> 0 < cmp_Compare c (ExtractUserKey a) (ExtractUserKey b)
     \<or> ExtractUserKey a = ExtractUserKey b \<and> key_tag a < key_tag b"
  using compare_eq [of "ExtractUserKey a" "ExtractUserKey b"]
  by (auto simp: internal_Compare_def Let_def)

lemma internal_Compare_swap: "0 < internal_Compare c a b \<longleftrightarrow> internal_Compare c b a < 0"
  unfolding internal_Compare_greater internal_Compare_less by (auto simp: compare_swap)

lemma internal_Compare_refl [simp]: "internal_Compare c a a = 0"
  by (simp add: internal_Compare_eq)

lemma internal_separator:
  assumes "8 \<le> length start" and "internal_Compare c start limit < 0"
  shows "8 \<le> length (internal_FindShortestSeparator c start limit)
    \<and> internal_Compare c start (internal_FindShortestSeparator c start limit) \<le> 0
    \<and> internal_Compare c (internal_FindShortestSeparator c start limit) limit < 0
    \<and> length (internal_FindShortestSeparator c start limit) \<le> length start"
proof -
  let ?s = "ExtractUserKey start" and ?l = "ExtractUserKey limit"
  define tmp where "tmp = cmp_FindShortestSeparator c ?s ?l"
  show ?thesis
  proof (cases "length tmp < length ?s \<and> cmp_Compare c ?s tmp < 0")
    case True
    then have "?s \<noteq> ?l" using separator_same by (auto simp: tmp_def)
    then have "cmp_Compare c ?s ?l < 0" using assms(2) by (simp add: internal_Compare_less)
    then have "cmp_Compare c tmp ?l < 0" using separator [of ?s ?l] by (simp add: tmp_def)
    moreover have "internal_FindShortestSeparator c start limit
        = PutFixed64 tmp (PackSequenceAndType kMaxSequenceNumber kValueTypeForSeek)"
      using True by (simp add: internal_FindShortestSeparator_def Let_def tmp_def)
    moreover have "length ?s = length start - 8" by (simp add: ExtractUserKey_def)
    ultimately show ?thesis using True by (auto simp: internal_Compare_less intro: order_less_imp_le)
  next
    case False
    then have "internal_FindShortestSeparator c start limit = start"
      unfolding tmp_def by (simp only: internal_FindShortestSeparator_def Let_def if_False)
    then show ?thesis using assms by simp
  qed
qed

lemma internal_successor:
  assumes "8 \<le> length key"
  shows "8 \<le> length (internal_FindShortSuccessor c key)
    \<and> internal_Compare c key (internal_FindShortSuccessor c key) \<le> 0
    \<and> length (internal_FindShortSuccessor c key) \<le> length key"
proof -
  have len: "length (ExtractUserKey key) = length key - 8" by (simp add: ExtractUserKey_def)
  show ?thesis
    using assms by (auto simp: internal_FindShortSuccessor_def Let_def internal_Compare_less len intro: order_less_imp_le)
qed

lemma internal_Compare_trans:
  "internal_Compare c a b < 0 \<Longrightarrow> internal_Compare c b d < 0 \<Longrightarrow> internal_Compare c a d < 0"
  unfolding internal_Compare_less using compare_trans by auto

end

sublocale user_comparator \<subseteq> internal: comparator "InternalKeyComparator c" "\<lambda>k. 8 \<le> length k"
proof unfold_locales
  fix a b :: slice
  assume "8 \<le> length a" and "8 \<le> length b"
  then show "cmp_Compare (InternalKeyComparator c) a b = 0 \<longleftrightarrow> a = b"
    by (simp add: InternalKeyComparator_def internal_Compare_eq internal_key_eq_iff)
qed (use internal_Compare_swap internal_Compare_trans internal_separator internal_successor in
    \<open>auto simp: InternalKeyComparator_def\<close>)

end
