(* ===== verification/Ldb_Random.thy ===== *)
theory Ldb_Random
  imports Ldb_Coding
begin

text \<open>
  The random numbers that the skip list draws its heights from (\<^verbatim>\<open>util/random.h\<close>), and that
  one step of the generator is the multiplication modulo $2^{31} - 1$ that its comment names.
\<close>

definition Random_seed :: "32 word \<Rightarrow> 32 word" where
  "Random_seed s =
     (let seed = s AND 0x7fffffff in if seed = 0 \<or> seed = 2147483647 then 1 else seed)"

text \<open>The number returned is the new seed.\<close>

definition Random_Next :: "32 word \<Rightarrow> 32 word" where
  "Random_Next seed =
     (let product = (ucast seed * 16807 :: 64 word);
          seed = (ucast (drop_bit 31 product + (product AND 2147483647)) :: 32 word)
      in if 2147483647 < seed then seed - 2147483647 else seed)"

definition Random_Uniform :: "32 word \<Rightarrow> 32 word \<Rightarrow> 32 word \<times> 32 word" where
  "Random_Uniform n seed = (let r = Random_Next seed in (r mod n, r))"

definition Random_OneIn :: "32 word \<Rightarrow> 32 word \<Rightarrow> bool \<times> 32 word" where
  "Random_OneIn n seed = (let r = Random_Next seed in (r mod n = 0, r))"

definition Random_Skewed :: "32 word \<Rightarrow> 32 word \<Rightarrow> 32 word \<times> 32 word" where
  "Random_Skewed max_log seed =
     (let (base, seed) = Random_Uniform (max_log + 1) seed
      in Random_Uniform (push_bit (unat base) 1) seed)"

lemma coprime_multiplier: "coprime (2147483647 :: nat) 16807"
  by (simp add: coprime_iff_gcd_eq_1 gcd_non_0_nat)

lemma reduce_mod:
  fixes p :: nat
  shows "(p div 2147483648 + p mod 2147483648) mod 2147483647 = p mod 2147483647"
proof -
  have "p = 2147483647 * (p div 2147483648) + (p div 2147483648 + p mod 2147483648)"
    using div_mult_mod_eq [of p 2147483648] by simp
  then show ?thesis by (metis mod_mult_self2 add.commute)
qed

lemma unat_and_mask31:
  fixes w :: "'w::len word"
  assumes "31 \<le> LENGTH('w)"
  shows "unat (w AND 2147483647) = unat w mod 2147483648"
proof -
  have "(2147483647 :: 'w word) = mask 31" by (simp add: mask_eq_exp_minus_1)
  then have "w AND 2147483647 = take_bit 31 w" by (simp only: take_bit_eq_mask)
  then have "unat (w AND 2147483647) = take_bit 31 (unat w)" by (simp only: unsigned_take_bit_eq)
  then show ?thesis by (simp add: take_bit_eq_mod)
qed

lemma Random_Next_eq:
  assumes "0 < seed" and "seed < 2147483647"
  shows "unat (Random_Next seed) = (unat seed * 16807) mod 2147483647"
    and "0 < Random_Next seed" and "Random_Next seed < 2147483647"
proof -
  define p where "p = unat seed * 16807"
  define product where "product = (ucast seed * 16807 :: 64 word)"
  have seed: "0 < unat seed" "unat seed < 2147483647"
    using assms by (simp_all add: word_less_nat_alt unat_gt_0)
  have p: "p < 2147483647 * 16807" using seed by (simp add: p_def)
  have product: "unat product = p"
    using seed by (simp add: product_def p_def unat_word_ariths unsigned_ucast_eq take_bit_nat_eq_self)
  define r where "r = p div 2147483648 + p mod 2147483648"
  have r: "r < 2 * 2147483647"
    using p mod_less_divisor [of 2147483648 p] by (simp add: r_def less_mult_imp_div_less add_less_le_mono)
  have low: "unat (product AND 2147483647) = p mod 2147483648"
    using product by (simp add: unat_and_mask31)
  have sum: "unat (drop_bit 31 product + (product AND 2147483647)) = r"
    using r by (simp add: unat_word_ariths unat_drop_bit low product r_def)
  have seed': "unat (ucast (drop_bit 31 product + (product AND 2147483647)) :: 32 word) = r"
    using r by (simp add: unsigned_ucast_eq sum take_bit_nat_eq_self)
  have next_seed: "unat (Random_Next seed) = (if 2147483647 < r then r - 2147483647 else r)"
    unfolding Random_Next_def Let_def product_def [symmetric]
    using seed' by (simp add: word_less_nat_alt unat_sub_if')
  have r_mod: "r mod 2147483647 = p mod 2147483647" unfolding r_def by (rule reduce_mod)
  have "\<not> 2147483647 dvd p"
  proof
    assume "2147483647 dvd p"
    then have "2147483647 dvd unat seed"
      using coprime_dvd_mult_left_iff [OF coprime_multiplier, of "unat seed"] by (simp add: p_def)
    then show False using seed nat_dvd_not_less by blast
  qed
  then have pos: "p mod 2147483647 \<noteq> 0" by (simp add: mod_eq_0_iff_dvd)
  then have "r \<noteq> 2147483647" using r_mod by auto
  then have "(if 2147483647 < r then r - 2147483647 else r) = r mod 2147483647"
    using r by (auto simp: mod_if le_mod_geq)
  then have eq: "unat (Random_Next seed) = p mod 2147483647" using next_seed r_mod by simp
  then show "unat (Random_Next seed) = (unat seed * 16807) mod 2147483647" by (simp add: p_def)
  show "0 < Random_Next seed" using eq pos by (metis unat_eq_zero word_gt_0)
  show "Random_Next seed < 2147483647"
    using eq mod_less_divisor [of 2147483647 p] by (simp add: word_less_nat_alt)
qed

lemma Random_seed_range: "0 < Random_seed s \<and> Random_seed s < 2147483647"
proof (cases "s AND 0x7fffffff = 0 \<or> s AND 0x7fffffff = 2147483647")
  case False
  then have "unat (s AND 0x7fffffff) \<noteq> 0" "unat (s AND 0x7fffffff) \<noteq> 2147483647"
    by (auto simp: word_unat_eq_iff)
  moreover have "unat (s AND 0x7fffffff) < 2147483648" by (simp add: unat_and_mask31)
  ultimately have "0 < unat (s AND 0x7fffffff)" "unat (s AND 0x7fffffff) < 2147483647" by linarith+
  then show ?thesis using False by (simp add: Random_seed_def Let_def word_less_nat_alt)
qed (auto simp: Random_seed_def)

end
