(* ===== verification/Ldb_Skiplist.thy ===== *)
theory Ldb_Skiplist
  imports Ldb_Random
begin

text \<open>
  The skip list behind the memtable (\<^verbatim>\<open>db/skiplist.h\<close>). The nodes live in a list, a pointer
  is an index into it, and a null pointer is \<open>None\<close>; the head is node 0. The comparator is
  an argument. The loops that follow pointers may not return, so they are partial functions;
  the array \<^verbatim>\<open>prev\<close> starts uninitialised, and \<open>Insert\<close> gives \<open>None\<close> where it would use such an
  entry. The model is that of one thread: barriers and atomic pointers have no effect on it.
\<close>

section \<open>The structure\<close>

record 'k node =
  sn_key :: 'k
  sn_next :: "nat option list"

record 'k skiplist =
  sl_nodes :: "'k node list"
  sl_max_height :: nat
  sl_rnd :: "32 word"

definition kMaxHeight :: nat where
  "kMaxHeight = 12"

definition node_key :: "'k skiplist \<Rightarrow> nat \<Rightarrow> 'k" where
  "node_key s x = sn_key (sl_nodes s ! x)"

definition node_Next :: "'k skiplist \<Rightarrow> nat \<Rightarrow> nat \<Rightarrow> nat option" where
  "node_Next s x n = sn_next (sl_nodes s ! x) ! n"

definition node_SetNext :: "nat \<Rightarrow> nat \<Rightarrow> nat option \<Rightarrow> 'k skiplist \<Rightarrow> 'k skiplist" where
  "node_SetNext x n y s =
     s\<lparr> sl_nodes := (sl_nodes s)[x := (sl_nodes s ! x)\<lparr> sn_next := (sn_next (sl_nodes s ! x))[n := y] \<rparr>] \<rparr>"

text \<open>A new node, whose links are not initialised; its address is the number of nodes so far.\<close>

definition NewNode :: "'k \<Rightarrow> nat \<Rightarrow> 'k skiplist \<Rightarrow> nat \<times> 'k skiplist" where
  "NewNode key height s =
     (length (sl_nodes s), s\<lparr> sl_nodes := sl_nodes s @ [\<lparr> sn_key = key, sn_next = replicate height None \<rparr>] \<rparr>)"

definition SkipList :: "'k \<Rightarrow> 'k skiplist" where
  "SkipList any_key =
     \<lparr> sl_nodes = [\<lparr> sn_key = any_key, sn_next = replicate kMaxHeight None \<rparr>],
       sl_max_height = 1, sl_rnd = Random_seed 0xdeadbeef \<rparr>"

function random_height_loop :: "nat \<Rightarrow> 32 word \<Rightarrow> nat \<times> 32 word" where
  "random_height_loop height rnd =
     (if height < kMaxHeight
      then let rnd = Random_Next rnd
           in if rnd mod 4 = 0 then random_height_loop (height + 1) rnd else (height, rnd)
      else (height, rnd))"
  by pat_completeness auto
termination by (relation "measure (\<lambda>(height, _). kMaxHeight - height)") auto

declare random_height_loop.simps [simp del]

definition RandomHeight :: "32 word \<Rightarrow> nat \<times> 32 word" where
  "RandomHeight rnd = random_height_loop 1 rnd"

section \<open>Searching\<close>

definition KeyIsAfterNode :: "('k \<Rightarrow> 'k \<Rightarrow> int) \<Rightarrow> 'k skiplist \<Rightarrow> 'k \<Rightarrow> nat option \<Rightarrow> bool" where
  "KeyIsAfterNode cmp s key n = (case n of None \<Rightarrow> False | Some x \<Rightarrow> cmp (node_key s x) key < 0)"

text \<open>\<open>prev\<close> is \<open>None\<close> when the caller passes a null pointer.\<close>

partial_function (option) find_ge_loop ::
    "('k \<Rightarrow> 'k \<Rightarrow> int) \<Rightarrow> 'k skiplist \<Rightarrow> 'k \<Rightarrow> nat \<Rightarrow> nat \<Rightarrow> nat option list option
       \<Rightarrow> (nat option \<times> nat option list option) option" where
  "find_ge_loop cmp s key x level prev =
     (if KeyIsAfterNode cmp s key (node_Next s x level)
      then find_ge_loop cmp s key (the (node_Next s x level)) level prev
      else if level = 0
      then Some (node_Next s x level, map_option (\<lambda>p. p[level := Some x]) prev)
      else find_ge_loop cmp s key x (level - 1) (map_option (\<lambda>p. p[level := Some x]) prev))"

definition FindGreaterOrEqual ::
    "('k \<Rightarrow> 'k \<Rightarrow> int) \<Rightarrow> 'k skiplist \<Rightarrow> 'k \<Rightarrow> nat option list option \<Rightarrow> (nat option \<times> nat option list option) option" where
  "FindGreaterOrEqual cmp s key prev = find_ge_loop cmp s key 0 (sl_max_height s - 1) prev"

partial_function (option) find_lt_loop ::
    "('k \<Rightarrow> 'k \<Rightarrow> int) \<Rightarrow> 'k skiplist \<Rightarrow> 'k \<Rightarrow> nat \<Rightarrow> nat \<Rightarrow> nat option" where
  "find_lt_loop cmp s key x level =
     (if node_Next s x level = None \<or> 0 \<le> cmp (node_key s (the (node_Next s x level))) key
      then if level = 0 then Some x else find_lt_loop cmp s key x (level - 1)
      else find_lt_loop cmp s key (the (node_Next s x level)) level)"

definition FindLessThan :: "('k \<Rightarrow> 'k \<Rightarrow> int) \<Rightarrow> 'k skiplist \<Rightarrow> 'k \<Rightarrow> nat option" where
  "FindLessThan cmp s key = find_lt_loop cmp s key 0 (sl_max_height s - 1)"

partial_function (option) find_last_loop :: "'k skiplist \<Rightarrow> nat \<Rightarrow> nat \<Rightarrow> nat option" where
  "find_last_loop s x level =
     (case node_Next s x level of
        None \<Rightarrow> if level = 0 then Some x else find_last_loop s x (level - 1)
      | Some y \<Rightarrow> find_last_loop s y level)"

definition FindLast :: "'k skiplist \<Rightarrow> nat option" where
  "FindLast s = find_last_loop s 0 (sl_max_height s - 1)"

section \<open>Inserting\<close>

text \<open>The loop that links the new node \<open>x\<close> on the levels below its height.\<close>

primrec link_levels :: "nat \<Rightarrow> nat option list \<Rightarrow> nat list \<Rightarrow> 'k skiplist \<Rightarrow> 'k skiplist option" where
  "link_levels x prev [] s = Some s"
| "link_levels x prev (i # levels) s =
     (case prev ! i of
        None \<Rightarrow> None
      | Some p \<Rightarrow> link_levels x prev levels (node_SetNext p i (Some x) (node_SetNext x i (node_Next s p i) s)))"

definition Insert :: "('k \<Rightarrow> 'k \<Rightarrow> int) \<Rightarrow> 'k \<Rightarrow> 'k skiplist \<Rightarrow> 'k skiplist option" where
  "Insert cmp key s =
     (case FindGreaterOrEqual cmp s key (Some (replicate kMaxHeight None)) of
        Some (_, Some prev) \<Rightarrow>
          (let (height, rnd) = RandomHeight (sl_rnd s);
               s = s\<lparr> sl_rnd := rnd \<rparr>;
               (prev, s) = (if sl_max_height s < height
                 then (foldl (\<lambda>p i. p[i := Some 0]) prev [sl_max_height s..<height], s\<lparr> sl_max_height := height \<rparr>)
                 else (prev, s));
               (x, s) = NewNode key height s
           in link_levels x prev [0..<height] s)
      | _ \<Rightarrow> None)"

definition Contains :: "('k \<Rightarrow> 'k \<Rightarrow> int) \<Rightarrow> 'k skiplist \<Rightarrow> 'k \<Rightarrow> bool option" where
  "Contains cmp s key = (case FindGreaterOrEqual cmp s key None of
      None \<Rightarrow> None
    | Some (None, _) \<Rightarrow> Some False
    | Some (Some x, _) \<Rightarrow> Some (cmp key (node_key s x) = 0))"

section \<open>Iterators\<close>

text \<open>An iterator is the node it stands at; it is valid when this is not null.\<close>

definition iter_Valid :: "nat option \<Rightarrow> bool" where
  "iter_Valid node \<longleftrightarrow> node \<noteq> None"

definition iter_key :: "'k skiplist \<Rightarrow> nat option \<Rightarrow> 'k" where
  "iter_key s node = node_key s (the node)"

definition iter_Next :: "'k skiplist \<Rightarrow> nat option \<Rightarrow> nat option" where
  "iter_Next s node = node_Next s (the node) 0"

definition iter_Prev :: "('k \<Rightarrow> 'k \<Rightarrow> int) \<Rightarrow> 'k skiplist \<Rightarrow> nat option \<Rightarrow> nat option option" where
  "iter_Prev cmp s node =
     map_option (\<lambda>x. if x = 0 then None else Some x) (FindLessThan cmp s (node_key s (the node)))"

definition iter_Seek :: "('k \<Rightarrow> 'k \<Rightarrow> int) \<Rightarrow> 'k skiplist \<Rightarrow> 'k \<Rightarrow> nat option option" where
  "iter_Seek cmp s target = map_option fst (FindGreaterOrEqual cmp s target None)"

definition iter_SeekToFirst :: "'k skiplist \<Rightarrow> nat option" where
  "iter_SeekToFirst s = node_Next s 0 0"

definition iter_SeekToLast :: "'k skiplist \<Rightarrow> nat option option" where
  "iter_SeekToLast s = map_option (\<lambda>x. if x = 0 then None else Some x) (FindLast s)"

end
