(* ===== verification/Ldb_Skiplist_Refine.thy ===== *)
theory Ldb_Skiplist_Refine
  imports Ldb_Skiplist
begin

text \<open>
  The skip list is a sorted list of keys: the searches find what a search from the left
  finds, on every level of links, and inserting puts the key at its place.
\<close>

section \<open>The chain of nodes\<close>

definition hd_option :: "'a list \<Rightarrow> 'a option" where
  "hd_option xs = (case xs of [] \<Rightarrow> None | x # _ \<Rightarrow> Some x)"

lemma hd_option_simps [simp]: "hd_option [] = None" "hd_option (x # xs) = Some x"
  by (simp_all add: hd_option_def)

lemma hd_option_append: "hd_option (xs @ ys) = (if xs = [] then hd_option ys else Some (hd xs))"
  by (cases xs) simp_all

lemma hd_option_None [simp]: "hd_option xs = None \<longleftrightarrow> xs = []"
  by (cases xs) simp_all

definition ht :: "'k skiplist \<Rightarrow> nat \<Rightarrow> nat" where
  "ht s x = length (sn_next (sl_nodes s ! x))"

text \<open>
  \<open>xs\<close> are the nodes behind the head in their order: every node links, on each of its levels,
  to the first later node that is high enough.
\<close>

definition chain :: "'k skiplist \<Rightarrow> nat list \<Rightarrow> bool" where
  "chain s xs \<longleftrightarrow> distinct (0 # xs) \<and> set (0 # xs) \<subseteq> {..<length (sl_nodes s)} \<and> ht s 0 = kMaxHeight
     \<and> (\<forall>x \<in> set xs. 1 \<le> ht s x \<and> ht s x \<le> sl_max_height s) \<and> 1 \<le> sl_max_height s \<and> sl_max_height s \<le> kMaxHeight
     \<and> (\<forall>ys zs i. xs = ys @ zs \<longrightarrow> i < ht s (last (0 # ys)) \<longrightarrow>
          node_Next s (last (0 # ys)) i = hd_option (filter (\<lambda>n. i < ht s n) zs))"

definition keys_of :: "'k skiplist \<Rightarrow> nat list \<Rightarrow> 'k list" where
  "keys_of s xs = map (node_key s) xs"

lemma chain_next:
  "chain s (ys @ zs) \<Longrightarrow> i < ht s (last (0 # ys)) \<Longrightarrow>
    node_Next s (last (0 # ys)) i = hd_option (filter (\<lambda>n. i < ht s n) zs)"
  unfolding chain_def by blast

lemma chain_not_head: "chain s xs \<Longrightarrow> x \<in> set xs \<Longrightarrow> x \<noteq> 0"
  by (metis chain_def distinct.simps(2))

lemma chain_head: "chain s xs \<Longrightarrow> sl_max_height s - 1 < ht s 0"
proof -
  assume "chain s xs"
  then have "ht s 0 = kMaxHeight" "1 \<le> sl_max_height s" "sl_max_height s \<le> kMaxHeight"
    unfolding chain_def by blast+
  then show ?thesis by linarith
qed

lemma chain_height: "chain s xs \<Longrightarrow> x \<in> set (0 # xs) \<Longrightarrow> 1 \<le> ht s x \<and> ht s x \<le> kMaxHeight"
  by (auto simp: chain_def kMaxHeight_def)

lemma filter_chain_0: "chain s (ys @ zs) \<Longrightarrow> filter (\<lambda>n. 0 < ht s n) zs = zs"
  by (auto simp: chain_def filter_id_conv Suc_le_eq)

text \<open>The node before the place of a key on a level.\<close>

definition pred_on :: "'k skiplist \<Rightarrow> nat list \<Rightarrow> nat \<Rightarrow> nat" where
  "pred_on s lt i = last (0 # filter (\<lambda>n. i < ht s n) lt)"

lemma pred_on_last: "i < ht s (last (0 # ys)) \<Longrightarrow> filter (\<lambda>n. i < ht s n) zs = [] \<Longrightarrow> pred_on s (ys @ zs) i = last (0 # ys)"
  by (cases ys rule: rev_cases) (auto simp: pred_on_def)

primrec fill_prev :: "'k skiplist \<Rightarrow> nat list \<Rightarrow> nat \<Rightarrow> nat option list \<Rightarrow> nat option list" where
  "fill_prev s lt 0 p = p[0 := Some (pred_on s lt 0)]"
| "fill_prev s lt (Suc i) p = fill_prev s lt i (p[Suc i := Some (pred_on s lt (Suc i))])"

lemma length_fill_prev [simp]: "length (fill_prev s lt i p) = length p"
  by (induction i arbitrary: p) simp_all

lemma nth_fill_prev:
  "j < length p \<Longrightarrow> fill_prev s lt i p ! j = (if j \<le> i then Some (pred_on s lt j) else p ! j)"
  by (induction i arbitrary: p) (auto simp: nth_list_update le_Suc_eq)

section \<open>Searching\<close>

lemma find_ge_loop_chain:
  assumes "chain s (ys @ zs @ ge)" and "level < ht s (last (0 # ys))"
    and "\<forall>n \<in> set zs. cmp (node_key s n) key < 0" and "\<forall>n \<in> set ge. \<not> cmp (node_key s n) key < 0"
  shows "find_ge_loop cmp s key (last (0 # ys)) level prev
    = Some (hd_option ge, map_option (fill_prev s (ys @ zs) level) prev)"
  using assms
proof (induction "level + length zs" arbitrary: level ys zs prev rule: less_induct)
  case less
  let ?x = "last (0 # ys)" and ?f = "\<lambda>zs. filter (\<lambda>n. level < ht s n) zs"
  have nxt: "node_Next s ?x level = hd_option (?f (zs @ ge))"
    by (rule chain_next [OF less.prems(1,2)])
  show ?case
  proof (cases "?f zs")
    case Nil
    have pred: "pred_on s (ys @ zs) level = ?x" by (rule pred_on_last [OF less.prems(2) Nil])
    have after: "\<not> KeyIsAfterNode cmp s key (node_Next s ?x level)"
      unfolding nxt using Nil less.prems(4)
      by (cases "?f ge") (auto simp: KeyIsAfterNode_def dest!: filter_eq_ConsD)
    show ?thesis
    proof (cases level)
      case 0
      then have "node_Next s ?x 0 = hd_option ge"
        using nxt Nil filter_chain_0 [of s "ys @ zs" ge] less.prems(1) by simp
      then show ?thesis using after pred 0
        by (subst find_ge_loop.simps) (auto simp: fun_eq_iff intro!: option.map_cong)
    next
      case (Suc l)
      then have "find_ge_loop cmp s key ?x l (map_option (\<lambda>p. p[level := Some ?x]) prev)
          = Some (hd_option ge, map_option (fill_prev s (ys @ zs) l) (map_option (\<lambda>p. p[level := Some ?x]) prev))"
        using less.prems by (intro less.hyps) auto
      then show ?thesis using after pred Suc
        by (subst find_ge_loop.simps) (cases prev; simp)
    qed
  next
    case (Cons z more)
    then obtain zs1 zs2 where zs: "zs = zs1 @ z # zs2" "?f zs1 = []" "level < ht s z"
      by (auto dest!: filter_eq_ConsD)
    have nxt: "node_Next s ?x level = Some z" using nxt Cons by simp
    have "KeyIsAfterNode cmp s key (node_Next s ?x level)"
      using less.prems(3) zs(1) nxt by (simp add: KeyIsAfterNode_def)
    moreover have "find_ge_loop cmp s key (last (0 # (ys @ zs1 @ [z]))) level prev
        = Some (hd_option ge, map_option (fill_prev s ((ys @ zs1 @ [z]) @ zs2) level) prev)"
      using less.prems zs by (intro less.hyps) auto
    ultimately show ?thesis using zs nxt by (subst find_ge_loop.simps) simp
  qed
qed

lemma find_lt_loop_chain:
  assumes "chain s (ys @ zs @ ge)" and "level < ht s (last (0 # ys))"
    and "\<forall>n \<in> set zs. cmp (node_key s n) key < 0" and "\<forall>n \<in> set ge. \<not> cmp (node_key s n) key < 0"
  shows "find_lt_loop cmp s key (last (0 # ys)) level = Some (last (0 # ys @ zs))"
  using assms
proof (induction "level + length zs" arbitrary: level ys zs rule: less_induct)
  case less
  let ?x = "last (0 # ys)" and ?f = "\<lambda>zs. filter (\<lambda>n. level < ht s n) zs"
  have nxt: "node_Next s ?x level = hd_option (?f (zs @ ge))"
    by (rule chain_next [OF less.prems(1,2)])
  show ?case
  proof (cases "?f zs")
    case Nil
    have stop: "node_Next s ?x level = None \<or> 0 \<le> cmp (node_key s (the (node_Next s ?x level))) key"
      unfolding nxt using Nil less.prems(4)
      by (cases "?f ge") (auto dest!: filter_eq_ConsD)
    show ?thesis
    proof (cases level)
      case 0
      moreover have "\<forall>n \<in> set zs. 0 < ht s n" using less.prems(1) by (auto simp: chain_def Suc_le_eq)
      ultimately have "zs = []" using Nil by (auto simp: filter_empty_conv)
      then show ?thesis using stop 0 by (subst find_lt_loop.simps) simp
    next
      case (Suc l)
      then have "find_lt_loop cmp s key ?x l = Some (last (0 # ys @ zs))"
        using less.prems by (intro less.hyps) auto
      then show ?thesis using stop Suc by (subst find_lt_loop.simps) simp
    qed
  next
    case (Cons z more)
    then obtain zs1 zs2 where zs: "zs = zs1 @ z # zs2" "?f zs1 = []" "level < ht s z"
      by (auto dest!: filter_eq_ConsD)
    have nxt: "node_Next s ?x level = Some z" using nxt Cons by simp
    have "cmp (node_key s z) key < 0" using less.prems(3) zs(1) by simp
    moreover have "find_lt_loop cmp s key (last (0 # (ys @ zs1 @ [z]))) level = Some (last (0 # (ys @ zs1 @ [z]) @ zs2))"
      using less.prems zs by (intro less.hyps) auto
    ultimately show ?thesis using zs nxt by (subst find_lt_loop.simps) simp
  qed
qed

lemma find_last_loop_chain:
  assumes "chain s (ys @ zs)" and "level < ht s (last (0 # ys))"
  shows "find_last_loop s (last (0 # ys)) level = Some (last (0 # ys @ zs))"
  using assms
proof (induction "level + length zs" arbitrary: level ys zs rule: less_induct)
  case less
  let ?x = "last (0 # ys)" and ?f = "\<lambda>zs. filter (\<lambda>n. level < ht s n) zs"
  have nxt: "node_Next s ?x level = hd_option (?f zs)"
    by (rule chain_next [OF less.prems])
  show ?case
  proof (cases "?f zs")
    case Nil
    show ?thesis
    proof (cases level)
      case 0
      then have "zs = []" using Nil filter_chain_0 [OF less.prems(1)] by simp
      then show ?thesis using nxt 0 by (subst find_last_loop.simps) simp
    next
      case (Suc l)
      then have "find_last_loop s ?x l = Some (last (0 # ys @ zs))"
        using less.prems by (intro less.hyps) auto
      then show ?thesis using nxt Nil Suc by (subst find_last_loop.simps) simp
    qed
  next
    case (Cons z more)
    then obtain zs1 zs2 where zs: "zs = zs1 @ z # zs2" "?f zs1 = []" "level < ht s z"
      by (auto dest!: filter_eq_ConsD)
    have "find_last_loop s (last (0 # (ys @ zs1 @ [z]))) level = Some (last (0 # (ys @ zs1 @ [z]) @ zs2))"
      using less.prems zs by (intro less.hyps) auto
    then show ?thesis using zs nxt by (subst find_last_loop.simps) simp
  qed
qed

section \<open>Linking a node\<close>

lemma node_SetNext_simps [simp]:
  "sl_max_height (node_SetNext x n y s) = sl_max_height s" "sl_rnd (node_SetNext x n y s) = sl_rnd s"
  "length (sl_nodes (node_SetNext x n y s)) = length (sl_nodes s)"
  by (simp_all add: node_SetNext_def)

lemma node_SetNext_ht [simp]: "ht (node_SetNext x n y s) z = ht s z"
  by (cases "x < length (sl_nodes s)") (auto simp: node_SetNext_def ht_def nth_list_update list_update_beyond)

lemma node_SetNext_key [simp]: "node_key (node_SetNext x n y s) z = node_key s z"
  by (cases "x < length (sl_nodes s)") (auto simp: node_SetNext_def node_key_def nth_list_update list_update_beyond)

lemma node_Next_SetNext:
  "x < length (sl_nodes s) \<Longrightarrow> n < ht s x \<Longrightarrow>
    node_Next (node_SetNext x n y s) z m = (if z = x \<and> m = n then y else node_Next s z m)"
  by (auto simp: node_Next_def node_SetNext_def ht_def nth_list_update)

lemma link_levels_ok:
  assumes "\<forall>j \<in> set levels. prev ! j = Some (p j) \<and> p j < length (sl_nodes s) \<and> p j \<noteq> x
      \<and> j < ht s (p j) \<and> j < ht s x"
    and "distinct levels" and "x < length (sl_nodes s)"
  shows "\<exists>s'. link_levels x prev levels s = Some s' \<and> sl_max_height s' = sl_max_height s
    \<and> length (sl_nodes s') = length (sl_nodes s) \<and> ht s' = ht s \<and> node_key s' = node_key s
    \<and> (\<forall>y j. node_Next s' y j = (if j \<in> set levels
         then if y = x then node_Next s (p j) j else if y = p j then Some x else node_Next s y j
         else node_Next s y j))"
  using assms
proof (induction levels arbitrary: s)
  case (Cons i levels)
  let ?t = "node_SetNext (p i) i (Some x) (node_SetNext x i (node_Next s (p i) i) s)"
  have i: "prev ! i = Some (p i)" "p i < length (sl_nodes s)" "p i \<noteq> x" "i < ht s (p i)" "i < ht s x"
    "i \<notin> set levels" "x < length (sl_nodes s)"
    using Cons.prems by auto
  have t: "node_Next ?t y j = (if y = p i \<and> j = i then Some x else if y = x \<and> j = i then node_Next s (p i) i
      else node_Next s y j)" for y j
    using i by (simp add: node_Next_SetNext)
  have same: "ht ?t = ht s" "node_key ?t = node_key s" by (simp_all add: fun_eq_iff)
  obtain s' where s': "link_levels x prev levels ?t = Some s'" "sl_max_height s' = sl_max_height ?t"
      "length (sl_nodes s') = length (sl_nodes ?t)" "ht s' = ht ?t" "node_key s' = node_key ?t"
      "\<And>y j. node_Next s' y j = (if j \<in> set levels
         then if y = x then node_Next ?t (p j) j else if y = p j then Some x else node_Next ?t y j
         else node_Next ?t y j)"
    using Cons.IH [of ?t] Cons.prems by fastforce
  have "node_Next s' y j = (if j \<in> set (i # levels)
      then if y = x then node_Next s (p j) j else if y = p j then Some x else node_Next s y j
      else node_Next s y j)" for y j
    unfolding s'(6) t using i(3,6) by auto
  then show ?case using s' i(1) same by auto
qed simp

lemma pred_split:
  obtains as bs where "lt = as @ bs" "pred_on s lt i = last (0 # as)" "filter (\<lambda>n. i < ht s n) bs = []"
    "i < ht s 0 \<longrightarrow> i < ht s (last (0 # as))"
proof (induction lt arbitrary: thesis rule: rev_induct)
  case Nil
  then show ?case by (auto simp: pred_on_def)
next
  case (snoc n lt)
  show ?case
  proof (cases "i < ht s n")
    case True
    then show ?thesis by (intro snoc.prems [of "lt @ [n]" "[]"]) (simp_all add: pred_on_def)
  next
    case False
    obtain as bs where "lt = as @ bs" "pred_on s lt i = last (0 # as)" "filter (\<lambda>n. i < ht s n) bs = []"
      "i < ht s 0 \<longrightarrow> i < ht s (last (0 # as))"
      using snoc.IH by blast
    then show ?thesis using False by (intro snoc.prems [of as "bs @ [n]"]) (simp_all add: pred_on_def)
  qed
qed

lemma pred_on_in: "pred_on s lt i \<in> set (0 # lt)"
  by (rule pred_split [of lt s i]) (use last_in_set in fastforce)

lemma pred_on_ht: "i < ht s 0 \<Longrightarrow> i < ht s (pred_on s lt i)"
  by (rule pred_split [of lt s i]) simp

lemma node_Next_pred:
  assumes "chain s (lt @ ge)" and "i < ht s 0"
  shows "node_Next s (pred_on s lt i) i = hd_option (filter (\<lambda>n. i < ht s n) ge)"
proof (rule pred_split [of lt s i])
  fix as bs
  assume as: "lt = as @ bs" "pred_on s lt i = last (0 # as)" "filter (\<lambda>n. i < ht s n) bs = []"
    "i < ht s 0 \<longrightarrow> i < ht s (last (0 # as))"
  then show ?thesis using chain_next [of s as "bs @ ge" i] assms by simp
qed

text \<open>The links of the new chain, when the new node is linked on every level below its height.\<close>

lemma links_inserted:
  assumes "chain s (lt @ ge)" and "x \<notin> set (0 # lt @ ge)" and "lt @ x # ge = ys @ zs" and "i < h (last (0 # ys))"
    and h: "\<And>n. n \<in> set (0 # lt @ ge) \<Longrightarrow> h n = ht s n" "h x \<le> kMaxHeight"
    and next': "\<And>y j. next' y j = (if j < h x
         then if y = x then node_Next s (pred_on s lt j) j else if y = pred_on s lt j then Some x else node_Next s y j
         else node_Next s y j)"
  shows "next' (last (0 # ys)) i = hd_option (filter (\<lambda>n. i < h n) zs)"
proof -
  let ?f = "filter (\<lambda>n. i < ht s n)" and ?y = "last (0 # ys)"
  have h0: "ht s 0 = kMaxHeight" using assms(1) by (simp add: chain_def)
  have dist: "distinct (0 # lt @ ge)" using assms(1) by (simp add: chain_def)
  have f: "filter (\<lambda>n. i < h n) us = ?f us" if "set us \<subseteq> set (lt @ ge)" for us
    using that h(1) by (intro filter_cong) auto
  consider us where "lt = ys @ us" "zs = us @ x # ge" | us where "ys = lt @ x # us" "ge = us @ zs"
    using assms(3) by (auto simp: append_eq_append_conv2 append_eq_Cons_conv Cons_eq_append_conv)
  then show ?thesis
  proof cases
    case (1 us)
    have y: "?y \<in> set (0 # ys)" by (metis last_in_set list.discI)
    then have y': "?y \<in> set (0 # lt @ ge)" "?y \<noteq> x" using 1(1) assms(2) by auto
    then have i: "i < ht s ?y" using assms(4) h(1) by auto
    have old: "node_Next s ?y i = hd_option (?f (us @ ge))"
      using chain_next [of s ys "us @ ge" i] assms(1) 1(1) i by simp
    have zs: "filter (\<lambda>n. i < h n) zs = ?f us @ (if i < h x then x # ?f ge else ?f ge)"
      using f [of us] f [of ge] by (simp add: 1 Un_upper1 le_supI1 le_supI2)
    show ?thesis
    proof (cases "?f us")
      case Nil
      then have "pred_on s lt i = ?y" using pred_on_last [OF i Nil] 1(1) by simp
      then show ?thesis using zs Nil old y'(2) by (simp add: next')
    next
      case (Cons u more)
      have "pred_on s lt i = last (?f us)" using Cons by (simp add: pred_on_def 1(1))
      then have "pred_on s lt i \<in> set (?f us)" using Cons last_in_set [of "?f us"] by (metis list.discI)
      then have "pred_on s lt i \<in> set us" by simp
      then have "pred_on s lt i \<noteq> ?y" using dist y 1(1) by auto
      then show ?thesis using zs Cons old y'(2) by (simp add: next')
    qed
  next
    case (2 us)
    have fz: "filter (\<lambda>n. i < h n) zs = ?f zs" by (rule f) (auto simp: 2)
    show ?thesis
    proof (cases "us = []")
      case True
      then have "?y = x" "i < h x" "ge = zs" using 2 assms(4) by simp_all
      then show ?thesis
        using node_Next_pred [OF assms(1), of i] h(2) h0 fz by (simp add: next')
    next
      case False
      then have y: "?y = last us" "?y \<in> set us" using 2 by simp_all
      then have y': "?y \<noteq> x" "?y \<noteq> pred_on s lt i"
        using assms(2) dist 2 pred_on_in [of s lt i] by auto
      have "i < ht s ?y" using assms(4) h(1) [of ?y] y(2) 2 by auto
      then have "node_Next s ?y i = hd_option (?f zs)"
        using chain_next [of s "lt @ us" zs i] assms(1) 2(2) y(1) False by simp
      then show ?thesis using y' fz by (simp add: next')
    qed
  qed
qed

section \<open>Inserting\<close>

lemma random_height_loop_range:
  "h \<le> kMaxHeight \<Longrightarrow> h \<le> fst (random_height_loop h rnd) \<and> fst (random_height_loop h rnd) \<le> kMaxHeight"
proof (induction h rnd rule: random_height_loop.induct)
  case (1 h rnd)
  then show ?case
    by (cases "h < kMaxHeight"; cases "Random_Next rnd mod 4 = 0")
      (simp_all only: random_height_loop.simps [of h rnd] Let_def if_True if_False, auto)
qed

lemma RandomHeight_range: "1 \<le> fst (RandomHeight rnd) \<and> fst (RandomHeight rnd) \<le> kMaxHeight"
  using random_height_loop_range [of 1 rnd] by (simp add: RandomHeight_def kMaxHeight_def)

lemma chain_extend:
  assumes "chain s xs" and "length (sl_nodes s) \<le> length (sl_nodes t)"
    and same: "\<And>n. n < length (sl_nodes s) \<Longrightarrow> sl_nodes t ! n = sl_nodes s ! n"
    and "sl_max_height s \<le> sl_max_height t" "sl_max_height t \<le> kMaxHeight"
  shows "chain t xs"
proof -
  have inside: "n \<in> set (0 # xs) \<Longrightarrow> n < length (sl_nodes s)" for n
    using assms(1) by (auto simp: chain_def)
  then have h: "n \<in> set (0 # xs) \<Longrightarrow> ht t n = ht s n" for n by (simp add: ht_def same)
  have links: "node_Next t (last (0 # ys)) i = hd_option (filter (\<lambda>n. i < ht t n) zs)"
    if "xs = ys @ zs" "i < ht t (last (0 # ys))" for ys zs i
  proof -
    have y: "last (0 # ys) \<in> set (0 # xs)"
      using that(1) last_in_set [of "0 # ys"] by auto
    moreover have "filter (\<lambda>n. i < ht t n) zs = filter (\<lambda>n. i < ht s n) zs"
      using that(1) h by (intro filter_cong) auto
    ultimately show ?thesis
      using chain_next [of s ys zs i] assms(1) that h inside [OF y] by (simp add: node_Next_def same del: last.simps)
  qed
  have "distinct (0 # xs)" "set (0 # xs) \<subseteq> {..<length (sl_nodes t)}" "ht t 0 = kMaxHeight"
    "1 \<le> sl_max_height t" "\<forall>x \<in> set xs. 1 \<le> ht t x \<and> ht t x \<le> sl_max_height t"
    using assms h by (fastforce simp: chain_def)+
  then show ?thesis using links assms(5) unfolding chain_def by blast
qed

lemma nth_foldl_head:
  "set is \<subseteq> {..<length p} \<Longrightarrow> foldl (\<lambda>p i. p[i := v]) p is ! j = (if j \<in> set is then v else p ! j)"
  by (induction "is" arbitrary: p) auto

lemma Insert_chain:
  assumes "chain s (lt @ ge)"
    and "\<forall>n \<in> set lt. cmp (node_key s n) key < 0" and "\<forall>n \<in> set ge. \<not> cmp (node_key s n) key < 0"
  obtains s' x where "Insert cmp key s = Some s'" "chain s' (lt @ x # ge)" "node_key s' x = key"
    "\<forall>n \<in> set (lt @ ge). node_key s' n = node_key s n"
proof -
  let ?mh = "sl_max_height s" and ?x = "length (sl_nodes s)"
  obtain height rnd where hr: "RandomHeight (sl_rnd s) = (height, rnd)" by fastforce
  then have height: "1 \<le> height" "height \<le> kMaxHeight" using RandomHeight_range [of "sl_rnd s"] by simp_all
  have mh: "1 \<le> ?mh" "?mh \<le> kMaxHeight" "ht s 0 = kMaxHeight" using assms(1) by (simp_all add: chain_def)
  define fill where "fill = fill_prev s lt (?mh - 1) (replicate kMaxHeight None)"
  define prev where "prev = (if ?mh < height then foldl (\<lambda>p i. p[i := Some 0]) fill [?mh..<height] else fill)"
  define t where "t = (if ?mh < height then s\<lparr> sl_rnd := rnd, sl_max_height := height \<rparr> else s\<lparr> sl_rnd := rnd \<rparr>)
      \<lparr> sl_nodes := sl_nodes s @ [\<lparr> sn_key = key, sn_next = replicate height None \<rparr>] \<rparr>"
  have t: "length (sl_nodes t) = Suc ?x" "sl_max_height t = max ?mh height" "ht t ?x = height" "node_key t ?x = key"
    "\<And>n. n < ?x \<Longrightarrow> sl_nodes t ! n = sl_nodes s ! n"
    by (auto simp: t_def ht_def node_key_def nth_append max_def)
  have ct: "chain t (lt @ ge)"
    by (rule chain_extend [OF assms(1)]) (use t height mh in auto)
  have inside: "n < ?x" if "n \<in> set (0 # lt @ ge)" for n using that assms(1) by (auto simp: chain_def)
  then have keys: "node_key t n = node_key s n" if "n \<in> set (0 # lt @ ge)" for n
    using that t(5) by (simp add: node_key_def)
  have "find_ge_loop cmp s key (last (0 # [])) (?mh - 1) (Some (replicate kMaxHeight None))
      = Some (hd_option ge, map_option (fill_prev s ([] @ lt) (?mh - 1)) (Some (replicate kMaxHeight None)))"
    using assms mh by (intro find_ge_loop_chain) (simp_all add: kMaxHeight_def)
  then have "Insert cmp key s = link_levels ?x prev [0..<height] t"
    by (simp add: Insert_def FindGreaterOrEqual_def hr Let_def NewNode_def fill_def prev_def t_def)
  moreover have prev: "prev ! j = Some (pred_on t lt j)" if j: "j < height" for j
  proof -
    have pred: "pred_on t lt j = pred_on s lt j"
      unfolding pred_on_def using t(5) inside by (intro arg_cong [of _ _ last] arg_cong [of _ _ "(#) 0"] filter_cong) (auto simp: ht_def)
    show ?thesis
    proof (cases "j < ?mh")
      case True
      then have "prev ! j = fill ! j" using height(2) by (simp add: prev_def fill_def nth_foldl_head subset_eq)
      then show ?thesis using True mh pred by (simp add: fill_def nth_fill_prev)
    next
      case False
      have "\<forall>n \<in> set lt. ht s n \<le> ?mh" using assms(1) by (simp add: chain_def)
      then have "\<forall>n \<in> set lt. \<not> j < ht s n" using False by (meson le_trans not_le)
      then have "filter (\<lambda>n. j < ht s n) lt = []" by (simp add: filter_empty_conv)
      then show ?thesis using False j height pred by (simp add: prev_def fill_def nth_foldl_head pred_on_def subset_eq)
    qed
  qed
  have "\<forall>j \<in> set [0..<height]. prev ! j = Some (pred_on t lt j) \<and> pred_on t lt j < length (sl_nodes t)
      \<and> pred_on t lt j \<noteq> ?x \<and> j < ht t (pred_on t lt j) \<and> j < ht t ?x"
  proof (intro ballI conjI)
    fix j assume "j \<in> set [0..<height]"
    then have j: "j < height" by simp
    have "pred_on t lt j \<in> set (0 # lt @ ge)" using pred_on_in [of t lt j] by auto
    then have less: "pred_on t lt j < ?x" by (rule inside)
    show "prev ! j = Some (pred_on t lt j)" by (rule prev [OF j])
    show "pred_on t lt j < length (sl_nodes t)" "pred_on t lt j \<noteq> ?x" using t(1) less by simp_all
    have "ht t 0 = kMaxHeight" using ct by (simp add: chain_def)
    then show "j < ht t (pred_on t lt j)" using j height(2) by (intro pred_on_ht) simp
    show "j < ht t ?x" using j t(3) by simp
  qed
  from link_levels_ok [OF this] t(1) obtain s' where s': "link_levels ?x prev [0..<height] t = Some s'"
      "sl_max_height s' = sl_max_height t" "length (sl_nodes s') = length (sl_nodes t)" "ht s' = ht t" "node_key s' = node_key t"
      "\<And>y j. node_Next s' y j = (if j < ht t ?x
         then if y = ?x then node_Next t (pred_on t lt j) j else if y = pred_on t lt j then Some ?x else node_Next t y j
         else node_Next t y j)"
    using t(3) by auto
  moreover have "chain s' (lt @ ?x # ge)"
  proof -
    have new: "?x \<notin> set (0 # lt @ ge)" using inside by blast
    have links: "node_Next s' (last (0 # ys)) i = hd_option (filter (\<lambda>n. i < ht s' n) zs)"
      if "lt @ ?x # ge = ys @ zs" "i < ht s' (last (0 # ys))" for ys zs i
      using links_inserted [OF ct new that(1) that(2) [unfolded s'(4)] _ _ s'(6)] s'(4) t(3) height(2) by simp
    have "distinct (0 # lt @ ?x # ge)" "set (0 # lt @ ?x # ge) \<subseteq> {..<length (sl_nodes s')}"
      using ct new s'(3) t(1) by (auto simp: chain_def)
    moreover have "ht s' 0 = kMaxHeight" "1 \<le> sl_max_height s'" "sl_max_height s' \<le> kMaxHeight"
      using ct s'(2,4) by (simp_all add: chain_def)
    moreover have "\<forall>n \<in> set (lt @ ?x # ge). 1 \<le> ht s' n \<and> ht s' n \<le> sl_max_height s'"
      using ct s'(2,4) t(2,3) height by (auto simp: chain_def)
    ultimately show ?thesis using links by (simp only: chain_def simp_thms) blast
  qed
  ultimately show thesis using that [of s' ?x] t(4) keys by simp
qed

section \<open>Sorted tables\<close>

text \<open>A three-way comparison that orders the valid keys; keys may compare equal and differ.\<close>

locale key_order =
  fixes cmp :: "'k \<Rightarrow> 'k \<Rightarrow> int" and valid :: "'k \<Rightarrow> bool"
  assumes cmp_swap: "valid a \<Longrightarrow> valid b \<Longrightarrow> 0 < cmp a b \<longleftrightarrow> cmp b a < 0"
    and cmp_trans: "valid a \<Longrightarrow> valid b \<Longrightarrow> valid c \<Longrightarrow> cmp a b < 0 \<Longrightarrow> cmp b c < 0 \<Longrightarrow> cmp a c < 0"
begin

definition sorted_keys :: "'k list \<Rightarrow> bool" where
  "sorted_keys ks \<longleftrightarrow> sorted_wrt (\<lambda>a b. cmp a b < 0) ks \<and> (\<forall>k \<in> set ks. valid k)"

definition before :: "'k \<Rightarrow> 'k list \<Rightarrow> 'k list" where
  "before key ks = takeWhile (\<lambda>k. cmp k key < 0) ks"

definition behind :: "'k \<Rightarrow> 'k list \<Rightarrow> 'k list" where
  "behind key ks = dropWhile (\<lambda>k. cmp k key < 0) ks"

lemma before_behind: "before key ks @ behind key ks = ks"
  by (simp add: before_def behind_def)

lemma in_before: "k \<in> set (before key ks) \<Longrightarrow> cmp k key < 0"
  using set_takeWhileD by (fastforce simp: before_def)

lemma in_behind:
  assumes "sorted_keys ks" and "valid key" and "k \<in> set (behind key ks)"
  shows "\<not> cmp k key < 0"
proof (cases "behind key ks")
  case (Cons h more)
  then have h: "\<not> cmp h key < 0" using hd_dropWhile [of "\<lambda>k. cmp k key < 0" ks] by (simp add: behind_def)
  have "sorted_keys (behind key ks)"
    using assms(1) unfolding sorted_keys_def
    by (metis before_behind sorted_wrt_append Un_iff set_append)
  then have "k = h \<or> cmp h k < 0 \<and> valid h \<and> valid k" using assms(3) Cons by (auto simp: sorted_keys_def)
  then show ?thesis using h cmp_trans [of h k key] assms(2) by blast
qed (use assms in simp)

lemma sorted_keys_insert:
  assumes "sorted_keys ks" and "valid key" and "\<forall>k \<in> set ks. cmp k key \<noteq> 0"
  shows "sorted_keys (before key ks @ key # behind key ks)"
proof -
  have ks: "sorted_wrt (\<lambda>a b. cmp a b < 0) (before key ks @ behind key ks)" "\<forall>k \<in> set (before key ks @ behind key ks). valid k"
    using assms(1) by (simp_all add: sorted_keys_def before_behind)
  have "cmp key k < 0" if "k \<in> set (behind key ks)" for k
    using in_behind [OF assms(1,2) that] assms(2,3) cmp_swap [of k key] ks(2) that before_behind [of key ks]
    by (metis Un_iff linorder_cases set_append)
  then show ?thesis
    using ks in_before [of _ key ks] assms(2) by (auto simp: sorted_keys_def sorted_wrt_append)
qed

end

text \<open>
  What the memtable relies on: a table holds a sorted list of keys, \<open>insert\<close> puts a key at its
  place and \<open>seek\<close> finds the first key that is not below its argument.
\<close>

locale ordered_table = key_order cmp valid for cmp :: "'k \<Rightarrow> 'k \<Rightarrow> int" and valid +
  fixes new :: "'k \<Rightarrow> 's" and insert_key :: "'k \<Rightarrow> 's \<Rightarrow> 's option" and seek :: "'s \<Rightarrow> 'k \<Rightarrow> 'p option option"
    and key_at :: "'s \<Rightarrow> 'p \<Rightarrow> 'k" and holds :: "'s \<Rightarrow> 'k list \<Rightarrow> bool"
  assumes holds_new: "holds (new k) []"
    and holds_sorted: "holds s ks \<Longrightarrow> sorted_keys ks"
    and insert_holds: "holds s ks \<Longrightarrow> valid key \<Longrightarrow> \<forall>k \<in> set ks. cmp k key \<noteq> 0 \<Longrightarrow>
      \<exists>s'. insert_key key s = Some s' \<and> holds s' (before key ks @ key # behind key ks)"
    and seek_holds: "holds s ks \<Longrightarrow> valid key \<Longrightarrow>
      \<exists>p. seek s key = Some p \<and> map_option (key_at s) p = hd_option (behind key ks)"
begin

text \<open>Inserting one key after the other.\<close>

primrec insert_all :: "'k list \<Rightarrow> 's \<Rightarrow> 's option" where
  "insert_all [] s = Some s"
| "insert_all (k # ks) s = Option.bind (insert_key k s) (insert_all ks)"

lemma insert_all_holds:
  assumes "holds s ks" and "\<forall>k \<in> set new_keys. valid k"
    and "\<forall>k \<in> set new_keys. \<forall>l \<in> set ks. cmp l k \<noteq> 0" and "sorted_wrt (\<lambda>a b. cmp a b \<noteq> 0) new_keys"
  shows "\<exists>s' ls. insert_all new_keys s = Some s' \<and> holds s' ls \<and> set ls = set ks \<union> set new_keys"
  using assms
proof (induction new_keys arbitrary: s ks)
  case (Cons k new_keys)
  obtain s' where s': "insert_key k s = Some s'" "holds s' (before k ks @ k # behind k ks)"
    using insert_holds [of s ks k] Cons.prems by auto
  have ks: "set (before k ks @ k # behind k ks) = insert k (set ks)"
    using arg_cong [OF before_behind [of k ks], of set] by auto
  have "\<exists>s'' ls. insert_all new_keys s' = Some s'' \<and> holds s'' ls
      \<and> set ls = set (before k ks @ k # behind k ks) \<union> set new_keys"
    using Cons.prems by (intro Cons.IH [OF s'(2)]) (auto simp: ks simp del: set_append)
  then show ?case using s'(1) ks by auto
qed auto

end

text \<open>The skip list is such a table.\<close>

definition skip_holds :: "('k \<Rightarrow> 'k \<Rightarrow> int) \<Rightarrow> ('k \<Rightarrow> bool) \<Rightarrow> 'k skiplist \<Rightarrow> 'k list \<Rightarrow> bool" where
  "skip_holds cmp valid s ks \<longleftrightarrow> (\<exists>xs. chain s xs \<and> ks = keys_of s xs)
     \<and> sorted_wrt (\<lambda>a b. cmp a b < 0) ks \<and> (\<forall>k \<in> set ks. valid k)"

lemma chain_SkipList: "chain (SkipList k) []"
  by (simp add: chain_def SkipList_def ht_def node_Next_def kMaxHeight_def)

sublocale key_order \<subseteq> skip: ordered_table cmp valid SkipList "Insert cmp" "iter_Seek cmp" node_key "skip_holds cmp valid"
proof unfold_locales
  show "skip_holds cmp valid (SkipList k) []" for k
    using chain_SkipList by (auto simp: skip_holds_def keys_of_def)
next
  fix s ks key
  assume holds: "skip_holds cmp valid s ks" and key: "valid key"
  then obtain xs where xs: "chain s xs" "ks = map (node_key s) xs" and ks: "sorted_keys ks"
    by (auto simp: skip_holds_def keys_of_def sorted_keys_def)
  define lt where "lt = takeWhile (\<lambda>n. cmp (node_key s n) key < 0) xs"
  define ge where "ge = dropWhile (\<lambda>n. cmp (node_key s n) key < 0) xs"
  have split: "xs = lt @ ge" by (simp add: lt_def ge_def)
  have parts: "before key ks = map (node_key s) lt" "behind key ks = map (node_key s) ge"
    by (simp_all add: before_def behind_def xs(2) lt_def ge_def takeWhile_map dropWhile_map comp_def)
  have below: "\<forall>n \<in> set lt. cmp (node_key s n) key < 0" and above: "\<forall>n \<in> set ge. \<not> cmp (node_key s n) key < 0"
    using in_before [of _ key ks] in_behind [OF ks key] by (auto simp: parts)
  show "\<exists>p. iter_Seek cmp s key = Some p \<and> map_option (node_key s) p = hd_option (behind key ks)"
    using find_ge_loop_chain [of s "[]" lt ge "sl_max_height s - 1" cmp key None] xs(1) below above
    by (cases ge) (auto simp: iter_Seek_def FindGreaterOrEqual_def split chain_def parts)
  assume new: "\<forall>k \<in> set ks. cmp k key \<noteq> 0"
  obtain s' x where s': "Insert cmp key s = Some s'" "chain s' (lt @ x # ge)" "node_key s' x = key"
    "\<forall>n \<in> set (lt @ ge). node_key s' n = node_key s n"
    by (rule Insert_chain [of s lt ge cmp key, OF xs(1) [unfolded split] below above])
  have "keys_of s' (lt @ x # ge) = before key ks @ key # behind key ks"
    using s'(3,4) by (simp add: keys_of_def parts)
  then show "\<exists>s'. Insert cmp key s = Some s' \<and> skip_holds cmp valid s' (before key ks @ key # behind key ks)"
    using s'(1,2) sorted_keys_insert [OF ks key new] by (auto simp: skip_holds_def sorted_keys_def)
qed (auto simp: skip_holds_def sorted_keys_def)

text \<open>Iterating forwards and backwards, as a client does.\<close>

fun walk :: "nat \<Rightarrow> 'k skiplist \<Rightarrow> nat option \<Rightarrow> 'k list" where
  "walk (Suc n) s (Some x) = node_key s x # walk n s (iter_Next s (Some x))"
| "walk _ s _ = []"

fun walk_back :: "nat \<Rightarrow> ('k \<Rightarrow> 'k \<Rightarrow> int) \<Rightarrow> 'k skiplist \<Rightarrow> nat option \<Rightarrow> 'k list" where
  "walk_back (Suc n) cmp s (Some x) = (case iter_Prev cmp s (Some x) of
      None \<Rightarrow> [] | Some y \<Rightarrow> node_key s x # walk_back n cmp s y)"
| "walk_back _ cmp s _ = []"

lemma walk_chain: "chain s (ys @ zs) \<Longrightarrow> walk (length zs) s (hd_option zs) = map (node_key s) zs"
proof (induction zs arbitrary: ys)
  case (Cons z zs)
  have "1 \<le> ht s z" using Cons.prems by (simp add: chain_def)
  then have "iter_Next s (Some z) = hd_option zs"
    using chain_next [of s "ys @ [z]" zs 0] filter_chain_0 [of s "ys @ [z]" zs] Cons.prems by (simp add: iter_Next_def)
  then show ?case using Cons.IH [of "ys @ [z]"] Cons.prems by simp
qed simp

lemma walk_first: "chain s xs \<Longrightarrow> walk (length xs) s (iter_SeekToFirst s) = keys_of s xs"
  using walk_chain [of s "[]" xs] chain_next [of s "[]" xs 0] filter_chain_0 [of s "[]" xs]
  by (simp add: iter_SeekToFirst_def keys_of_def chain_def kMaxHeight_def)

definition Insert_all :: "('k \<Rightarrow> 'k \<Rightarrow> int) \<Rightarrow> 'k list \<Rightarrow> 'k skiplist \<Rightarrow> 'k skiplist option" where
  "Insert_all cmp ks s = fold (\<lambda>k t. Option.bind t (Insert cmp k)) ks (Some s)"

context key_order
begin

lemma Insert_all_eq: "Insert_all cmp ks s = skip.insert_all ks s"
proof (induction ks arbitrary: s)
  case (Cons k ks)
  have none: "fold (\<lambda>k t. Option.bind t (Insert cmp k)) ks None = None" for ks :: "'k list"
    by (induction ks) simp_all
  show ?case
  proof (cases "Insert cmp k s")
    case (Some t)
    then show ?thesis using Cons.IH [of t] by (simp add: Insert_all_def)
  qed (simp add: Insert_all_def none)
qed (simp add: Insert_all_def)

lemma cmp_irrefl: "valid a \<Longrightarrow> \<not> cmp a a < 0"
  using cmp_swap [of a a] by auto

lemma iter_Prev_chain:
  assumes "chain s (ys @ x # zs)" and "sorted_keys (keys_of s (ys @ x # zs))"
  shows "iter_Prev cmp s (Some x) = Some (if ys = [] then None else Some (last ys))"
proof -
  have below: "\<forall>n \<in> set ys. cmp (node_key s n) (node_key s x) < 0"
    using assms(2) by (auto simp: sorted_keys_def keys_of_def sorted_wrt_append)
  have valid: "valid (node_key s x)" "\<forall>n \<in> set zs. valid (node_key s n)"
    and behind: "\<forall>n \<in> set zs. cmp (node_key s x) (node_key s n) < 0"
    using assms(2) by (auto simp: sorted_keys_def keys_of_def sorted_wrt_append)
  have above: "\<forall>n \<in> set (x # zs). \<not> cmp (node_key s n) (node_key s x) < 0"
    using behind valid cmp_trans cmp_irrefl by (metis set_ConsD)
  have "find_lt_loop cmp s (node_key s x) (last (0 # [])) (sl_max_height s - 1) = Some (last (0 # [] @ ys))"
    by (rule find_lt_loop_chain [of s "[]" ys "x # zs"]) (use assms(1) below above chain_head [OF assms(1)] in \<open>simp_all only: append_Nil last.simps simp_thms if_True\<close>)
  moreover have "ys \<noteq> [] \<Longrightarrow> last ys \<noteq> 0"
    using chain_not_head [OF assms(1), of "last ys"] by simp
  ultimately show ?thesis by (cases "ys = []") (simp_all add: iter_Prev_def FindLessThan_def)
qed

lemma walk_back_chain:
  "chain s (ys @ zs) \<Longrightarrow> sorted_keys (keys_of s (ys @ zs)) \<Longrightarrow>
    walk_back (length ys) cmp s (if ys = [] then None else Some (last ys)) = rev (map (node_key s) ys)"
proof (induction ys arbitrary: zs rule: rev_induct)
  case (snoc y ys)
  then show ?case using iter_Prev_chain [of s ys y zs] snoc.IH [of "y # zs"] by simp
qed simp

lemma walk_last:
  assumes "chain s xs" and "sorted_keys (keys_of s xs)"
  shows "\<exists>p. iter_SeekToLast s = Some p \<and> walk_back (length xs) cmp s p = rev (keys_of s xs)"
proof -
  have "find_last_loop s (last (0 # [])) (sl_max_height s - 1) = Some (last (0 # [] @ xs))"
    by (rule find_last_loop_chain) (use assms(1) chain_head [OF assms(1)] in simp_all)
  moreover have "xs \<noteq> [] \<Longrightarrow> last xs \<noteq> 0"
    using chain_not_head [OF assms(1)] by (metis last_in_set)
  ultimately have "iter_SeekToLast s = Some (if xs = [] then None else Some (last xs))"
    by (cases "xs = []") (simp_all add: iter_SeekToLast_def FindLast_def)
  then show ?thesis using walk_back_chain [of s xs "[]"] assms by (simp add: keys_of_def)
qed

lemma Contains_holds:
  assumes "skip_holds cmp valid s ks" and "valid key" and "\<And>a b. valid a \<Longrightarrow> valid b \<Longrightarrow> cmp a b = 0 \<longleftrightarrow> a = b"
  shows "Contains cmp s key = Some (key \<in> set ks)"
proof -
  have sorted: "sorted_keys ks" by (rule skip.holds_sorted [OF assms(1)])
  obtain p where p: "iter_Seek cmp s key = Some p" "map_option (node_key s) p = hd_option (behind key ks)"
    using skip.seek_holds [OF assms(1,2)] by blast
  have "key \<notin> set (before key ks)" using in_before cmp_irrefl [OF assms(2)] by blast
  then have key: "key \<in> set ks \<longleftrightarrow> key \<in> set (behind key ks)"
    by (metis Un_iff before_behind set_append)
  show ?thesis
  proof (cases "behind key ks")
    case Nil
    then have "p = None" using p(2) by simp
    then show ?thesis using p(1) key Nil by (auto simp: iter_Seek_def Contains_def)
  next
    case (Cons h t)
    then obtain x where x: "p = Some x" "node_key s x = h" using p(2) by (cases p) auto
    have ks: "ks = before key ks @ h # t" by (metis before_behind Cons)
    have "sorted_wrt (\<lambda>a b. cmp a b < 0) (before key ks @ h # t)" "valid h"
      using sorted ks by (metis sorted_keys_def, metis sorted_keys_def in_set_conv_decomp)
    then have "\<forall>k \<in> set t. cmp h k < 0" by (simp add: sorted_wrt_append)
    moreover have "\<not> cmp h key < 0" using in_behind [OF sorted assms(2), of h] Cons by simp
    ultimately have "key \<in> set ks \<longleftrightarrow> key = h" using key Cons by auto
    then show ?thesis using p(1) x assms(3) [OF assms(2) \<open>valid h\<close>]
      by (auto simp: iter_Seek_def Contains_def)
  qed
qed

end

end
