(* ===== verification/Ldb_Memtable.thy ===== *)
theory Ldb_Memtable
  imports Ldb_Keys Ldb_Env Ldb_Skiplist_Refine
begin

text \<open>
  The memtable (\<^verbatim>\<open>db/memtable.cc\<close>): a skip list of entries, each the bytes at the address its
  \<^verbatim>\<open>const char*\<close> points to, ordered by the internal key that the entry begins with. Memory of the
  arena and the count of references are not modelled.
\<close>

section \<open>Entries\<close>

definition NotFound :: "string \<Rightarrow> Status" where
  "NotFound msg = make_Status kNotFound msg []"

text \<open>The length in front of the bytes at a pointer, and the bytes behind it.\<close>

definition length_prefix :: "byte list \<Rightarrow> (32 word \<times> byte list) option" where
  "length_prefix data =
     (case GetVarint32Ptr (take 5 data) of
        None \<Rightarrow> None
      | Some (len, rest) \<Rightarrow> Some (len, drop (length (take 5 data) - length rest) data))"

text \<open>A corrupt length would give an undefined slice; here it gives the empty one.\<close>

definition entry_slice :: "byte list \<Rightarrow> slice" where
  "entry_slice data = (case length_prefix data of None \<Rightarrow> [] | Some (len, p) \<Rightarrow> take (unat len) p)"

definition entry_compare :: "Comparator \<Rightarrow> byte list \<Rightarrow> byte list \<Rightarrow> int" where
  "entry_compare user a b = internal_Compare user (entry_slice a) (entry_slice b)"

definition EncodeKey :: "slice \<Rightarrow> byte list" where
  "EncodeKey target = PutVarint32 [] (word_of_nat (length target)) @ target"

section \<open>The memtable\<close>

record MemTable =
  mt_comparator :: Comparator
  mt_table :: "byte list skiplist"

definition MemTable_new :: "Comparator \<Rightarrow> MemTable" where
  "MemTable_new user = \<lparr> mt_comparator = user, mt_table = SkipList [] \<rparr>"

definition entry_bytes :: "SequenceNumber \<Rightarrow> ValueType \<Rightarrow> slice \<Rightarrow> slice \<Rightarrow> byte list" where
  "entry_bytes s type key value =
     EncodeVarint32 (word_of_nat (length key + 8)) @ key
       @ EncodeFixed64 (push_bit 8 s OR ucast (value_type_code type))
       @ EncodeVarint32 (word_of_nat (length value)) @ value"

definition MemTable_Add ::
    "SequenceNumber \<Rightarrow> ValueType \<Rightarrow> slice \<Rightarrow> slice \<Rightarrow> MemTable \<Rightarrow> MemTable option" where
  "MemTable_Add s type key value mem =
     map_option (\<lambda>t. mem\<lparr> mt_table := t \<rparr>)
       (Insert (entry_compare (mt_comparator mem)) (entry_bytes s type key value) (mt_table mem))"

text \<open>
  The variables behind the pointers \<^verbatim>\<open>value\<close> and \<^verbatim>\<open>s\<close> go in and come out; the result is \<open>None\<close>
  when the search does not return.
\<close>

definition MemTable_Get ::
    "lookup_key \<Rightarrow> MemTable \<Rightarrow> slice \<Rightarrow> Status \<Rightarrow> (bool \<times> slice \<times> Status) option" where
  "MemTable_Get key mem value s =
     (case iter_Seek (entry_compare (mt_comparator mem)) (mt_table mem) (lk_memtable_key key) of
        None \<Rightarrow> None
      | Some it \<Rightarrow>
          if iter_Valid it then
            (case length_prefix (iter_key (mt_table mem) it) of
               None \<Rightarrow> None
             | Some (key_length, key_ptr) \<Rightarrow>
                 if cmp_Compare (mt_comparator mem) (take (unat (key_length - 8)) key_ptr) (lk_user_key key) = 0
                 then (let tag = DecodeFixed64 (drop (unat key_length - 8) key_ptr); c = tag AND 0xff
                       in if c = ucast (value_type_code kTypeValue)
                          then Some (True, entry_slice (drop (unat key_length) key_ptr), s)
                          else if c = ucast (value_type_code kTypeDeletion) then Some (True, value, NotFound [])
                          else Some (False, value, s))
                 else Some (False, value, s))
          else Some (False, value, s))"

section \<open>The iterator of the memtable\<close>

definition MemTableIterator_Seek :: "slice \<Rightarrow> MemTable \<Rightarrow> nat option option" where
  "MemTableIterator_Seek k mem = iter_Seek (entry_compare (mt_comparator mem)) (mt_table mem) (EncodeKey k)"

definition MemTableIterator_key :: "MemTable \<Rightarrow> nat option \<Rightarrow> slice" where
  "MemTableIterator_key mem it = entry_slice (iter_key (mt_table mem) it)"

definition MemTableIterator_value :: "MemTable \<Rightarrow> nat option \<Rightarrow> slice" where
  "MemTableIterator_value mem it =
     (case length_prefix (iter_key (mt_table mem) it) of
        None \<Rightarrow> [] | Some (len, p) \<Rightarrow> entry_slice (drop (unat len) p))"

definition MemTableIterator_SeekToFirst :: "MemTable \<Rightarrow> nat option" where
  "MemTableIterator_SeekToFirst mem = iter_SeekToFirst (mt_table mem)"

definition MemTableIterator_SeekToLast :: "MemTable \<Rightarrow> nat option option" where
  "MemTableIterator_SeekToLast mem = iter_SeekToLast (mt_table mem)"

definition MemTableIterator_Next :: "MemTable \<Rightarrow> nat option \<Rightarrow> nat option" where
  "MemTableIterator_Next mem it = iter_Next (mt_table mem) it"

definition MemTableIterator_Prev :: "MemTable \<Rightarrow> nat option \<Rightarrow> nat option option" where
  "MemTableIterator_Prev mem it = iter_Prev (entry_compare (mt_comparator mem)) (mt_table mem) it"

section \<open>Entries that begin with an internal key\<close>

definition valid_entry :: "byte list \<Rightarrow> bool" where
  "valid_entry e \<longleftrightarrow> (\<exists>k rest. 8 \<le> length k \<and> length k < 2 ^ 32
     \<and> e = EncodeVarint32 (word_of_nat (length k)) @ k @ rest)"

lemma length_prefix_Encode [simp]: "length_prefix (EncodeVarint32 v @ p) = Some (v, p)"
proof -
  have len: "length (EncodeVarint32 v) \<le> 5" by (rule length_EncodeVarint32)
  then have "take 5 (EncodeVarint32 v @ p) = EncodeVarint32 v @ take (5 - length (EncodeVarint32 v)) p" by simp
  then have "GetVarint32Ptr (take 5 (EncodeVarint32 v @ p)) = Some (v, take (5 - length (EncodeVarint32 v)) p)"
    using GetVarint32_Put by (simp only: GetVarint32_def)
  then show ?thesis using len by (simp add: length_prefix_def)
qed

lemma entry_slice_Encode:
  "length k < 2 ^ 32 \<Longrightarrow> entry_slice (EncodeVarint32 (word_of_nat (length k)) @ k @ rest) = k"
  by (simp add: entry_slice_def unat_length del: of_nat_numeral)

lemma entry_key_length: "valid_entry e \<Longrightarrow> 8 \<le> length (entry_slice e)"
  by (auto simp: valid_entry_def entry_slice_Encode)

context user_comparator
begin

lemma entry_key_order: "key_order (entry_compare c) valid_entry"
  by unfold_locales
    (use internal_Compare_swap internal_Compare_trans in \<open>auto simp: entry_compare_def\<close>)

end

sublocale user_comparator \<subseteq> entries: key_order "entry_compare c" valid_entry
  by (rule entry_key_order)

section \<open>The history of a memtable\<close>

text \<open>A write: sequence number, type, user key and value, within the limits of the format.\<close>

type_synonym mem_write = "SequenceNumber \<times> ValueType \<times> slice \<times> slice"

fun fits :: "mem_write \<Rightarrow> bool" where
  "fits (s, t, k, v) \<longleftrightarrow> s \<le> kMaxSequenceNumber \<and> length k + 8 < 2 ^ 32 \<and> length v < 2 ^ 32"

fun write_entry :: "mem_write \<Rightarrow> byte list" where
  "write_entry (s, t, k, v) = entry_bytes s t k v"

fun write_id :: "mem_write \<Rightarrow> slice \<times> SequenceNumber" where
  "write_id (s, t, k, v) = (k, s)"

lemma tag_type: "PackSequenceAndType s t AND 0xff = ucast (value_type_code t)"
proof -
  have "(0xff :: 64 word) = mask 8" by (simp add: mask_eq_exp_minus_1)
  then have "PackSequenceAndType s t AND 0xff = take_bit 8 (PackSequenceAndType s t)"
    by (simp only: take_bit_eq_mask)
  also have "\<dots> = ucast (value_type_code t)"
    by (rule bit_word_eqI) (auto simp: PackSequenceAndType_def bit_simps dest: bit_imp_le_length)
  finally show ?thesis .
qed

lemma tag_less:
  assumes "s \<le> kMaxSequenceNumber" and "s' \<le> kMaxSequenceNumber"
  shows "PackSequenceAndType s t < PackSequenceAndType s' t' \<longleftrightarrow>
    s < s' \<or> s = s' \<and> value_type_code t < value_type_code t'"
  using value_type_less(2) [of t] value_type_less(2) [of t']
  by (auto simp: word_less_nat_alt unat_PackSequenceAndType assms word_unat_eq_iff)

lemma entry_bytes_key: "entry_bytes s t k v = EncodeVarint32 (word_of_nat (length (InternalKey k s t))) @ InternalKey k s t
    @ EncodeVarint32 (word_of_nat (length v)) @ v"
  by (simp add: entry_bytes_def InternalKey_def AppendInternalKey_def PutFixed64_def PackSequenceAndType_def)

lemma ParseInternalKey_InternalKey:
  assumes "s \<le> kMaxSequenceNumber"
  shows "ParseInternalKey (InternalKey u s t) = Some \<lparr> pk_user_key = u, pk_sequence = s, pk_type = t \<rparr>"
proof -
  have "unat (drop_bit 8 (PackSequenceAndType s t)) = unat s"
    using value_type_less(2) [of t] by (simp add: unat_drop_bit unat_PackSequenceAndType [OF assms])
  then have "drop_bit 8 (PackSequenceAndType s t) = s" by (simp add: word_unat_eq_iff)
  moreover have "take (length u) (InternalKey u s t) = u" using InternalKey_parts(1) by (simp add: ExtractUserKey_def)
  ultimately show ?thesis
    by (cases t) (simp_all add: ParseInternalKey_def Let_def tag_type)
qed

lemma entry_slice_write: "length k + 8 < 2 ^ 32 \<Longrightarrow> entry_slice (entry_bytes s t k v) = InternalKey k s t"
  unfolding entry_bytes_key by (rule entry_slice_Encode) simp

lemma valid_write: "fits w \<Longrightarrow> valid_entry (write_entry w)"
proof (cases w)
  fix s t k v
  assume w: "w = (s, t, k, v)" and "fits w"
  then have "8 \<le> length (InternalKey k s t) \<and> length (InternalKey k s t) < 2 ^ 32" by simp
  then show ?thesis unfolding w write_entry.simps entry_bytes_key valid_entry_def by blast
qed

lemma lookup_parts:
  assumes "length u + 8 < 2 ^ 32"
  shows "entry_slice (lk_memtable_key (LookupKey u s)) = InternalKey u s kValueTypeForSeek"
    and "valid_entry (lk_memtable_key (LookupKey u s))" and "lk_user_key (LookupKey u s) = u"
proof -
  have eq: "lk_memtable_key (LookupKey u s) = EncodeVarint32 (word_of_nat (length (InternalKey u s kValueTypeForSeek)))
      @ InternalKey u s kValueTypeForSeek @ []"
    by (simp add: lk_memtable_key_def LookupKey_def Let_def InternalKey_def AppendInternalKey_def PutFixed64_def)
  show "entry_slice (lk_memtable_key (LookupKey u s)) = InternalKey u s kValueTypeForSeek"
    unfolding eq by (rule entry_slice_Encode) (use assms in simp)
  have "8 \<le> length (InternalKey u s kValueTypeForSeek) \<and> length (InternalKey u s kValueTypeForSeek) < 2 ^ 32"
    using assms by simp
  then show "valid_entry (lk_memtable_key (LookupKey u s))" unfolding eq valid_entry_def by blast
  show "lk_user_key (LookupKey u s) = u" by (simp add: lk_user_key_def LookupKey_def Let_def)
qed

text \<open>What \<open>MemTable_Get\<close> makes of the entry it finds.\<close>

lemma Get_entry:
  assumes "length k + 8 < 2 ^ 32" and "length v < 2 ^ 32"
  shows "length_prefix (entry_bytes s t k v) = Some (word_of_nat (length k + 8),
      k @ EncodeFixed64 (PackSequenceAndType s t) @ EncodeVarint32 (word_of_nat (length v)) @ v)"
    and "unat (word_of_nat (length k + 8) :: 32 word) = length k + 8"
    and "unat (word_of_nat (length k + 8) - 8 :: 32 word) = length k"
proof -
  show "length_prefix (entry_bytes s t k v) = Some (word_of_nat (length k + 8),
      k @ EncodeFixed64 (PackSequenceAndType s t) @ EncodeVarint32 (word_of_nat (length v)) @ v)"
    unfolding entry_bytes_def PackSequenceAndType_def [symmetric] by (rule length_prefix_Encode)
  show "unat (word_of_nat (length k + 8) :: 32 word) = length k + 8" by (rule unat_length [OF assms(1)])
  have "word_of_nat (length k + 8) - 8 = (word_of_nat (length k) :: 32 word)" by simp
  then show "unat (word_of_nat (length k + 8) - 8 :: 32 word) = length k"
    using assms(1) by (simp only: unat_length)
qed

context user_comparator
begin

definition mem_holds :: "MemTable \<Rightarrow> mem_write list \<Rightarrow> bool" where
  "mem_holds mem hist \<longleftrightarrow> mt_comparator mem = c \<and> (\<forall>w \<in> set hist. fits w) \<and> distinct (map write_id hist)
     \<and> (\<exists>ks. skip_holds (entry_compare c) valid_entry (mt_table mem) ks \<and> set ks = write_entry ` set hist)"

lemma mem_holds_new: "mem_holds (MemTable_new c) []"
  using entries.skip.holds_new [of "[]"] by (auto simp: mem_holds_def MemTable_new_def)

lemma entry_compare_less:
  assumes "length k + 8 < 2 ^ 32"
  shows "entry_compare c (entry_bytes s t k v) e < 0 \<longleftrightarrow> cmp_Compare c k (ExtractUserKey (entry_slice e)) < 0
      \<or> k = ExtractUserKey (entry_slice e) \<and> key_tag (entry_slice e) < PackSequenceAndType s t"
  by (simp add: entry_compare_def entry_slice_write [OF assms] internal_Compare_less)

lemma entry_compare_eq:
  assumes "fits (s, t, k, v)" and "fits (s', t', k', v')" and "entry_compare c (entry_bytes s t k v) (entry_bytes s' t' k' v') = 0"
  shows "k = k'" and "s = s'"
proof -
  have eq: "k = k'" "PackSequenceAndType s t = PackSequenceAndType s' t'"
    using assms by (simp_all add: entry_compare_def entry_slice_write internal_Compare_eq)
  then show "k = k'" by simp
  have "256 * unat s + unat (value_type_code t) = 256 * unat s' + unat (value_type_code t')"
    using arg_cong [OF eq(2), of unat] assms by (simp add: unat_PackSequenceAndType)
  then show "s = s'" using value_type_less(2) [of t] value_type_less(2) [of t'] by (simp add: word_unat_eq_iff)
qed

lemma MemTable_Add_holds:
  assumes "mem_holds mem hist" and "fits (s, t, k, v)" and "(k, s) \<notin> write_id ` set hist"
  obtains mem' where "MemTable_Add s t k v mem = Some mem'" "mem_holds mem' (hist @ [(s, t, k, v)])"
proof -
  let ?e = "entry_bytes s t k v"
  obtain ks where ks: "skip_holds (entry_compare c) valid_entry (mt_table mem) ks" "set ks = write_entry ` set hist"
    and mem: "mt_comparator mem = c" "\<forall>w \<in> set hist. fits w" "distinct (map write_id hist)"
    using assms(1) by (auto simp: mem_holds_def)
  have "entry_compare c e ?e \<noteq> 0" if e: "e \<in> set ks" for e
  proof
    assume eq: "entry_compare c e ?e = 0"
    obtain s' t' k' v' where w: "(s', t', k', v') \<in> set hist" "e = entry_bytes s' t' k' v'"
      using e ks(2) by auto
    then have "k' = k" "s' = s" using entry_compare_eq [of s' t' k' v' s t k v] mem(2) assms(2) eq by auto
    then have "write_id (s', t', k', v') = (k, s)" by simp
    then show False using assms(3) w(1) by (metis image_eqI)
  qed
  then obtain t' where t': "Insert (entry_compare c) ?e (mt_table mem) = Some t'"
      "skip_holds (entry_compare c) valid_entry t' (entries.before ?e ks @ ?e # entries.behind ?e ks)"
    using entries.skip.insert_holds [OF ks(1), of ?e] valid_write [OF assms(2)] by auto
  have "set (entries.before ?e ks @ ?e # entries.behind ?e ks) = write_entry ` set (hist @ [(s, t, k, v)])"
    using arg_cong [OF entries.before_behind [of ?e ks], of set] ks(2) by auto
  then have "\<exists>ks. skip_holds (entry_compare c) valid_entry t' ks \<and> set ks = write_entry ` set (hist @ [(s, t, k, v)])"
    using t'(2) by blast
  then have "mem_holds (mem\<lparr> mt_table := t' \<rparr>) (hist @ [(s, t, k, v)])"
    using mem assms(2,3) unfolding mem_holds_def by simp
  then show thesis using that t'(1) mem(1) by (simp add: MemTable_Add_def)
qed

text \<open>The entry at which a search for a user key and a sequence number ends.\<close>

lemma seek_first:
  assumes "entries.sorted_keys ks" and "valid_entry L" and "entries.behind L ks = e # es"
  shows "e \<in> set ks" and "\<not> entry_compare c e L < 0"
    and "\<And>d. d \<in> set ks \<Longrightarrow> \<not> entry_compare c d L < 0 \<Longrightarrow> d = e \<or> entry_compare c e d < 0"
proof -
  have ks: "ks = entries.before L ks @ e # es" using entries.before_behind [of L ks] assms(3) by simp
  then show "e \<in> set ks" by (metis in_set_conv_decomp)
  show "\<not> entry_compare c e L < 0"
    using entries.in_behind [OF assms(1,2), of e] assms(3) by simp
  fix d
  assume d: "d \<in> set ks" "\<not> entry_compare c d L < 0"
  then have "d \<notin> set (entries.before L ks)" using entries.in_before by blast
  then have "d \<in> set (e # es)" using d(1) ks by (metis Un_iff set_append)
  moreover have "sorted_wrt (\<lambda>a b. entry_compare c a b < 0) (entries.before L ks @ e # es)"
    using assms(1) ks by (metis entries.sorted_keys_def)
  ultimately show "d = e \<or> entry_compare c e d < 0" by (auto simp: sorted_wrt_append)
qed

text \<open>Visible to a snapshot: the writes of the key up to its sequence number.\<close>

definition visible :: "mem_write list \<Rightarrow> slice \<Rightarrow> SequenceNumber \<Rightarrow> mem_write set" where
  "visible hist u n = {(s, t, k, v). (s, t, k, v) \<in> set hist \<and> k = u \<and> s \<le> n}"

lemma visible_not_below:
  assumes "length u + 8 < 2 ^ 32" and "n \<le> kMaxSequenceNumber" and "fits (s, t, k, v)"
  shows "entry_compare c (entry_bytes s t k v) (lk_memtable_key (LookupKey u n)) < 0 \<longleftrightarrow>
    cmp_Compare c k u < 0 \<or> k = u \<and> n < s"
proof -
  have "\<not> value_type_code kValueTypeForSeek < value_type_code t"
    by (cases t) (simp_all add: kValueTypeForSeek_def)
  then show ?thesis
    using assms by (simp add: entry_compare_less lookup_parts tag_less)
qed

lemma Get_found:
  assumes "mt_comparator mem = c" and "length u + 8 < 2 ^ 32" and "fits (s, t, k, v)"
    and "iter_Seek (entry_compare c) (mt_table mem) (lk_memtable_key (LookupKey u n)) = Some (Some x)"
    and "node_key (mt_table mem) x = entry_bytes s t k v"
  shows "MemTable_Get (LookupKey u n) mem value st = Some (if k = u
    then case t of kTypeValue \<Rightarrow> (True, v, st) | kTypeDeletion \<Rightarrow> (True, value, NotFound [])
    else (False, value, st))"
proof -
  have len: "length k + 8 < 2 ^ 32" "length v < 2 ^ 32" using assms(3) by simp_all
  obtain kl where e: "length_prefix (entry_bytes s t k v) = Some (kl,
      k @ EncodeFixed64 (PackSequenceAndType s t) @ EncodeVarint32 (word_of_nat (length v)) @ v)"
    "unat kl = length k + 8" "unat (kl - 8) = length k"
    using Get_entry(1) [OF len] Get_entry(2,3) [OF len] by blast
  have tag: "PackSequenceAndType s t AND 0xff = ucast (value_type_code t)" by (rule tag_type)
  have v: "entry_slice (EncodeVarint32 (word_of_nat (length v)) @ v) = v"
    using entry_slice_Encode [of v "[]"] assms(3) by simp
  show ?thesis
    using assms(1,4,5) compare_eq [of k u] e tag
    by (cases t) (simp_all add: v lookup_parts [OF assms(2)] MemTable_Get_def iter_Valid_def iter_key_def Let_def)
qed

lemma MemTable_Get_holds:
  assumes "mem_holds mem hist" and "length u + 8 < 2 ^ 32" and "n \<le> kMaxSequenceNumber"
  shows "visible hist u n = {} \<Longrightarrow> MemTable_Get (LookupKey u n) mem value st = Some (False, value, st)"
    and "(s, t, u, v) \<in> visible hist u n \<Longrightarrow> \<forall>(s', t', k', v') \<in> visible hist u n. s' \<le> s \<Longrightarrow>
      MemTable_Get (LookupKey u n) mem value st
        = Some (case t of kTypeValue \<Rightarrow> (True, v, st) | kTypeDeletion \<Rightarrow> (True, value, NotFound []))"
proof -
  let ?L = "lk_memtable_key (LookupKey u n)"
  obtain ks where ks: "skip_holds (entry_compare c) valid_entry (mt_table mem) ks" "set ks = write_entry ` set hist"
    and mem: "mt_comparator mem = c" "\<And>w. w \<in> set hist \<Longrightarrow> fits w" "distinct (map write_id hist)"
    using assms(1) by (auto simp: mem_holds_def)
  have L: "valid_entry ?L" by (rule lookup_parts [OF assms(2)])
  obtain p where p: "iter_Seek (entry_compare c) (mt_table mem) ?L = Some p"
      "map_option (node_key (mt_table mem)) p = hd_option (entries.behind ?L ks)"
    using entries.skip.seek_holds [OF ks(1) L] by blast
  have sorted: "entries.sorted_keys ks" by (rule entries.skip.holds_sorted [OF ks(1)])
  have same: "w = w'" if "w \<in> set hist" "w' \<in> set hist" "write_id w = write_id w'" for w w'
    using that mem(3) by (meson distinct_map inj_onD)
  have seen: "write_entry (s, t, k, v) \<in> set ks \<and> \<not> entry_compare c (write_entry (s, t, k, v)) ?L < 0"
    if "(s, t, k, v) \<in> visible hist u n" for s t k v
  proof
    have w: "(s, t, k, v) \<in> set hist" "k = u" "s \<le> n" using that by (auto simp: visible_def)
    then show "write_entry (s, t, k, v) \<in> set ks" using ks(2) by (metis imageI)
    show "\<not> entry_compare c (write_entry (s, t, k, v)) ?L < 0"
      using w visible_not_below [OF assms(2,3) mem(2) [OF w(1)]] compare_irrefl [of u] by auto
  qed
  show "MemTable_Get (LookupKey u n) mem value st = Some (False, value, st)" if empty: "visible hist u n = {}"
  proof (cases "entries.behind ?L ks")
    case Nil
    then show ?thesis using p mem(1) by (simp add: MemTable_Get_def iter_Valid_def)
  next
    case (Cons e es)
    note first = seek_first [OF sorted L Cons]
    obtain x where x: "p = Some x" "node_key (mt_table mem) x = e" using p(2) Cons by (cases p) auto
    obtain s' t' k' v' where w: "(s', t', k', v') \<in> set hist" "e = entry_bytes s' t' k' v'"
      using first(1) ks(2) by auto
    have "k' \<noteq> u"
    proof
      assume "k' = u"
      then have "\<not> n < s'" using first(2) visible_not_below [OF assms(2,3) mem(2) [OF w(1)]] w(2) by simp
      then have "(s', t', k', v') \<in> visible hist u n" using w(1) \<open>k' = u\<close> by (simp add: visible_def)
      then show False using empty by simp
    qed
    then show ?thesis using Get_found [OF mem(1) assms(2) mem(2) [OF w(1)]] p(1) x w(2) by simp
  qed
  assume vis: "(s, t, u, v) \<in> visible hist u n" and max: "\<forall>(s', t', k', v') \<in> visible hist u n. s' \<le> s"
  let ?d = "entry_bytes s t u v"
  have d: "(s, t, u, v) \<in> set hist" "?d \<in> set ks" "\<not> entry_compare c ?d ?L < 0"
    using seen [OF vis] vis by (simp_all add: visible_def)
  then have "?d \<in> set (entries.behind ?L ks)"
    using arg_cong [OF entries.before_behind [of ?L ks], of set] entries.in_before [of ?d ?L ks] by auto
  then obtain e es where Cons: "entries.behind ?L ks = e # es" by (cases "entries.behind ?L ks") auto
  note first = seek_first [OF sorted L Cons]
  obtain x where x: "p = Some x" "node_key (mt_table mem) x = e" using p(2) Cons by (cases p) auto
  obtain s' t' k' v' where w: "(s', t', k', v') \<in> set hist" "e = entry_bytes s' t' k' v'"
    using first(1) ks(2) by auto
  note fits = mem(2) [OF w(1)] mem(2) [OF d(1)]
  have not_below: "\<not> cmp_Compare c k' u < 0" "k' = u \<Longrightarrow> s' \<le> n"
    using first(2) visible_not_below [OF assms(2,3) fits(1)] w(2) by auto
  have "(s', t', k', v') = (s, t, u, v)"
  proof (cases "entry_compare c e ?d < 0")
    case True
    then have less: "k' = u" "PackSequenceAndType s t < PackSequenceAndType s' t'"
      using not_below(1) entry_compare_less [of k' s' t' v' ?d] fits w(2) by (auto simp: entry_slice_write)
    then have "(s', t', k', v') \<in> visible hist u n" using w(1) not_below(2) by (simp add: visible_def)
    then have "s' \<le> s" using max by blast
    then have "s' = s" using less(2) tag_less [of s s' t t'] fits by auto
    then show ?thesis using same [OF w(1) d(1)] less(1) by simp
  next
    case False
    then have "?d = e" using first(3) [OF d(2,3)] by blast
    then have "entry_compare c ?d e = 0" by (simp add: entry_compare_def)
    then have "u = k'" "s = s'" using entry_compare_eq [OF fits(2,1)] w(2) by simp_all
    then show ?thesis using same [OF w(1) d(1)] by simp
  qed
  then show "MemTable_Get (LookupKey u n) mem value st
      = Some (case t of kTypeValue \<Rightarrow> (True, v, st) | kTypeDeletion \<Rightarrow> (True, value, NotFound []))"
    using Get_found [OF mem(1) assms(2) fits(1)] p(1) x w(2) by auto
qed

end

end
