(* ===== verification/Ldb_Batch.thy ===== *)
theory Ldb_Batch
  imports Ldb_Memtable
begin

text \<open>
  Write batches (\<^verbatim>\<open>db/write_batch.cc\<close>): the operations of a batch in one string of bytes, which
  goes to the log and is replayed into the memtable. The string is the state of the batch.
\<close>

section \<open>The batch\<close>

type_synonym WriteBatch = "byte list"

definition kHeader :: nat where
  "kHeader = 12"

definition WriteBatch_Clear :: "WriteBatch \<Rightarrow> WriteBatch" where
  "WriteBatch_Clear rep = replicate kHeader 0"

definition WriteBatch_new :: WriteBatch where
  "WriteBatch_new = WriteBatch_Clear []"

text \<open>The count is stored unsigned and read as a signed integer.\<close>

definition Count :: "WriteBatch \<Rightarrow> int" where
  "Count rep = sint (DecodeFixed32 (drop 8 rep))"

definition SetCount :: "int \<Rightarrow> WriteBatch \<Rightarrow> WriteBatch" where
  "SetCount n rep = take 8 rep @ EncodeFixed32 (word_of_int n) @ drop 12 rep"

definition Sequence :: "WriteBatch \<Rightarrow> SequenceNumber" where
  "Sequence rep = DecodeFixed64 rep"

definition SetSequence :: "SequenceNumber \<Rightarrow> WriteBatch \<Rightarrow> WriteBatch" where
  "SetSequence seq rep = EncodeFixed64 seq @ drop 8 rep"

definition Put :: "slice \<Rightarrow> slice \<Rightarrow> WriteBatch \<Rightarrow> WriteBatch" where
  "Put key value rep =
     PutLengthPrefixedSlice (PutLengthPrefixedSlice
       (SetCount (Count rep + 1) rep @ [value_type_code kTypeValue]) key) value"

definition Delete :: "slice \<Rightarrow> WriteBatch \<Rightarrow> WriteBatch" where
  "Delete key rep =
     PutLengthPrefixedSlice (SetCount (Count rep + 1) rep @ [value_type_code kTypeDeletion]) key"

definition SetContents :: "slice \<Rightarrow> WriteBatch \<Rightarrow> WriteBatch" where
  "SetContents contents rep = contents"

definition Append :: "WriteBatch \<Rightarrow> WriteBatch \<Rightarrow> WriteBatch" where
  "Append dst src = SetCount (Count dst + Count src) dst @ drop kHeader src"

definition Contents :: "WriteBatch \<Rightarrow> slice" where
  "Contents rep = rep"

definition ByteSize :: "WriteBatch \<Rightarrow> nat" where
  "ByteSize rep = length rep"

section \<open>Iterating\<close>

text \<open>The virtual functions of a handler, on a state of type \<open>'h\<close>; \<open>None\<close> when one does not return.\<close>

record 'h Handler =
  h_Put :: "slice \<Rightarrow> slice \<Rightarrow> 'h \<Rightarrow> 'h option"
  h_Delete :: "slice \<Rightarrow> 'h \<Rightarrow> 'h option"

text \<open>The loop: the status is \<open>StatusOK\<close> when it reaches the end, and \<open>found\<close> is the number of records.\<close>

function iterate_loop :: "'h Handler \<Rightarrow> slice \<Rightarrow> nat \<Rightarrow> 'h \<Rightarrow> (Status \<times> nat \<times> 'h) option" where
  "iterate_loop handler [] found h = Some (StatusOK, found, h)"
| "iterate_loop handler (tag # input) found h =
     (if tag = value_type_code kTypeValue then
        (case GetLengthPrefixedSlice input of
           None \<Rightarrow> Some (Corruption ''bad WriteBatch Put'', found + 1, h)
         | Some (key, input1) \<Rightarrow>
             (case GetLengthPrefixedSlice input1 of
                None \<Rightarrow> Some (Corruption ''bad WriteBatch Put'', found + 1, h)
              | Some (value, input2) \<Rightarrow>
                  (case h_Put handler key value h of
                     None \<Rightarrow> None
                   | Some h' \<Rightarrow> iterate_loop handler input2 (found + 1) h')))
      else if tag = value_type_code kTypeDeletion then
        (case GetLengthPrefixedSlice input of
           None \<Rightarrow> Some (Corruption ''bad WriteBatch Delete'', found + 1, h)
         | Some (key, input1) \<Rightarrow>
             (case h_Delete handler key h of
                None \<Rightarrow> None
              | Some h' \<Rightarrow> iterate_loop handler input1 (found + 1) h'))
      else Some (Corruption ''unknown WriteBatch tag'', found + 1, h))"
  by pat_completeness auto
termination
proof (relation "measure (\<lambda>(_, input, _, _). length input)", goal_cases)
  case (2 handler tag input found h p key input1 q val input2 h')
  then show ?case
    using GetLengthPrefixedSlice_shorter [of input key input1] GetLengthPrefixedSlice_shorter [of input1 val input2]
    by simp
next
  case (3 handler tag input found h p key input1 h')
  then show ?case using GetLengthPrefixedSlice_shorter [of input key input1] by simp
qed simp

definition Iterate :: "'h Handler \<Rightarrow> WriteBatch \<Rightarrow> 'h \<Rightarrow> (Status \<times> 'h) option" where
  "Iterate handler rep h =
     (if length rep < kHeader then Some (Corruption ''malformed WriteBatch (too small)'', h)
      else (case iterate_loop handler (drop kHeader rep) 0 h of
          None \<Rightarrow> None
        | Some (s, found, h') \<Rightarrow>
            if \<not> status_ok s then Some (s, h')
            else if int found \<noteq> Count rep then Some (Corruption ''WriteBatch has wrong count'', h')
            else Some (StatusOK, h')))"

text \<open>The handler that fills a memtable; its state is the next sequence number and the memtable.\<close>

definition MemTableInserter :: "(SequenceNumber \<times> MemTable) Handler" where
  "MemTableInserter =
     \<lparr> h_Put = (\<lambda>key value (seq, mem).
         map_option (Pair (seq + 1)) (MemTable_Add seq kTypeValue key value mem)),
       h_Delete = (\<lambda>key (seq, mem).
         map_option (Pair (seq + 1)) (MemTable_Add seq kTypeDeletion key [] mem)) \<rparr>"

definition InsertInto :: "WriteBatch \<Rightarrow> MemTable \<Rightarrow> (Status \<times> MemTable) option" where
  "InsertInto rep memtable =
     map_option (\<lambda>(s, _, mem). (s, mem)) (Iterate MemTableInserter rep (Sequence rep, memtable))"

section \<open>The operations of a batch\<close>

datatype batch_op = OpPut slice slice | OpDelete slice

fun op_fits :: "batch_op \<Rightarrow> bool" where
  "op_fits (OpPut k v) \<longleftrightarrow> length k < 2 ^ 32 \<and> length v < 2 ^ 32"
| "op_fits (OpDelete k) \<longleftrightarrow> length k < 2 ^ 32"

fun op_bytes :: "batch_op \<Rightarrow> byte list" where
  "op_bytes (OpPut k v) = value_type_code kTypeValue # PutLengthPrefixedSlice [] k @ PutLengthPrefixedSlice [] v"
| "op_bytes (OpDelete k) = value_type_code kTypeDeletion # PutLengthPrefixedSlice [] k"

fun do_op :: "batch_op \<Rightarrow> WriteBatch \<Rightarrow> WriteBatch" where
  "do_op (OpPut k v) rep = Put k v rep"
| "do_op (OpDelete k) rep = Delete k rep"

text \<open>A batch that holds a list of operations, with its sequence number.\<close>

definition batch_rep :: "SequenceNumber \<Rightarrow> batch_op list \<Rightarrow> WriteBatch" where
  "batch_rep seq ops = EncodeFixed64 seq @ EncodeFixed32 (word_of_nat (length ops)) @ concat (map op_bytes ops)"

lemma PutLengthPrefixedSlice_append: "PutLengthPrefixedSlice dst s = dst @ PutLengthPrefixedSlice [] s"
  by (simp add: PutLengthPrefixedSlice_def PutVarint32_def)

lemma batch_rep_new: "WriteBatch_new = batch_rep 0 []"
  by code_simp

lemma Count_batch_rep: "length ops < 2 ^ 31 \<Longrightarrow> Count (batch_rep seq ops) = int (length ops)"
  by (simp add: Count_def batch_rep_def signed_of_nat signed_take_bit_int_eq_self)

lemma SetCount_batch_rep:
  "SetCount n (batch_rep seq ops) = EncodeFixed64 seq @ EncodeFixed32 (word_of_int n) @ concat (map op_bytes ops)"
  by (simp add: SetCount_def batch_rep_def)

lemma SetSequence_batch_rep: "SetSequence seq' (batch_rep seq ops) = batch_rep seq' ops"
  by (simp add: SetSequence_def batch_rep_def)

lemma Sequence_batch_rep: "Sequence (batch_rep seq ops) = seq"
  by (simp add: Sequence_def batch_rep_def)

lemma do_op_batch_rep:
  "length ops < 2 ^ 31 \<Longrightarrow> do_op x (batch_rep seq ops) = batch_rep seq (ops @ [x])"
proof -
  assume "length ops < 2 ^ 31"
  then have "SetCount (Count (batch_rep seq ops) + 1) (batch_rep seq ops)
      = EncodeFixed64 seq @ EncodeFixed32 (word_of_nat (length (ops @ [x]))) @ concat (map op_bytes ops)"
    by (simp add: Count_batch_rep SetCount_batch_rep add.commute)
  then show ?thesis
    by (cases x) (simp_all add: Put_def Delete_def batch_rep_def PutLengthPrefixedSlice_def PutVarint32_def)
qed

lemma fold_do_op:
  "length (os @ zs) < 2 ^ 31 \<Longrightarrow> fold do_op zs (batch_rep s os) = batch_rep s (os @ zs)"
  by (induction zs arbitrary: os) (simp_all add: do_op_batch_rep)

lemma fold_do_op_new: "length ops < 2 ^ 31 \<Longrightarrow> fold do_op ops WriteBatch_new = batch_rep 0 ops"
  using fold_do_op [of "[]" ops 0] by (simp add: batch_rep_new)

lemma Append_batch_rep:
  "length xs < 2 ^ 31 \<Longrightarrow> length ys < 2 ^ 31 \<Longrightarrow> Append (batch_rep seq xs) (batch_rep seq' ys) = batch_rep seq (xs @ ys)"
  by (simp add: Append_def Count_batch_rep SetCount_batch_rep) (simp add: batch_rep_def kHeader_def)

section \<open>Replaying\<close>

fun handle :: "'h Handler \<Rightarrow> batch_op \<Rightarrow> 'h \<Rightarrow> 'h option" where
  "handle handler (OpPut k v) h = h_Put handler k v h"
| "handle handler (OpDelete k) h = h_Delete handler k h"

primrec handle_all :: "'h Handler \<Rightarrow> batch_op list \<Rightarrow> 'h \<Rightarrow> 'h option" where
  "handle_all handler [] h = Some h"
| "handle_all handler (x # ops) h = Option.bind (handle handler x h) (handle_all handler ops)"

lemma iterate_loop_op:
  "op_fits x \<Longrightarrow> iterate_loop handler (op_bytes x @ rest) found h
     = Option.bind (handle handler x h) (iterate_loop handler rest (found + 1))"
  by (cases x) (auto split: option.splits simp del: value_type_code.simps simp: value_type_code.simps(1,2) Option.bind_def)

lemma iterate_loop_ops:
  "\<forall>x \<in> set ops. op_fits x \<Longrightarrow> iterate_loop handler (concat (map op_bytes ops)) found h
     = map_option (\<lambda>h'. (StatusOK, found + length ops, h')) (handle_all handler ops h)"
proof (induction ops arbitrary: found h)
  case (Cons x ops)
  then show ?case by (cases "handle handler x h") (simp_all add: iterate_loop_op)
qed simp

lemma Iterate_batch_rep:
  assumes "\<forall>x \<in> set ops. op_fits x" and "length ops < 2 ^ 31"
  shows "Iterate handler (batch_rep seq ops) h = map_option (Pair StatusOK) (handle_all handler ops h)"
proof -
  have "drop kHeader (batch_rep seq ops) = concat (map op_bytes ops)" "\<not> length (batch_rep seq ops) < kHeader"
    by (simp_all add: batch_rep_def kHeader_def)
  then show ?thesis
    using iterate_loop_ops [OF assms(1), of handler 0 h] Count_batch_rep [OF assms(2), of seq]
    by (cases "handle_all handler ops h") (simp_all add: Iterate_def status_ok_def)
qed

section \<open>Batches cut short\<close>

lemma GetLengthPrefixedSlice_cut:
  assumes "q @ t = PutLengthPrefixedSlice [] k @ r" and "length q < length (PutLengthPrefixedSlice [] k)"
    and "length k < 2 ^ 32"
  shows "GetLengthPrefixedSlice q = None"
proof (cases "GetVarint32 q")
  case (Some lr)
  obtain len rest where lr: "lr = (len, rest)" by fastforce
  let ?vs = "EncodeVarint32 (word_of_nat (length k))"
  have len: "unat (word_of_nat (length k) :: 32 word) = length k" by (rule unat_length [OF assms(3)])
  obtain vs where vs: "q = vs @ rest" "is_varint vs" "len = word_of_nat (base128 vs)"
    using GetVarint32_Some [of q len rest] Some lr by blast
  have "vs @ (rest @ t) = ?vs @ (k @ r)"
    using assms(1) vs(1) by (simp add: PutLengthPrefixedSlice_def PutVarint32_def)
  then have eq: "vs = ?vs" using is_varint_prefix_unique [OF vs(2)] by (metis EncodeVarint32_eq varint_bytes_ok)
  then have "GetVarint32 q = Some (word_of_nat (length k), rest)" using vs(1) by simp
  moreover have "length rest < length k"
    using assms(2) vs(1) eq by (simp add: PutLengthPrefixedSlice_def PutVarint32_def)
  ultimately show ?thesis by (simp add: GetLengthPrefixedSlice_def len)
qed (simp add: GetLengthPrefixedSlice_def)

lemma iterate_loop_op_cut:
  assumes "op_fits x" and "q @ t = op_bytes x @ r" and "q \<noteq> []" and "length q < length (op_bytes x)"
    and "iterate_loop handler q found h = Some (s, n, h')"
  shows "\<not> status_ok s"
proof -
  obtain tag q' where q: "q = tag # q'" using assms(3) by (cases q) auto
  show ?thesis
  proof (cases x)
    case (OpDelete k)
    then have "GetLengthPrefixedSlice q' = None"
      using assms(1,2,4) q by (intro GetLengthPrefixedSlice_cut [of q' t k r]) auto
    then show ?thesis using assms(2,5) q OpDelete by (auto simp: status_ok_def Corruption_def make_Status_def)
  next
    case (OpPut k v)
    have tail: "q' @ t = PutLengthPrefixedSlice [] k @ (PutLengthPrefixedSlice [] v @ r)" "tag = 1"
      using assms(2) q OpPut by auto
    show ?thesis
    proof (cases "length q' < length (PutLengthPrefixedSlice [] k)")
      case True
      then have "GetLengthPrefixedSlice q' = None"
        using assms(1) OpPut by (intro GetLengthPrefixedSlice_cut [OF tail(1)]) auto
      then show ?thesis using assms(5) q tail(2) by (auto simp: status_ok_def Corruption_def make_Status_def)
    next
      case False
      define q2 where "q2 = drop (length (PutLengthPrefixedSlice [] k)) q'"
      have q2: "q' = PutLengthPrefixedSlice [] k @ q2" "q2 @ t = PutLengthPrefixedSlice [] v @ r"
        using append_split [OF tail(1)] False by (simp_all add: q2_def)
      have "GetLengthPrefixedSlice q2 = None"
        using assms(1,4) OpPut q q2 by (intro GetLengthPrefixedSlice_cut [OF q2(2)]) auto
      then show ?thesis using assms(1,5) q tail(2) q2(1) OpPut
        by (auto simp: status_ok_def Corruption_def make_Status_def)
    qed
  qed
qed

lemma iterate_loop_cut:
  assumes "\<forall>x \<in> set ops. op_fits x" and "q @ t = concat (map op_bytes ops)" and "t \<noteq> []"
    and "iterate_loop handler q found h = Some (s, n, h')"
  shows "status_ok s \<longrightarrow> n < found + length ops"
  using assms
proof (induction ops arbitrary: q found h)
  case (Cons x ops)
  show ?case
  proof (cases "length (op_bytes x) \<le> length q")
    case True
    define q' where "q' = drop (length (op_bytes x)) q"
    have q': "q = op_bytes x @ q'" "q' @ t = concat (map op_bytes ops)"
      using append_split [of q t "op_bytes x"] Cons.prems(2) True by (simp_all add: q'_def)
    obtain h'' where "handle handler x h = Some h''" "iterate_loop handler q' (found + 1) h'' = Some (s, n, h')"
      using Cons.prems(1,4) q'(1) by (auto simp: iterate_loop_op bind_eq_Some_conv)
    then show ?thesis using Cons.IH [of q' "found + 1" h''] Cons.prems(1,3) q'(2) by simp
  next
    case False
    show ?thesis
    proof (cases "q = []")
      case True
      then show ?thesis using Cons.prems(4) by simp
    next
      case nonempty: False
      have x: "op_fits x" "q @ t = op_bytes x @ concat (map op_bytes ops)" using Cons.prems(1,2) by simp_all
      have "\<not> status_ok s"
        by (rule iterate_loop_op_cut [OF x nonempty _ Cons.prems(4)]) (use False in simp)
      then show ?thesis by simp
    qed
  qed
qed auto

lemma Iterate_cut:
  assumes "\<forall>x \<in> set ops. op_fits x" and "length ops < 2 ^ 31" and "n < length (batch_rep seq ops)"
    and "Iterate handler (take n (batch_rep seq ops)) h = Some (s, h')"
  shows "\<not> status_ok s"
proof (cases "n < kHeader")
  case True
  then have "length (take n (batch_rep seq ops)) < kHeader" by simp
  then show ?thesis using assms(4)
    by (auto simp: Iterate_def status_ok_def Corruption_def make_Status_def)
next
  case False
  let ?rep = "take n (batch_rep seq ops)" and ?body = "concat (map op_bytes ops)"
  have rep: "?rep = EncodeFixed64 seq @ EncodeFixed32 (word_of_nat (length ops)) @ take (n - 12) ?body"
    using False by (simp add: batch_rep_def kHeader_def)
  have count: "Count ?rep = int (length ops)"
    unfolding rep using assms(2) by (simp add: Count_def signed_of_nat signed_take_bit_int_eq_self)
  have body: "drop kHeader ?rep = take (n - 12) ?body" unfolding rep by (simp add: kHeader_def)
  have cut: "take (n - 12) ?body @ drop (n - 12) ?body = ?body" "drop (n - 12) ?body \<noteq> []"
    using assms(3) False by (simp_all add: batch_rep_def kHeader_def)
  have size: "\<not> length ?rep < kHeader" unfolding rep by (simp add: kHeader_def)
  obtain s0 found h0 where loop: "iterate_loop handler (take (n - 12) ?body) 0 h = Some (s0, found, h0)"
    using assms(4) size body by (auto simp: Iterate_def split: option.splits)
  have "status_ok s0 \<longrightarrow> found < length ops" using iterate_loop_cut [OF assms(1) cut loop] by simp
  then show ?thesis
    using assms(4) size body loop count
    by (auto simp: Iterate_def status_ok_def Corruption_def make_Status_def split: if_splits)
qed

section \<open>Batches in the memtable\<close>

fun op_key :: "batch_op \<Rightarrow> slice" where
  "op_key (OpPut k v) = k"
| "op_key (OpDelete k) = k"

fun op_write :: "SequenceNumber \<Rightarrow> batch_op \<Rightarrow> mem_write" where
  "op_write s (OpPut k v) = (s, kTypeValue, k, v)"
| "op_write s (OpDelete k) = (s, kTypeDeletion, k, [])"

primrec writes_of :: "SequenceNumber \<Rightarrow> batch_op list \<Rightarrow> mem_write list" where
  "writes_of s [] = []"
| "writes_of s (x # ops) = op_write s x # writes_of (s + 1) ops"

lemma length_writes_of [simp]: "length (writes_of s ops) = length ops"
  by (induction ops arbitrary: s) simp_all

lemma nth_writes_of: "i < length ops \<Longrightarrow> writes_of s ops ! i = op_write (s + word_of_nat i) (ops ! i)"
  by (induction ops arbitrary: s i) (auto simp: nth_Cons' algebra_simps of_nat_diff)

text \<open>The last operation on a key, and what a reader makes of it.\<close>

primrec last_op :: "slice \<Rightarrow> batch_op list \<Rightarrow> batch_op option" where
  "last_op u [] = None"
| "last_op u (x # ops) = (case last_op u ops of Some y \<Rightarrow> Some y | None \<Rightarrow> if op_key x = u then Some x else None)"

fun read_outcome :: "batch_op option \<Rightarrow> slice \<Rightarrow> Status \<Rightarrow> bool \<times> slice \<times> Status" where
  "read_outcome None value st = (False, value, st)"
| "read_outcome (Some (OpPut k v)) value st = (True, v, st)"
| "read_outcome (Some (OpDelete k)) value st = (True, value, NotFound [])"

lemma last_op_None: "last_op u ops = None \<longleftrightarrow> (\<forall>x \<in> set ops. op_key x \<noteq> u)"
  by (induction ops) (auto split: option.splits)

lemma last_op_Some:
  "last_op u ops = Some x \<Longrightarrow> \<exists>i < length ops. ops ! i = x \<and> op_key x = u
     \<and> (\<forall>j. i < j \<and> j < length ops \<longrightarrow> op_key (ops ! j) \<noteq> u)"
proof (induction ops)
  case (Cons y ops)
  show ?case
  proof (cases "last_op u ops")
    case None
    then have "y = x" "op_key y = u" using Cons.prems by (auto split: if_splits)
    moreover have "op_key ((y # ops) ! j) \<noteq> u" if "0 < j" "j < length (y # ops)" for j
      using None that by (simp add: last_op_None nth_Cons')
    ultimately show ?thesis by (intro exI [of _ 0]) simp
  next
    case (Some z)
    then obtain i where "i < length ops" "ops ! i = x" "op_key x = u"
      "\<forall>j. i < j \<and> j < length ops \<longrightarrow> op_key (ops ! j) \<noteq> u"
      using Cons by auto
    then show ?thesis by (intro exI [of _ "Suc i"]) (auto simp: nth_Cons split: nat.splits)
  qed
qed simp

text \<open>The sequence numbers of a batch do not overflow into the type.\<close>

definition seq_room :: "SequenceNumber \<Rightarrow> nat \<Rightarrow> bool" where
  "seq_room s n \<longleftrightarrow> unat s + n < 2 ^ 56"

lemma seq_room_unat: "seq_room s n \<Longrightarrow> i \<le> n \<Longrightarrow> unat (s + word_of_nat i) = unat s + i"
  unfolding seq_room_def
  by (subst unat_word_ariths) (simp add: unat_of_nat take_bit_nat_eq_self)

lemma seq_room_le: "seq_room s n \<Longrightarrow> i \<le> n \<Longrightarrow> s + word_of_nat i \<le> kMaxSequenceNumber"
  using seq_room_unat [of s n i] by (simp add: word_le_nat_alt unat_kMaxSequenceNumber seq_room_def)

fun op_key_fits :: "batch_op \<Rightarrow> bool" where
  "op_key_fits (OpPut k v) \<longleftrightarrow> length k + 8 < 2 ^ 32 \<and> length v < 2 ^ 32"
| "op_key_fits (OpDelete k) \<longleftrightarrow> length k + 8 < 2 ^ 32"

lemma op_key_fits_op_fits: "op_key_fits x \<Longrightarrow> op_fits x"
  by (cases x) auto

lemma fits_op_write: "op_key_fits x \<Longrightarrow> s \<le> kMaxSequenceNumber \<Longrightarrow> fits (op_write s x)"
  by (cases x) auto

lemma op_write_id [simp]: "write_id (op_write s x) = (op_key x, s)"
  by (cases x) auto

context user_comparator
begin

lemma handle_holds:
  assumes "mem_holds mem hist" and "op_key_fits x" and "s \<le> kMaxSequenceNumber" and "(op_key x, s) \<notin> write_id ` set hist"
  obtains mem' where "handle MemTableInserter x (s, mem) = Some (s + 1, mem')" "mem_holds mem' (hist @ [op_write s x])"
proof (cases x)
  case (OpPut k v)
  obtain mem' where "MemTable_Add s kTypeValue k v mem = Some mem'" "mem_holds mem' (hist @ [(s, kTypeValue, k, v)])"
    by (rule MemTable_Add_holds [of mem hist s kTypeValue k v]) (use assms OpPut in auto)
  then show thesis using that OpPut by (simp add: MemTableInserter_def)
next
  case (OpDelete k)
  obtain mem' where "MemTable_Add s kTypeDeletion k [] mem = Some mem'" "mem_holds mem' (hist @ [(s, kTypeDeletion, k, [])])"
    by (rule MemTable_Add_holds [of mem hist s kTypeDeletion k "[]"]) (use assms OpDelete in auto)
  then show thesis using that OpDelete by (simp add: MemTableInserter_def)
qed

lemma handle_all_holds:
  assumes "mem_holds mem hist" and "\<forall>x \<in> set ops. op_key_fits x" and "seq_room s (length ops)"
    and "\<forall>(s', t, k, v) \<in> set hist. s' < s"
  shows "\<exists>s' mem'. handle_all MemTableInserter ops (s, mem) = Some (s', mem') \<and> mem_holds mem' (hist @ writes_of s ops)"
  using assms
proof (induction ops arbitrary: s mem hist)
  case (Cons x ops)
  have s: "s \<le> kMaxSequenceNumber" using seq_room_le [OF Cons.prems(3), of 0] by simp
  have new: "(op_key x, s) \<notin> write_id ` set hist" using Cons.prems(4) by fastforce
  obtain mem' where mem': "handle MemTableInserter x (s, mem) = Some (s + 1, mem')" "mem_holds mem' (hist @ [op_write s x])"
    using handle_holds [OF Cons.prems(1) _ s new] Cons.prems(2) by auto
  have s1: "unat (s + 1) = unat s + 1" using seq_room_unat [OF Cons.prems(3), of 1] by simp
  have "seq_room (s + 1) (length ops)" using Cons.prems(3) by (simp add: seq_room_def s1)
  moreover have "\<forall>(s', t, k, v) \<in> set (hist @ [op_write s x]). s' < s + 1"
    using Cons.prems(4) by (cases x) (fastforce simp: word_less_nat_alt s1)+
  ultimately have "\<exists>s' mem''. handle_all MemTableInserter ops (s + 1, mem') = Some (s', mem'')
      \<and> mem_holds mem'' ((hist @ [op_write s x]) @ writes_of (s + 1) ops)"
    using Cons.prems(2) by (intro Cons.IH [OF mem'(2)]) auto
  then show ?case using mem'(1) by simp
qed simp

lemma Get_writes_of:
  assumes "mem_holds mem (writes_of s ops)" and "seq_room s (length ops)" and "j < length ops" and "length u + 8 < 2 ^ 32"
  shows "MemTable_Get (LookupKey u (s + word_of_nat j)) mem val st
    = Some (read_outcome (last_op u (take (Suc j) ops)) val st)"
proof -
  let ?n = "s + word_of_nat j" and ?ops = "take (Suc j) ops"
  have n: "?n \<le> kMaxSequenceNumber" using seq_room_le [OF assms(2)] assms(3) by simp
  have seq: "unat (s + word_of_nat i) = unat s + i" if "i < length ops" for i
    using seq_room_unat [OF assms(2)] that by simp
  have vis: "w \<in> visible (writes_of s ops) u ?n \<longleftrightarrow>
      (\<exists>i < length ?ops. w = op_write (s + word_of_nat i) (?ops ! i) \<and> op_key (?ops ! i) = u)" for w
  proof
    assume w: "w \<in> visible (writes_of s ops) u ?n"
    then have "w \<in> set (writes_of s ops)" by (auto simp: visible_def)
    then obtain i where i: "i < length ops" "w = op_write (s + word_of_nat i) (ops ! i)"
      by (auto simp: in_set_conv_nth nth_writes_of)
    then have "op_key (ops ! i) = u" "s + word_of_nat i \<le> ?n"
      using w by (cases "ops ! i"; auto simp: visible_def)+
    then have "i \<le> j" using seq [OF i(1)] seq [OF assms(3)] by (simp add: word_le_nat_alt)
    then show "\<exists>i < length ?ops. w = op_write (s + word_of_nat i) (?ops ! i) \<and> op_key (?ops ! i) = u"
      using i \<open>op_key (ops ! i) = u\<close> by (intro exI [of _ i]) simp
  next
    assume "\<exists>i < length ?ops. w = op_write (s + word_of_nat i) (?ops ! i) \<and> op_key (?ops ! i) = u"
    then obtain i where i: "i < length ops" "i \<le> j" "w = op_write (s + word_of_nat i) (ops ! i)" "op_key (ops ! i) = u"
      by auto
    have "w \<in> set (writes_of s ops)" using i by (metis length_writes_of nth_mem nth_writes_of)
    moreover have "s + word_of_nat i \<le> ?n" using i seq [OF i(1)] seq [OF assms(3)] by (simp add: word_le_nat_alt)
    ultimately show "w \<in> visible (writes_of s ops) u ?n"
      using i by (cases "ops ! i") (auto simp: visible_def)
  qed
  show ?thesis
  proof (cases "last_op u ?ops")
    case None
    then have "visible (writes_of s ops) u ?n = {}"
      using vis by (metis equals0I last_op_None nth_mem)
    then show ?thesis using MemTable_Get_holds(1) [OF assms(1,4) n] None by simp
  next
    case (Some x)
    obtain i where i: "i < length ?ops" "?ops ! i = x" "op_key x = u"
      "\<forall>k. i < k \<and> k < length ?ops \<longrightarrow> op_key (?ops ! k) \<noteq> u"
      using last_op_Some [OF Some] by blast
    obtain t v where w: "op_write (s + word_of_nat i) x = (s + word_of_nat i, t, u, v)"
      using i(3) by (cases x) auto
    have in_vis: "(s + word_of_nat i, t, u, v) \<in> visible (writes_of s ops) u ?n"
      using vis i w by metis
    have max: "\<forall>(s', t', k', v') \<in> visible (writes_of s ops) u ?n. s' \<le> s + word_of_nat i"
    proof clarify
      fix s' t' k' v'
      assume "(s', t', k', v') \<in> visible (writes_of s ops) u ?n"
      then obtain k where k: "k < length ?ops" "(s', t', k', v') = op_write (s + word_of_nat k) (?ops ! k)" "op_key (?ops ! k) = u"
        using vis by blast
      have "\<not> i < k" using i(4) k(1,3) by blast
      then have "k \<le> i" by simp
      moreover have "s' = s + word_of_nat k" using k(2) by (cases "?ops ! k") auto
      ultimately show "s' \<le> s + word_of_nat i"
        using seq [of k] seq [of i] i(1) k(1) by (simp add: word_le_nat_alt)
    qed
    show ?thesis
      using MemTable_Get_holds(2) [OF assms(1,4) n in_vis max] Some w i(3)
      by (cases x) auto
  qed
qed

end

end
