(* ===== verification/Store_Properties.thy ===== *)
theory Store_Properties
  imports Ldb_Batch
begin

text \<open>
  What the parts of leveldb between the write batch and the memtable promise, alone and together.
\<close>

interpretation slices: key_order slice_compare "\<lambda>_. True"
  by unfold_locales (use slice_compare_swap slice_compare_trans in auto)

section \<open>Keys\<close>

text \<open>C27: internal keys are ordered by increasing user key, then by decreasing sequence number, then with
  values in front of deletions; the parser gives back the parts of a key, and the key that looks up
  a user key in a snapshot stands exactly in front of the versions that the snapshot sees.\<close>

theorem internal_key_order:
  assumes "s \<le> kMaxSequenceNumber" and "s' \<le> kMaxSequenceNumber"
  shows "(cmp_Compare (InternalKeyComparator BytewiseComparator) (InternalKey u s t) (InternalKey u' s' t') < 0
      \<longleftrightarrow> ord_class.lexordp u u' \<or> u = u' \<and> (s' < s \<or> s = s' \<and> t = kTypeValue \<and> t' = kTypeDeletion))
    \<and> ParseInternalKey (InternalKey u s t) = Some \<lparr> pk_user_key = u, pk_sequence = s, pk_type = t \<rparr>
    \<and> (cmp_Compare (InternalKeyComparator BytewiseComparator) (lk_internal_key (LookupKey u s)) (InternalKey u s' t') \<le> 0
      \<longleftrightarrow> s' \<le> s)"
proof (intro conjI)
  note tags = tag_less [OF assms] tag_less [OF assms(2,1)]
  have "cmp_Compare (InternalKeyComparator BytewiseComparator) (InternalKey u s t) (InternalKey u' s' t') < 0
      \<longleftrightarrow> slice_compare u u' < 0 \<or> u = u' \<and> PackSequenceAndType s' t' < PackSequenceAndType s t"
    by (simp add: InternalKeyComparator_def bytewise.internal_Compare_less) (simp add: BytewiseComparator_def)
  then show "cmp_Compare (InternalKeyComparator BytewiseComparator) (InternalKey u s t) (InternalKey u' s' t') < 0
      \<longleftrightarrow> ord_class.lexordp u u' \<or> u = u' \<and> (s' < s \<or> s = s' \<and> t = kTypeValue \<and> t' = kTypeDeletion)"
    unfolding slice_compare_lexordp tags by (cases t; cases t') auto
  show "ParseInternalKey (InternalKey u s t) = Some \<lparr> pk_user_key = u, pk_sequence = s, pk_type = t \<rparr>"
    by (rule ParseInternalKey_InternalKey [OF assms(1)])
  have key: "lk_internal_key (LookupKey u s) = InternalKey u s kValueTypeForSeek"
    by (simp add: lk_internal_key_def LookupKey_def Let_def InternalKey_def AppendInternalKey_def PutFixed64_def)
  have "cmp_Compare (InternalKeyComparator BytewiseComparator) (lk_internal_key (LookupKey u s)) (InternalKey u s' t') \<le> 0
      \<longleftrightarrow> \<not> PackSequenceAndType s kValueTypeForSeek < PackSequenceAndType s' t'"
    using bytewise.internal_Compare_greater [of "InternalKey u s kValueTypeForSeek" "InternalKey u s' t'"]
      bytewise.compare_refl [of u]
    by (simp add: InternalKeyComparator_def key not_less [symmetric])
  then show "cmp_Compare (InternalKeyComparator BytewiseComparator) (lk_internal_key (LookupKey u s)) (InternalKey u s' t') \<le> 0
      \<longleftrightarrow> s' \<le> s"
    unfolding tags by (cases t') (auto simp: kValueTypeForSeek_def)
qed

lemma internal_key_order_witness:
  "cmp_Compare (InternalKeyComparator BytewiseComparator) (InternalKey [1] 9 kTypeValue) (InternalKey [1] 4 kTypeValue) < 0"
  using internal_key_order [of 9 4 "[1]" kTypeValue "[1]" kTypeValue] by (simp add: kMaxSequenceNumber_def)

text \<open>C28: between two internal keys in order, the separator that shortens an index entry stays between
  them and is never longer than the first; the short successor of a key is not below the key and not longer.\<close>

theorem internal_separator_between:
  assumes "8 \<le> length start" and "8 \<le> length limit"
    and "cmp_Compare (InternalKeyComparator BytewiseComparator) start limit < 0"
  defines "cmp \<equiv> InternalKeyComparator BytewiseComparator"
  shows "cmp_Compare cmp start (cmp_FindShortestSeparator cmp start limit) \<le> 0
    \<and> cmp_Compare cmp (cmp_FindShortestSeparator cmp start limit) limit < 0
    \<and> length (cmp_FindShortestSeparator cmp start limit) \<le> length start
    \<and> cmp_Compare cmp start (cmp_FindShortSuccessor cmp start) \<le> 0
    \<and> length (cmp_FindShortSuccessor cmp start) \<le> length start"
  using bytewise.internal.separator [OF assms(1-3)] bytewise.internal.successor [OF assms(1)]
  by (simp add: cmp_def)

lemma internal_separator_between_witness:
  "cmp_Compare (InternalKeyComparator BytewiseComparator) (InternalKey [1, 2, 3] 9 kTypeValue)
      (cmp_FindShortestSeparator (InternalKeyComparator BytewiseComparator)
         (InternalKey [1, 2, 3] 9 kTypeValue) (InternalKey [1, 9] 4 kTypeValue)) \<le> 0"
proof -
  have "cmp_Compare (InternalKeyComparator BytewiseComparator) (InternalKey [1, 2, 3] 9 kTypeValue)
      (InternalKey [1, 9] 4 kTypeValue) < 0"
    by (simp add: InternalKeyComparator_def bytewise.internal_Compare_less) (simp add: BytewiseComparator_def)
  then show ?thesis
    using internal_separator_between [of "InternalKey [1, 2, 3] 9 kTypeValue" "InternalKey [1, 9] 4 kTypeValue"]
    by simp
qed

section \<open>The skip list\<close>

text \<open>C3: after any keys have been inserted in any order, whatever heights are drawn, the skip list
  contains exactly these keys, iterating forwards gives them in increasing order and iterating
  backwards in decreasing order.\<close>

theorem skip_list_is_sorted_set:
  assumes "distinct ks"
  shows "\<exists>s p. Insert_all slice_compare ks (SkipList k0) = Some s
    \<and> (\<forall>k. Contains slice_compare s k = Some (k \<in> set ks))
    \<and> set (walk (length ks) s (iter_SeekToFirst s)) = set ks
    \<and> sorted_wrt (\<lambda>a b. slice_compare a b < 0) (walk (length ks) s (iter_SeekToFirst s))
    \<and> iter_SeekToLast s = Some p \<and> walk_back (length ks) slice_compare s p = rev (walk (length ks) s (iter_SeekToFirst s))"
proof -
  obtain s ls where s: "Insert_all slice_compare ks (SkipList k0) = Some s"
      "skip_holds slice_compare (\<lambda>_. True) s ls" "set ls = set ks"
    using slices.skip.insert_all_holds [OF slices.skip.holds_new, of ks k0] assms
    by (auto simp: slices.Insert_all_eq distinct_conv_nth sorted_wrt_iff_nth_less)
  obtain xs where xs: "chain s xs" "ls = keys_of s xs" using s(2) by (auto simp: skip_holds_def)
  have sorted: "slices.sorted_keys ls" by (rule slices.skip.holds_sorted [OF s(2)])
  have "sorted_wrt (\<lambda>a b. slice_compare a b < 0) ls" using sorted by (simp add: slices.sorted_keys_def)
  then have "distinct ls" by (induction ls) auto
  then have len: "length xs = length ks"
    using distinct_card [of ls] distinct_card [OF assms] s(3) xs(2) by (simp add: keys_of_def)
  have "walk (length ks) s (iter_SeekToFirst s) = ls" using walk_first [OF xs(1)] len xs(2) by simp
  moreover obtain p where "iter_SeekToLast s = Some p" "walk_back (length ks) slice_compare s p = rev ls"
    using slices.walk_last [OF xs(1)] sorted xs(2) len by auto
  moreover have "\<forall>k. Contains slice_compare s k = Some (k \<in> set ks)"
    using slices.Contains_holds [OF s(2)] s(3) by simp
  ultimately show ?thesis using s(1,3) sorted by (auto simp: slices.sorted_keys_def)
qed

lemma skip_list_is_sorted_set_witness:
  "\<exists>s. Insert_all slice_compare [[5], [2, 1], [2]] (SkipList []) = Some s
     \<and> Contains slice_compare s [2] = Some True \<and> Contains slice_compare s [7] = Some False"
  using skip_list_is_sorted_set [of "[[5], [2, 1], [2]]" "[]"] by fastforce

text \<open>one step of the random generator behind the heights is exactly the multiplication by 16807 modulo
  the prime 2147483647, although the code reduces with shifts, and every seed stays in range.\<close>

theorem random_step_exact:
  assumes "0 < seed" and "seed < 2147483647"
  shows "unat (Random_Next seed) = (unat seed * 16807) mod 2147483647
    \<and> 0 < Random_Next seed \<and> Random_Next seed < 2147483647"
  using Random_Next_eq [OF assms] by blast

lemma random_step_exact_witness: "unat (Random_Next 2147483646) = (2147483646 * 16807) mod 2147483647"
  using random_step_exact [of 2147483646] by simp

section \<open>Write batches\<close>

text \<open>C30: a batch that a client builds with \<open>Put\<close> and \<open>Delete\<close>, to which another is appended and that gets a
  sequence number, replays into any handler exactly these operations in this order, and is found
  intact at the end.\<close>

theorem batch_replays:
  assumes "\<forall>x \<in> set (xs @ ys). op_fits x" and "length (xs @ ys) < 2 ^ 31"
  shows "Iterate handler (SetSequence seq (Append (fold do_op xs WriteBatch_new) (fold do_op ys WriteBatch_new))) h
    = map_option (Pair StatusOK) (handle_all handler (xs @ ys) h)"
  using assms by (simp add: fold_do_op_new Append_batch_rep SetSequence_batch_rep Iterate_batch_rep del: set_append)

lemma batch_replays_witness:
  "Iterate \<lparr> h_Put = (\<lambda>k v h. Some (h @ [(k, v)])), h_Delete = (\<lambda>k h. Some (h @ [(k, [])])) \<rparr>
     (SetSequence 7 (Append (fold do_op [OpPut [1] [2, 3]] WriteBatch_new) (fold do_op [OpDelete [4]] WriteBatch_new))) []
   = Some (StatusOK, [([1], [2, 3]), ([4], [])])"
  using batch_replays [of "[OpPut [1] [2, 3]]" "[OpDelete [4]]"
      "\<lparr> h_Put = (\<lambda>k v h. Some (h @ [(k, v)])), h_Delete = (\<lambda>k h. Some (h @ [(k, [])])) \<rparr>" 7 "[]"]
  by simp

text \<open>C29: a batch that has been cut short, at whatever byte, is never accepted: replaying it ends with an
  error status.\<close>

theorem truncated_batch_is_refused:
  assumes "\<forall>x \<in> set ops. op_fits x" and "length ops < 2 ^ 31" and "n < length (fold do_op ops WriteBatch_new)"
    and "Iterate handler (take n (fold do_op ops WriteBatch_new)) h = Some (s, h')"
  shows "\<not> status_ok s"
  using Iterate_cut [OF assms(1,2)] assms(2-4) by (simp add: fold_do_op_new)

lemma truncated_batch_is_refused_witness:
  "\<exists>s h'. Iterate \<lparr> h_Put = (\<lambda>k v h. Some h), h_Delete = (\<lambda>k h. Some h) \<rparr>
      (take 15 (fold do_op [OpPut [1] [2, 3]] WriteBatch_new)) ([] :: nat list) = Some (s, h') \<and> \<not> status_ok s"
proof -
  let ?h = "\<lparr> h_Put = (\<lambda>k v h. Some h), h_Delete = (\<lambda>k h. Some h) \<rparr> :: nat list Handler"
  have "length (fold do_op [OpPut [1] [2, 3]] WriteBatch_new) = 18" by code_simp
  moreover have "Iterate ?h (take 15 (fold do_op [OpPut [1] [2, 3]] WriteBatch_new)) [] \<noteq> None" by code_simp
  ultimately show ?thesis
    using truncated_batch_is_refused [of "[OpPut [1] [2, 3]]" 15 ?h "[]"] by fastforce
qed

section \<open>From the batch to the reader\<close>

text \<open>C2: a snapshot reads its writes. After a batch has been inserted into a new memtable, a lookup at
  the sequence number of the batch's operation \<open>j\<close> finds, for every key, the effect of the last of
  the first \<open>j + 1\<close> operations on that key: its value, the deletion, or nothing.\<close>

theorem snapshot_reads_batch:
  assumes "\<forall>x \<in> set ops. op_key_fits x" and "length ops < 2 ^ 31" and "unat seq + length ops < 2 ^ 56"
  shows "\<exists>mem. InsertInto (SetSequence seq (fold do_op ops WriteBatch_new)) (MemTable_new BytewiseComparator) = Some (StatusOK, mem)
    \<and> (\<forall>u j val st. j < length ops \<longrightarrow> length u + 8 < 2 ^ 32 \<longrightarrow>
        MemTable_Get (LookupKey u (seq + word_of_nat j)) mem val st
          = Some (read_outcome (last_op u (take (Suc j) ops)) val st))"
proof -
  have rep: "SetSequence seq (fold do_op ops WriteBatch_new) = batch_rep seq ops"
    using assms(2) by (simp add: fold_do_op_new SetSequence_batch_rep)
  have room: "seq_room seq (length ops)" using assms(3) by (simp add: seq_room_def)
  obtain s' mem where mem: "handle_all MemTableInserter ops (seq, MemTable_new BytewiseComparator) = Some (s', mem)"
      "bytewise.mem_holds mem (writes_of seq ops)"
    using bytewise.handle_all_holds [OF bytewise.mem_holds_new assms(1) room] by auto
  have fits: "\<forall>x \<in> set ops. op_fits x" using assms(1) op_key_fits_op_fits by blast
  have "InsertInto (batch_rep seq ops) (MemTable_new BytewiseComparator) = Some (StatusOK, mem)"
    using Iterate_batch_rep [OF fits assms(2), of MemTableInserter seq "(seq, MemTable_new BytewiseComparator)"] mem(1)
    by (simp add: InsertInto_def Sequence_batch_rep)
  then show ?thesis using bytewise.Get_writes_of [OF mem(2) room] rep by auto
qed

lemma snapshot_reads_batch_witness:
  "\<exists>mem. InsertInto (SetSequence 40 (fold do_op [OpPut [7] [1], OpDelete [7], OpPut [8] [2]] WriteBatch_new))
        (MemTable_new BytewiseComparator) = Some (StatusOK, mem)
     \<and> MemTable_Get (LookupKey [7] 40) mem [] StatusOK = Some (True, [1], StatusOK)
     \<and> MemTable_Get (LookupKey [7] 42) mem [] StatusOK = Some (True, [], NotFound [])
     \<and> MemTable_Get (LookupKey [8] 41) mem [] StatusOK = Some (False, [], StatusOK)"
proof -
  let ?ops = "[OpPut [7] [1], OpDelete [7], OpPut [8] [2]]"
  obtain mem where mem: "InsertInto (SetSequence 40 (fold do_op ?ops WriteBatch_new)) (MemTable_new BytewiseComparator)
      = Some (StatusOK, mem)"
    "\<forall>u j val st. j < length ?ops \<longrightarrow> length u + 8 < 2 ^ 32 \<longrightarrow> MemTable_Get (LookupKey u (40 + word_of_nat j)) mem val st
      = Some (read_outcome (last_op u (take (Suc j) ?ops)) val st)"
    using snapshot_reads_batch [of ?ops 40] by auto
  have get: "j < 3 \<Longrightarrow> length u + 8 < 2 ^ 32 \<Longrightarrow> MemTable_Get (LookupKey u (40 + word_of_nat j)) mem [] StatusOK
      = Some (read_outcome (last_op u (take (Suc j) ?ops)) [] StatusOK)" for u j
    using mem(2) by simp
  show ?thesis
    using mem(1) get [of 0 "[7]"] get [of 2 "[7]"] get [of 1 "[8]"] by (intro exI [of _ mem]) simp
qed

end
