(* ===== verification/Ldb_Iterator.thy ===== *)
theory Ldb_Iterator
  imports Ldb_Keys Ldb_Env
begin

text \<open>
  The interface of iterators (\<^verbatim>\<open>include/leveldb/iterator.h\<close>) and the two trivial ones
  (\<^verbatim>\<open>table/iterator.cc\<close>). An operation that moves returns the next state, or \<open>None\<close> where its
  search does not return. The locale \<open>iterator\<close> states what the header promises of an
  iterator over a list of entries; the functions that are called on destruction are not
  modelled.
\<close>

record 's Iterator =
  i_Valid :: "'s \<Rightarrow> bool"
  i_SeekToFirst :: "'s \<Rightarrow> 's option"
  i_SeekToLast :: "'s \<Rightarrow> 's option"
  i_Seek :: "slice \<Rightarrow> 's \<Rightarrow> 's option"
  i_Next :: "'s \<Rightarrow> 's option"
  i_Prev :: "'s \<Rightarrow> 's option"
  i_key :: "'s \<Rightarrow> slice"
  i_value :: "'s \<Rightarrow> slice"
  i_status :: "'s \<Rightarrow> Status"

type_synonym entry = "slice \<times> slice"

section \<open>Sorted entries\<close>

definition sorted_entries :: "Comparator \<Rightarrow> entry list \<Rightarrow> bool" where
  "sorted_entries c xs \<longleftrightarrow> sorted_wrt (\<lambda>a b. cmp_Compare c (fst a) (fst b) < 0) xs"

text \<open>The position of the first entry at or past a key.\<close>

definition lower_bound :: "Comparator \<Rightarrow> slice \<Rightarrow> entry list \<Rightarrow> nat" where
  "lower_bound c k xs = length (takeWhile (\<lambda>e. cmp_Compare c (fst e) k < 0) xs)"

lemma lower_bound_le: "lower_bound c k xs \<le> length xs"
  by (simp add: lower_bound_def length_takeWhile_le)

lemma below_lower_bound: "i < lower_bound c k xs \<Longrightarrow> cmp_Compare c (fst (xs ! i)) k < 0"
  unfolding lower_bound_def by (metis nth_mem set_takeWhileD takeWhile_nth)

lemma at_lower_bound: "lower_bound c k xs < length xs \<Longrightarrow> \<not> cmp_Compare c (fst (xs ! lower_bound c k xs)) k < 0"
  unfolding lower_bound_def using nth_length_takeWhile by blast

lemma lower_bound_eqI:
  assumes "n \<le> length xs" and "\<And>i. i < n \<Longrightarrow> cmp_Compare c (fst (xs ! i)) k < 0"
    and "n < length xs \<Longrightarrow> \<not> cmp_Compare c (fst (xs ! n)) k < 0"
  shows "lower_bound c k xs = n"
  using assms below_lower_bound [of n c k xs] at_lower_bound [of c k xs] lower_bound_le [of c k xs]
  by (metis le_neq_implies_less nat_neq_iff)

section \<open>What an iterator promises\<close>

text \<open>
  \<open>view s i\<close>: the state \<open>s\<close> stands at entry \<open>i\<close>, or at none when \<open>i\<close> is the number of entries.
\<close>

locale iterator =
  fixes ops :: "'s Iterator" and c :: Comparator and valid :: "slice \<Rightarrow> bool" and xs :: "entry list"
    and view :: "'s \<Rightarrow> nat \<Rightarrow> bool"
  assumes view_le: "view s i \<Longrightarrow> i \<le> length xs"
    and valid_view: "view s i \<Longrightarrow> i_Valid ops s \<longleftrightarrow> i < length xs"
    and key_view: "view s i \<Longrightarrow> i < length xs \<Longrightarrow> i_key ops s = fst (xs ! i)"
    and value_view: "view s i \<Longrightarrow> i < length xs \<Longrightarrow> i_value ops s = snd (xs ! i)"
    and status_view: "view s i \<Longrightarrow> i_status ops s = StatusOK"
    and first_view: "view s i \<Longrightarrow> \<exists>t. i_SeekToFirst ops s = Some t \<and> view t 0"
    and last_view: "view s i \<Longrightarrow> \<exists>t. i_SeekToLast ops s = Some t \<and> view t (length xs - 1)"
    and next_view: "view s i \<Longrightarrow> i < length xs \<Longrightarrow> \<exists>t. i_Next ops s = Some t \<and> view t (i + 1)"
    and prev_view: "view s i \<Longrightarrow> i < length xs \<Longrightarrow>
      \<exists>t. i_Prev ops s = Some t \<and> view t (if i = 0 then length xs else i - 1)"
    and seek_view: "view s i \<Longrightarrow> valid k \<Longrightarrow> \<exists>t. i_Seek ops k s = Some t \<and> view t (lower_bound c k xs)"

text \<open>Collecting entries from a position on, forwards or backwards.\<close>

fun scan :: "nat \<Rightarrow> 's Iterator \<Rightarrow> 's \<Rightarrow> entry list option" where
  "scan 0 ops s = (if i_Valid ops s then None else Some [])"
| "scan (Suc n) ops s =
     (if i_Valid ops s
      then case i_Next ops s of
          None \<Rightarrow> None
        | Some t \<Rightarrow> map_option (\<lambda>es. (i_key ops s, i_value ops s) # es) (scan n ops t)
      else Some [])"

fun scan_back :: "nat \<Rightarrow> 's Iterator \<Rightarrow> 's \<Rightarrow> entry list option" where
  "scan_back 0 ops s = (if i_Valid ops s then None else Some [])"
| "scan_back (Suc n) ops s =
     (if i_Valid ops s
      then case i_Prev ops s of
          None \<Rightarrow> None
        | Some t \<Rightarrow> map_option (\<lambda>es. (i_key ops s, i_value ops s) # es) (scan_back n ops t)
      else Some [])"

context iterator
begin

lemma scan_view: "view s i \<Longrightarrow> length xs - i \<le> n \<Longrightarrow> scan n ops s = Some (drop i xs)"
proof (induction n arbitrary: s i)
  case 0
  then show ?case using view_le [of s i] valid_view [of s i] by simp
next
  case (Suc n)
  show ?case
  proof (cases "i < length xs")
    case True
    from next_view [OF Suc.prems(1) True] obtain t where t: "i_Next ops s = Some t" "view t (i + 1)" by blast
    have "xs ! i # drop (Suc i) xs = drop i xs" using True by (rule Cons_nth_drop_Suc)
    then show ?thesis
      using Suc.IH [OF t(2)] Suc.prems t(1) True valid_view key_view value_view by simp
  next
    case False
    then show ?thesis using Suc.prems valid_view [of s i] by simp
  qed
qed

lemma scan_back_view:
  "view s i \<Longrightarrow> i < length xs \<Longrightarrow> i < n \<Longrightarrow> scan_back n ops s = Some (rev (take (i + 1) xs))"
proof (induction n arbitrary: s i)
  case (Suc n)
  from prev_view [OF Suc.prems(1,2)] obtain t where t:
    "i_Prev ops s = Some t" "view t (if i = 0 then length xs else i - 1)" by blast
  have head: "(i_key ops s, i_value ops s) = xs ! i"
    using key_view [OF Suc.prems(1,2)] value_view [OF Suc.prems(1,2)] by simp
  show ?case
  proof (cases "i = 0")
    case True
    then have "\<not> i_Valid ops t" using t(2) valid_view [of t "length xs"] by simp
    then have "scan_back n ops t = Some []" by (cases n) simp_all
    moreover have "take (Suc 0) xs = [xs ! 0]" using Suc.prems(2) True by (cases xs) auto
    ultimately show ?thesis using t(1) Suc.prems valid_view True head by simp
  next
    case False
    then have "scan_back n ops t = Some (rev (take (i - 1 + 1) xs))"
      using Suc.IH [of t "i - 1"] t(2) Suc.prems by simp
    then show ?thesis
      using t(1) Suc.prems valid_view [OF Suc.prems(1)] False head by (simp add: take_Suc_conv_app_nth)
  qed
qed simp

lemma seek_cases:
  assumes "view s i" and "valid k"
  obtains (found) t where "i_Seek ops k s = Some t" "view t (lower_bound c k xs)" "i_Valid ops t"
      "lower_bound c k xs < length xs" "i_key ops t = fst (xs ! lower_bound c k xs)"
      "i_value ops t = snd (xs ! lower_bound c k xs)"
    | (past) t where "i_Seek ops k s = Some t" "view t (length xs)" "\<not> i_Valid ops t" "lower_bound c k xs = length xs"
proof -
  from seek_view [OF assms] obtain t where t: "i_Seek ops k s = Some t" "view t (lower_bound c k xs)" by blast
  show ?thesis
  proof (cases "lower_bound c k xs < length xs")
    case True
    then show ?thesis using found t valid_view key_view value_view by blast
  next
    case False
    then show ?thesis using past t valid_view lower_bound_le [of c k xs] by (metis le_neq_implies_less)
  qed
qed

end

section \<open>Iterators without entries\<close>

definition EmptyIterator :: "Status Iterator" where
  "EmptyIterator =
     \<lparr> i_Valid = (\<lambda>s. False), i_SeekToFirst = Some, i_SeekToLast = Some, i_Seek = (\<lambda>target. Some),
       i_Next = Some, i_Prev = Some, i_key = (\<lambda>s. []), i_value = (\<lambda>s. []), i_status = (\<lambda>s. s) \<rparr>"

definition NewEmptyIterator :: Status where
  "NewEmptyIterator = StatusOK"

definition NewErrorIterator :: "Status \<Rightarrow> Status" where
  "NewErrorIterator status = status"

interpretation empty: iterator EmptyIterator c valid "[]" "\<lambda>s i. s = NewEmptyIterator \<and> i = 0" for c valid
  by unfold_locales (simp_all add: EmptyIterator_def NewEmptyIterator_def lower_bound_def)

end
