(* ===== verification/Ldb_Block.thy ===== *)
theory Ldb_Block
  imports Ldb_Iterator
begin

text \<open>
  Blocks of a table: the builder (\<^verbatim>\<open>table/block_builder.cc\<close>) and the reader (\<^verbatim>\<open>table/block.cc\<close>). A pointer
  into the contents of a block is an offset. The integers of type \<^verbatim>\<open>uint32_t\<close> are words of 32 bits.
\<close>

section \<open>Building\<close>

datatype CompressionType = kNoCompression | kSnappyCompression

fun compression_code :: "CompressionType \<Rightarrow> byte" where
  "compression_code kNoCompression = 0"
| "compression_code kSnappyCompression = 1"

record BlockBuilder =
  bb_buffer :: "byte list"
  bb_restarts :: "32 word list"
  bb_counter :: nat
  bb_finished :: bool
  bb_last_key :: slice

definition BlockBuilder_new :: BlockBuilder where
  "BlockBuilder_new =
     \<lparr> bb_buffer = [], bb_restarts = [0], bb_counter = 0, bb_finished = False, bb_last_key = [] \<rparr>"

definition BlockBuilder_Reset :: "BlockBuilder \<Rightarrow> BlockBuilder" where
  "BlockBuilder_Reset b =
     b\<lparr> bb_buffer := [], bb_restarts := [0], bb_counter := 0, bb_finished := False, bb_last_key := [] \<rparr>"

definition CurrentSizeEstimate :: "BlockBuilder \<Rightarrow> nat" where
  "CurrentSizeEstimate b = length (bb_buffer b) + length (bb_restarts b) * 4 + 4"

definition BlockBuilder_empty :: "BlockBuilder \<Rightarrow> bool" where
  "BlockBuilder_empty b \<longleftrightarrow> bb_buffer b = []"

definition BlockBuilder_Finish :: "BlockBuilder \<Rightarrow> slice \<times> BlockBuilder" where
  "BlockBuilder_Finish b =
     (let buffer = foldl PutFixed32 (bb_buffer b) (bb_restarts b);
          buffer = PutFixed32 buffer (word_of_nat (length (bb_restarts b)))
      in (buffer, b\<lparr> bb_buffer := buffer, bb_finished := True \<rparr>))"

text \<open>\<open>diff_index\<close> is the length of the prefix that two keys share. Lengths are truncated to 32 bits.\<close>

definition BlockBuilder_Add :: "nat \<Rightarrow> slice \<Rightarrow> slice \<Rightarrow> BlockBuilder \<Rightarrow> BlockBuilder" where
  "BlockBuilder_Add block_restart_interval key val b =
     (let (shared, b) =
            (if bb_counter b < block_restart_interval then (diff_index (bb_last_key b) key, b)
             else (0, b\<lparr> bb_restarts := bb_restarts b @ [word_of_nat (length (bb_buffer b))], bb_counter := 0 \<rparr>));
          non_shared = length key - shared;
          buffer = PutVarint32 (bb_buffer b) (word_of_nat shared);
          buffer = PutVarint32 buffer (word_of_nat non_shared);
          buffer = PutVarint32 buffer (word_of_nat (length val));
          buffer = buffer @ take non_shared (drop shared key) @ val
      in b\<lparr> bb_buffer := buffer,
            bb_last_key := take shared (bb_last_key b) @ take non_shared (drop shared key),
            bb_counter := bb_counter b + 1 \<rparr>)"

section \<open>Reading\<close>

record Block =
  bk_data :: slice
  bk_size :: nat
  bk_restart_offset :: "32 word"

definition NumRestarts :: "slice \<Rightarrow> nat \<Rightarrow> 32 word" where
  "NumRestarts data n = DecodeFixed32 (drop (n - 4) data)"

text \<open>The restart offset is not initialised where the size is the error marker 0.\<close>

definition Block_new :: "slice \<Rightarrow> Block" where
  "Block_new contents =
     (let n = length contents; bad = \<lparr> bk_data = contents, bk_size = 0, bk_restart_offset = 0 \<rparr>
      in if n < 4 then bad
         else let max_restarts_allowed = (n - 4) div 4
              in if max_restarts_allowed < unat (NumRestarts contents n) then bad
                 else \<lparr> bk_data = contents, bk_size = n,
                        bk_restart_offset = word_of_nat (n - unat (1 + NumRestarts contents n) * 4) \<rparr>)"

text \<open>The argument is the range of the bytes from \<open>p\<close> to \<open>limit\<close>, the last result what is left of it.\<close>

definition DecodeEntry :: "byte list \<Rightarrow> (32 word \<times> 32 word \<times> 32 word \<times> byte list) option" where
  "DecodeEntry p =
     (if length p < 3 then None
      else let shared = ucast (p ! 0); non_shared = ucast (p ! 1); value_length = ucast (p ! 2) :: 32 word;
               check = (\<lambda>shared non_shared value_length p.
                 if word_of_nat (length p) < non_shared + value_length then None
                 else Some (shared, non_shared, value_length, p))
           in if shared OR non_shared OR value_length < 128
              then check shared non_shared value_length (drop 3 p)
              else case GetVarint32Ptr p of None \<Rightarrow> None | Some (shared, p) \<Rightarrow>
                (case GetVarint32Ptr p of None \<Rightarrow> None | Some (non_shared, p) \<Rightarrow>
                  (case GetVarint32Ptr p of None \<Rightarrow> None | Some (value_length, p) \<Rightarrow>
                     check shared non_shared value_length p)))"

text \<open>
  The slice \<^verbatim>\<open>value_\<close> is an offset and a length; a cleared slice has offset 0, and no operation
  reads the offset of a cleared slice.
\<close>

record BlockIter =
  bi_data :: slice
  bi_restarts :: "32 word"
  bi_num_restarts :: "32 word"
  bi_current :: "32 word"
  bi_restart_index :: "32 word"
  bi_key :: slice
  bi_value :: "nat \<times> nat"
  bi_status :: Status

definition BlockIter_new :: "slice \<Rightarrow> 32 word \<Rightarrow> 32 word \<Rightarrow> BlockIter" where
  "BlockIter_new data restarts num_restarts =
     \<lparr> bi_data = data, bi_restarts = restarts, bi_num_restarts = num_restarts, bi_current = restarts,
       bi_restart_index = num_restarts, bi_key = [], bi_value = (0, 0), bi_status = StatusOK \<rparr>"

definition NextEntryOffset :: "BlockIter \<Rightarrow> 32 word" where
  "NextEntryOffset it = word_of_nat (fst (bi_value it) + snd (bi_value it))"

definition GetRestartPoint :: "32 word \<Rightarrow> BlockIter \<Rightarrow> 32 word" where
  "GetRestartPoint index it = DecodeFixed32 (drop (unat (bi_restarts it) + unat index * 4) (bi_data it))"

definition SeekToRestartPoint :: "32 word \<Rightarrow> BlockIter \<Rightarrow> BlockIter" where
  "SeekToRestartPoint index it =
     it\<lparr> bi_key := [], bi_restart_index := index, bi_value := (unat (GetRestartPoint index it), 0) \<rparr>"

definition bi_Valid :: "BlockIter \<Rightarrow> bool" where
  "bi_Valid it \<longleftrightarrow> bi_current it < bi_restarts it"

definition bi_value_bytes :: "BlockIter \<Rightarrow> slice" where
  "bi_value_bytes it = take (snd (bi_value it)) (drop (fst (bi_value it)) (bi_data it))"

definition CorruptionError :: "BlockIter \<Rightarrow> BlockIter" where
  "CorruptionError it =
     it\<lparr> bi_current := bi_restarts it, bi_restart_index := bi_num_restarts it,
        bi_status := Corruption ''bad entry in block'', bi_key := [], bi_value := (0, 0) \<rparr>"

text \<open>The loop that moves on to the restart block of the current entry.\<close>

function advance_restart :: "BlockIter \<Rightarrow> BlockIter" where
  "advance_restart it =
     (if bi_restart_index it + 1 < bi_num_restarts it
        \<and> GetRestartPoint (bi_restart_index it + 1) it < bi_current it
      then advance_restart (it\<lparr> bi_restart_index := bi_restart_index it + 1 \<rparr>) else it)"
  by pat_completeness auto
termination
proof (relation "measure (\<lambda>it. if bi_restart_index it = - 1 then unat (bi_num_restarts it) + 1
    else unat (bi_num_restarts it) - unat (bi_restart_index it))")
  fix it :: BlockIter
  assume less: "bi_restart_index it + 1 < bi_num_restarts it
    \<and> GetRestartPoint (bi_restart_index it + 1) it < bi_current it"
  have last: "bi_restart_index it + 1 \<noteq> - 1" using less word_order.extremum_strict by metis
  have "unat (bi_restart_index it + 1) = (if bi_restart_index it = - 1 then 0 else unat (bi_restart_index it) + 1)"
    using unatSuc [of "bi_restart_index it"] by (auto simp: add.commute eq_neg_iff_add_eq_0)
  then show "(it\<lparr> bi_restart_index := bi_restart_index it + 1 \<rparr>, it)
    \<in> measure (\<lambda>it. if bi_restart_index it = - 1 then unat (bi_num_restarts it) + 1
        else unat (bi_num_restarts it) - unat (bi_restart_index it))"
    using less last by (auto simp: word_less_nat_alt)
qed simp

declare advance_restart.simps [simp del]

text \<open>
  The bytes of the key are taken from the contents of the block: the model stops at their end,
  where the code would read behind it.
\<close>

definition ParseNextKey :: "BlockIter \<Rightarrow> bool \<times> BlockIter" where
  "ParseNextKey it =
     (let it = it\<lparr> bi_current := NextEntryOffset it \<rparr>
      in if bi_restarts it \<le> bi_current it
         then (False, it\<lparr> bi_current := bi_restarts it, bi_restart_index := bi_num_restarts it \<rparr>)
         else let p = take (unat (bi_restarts it) - unat (bi_current it)) (drop (unat (bi_current it)) (bi_data it))
              in case DecodeEntry p of
                   None \<Rightarrow> (False, CorruptionError it)
                 | Some (shared, non_shared, value_length, q) \<Rightarrow>
                     if length (bi_key it) < unat shared then (False, CorruptionError it)
                     else let at = unat (bi_current it) + (length p - length q);
                              it = it\<lparr> bi_key := take (unat shared) (bi_key it) @ take (unat non_shared) (drop at (bi_data it)),
                                      bi_value := (at + unat non_shared, unat value_length) \<rparr>
                          in (True, advance_restart it))"

text \<open>An entry has at least three bytes, and its end is not behind the restart array.\<close>

lemma GetVarint32Ptr_shorter: "GetVarint32Ptr p = Some (v, q) \<Longrightarrow> length q < length p"
  using GetVarint32_Some [of p v q] by (auto simp: GetVarint32_def)

lemma DecodeEntry_bounds:
  assumes "DecodeEntry p = Some (shared, non_shared, value_length, q)"
  shows "length q + 3 \<le> length p \<and> non_shared + value_length \<le> word_of_nat (length q)"
  using assms GetVarint32Ptr_shorter
  by (fastforce simp: DecodeEntry_def Let_def not_less dest!: GetVarint32Ptr_shorter split: if_splits option.splits prod.splits)

lemma advance_restart_simps [simp]:
  "bi_data (advance_restart it) = bi_data it" "bi_restarts (advance_restart it) = bi_restarts it"
  "bi_num_restarts (advance_restart it) = bi_num_restarts it" "bi_current (advance_restart it) = bi_current it"
  "bi_key (advance_restart it) = bi_key it" "bi_value (advance_restart it) = bi_value it"
  "bi_status (advance_restart it) = bi_status it"
  by (induction it rule: advance_restart.induct; subst advance_restart.simps; simp)+

lemma NextEntryOffset_advance [simp]: "NextEntryOffset (advance_restart it) = NextEntryOffset it"
  by (simp add: NextEntryOffset_def)

text \<open>The sum of the two lengths may wrap around, but then the offset wraps around with it.\<close>

lemma next_offset_bound:
  assumes "word_of_nat n = (x :: 32 word)" and "non_shared + value_length \<le> x" and "n < 2 ^ 32"
    and "at + n < 2 ^ 32"
  shows "at \<le> unat (word_of_nat (at + unat non_shared + unat value_length) :: 32 word)
    \<and> unat (word_of_nat (at + unat non_shared + unat value_length) :: 32 word) \<le> at + n"
proof -
  have le: "unat (non_shared + value_length) \<le> n"
    using assms(1,2,3) unat_length [of n] by (auto simp: word_le_nat_alt)
  have eq: "word_of_nat (at + unat non_shared + unat value_length) = (word_of_nat (at + unat (non_shared + value_length)) :: 32 word)"
    by simp
  have "unat (word_of_nat (at + unat (non_shared + value_length)) :: 32 word) = at + unat (non_shared + value_length)"
    by (rule unat_length) (use le assms(4) in simp)
  then show ?thesis unfolding eq using le by simp
qed

lemma ParseNextKey_progress:
  assumes "ParseNextKey it = (True, it')"
  shows "unat (NextEntryOffset it) + 3 \<le> unat (NextEntryOffset it')"
    and "unat (NextEntryOffset it') \<le> unat (bi_restarts it)" and "bi_restarts it' = bi_restarts it"
proof -
  let ?cur = "NextEntryOffset it"
  let ?p = "take (unat (bi_restarts it) - unat ?cur) (drop (unat ?cur) (bi_data it))"
  from assms obtain shared non_shared value_length q where
    cur: "?cur < bi_restarts it" and dec: "DecodeEntry ?p = Some (shared, non_shared, value_length, q)"
    and restarts: "bi_restarts it' = bi_restarts it"
    and nxt: "NextEntryOffset it' = word_of_nat (unat ?cur + (length ?p - length q) + unat non_shared + unat value_length)"
    by (auto simp: ParseNextKey_def Let_def not_le NextEntryOffset_def split: if_splits option.splits)
  note bounds = DecodeEntry_bounds [OF dec]
  have p: "length ?p \<le> unat (bi_restarts it) - unat ?cur" by simp
  have r: "unat (bi_restarts it) < 2 ^ 32" by (rule unat32_less)
  have cur_less: "unat ?cur < unat (bi_restarts it)" using cur by (simp add: word_less_nat_alt)
  have "unat ?cur + (length ?p - length q) + length q = unat ?cur + length ?p" using bounds by linarith
  then have sum: "unat ?cur + (length ?p - length q) + length q \<le> unat (bi_restarts it)"
    using p cur_less by linarith
  have "length q < 2 ^ 32" "unat ?cur + (length ?p - length q) + length q < 2 ^ 32"
    using sum r by linarith+
  from next_offset_bound [OF refl conjunct2 [OF bounds] this]
  have "unat ?cur + (length ?p - length q) \<le> unat (NextEntryOffset it')"
    "unat (NextEntryOffset it') \<le> unat ?cur + (length ?p - length q) + length q" unfolding nxt by blast+
  then show "unat ?cur + 3 \<le> unat (NextEntryOffset it')" "unat (NextEntryOffset it') \<le> unat (bi_restarts it)"
    "bi_restarts it' = bi_restarts it" using bounds sum restarts by linarith+
qed

section \<open>Moving\<close>

text \<open>The three loops that parse entries as long as a condition holds.\<close>

function parse_while :: "(BlockIter \<Rightarrow> bool) \<Rightarrow> BlockIter \<Rightarrow> BlockIter" where
  "parse_while cond it =
     (let r = ParseNextKey it in if fst r \<and> cond (snd r) then parse_while cond (snd r) else snd r)"
  by pat_completeness auto
termination
proof (relation "measure (\<lambda>(cond, it). unat (bi_restarts it) - unat (NextEntryOffset it))")
  fix cond :: "BlockIter \<Rightarrow> bool" and it r
  assume "r = ParseNextKey it" and "fst r \<and> cond (snd r)"
  then have "ParseNextKey it = (True, snd r)" by (metis prod.collapse)
  note ParseNextKey_progress [OF this]
  then show "((cond, snd r), cond, it) \<in> measure (\<lambda>(cond, it). unat (bi_restarts it) - unat (NextEntryOffset it))"
    by simp
qed simp

declare parse_while.simps [simp del]

definition bi_Next :: "BlockIter \<Rightarrow> BlockIter" where
  "bi_Next it = snd (ParseNextKey it)"

text \<open>The scan back to a restart point before the current entry; \<open>None\<close> where there is none.\<close>

function restart_before :: "32 word \<Rightarrow> BlockIter \<Rightarrow> BlockIter option" where
  "restart_before original it =
     (if original \<le> GetRestartPoint (bi_restart_index it) it
      then if bi_restart_index it = 0 then None
           else restart_before original (it\<lparr> bi_restart_index := bi_restart_index it - 1 \<rparr>)
      else Some it)"
  by pat_completeness auto
termination
  by (relation "measure (\<lambda>(original, it). unat (bi_restart_index it))") (auto simp: unat_gt_0 unat_minus_one)

declare restart_before.simps [simp del]

definition bi_Prev :: "BlockIter \<Rightarrow> BlockIter" where
  "bi_Prev it =
     (let original = bi_current it
      in case restart_before original it of
           None \<Rightarrow> it\<lparr> bi_current := bi_restarts it, bi_restart_index := bi_num_restarts it \<rparr>
         | Some it \<Rightarrow> parse_while (\<lambda>it. NextEntryOffset it < original) (SeekToRestartPoint (bi_restart_index it) it))"

definition bi_SeekToFirst :: "BlockIter \<Rightarrow> BlockIter" where
  "bi_SeekToFirst it = snd (ParseNextKey (SeekToRestartPoint 0 it))"

definition bi_SeekToLast :: "BlockIter \<Rightarrow> BlockIter" where
  "bi_SeekToLast it =
     parse_while (\<lambda>it. NextEntryOffset it < bi_restarts it) (SeekToRestartPoint (bi_num_restarts it - 1) it)"

text \<open>
  The binary search over the restart points: no result where it does not return (the sum of
  the bounds may wrap around), \<open>Some None\<close> where an entry is bad. The key at the middle is
  compared as it stands in the block.
\<close>

partial_function (option) restart_search ::
    "Comparator \<Rightarrow> slice \<Rightarrow> BlockIter \<Rightarrow> 32 word \<Rightarrow> 32 word \<Rightarrow> 32 word option option" where
  "restart_search c target it left right =
     (if left < right
      then let mid = (left + right + 1) div 2; region_offset = unat (GetRestartPoint mid it);
               p = take (unat (bi_restarts it) - region_offset) (drop region_offset (bi_data it))
           in case DecodeEntry p of
                None \<Rightarrow> Some None
              | Some (shared, non_shared, value_length, q) \<Rightarrow>
                  if shared \<noteq> 0 then Some None
                  else let mid_key = take (unat non_shared) (drop (region_offset + (length p - length q)) (bi_data it))
                       in if cmp_Compare c mid_key target < 0
                          then restart_search c target it mid right
                          else restart_search c target it left (mid - 1)
      else Some (Some left))"

definition bi_Seek :: "Comparator \<Rightarrow> slice \<Rightarrow> BlockIter \<Rightarrow> BlockIter option" where
  "bi_Seek c target it =
     (case restart_search c target it 0 (bi_num_restarts it - 1) of
        None \<Rightarrow> None
      | Some None \<Rightarrow> Some (CorruptionError it)
      | Some (Some left) \<Rightarrow>
          Some (parse_while (\<lambda>it. \<not> 0 \<le> cmp_Compare c (bi_key it) target) (SeekToRestartPoint left it)))"

section \<open>The iterator of a block\<close>

text \<open>The three kinds of iterators that \<^verbatim>\<open>Block::NewIterator\<close> returns.\<close>

datatype block_iterator = NoEntries Status | Entries BlockIter

definition Block_NewIterator :: "Block \<Rightarrow> block_iterator" where
  "Block_NewIterator b =
     (if bk_size b < 4 then NoEntries (NewErrorIterator (Corruption ''bad block contents''))
      else let num_restarts = NumRestarts (bk_data b) (bk_size b)
           in if num_restarts = 0 then NoEntries NewEmptyIterator
              else Entries (BlockIter_new (bk_data b) (bk_restart_offset b) num_restarts))"

text \<open>The virtual calls.\<close>

definition BlockIterator :: "Comparator \<Rightarrow> block_iterator Iterator" where
  "BlockIterator c =
     \<lparr> i_Valid = (\<lambda>s. case s of NoEntries e \<Rightarrow> i_Valid EmptyIterator e | Entries it \<Rightarrow> bi_Valid it),
       i_SeekToFirst = (\<lambda>s. case s of NoEntries e \<Rightarrow> Some s | Entries it \<Rightarrow> Some (Entries (bi_SeekToFirst it))),
       i_SeekToLast = (\<lambda>s. case s of NoEntries e \<Rightarrow> Some s | Entries it \<Rightarrow> Some (Entries (bi_SeekToLast it))),
       i_Seek = (\<lambda>k s. case s of NoEntries e \<Rightarrow> Some s | Entries it \<Rightarrow> map_option Entries (bi_Seek c k it)),
       i_Next = (\<lambda>s. case s of NoEntries e \<Rightarrow> Some s | Entries it \<Rightarrow> Some (Entries (bi_Next it))),
       i_Prev = (\<lambda>s. case s of NoEntries e \<Rightarrow> Some s | Entries it \<Rightarrow> Some (Entries (bi_Prev it))),
       i_key = (\<lambda>s. case s of NoEntries e \<Rightarrow> i_key EmptyIterator e | Entries it \<Rightarrow> bi_key it),
       i_value = (\<lambda>s. case s of NoEntries e \<Rightarrow> i_value EmptyIterator e | Entries it \<Rightarrow> bi_value_bytes it),
       i_status = (\<lambda>s. case s of NoEntries e \<Rightarrow> i_status EmptyIterator e | Entries it \<Rightarrow> bi_status it) \<rparr>"

end
