(* ===== verification/Ldb_Format.thy ===== *)
theory Ldb_Format
  imports Ldb_Block Ldb_Env Ldb_Crc32c
begin

text \<open>
  The parts of a table file around its blocks (\<^verbatim>\<open>table/format.h\<close>, \<^verbatim>\<open>table/format.cc\<close>): handles, the footer and
  the reading of a block with its trailer, over files that are read at random
  (\<^verbatim>\<open>include/leveldb/env.h\<close>, \<^verbatim>\<open>util/env_posix.cc\<close>). Where the code would read outside a buffer the result is
  \<open>None\<close>. The build has no Snappy: its functions (\<^verbatim>\<open>port/port_posix.h\<close>) all refuse.
\<close>

section \<open>Files read at random\<close>

text \<open>
  The result of \<^verbatim>\<open>Read\<close>: the slice, whether it points into the scratch buffer, the status.
\<close>

record 'f RandomAccessFile =
  raf_Read :: "64 word \<Rightarrow> 64 word \<Rightarrow> 'f \<Rightarrow> (slice \<times> bool \<times> Status) option"

text \<open>
  A file of the operating system: its bytes, and whether opening it (where every read opens the
  file) and reading it fail.
\<close>

record posix_file =
  pf_name :: string
  pf_bytes :: "byte list"
  pf_temporary_fd :: bool
  pf_unopenable :: bool
  pf_unreadable :: bool
  pf_errno :: string

text \<open>For \<^verbatim>\<open>pread\<close> the offset is a signed number; it refuses a negative one, and stops at the end of the file.\<close>

definition pread :: "64 word \<Rightarrow> 64 word \<Rightarrow> posix_file \<Rightarrow> byte list option" where
  "pread n offset f =
     (if pf_unreadable f \<or> 2 ^ 63 \<le> unat offset then None else Some (take (unat n) (drop (unat offset) (pf_bytes f))))"

definition PosixRandomAccessFile_Read ::
    "64 word \<Rightarrow> 64 word \<Rightarrow> posix_file \<Rightarrow> (slice \<times> bool \<times> Status) option" where
  "PosixRandomAccessFile_Read offset n f =
     (if pf_temporary_fd f \<and> pf_unopenable f then Some ([], False, IOError (pf_name f) (pf_errno f))
      else case pread n offset f of
          None \<Rightarrow> Some ([], True, IOError (pf_name f) (pf_errno f))
        | Some r \<Rightarrow> Some (r, True, StatusOK))"

definition PosixRandomAccessFile :: "posix_file RandomAccessFile" where
  "PosixRandomAccessFile = \<lparr> raf_Read = PosixRandomAccessFile_Read \<rparr>"

text \<open>A mapped file: the sum of offset and length may wrap around, and then the slice lies outside the mapping.\<close>

definition PosixMmapReadableFile_Read ::
    "64 word \<Rightarrow> 64 word \<Rightarrow> posix_file \<Rightarrow> (slice \<times> bool \<times> Status) option" where
  "PosixMmapReadableFile_Read offset n f =
     (if word_of_nat (length (pf_bytes f)) < offset + n
      then Some ([], False, IOError (pf_name f) ''Invalid argument'')
      else if length (pf_bytes f) < unat offset + unat n then None
      else Some (take (unat n) (drop (unat offset) (pf_bytes f)), False, StatusOK))"

definition PosixMmapReadableFile :: "posix_file RandomAccessFile" where
  "PosixMmapReadableFile = \<lparr> raf_Read = PosixMmapReadableFile_Read \<rparr>"

text \<open>A sound file delivers every range of its contents.\<close>

locale random_access_file =
  fixes ops :: "'f RandomAccessFile" and contents :: "'f \<Rightarrow> byte list" and sound :: "'f \<Rightarrow> bool"
  assumes read_at: "sound f \<Longrightarrow> unat offset + unat n \<le> length (contents f) \<Longrightarrow>
      \<exists>scratch. raf_Read ops offset n f = Some (take (unat n) (drop (unat offset) (contents f)), scratch, StatusOK)"
    and small: "sound f \<Longrightarrow> length (contents f) < 2 ^ 63"

definition sound_posix_file :: "posix_file \<Rightarrow> bool" where
  "sound_posix_file f \<longleftrightarrow>
     \<not> pf_unreadable f \<and> \<not> (pf_temporary_fd f \<and> pf_unopenable f) \<and> length (pf_bytes f) < 2 ^ 63"

lemma unat_plus_64: "unat a + unat b < 2 ^ 64 \<Longrightarrow> unat (a + b) = unat a + unat b" for a b :: "64 word"
  by (simp add: unat_word_ariths)

interpretation posix_random: random_access_file PosixRandomAccessFile pf_bytes sound_posix_file
proof unfold_locales
  fix f and offset n :: "64 word"
  assume s: "sound_posix_file f" and le: "unat offset + unat n \<le> length (pf_bytes f)"
  then have "unat offset < 2 ^ 63" by (simp add: sound_posix_file_def)
  then show "\<exists>scratch. raf_Read PosixRandomAccessFile offset n f
      = Some (take (unat n) (drop (unat offset) (pf_bytes f)), scratch, StatusOK)"
    using s by (auto simp: PosixRandomAccessFile_def PosixRandomAccessFile_Read_def pread_def sound_posix_file_def)
qed (simp add: sound_posix_file_def)

interpretation posix_mmap: random_access_file PosixMmapReadableFile pf_bytes sound_posix_file
proof unfold_locales
  fix f and offset n :: "64 word"
  assume s: "sound_posix_file f" and le: "unat offset + unat n \<le> length (pf_bytes f)"
  have small: "length (pf_bytes f) < 2 ^ 63" using s by (simp add: sound_posix_file_def)
  then have "unat (offset + n) = unat offset + unat n" using le by (intro unat_plus_64) simp
  moreover have "unat (word_of_nat (length (pf_bytes f)) :: 64 word) = length (pf_bytes f)"
    using small by (simp add: unat_of_nat take_bit_nat_eq_self)
  ultimately have "\<not> word_of_nat (length (pf_bytes f)) < offset + n" using le by (simp add: word_less_nat_alt)
  then show "\<exists>scratch. raf_Read PosixMmapReadableFile offset n f
      = Some (take (unat n) (drop (unat offset) (pf_bytes f)), scratch, StatusOK)"
    using le by (auto simp: PosixMmapReadableFile_def PosixMmapReadableFile_Read_def)
qed (simp add: sound_posix_file_def)

section \<open>Handles and the footer\<close>

record BlockHandle =
  bh_offset :: "64 word"
  bh_size :: "64 word"

definition BlockHandle_new :: BlockHandle where
  "BlockHandle_new = \<lparr> bh_offset = - 1, bh_size = - 1 \<rparr>"

definition BlockHandle_EncodeTo :: "byte list \<Rightarrow> BlockHandle \<Rightarrow> byte list" where
  "BlockHandle_EncodeTo dst h = PutVarint64 (PutVarint64 dst (bh_offset h)) (bh_size h)"

definition BlockHandle_DecodeFrom :: "slice \<Rightarrow> BlockHandle \<Rightarrow> Status \<times> BlockHandle \<times> slice" where
  "BlockHandle_DecodeFrom input h =
     (case GetVarint64 input of
        None \<Rightarrow> (Corruption ''bad block handle'', h, input)
      | Some (offset, input) \<Rightarrow>
          (case GetVarint64 input of
             None \<Rightarrow> (Corruption ''bad block handle'', h\<lparr> bh_offset := offset \<rparr>, input)
           | Some (n, input) \<Rightarrow> (StatusOK, h\<lparr> bh_offset := offset, bh_size := n \<rparr>, input)))"

definition kMaxEncodedLength :: nat where
  "kMaxEncodedLength = 10 + 10"

definition kEncodedLength :: nat where
  "kEncodedLength = 2 * kMaxEncodedLength + 8"

definition kTableMagicNumber :: "64 word" where
  "kTableMagicNumber = 0xdb4775248b80fb57"

record Footer =
  ft_metaindex_handle :: BlockHandle
  ft_index_handle :: BlockHandle

definition Footer_new :: Footer where
  "Footer_new = \<lparr> ft_metaindex_handle = BlockHandle_new, ft_index_handle = BlockHandle_new \<rparr>"

text \<open>\<^verbatim>\<open>std::string::resize\<close>.\<close>

definition resize :: "nat \<Rightarrow> byte list \<Rightarrow> byte list" where
  "resize n s = take n s @ replicate (n - length s) 0"

definition Footer_EncodeTo :: "byte list \<Rightarrow> Footer \<Rightarrow> byte list" where
  "Footer_EncodeTo dst ft =
     (let dst = BlockHandle_EncodeTo dst (ft_metaindex_handle ft);
          dst = BlockHandle_EncodeTo dst (ft_index_handle ft);
          dst = resize (2 * kMaxEncodedLength) dst;
          dst = PutFixed32 dst (ucast (kTableMagicNumber AND 0xffffffff))
      in PutFixed32 dst (ucast (drop_bit 32 kTableMagicNumber)))"

text \<open>The magic number is read at a fixed distance from the start of the input, which has to be that long.\<close>

definition Footer_DecodeFrom :: "slice \<Rightarrow> Footer \<Rightarrow> (Status \<times> Footer \<times> slice) option" where
  "Footer_DecodeFrom input ft =
     (if length input < kEncodedLength then None
      else let magic_ptr = drop (kEncodedLength - 8) input;
               magic_lo = DecodeFixed32 magic_ptr; magic_hi = DecodeFixed32 (drop 4 magic_ptr);
               magic = push_bit 32 (ucast magic_hi) OR ucast magic_lo
           in if magic \<noteq> kTableMagicNumber
              then Some (Corruption ''not an sstable (bad magic number)'', ft, input)
              else let (result, h, rest) = BlockHandle_DecodeFrom input (ft_metaindex_handle ft);
                       ft = ft\<lparr> ft_metaindex_handle := h \<rparr>
                   in if \<not> status_ok result then Some (result, ft, rest)
                      else let (result, h, rest) = BlockHandle_DecodeFrom rest (ft_index_handle ft);
                               ft = ft\<lparr> ft_index_handle := h \<rparr>
                           in if status_ok result then Some (result, ft, drop kEncodedLength input)
                              else Some (result, ft, rest))"

section \<open>Reading a block\<close>

definition kBlockTrailerSize :: nat where
  "kBlockTrailerSize = 5"

record BlockContents =
  bc_data :: slice
  bc_cachable :: bool
  bc_heap_allocated :: bool

definition no_contents :: BlockContents where
  "no_contents = \<lparr> bc_data = [], bc_cachable = False, bc_heap_allocated = False \<rparr>"

text \<open>The functions of the port without Snappy.\<close>

definition Snappy_GetUncompressedLength :: "byte list \<Rightarrow> nat option" where
  "Snappy_GetUncompressedLength input = None"

definition Snappy_Uncompress :: "byte list \<Rightarrow> byte list option" where
  "Snappy_Uncompress input = None"

definition Snappy_Compress :: "byte list \<Rightarrow> byte list option" where
  "Snappy_Compress input = None"

text \<open>
  The size of the handle plus that of the trailer may wrap around; the trailer is then read
  outside the buffer.
\<close>

definition ReadBlock ::
    "'f RandomAccessFile \<Rightarrow> 'f \<Rightarrow> bool \<Rightarrow> BlockHandle \<Rightarrow> (Status \<times> BlockContents) option" where
  "ReadBlock ops f verify_checksums handle =
     (let n = unat (bh_size handle); total = bh_size handle + word_of_nat kBlockTrailerSize
      in case raf_Read ops (bh_offset handle) total f of
           None \<Rightarrow> None
         | Some (data, scratch, s) \<Rightarrow>
             if \<not> status_ok s then Some (s, no_contents)
             else if length data \<noteq> unat total then Some (Corruption ''truncated block read'', no_contents)
             else if length data < n + kBlockTrailerSize then None
             else if verify_checksums \<and> crc_Value 0 (take (n + 1) data) \<noteq> Unmask (DecodeFixed32 (drop (n + 1) data))
             then Some (Corruption ''block checksum mismatch'', no_contents)
             else if data ! n = compression_code kNoCompression
             then Some (StatusOK, \<lparr> bc_data = take n data, bc_cachable = scratch, bc_heap_allocated = scratch \<rparr>)
             else if data ! n = compression_code kSnappyCompression
             then (case Snappy_GetUncompressedLength (take n data) of
                 None \<Rightarrow> Some (Corruption ''corrupted compressed block contents'', no_contents)
               | Some ulength \<Rightarrow>
                   (case Snappy_Uncompress (take n data) of
                      None \<Rightarrow> Some (Corruption ''corrupted compressed block contents'', no_contents)
                    | Some ubuf \<Rightarrow> Some (StatusOK, \<lparr> bc_data = ubuf, bc_cachable = True, bc_heap_allocated = True \<rparr>)))
             else Some (Corruption ''bad block type'', no_contents))"

section \<open>Round trips\<close>

lemma GetVarint64_Encode_Nil: "GetVarint64 (EncodeVarint64 v) = Some (v, [])"
  using GetVarint64_Put [of v "[]"] by simp

lemma BlockHandle_EncodeTo_append: "BlockHandle_EncodeTo dst h = dst @ BlockHandle_EncodeTo [] h"
  by (simp add: BlockHandle_EncodeTo_def PutVarint64_def)

lemma BlockHandle_Decode_Encode [simp]:
  "BlockHandle_DecodeFrom (BlockHandle_EncodeTo [] h @ rest) g = (StatusOK, h, rest)"
  by (simp add: BlockHandle_DecodeFrom_def BlockHandle_EncodeTo_def PutVarint64_def)

lemma length_EncodeVarint64: "length (EncodeVarint64 v) \<le> 10"
  using varint_bytes_10 [OF unat64_less [of v]] by (simp add: EncodeVarint64_eq)

lemma length_BlockHandle: "length (BlockHandle_EncodeTo [] h) \<le> kMaxEncodedLength"
  using length_EncodeVarint64 [of "bh_offset h"] length_EncodeVarint64 [of "bh_size h"]
  by (simp add: BlockHandle_EncodeTo_def PutVarint64_def kMaxEncodedLength_def)

definition footer_magic :: "byte list" where
  "footer_magic = EncodeFixed32 (ucast (kTableMagicNumber AND 0xffffffff))
     @ EncodeFixed32 (ucast (drop_bit 32 kTableMagicNumber))"

lemma Footer_EncodeTo_eq:
  "Footer_EncodeTo [] ft =
     BlockHandle_EncodeTo [] (ft_metaindex_handle ft) @ BlockHandle_EncodeTo [] (ft_index_handle ft)
     @ replicate (2 * kMaxEncodedLength - length (BlockHandle_EncodeTo [] (ft_metaindex_handle ft))
         - length (BlockHandle_EncodeTo [] (ft_index_handle ft))) 0
     @ footer_magic"
  using length_BlockHandle [of "ft_metaindex_handle ft"] length_BlockHandle [of "ft_index_handle ft"]
    BlockHandle_EncodeTo_append [of "BlockHandle_EncodeTo [] (ft_metaindex_handle ft)" "ft_index_handle ft"]
  by (simp add: Footer_EncodeTo_def resize_def footer_magic_def PutFixed32_def Let_def)

lemma length_footer_magic: "length footer_magic = 8"
  by (simp add: footer_magic_def)

lemma length_Footer: "length (Footer_EncodeTo [] ft) = kEncodedLength"
  using length_BlockHandle [of "ft_metaindex_handle ft"] length_BlockHandle [of "ft_index_handle ft"]
  by (simp add: Footer_EncodeTo_eq length_footer_magic kEncodedLength_def)

lemma footer_drop_magic: "drop (kEncodedLength - 8) (Footer_EncodeTo [] ft @ rest) = footer_magic @ rest"
proof -
  define pad where "pad = BlockHandle_EncodeTo [] (ft_metaindex_handle ft) @ BlockHandle_EncodeTo [] (ft_index_handle ft)
     @ replicate (2 * kMaxEncodedLength - length (BlockHandle_EncodeTo [] (ft_metaindex_handle ft))
         - length (BlockHandle_EncodeTo [] (ft_index_handle ft))) 0"
  have eq: "Footer_EncodeTo [] ft = pad @ footer_magic" by (simp add: Footer_EncodeTo_eq pad_def)
  then have "length pad = kEncodedLength - 8" using length_Footer [of ft] by (simp add: length_footer_magic)
  then show ?thesis by (simp add: eq)
qed

lemma Footer_Decode_Encode: "Footer_DecodeFrom (Footer_EncodeTo [] ft @ rest) g = Some (StatusOK, ft, rest)"
proof -
  have magic: "(push_bit 32 (ucast (ucast (drop_bit 32 kTableMagicNumber) :: 32 word)) :: 64 word)
      OR ucast (ucast (kTableMagicNumber AND 0xffffffff) :: 32 word) = kTableMagicNumber"
    by (simp add: kTableMagicNumber_def)
  have dec: "DecodeFixed32 (footer_magic @ rest) = ucast (kTableMagicNumber AND 0xffffffff)"
    "DecodeFixed32 (drop 4 (footer_magic @ rest)) = ucast (drop_bit 32 kTableMagicNumber)"
    by (simp_all add: footer_magic_def)
  have handles: "BlockHandle_DecodeFrom (Footer_EncodeTo [] ft @ rest) h
      = (StatusOK, ft_metaindex_handle ft, drop (length (BlockHandle_EncodeTo [] (ft_metaindex_handle ft))) (Footer_EncodeTo [] ft @ rest))" for h
    by (simp add: Footer_EncodeTo_eq)
  have handles2: "BlockHandle_DecodeFrom (drop (length (BlockHandle_EncodeTo [] (ft_metaindex_handle ft))) (Footer_EncodeTo [] ft @ rest)) h
      = (StatusOK, ft_index_handle ft, drop (length (BlockHandle_EncodeTo [] (ft_metaindex_handle ft))
          + length (BlockHandle_EncodeTo [] (ft_index_handle ft))) (Footer_EncodeTo [] ft @ rest))" for h
    by (simp add: Footer_EncodeTo_eq)
  have long: "\<not> length (Footer_EncodeTo [] ft @ rest) < kEncodedLength"
    "drop kEncodedLength (Footer_EncodeTo [] ft @ rest) = rest" by (simp_all add: length_Footer)
  show ?thesis
    by (simp only: Footer_DecodeFrom_def Let_def long footer_drop_magic dec magic if_False handles handles2 prod.case not_True_eq_False
        simp_thms) (simp add: status_ok_def)
qed

end
