(* ===== verification/Ldb_Filter.thy ===== *)
theory Ldb_Filter
  imports Ldb_Keys
begin

text \<open>
  Filters (\<^verbatim>\<open>include/leveldb/filter_policy.h\<close>): the Bloom filter of \<^verbatim>\<open>util/bloom.cc\<close>, the wrapper for
  internal keys of \<^verbatim>\<open>db/dbformat.cc\<close> and the filter block of a table (\<^verbatim>\<open>table/filter_block.cc\<close>). The
  locale \<open>filter_policy\<close> states what the header asks of a policy.
\<close>

section \<open>The interface\<close>

record FilterPolicy =
  fp_Name :: string
  fp_CreateFilter :: "slice list \<Rightarrow> byte list \<Rightarrow> byte list"
  fp_KeyMayMatch :: "slice \<Rightarrow> slice \<Rightarrow> bool"

locale filter_policy =
  fixes P :: FilterPolicy
  assumes appends: "fp_CreateFilter P keys dst = dst @ fp_CreateFilter P keys []"
    and matches: "key \<in> set keys \<Longrightarrow> fp_KeyMayMatch P key (fp_CreateFilter P keys [])"

section \<open>The Bloom filter\<close>

definition BloomHash :: "slice \<Rightarrow> 32 word" where
  "BloomHash key = Hash key 0xbc9f1d34"

text \<open>The members \<^verbatim>\<open>bits_per_key_\<close> and \<^verbatim>\<open>k_\<close>.\<close>

record BloomFilterPolicy =
  bl_bits_per_key :: nat
  bl_k :: nat

text \<open>
  The constructor, for a number of bits that is not negative. The product of the integer
  with the floating-point constant 0.69 is rounded towards zero.
\<close>

definition BloomFilterPolicy_new :: "nat \<Rightarrow> BloomFilterPolicy" where
  "BloomFilterPolicy_new bits_per_key =
     (let k = 69 * bits_per_key div 100; k = (if k < 1 then 1 else k); k = (if k > 30 then 30 else k)
      in \<lparr> bl_bits_per_key = bits_per_key, bl_k = k \<rparr>)"

text \<open>Rotation of the hash by 17 bits: the step of the double hashing.\<close>

definition bloom_delta :: "32 word \<Rightarrow> 32 word" where
  "bloom_delta h = drop_bit 17 h OR push_bit 15 h"

definition bloom_bitpos :: "32 word \<Rightarrow> nat \<Rightarrow> nat" where
  "bloom_bitpos h bits = unat h mod bits"

text \<open>The loop over the \<open>k\<close> probes of one key, which sets their bits in the array.\<close>

fun set_probes :: "nat \<Rightarrow> nat \<Rightarrow> 32 word \<Rightarrow> 32 word \<Rightarrow> byte list \<Rightarrow> byte list" where
  "set_probes 0 bits delta h arr = arr"
| "set_probes (Suc j) bits delta h arr =
     (let bitpos = bloom_bitpos h bits; i = bitpos div 8
      in set_probes j bits delta (h + delta) (arr[i := arr ! i OR push_bit (bitpos mod 8) 1]))"

text \<open>The array starts where \<open>dst\<close> ended; the number of probes is the byte behind its \<open>bytes\<close> bytes.\<close>

definition bloom_CreateFilter :: "BloomFilterPolicy \<Rightarrow> slice list \<Rightarrow> byte list \<Rightarrow> byte list" where
  "bloom_CreateFilter bp keys dst =
     (let bits = length keys * bl_bits_per_key bp; bits = (if bits < 64 then 64 else bits);
          bytes = (bits + 7) div 8; bits = bytes * 8;
          arr = replicate bytes 0 @ [word_of_nat (bl_k bp)];
          arr = foldl (\<lambda>arr key. let h = BloomHash key in set_probes (bl_k bp) bits (bloom_delta h) h arr) arr keys
      in dst @ arr)"

fun test_probes :: "nat \<Rightarrow> nat \<Rightarrow> 32 word \<Rightarrow> 32 word \<Rightarrow> byte list \<Rightarrow> bool" where
  "test_probes 0 bits delta h arr = True"
| "test_probes (Suc j) bits delta h arr =
     (let bitpos = bloom_bitpos h bits
      in if arr ! (bitpos div 8) AND push_bit (bitpos mod 8) 1 = 0 then False
         else test_probes j bits delta (h + delta) arr)"

text \<open>
  A byte of 128 or more becomes a large number when it is read as a signed character; it is
  above 30 in either reading.
\<close>

definition bloom_KeyMayMatch :: "slice \<Rightarrow> slice \<Rightarrow> bool" where
  "bloom_KeyMayMatch key bloom_filter =
     (let len = length bloom_filter
      in if len < 2 then False
         else let bits = (len - 1) * 8; k = unat (bloom_filter ! (len - 1))
              in if k > 30 then True
                 else let h = BloomHash key in test_probes k bits (bloom_delta h) h bloom_filter)"

definition NewBloomFilterPolicy :: "nat \<Rightarrow> FilterPolicy" where
  "NewBloomFilterPolicy bits_per_key =
     \<lparr> fp_Name = ''leveldb.BuiltinBloomFilter2'',
       fp_CreateFilter = bloom_CreateFilter (BloomFilterPolicy_new bits_per_key),
       fp_KeyMayMatch = bloom_KeyMayMatch \<rparr>"

section \<open>Filters over internal keys\<close>

definition InternalFilterPolicy :: "FilterPolicy \<Rightarrow> FilterPolicy" where
  "InternalFilterPolicy user =
     \<lparr> fp_Name = fp_Name user,
       fp_CreateFilter = (\<lambda>keys dst. fp_CreateFilter user (map ExtractUserKey keys) dst),
       fp_KeyMayMatch = (\<lambda>key f. fp_KeyMayMatch user (ExtractUserKey key) f) \<rparr>"

section \<open>The filter block\<close>

definition kFilterBaseLg :: nat where
  "kFilterBaseLg = 11"

definition kFilterBase :: nat where
  "kFilterBase = push_bit kFilterBaseLg 1"

record FilterBlockBuilder =
  fb_keys :: "byte list"
  fb_start :: "nat list"
  fb_result :: "byte list"
  fb_filter_offsets :: "32 word list"

definition FilterBlockBuilder_new :: FilterBlockBuilder where
  "FilterBlockBuilder_new = \<lparr> fb_keys = [], fb_start = [], fb_result = [], fb_filter_offsets = [] \<rparr>"

text \<open>The offsets of the filters are truncated to 32 bits. The list \<open>tmp_keys\<close> is local here.\<close>

definition GenerateFilter :: "FilterPolicy \<Rightarrow> FilterBlockBuilder \<Rightarrow> FilterBlockBuilder" where
  "GenerateFilter P b =
     (let num_keys = length (fb_start b)
      in if num_keys = 0
         then b\<lparr> fb_filter_offsets := fb_filter_offsets b @ [word_of_nat (length (fb_result b))] \<rparr>
         else let start = fb_start b @ [length (fb_keys b)];
                  tmp_keys = map (\<lambda>i. take (start ! (i + 1) - start ! i) (drop (start ! i) (fb_keys b))) [0..<num_keys]
              in b\<lparr> fb_filter_offsets := fb_filter_offsets b @ [word_of_nat (length (fb_result b))],
                    fb_result := fp_CreateFilter P tmp_keys (fb_result b),
                    fb_keys := [], fb_start := [] \<rparr>)"

lemma length_GenerateFilter [simp]:
  "length (fb_filter_offsets (GenerateFilter P b)) = length (fb_filter_offsets b) + 1"
  by (simp add: GenerateFilter_def Let_def)

function generate_up_to :: "FilterPolicy \<Rightarrow> nat \<Rightarrow> FilterBlockBuilder \<Rightarrow> FilterBlockBuilder" where
  "generate_up_to P filter_index b =
     (if length (fb_filter_offsets b) < filter_index then generate_up_to P filter_index (GenerateFilter P b) else b)"
  by pat_completeness auto
termination by (relation "measure (\<lambda>(P, filter_index, b). filter_index - length (fb_filter_offsets b))") auto

declare generate_up_to.simps [simp del]

definition StartBlock :: "FilterPolicy \<Rightarrow> 64 word \<Rightarrow> FilterBlockBuilder \<Rightarrow> FilterBlockBuilder" where
  "StartBlock P block_offset b = generate_up_to P (unat block_offset div kFilterBase) b"

definition AddKey :: "slice \<Rightarrow> FilterBlockBuilder \<Rightarrow> FilterBlockBuilder" where
  "AddKey key b = b\<lparr> fb_start := fb_start b @ [length (fb_keys b)], fb_keys := fb_keys b @ key \<rparr>"

definition Filter_Finish :: "FilterPolicy \<Rightarrow> FilterBlockBuilder \<Rightarrow> slice \<times> FilterBlockBuilder" where
  "Filter_Finish P b =
     (let b = (if fb_start b \<noteq> [] then GenerateFilter P b else b);
          array_offset = word_of_nat (length (fb_result b));
          result = foldl PutFixed32 (fb_result b) (fb_filter_offsets b);
          result = PutFixed32 result array_offset @ [word_of_nat kFilterBaseLg]
      in (result, b\<lparr> fb_result := result \<rparr>))"

text \<open>
  The members \<^verbatim>\<open>data_\<close> (with its bytes up to the end of the block) and \<^verbatim>\<open>offset_\<close>, as its distance
  from \<^verbatim>\<open>data_\<close>; both stay null, here empty and 0, when the block is refused. The byte with
  \<^verbatim>\<open>base_lg_\<close> is a signed character.
\<close>

record FilterBlockReader =
  fr_data :: slice
  fr_offset :: nat
  fr_num :: nat
  fr_base_lg :: "64 word"

definition FilterBlockReader_new :: "slice \<Rightarrow> FilterBlockReader" where
  "FilterBlockReader_new contents =
     (let n = length contents; none = \<lparr> fr_data = [], fr_offset = 0, fr_num = 0, fr_base_lg = 0 \<rparr>
      in if n < 5 then none
         else let base_lg = scast (contents ! (n - 1));
                  last_word = unat (DecodeFixed32 (drop (n - 5) contents))
              in if last_word > n - 5 then none\<lparr> fr_base_lg := base_lg \<rparr>
                 else \<lparr> fr_data = contents, fr_offset = last_word, fr_num = (n - 5 - last_word) div 4,
                        fr_base_lg = base_lg \<rparr>)"

text \<open>A shift by 64 bits or more is undefined; the model shifts out every bit.\<close>

definition Filter_KeyMayMatch :: "FilterPolicy \<Rightarrow> FilterBlockReader \<Rightarrow> 64 word \<Rightarrow> slice \<Rightarrow> bool" where
  "Filter_KeyMayMatch P r block_offset key =
     (let index = unat (drop_bit (unat (fr_base_lg r)) block_offset)
      in if index < fr_num r
         then let start = unat (DecodeFixed32 (drop (fr_offset r + index * 4) (fr_data r)));
                  limit = unat (DecodeFixed32 (drop (fr_offset r + index * 4 + 4) (fr_data r)))
              in if start \<le> limit \<and> limit \<le> fr_offset r
                 then fp_KeyMayMatch P key (take (limit - start) (drop start (fr_data r)))
                 else if start = limit then False
                 else True
         else True)"

section \<open>The Bloom filter keeps every key\<close>

lemma length_set_probes [simp]: "length (set_probes j bits delta h arr) = length arr"
  by (induction j arbitrary: h arr) (auto simp: Let_def)

text \<open>Bits are only ever set.\<close>

definition covers :: "byte list \<Rightarrow> byte list \<Rightarrow> bool" where
  "covers a b \<longleftrightarrow> length a = length b \<and> (\<forall>i < length b. \<forall>n. bit (b ! i) n \<longrightarrow> bit (a ! i) n)"

lemma covers_refl [simp]: "covers a a"
  by (simp add: covers_def)

lemma covers_trans: "covers a b \<Longrightarrow> covers b d \<Longrightarrow> covers a d"
  by (simp add: covers_def)

lemma covers_update: "covers (a[i := a ! i OR w]) a"
  by (cases "i < length a") (auto simp: covers_def nth_list_update bit_or_iff)

lemma set_probes_covers: "covers (set_probes j bits delta h arr) arr"
proof (induction j arbitrary: h arr)
  case (Suc j)
  show ?case unfolding set_probes.simps Let_def by (rule covers_trans [OF Suc covers_update])
qed simp

lemma bit_and_single: "a AND 2 ^ k = 0 \<longleftrightarrow> \<not> bit a k" for a :: byte
  by (simp add: bit_iff_and_push_bit_not_eq_0)

lemma bitpos_less: "0 < bits \<Longrightarrow> bloom_bitpos h (bits * 8) div 8 < bits"
  by (simp add: bloom_bitpos_def less_mult_imp_div_less)

lemma test_probes_covers:
  assumes "0 < bytes" and "bytes \<le> length arr" and "covers a arr"
    and "test_probes j (bytes * 8) delta h arr"
  shows "test_probes j (bytes * 8) delta h a"
  using assms(4)
proof (induction j arbitrary: h)
  case (Suc j)
  have "bloom_bitpos h (bytes * 8) div 8 < length arr"
    using bitpos_less [OF assms(1), of h] assms(2) by linarith
  with Suc show ?case
    using assms(3) by (auto simp: Let_def covers_def bit_and_single split: if_splits)
qed simp

lemma test_set_probes:
  assumes "0 < bytes" and "bytes \<le> length arr"
  shows "test_probes j (bytes * 8) delta h (set_probes j (bytes * 8) delta h arr)"
  using assms(2)
proof (induction j arbitrary: h arr)
  case (Suc j)
  let ?p = "bloom_bitpos h (bytes * 8)" let ?arr = "arr[?p div 8 := arr ! (?p div 8) OR push_bit (?p mod 8) 1]"
  have i: "?p div 8 < length arr" using bitpos_less [OF assms(1), of h] Suc.prems by linarith
  then have "bit (?arr ! (?p div 8)) (?p mod 8)" by (simp add: bit_simps)
  then have "bit (set_probes j (bytes * 8) delta (h + delta) ?arr ! (?p div 8)) (?p mod 8)"
    using set_probes_covers [of j "bytes * 8" delta "h + delta" ?arr] i by (auto simp: covers_def)
  with Suc show ?case by (simp add: Let_def bit_and_single)
qed simp

lemma set_probes_last:
  assumes "0 < bytes" and "length arr = bytes + 1"
  shows "set_probes j (bytes * 8) delta h arr ! bytes = arr ! bytes"
  using assms(2)
proof (induction j arbitrary: h arr)
  case (Suc j)
  have "bloom_bitpos h (bytes * 8) div 8 \<noteq> bytes" using bitpos_less [OF assms(1), of h] by simp
  with Suc show ?case by (simp add: Let_def)
qed simp

definition bloom_add :: "nat \<Rightarrow> nat \<Rightarrow> byte list \<Rightarrow> slice \<Rightarrow> byte list" where
  "bloom_add k bits arr key = (let h = BloomHash key in set_probes k bits (bloom_delta h) h arr)"

lemma bloom_fold:
  assumes "0 < bytes" and "length arr = bytes + 1"
  shows "length (foldl (bloom_add k (bytes * 8)) arr keys) = bytes + 1
    \<and> foldl (bloom_add k (bytes * 8)) arr keys ! bytes = arr ! bytes
    \<and> covers (foldl (bloom_add k (bytes * 8)) arr keys) arr
    \<and> (\<forall>key \<in> set keys. test_probes k (bytes * 8) (bloom_delta (BloomHash key)) (BloomHash key)
         (foldl (bloom_add k (bytes * 8)) arr keys))"
  using assms(2)
proof (induction keys arbitrary: arr)
  case (Cons key keys)
  let ?arr = "bloom_add k (bytes * 8) arr key"
  have len: "length ?arr = bytes + 1" using Cons.prems by (simp add: bloom_add_def Let_def)
  note IH = Cons.IH [OF len]
  have cov: "covers ?arr arr" by (simp add: bloom_add_def Let_def set_probes_covers)
  have "?arr ! bytes = arr ! bytes"
    using set_probes_last [OF assms(1) Cons.prems] by (simp add: bloom_add_def Let_def)
  moreover have "test_probes k (bytes * 8) (bloom_delta (BloomHash key)) (BloomHash key) ?arr"
    using test_set_probes [OF assms(1)] Cons.prems by (simp add: bloom_add_def Let_def)
  then have "test_probes k (bytes * 8) (bloom_delta (BloomHash key)) (BloomHash key)
      (foldl (bloom_add k (bytes * 8)) ?arr keys)"
    using test_probes_covers [OF assms(1), of ?arr "foldl (bloom_add k (bytes * 8)) ?arr keys"] IH len by simp
  ultimately show ?case using IH covers_trans [OF _ cov] by simp
qed simp

lemma bloom_k: "bl_k (BloomFilterPolicy_new b) \<le> 30" "1 \<le> bl_k (BloomFilterPolicy_new b)"
  by (simp_all add: BloomFilterPolicy_new_def Let_def)

lemma bloom_matches:
  assumes "key \<in> set keys" and "bl_k bp \<le> 30"
  shows "bloom_KeyMayMatch key (bloom_CreateFilter bp keys [])"
proof -
  define bytes where "bytes = ((if length keys * bl_bits_per_key bp < 64 then 64
    else length keys * bl_bits_per_key bp) + 7) div 8"
  have pos: "0 < bytes" by (auto simp: bytes_def)
  let ?arr = "replicate bytes 0 @ [word_of_nat (bl_k bp)]"
  define f where "f = foldl (bloom_add (bl_k bp) (bytes * 8)) ?arr keys"
  have f: "bloom_CreateFilter bp keys [] = f"
    by (simp add: bloom_CreateFilter_def f_def bytes_def bloom_add_def [abs_def] Let_def)
  have len: "length ?arr = bytes + 1" by simp
  note fold = bloom_fold [OF pos len, of "bl_k bp" keys, folded f_def]
  then have "f ! bytes = word_of_nat (bl_k bp)" by (simp add: nth_append)
  then have "unat (f ! bytes) = bl_k bp" using assms(2) by simp
  then show ?thesis using fold assms pos by (auto simp: f bloom_KeyMayMatch_def Let_def)
qed

interpretation bloom: filter_policy "NewBloomFilterPolicy bits_per_key" for bits_per_key
proof unfold_locales
  fix keys dst
  show "fp_CreateFilter (NewBloomFilterPolicy bits_per_key) keys dst
    = dst @ fp_CreateFilter (NewBloomFilterPolicy bits_per_key) keys []"
    by (simp add: NewBloomFilterPolicy_def bloom_CreateFilter_def Let_def)
qed (simp add: NewBloomFilterPolicy_def bloom_matches bloom_k)

text \<open>A policy over user keys gives one over internal keys.\<close>

context filter_policy
begin

lemma internal_policy: "filter_policy (InternalFilterPolicy P)"
proof unfold_locales
  fix keys dst
  show "fp_CreateFilter (InternalFilterPolicy P) keys dst = dst @ fp_CreateFilter (InternalFilterPolicy P) keys []"
    unfolding InternalFilterPolicy_def FilterPolicy.simps by (rule appends)
qed (simp add: InternalFilterPolicy_def matches)

end

interpretation internal_bloom: filter_policy "InternalFilterPolicy (NewBloomFilterPolicy bits_per_key)" for bits_per_key
  by (rule bloom.internal_policy)

section \<open>Arrays of fixed-width integers\<close>

lemma foldl_PutFixed32: "foldl PutFixed32 dst ws = dst @ concat (map EncodeFixed32 ws)"
  by (induction ws arbitrary: dst) (auto simp: PutFixed32_def)

lemma length_fixed32s [simp]: "length (concat (map EncodeFixed32 ws)) = 4 * length ws"
  by (induction ws) auto

lemma drop_fixed32s: "i \<le> length ws \<Longrightarrow> drop (4 * i) (concat (map EncodeFixed32 ws)) = concat (map EncodeFixed32 (drop i ws))"
proof (induction ws arbitrary: i)
  case (Cons w ws)
  then show ?case by (cases i) auto
qed simp

lemma DecodeFixed32_nth:
  assumes "i < length ws"
  shows "DecodeFixed32 (drop (4 * i) (concat (map EncodeFixed32 ws) @ rest)) = ws ! i"
proof -
  have "drop i ws = ws ! i # drop (Suc i) ws" using assms by (rule Cons_nth_drop_Suc [symmetric])
  then show ?thesis using assms by (simp add: drop_fixed32s [of i] del: Cons_nth_drop_Suc)
qed

section \<open>What a filter block holds\<close>

lemma length_concat_take_Suc:
  "i < length xs \<Longrightarrow> length (concat (take (Suc i) xs)) = length (concat (take i xs)) + length (xs ! i)"
  by (simp add: take_Suc_conv_app_nth)

lemma take_drop_concat:
  assumes "i < length xs"
  shows "take (length (concat (take (Suc i) xs)) - length (concat (take i xs)))
    (drop (length (concat (take i xs))) (concat xs)) = xs ! i"
proof -
  have "concat xs = concat (take i xs) @ xs ! i @ concat (drop (Suc i) xs)"
    using id_take_nth_drop [OF assms] by (metis concat.simps(2) concat_append)
  then show ?thesis by (simp add: length_concat_take_Suc [OF assms])
qed

definition filter_of :: "FilterPolicy \<Rightarrow> slice list \<Rightarrow> byte list" where
  "filter_of P ks = (if ks = [] then [] else fp_CreateFilter P ks [])"

definition filter_offset :: "FilterPolicy \<Rightarrow> slice list list \<Rightarrow> nat \<Rightarrow> nat" where
  "filter_offset P gs i = length (concat (map (filter_of P) (take i gs)))"

text \<open>The groups of keys that have their filter, and the keys that wait for one.\<close>

definition filter_rep :: "FilterPolicy \<Rightarrow> slice list list \<Rightarrow> slice list \<Rightarrow> FilterBlockBuilder \<Rightarrow> bool" where
  "filter_rep P gs ps b \<longleftrightarrow>
     fb_result b = concat (map (filter_of P) gs)
     \<and> fb_filter_offsets b = map (\<lambda>i. word_of_nat (filter_offset P gs i)) [0..<length gs]
     \<and> fb_keys b = concat ps \<and> fb_start b = map (\<lambda>i. length (concat (take i ps))) [0..<length ps]"

lemma filter_rep_new: "filter_rep P [] [] FilterBlockBuilder_new"
  by (simp add: filter_rep_def FilterBlockBuilder_new_def)

lemma filter_rep_AddKey: "filter_rep P gs ps b \<Longrightarrow> filter_rep P gs (ps @ [key]) (AddKey key b)"
  by (simp add: filter_rep_def AddKey_def)

lemma tmp_keys_eq:
  "map (\<lambda>i. take ((map (\<lambda>i. length (concat (take i ps))) [0..<length ps] @ [length (concat ps)]) ! (i + 1)
      - (map (\<lambda>i. length (concat (take i ps))) [0..<length ps] @ [length (concat ps)]) ! i)
      (drop ((map (\<lambda>i. length (concat (take i ps))) [0..<length ps] @ [length (concat ps)]) ! i) (concat ps)))
    [0..<length ps] = ps"
proof -
  have "map (\<lambda>i. length (concat (take i ps))) [0..<length ps] @ [length (concat ps)]
      = map (\<lambda>i. length (concat (take i ps))) [0..<Suc (length ps)]" by simp
  then show ?thesis by (intro nth_equalityI) (simp_all add: take_drop_concat nth_append del: upt_Suc)
qed

context filter_policy
begin

lemma filter_rep_Generate:
  assumes "filter_rep P gs ps b"
  shows "filter_rep P (gs @ [ps]) [] (GenerateFilter P b)"
proof -
  have offs: "map (\<lambda>i. word_of_nat (filter_offset P (gs @ [ps]) i)) [0..<length (gs @ [ps])]
      = map (\<lambda>i. word_of_nat (filter_offset P gs i)) [0..<length gs]
        @ [word_of_nat (length (concat (map (filter_of P) gs))) :: 32 word]"
    by (simp add: filter_offset_def)
  show ?thesis
  proof (cases "ps = []")
    case True
    then show ?thesis using assms offs by (simp add: filter_rep_def GenerateFilter_def filter_of_def)
  next
    case False
    then show ?thesis
      using assms offs appends [of ps "concat (map (filter_of P) gs)"] tmp_keys_eq [of ps]
      by (simp add: filter_rep_def GenerateFilter_def Let_def filter_of_def)
  qed
qed

lemma filter_rep_up_to:
  "filter_rep P gs ps b \<Longrightarrow> length gs \<le> n \<Longrightarrow>
     \<exists>gs' ps'. filter_rep P gs' ps' (generate_up_to P n b) \<and> length gs' = n
       \<and> (\<forall>i < length gs' + 1. i < length gs + 1 \<longrightarrow> (gs' @ [ps']) ! i = (gs @ [ps]) ! i)"
proof (induction "n - length gs" arbitrary: gs ps b)
  case 0
  then have "length (fb_filter_offsets b) = n" by (simp add: filter_rep_def)
  then have "generate_up_to P n b = b" by (simp add: generate_up_to.simps [of P n b])
  then show ?case using 0 by (intro exI [of _ gs] exI [of _ ps]) simp
next
  case (Suc d)
  then have less: "length (fb_filter_offsets b) < n" by (simp add: filter_rep_def)
  from Suc.hyps(1) [OF _ filter_rep_Generate [OF Suc.prems(1)]] Suc.hyps(2)
  obtain gs' ps' where "filter_rep P gs' ps' (generate_up_to P n (GenerateFilter P b))" "length gs' = n"
    "\<forall>i < length gs' + 1. i < length (gs @ [ps]) + 1 \<longrightarrow> (gs' @ [ps']) ! i = (gs @ [ps] @ [[]]) ! i" by fastforce
  then show ?case
    using less by (intro exI [of _ gs'] exI [of _ ps']) (auto simp: generate_up_to.simps [of P n b] nth_append)
qed

end

text \<open>The contents of the block that the builder returns.\<close>

definition filter_block :: "FilterPolicy \<Rightarrow> slice list list \<Rightarrow> byte list" where
  "filter_block P gs =
     concat (map (filter_of P) gs)
     @ concat (map EncodeFixed32 (map (\<lambda>i. word_of_nat (filter_offset P gs i)) [0..<Suc (length gs)]))
     @ [word_of_nat kFilterBaseLg]"

lemma filter_offset_all: "filter_offset P gs (length gs) = length (concat (map (filter_of P) gs))"
  by (simp add: filter_offset_def)

lemma length_filter_block:
  "length (filter_block P gs) = filter_offset P gs (length gs) + 4 * length gs + 5"
  by (simp add: filter_block_def filter_offset_all del: upt_Suc map_map)

lemma filter_offset_Suc:
  "i < length gs \<Longrightarrow> filter_offset P gs (Suc i) = filter_offset P gs i + length (filter_of P (gs ! i))"
  by (simp add: filter_offset_def take_Suc_conv_app_nth)

lemma filter_offset_le: "filter_offset P gs i \<le> filter_offset P gs (length gs)"
proof -
  have "concat (map (filter_of P) gs) = concat (map (filter_of P) (take i gs)) @ concat (map (filter_of P) (drop i gs))"
    by (metis append_take_drop_id concat_append map_append)
  then show ?thesis by (simp add: filter_offset_def)
qed

lemma filter_at_offset:
  "i < length gs \<Longrightarrow>
     take (filter_offset P gs (Suc i) - filter_offset P gs i) (drop (filter_offset P gs i) (concat (map (filter_of P) gs)))
       = filter_of P (gs ! i)"
  using take_drop_concat [of i "map (filter_of P) gs"] by (simp add: filter_offset_def take_map)

context filter_policy
begin

lemma filter_rep_Finish:
  assumes "filter_rep P gs ps b"
  shows "fst (Filter_Finish P b) = filter_block P (if ps = [] then gs else gs @ [ps])"
proof -
  have finish: "fst (Filter_Finish P b) = filter_block P gs" if "filter_rep P gs [] b" for b gs
    using that by (simp add: Filter_Finish_def filter_rep_def filter_block_def foldl_PutFixed32 filter_offset_all
        PutFixed32_def Let_def)
  show ?thesis
  proof (cases "ps = []")
    case True
    with assms finish show ?thesis by simp
  next
    case False
    then have "fb_start b \<noteq> []" using assms by (simp add: filter_rep_def)
    moreover have "fst (Filter_Finish P (GenerateFilter P b)) = filter_block P (gs @ [ps])"
      by (rule finish [OF filter_rep_Generate [OF assms]])
    moreover have "fb_start (GenerateFilter P b) = []"
      using filter_rep_Generate [OF assms] by (simp add: filter_rep_def)
    ultimately show ?thesis using False by (simp add: Filter_Finish_def Let_def)
  qed
qed

text \<open>The reader asks the filter of the group to which the offset of the data block belongs.\<close>

lemma reader_exact:
  assumes "length (filter_block P gs) < 2 ^ 32"
  shows "Filter_KeyMayMatch P (FilterBlockReader_new (filter_block P gs)) block_offset key
    = (if unat block_offset div kFilterBase < length gs
       then fp_KeyMayMatch P key (filter_of P (gs ! (unat block_offset div kFilterBase))) else True)"
proof -
  define m where "m = length gs"
  let ?ws = "map (\<lambda>i. word_of_nat (filter_offset P gs i) :: 32 word) [0..<Suc m]"
  let ?data = "concat (map (filter_of P) gs)"
  have c: "filter_block P gs = ?data @ concat (map EncodeFixed32 ?ws) @ [word_of_nat kFilterBaseLg]"
    by (simp only: filter_block_def m_def)
  have len: "length (filter_block P gs) = length ?data + 4 * m + 5"
    by (simp only: length_filter_block filter_offset_all m_def)
  have small: "unat (word_of_nat (filter_offset P gs i) :: 32 word) = filter_offset P gs i" for i
  proof -
    have "filter_offset P gs i < 2 ^ 32"
      using filter_offset_le [of P gs i] assms unfolding length_filter_block by linarith
    then show ?thesis by (simp add: unsigned_of_nat take_bit_nat_eq_self)
  qed
  have at: "unat (DecodeFixed32 (drop (length ?data + 4 * i) (filter_block P gs))) = filter_offset P gs i"
    if "i < Suc m" for i
  proof -
    have "drop (length ?data + 4 * i) (filter_block P gs)
        = drop (4 * i) (concat (map EncodeFixed32 ?ws) @ [word_of_nat kFilterBaseLg])"
      unfolding c by (simp del: upt_Suc map_map concat_append)
    moreover have "DecodeFixed32 (drop (4 * i) (concat (map EncodeFixed32 ?ws) @ [word_of_nat kFilterBaseLg])) = ?ws ! i"
      by (rule DecodeFixed32_nth) (simp only: length_map length_upt that diff_zero)
    moreover have "?ws ! i = word_of_nat (filter_offset P gs i)" using that by (simp del: upt_Suc)
    ultimately show ?thesis using small by (simp only:)
  qed
  have last_word: "unat (DecodeFixed32 (drop (length (filter_block P gs) - 5) (filter_block P gs))) = length ?data"
    using at [of m] by (simp add: len m_def filter_offset_all)
  have lg: "filter_block P gs ! (length (filter_block P gs) - 1) = word_of_nat kFilterBaseLg"
  proof -
    have "last (filter_block P gs) = word_of_nat kFilterBaseLg" by (simp add: c)
    moreover have "filter_block P gs \<noteq> []" using len by auto
    ultimately show ?thesis by (simp add: last_conv_nth)
  qed
  have index: "unat (drop_bit (unat (scast (word_of_nat kFilterBaseLg :: byte) :: 64 word)) block_offset)
      = unat block_offset div kFilterBase"
    by (simp add: kFilterBaseLg_def kFilterBase_def unat_drop_bit)
  have reader: "FilterBlockReader_new (filter_block P gs) =
      \<lparr> fr_data = filter_block P gs, fr_offset = length ?data, fr_num = m,
        fr_base_lg = scast (word_of_nat kFilterBaseLg :: byte) \<rparr>"
    unfolding FilterBlockReader_new_def Let_def lg last_word by (simp add: len)
  show ?thesis
  proof (cases "unat block_offset div kFilterBase < m")
    case True
    let ?i = "unat block_offset div kFilterBase"
    have le: "filter_offset P gs ?i \<le> filter_offset P gs (Suc ?i)" "filter_offset P gs (Suc ?i) \<le> length ?data"
      using filter_offset_Suc [of ?i gs P] filter_offset_le [of P gs "Suc ?i"] True by (simp_all add: m_def filter_offset_all)
    have "take (filter_offset P gs (Suc ?i) - filter_offset P gs ?i) (drop (filter_offset P gs ?i) (filter_block P gs))
        = filter_of P (gs ! ?i)"
      using filter_at_offset [of ?i gs P] le True by (simp add: c m_def del: upt_Suc)
    moreover have "unat (DecodeFixed32 (drop (length ?data + (4 * ?i + 4)) (filter_block P gs))) = filter_offset P gs (Suc ?i)"
      using at [of "Suc ?i"] True by (simp only: mult_Suc_right add.commute [of 4] Suc_less_eq)
    ultimately show ?thesis
      using at [of ?i] le True
      by (simp add: Filter_KeyMayMatch_def reader index Let_def m_def mult.commute add.assoc del: drop_drop)
  next
    case False
    then show ?thesis by (simp add: Filter_KeyMayMatch_def reader index Let_def m_def)
  qed
qed

text \<open>The calls of a table builder: a data block is started, then its keys are added.\<close>

end

definition add_block :: "FilterPolicy \<Rightarrow> FilterBlockBuilder \<Rightarrow> 64 word \<times> slice list \<Rightarrow> FilterBlockBuilder" where
  "add_block P b blk = foldl (\<lambda>b key. AddKey key b) (StartBlock P (fst blk) b) (snd blk)"

definition build_filter_block :: "FilterPolicy \<Rightarrow> (64 word \<times> slice list) list \<Rightarrow> slice" where
  "build_filter_block P blocks = fst (Filter_Finish P (foldl (add_block P) FilterBlockBuilder_new blocks))"

lemma filter_rep_AddKeys: "filter_rep P gs ps b \<Longrightarrow> filter_rep P gs (ps @ keys) (foldl (\<lambda>b key. AddKey key b) b keys)"
proof (induction keys arbitrary: ps b)
  case (Cons key keys)
  from Cons.IH [OF filter_rep_AddKey [OF Cons.prems, of key]] show ?case by simp
qed simp

context filter_policy
begin

lemma filter_rep_add_blocks:
  assumes "filter_rep P gs ps b" and "sorted (map (\<lambda>blk. unat (fst blk)) blocks)"
    and "\<And>blk. blk \<in> set blocks \<Longrightarrow> length gs \<le> unat (fst blk) div kFilterBase"
  shows "\<exists>gs' ps'. filter_rep P gs' ps' (foldl (add_block P) b blocks) \<and> length gs \<le> length gs'
    \<and> (\<forall>i \<le> length gs. set ((gs @ [ps]) ! i) \<subseteq> set ((gs' @ [ps']) ! i))
    \<and> (\<forall>(off, keys) \<in> set blocks. unat off div kFilterBase \<le> length gs'
        \<and> set keys \<subseteq> set ((gs' @ [ps']) ! (unat off div kFilterBase)))"
  using assms
proof (induction blocks arbitrary: gs ps b)
  case Nil
  then show ?case by (intro exI [of _ gs] exI [of _ ps]) simp
next
  case (Cons blk blocks)
  obtain off keys where blk: "blk = (off, keys)" by (cases blk)
  let ?n = "unat off div kFilterBase"
  have n: "length gs \<le> ?n" using Cons.prems(3) [of blk] by (simp add: blk)
  from filter_rep_up_to [OF Cons.prems(1) n] obtain gs1 ps1 where r1:
    "filter_rep P gs1 ps1 (StartBlock P off b)" "length gs1 = ?n"
    "\<forall>i < length gs1 + 1. i < length gs + 1 \<longrightarrow> (gs1 @ [ps1]) ! i = (gs @ [ps]) ! i" by (auto simp: StartBlock_def)
  have r2: "filter_rep P gs1 (ps1 @ keys) (add_block P b blk)"
    using filter_rep_AddKeys [OF r1(1)] by (simp add: add_block_def blk)
  have later: "length gs1 \<le> unat (fst blk') div kFilterBase" if "blk' \<in> set blocks" for blk'
    using Cons.prems(2) that r1(2) by (auto simp: blk div_le_mono)
  have "sorted (map (\<lambda>blk. unat (fst blk)) blocks)" using Cons.prems(2) by simp
  from Cons.IH [OF r2 this later] obtain gs' ps' where r3:
    "filter_rep P gs' ps' (foldl (add_block P) (add_block P b blk) blocks)" "length gs1 \<le> length gs'"
    "\<forall>i \<le> length gs1. set ((gs1 @ [ps1 @ keys]) ! i) \<subseteq> set ((gs' @ [ps']) ! i)"
    "\<forall>(off, keys) \<in> set blocks. unat off div kFilterBase \<le> length gs'
        \<and> set keys \<subseteq> set ((gs' @ [ps']) ! (unat off div kFilterBase))" by blast
  have step: "set ((gs @ [ps]) ! i) \<subseteq> set ((gs1 @ [ps1 @ keys]) ! i)" if "i \<le> length gs" for i
  proof -
    have "(gs1 @ [ps1]) ! i = (gs @ [ps]) ! i" using r1(2,3) n that by auto
    moreover have "set ((gs1 @ [ps1]) ! i) \<subseteq> set ((gs1 @ [ps1 @ keys]) ! i)"
      using that n r1(2) by (cases "i = length gs1") (auto simp: nth_append)
    ultimately show ?thesis by simp
  qed
  show ?case
  proof (intro exI [of _ gs'] exI [of _ ps'] conjI)
    show "filter_rep P gs' ps' (foldl (add_block P) b (blk # blocks))" using r3(1) by simp
    show "length gs \<le> length gs'" using n r1(2) r3(2) by simp
    show "\<forall>i \<le> length gs. set ((gs @ [ps]) ! i) \<subseteq> set ((gs' @ [ps']) ! i)"
      using step r3(3) n r1(2) by (intro allI impI subset_trans [OF step]) auto
    have "set keys \<subseteq> set ((gs1 @ [ps1 @ keys]) ! ?n)" using r1(2) by (simp add: nth_append)
    then show "\<forall>(off, keys) \<in> set (blk # blocks). unat off div kFilterBase \<le> length gs'
        \<and> set keys \<subseteq> set ((gs' @ [ps']) ! (unat off div kFilterBase))"
      using r3(2,3,4) r1(2) by (auto simp: blk)
  qed
qed

text \<open>A query that the policy matches whenever the key was in the list.\<close>

lemma filter_block_matches:
  assumes "sorted (map (\<lambda>blk. unat (fst blk)) blocks)" and "length (build_filter_block P blocks) < 2 ^ 32"
    and "(off, keys) \<in> set blocks" and "key \<in> set keys"
    and same: "\<And>ks. key \<in> set ks \<Longrightarrow> fp_KeyMayMatch P q (fp_CreateFilter P ks [])"
  shows "Filter_KeyMayMatch P (FilterBlockReader_new (build_filter_block P blocks)) off q"
proof -
  from filter_rep_add_blocks [OF filter_rep_new assms(1)] obtain gs ps where r:
    "filter_rep P gs ps (foldl (add_block P) FilterBlockBuilder_new blocks)"
    "\<forall>(off, keys) \<in> set blocks. unat off div kFilterBase \<le> length gs
        \<and> set keys \<subseteq> set ((gs @ [ps]) ! (unat off div kFilterBase))" by auto
  let ?i = "unat off div kFilterBase" let ?gs = "if ps = [] then gs else gs @ [ps]"
  have block: "build_filter_block P blocks = filter_block P ?gs"
    using filter_rep_Finish [OF r(1)] by (simp add: build_filter_block_def)
  have i: "?i \<le> length gs" "key \<in> set ((gs @ [ps]) ! ?i)" using r(2) assms(3,4) by auto
  have at: "?i < length ?gs \<and> key \<in> set (?gs ! ?i)"
    using i by (cases "?i = length gs"; cases "ps = []") (auto simp: nth_append)
  then have "fp_KeyMayMatch P q (filter_of P (?gs ! ?i))"
    using same by (auto simp: filter_of_def)
  then show ?thesis using reader_exact [of ?gs off q] assms(2) at by (simp only: block if_True)
qed

end

end
