(* ===== verification/Ldb_Table.thy ===== *)
theory Ldb_Table
  imports Ldb_Format Ldb_Filter
begin

text \<open>
  Building a table file (\<^verbatim>\<open>table/table_builder.cc\<close>) and looking keys up in it (\<^verbatim>\<open>table/table.cc\<close>), for
  options without a block cache. A result \<open>None\<close> means that a search does not return or that the
  code would read outside a buffer.
\<close>

text \<open>
  The options of a database, without the pointers to the environment, the text log and the block cache.
\<close>

record Options =
  opt_comparator :: Comparator
  opt_create_if_missing :: bool
  opt_error_if_exists :: bool
  opt_paranoid_checks :: bool
  opt_write_buffer_size :: nat
  opt_max_open_files :: int
  opt_block_size :: nat
  opt_block_restart_interval :: nat
  opt_max_file_size :: nat
  opt_compression :: CompressionType
  opt_reuse_logs :: bool
  opt_filter_policy :: "FilterPolicy option"

definition Options_new :: Options where
  "Options_new =
     \<lparr> opt_comparator = BytewiseComparator, opt_create_if_missing = False, opt_error_if_exists = False,
       opt_paranoid_checks = False, opt_write_buffer_size = 4 * 2 ^ 20, opt_max_open_files = 1000,
       opt_block_size = 4096, opt_block_restart_interval = 16, opt_max_file_size = 2 * 2 ^ 20,
       opt_compression = kSnappyCompression, opt_reuse_logs = False, opt_filter_policy = None \<rparr>"

definition InvalidArgument :: "string \<Rightarrow> Status" where
  "InvalidArgument msg = make_Status kInvalidArgument msg []"

section \<open>The builder\<close>

text \<open>
  The members of \<^verbatim>\<open>TableBuilder::Rep\<close>; the builder of the filter block is there with its policy. The
  string \<^verbatim>\<open>compressed_output\<close> is empty between operations.
\<close>

record 'f TableBuilder =
  tb_options :: Options
  tb_index_block_options :: Options
  tb_file :: 'f
  tb_offset :: "64 word"
  tb_status :: Status
  tb_data_block :: BlockBuilder
  tb_index_block :: BlockBuilder
  tb_last_key :: slice
  tb_num_entries :: nat
  tb_closed :: bool
  tb_filter_block :: "(FilterPolicy \<times> FilterBlockBuilder) option"
  tb_pending_index_entry :: bool
  tb_pending_handle :: BlockHandle

definition TableBuilder_new :: "Options \<Rightarrow> 'f \<Rightarrow> 'f TableBuilder" where
  "TableBuilder_new options f =
     \<lparr> tb_options = options, tb_index_block_options = options\<lparr> opt_block_restart_interval := 1 \<rparr>,
       tb_file = f, tb_offset = 0, tb_status = StatusOK, tb_data_block = BlockBuilder_new,
       tb_index_block = BlockBuilder_new, tb_last_key = [], tb_num_entries = 0, tb_closed = False,
       tb_filter_block = map_option (\<lambda>p. (p, StartBlock p 0 FilterBlockBuilder_new)) (opt_filter_policy options),
       tb_pending_index_entry = False, tb_pending_handle = BlockHandle_new \<rparr>"

text \<open>Two comparators are the same object when they are equal here; the test is a parameter.\<close>

definition ChangeOptions :: "bool \<Rightarrow> Options \<Rightarrow> 'f TableBuilder \<Rightarrow> Status \<times> 'f TableBuilder" where
  "ChangeOptions same_comparator options r =
     (if \<not> same_comparator then (InvalidArgument ''changing comparator while building table'', r)
      else (StatusOK, r\<lparr> tb_options := options,
              tb_index_block_options := options\<lparr> opt_block_restart_interval := 1 \<rparr> \<rparr>))"

definition WriteRawBlock ::
    "'f WritableFile \<Rightarrow> slice \<Rightarrow> CompressionType \<Rightarrow> 'f TableBuilder \<Rightarrow> BlockHandle \<times> 'f TableBuilder" where
  "WriteRawBlock ops block_contents type r =
     (let handle = \<lparr> bh_offset = tb_offset r, bh_size = word_of_nat (length block_contents) \<rparr>;
          (s, f) = wf_Append ops block_contents (tb_file r); r = r\<lparr> tb_status := s, tb_file := f \<rparr>
      in if status_ok s
         then let trailer = [compression_code type];
                  crc = Extend 0 (crc_Value 0 block_contents) trailer;
                  trailer = trailer @ EncodeFixed32 (Mask crc);
                  (s, f) = wf_Append ops trailer (tb_file r); r = r\<lparr> tb_status := s, tb_file := f \<rparr>
              in if status_ok s
                 then (handle, r\<lparr> tb_offset := tb_offset r + word_of_nat (length block_contents + kBlockTrailerSize) \<rparr>)
                 else (handle, r)
         else (handle, r))"

definition WriteBlock ::
    "'f WritableFile \<Rightarrow> BlockBuilder \<Rightarrow> 'f TableBuilder \<Rightarrow> BlockBuilder \<times> BlockHandle \<times> 'f TableBuilder" where
  "WriteBlock ops block r =
     (let (raw, block) = BlockBuilder_Finish block;
          (block_contents, type) =
            (case opt_compression (tb_options r) of
               kNoCompression \<Rightarrow> (raw, kNoCompression)
             | kSnappyCompression \<Rightarrow>
                 (case Snappy_Compress raw of
                    Some compressed \<Rightarrow>
                      if length compressed < length raw - length raw div 8 then (compressed, kSnappyCompression)
                      else (raw, kNoCompression)
                  | None \<Rightarrow> (raw, kNoCompression)));
          (handle, r) = WriteRawBlock ops block_contents type r
      in (BlockBuilder_Reset block, handle, r))"

definition tb_ok :: "'f TableBuilder \<Rightarrow> bool" where
  "tb_ok r \<longleftrightarrow> status_ok (tb_status r)"

definition TableBuilder_Flush :: "'f WritableFile \<Rightarrow> 'f TableBuilder \<Rightarrow> 'f TableBuilder" where
  "TableBuilder_Flush ops r =
     (if \<not> tb_ok r then r
      else if BlockBuilder_empty (tb_data_block r) then r
      else let (block, handle, r) = WriteBlock ops (tb_data_block r) r;
               r = r\<lparr> tb_data_block := block, tb_pending_handle := handle \<rparr>;
               r = (if tb_ok r
                    then let (s, f) = wf_Flush ops (tb_file r)
                         in r\<lparr> tb_pending_index_entry := True, tb_status := s, tb_file := f \<rparr>
                    else r)
           in r\<lparr> tb_filter_block := map_option (\<lambda>(p, b). (p, StartBlock p (tb_offset r) b)) (tb_filter_block r) \<rparr>)"

text \<open>The entry of the index for the block that was flushed last, under a key behind its last one.\<close>

definition add_index_entry :: "slice \<Rightarrow> 'f TableBuilder \<Rightarrow> 'f TableBuilder" where
  "add_index_entry key r =
     r\<lparr> tb_last_key := key,
        tb_index_block := BlockBuilder_Add (opt_block_restart_interval (tb_index_block_options r)) key
          (BlockHandle_EncodeTo [] (tb_pending_handle r)) (tb_index_block r),
        tb_pending_index_entry := False \<rparr>"

definition TableBuilder_Add :: "'f WritableFile \<Rightarrow> slice \<Rightarrow> slice \<Rightarrow> 'f TableBuilder \<Rightarrow> 'f TableBuilder" where
  "TableBuilder_Add ops key val r =
     (if \<not> tb_ok r then r
      else let r = (if tb_pending_index_entry r
                    then add_index_entry (cmp_FindShortestSeparator (opt_comparator (tb_options r)) (tb_last_key r) key) r
                    else r);
               r = r\<lparr> tb_filter_block := map_option (\<lambda>(p, b). (p, AddKey key b)) (tb_filter_block r),
                     tb_last_key := key, tb_num_entries := tb_num_entries r + 1,
                     tb_data_block := BlockBuilder_Add (opt_block_restart_interval (tb_options r)) key val (tb_data_block r) \<rparr>
           in if opt_block_size (tb_options r) \<le> CurrentSizeEstimate (tb_data_block r)
              then TableBuilder_Flush ops r else r)"

definition write_filter_block :: "'f WritableFile \<Rightarrow> 'f TableBuilder \<Rightarrow> BlockHandle \<times> 'f TableBuilder" where
  "write_filter_block ops r =
     (case tb_filter_block r of
        None \<Rightarrow> (BlockHandle_new, r)
      | Some (p, b) \<Rightarrow>
          if tb_ok r
          then let (contents, b) = Filter_Finish p b
               in WriteRawBlock ops contents kNoCompression (r\<lparr> tb_filter_block := Some (p, b) \<rparr>)
          else (BlockHandle_new, r))"

definition write_metaindex_block ::
    "'f WritableFile \<Rightarrow> BlockHandle \<Rightarrow> 'f TableBuilder \<Rightarrow> BlockHandle \<times> 'f TableBuilder" where
  "write_metaindex_block ops filter_handle r =
     (if tb_ok r
      then let meta = BlockBuilder_new;
               meta = (case tb_filter_block r of
                   None \<Rightarrow> meta
                 | Some _ \<Rightarrow>
                     let name = (case opt_filter_policy (tb_options r) of None \<Rightarrow> [] | Some p \<Rightarrow> fp_Name p);
                         key = string_bytes (''filter.'' @ name)
                     in BlockBuilder_Add (opt_block_restart_interval (tb_options r)) key
                          (BlockHandle_EncodeTo [] filter_handle) meta);
               (_, handle, r) = WriteBlock ops meta r
           in (handle, r)
      else (BlockHandle_new, r))"

definition write_index_block :: "'f WritableFile \<Rightarrow> 'f TableBuilder \<Rightarrow> BlockHandle \<times> 'f TableBuilder" where
  "write_index_block ops r =
     (if tb_ok r
      then let r = (if tb_pending_index_entry r
                    then add_index_entry (cmp_FindShortSuccessor (opt_comparator (tb_options r)) (tb_last_key r)) r
                    else r);
               (block, handle, r) = WriteBlock ops (tb_index_block r) r
           in (handle, r\<lparr> tb_index_block := block \<rparr>)
      else (BlockHandle_new, r))"

definition write_footer ::
    "'f WritableFile \<Rightarrow> BlockHandle \<Rightarrow> BlockHandle \<Rightarrow> 'f TableBuilder \<Rightarrow> 'f TableBuilder" where
  "write_footer ops metaindex_handle index_handle r =
     (if tb_ok r
      then let footer_encoding = Footer_EncodeTo []
                 (Footer_new\<lparr> ft_metaindex_handle := metaindex_handle, ft_index_handle := index_handle \<rparr>);
               (s, f) = wf_Append ops footer_encoding (tb_file r); r = r\<lparr> tb_status := s, tb_file := f \<rparr>
           in if status_ok s then r\<lparr> tb_offset := tb_offset r + word_of_nat (length footer_encoding) \<rparr> else r
      else r)"

definition TableBuilder_Finish :: "'f WritableFile \<Rightarrow> 'f TableBuilder \<Rightarrow> Status \<times> 'f TableBuilder" where
  "TableBuilder_Finish ops r =
     (let r = TableBuilder_Flush ops r; r = r\<lparr> tb_closed := True \<rparr>;
          (filter_handle, r) = write_filter_block ops r;
          (metaindex_handle, r) = write_metaindex_block ops filter_handle r;
          (index_handle, r) = write_index_block ops r;
          r = write_footer ops metaindex_handle index_handle r
      in (tb_status r, r))"

definition Abandon :: "'f TableBuilder \<Rightarrow> 'f TableBuilder" where
  "Abandon r = r\<lparr> tb_closed := True \<rparr>"

definition NumEntries :: "'f TableBuilder \<Rightarrow> nat" where
  "NumEntries r = tb_num_entries r"

definition FileSize :: "'f TableBuilder \<Rightarrow> 64 word" where
  "FileSize r = tb_offset r"

section \<open>The reader\<close>

record 'f Table =
  t_options :: Options
  t_file :: 'f
  t_filter :: "(FilterPolicy \<times> FilterBlockReader) option"
  t_metaindex_handle :: BlockHandle
  t_index_block :: Block

definition ReadFilter ::
    "'f RandomAccessFile \<Rightarrow> FilterPolicy \<Rightarrow> slice \<Rightarrow> 'f Table \<Rightarrow> 'f Table option" where
  "ReadFilter ops p filter_handle_value t =
     (let (s, filter_handle, _) = BlockHandle_DecodeFrom filter_handle_value BlockHandle_new
      in if \<not> status_ok s then Some t
         else case ReadBlock ops (t_file t) (opt_paranoid_checks (t_options t)) filter_handle of
             None \<Rightarrow> None
           | Some (s, block) \<Rightarrow>
               if \<not> status_ok s then Some t
               else Some (t\<lparr> t_filter := Some (p, FilterBlockReader_new (bc_data block)) \<rparr>))"

definition ReadMeta :: "'f RandomAccessFile \<Rightarrow> Footer \<Rightarrow> 'f Table \<Rightarrow> 'f Table option" where
  "ReadMeta ops footer t =
     (case opt_filter_policy (t_options t) of
        None \<Rightarrow> Some t
      | Some p \<Rightarrow>
          (case ReadBlock ops (t_file t) (opt_paranoid_checks (t_options t)) (ft_metaindex_handle footer) of
             None \<Rightarrow> None
           | Some (s, contents) \<Rightarrow>
               if \<not> status_ok s then Some t
               else let iter_ops = BlockIterator BytewiseComparator;
                        iter = Block_NewIterator (Block_new (bc_data contents));
                        key = string_bytes (''filter.'' @ fp_Name p)
                    in case i_Seek iter_ops key iter of
                         None \<Rightarrow> None
                       | Some iter \<Rightarrow>
                           if i_Valid iter_ops iter \<and> slice_eq (i_key iter_ops iter) key
                           then ReadFilter ops p (i_value iter_ops iter) t else Some t))"

definition Table_Open ::
    "'f RandomAccessFile \<Rightarrow> Options \<Rightarrow> 'f \<Rightarrow> 64 word \<Rightarrow> (Status \<times> 'f Table option) option" where
  "Table_Open ops options f file_size =
     (if file_size < word_of_nat kEncodedLength then Some (Corruption ''file is too short to be an sstable'', None)
      else case raf_Read ops (file_size - word_of_nat kEncodedLength) (word_of_nat kEncodedLength) f of
          None \<Rightarrow> None
        | Some (footer_input, _, s) \<Rightarrow>
            if \<not> status_ok s then Some (s, None)
            else case Footer_DecodeFrom footer_input Footer_new of
                None \<Rightarrow> None
              | Some (s, footer, _) \<Rightarrow>
                  if \<not> status_ok s then Some (s, None)
                  else case ReadBlock ops f (opt_paranoid_checks options) (ft_index_handle footer) of
                      None \<Rightarrow> None
                    | Some (s, contents) \<Rightarrow>
                        if \<not> status_ok s then Some (s, None)
                        else map_option (\<lambda>t. (s, Some t))
                          (ReadMeta ops footer
                             \<lparr> t_options = options, t_file = f, t_filter = None,
                               t_metaindex_handle = ft_metaindex_handle footer,
                               t_index_block = Block_new (bc_data contents) \<rparr>))"

text \<open>The iterator over the block to which an entry of the index points; anything behind the handle is ignored.\<close>

definition BlockReader :: "'f RandomAccessFile \<Rightarrow> bool \<Rightarrow> slice \<Rightarrow> 'f Table \<Rightarrow> block_iterator option" where
  "BlockReader ops verify_checksums index_value t =
     (let (s, handle, _) = BlockHandle_DecodeFrom index_value BlockHandle_new
      in if \<not> status_ok s then Some (NoEntries (NewErrorIterator s))
         else case ReadBlock ops (t_file t) verify_checksums handle of
             None \<Rightarrow> None
           | Some (s, contents) \<Rightarrow>
               if status_ok s then Some (Block_NewIterator (Block_new (bc_data contents)))
               else Some (NoEntries (NewErrorIterator s)))"

text \<open>The entry that is passed to the callback \<^verbatim>\<open>saver\<close>, if any, and the status.\<close>

definition InternalGet ::
    "'f RandomAccessFile \<Rightarrow> bool \<Rightarrow> slice \<Rightarrow> 'f Table \<Rightarrow> (Status \<times> entry option) option" where
  "InternalGet ops verify_checksums k t =
     (let it_ops = BlockIterator (opt_comparator (t_options t))
      in case i_Seek it_ops k (Block_NewIterator (t_index_block t)) of
           None \<Rightarrow> None
         | Some iiter \<Rightarrow>
             if \<not> i_Valid it_ops iiter then Some (i_status it_ops iiter, None)
             else let handle_value = i_value it_ops iiter;
                      (s, handle, _) = BlockHandle_DecodeFrom handle_value BlockHandle_new
                  in if (case t_filter t of None \<Rightarrow> False
                         | Some (p, flt) \<Rightarrow> status_ok s \<and> \<not> Filter_KeyMayMatch p flt (bh_offset handle) k)
                     then Some (i_status it_ops iiter, None)
                     else case BlockReader ops verify_checksums handle_value t of
                         None \<Rightarrow> None
                       | Some block_iter \<Rightarrow>
                           (case i_Seek it_ops k block_iter of
                              None \<Rightarrow> None
                            | Some block_iter \<Rightarrow>
                                let found = (if i_Valid it_ops block_iter
                                             then Some (i_key it_ops block_iter, i_value it_ops block_iter) else None);
                                    s = i_status it_ops block_iter
                                in Some (if status_ok s then i_status it_ops iiter else s, found)))"

definition ApproximateOffsetOf :: "slice \<Rightarrow> 'f Table \<Rightarrow> 64 word option" where
  "ApproximateOffsetOf key t =
     (let it_ops = BlockIterator (opt_comparator (t_options t))
      in case i_Seek it_ops key (Block_NewIterator (t_index_block t)) of
           None \<Rightarrow> None
         | Some index_iter \<Rightarrow>
             Some (if i_Valid it_ops index_iter
                   then let (s, handle, _) = BlockHandle_DecodeFrom (i_value it_ops index_iter) BlockHandle_new
                        in if status_ok s then bh_offset handle else bh_offset (t_metaindex_handle t)
                   else bh_offset (t_metaindex_handle t)))"

end
