(* ===== verification/Ldb_Block_Spec.thy ===== *)
theory Ldb_Block_Spec
  imports Ldb_Block Ldb_Filter
begin

text \<open>
  The format of a block as a function of its entries, the proof that the builder produces it,
  and the proof that the iterator over it keeps the promise of iterators.
\<close>

section \<open>The format\<close>

text \<open>An entry with the number of bytes its key shares with the key before it.\<close>

type_synonym layout_entry = "nat \<times> slice \<times> slice"

fun entry_enc :: "layout_entry \<Rightarrow> byte list" where
  "entry_enc (s, k, v) =
     EncodeVarint32 (word_of_nat s) @ EncodeVarint32 (word_of_nat (length k - s))
       @ EncodeVarint32 (word_of_nat (length v)) @ drop s k @ v"

definition shared_of :: "layout_entry list \<Rightarrow> nat \<Rightarrow> nat" where
  "shared_of ents i = fst (ents ! i)"

definition key_of :: "layout_entry list \<Rightarrow> nat \<Rightarrow> slice" where
  "key_of ents i = fst (snd (ents ! i))"

definition val_of :: "layout_entry list \<Rightarrow> nat \<Rightarrow> slice" where
  "val_of ents i = snd (snd (ents ! i))"

definition offset_of :: "layout_entry list \<Rightarrow> nat \<Rightarrow> nat" where
  "offset_of ents i = length (concat (map entry_enc (take i ents)))"

definition shares_prefix :: "layout_entry list \<Rightarrow> nat \<Rightarrow> bool" where
  "shares_prefix ents i \<longleftrightarrow> shared_of ents i \<le> length (key_of ents i)
     \<and> (if i = 0 then shared_of ents i = 0
        else shared_of ents i \<le> length (key_of ents (i - 1))
          \<and> take (shared_of ents i) (key_of ents (i - 1)) = take (shared_of ents i) (key_of ents i))"

text \<open>The second list has the indices of the entries at the restart points.\<close>

definition good_layout :: "layout_entry list \<Rightarrow> nat list \<Rightarrow> bool" where
  "good_layout ents rs \<longleftrightarrow>
     (\<forall>i < length ents. shares_prefix ents i)
     \<and> rs \<noteq> [] \<and> rs ! 0 = 0 \<and> sorted_wrt (<) rs
     \<and> (\<forall>r \<in> set rs. r = 0 \<or> r < length ents) \<and> (\<forall>r \<in> set rs. r < length ents \<longrightarrow> shared_of ents r = 0)"

definition block_bytes :: "layout_entry list \<Rightarrow> nat list \<Rightarrow> byte list" where
  "block_bytes ents rs =
     concat (map entry_enc ents)
     @ concat (map EncodeFixed32 (map (\<lambda>r. word_of_nat (offset_of ents r)) rs @ [word_of_nat (length rs)]))"

lemma offset_of_all: "offset_of ents (length ents) = length (concat (map entry_enc ents))"
  by (simp add: offset_of_def)

lemma offset_of_0 [simp]: "offset_of ents 0 = 0"
  by (simp add: offset_of_def)

lemma offset_of_Suc: "i < length ents \<Longrightarrow> offset_of ents (Suc i) = offset_of ents i + length (entry_enc (ents ! i))"
  by (simp add: offset_of_def take_Suc_conv_app_nth)

lemma length_entry_enc: "3 \<le> length (entry_enc e)"
proof (cases e)
  case (fields s k v)
  have "1 \<le> length (EncodeVarint32 w)" for w using length_EncodeVarint32(2) [of w] by (cases "EncodeVarint32 w") auto
  from this [of "word_of_nat s"] this [of "word_of_nat (length k - s)"] this [of "word_of_nat (length v)"]
  show ?thesis unfolding fields entry_enc.simps length_append by linarith
qed

lemma offset_of_mono:
  assumes "i < j" and "j \<le> length ents"
  shows "offset_of ents i + 3 \<le> offset_of ents j"
  using assms
proof (induction j)
  case (Suc j)
  then have step: "offset_of ents (Suc j) = offset_of ents j + length (entry_enc (ents ! j))" by (simp add: offset_of_Suc)
  show ?case
  proof (cases "i = j")
    case True
    then show ?thesis using step length_entry_enc [of "ents ! j"] by simp
  next
    case False
    then show ?thesis using Suc step by simp
  qed
qed simp

lemma offset_of_less_iff: "i \<le> length ents \<Longrightarrow> j \<le> length ents \<Longrightarrow> offset_of ents i < offset_of ents j \<longleftrightarrow> i < j"
  using offset_of_mono [of i j ents] offset_of_mono [of j i ents] by (cases i j rule: linorder_cases) auto

lemma offset_of_append: "i \<le> length ents \<Longrightarrow> offset_of (ents @ es) i = offset_of ents i"
  by (simp add: offset_of_def)

lemma drop_offset:
  "i < length ents \<Longrightarrow> drop (offset_of ents i) (concat (map entry_enc ents))
     = entry_enc (ents ! i) @ drop (offset_of ents (Suc i)) (concat (map entry_enc ents))"
proof -
  assume i: "i < length ents"
  have eq: "concat (map entry_enc ents) = concat (map entry_enc (take i ents)) @ entry_enc (ents ! i) @ concat (map entry_enc (drop (Suc i) ents))"
    using id_take_nth_drop [OF i] by (metis concat.simps(2) concat_append list.simps(9) map_append)
  show ?thesis unfolding offset_of_Suc [OF i] unfolding offset_of_def by (subst (1 2) eq) simp
qed

section \<open>The builder produces the format\<close>

definition builder_rep :: "nat \<Rightarrow> layout_entry list \<Rightarrow> nat list \<Rightarrow> BlockBuilder \<Rightarrow> bool" where
  "builder_rep interval ents rs b \<longleftrightarrow>
     good_layout ents rs \<and> bb_buffer b = concat (map entry_enc ents)
     \<and> bb_restarts b = map (\<lambda>r. word_of_nat (offset_of ents r)) rs
     \<and> bb_last_key b = (if ents = [] then [] else key_of ents (length ents - 1))
     \<and> bb_counter b + last rs = length ents \<and> bb_counter b \<le> interval"

lemma builder_rep_new: "builder_rep interval [] [0] BlockBuilder_new"
  by (simp add: builder_rep_def BlockBuilder_new_def good_layout_def)

lemma builder_rep_Reset: "builder_rep interval [] [0] (BlockBuilder_Reset b)"
  by (simp add: builder_rep_def BlockBuilder_Reset_def good_layout_def)

lemma diff_index_le: "diff_index a b \<le> length a" "diff_index a b \<le> length b"
  by (induction a b rule: diff_index.induct) auto

lemma take_diff_index: "take (diff_index a b) a = take (diff_index a b) b"
  by (induction a b rule: diff_index.induct) auto

lemma layout_snoc:
  "i < length ents \<Longrightarrow> shared_of (ents @ es) i = shared_of ents i"
  "i < length ents \<Longrightarrow> key_of (ents @ es) i = key_of ents i"
  "shared_of (ents @ [(s, k, v)]) (length ents) = s" "key_of (ents @ [(s, k, v)]) (length ents) = k"
  by (simp_all add: shared_of_def key_of_def nth_append)

lemma shares_prefix_snoc: "i < length ents \<Longrightarrow> shares_prefix (ents @ es) i \<longleftrightarrow> shares_prefix ents i"
  by (auto simp: shares_prefix_def layout_snoc)

lemma good_layout_snoc:
  assumes "good_layout ents rs" and "s \<le> length k"
    and "ents = [] \<Longrightarrow> s = 0"
    and "ents \<noteq> [] \<Longrightarrow> s \<le> length (key_of ents (length ents - 1)) \<and> take s (key_of ents (length ents - 1)) = take s k"
  shows "good_layout (ents @ [(s, k, v)]) rs"
proof -
  have new: "shares_prefix (ents @ [(s, k, v)]) (length ents)"
  proof (cases "ents = []")
    case True
    then show ?thesis using assms(3) by (simp add: shares_prefix_def shared_of_def)
  next
    case False
    then show ?thesis using assms(2,4) by (simp add: shares_prefix_def layout_snoc)
  qed
  have "\<forall>i < length (ents @ [(s, k, v)]). shares_prefix (ents @ [(s, k, v)]) i"
    using new assms(1) shares_prefix_snoc by (auto simp: good_layout_def less_Suc_eq)
  moreover have "shared_of (ents @ [(s, k, v)]) r = 0" if "r \<in> set rs" "r < length (ents @ [(s, k, v)])" for r
  proof (cases "r < length ents")
    case True
    then show ?thesis using assms(1) that by (auto simp: good_layout_def layout_snoc)
  next
    case False
    then have "r = 0" "ents = []" using assms(1) that by (auto simp: good_layout_def)
    then show ?thesis using assms(3) by (simp add: shared_of_def)
  qed
  moreover have "\<forall>r \<in> set rs. r = 0 \<or> r < length (ents @ [(s, k, v)])"
    using assms(1) by (fastforce simp: good_layout_def)
  ultimately show ?thesis using assms(1) by (simp add: good_layout_def)
qed

lemma good_layout_restart:
  assumes "good_layout (ents @ [(0, k, v)]) rs" and "last rs < length ents"
  shows "good_layout (ents @ [(0, k, v)]) (rs @ [length ents])"
proof -
  have "r \<le> last rs" if "r \<in> set rs" for r
  proof -
    from that obtain i where i: "i < length rs" "rs ! i = r" by (auto simp: in_set_conv_nth)
    then have "rs \<noteq> []" by auto
    then have "last rs = rs ! (length rs - 1)" by (rule last_conv_nth)
    then show ?thesis using assms(1) i sorted_wrt_nth_less [of "(<)" rs i "length rs - 1"]
      by (cases "i < length rs - 1") (auto simp: good_layout_def not_less le_less_Suc_eq dest: le_antisym)
  qed
  then have "sorted_wrt (<) (rs @ [length ents])"
    using assms by (fastforce simp: good_layout_def sorted_wrt_append)
  then show ?thesis using assms(1) by (auto simp: good_layout_def layout_snoc nth_append)
qed

lemma builder_rep_Add:
  assumes "builder_rep interval ents rs b" and "1 \<le> interval"
  shows "\<exists>s rs'. builder_rep interval (ents @ [(s, key, val)]) rs' (BlockBuilder_Add interval key val b)"
proof (cases "bb_counter b < interval")
  case True
  let ?s = "diff_index (bb_last_key b) key"
  have "good_layout (ents @ [(?s, key, val)]) rs"
    by (rule good_layout_snoc)
      (use assms(1) diff_index_le [of "bb_last_key b" key] take_diff_index [of "bb_last_key b" key] in
        \<open>auto simp: builder_rep_def\<close>)
  moreover have "take ?s (bb_last_key b) @ drop ?s key = key"
    using take_diff_index [of "bb_last_key b" key] by simp
  moreover have "map (\<lambda>r. word_of_nat (offset_of (ents @ [(?s, key, val)]) r)) rs
      = (map (\<lambda>r. word_of_nat (offset_of ents r)) rs :: 32 word list)"
    using assms(1) by (auto simp: builder_rep_def good_layout_def offset_of_append)
  ultimately have "builder_rep interval (ents @ [(?s, key, val)]) rs (BlockBuilder_Add interval key val b)"
    using assms(1) True
    by (simp add: builder_rep_def BlockBuilder_Add_def PutVarint32_def layout_snoc)
  then show ?thesis by blast
next
  case False
  then have full: "bb_counter b = interval" using assms(1) by (simp add: builder_rep_def)
  then have ents: "last rs < length ents" "ents \<noteq> []" using assms by (auto simp: builder_rep_def)
  have "good_layout (ents @ [(0, key, val)]) rs"
    by (rule good_layout_snoc) (use assms(1) in \<open>auto simp: builder_rep_def\<close>)
  from good_layout_restart [OF this ents(1)]
  have "good_layout (ents @ [(0, key, val)]) (rs @ [length ents])" .
  moreover have "map (\<lambda>r. word_of_nat (offset_of (ents @ [(0, key, val)]) r)) (rs @ [length ents])
      = map (\<lambda>r. word_of_nat (offset_of ents r)) rs @ [word_of_nat (length (bb_buffer b)) :: 32 word]"
    using assms(1) by (auto simp: builder_rep_def good_layout_def offset_of_append offset_of_all)
  ultimately have "builder_rep interval (ents @ [(0, key, val)]) (rs @ [length ents]) (BlockBuilder_Add interval key val b)"
    using assms full
    by (simp add: builder_rep_def BlockBuilder_Add_def PutVarint32_def layout_snoc)
  then show ?thesis by blast
qed

lemma builder_rep_Finish:
  "builder_rep interval ents rs b \<Longrightarrow> fst (BlockBuilder_Finish b) = block_bytes ents rs"
  by (simp add: builder_rep_def BlockBuilder_Finish_def block_bytes_def foldl_PutFixed32 PutFixed32_def Let_def)

lemma builder_rep_Adds:
  "builder_rep interval ents rs b \<Longrightarrow> 1 \<le> interval \<Longrightarrow>
     \<exists>ents' rs'. builder_rep interval (ents @ ents') rs' (foldl (\<lambda>b (k, v). BlockBuilder_Add interval k v b) b kvs)
       \<and> map snd ents' = kvs"
proof (induction kvs arbitrary: ents rs b)
  case Nil
  then show ?case by (intro exI [of _ "[]"] exI [of _ rs]) simp
next
  case (Cons kv kvs)
  obtain k v where kv: "kv = (k, v)" by (cases kv)
  from builder_rep_Add [OF Cons.prems] obtain s rs1 where
    "builder_rep interval (ents @ [(s, k, v)]) rs1 (BlockBuilder_Add interval k v b)" by blast
  from Cons.IH [OF this Cons.prems(2)] obtain ents' rs' where
    "builder_rep interval ((ents @ [(s, k, v)]) @ ents') rs'
       (foldl (\<lambda>b (k, v). BlockBuilder_Add interval k v b) (BlockBuilder_Add interval k v b) kvs)"
    "map snd ents' = kvs" by blast
  then show ?case by (intro exI [of _ "(s, k, v) # ents'"] exI [of _ rs']) (simp add: kv)
qed

definition build_block :: "nat \<Rightarrow> entry list \<Rightarrow> slice" where
  "build_block interval kvs = fst (BlockBuilder_Finish (foldl (\<lambda>b (k, v). BlockBuilder_Add interval k v b) BlockBuilder_new kvs))"

lemma build_block_layout:
  "1 \<le> interval \<Longrightarrow> \<exists>ents rs. good_layout ents rs \<and> map snd ents = kvs \<and> build_block interval kvs = block_bytes ents rs"
  using builder_rep_Adds [OF builder_rep_new, of interval kvs] builder_rep_Finish
  by (fastforce simp: build_block_def builder_rep_def)

end
