(* ===== verification/Ldb_Block_Iter.thy ===== *)
theory Ldb_Block_Iter
  imports Ldb_Block_Spec
begin

text \<open>
  The iterator of \<^verbatim>\<open>table/block.cc\<close> over a block of the format: every operation of it keeps the promise of
  the locale \<open>iterator\<close>.
\<close>

section \<open>Decoding an entry\<close>

lemma less_128_iff: "w < 128 \<longleftrightarrow> take_bit 7 w = w" for w :: "32 word"
  using take_bit_nat_eq_self_iff [of 7 "unat w"]
  by (simp add: word_less_nat_alt word_unat_eq_iff unsigned_take_bit_eq)

lemma or_less_128: "(ucast (a :: byte) OR w :: 32 word) < 128 \<Longrightarrow> unat a < 128 \<and> w < 128"
proof -
  assume less: "(ucast a OR w :: 32 word) < 128"
  then have "take_bit 7 (ucast a OR w :: 32 word) = ucast a OR w"
    by (simp add: less_128_iff)
  then have "take_bit 7 (ucast a :: 32 word) OR take_bit 7 w = ucast a OR w" by simp
  moreover have "bit x n \<Longrightarrow> bit (x OR y) n" "bit y n \<Longrightarrow> bit (x OR y) n" for x y :: "32 word" and n
    by (simp_all add: bit_or_iff)
  ultimately have "take_bit 7 (ucast a :: 32 word) = ucast a" "take_bit 7 w = w"
    by (auto simp: bit_eq_iff bit_or_iff bit_take_bit_iff)
  then have "(ucast a :: 32 word) < 128" "w < 128" by (simp_all add: less_128_iff)
  moreover have "unat (ucast a :: 32 word) = unat a"
    using unat_byte_less [of a] by (simp add: unsigned_ucast_eq take_bit_nat_eq_self del: unat_byte_less)
  ultimately show ?thesis by (simp add: word_less_nat_alt)
qed

text \<open>The fast path is the general one.\<close>

lemma GetVarint32Ptr_small: "unat b < 128 \<Longrightarrow> GetVarint32Ptr (b # p) = Some (ucast b, p)"
  by (simp add: GetVarint32Ptr_def and_mask8)

lemma DecodeEntry_general:
  assumes "3 \<le> length p"
    and "GetVarint32Ptr p = Some (s, p1)" and "GetVarint32Ptr p1 = Some (ns, p2)" and "GetVarint32Ptr p2 = Some (vl, p3)"
  shows "DecodeEntry p = (if word_of_nat (length p3) < ns + vl then None else Some (s, ns, vl, p3))"
proof -
  obtain a b d q where p: "p = a # b # d # q" using assms(1) by (auto simp: numeral_3_eq_3 Suc_le_length_iff)
  show ?thesis
  proof (cases "(ucast a OR (ucast b OR ucast d) :: 32 word) < 128")
    case True
    from or_less_128 [OF True] have a: "unat a < 128" and bd: "(ucast b OR ucast d :: 32 word) < 128" by auto
    from or_less_128 [OF bd] have b: "unat b < 128" and d: "(ucast d :: 32 word) < 128" by auto
    have "(ucast d OR (0 :: 32 word)) < 128" using d by simp
    from or_less_128 [OF this] have d: "unat d < 128" by simp
    have "s = ucast a" "ns = ucast b" "vl = ucast d" "p3 = q"
      using assms(2-4) a b d by (auto simp: p GetVarint32Ptr_small)
    then show ?thesis using True by (simp add: DecodeEntry_def p or.assoc)
  next
    case False
    then show ?thesis using assms by (simp add: DecodeEntry_def p or.assoc)
  qed
qed

lemma DecodeEntry_enc:
  assumes "s \<le> length k" and "length k < 2 ^ 32" and "length k - s + length v + length rest < 2 ^ 32"
  shows "DecodeEntry (entry_enc (s, k, v) @ rest)
    = Some (word_of_nat s, word_of_nat (length k - s), word_of_nat (length v), drop s k @ v @ rest)"
proof -
  let ?p3 = "drop s k @ v @ rest"
  have three: "3 \<le> length (entry_enc (s, k, v) @ rest)"
    using length_entry_enc [of "(s, k, v)"] by simp
  have "unat (word_of_nat (length ?p3) :: 32 word) = length k - s + length v + length rest"
    using unat_length [of "length ?p3"] assms(3) by (simp add: add.assoc)
  moreover have "unat (word_of_nat (length k - s) + word_of_nat (length v) :: 32 word) = length k - s + length v"
    using unat_length [of "length k - s + length v"] assms(3) by simp
  ultimately have "\<not> (word_of_nat (length ?p3) :: 32 word) < word_of_nat (length k - s) + word_of_nat (length v)"
    by (simp only: word_less_nat_alt)
  then show ?thesis
    using DecodeEntry_general [OF three, unfolded entry_enc.simps, simplified] GetVarint32_Put
    by (simp add: GetVarint32_def)
qed

end
