(* ===== verification/Ldb_Block_View.thy ===== *)
theory Ldb_Block_View
  imports Ldb_Block_Iter
begin

text \<open>The states of the iterator of a block, and what each operation makes of them.\<close>

section \<open>Sizes\<close>

definition ok_layout :: "layout_entry list \<Rightarrow> nat list \<Rightarrow> bool" where
  "ok_layout ents rs \<longleftrightarrow> good_layout ents rs \<and> length (block_bytes ents rs) < 2 ^ 32"

lemma length_block_bytes: "length (block_bytes ents rs) = offset_of ents (length ents) + 4 * (length rs + 1)"
  by (simp add: block_bytes_def offset_of_all del: map_map)

lemma offset_of_le: "i \<le> length ents \<Longrightarrow> offset_of ents i \<le> offset_of ents (length ents)"
  using offset_of_mono [of i "length ents" ents] by (cases "i = length ents") auto

lemma unat_offset:
  assumes "ok_layout ents rs" and "i \<le> length ents"
  shows "unat (word_of_nat (offset_of ents i) :: 32 word) = offset_of ents i"
  by (rule unat_length)
    (use assms offset_of_le [of i ents] in \<open>simp add: ok_layout_def length_block_bytes\<close>)

lemma length_rs_small: "ok_layout ents rs \<Longrightarrow> length rs < 2 ^ 30"
  by (simp add: ok_layout_def length_block_bytes)

lemma unat_index: "ok_layout ents rs \<Longrightarrow> r \<le> length rs \<Longrightarrow> unat (word_of_nat r :: 32 word) = r"
  by (rule unat_length) (use length_rs_small [of ents rs] in simp)

lemma rs_le: "ok_layout ents rs \<Longrightarrow> r < length rs \<Longrightarrow> rs ! r \<le> length ents"
  by (auto simp: ok_layout_def good_layout_def dest!: nth_mem) fastforce

lemma rs_mono: "ok_layout ents rs \<Longrightarrow> r < q \<Longrightarrow> q < length rs \<Longrightarrow> rs ! r < rs ! q"
  by (simp add: ok_layout_def good_layout_def sorted_wrt_nth_less)

lemma length_key_of:
  "ok_layout ents rs \<Longrightarrow> i < length ents \<Longrightarrow> length (key_of ents i) \<le> offset_of ents (Suc i)"
proof (induction i)
  case 0
  then have "shared_of ents 0 = 0" by (auto simp: ok_layout_def good_layout_def shares_prefix_def)
  then have "length (key_of ents 0) \<le> length (entry_enc (ents ! 0))"
    by (cases "ents ! 0") (simp add: shared_of_def key_of_def)
  then show ?case using 0 by (simp add: offset_of_Suc)
next
  case (Suc i)
  have "shares_prefix ents (Suc i)" using Suc.prems by (simp add: ok_layout_def good_layout_def)
  then have "shared_of ents (Suc i) \<le> length (key_of ents i)" by (simp add: shares_prefix_def)
  moreover have "length (key_of ents (Suc i)) - shared_of ents (Suc i) \<le> length (entry_enc (ents ! Suc i))"
    by (cases "ents ! Suc i") (simp add: shared_of_def key_of_def)
  ultimately show ?case using Suc offset_of_Suc [of "Suc i" ents] by simp
qed

lemma key_of_small: "ok_layout ents rs \<Longrightarrow> i < length ents \<Longrightarrow> length (key_of ents i) < 2 ^ 32"
  using length_key_of [of ents rs i] offset_of_le [of "Suc i" ents]
  by (simp add: ok_layout_def length_block_bytes)

section \<open>States\<close>

definition bi_base :: "layout_entry list \<Rightarrow> nat list \<Rightarrow> BlockIter \<Rightarrow> bool" where
  "bi_base ents rs it \<longleftrightarrow>
     bi_data it = block_bytes ents rs \<and> bi_restarts it = word_of_nat (offset_of ents (length ents))
     \<and> bi_num_restarts it = word_of_nat (length rs) \<and> bi_status it = StatusOK"

definition near :: "nat list \<Rightarrow> BlockIter \<Rightarrow> nat \<Rightarrow> bool" where
  "near rs it i \<longleftrightarrow> (\<exists>r < length rs. bi_restart_index it = word_of_nat r \<and> rs ! r \<le> i)"

text \<open>About to parse an entry; standing at an entry; past the last one.\<close>

definition bi_before :: "layout_entry list \<Rightarrow> nat list \<Rightarrow> BlockIter \<Rightarrow> nat \<Rightarrow> bool" where
  "bi_before ents rs it i \<longleftrightarrow>
     bi_base ents rs it \<and> i \<le> length ents \<and> NextEntryOffset it = word_of_nat (offset_of ents i) \<and> near rs it i
     \<and> (i < length ents \<longrightarrow> shared_of ents i \<le> length (bi_key it)
          \<and> take (shared_of ents i) (bi_key it) = take (shared_of ents i) (key_of ents i))"

definition bi_at :: "layout_entry list \<Rightarrow> nat list \<Rightarrow> BlockIter \<Rightarrow> nat \<Rightarrow> bool" where
  "bi_at ents rs it i \<longleftrightarrow>
     bi_base ents rs it \<and> i < length ents \<and> bi_current it = word_of_nat (offset_of ents i) \<and> bi_key it = key_of ents i
     \<and> bi_value it = (offset_of ents (Suc i) - length (val_of ents i), length (val_of ents i)) \<and> near rs it i"

definition bi_past :: "layout_entry list \<Rightarrow> nat list \<Rightarrow> BlockIter \<Rightarrow> bool" where
  "bi_past ents rs it \<longleftrightarrow> bi_base ents rs it \<and> bi_current it = bi_restarts it"

definition bi_stands :: "layout_entry list \<Rightarrow> nat list \<Rightarrow> BlockIter \<Rightarrow> nat \<Rightarrow> bool" where
  "bi_stands ents rs it i \<longleftrightarrow> (if i < length ents then bi_at ents rs it i else i = length ents \<and> bi_past ents rs it)"

lemma bi_stands_base: "bi_stands ents rs it i \<Longrightarrow> bi_base ents rs it"
  by (auto simp: bi_stands_def bi_at_def bi_past_def split: if_splits)

lemma GetRestartPoint_eq:
  assumes "ok_layout ents rs" and "bi_base ents rs it" and "r < length rs"
  shows "GetRestartPoint (word_of_nat r) it = word_of_nat (offset_of ents (rs ! r))"
proof -
  let ?ws = "map (\<lambda>r. word_of_nat (offset_of ents r)) rs @ [word_of_nat (length rs)]"
  have "unat (bi_restarts it) = length (concat (map entry_enc ents))"
    using assms(2) unat_offset [OF assms(1) order_refl] by (simp add: bi_base_def offset_of_all)
  moreover have "unat (word_of_nat r :: 32 word) = r" using unat_index [OF assms(1)] assms(3) by simp
  ultimately have "GetRestartPoint (word_of_nat r) it = DecodeFixed32 (drop (4 * r) (concat (map EncodeFixed32 ?ws) @ []))"
    using assms(2) by (simp add: GetRestartPoint_def bi_base_def block_bytes_def mult.commute del: map_append map_map)
  also have "\<dots> = ?ws ! r" by (rule DecodeFixed32_nth) (use assms(3) in simp)
  finally show ?thesis using assms(3) by (simp add: nth_append)
qed

lemma word_nat_Suc: "word_of_nat r + 1 = (word_of_nat (Suc r) :: 32 word)"
  by simp

lemma offset_word_less:
  "ok_layout ents rs \<Longrightarrow> i \<le> length ents \<Longrightarrow> j \<le> length ents \<Longrightarrow>
     (word_of_nat (offset_of ents i) :: 32 word) < word_of_nat (offset_of ents j) \<longleftrightarrow> i < j"
  by (simp add: word_less_nat_alt unat_offset offset_of_less_iff)

lemma near_advance:
  "ok_layout ents rs \<Longrightarrow> bi_base ents rs it \<Longrightarrow> i \<le> length ents \<Longrightarrow> bi_current it = word_of_nat (offset_of ents i) \<Longrightarrow>
     near rs it i \<Longrightarrow> near rs (advance_restart it) i"
proof (induction it rule: advance_restart.induct)
  case (1 it)
  obtain r where r: "r < length rs" "bi_restart_index it = word_of_nat r" "rs ! r \<le> i"
    using 1(6) by (auto simp: near_def)
  show ?case
  proof (cases "bi_restart_index it + 1 < bi_num_restarts it \<and> GetRestartPoint (bi_restart_index it + 1) it < bi_current it")
    case True
    have idx: "bi_restart_index it + 1 = word_of_nat (Suc r)" using r(2) by simp
    have "(word_of_nat (Suc r) :: 32 word) < word_of_nat (length rs)"
      using True idx 1(3) by (simp only: bi_base_def)
    then have suc: "Suc r < length rs"
      using unat_index [OF 1(2), of "Suc r"] unat_index [OF 1(2), of "length rs"] r(1)
      by (simp add: word_less_nat_alt del: of_nat_Suc)
    have "(word_of_nat (offset_of ents (rs ! Suc r)) :: 32 word) < word_of_nat (offset_of ents i)"
      using True idx GetRestartPoint_eq [OF 1(2,3) suc] 1(5) by (simp only:)
    then have "rs ! Suc r < i" using offset_word_less [OF 1(2) rs_le [OF 1(2) suc] 1(4)] by blast
    then have near: "near rs (it\<lparr> bi_restart_index := bi_restart_index it + 1 \<rparr>) i"
      unfolding near_def using suc idx by (intro exI [of _ "Suc r"]) simp
    have "near rs (advance_restart (it\<lparr> bi_restart_index := bi_restart_index it + 1 \<rparr>)) i"
      by (rule 1(1) [OF True 1(2) _ 1(4) _ near]) (use 1(3,5) in \<open>simp_all add: bi_base_def\<close>)
    then show ?thesis by (subst advance_restart.simps) (simp only: True if_True simp_thms)
  next
    case False
    then show ?thesis using 1(6) by (subst advance_restart.simps) (simp only: if_False simp_thms)
  qed
qed

section \<open>Parsing\<close>

lemma entry_bytes_at:
  assumes "i < length ents"
  shows "drop (offset_of ents i) (block_bytes ents rs) = entry_enc (ents ! i) @ drop (offset_of ents (Suc i)) (block_bytes ents rs)"
    and "take (offset_of ents (length ents) - offset_of ents i) (drop (offset_of ents i) (block_bytes ents rs))
      = entry_enc (ents ! i) @ drop (offset_of ents (Suc i)) (concat (map entry_enc ents))"
proof -
  have le: "offset_of ents i \<le> length (concat (map entry_enc ents))" "offset_of ents (Suc i) \<le> length (concat (map entry_enc ents))"
    using offset_of_le [of i ents] offset_of_le [of "Suc i" ents] assms by (simp_all add: offset_of_all)
  show "drop (offset_of ents i) (block_bytes ents rs) = entry_enc (ents ! i) @ drop (offset_of ents (Suc i)) (block_bytes ents rs)"
    using le drop_offset [OF assms] by (simp add: block_bytes_def)
  show "take (offset_of ents (length ents) - offset_of ents i) (drop (offset_of ents i) (block_bytes ents rs))
      = entry_enc (ents ! i) @ drop (offset_of ents (Suc i)) (concat (map entry_enc ents))"
    unfolding drop_offset [OF assms, symmetric] using le by (simp add: block_bytes_def offset_of_all del: length_concat)
qed

text \<open>What decoding an entry of the block delivers.\<close>

lemma decode_at:
  assumes "ok_layout ents rs" and "i < length ents"
    and p: "p = take (offset_of ents (length ents) - offset_of ents i) (drop (offset_of ents i) (block_bytes ents rs))"
  obtains q s ns vl where "DecodeEntry p = Some (s, ns, vl, q)"
    "unat s = shared_of ents i" "unat ns = length (key_of ents i) - shared_of ents i" "unat vl = length (val_of ents i)"
    "offset_of ents i + (length p - length q) + unat ns + length (val_of ents i) = offset_of ents (Suc i)"
    "take (unat ns) (drop (offset_of ents i + (length p - length q)) (block_bytes ents rs))
      = drop (shared_of ents i) (key_of ents i)"
proof -
  obtain s k v where e: "ents ! i = (s, k, v)" by (cases "ents ! i")
  have parts: "shared_of ents i = s" "key_of ents i = k" "val_of ents i = v"
    by (simp_all add: shared_of_def key_of_def val_of_def e)
  let ?rest = "drop (offset_of ents (Suc i)) (concat (map entry_enc ents))"
  let ?q = "drop s k @ v @ ?rest"
  have p': "p = entry_enc (s, k, v) @ ?rest" using entry_bytes_at(2) [OF assms(2)] by (simp only: p e)
  have k: "s \<le> length k" using assms(1,2) parts by (auto simp: ok_layout_def good_layout_def shares_prefix_def)
  have ksmall: "length k < 2 ^ 32" using key_of_small [OF assms(1,2)] parts by simp
  have enc: "length (entry_enc (s, k, v)) + offset_of ents i = offset_of ents (Suc i)"
    using offset_of_Suc [OF assms(2)] e by simp
  have suc: "offset_of ents (Suc i) \<le> offset_of ents (length ents)" using offset_of_le [of "Suc i" ents] assms(2) by simp
  have rest: "length ?rest = offset_of ents (length ents) - offset_of ents (Suc i)" by (simp add: offset_of_all)
  have total: "offset_of ents (length ents) < 2 ^ 32" using assms(1) by (simp add: ok_layout_def length_block_bytes)
  have kv: "length k - s + length v \<le> length (entry_enc (s, k, v))" by simp
  have room: "length k - s + length v + length ?rest < 2 ^ 32" using kv rest enc suc total by linarith
  have small: "unat (word_of_nat s :: 32 word) = s" "unat (word_of_nat (length k - s) :: 32 word) = length k - s"
    "unat (word_of_nat (length v) :: 32 word) = length v"
    using unat_length [of s] unat_length [of "length k - s"] unat_length [of "length v"] k ksmall room by linarith+
  have at: "offset_of ents i + (length p - length ?q) + (length k - s) + length v = offset_of ents (Suc i)"
    using enc by (simp add: p')
  have "drop (offset_of ents i + (length p - length ?q)) (block_bytes ents rs)
      = drop (length p - length ?q) (drop (offset_of ents i) (block_bytes ents rs))"
    by (simp only: drop_drop add.commute)
  also have "\<dots> = drop s k @ v @ drop (offset_of ents (Suc i)) (block_bytes ents rs)"
    unfolding entry_bytes_at(1) [OF assms(2)] e by (simp add: p')
  finally have delta: "take (length k - s) (drop (offset_of ents i + (length p - length ?q)) (block_bytes ents rs)) = drop s k"
    by simp
  show thesis
    by (rule that [OF DecodeEntry_enc [OF k ksmall room, folded p']]) (simp_all only: parts small at delta)
qed

lemma ParseNextKey_Some:
  assumes "\<not> bi_restarts it \<le> NextEntryOffset it"
    and "DecodeEntry (take (unat (bi_restarts it) - unat (NextEntryOffset it)) (drop (unat (NextEntryOffset it)) (bi_data it)))
      = Some (shared, non_shared, value_length, q)"
    and "\<not> length (bi_key it) < unat shared"
    and "at = unat (NextEntryOffset it)
      + (length (take (unat (bi_restarts it) - unat (NextEntryOffset it)) (drop (unat (NextEntryOffset it)) (bi_data it))) - length q)"
  shows "ParseNextKey it = (True, advance_restart (it\<lparr> bi_current := NextEntryOffset it,
    bi_key := take (unat shared) (bi_key it) @ take (unat non_shared) (drop at (bi_data it)),
    bi_value := (at + unat non_shared, unat value_length) \<rparr>))"
  using assms by (simp add: ParseNextKey_def Let_def)

lemma parse_entry:
  assumes "ok_layout ents rs" and "bi_before ents rs it i" and "i < length ents"
  obtains it' where "ParseNextKey it = (True, it')" "bi_at ents rs it' i"
proof -
  note b = assms(2) [unfolded bi_before_def bi_base_def, simplified]
  have cur: "unat (NextEntryOffset it) = offset_of ents i" using b unat_offset [OF assms(1)] assms(3) by simp
  have restarts: "unat (bi_restarts it) = offset_of ents (length ents)" using b unat_offset [OF assms(1) order_refl] by simp
  have data: "bi_data it = block_bytes ents rs" using b by simp
  have not_end: "\<not> bi_restarts it \<le> NextEntryOffset it"
    using offset_of_mono [of i "length ents" ents] assms(3) unfolding word_le_nat_alt cur restarts by simp
  have shared: "shared_of ents i \<le> length (bi_key it)"
    "take (shared_of ents i) (bi_key it) = take (shared_of ents i) (key_of ents i)" using b assms(3) by auto
  from decode_at [OF assms(1,3) refl] obtain q s ns vl where d:
    "DecodeEntry (take (offset_of ents (length ents) - offset_of ents i) (drop (offset_of ents i) (block_bytes ents rs))) = Some (s, ns, vl, q)"
    "unat s = shared_of ents i" "unat ns = length (key_of ents i) - shared_of ents i" "unat vl = length (val_of ents i)"
    "offset_of ents i + (length (take (offset_of ents (length ents) - offset_of ents i) (drop (offset_of ents i) (block_bytes ents rs))) - length q)
      + unat ns + length (val_of ents i) = offset_of ents (Suc i)"
    "take (unat ns) (drop (offset_of ents i + (length (take (offset_of ents (length ents) - offset_of ents i)
        (drop (offset_of ents i) (block_bytes ents rs))) - length q)) (block_bytes ents rs))
      = drop (shared_of ents i) (key_of ents i)" .
  define at where "at = offset_of ents i + (length (take (offset_of ents (length ents) - offset_of ents i)
    (drop (offset_of ents i) (block_bytes ents rs))) - length q)"
  define it2 where "it2 = it\<lparr> bi_current := NextEntryOffset it,
    bi_key := take (unat s) (bi_key it) @ take (unat ns) (drop at (bi_data it)), bi_value := (at + unat ns, unat vl) \<rparr>"
  have enough: "\<not> length (bi_key it) < unat s" using shared(1) d(2) by simp
  have parse: "ParseNextKey it = (True, advance_restart it2)"
    unfolding it2_def by (rule ParseNextKey_Some [OF not_end _ enough]) (simp_all only: cur restarts data d(1) at_def)
  have key: "bi_key it2 = key_of ents i"
    using shared d(2,6) [folded at_def] by (simp add: it2_def data)
  have "near rs (advance_restart it2) i"
    by (rule near_advance [OF assms(1), of _ i]) (use b assms(3) in \<open>simp_all add: it2_def bi_base_def near_def\<close>)
  then have "bi_at ents rs (advance_restart it2) i"
    using b assms(3) key d(4) d(5) [folded at_def] by (auto simp: bi_at_def bi_base_def it2_def near_def)
  with parse that show thesis by blast
qed

lemma parse_end:
  assumes "ok_layout ents rs" and "bi_before ents rs it (length ents)"
  obtains it' where "ParseNextKey it = (False, it')" "bi_past ents rs it'"
  using assms(2) by (auto simp: bi_before_def bi_past_def bi_base_def ParseNextKey_def Let_def)

lemma before_next:
  assumes "ok_layout ents rs" and "bi_at ents rs it i"
  shows "bi_before ents rs it (Suc i)"
proof -
  note a = assms(2) [unfolded bi_at_def]
  have "length (val_of ents i) \<le> length (entry_enc (ents ! i))" by (cases "ents ! i") (simp add: val_of_def)
  then have "length (val_of ents i) \<le> offset_of ents (Suc i)" using a offset_of_Suc [of i ents] by simp
  then have "NextEntryOffset it = word_of_nat (offset_of ents (Suc i))" using a by (simp add: NextEntryOffset_def)
  moreover have "near rs it (Suc i)" using a by (auto simp: near_def intro: le_SucI)
  moreover have "Suc i < length ents \<Longrightarrow> shares_prefix ents (Suc i)"
    using assms(1) by (simp add: ok_layout_def good_layout_def)
  ultimately show ?thesis using a by (auto simp: bi_before_def shares_prefix_def)
qed

lemma before_restart:
  assumes "ok_layout ents rs" and "bi_base ents rs it" and "r < length rs"
  shows "bi_before ents rs (SeekToRestartPoint (word_of_nat r) it) (rs ! r)"
proof -
  have "rs ! r \<in> set rs" using assms(3) by simp
  then have "rs ! r < length ents \<Longrightarrow> shared_of ents (rs ! r) = 0"
    using assms(1) by (simp add: ok_layout_def good_layout_def)
  then show ?thesis
    using assms GetRestartPoint_eq [OF assms] rs_le [OF assms(1,3)] unat_offset [OF assms(1)]
    by (auto simp: bi_before_def bi_base_def SeekToRestartPoint_def NextEntryOffset_def near_def)
qed

lemma parse_while_stands:
  assumes "ok_layout ents rs"
  shows "bi_before ents rs it i \<Longrightarrow> i \<le> j \<Longrightarrow> j \<le> length ents \<Longrightarrow>
     (\<And>m it'. i \<le> m \<Longrightarrow> m < j \<Longrightarrow> bi_at ents rs it' m \<Longrightarrow> cond it') \<Longrightarrow>
     (\<And>it'. bi_at ents rs it' j \<Longrightarrow> \<not> cond it') \<Longrightarrow> bi_stands ents rs (parse_while cond it) j"
proof (induction "j - i" arbitrary: it i)
  case 0
  then have "i = j" by simp
  show ?case
  proof (cases "i < length ents")
    case True
    from parse_entry [OF assms 0(2) True] obtain it' where "ParseNextKey it = (True, it')" "bi_at ents rs it' i" .
    then show ?thesis
      using 0(6) \<open>i = j\<close> True by (subst parse_while.simps) (simp add: Let_def bi_stands_def)
  next
    case False
    then have "i = length ents" using 0(2) by (simp add: bi_before_def)
    then have "bi_before ents rs it (length ents)" using 0(2) by simp
    from parse_end [OF assms this] obtain it' where "ParseNextKey it = (False, it')" "bi_past ents rs it'" .
    then show ?thesis using \<open>i = j\<close> False 0(4) by (subst parse_while.simps) (simp add: Let_def bi_stands_def)
  qed
next
  case (Suc d)
  then have i: "i < length ents" "i < j" by auto
  from parse_entry [OF assms Suc(3) i(1)] obtain it' where it': "ParseNextKey it = (True, it')" "bi_at ents rs it' i" .
  have "cond it'" using Suc(6) [of i it'] it'(2) i by simp
  moreover have later: "cond t" if "Suc i \<le> m" "m < j" "bi_at ents rs t m" for m t
    using Suc(6) [of m t] that by simp
  have "d = j - Suc i" "Suc i \<le> j" using Suc(2) i by simp_all
  from Suc(1) [OF this(1) before_next [OF assms it'(2)] this(2) Suc(5) later Suc(7)]
  have "bi_stands ents rs (parse_while cond it') j" .
  ultimately show ?case using it'(1) by (subst parse_while.simps) (simp add: Let_def)
qed

text \<open>One parse from in front of an entry.\<close>

lemma parse_stands:
  assumes "ok_layout ents rs" and "bi_before ents rs it i"
  shows "bi_stands ents rs (snd (ParseNextKey it)) i"
proof (cases "i < length ents")
  case True
  from parse_entry [OF assms True] obtain it' where "ParseNextKey it = (True, it')" "bi_at ents rs it' i" .
  then show ?thesis using True by (simp add: bi_stands_def)
next
  case False
  then have eq: "i = length ents" using assms(2) by (simp add: bi_before_def)
  from parse_end [OF assms(1) assms(2) [unfolded eq]] obtain it' where
    "ParseNextKey it = (False, it')" "bi_past ents rs it'" .
  then show ?thesis using eq by (simp add: bi_stands_def)
qed

section \<open>Every operation\<close>

lemma stands_first:
  assumes "ok_layout ents rs" and "bi_base ents rs it"
  shows "bi_stands ents rs (bi_SeekToFirst it) 0"
proof -
  have r: "0 < length rs" "rs ! 0 = 0" using assms(1) by (auto simp: ok_layout_def good_layout_def)
  have "bi_before ents rs (SeekToRestartPoint 0 it) 0" using before_restart [OF assms r(1)] r(2) by simp
  then show ?thesis unfolding bi_SeekToFirst_def by (rule parse_stands [OF assms(1)])
qed

lemma stands_next:
  "ok_layout ents rs \<Longrightarrow> bi_at ents rs it i \<Longrightarrow> bi_stands ents rs (bi_Next it) (Suc i)"
  unfolding bi_Next_def by (rule parse_stands [OF _ before_next])

lemma next_offset_at:
  "ok_layout ents rs \<Longrightarrow> bi_at ents rs it i \<Longrightarrow> NextEntryOffset it = word_of_nat (offset_of ents (Suc i))"
  using before_next [of ents rs it i] by (simp add: bi_before_def)

lemma rs_last: "ok_layout ents rs \<Longrightarrow> r < length rs \<Longrightarrow> rs ! r \<le> length ents - 1"
  by (auto simp: ok_layout_def good_layout_def dest!: nth_mem) fastforce

lemma stands_last:
  assumes "ok_layout ents rs" and "bi_base ents rs it"
  shows "bi_stands ents rs (bi_SeekToLast it) (length ents - 1)"
proof -
  have rs: "rs \<noteq> []" using assms(1) by (simp add: ok_layout_def good_layout_def)
  then have r: "length rs - 1 < length rs" by simp
  have num: "bi_num_restarts it - 1 = word_of_nat (length rs - 1)"
    using assms(2) rs by (simp add: bi_base_def of_nat_diff Suc_le_eq)
  have b: "bi_before ents rs (SeekToRestartPoint (bi_num_restarts it - 1) it) (rs ! (length rs - 1))"
    unfolding num by (rule before_restart [OF assms r])
  have cond: "NextEntryOffset t < bi_restarts t \<longleftrightarrow> Suc m < length ents" if "bi_at ents rs t m" for m t
    using next_offset_at [OF assms(1) that] offset_word_less [OF assms(1), of "Suc m" "length ents"] that
    by (auto simp: bi_at_def bi_base_def)
  show ?thesis
    unfolding bi_SeekToLast_def
  proof (rule parse_while_stands [OF assms(1) b rs_last [OF assms(1) r]])
    show "NextEntryOffset t < bi_restarts t" if "m < length ents - 1" "bi_at ents rs t m" for m t
      using cond [OF that(2)] that(1) by simp
    show "\<not> NextEntryOffset t < bi_restarts t" if "bi_at ents rs t (length ents - 1)" for t
      using cond [OF that] by simp
  qed simp
qed

lemma restart_before_found:
  "ok_layout ents rs \<Longrightarrow> bi_base ents rs it \<Longrightarrow> near rs it i \<Longrightarrow> i \<le> length ents \<Longrightarrow>
     (case restart_before (word_of_nat (offset_of ents i)) it of
        None \<Rightarrow> i = 0
      | Some it' \<Rightarrow> bi_base ents rs it' \<and> (\<exists>r < length rs. bi_restart_index it' = word_of_nat r \<and> rs ! r < i))"
proof (induction "word_of_nat (offset_of ents i) :: 32 word" it rule: restart_before.induct)
  case (1 it)
  obtain r where r: "r < length rs" "bi_restart_index it = word_of_nat r" "rs ! r \<le> i"
    using 1(4) by (auto simp: near_def)
  have point: "GetRestartPoint (bi_restart_index it) it = word_of_nat (offset_of ents (rs ! r))"
    using GetRestartPoint_eq [OF 1(2,3) r(1)] r(2) by simp
  have less: "\<not> word_of_nat (offset_of ents i) \<le> GetRestartPoint (bi_restart_index it) it \<longleftrightarrow> rs ! r < i"
    unfolding point not_le by (rule offset_word_less [OF 1(2) rs_le [OF 1(2) r(1)] 1(5)])
  have zero: "bi_restart_index it = 0 \<longleftrightarrow> r = 0"
    unfolding r(2) word_unat_eq_iff unat_index [OF 1(2) less_imp_le [OF r(1)]] by simp
  show ?case
  proof (cases "rs ! r < i")
    case True
    then show ?thesis using less r 1(3) by (subst restart_before.simps) auto
  next
    case False
    show ?thesis
    proof (cases "r = 0")
      case True
      then have "i = 0" using False 1(2) by (simp add: ok_layout_def good_layout_def)
      then show ?thesis using less zero True False by (subst restart_before.simps) simp
    next
      case pos: False
      let ?it = "it\<lparr> bi_restart_index := bi_restart_index it - 1 \<rparr>"
      have idx: "bi_restart_index ?it = word_of_nat (r - 1)" using r(2) pos by (simp add: of_nat_diff Suc_le_eq)
      have "rs ! (r - 1) < rs ! r" using rs_mono [OF 1(2), of "r - 1" r] pos r(1) by simp
      then have "near rs ?it i" using idx r by (auto simp: near_def intro!: exI [of _ "r - 1"])
      moreover have "bi_base ents rs ?it" using 1(3) by (simp add: bi_base_def)
      ultimately show ?thesis
        using 1(1) [OF _ _ 1(2) _ _ 1(5)] less zero pos False by (subst restart_before.simps) auto
    qed
  qed
qed

lemma stands_prev:
  assumes "ok_layout ents rs" and "bi_at ents rs it i"
  shows "bi_stands ents rs (bi_Prev it) (if i = 0 then length ents else i - 1)"
proof -
  have a: "bi_base ents rs it" "near rs it i" "i < length ents" "bi_current it = word_of_nat (offset_of ents i)"
    using assms(2) by (auto simp: bi_at_def)
  note found = restart_before_found [OF assms(1) a(1,2) less_imp_le [OF a(3)]]
  show ?thesis
  proof (cases "restart_before (bi_current it) it")
    case None
    then have "i = 0" using found a(4) by simp
    moreover have "bi_past ents rs (bi_Prev it)"
      using None a(1) by (simp add: bi_Prev_def Let_def bi_past_def bi_base_def)
    ultimately show ?thesis by (simp add: bi_stands_def)
  next
    case (Some it')
    then obtain r where r: "bi_base ents rs it'" "r < length rs" "bi_restart_index it' = word_of_nat r" "rs ! r < i"
      using found a(4) by auto
    have b: "bi_before ents rs (SeekToRestartPoint (bi_restart_index it') it') (rs ! r)"
      unfolding r(3) by (rule before_restart [OF assms(1) r(1,2)])
    have cond: "NextEntryOffset t < bi_current it \<longleftrightarrow> Suc m < i" if "bi_at ents rs t m" for m t
      using next_offset_at [OF assms(1) that] offset_word_less [OF assms(1), of "Suc m" i] that a(3,4)
      by (auto simp: bi_at_def)
    have "bi_stands ents rs (parse_while (\<lambda>t. NextEntryOffset t < bi_current it) (SeekToRestartPoint (bi_restart_index it') it')) (i - 1)"
    proof (rule parse_while_stands [OF assms(1) b])
      show "NextEntryOffset t < bi_current it" if "m < i - 1" "bi_at ents rs t m" for m t
        using cond [OF that(2)] that(1) by simp
      show "\<not> NextEntryOffset t < bi_current it" if "bi_at ents rs t (i - 1)" for t
        using cond [OF that] by simp
    qed (use r(4) a(3) in simp_all)
    then show ?thesis using Some r(4) by (simp add: bi_Prev_def Let_def)
  qed
qed

section \<open>The binary search\<close>

lemma word_half: "n < 2 ^ 32 \<Longrightarrow> (word_of_nat n :: 32 word) div 2 = word_of_nat (n div 2)"
  using unat_length [of n] unat_length [of "n div 2"] by (simp add: word_unat_eq_iff unat_div)

lemma restart_search_step:
  assumes "left < right" and "mid = (left + right + 1) div 2" and "off = unat (GetRestartPoint mid it)"
    and "p = take (unat (bi_restarts it) - off) (drop off (bi_data it))" and "DecodeEntry p = Some (0, ns, vl, q)"
  shows "restart_search c target it left right =
    (if cmp_Compare c (take (unat ns) (drop (off + (length p - length q)) (bi_data it))) target < 0
     then restart_search c target it mid right else restart_search c target it left (mid - 1))"
  using assms by (subst restart_search.simps) (simp add: Let_def)

lemma restart_search_stop: "\<not> left < right \<Longrightarrow> restart_search c target it left right = Some (Some left)"
  by (subst restart_search.simps) simp

lemma restart_search_finds:
  assumes "ok_layout ents rs" and "bi_base ents rs it"
  shows "l \<le> r \<Longrightarrow> r < length rs \<Longrightarrow> l = 0 \<or> cmp_Compare c (key_of ents (rs ! l)) target < 0 \<Longrightarrow>
    \<exists>m < length rs. restart_search c target it (word_of_nat l) (word_of_nat r) = Some (Some (word_of_nat m))
      \<and> (m = 0 \<or> cmp_Compare c (key_of ents (rs ! m)) target < 0)"
proof (induction "r - l" arbitrary: l r rule: less_induct)
  case less
  have words: "(word_of_nat l :: 32 word) < word_of_nat r \<longleftrightarrow> l < r"
    using unat_index [OF assms(1), of l] unat_index [OF assms(1), of r] less.prems(1,2)
    by (simp add: word_less_nat_alt)
  show ?case
  proof (cases "l < r")
    case False
    then have "l = r" using less.prems(1) by simp
    then show ?thesis using less.prems restart_search_stop [of "word_of_nat l" "word_of_nat r"] by (intro exI [of _ l]) simp
  next
    case True
    let ?m = "(l + r + 1) div 2"
    have m: "l < ?m" "?m \<le> r" "?m < length rs" using True less.prems(2) by auto
    have "l + r + 1 < 2 ^ 32" using length_rs_small [OF assms(1)] less.prems(1,2) by simp
    from word_half [OF this] have mid: "(word_of_nat l + word_of_nat r + 1) div 2 = (word_of_nat ?m :: 32 word)" by (simp add: ac_simps)
    let ?i = "rs ! ?m"
    have "0 < ?i" using rs_mono [OF assms(1), of 0 ?m] m by simp
    then have i: "?i < length ents" "shared_of ents ?i = 0"
      using assms(1) nth_mem [OF m(3)] by (auto simp: ok_layout_def good_layout_def)
    have region: "unat (GetRestartPoint (word_of_nat ?m) it) = offset_of ents ?i"
      using GetRestartPoint_eq [OF assms m(3)] unat_offset [OF assms(1)] i(1) by simp
    have restarts: "unat (bi_restarts it) = offset_of ents (length ents)"
      using assms(2) unat_offset [OF assms(1) order_refl] by (simp add: bi_base_def)
    have data: "bi_data it = block_bytes ents rs" using assms(2) by (simp add: bi_base_def)
    define p where "p = take (unat (bi_restarts it) - offset_of ents ?i) (drop (offset_of ents ?i) (bi_data it))"
    have p: "p = take (offset_of ents (length ents) - offset_of ents ?i) (drop (offset_of ents ?i) (block_bytes ents rs))"
      by (simp only: p_def restarts data)
    from decode_at [OF assms(1) i(1) p] obtain q s ns vl where d:
      "DecodeEntry p = Some (s, ns, vl, q)" "unat s = shared_of ents ?i"
      "unat ns = length (key_of ents ?i) - shared_of ents ?i" "unat vl = length (val_of ents ?i)"
      "offset_of ents ?i + (length p - length q) + unat ns + length (val_of ents ?i) = offset_of ents (Suc ?i)"
      "take (unat ns) (drop (offset_of ents ?i + (length p - length q)) (block_bytes ents rs)) = drop (shared_of ents ?i) (key_of ents ?i)" .
    have s: "s = 0" using d(2) i(2) by (simp add: word_unat_eq_iff)
    have step: "restart_search c target it (word_of_nat l) (word_of_nat r) =
        (if cmp_Compare c (key_of ents ?i) target < 0
         then restart_search c target it (word_of_nat ?m) (word_of_nat r)
         else restart_search c target it (word_of_nat l) (word_of_nat (?m - 1)))"
    proof -
      have pred: "(word_of_nat ?m :: 32 word) - 1 = word_of_nat (?m - 1)" using m(1) by (simp add: of_nat_diff Suc_le_eq)
      have key: "take (unat ns) (drop (offset_of ents ?i + (length p - length q)) (bi_data it)) = key_of ents ?i"
        using d(6) i(2) data by simp
      have "(word_of_nat l :: 32 word) < word_of_nat r" using words True by simp
      from restart_search_step [OF this mid [symmetric] region [symmetric] p_def d(1) [unfolded s], of c target]
      show ?thesis unfolding key pred .
    qed
    show ?thesis
    proof (cases "cmp_Compare c (key_of ents ?i) target < 0")
      case True
      then show ?thesis using less.hyps [of r ?m] m less.prems(2) unfolding step by auto
    next
      case False
      then show ?thesis using less.hyps [of "?m - 1" l] m less.prems unfolding step by auto
    qed
  qed
qed

section \<open>The iterator of a block\<close>

definition block_view :: "Comparator \<Rightarrow> (slice \<Rightarrow> bool) \<Rightarrow> entry list \<Rightarrow> block_iterator \<Rightarrow> nat \<Rightarrow> bool" where
  "block_view c valid xs s i \<longleftrightarrow>
     sorted_entries c xs \<and> (\<forall>e \<in> set xs. valid (fst e))
     \<and> (\<exists>ents rs it. map snd ents = xs \<and> ok_layout ents rs \<and> s = Entries it \<and> bi_stands ents rs it i)"

lemma entry_of:
  "i < length ents \<Longrightarrow> fst (map snd ents ! i) = key_of ents i" "i < length ents \<Longrightarrow> snd (map snd ents ! i) = val_of ents i"
  by (simp_all add: key_of_def val_of_def)

lemma value_bytes_at:
  assumes "ok_layout ents rs" and "bi_at ents rs it i"
  shows "bi_value_bytes it = val_of ents i"
proof -
  obtain s k v where e: "ents ! i = (s, k, v)" by (cases "ents ! i")
  have i: "i < length ents" and data: "bi_data it = block_bytes ents rs" using assms(2) by (auto simp: bi_at_def bi_base_def)
  have "length v \<le> length (entry_enc (ents ! i))" by (simp add: e)
  then have "offset_of ents (Suc i) - length v = length (entry_enc (ents ! i)) - length v + offset_of ents i"
    using offset_of_Suc [OF i] by simp
  then have "drop (offset_of ents (Suc i) - length v) (block_bytes ents rs)
      = drop (length (entry_enc (ents ! i)) - length v) (drop (offset_of ents i) (block_bytes ents rs))"
    by (simp only: drop_drop)
  also have "\<dots> = v @ drop (offset_of ents (Suc i)) (block_bytes ents rs)"
    unfolding entry_bytes_at(1) [OF i] by (simp add: e)
  finally show ?thesis using assms(2) data by (simp add: bi_value_bytes_def bi_at_def val_of_def e)
qed

lemma view_at:
  assumes "bi_stands ents rs it i" and "ok_layout ents rs"
  shows "i \<le> length ents" "bi_Valid it \<longleftrightarrow> i < length ents" "bi_status it = StatusOK"
    "i < length ents \<Longrightarrow> bi_key it = key_of ents i" "i < length ents \<Longrightarrow> bi_value_bytes it = val_of ents i"
  using assms value_bytes_at [OF assms(2)] offset_word_less [OF assms(2), of i "length ents"]
  by (auto simp: bi_stands_def bi_at_def bi_past_def bi_base_def bi_Valid_def split: if_splits)

context comparator
begin

lemma stands_seek:
  assumes "ok_layout ents rs" and "bi_base ents rs it" and "sorted_entries c (map snd ents)"
    and "\<forall>e \<in> set (map snd ents). valid (fst e)" and "valid k"
  obtains it' where "bi_Seek c k it = Some it'" "bi_stands ents rs it' (lower_bound c k (map snd ents))"
proof -
  let ?n = "lower_bound c k (map snd ents)"
  have rs: "rs \<noteq> []" "rs ! 0 = 0" using assms(1) by (simp_all add: ok_layout_def good_layout_def)
  have num: "bi_num_restarts it - 1 = word_of_nat (length rs - 1)"
    using assms(2) rs by (simp add: bi_base_def of_nat_diff Suc_le_eq)
  have "length rs - 1 < length rs" using rs(1) by simp
  from restart_search_finds [OF assms(1,2) le0 this disjI1 [OF refl], of c k] obtain m where
    "m < length rs \<and> restart_search c k it (word_of_nat 0) (word_of_nat (length rs - 1)) = Some (Some (word_of_nat m))
      \<and> (m = 0 \<or> cmp_Compare c (key_of ents (rs ! m)) k < 0)" by (rule exE)
  note m = conjunct1 [OF this] conjunct1 [OF conjunct2 [OF this], unfolded of_nat_0, folded num]
    conjunct2 [OF conjunct2 [OF this]]
  have below: "cmp_Compare c (key_of ents i) k < 0" if "i < ?n" for i
    using below_lower_bound [OF that] entry_of(1) [of i ents] that lower_bound_le [of c k "map snd ents"] by simp
  have start: "rs ! m \<le> ?n"
  proof (rule ccontr)
    assume neg: "\<not> rs ! m \<le> ?n"
    then have less: "cmp_Compare c (key_of ents (rs ! m)) k < 0" using m(3) rs(2) by (cases "m = 0") auto
    have "rs ! m = 0 \<or> rs ! m < length ents"
      using assms(1) nth_mem [OF m(1)] by (simp add: ok_layout_def good_layout_def)
    then have len: "rs ! m < length ents" using neg by auto
    then have "cmp_Compare c (key_of ents ?n) (key_of ents (rs ! m)) < 0"
      using assms(3) neg by (auto simp: sorted_entries_def sorted_wrt_iff_nth_less key_of_def)
    moreover have "valid (key_of ents i)" if "i < length ents" for i
      using assms(4) that by (auto simp: key_of_def)
    ultimately have "cmp_Compare c (key_of ents ?n) k < 0"
      using compare_trans [OF _ _ assms(5) _ less] len neg by simp
    then show False using at_lower_bound [of c k "map snd ents"] entry_of(1) [of ?n ents] len neg by simp
  qed
  have "bi_stands ents rs (parse_while (\<lambda>it. \<not> 0 \<le> cmp_Compare c (bi_key it) k) (SeekToRestartPoint (word_of_nat m) it)) ?n"
  proof (rule parse_while_stands [OF assms(1) before_restart [OF assms(1,2) m(1)] start])
    show "?n \<le> length ents" using lower_bound_le [of c k "map snd ents"] by simp
    show "\<not> 0 \<le> cmp_Compare c (bi_key t) k" if "i < ?n" "bi_at ents rs t i" for i t
      using below [OF that(1)] that(2) by (simp add: bi_at_def)
    show "\<not> \<not> 0 \<le> cmp_Compare c (bi_key t) k" if "bi_at ents rs t ?n" for t
      using at_lower_bound [of c k "map snd ents"] entry_of(1) [of ?n ents] that by (auto simp: bi_at_def)
  qed
  then show thesis using that m(2) by (simp add: bi_Seek_def)
qed

end

sublocale comparator \<subseteq> block: iterator "BlockIterator c" c valid xs "block_view c valid xs" for xs
proof unfold_locales
  fix s i
  assume "block_view c valid xs s i"
  then obtain ents rs it where v: "map snd ents = xs" "ok_layout ents rs" "s = Entries it" "bi_stands ents rs it i"
    and srt: "sorted_entries c xs" "\<forall>e \<in> set xs. valid (fst e)" by (auto simp: block_view_def)
  note at = view_at [OF v(4,2)]
  have base: "bi_base ents rs it" by (rule bi_stands_base [OF v(4)])
  have len: "length xs = length ents" using v(1) by auto
  have view: "block_view c valid xs (Entries t) j" if "bi_stands ents rs t j" for t j
    using v srt that by (auto simp: block_view_def)
  have here: "bi_at ents rs it i" if "i < length xs" using v(4) that len by (simp add: bi_stands_def)
  show "i \<le> length xs" "i_Valid (BlockIterator c) s \<longleftrightarrow> i < length xs" "i_status (BlockIterator c) s = StatusOK"
    using at(1-3) len v(3) by (simp_all add: BlockIterator_def)
  show "i_key (BlockIterator c) s = fst (xs ! i)" "i_value (BlockIterator c) s = snd (xs ! i)" if "i < length xs"
    using at(4,5) len v(1,3) that entry_of [of i ents] by (simp_all add: BlockIterator_def)
  show "\<exists>t. i_SeekToFirst (BlockIterator c) s = Some t \<and> block_view c valid xs t 0"
    using view [OF stands_first [OF v(2) base]] v(3) by (simp add: BlockIterator_def)
  show "\<exists>t. i_SeekToLast (BlockIterator c) s = Some t \<and> block_view c valid xs t (length xs - 1)"
    using view [OF stands_last [OF v(2) base]] v(3) len by (simp add: BlockIterator_def)
  show "\<exists>t. i_Next (BlockIterator c) s = Some t \<and> block_view c valid xs t (i + 1)" if "i < length xs"
    using view [OF stands_next [OF v(2) here [OF that]]] v(3) by (simp add: BlockIterator_def)
  show "\<exists>t. i_Prev (BlockIterator c) s = Some t \<and> block_view c valid xs t (if i = 0 then length xs else i - 1)" if "i < length xs"
    using view [OF stands_prev [OF v(2) here [OF that]]] v(3) len by (cases "i = 0") (simp_all add: BlockIterator_def)
  show "\<exists>t. i_Seek (BlockIterator c) k s = Some t \<and> block_view c valid xs t (lower_bound c k xs)" if k: "valid k" for k
  proof -
    from stands_seek [OF v(2) base _ _ k] srt v(1) obtain it' where
      "bi_Seek c k it = Some it'" "bi_stands ents rs it' (lower_bound c k xs)" by auto
    then show ?thesis using view v(3) by (simp add: BlockIterator_def)
  qed
qed

end
