(* ===== verification/Ldb_Table_Spec.thy ===== *)
theory Ldb_Table_Spec
  imports Ldb_Table Ldb_Block_View
begin

text \<open>
  The bytes of a table file as a function of its data blocks, and the proof that the builder
  writes them.
\<close>

section \<open>The file\<close>

text \<open>A block with its trailer.\<close>

definition stored :: "byte list \<Rightarrow> byte list" where
  "stored d = d @ 0 # EncodeFixed32 (Mask (crc_reference 0 (d @ [0])))"

lemma length_stored [simp]: "length (stored d) = length d + kBlockTrailerSize"
  by (simp add: stored_def kBlockTrailerSize_def)

definition add_all :: "nat \<Rightarrow> entry list \<Rightarrow> BlockBuilder" where
  "add_all interval kvs = foldl (\<lambda>b (k, v). BlockBuilder_Add interval k v b) BlockBuilder_new kvs"

lemma add_all_snoc: "add_all interval (kvs @ [(k, v)]) = BlockBuilder_Add interval k v (add_all interval kvs)"
  by (simp add: add_all_def)

lemma add_all_Nil: "add_all interval [] = BlockBuilder_new"
  by (simp add: add_all_def)

lemma build_block_eq: "build_block interval kvs = fst (BlockBuilder_Finish (add_all interval kvs))"
  by (simp add: build_block_def add_all_def)

lemma add_all_empty:
  assumes "1 \<le> interval"
  shows "BlockBuilder_empty (add_all interval kvs) \<longleftrightarrow> kvs = []"
proof -
  from builder_rep_Adds [OF builder_rep_new assms, of kvs] obtain ents rs where
    "builder_rep interval ents rs (add_all interval kvs)" "map snd ents = kvs" by (auto simp: add_all_def)
  moreover have "concat (map entry_enc ents) = [] \<longleftrightarrow> ents = []"
  proof (cases ents)
    case (Cons e es)
    then show ?thesis using length_entry_enc [of e] by (cases "entry_enc e") simp_all
  qed simp
  ultimately show ?thesis by (auto simp: builder_rep_def BlockBuilder_empty_def)
qed

definition first_key :: "entry list \<Rightarrow> slice" where
  "first_key es = fst (hd es)"

definition last_key :: "entry list \<Rightarrow> slice" where
  "last_key es = fst (last es)"

definition blocks_bytes :: "nat \<Rightarrow> entry list list \<Rightarrow> byte list" where
  "blocks_bytes interval bs = concat (map (\<lambda>es. stored (build_block interval es)) bs)"

definition handle_at :: "nat \<Rightarrow> entry list list \<Rightarrow> nat \<Rightarrow> BlockHandle" where
  "handle_at interval bs i =
     \<lparr> bh_offset = word_of_nat (length (blocks_bytes interval (take i bs))),
       bh_size = word_of_nat (length (build_block interval (bs ! i))) \<rparr>"

definition separator_key :: "Comparator \<Rightarrow> entry list list \<Rightarrow> nat \<Rightarrow> slice" where
  "separator_key c bs i =
     (if i + 1 < length bs then cmp_FindShortestSeparator c (last_key (bs ! i)) (first_key (bs ! (i + 1)))
      else cmp_FindShortSuccessor c (last_key (bs ! i)))"

definition index_entries :: "Comparator \<Rightarrow> nat \<Rightarrow> entry list list \<Rightarrow> nat \<Rightarrow> entry list" where
  "index_entries c interval bs n =
     map (\<lambda>i. (separator_key c bs i, BlockHandle_EncodeTo [] (handle_at interval bs i))) [0..<n]"

text \<open>The calls of the builder of the filter block.\<close>

definition filter_calls :: "nat \<Rightarrow> entry list list \<Rightarrow> entry list \<Rightarrow> (64 word \<times> slice list) list" where
  "filter_calls interval bs cur =
     map (\<lambda>i. (word_of_nat (length (blocks_bytes interval (take i bs))), map fst (bs ! i))) [0..<length bs]
     @ [(word_of_nat (length (blocks_bytes interval bs)), map fst cur)]"

definition filter_contents :: "Options \<Rightarrow> entry list list \<Rightarrow> slice option" where
  "filter_contents opts bs =
     map_option (\<lambda>P. build_filter_block P (filter_calls (opt_block_restart_interval opts) bs [])) (opt_filter_policy opts)"

definition filter_key :: "FilterPolicy \<Rightarrow> slice" where
  "filter_key P = string_bytes (''filter.'' @ fp_Name P)"

text \<open>A handle for bytes that are appended to a file of some length.\<close>

definition handle_of :: "nat \<Rightarrow> byte list \<Rightarrow> BlockHandle" where
  "handle_of n d = \<lparr> bh_offset = word_of_nat n, bh_size = word_of_nat (length d) \<rparr>"

definition meta_entries :: "Options \<Rightarrow> entry list list \<Rightarrow> entry list" where
  "meta_entries opts bs =
     (case opt_filter_policy opts of None \<Rightarrow> []
      | Some P \<Rightarrow> [(filter_key P, BlockHandle_EncodeTo []
          (handle_of (length (blocks_bytes (opt_block_restart_interval opts) bs)) (the (filter_contents opts bs))))])"

definition table_data :: "Options \<Rightarrow> entry list list \<Rightarrow> byte list" where
  "table_data opts bs = blocks_bytes (opt_block_restart_interval opts) bs
     @ (case filter_contents opts bs of None \<Rightarrow> [] | Some d \<Rightarrow> stored d)"

definition meta_contents :: "Options \<Rightarrow> entry list list \<Rightarrow> byte list" where
  "meta_contents opts bs = build_block (opt_block_restart_interval opts) (meta_entries opts bs)"

definition index_contents :: "Options \<Rightarrow> entry list list \<Rightarrow> byte list" where
  "index_contents opts bs =
     build_block 1 (index_entries (opt_comparator opts) (opt_block_restart_interval opts) bs (length bs))"

definition table_footer :: "Options \<Rightarrow> entry list list \<Rightarrow> Footer" where
  "table_footer opts bs =
     \<lparr> ft_metaindex_handle = handle_of (length (table_data opts bs)) (meta_contents opts bs),
       ft_index_handle = handle_of (length (table_data opts bs @ stored (meta_contents opts bs))) (index_contents opts bs) \<rparr>"

definition table_bytes :: "Options \<Rightarrow> entry list list \<Rightarrow> byte list" where
  "table_bytes opts bs =
     table_data opts bs @ stored (meta_contents opts bs) @ stored (index_contents opts bs)
     @ Footer_EncodeTo [] (table_footer opts bs)"

lemma blocks_bytes_snoc: "blocks_bytes interval (bs @ [es]) = blocks_bytes interval bs @ stored (build_block interval es)"
  by (simp add: blocks_bytes_def)

lemma handle_at_append: "i < length bs \<Longrightarrow> handle_at interval (bs @ cs) i = handle_at interval bs i"
  by (simp add: handle_at_def nth_append)

lemma handle_at_last: "handle_at interval (bs @ [es]) (length bs) = handle_of (length (blocks_bytes interval bs)) (build_block interval es)"
  by (simp add: handle_at_def handle_of_def)

lemma filter_calls_snoc:
  "filter_calls interval (bs @ [es]) [] = filter_calls interval bs es @ [(word_of_nat (length (blocks_bytes interval (bs @ [es]))), [])]"
  by (simp add: filter_calls_def nth_append)

section \<open>Writing\<close>

lemma BlockBuilder_Reset_eq: "BlockBuilder_Reset b = BlockBuilder_new"
  by (simp add: BlockBuilder_Reset_def BlockBuilder_new_def)

context writable_file
begin

lemma WriteRawBlock_ok:
  assumes "sound (tb_file r)" and "tb_offset r = word_of_nat (length (contents (tb_file r)))"
  obtains f where "WriteRawBlock ops d kNoCompression r
      = (handle_of (length (contents (tb_file r))) d,
         r\<lparr> tb_status := StatusOK, tb_file := f,
            tb_offset := word_of_nat (length (contents (tb_file r) @ stored d)) \<rparr>)"
    "sound f" "contents f = contents (tb_file r) @ stored d"
proof -
  obtain f1 where f1: "wf_Append ops d (tb_file r) = (StatusOK, f1)" "sound f1" "contents f1 = contents (tb_file r) @ d"
    using append_cases [OF assms(1)] .
  let ?t = "[compression_code kNoCompression] @ EncodeFixed32 (Mask (Extend 0 (crc_Value 0 d) [compression_code kNoCompression]))"
  obtain f2 where f2: "wf_Append ops ?t f1 = (StatusOK, f2)" "sound f2" "contents f2 = contents f1 @ ?t"
    using append_cases [OF f1(2)] .
  have trailer: "d @ ?t = stored d"
    by (simp add: stored_def Extend_eq crc_Value_def crc_reference_append)
  show thesis
  proof (rule that [of f2])
    show "WriteRawBlock ops d kNoCompression r
      = (handle_of (length (contents (tb_file r))) d,
         r\<lparr> tb_status := StatusOK, tb_file := f2, tb_offset := word_of_nat (length (contents (tb_file r) @ stored d)) \<rparr>)"
      using f1(1) f2(1) assms(2) by (simp add: WriteRawBlock_def Let_def status_ok_def handle_of_def)
    show "sound f2" "contents f2 = contents (tb_file r) @ stored d"
      using f2 f1(3) trailer by simp_all
  qed
qed

lemma WriteBlock_ok:
  assumes "sound (tb_file r)" and "tb_offset r = word_of_nat (length (contents (tb_file r)))"
  obtains f where "WriteBlock ops (add_all interval kvs) r
      = (BlockBuilder_new, handle_of (length (contents (tb_file r))) (build_block interval kvs),
         r\<lparr> tb_status := StatusOK, tb_file := f,
            tb_offset := word_of_nat (length (contents (tb_file r) @ stored (build_block interval kvs))) \<rparr>)"
    "sound f" "contents f = contents (tb_file r) @ stored (build_block interval kvs)"
proof -
  obtain f where f: "WriteRawBlock ops (build_block interval kvs) kNoCompression r
      = (handle_of (length (contents (tb_file r))) (build_block interval kvs),
         r\<lparr> tb_status := StatusOK, tb_file := f,
            tb_offset := word_of_nat (length (contents (tb_file r) @ stored (build_block interval kvs))) \<rparr>)"
    "sound f" "contents f = contents (tb_file r) @ stored (build_block interval kvs)"
    by (rule WriteRawBlock_ok [OF assms])
  have raw: "BlockBuilder_Finish (add_all interval kvs) = (build_block interval kvs, snd (BlockBuilder_Finish (add_all interval kvs)))"
    by (simp add: build_block_eq)
  show thesis
  proof (rule that [OF _ f(2,3)])
    show "WriteBlock ops (add_all interval kvs) r
      = (BlockBuilder_new, handle_of (length (contents (tb_file r))) (build_block interval kvs),
         r\<lparr> tb_status := StatusOK, tb_file := f,
            tb_offset := word_of_nat (length (contents (tb_file r) @ stored (build_block interval kvs))) \<rparr>)"
      unfolding WriteBlock_def
      by (subst raw) (simp add: f(1) Snappy_Compress_def BlockBuilder_Reset_eq split: CompressionType.split)
  qed
qed

end

section \<open>The state of the builder\<close>

text \<open>The data blocks so far, with the one under construction unless it is empty.\<close>

definition all_blocks :: "entry list list \<Rightarrow> entry list \<Rightarrow> entry list list" where
  "all_blocks bs cur = bs @ (if cur = [] then [] else [cur])"

definition filter_state :: "Options \<Rightarrow> entry list list \<Rightarrow> entry list \<Rightarrow> (FilterPolicy \<times> FilterBlockBuilder) option" where
  "filter_state opts bs cur =
     map_option (\<lambda>P. (P, foldl (add_block P) FilterBlockBuilder_new (filter_calls (opt_block_restart_interval opts) bs cur)))
       (opt_filter_policy opts)"

lemma filter_state_key:
  "map_option (\<lambda>(P, b). (P, AddKey k b)) (filter_state opts bs cur) = filter_state opts bs (cur @ [(k, v)])"
  by (cases "opt_filter_policy opts") (simp_all add: filter_state_def filter_calls_def add_block_def)

lemma filter_state_flush:
  "map_option (\<lambda>(P, b). (P, StartBlock P (word_of_nat (length (blocks_bytes (opt_block_restart_interval opts) (bs @ [cur])))) b))
     (filter_state opts bs cur) = filter_state opts (bs @ [cur]) []"
  by (cases "opt_filter_policy opts")
    (simp_all add: filter_state_def filter_calls_snoc add_block_def)

definition tb_rep ::
    "('f \<Rightarrow> byte list) \<Rightarrow> ('f \<Rightarrow> bool) \<Rightarrow> Options \<Rightarrow> entry list list \<Rightarrow> entry list \<Rightarrow> 'f TableBuilder \<Rightarrow> bool" where
  "tb_rep contents sound opts bs cur r \<longleftrightarrow>
     tb_options r = opts \<and> tb_index_block_options r = opts\<lparr> opt_block_restart_interval := 1 \<rparr>
     \<and> sound (tb_file r) \<and> contents (tb_file r) = blocks_bytes (opt_block_restart_interval opts) bs
     \<and> tb_offset r = word_of_nat (length (contents (tb_file r))) \<and> tb_status r = StatusOK
     \<and> tb_data_block r = add_all (opt_block_restart_interval opts) cur
     \<and> tb_index_block r = add_all 1 (index_entries (opt_comparator opts) (opt_block_restart_interval opts)
          (all_blocks bs cur) (length (all_blocks bs cur) - 1))
     \<and> (all_blocks bs cur \<noteq> [] \<longrightarrow> tb_last_key r = last_key (last (all_blocks bs cur)))
     \<and> (tb_pending_index_entry r \<longleftrightarrow> bs \<noteq> [] \<and> cur = [])
     \<and> (tb_pending_index_entry r \<longrightarrow>
          tb_pending_handle r = handle_at (opt_block_restart_interval opts) bs (length bs - 1))
     \<and> tb_filter_block r = filter_state opts bs cur \<and> [] \<notin> set bs"

lemma index_entries_cong:
  assumes "\<And>i. i < n \<Longrightarrow> separator_key c bs i = separator_key c cs i"
    and "\<And>i. i < n \<Longrightarrow> handle_at interval bs i = handle_at interval cs i"
  shows "index_entries c interval bs n = index_entries c interval cs n"
  using assms by (simp add: index_entries_def)

lemma index_entries_Suc:
  "index_entries c interval bs (Suc n) = index_entries c interval bs n
     @ [(separator_key c bs n, BlockHandle_EncodeTo [] (handle_at interval bs n))]"
  by (simp add: index_entries_def)

lemma index_entries_grow:
  "index_entries c interval (bs @ [cur @ es]) (length bs) = index_entries c interval (bs @ [cur]) (length bs)" if "cur \<noteq> []"
  by (rule index_entries_cong)
    (use that in \<open>auto simp: separator_key_def handle_at_def nth_append first_key_def less_Suc_eq\<close>)

lemma index_entries_block:
  "index_entries c interval (bs @ [es]) (length bs - 1) = index_entries c interval bs (length bs - 1)"
  by (rule index_entries_cong) (auto simp: separator_key_def handle_at_def nth_append)

context writable_file
begin

lemma tb_rep_new:
  assumes "sound f" and "contents f = []"
  shows "tb_rep contents sound opts [] [] (TableBuilder_new opts f)"
proof -
  have "map_option (\<lambda>p. (p, StartBlock p 0 FilterBlockBuilder_new)) (opt_filter_policy opts) = filter_state opts [] []"
    by (simp add: filter_state_def filter_calls_def add_block_def blocks_bytes_def)
  then show ?thesis
    using assms by (simp add: tb_rep_def TableBuilder_new_def blocks_bytes_def add_all_Nil all_blocks_def index_entries_def)
qed

lemma tb_rep_Flush:
  assumes "tb_rep contents sound opts bs cur r" and "1 \<le> opt_block_restart_interval opts"
  shows "tb_rep contents sound opts (if cur = [] then bs else bs @ [cur]) [] (TableBuilder_Flush ops r)"
proof (cases "cur = []")
  case True
  then have "TableBuilder_Flush ops r = r"
    using assms add_all_empty [OF assms(2), of "[]"]
    by (simp add: TableBuilder_Flush_def tb_rep_def)
  then show ?thesis using assms(1) True by simp
next
  case False
  note rep = assms(1) [unfolded tb_rep_def]
  let ?I = "opt_block_restart_interval opts"
  from rep have snd: "sound (tb_file r)" and off: "tb_offset r = word_of_nat (length (contents (tb_file r)))" by auto
  obtain f where f: "WriteBlock ops (add_all ?I cur) r
      = (BlockBuilder_new, handle_of (length (contents (tb_file r))) (build_block ?I cur),
         r\<lparr> tb_status := StatusOK, tb_file := f,
            tb_offset := word_of_nat (length (contents (tb_file r) @ stored (build_block ?I cur))) \<rparr>)"
    "sound f" "contents f = contents (tb_file r) @ stored (build_block ?I cur)"
    by (rule WriteBlock_ok [OF snd off])
  obtain f' where f': "wf_Flush ops f = (StatusOK, f')" "sound f'" "contents f' = contents f"
    by (rule flush_cases [OF f(2)])
  have c: "contents f' = blocks_bytes ?I (bs @ [cur])" using f(3) f'(3) rep by (simp add: blocks_bytes_snoc)
  have ne: "\<not> BlockBuilder_empty (tb_data_block r)" using add_all_empty [OF assms(2), of cur] False rep by simp
  have flush: "TableBuilder_Flush ops r = r\<lparr> tb_status := StatusOK, tb_file := f',
      tb_offset := word_of_nat (length (blocks_bytes ?I (bs @ [cur]))), tb_data_block := BlockBuilder_new,
      tb_pending_handle := handle_of (length (blocks_bytes ?I bs)) (build_block ?I cur),
      tb_pending_index_entry := True, tb_filter_block := filter_state opts (bs @ [cur]) [] \<rparr>"
    using f(1) f'(1) ne rep filter_state_flush [of opts bs cur]
    by (simp add: TableBuilder_Flush_def tb_ok_def status_ok_def blocks_bytes_snoc)
  show ?thesis
    unfolding flush using rep c f'(2) False
    by (auto simp: tb_rep_def all_blocks_def add_all_Nil handle_at_last)
qed

lemma tb_rep_Add:
  assumes "tb_rep contents sound opts bs cur r" and "1 \<le> opt_block_restart_interval opts"
  shows "\<exists>bs' cur'. tb_rep contents sound opts bs' cur' (TableBuilder_Add ops k v r)
    \<and> concat bs' @ cur' = concat bs @ cur @ [(k, v)]"
proof -
  note rep = assms(1) [unfolded tb_rep_def]
  let ?I = "opt_block_restart_interval opts" and ?c = "opt_comparator opts"
  define r1 where "r1 = (if tb_pending_index_entry r
      then add_index_entry (cmp_FindShortestSeparator (opt_comparator (tb_options r)) (tb_last_key r) k) r else r)"
  define r2 where "r2 = r1\<lparr> tb_filter_block := map_option (\<lambda>(p, b). (p, AddKey k b)) (tb_filter_block r1),
      tb_last_key := k, tb_num_entries := tb_num_entries r1 + 1,
      tb_data_block := BlockBuilder_Add (opt_block_restart_interval (tb_options r1)) k v (tb_data_block r1) \<rparr>"
  have index: "tb_index_block r1 = add_all 1 (index_entries ?c ?I (bs @ [cur @ [(k, v)]]) (length bs))"
  proof (cases "tb_pending_index_entry r")
    case True
    then have p: "bs \<noteq> []" "cur = []" using rep by auto
    then obtain bs0 es where bs: "bs = bs0 @ [es]" by (metis append_butlast_last_id)
    have "index_entries ?c ?I (bs @ [cur @ [(k, v)]]) (length bs)
        = index_entries ?c ?I bs (length bs0)
          @ [(cmp_FindShortestSeparator ?c (tb_last_key r) k, BlockHandle_EncodeTo [] (tb_pending_handle r))]"
      using index_entries_block [of ?c ?I bs "cur @ [(k, v)]"] rep True p
      by (simp add: bs index_entries_Suc all_blocks_def separator_key_def first_key_def nth_append handle_at_def)
    then show ?thesis
      using rep True p by (simp add: r1_def add_index_entry_def add_all_snoc all_blocks_def bs)
  next
    case False
    show ?thesis
    proof (cases "cur = []")
      case True
      then have "bs = []" using False rep by auto
      then show ?thesis using False True rep by (simp add: r1_def all_blocks_def index_entries_def)
    next
      case ne: False
      then show ?thesis
        using False rep index_entries_grow [OF ne, of ?c ?I bs "[(k, v)]"] by (simp add: r1_def all_blocks_def)
    qed
  qed
  have same: "tb_options r1 = opts" "tb_index_block_options r1 = tb_index_block_options r" "tb_file r1 = tb_file r"
    "tb_offset r1 = tb_offset r" "tb_status r1 = StatusOK" "tb_data_block r1 = tb_data_block r" "tb_filter_block r1 = tb_filter_block r"
    "\<not> tb_pending_index_entry r1"
    using rep by (simp_all add: r1_def add_index_entry_def)
  have r2: "tb_rep contents sound opts bs (cur @ [(k, v)]) r2"
    using rep same index filter_state_key [of k opts bs cur v]
    by (simp add: tb_rep_def r2_def all_blocks_def add_all_snoc last_key_def)
  have add: "TableBuilder_Add ops k v r
      = (if opt_block_size (tb_options r2) \<le> CurrentSizeEstimate (tb_data_block r2) then TableBuilder_Flush ops r2 else r2)"
  proof -
    have "(\<not> tb_ok r) = False" using rep by (simp add: tb_ok_def status_ok_def)
    then show ?thesis by (simp only: TableBuilder_Add_def Let_def if_False r1_def r2_def)
  qed
  show ?thesis
  proof (cases "opt_block_size (tb_options r2) \<le> CurrentSizeEstimate (tb_data_block r2)")
    case True
    then have "tb_rep contents sound opts (bs @ [cur @ [(k, v)]]) [] (TableBuilder_Add ops k v r)"
      using tb_rep_Flush [OF r2 assms(2)] add by simp
    then show ?thesis by (intro exI [of _ "bs @ [cur @ [(k, v)]]"] exI [of _ "[]"]) simp
  next
    case False
    then show ?thesis using r2 add by (intro exI [of _ bs] exI [of _ "cur @ [(k, v)]"]) simp
  qed
qed

lemma tb_rep_Adds:
  "tb_rep contents sound opts bs cur r \<Longrightarrow> 1 \<le> opt_block_restart_interval opts \<Longrightarrow>
     \<exists>bs' cur'. tb_rep contents sound opts bs' cur' (foldl (\<lambda>r (k, v). TableBuilder_Add ops k v r) r kvs)
       \<and> concat bs' @ cur' = concat bs @ cur @ kvs"
proof (induction kvs arbitrary: bs cur r)
  case (Cons kv kvs)
  obtain k v where kv: "kv = (k, v)" by (cases kv)
  from tb_rep_Add [OF Cons.prems] obtain bs1 cur1 where r1:
    "tb_rep contents sound opts bs1 cur1 (TableBuilder_Add ops k v r)" "concat bs1 @ cur1 = concat bs @ cur @ [(k, v)]" by blast
  from Cons.IH [OF r1(1) Cons.prems(2)] obtain bs' cur' where
    "tb_rep contents sound opts bs' cur' (foldl (\<lambda>r (k, v). TableBuilder_Add ops k v r) (TableBuilder_Add ops k v r) kvs)"
    "concat bs' @ cur' = concat bs1 @ cur1 @ kvs" by blast
  then show ?case
    using r1(2) by (intro exI [of _ bs'] exI [of _ cur']) (simp add: kv flip: append_assoc)
qed auto

text \<open>What is left of the state while the parts at the end of the file are written.\<close>

definition at_end :: "Options \<Rightarrow> entry list list \<Rightarrow> byte list \<Rightarrow> 'f TableBuilder \<Rightarrow> bool" where
  "at_end opts bs written r \<longleftrightarrow>
     tb_options r = opts \<and> tb_index_block_options r = opts\<lparr> opt_block_restart_interval := 1 \<rparr>
     \<and> sound (tb_file r) \<and> contents (tb_file r) = written
     \<and> tb_offset r = word_of_nat (length written) \<and> tb_status r = StatusOK
     \<and> tb_index_block r = add_all 1 (index_entries (opt_comparator opts) (opt_block_restart_interval opts) bs (length bs - 1))
     \<and> (tb_pending_index_entry r \<longleftrightarrow> bs \<noteq> [])
     \<and> (bs \<noteq> [] \<longrightarrow> tb_last_key r = last_key (last bs)
          \<and> tb_pending_handle r = handle_at (opt_block_restart_interval opts) bs (length bs - 1))
     \<and> (tb_filter_block r = None \<longleftrightarrow> opt_filter_policy opts = None)"

lemma tb_rep_at_end:
  "tb_rep contents sound opts bs [] r \<Longrightarrow> at_end opts bs (blocks_bytes (opt_block_restart_interval opts) bs) (r\<lparr> tb_closed := True \<rparr>)"
  by (auto simp: tb_rep_def at_end_def all_blocks_def filter_state_def)

lemma write_filter_ok:
  assumes "tb_rep contents sound opts bs [] r0" and "r = r0\<lparr> tb_closed := True \<rparr>"
  obtains h r' where "write_filter_block ops r = (h, r')" "at_end opts bs (table_data opts bs) r'"
    "opt_filter_policy opts \<noteq> None \<Longrightarrow>
       h = handle_of (length (blocks_bytes (opt_block_restart_interval opts) bs)) (the (filter_contents opts bs))"
proof (cases "opt_filter_policy opts")
  case None
  then have "tb_filter_block r = None" using assms by (simp add: tb_rep_def filter_state_def)
  then have "write_filter_block ops r = (BlockHandle_new, r)" by (simp add: write_filter_block_def)
  then show thesis
    using that tb_rep_at_end [OF assms(1)] assms(2) None by (simp add: table_data_def filter_contents_def)
next
  case (Some P)
  note e = tb_rep_at_end [OF assms(1), folded assms(2), unfolded at_end_def]
  let ?calls = "filter_calls (opt_block_restart_interval opts) bs []"
  let ?b = "foldl (add_block P) FilterBlockBuilder_new ?calls"
  have flt: "tb_filter_block r = Some (P, ?b)" using assms Some by (simp add: tb_rep_def filter_state_def)
  let ?r = "r\<lparr> tb_filter_block := Some (P, snd (Filter_Finish P ?b)) \<rparr>"
  have d: "fst (Filter_Finish P ?b) = the (filter_contents opts bs)"
    by (simp add: filter_contents_def build_filter_block_def Some)
  have "sound (tb_file ?r)" "tb_offset ?r = word_of_nat (length (contents (tb_file ?r)))" using e by auto
  then obtain f where f: "WriteRawBlock ops (the (filter_contents opts bs)) kNoCompression ?r
      = (handle_of (length (contents (tb_file ?r))) (the (filter_contents opts bs)),
         ?r\<lparr> tb_status := StatusOK, tb_file := f,
            tb_offset := word_of_nat (length (contents (tb_file ?r) @ stored (the (filter_contents opts bs)))) \<rparr>)"
    "sound f" "contents f = contents (tb_file ?r) @ stored (the (filter_contents opts bs))"
    by (rule WriteRawBlock_ok)
  have "table_data opts bs = blocks_bytes (opt_block_restart_interval opts) bs @ stored (the (filter_contents opts bs))"
    by (simp add: table_data_def filter_contents_def Some)
  moreover have "write_filter_block ops r = WriteRawBlock ops (the (filter_contents opts bs)) kNoCompression ?r"
    using flt e d by (simp add: write_filter_block_def tb_ok_def status_ok_def case_prod_unfold)
  ultimately show thesis
    using f e Some by (intro that) (auto simp: at_end_def)
qed

lemma write_meta_ok:
  assumes "at_end opts bs (table_data opts bs) r"
    and "opt_filter_policy opts \<noteq> None \<Longrightarrow>
       h = handle_of (length (blocks_bytes (opt_block_restart_interval opts) bs)) (the (filter_contents opts bs))"
  obtains r' where "write_metaindex_block ops h r = (handle_of (length (table_data opts bs)) (meta_contents opts bs), r')"
    "at_end opts bs (table_data opts bs @ stored (meta_contents opts bs)) r'"
proof -
  note e = assms(1) [unfolded at_end_def]
  let ?I = "opt_block_restart_interval opts"
  have "sound (tb_file r)" "tb_offset r = word_of_nat (length (contents (tb_file r)))" using e by auto
  then obtain f where f: "WriteBlock ops (add_all ?I (meta_entries opts bs)) r
      = (BlockBuilder_new, handle_of (length (contents (tb_file r))) (build_block ?I (meta_entries opts bs)),
         r\<lparr> tb_status := StatusOK, tb_file := f,
            tb_offset := word_of_nat (length (contents (tb_file r) @ stored (build_block ?I (meta_entries opts bs)))) \<rparr>)"
    "sound f" "contents f = contents (tb_file r) @ stored (build_block ?I (meta_entries opts bs))"
    by (rule WriteBlock_ok)
  have meta: "(case tb_filter_block r of None \<Rightarrow> BlockBuilder_new
      | Some _ \<Rightarrow> let name = (case opt_filter_policy (tb_options r) of None \<Rightarrow> [] | Some p \<Rightarrow> fp_Name p);
                     key = string_bytes (''filter.'' @ name)
                 in BlockBuilder_Add (opt_block_restart_interval (tb_options r)) key (BlockHandle_EncodeTo [] h) BlockBuilder_new)
      = add_all ?I (meta_entries opts bs)"
    using e assms(2)
    by (cases "opt_filter_policy opts"; cases "tb_filter_block r")
      (simp_all add: meta_entries_def add_all_def filter_key_def)
  have result: "write_metaindex_block ops h r = (handle_of (length (contents (tb_file r))) (build_block ?I (meta_entries opts bs)),
      r\<lparr> tb_status := StatusOK, tb_file := f,
         tb_offset := word_of_nat (length (contents (tb_file r) @ stored (build_block ?I (meta_entries opts bs)))) \<rparr>)"
  proof -
    have "tb_ok r = True" using e by (simp add: tb_ok_def status_ok_def)
    then show ?thesis
      unfolding write_metaindex_block_def by (simp only: if_True Let_def [of BlockBuilder_new] meta) (simp add: f(1))
  qed
  show thesis
    by (rule that) (use result f(2,3) e in \<open>auto simp: at_end_def meta_contents_def\<close>)
qed

lemma write_index_ok:
  assumes "at_end opts bs written r"
  obtains r' where "write_index_block ops r = (handle_of (length written) (index_contents opts bs), r')"
    "tb_status r' = StatusOK" "sound (tb_file r')" "contents (tb_file r') = written @ stored (index_contents opts bs)"
    "tb_offset r' = word_of_nat (length (written @ stored (index_contents opts bs)))"
proof -
  note e = assms [unfolded at_end_def]
  let ?es = "index_entries (opt_comparator opts) (opt_block_restart_interval opts) bs (length bs)"
  define r1 where "r1 = (if tb_pending_index_entry r
      then add_index_entry (cmp_FindShortSuccessor (opt_comparator (tb_options r)) (tb_last_key r)) r else r)"
  have index: "tb_index_block r1 = add_all 1 ?es"
  proof (cases "bs = []")
    case True
    then show ?thesis using e by (simp add: r1_def)
  next
    case False
    then obtain bs0 es where bs: "bs = bs0 @ [es]" by (metis append_butlast_last_id)
    show ?thesis
      using e by (simp add: r1_def bs add_index_entry_def index_entries_Suc add_all_snoc separator_key_def)
  qed
  have same: "tb_file r1 = tb_file r" "tb_offset r1 = tb_offset r" by (simp_all add: r1_def add_index_entry_def)
  have "sound (tb_file r1)" "tb_offset r1 = word_of_nat (length (contents (tb_file r1)))" using e same by auto
  then obtain f where f: "WriteBlock ops (add_all 1 ?es) r1
      = (BlockBuilder_new, handle_of (length (contents (tb_file r1))) (build_block 1 ?es),
         r1\<lparr> tb_status := StatusOK, tb_file := f,
            tb_offset := word_of_nat (length (contents (tb_file r1) @ stored (build_block 1 ?es))) \<rparr>)"
    "sound f" "contents f = contents (tb_file r1) @ stored (build_block 1 ?es)"
    by (rule WriteBlock_ok)
  have result: "write_index_block ops r = (handle_of (length (contents (tb_file r1))) (build_block 1 ?es),
      r1\<lparr> tb_status := StatusOK, tb_file := f,
         tb_offset := word_of_nat (length (contents (tb_file r1) @ stored (build_block 1 ?es))),
         tb_index_block := BlockBuilder_new \<rparr>)"
  proof -
    have "tb_ok r = True" using e by (simp add: tb_ok_def status_ok_def)
    then show ?thesis
      unfolding write_index_block_def by (simp only: if_True Let_def [of "If a b c" for a b c] r1_def [symmetric]) (simp add: index f(1) del: One_nat_def)
  qed
  show thesis
    by (rule that) (use result f(2,3) e same in \<open>auto simp: index_contents_def\<close>)
qed

lemma Finish_ok:
  assumes "tb_rep contents sound opts bs cur r" and "1 \<le> opt_block_restart_interval opts"
  obtains r' where "TableBuilder_Finish ops r = (StatusOK, r')" "sound (tb_file r')"
    "contents (tb_file r') = table_bytes opts (if cur = [] then bs else bs @ [cur])"
    "FileSize r' = word_of_nat (length (table_bytes opts (if cur = [] then bs else bs @ [cur])))"
proof -
  define bs' where "bs' = (if cur = [] then bs else bs @ [cur])"
  have r0: "tb_rep contents sound opts bs' [] (TableBuilder_Flush ops r)"
    unfolding bs'_def by (rule tb_rep_Flush [OF assms])
  obtain h r1 where r1: "write_filter_block ops (TableBuilder_Flush ops r\<lparr> tb_closed := True \<rparr>) = (h, r1)"
    "at_end opts bs' (table_data opts bs') r1"
    "opt_filter_policy opts \<noteq> None \<Longrightarrow>
       h = handle_of (length (blocks_bytes (opt_block_restart_interval opts) bs')) (the (filter_contents opts bs'))"
    using write_filter_ok [OF r0 refl] by blast
  obtain r2 where r2: "write_metaindex_block ops h r1 = (handle_of (length (table_data opts bs')) (meta_contents opts bs'), r2)"
    "at_end opts bs' (table_data opts bs' @ stored (meta_contents opts bs')) r2"
    by (rule write_meta_ok [OF r1(2,3)])
  obtain r3 where r3: "write_index_block ops r2
      = (handle_of (length (table_data opts bs' @ stored (meta_contents opts bs'))) (index_contents opts bs'), r3)"
    "tb_status r3 = StatusOK" "sound (tb_file r3)"
    "contents (tb_file r3) = (table_data opts bs' @ stored (meta_contents opts bs')) @ stored (index_contents opts bs')"
    "tb_offset r3 = word_of_nat (length ((table_data opts bs' @ stored (meta_contents opts bs')) @ stored (index_contents opts bs')))"
    by (rule write_index_ok [OF r2(2)])
  have footer: "Footer_new\<lparr> ft_metaindex_handle := handle_of (length (table_data opts bs')) (meta_contents opts bs'),
      ft_index_handle := handle_of (length (table_data opts bs' @ stored (meta_contents opts bs'))) (index_contents opts bs') \<rparr>
    = table_footer opts bs'" by (simp add: Footer_new_def table_footer_def)
  obtain f where f: "wf_Append ops (Footer_EncodeTo [] (table_footer opts bs')) (tb_file r3) = (StatusOK, f)" "sound f"
    "contents f = contents (tb_file r3) @ Footer_EncodeTo [] (table_footer opts bs')" by (rule append_cases [OF r3(3)])
  define r4 where "r4 = r3\<lparr> tb_status := StatusOK, tb_file := f,
    tb_offset := tb_offset r3 + word_of_nat (length (Footer_EncodeTo [] (table_footer opts bs'))) \<rparr>"
  have r4: "write_footer ops (handle_of (length (table_data opts bs')) (meta_contents opts bs'))
      (handle_of (length (table_data opts bs' @ stored (meta_contents opts bs'))) (index_contents opts bs')) r3 = r4"
    unfolding write_footer_def footer by (simp add: f(1) r3(2) tb_ok_def status_ok_def r4_def)
  have finish: "TableBuilder_Finish ops r = (StatusOK, r4)"
    unfolding TableBuilder_Finish_def Let_def r1(1) prod.case r2(1) r3(1) r4 by (simp add: r4_def)
  show thesis
    by (rule that [OF finish]) (simp_all add: r4_def f(2,3) r3(4,5) bs'_def [symmetric] table_bytes_def FileSize_def)
qed

text \<open>A table with all its entries.\<close>

lemma build_table:
  assumes "sound f" and "contents f = []" and "1 \<le> opt_block_restart_interval opts"
  obtains bs r where "TableBuilder_Finish ops (foldl (\<lambda>r (k, v). TableBuilder_Add ops k v r) (TableBuilder_new opts f) kvs)
      = (StatusOK, r)" "sound (tb_file r)" "contents (tb_file r) = table_bytes opts bs"
    "FileSize r = word_of_nat (length (table_bytes opts bs))" "concat bs = kvs" "[] \<notin> set bs"
proof -
  from tb_rep_Adds [OF tb_rep_new [OF assms(1,2)] assms(3), of kvs] obtain bs cur where b:
    "tb_rep contents sound opts bs cur (foldl (\<lambda>r (k, v). TableBuilder_Add ops k v r) (TableBuilder_new opts f) kvs)"
    "concat bs @ cur = kvs" by auto
  have ne: "[] \<notin> set bs" using b(1) by (simp add: tb_rep_def)
  let ?bs = "if cur = [] then bs else bs @ [cur]"
  have all: "concat ?bs = kvs" "[] \<notin> set ?bs" using b(2) ne by auto
  show thesis by (rule Finish_ok [OF b(1) assms(3)]) (rule that [OF _ _ _ _ all])
qed

end

end
