(* ===== verification/Ldb_Table_Read.thy ===== *)
theory Ldb_Table_Read
  imports Ldb_Table_Spec
begin

text \<open>
  Opening a table file and looking keys up in it: the reader of \<^verbatim>\<open>table/table.cc\<close> on the bytes that the
  builder writes.
\<close>

section \<open>The iterator of a block that was built\<close>

lemma lower_bound_single: "cmp_Compare c k k = 0 \<Longrightarrow> lower_bound c k [(k, v)] = 0"
  by (simp add: lower_bound_def)

context comparator
begin

lemma built_block_view:
  assumes "1 \<le> interval" and "sorted_entries c kvs" and "\<And>e. e \<in> set kvs \<Longrightarrow> valid (fst e)"
    and "length (build_block interval kvs) < 2 ^ 32"
  shows "block_view c valid kvs (Block_NewIterator (Block_new (build_block interval kvs))) (length kvs)"
proof -
  from build_block_layout [OF assms(1)] obtain ents rs where l:
    "good_layout ents rs" "map snd ents = kvs" "build_block interval kvs = block_bytes ents rs" by blast
  have ok: "ok_layout ents rs" using l(1,3) assms(4) by (simp add: ok_layout_def)
  let ?d = "block_bytes ents rs"
  let ?ws = "map (\<lambda>r. word_of_nat (offset_of ents r) :: 32 word) rs @ [word_of_nat (length rs)]"
  have len: "length ?d = offset_of ents (length ents) + 4 * (length rs + 1)" by (rule length_block_bytes)
  have d: "?d = concat (map entry_enc ents) @ concat (map EncodeFixed32 ?ws)" by (simp only: block_bytes_def)
  have "DecodeFixed32 (drop (4 * length rs) (concat (map EncodeFixed32 ?ws) @ [])) = ?ws ! length rs"
    by (rule DecodeFixed32_nth) simp
  moreover have "drop (length ?d - 4) ?d = drop (4 * length rs) (concat (map EncodeFixed32 ?ws) @ [])"
    unfolding d by (simp add: drop_fixed32s del: map_append map_map concat_append)
  ultimately have num: "NumRestarts ?d (length ?d) = word_of_nat (length rs)"
    by (simp add: NumRestarts_def nth_append)
  have unum: "unat (word_of_nat (length rs) :: 32 word) = length rs" by (rule unat_index [OF ok order_refl])
  have "length rs + 1 < 2 ^ 32" using length_rs_small [OF ok] by simp
  then have unum1: "unat (1 + word_of_nat (length rs) :: 32 word) = length rs + 1"
    using unat_length [of "length rs + 1"] by (simp add: add.commute)
  have rs: "rs \<noteq> []" using l(1) by (simp add: good_layout_def)
  have allowed: "\<not> (length ?d - 4) div 4 < length rs" "\<not> length ?d < 4" "length ?d - (length rs + 1) * 4 = offset_of ents (length ents)"
    unfolding len by simp_all
  have block: "Block_new ?d = \<lparr> bk_data = ?d, bk_size = length ?d, bk_restart_offset = word_of_nat (offset_of ents (length ents)) \<rparr>"
    by (simp only: Block_new_def Let_def num unum unum1 allowed if_False)
  have "word_of_nat (length rs) \<noteq> (0 :: 32 word)" using unum rs by (metis length_0_conv unat_0)
  then have iter: "Block_NewIterator (Block_new ?d)
      = Entries (BlockIter_new ?d (word_of_nat (offset_of ents (length ents))) (word_of_nat (length rs)))"
    using allowed(2) unfolding block by (simp add: Block_NewIterator_def num)
  have "bi_past ents rs (BlockIter_new ?d (word_of_nat (offset_of ents (length ents))) (word_of_nat (length rs)))"
    by (simp add: bi_past_def bi_base_def BlockIter_new_def)
  moreover have "length ents = length kvs" using l(2) by auto
  ultimately have "bi_stands ents rs (BlockIter_new ?d (word_of_nat (offset_of ents (length ents))) (word_of_nat (length rs))) (length kvs)"
    by (simp add: bi_stands_def)
  then show ?thesis unfolding l(3) iter block_view_def using assms(2,3) l(2) ok by blast
qed

end

section \<open>Reading a stored block\<close>

context random_access_file
begin

lemma ReadBlock_stored:
  assumes "sound f" and "contents f = pre @ stored d @ post"
  obtains b where "ReadBlock ops f verify (handle_of (length pre) d) = Some (StatusOK, b)" "bc_data b = d"
proof -
  let ?h = "handle_of (length pre) d"
  have len: "length pre + (length d + 5) \<le> length (contents f)" using assms(2) by (simp add: kBlockTrailerSize_def)
  have "length (contents f) < 2 ^ 63" by (rule small [OF assms(1)])
  then have bound: "length pre + length d + 5 < 2 ^ 63" using len by simp
  have n: "unat (bh_size ?h) = length d" "unat (bh_offset ?h) = length pre"
    using bound by (simp_all add: handle_of_def unat_of_nat take_bit_nat_eq_self)
  have total: "unat (bh_size ?h + word_of_nat kBlockTrailerSize) = length d + 5"
  proof -
    have "unat (bh_size ?h + 5) = unat (bh_size ?h) + unat (5 :: 64 word)" by (rule unat_plus_64) (use n bound in simp)
    then show ?thesis using n by (simp add: kBlockTrailerSize_def)
  qed
  obtain scratch where "raf_Read ops (bh_offset ?h) (bh_size ?h + word_of_nat kBlockTrailerSize) f
      = Some (take (length d + 5) (drop (length pre) (contents f)), scratch, StatusOK)"
    using read_at [OF assms(1), of "bh_offset ?h" "bh_size ?h + word_of_nat kBlockTrailerSize"] n total len by auto
  moreover have "take (length d + 5) (drop (length pre) (contents f)) = stored d"
    unfolding assms(2) by (simp add: kBlockTrailerSize_def)
  ultimately have read: "raf_Read ops (bh_offset ?h) (bh_size ?h + word_of_nat kBlockTrailerSize) f
      = Some (stored d, scratch, StatusOK)" by simp
  have parts: "take (length d + 1) (stored d) = d @ [0]" "take (length d) (stored d) = d" "stored d ! length d = 0"
    "DecodeFixed32 (drop (length d + 1) (stored d)) = Mask (crc_reference 0 (d @ [0]))"
    by (simp_all add: stored_def nth_append)
  have crc: "crc_Value 0 (d @ [0]) = Unmask (Mask (crc_reference 0 (d @ [0])))"
    by (simp add: crc_Value_def Extend_eq)
  have len: "length (stored d) = length d + 5" "length d + kBlockTrailerSize = length d + 5"
    by (simp_all add: kBlockTrailerSize_def)
  have "ReadBlock ops f verify ?h = Some (StatusOK, \<lparr> bc_data = d, bc_cachable = scratch, bc_heap_allocated = scratch \<rparr>)"
    unfolding ReadBlock_def Let_def read option.case prod.case total len n parts crc by (simp add: status_ok_def)
  then show thesis by (rule that) simp
qed

end

section \<open>Sorted blocks\<close>

lemma concat_nth_split: "i < length bs \<Longrightarrow> concat bs = concat (take i bs) @ bs ! i @ concat (drop (Suc i) bs)"
  using id_take_nth_drop [of i bs] by (metis concat.simps(2) concat_append)

definition sorted_blocks :: "Comparator \<Rightarrow> (slice \<Rightarrow> bool) \<Rightarrow> entry list list \<Rightarrow> bool" where
  "sorted_blocks c valid bs \<longleftrightarrow> sorted_entries c (concat bs) \<and> [] \<notin> set bs \<and> (\<forall>e \<in> set (concat bs). valid (fst e))"

context comparator
begin

lemma sorted_block: "sorted_blocks c valid bs \<Longrightarrow> i < length bs \<Longrightarrow> sorted_entries c (bs ! i)"
  by (auto simp: sorted_blocks_def sorted_entries_def concat_nth_split [of i bs] sorted_wrt_append)

lemma sorted_across:
  assumes "sorted_blocks c valid bs" and "i < j" and "j < length bs" and "e \<in> set (bs ! i)" and "e' \<in> set (bs ! j)"
  shows "cmp_Compare c (fst e) (fst e') < 0"
proof -
  have "bs ! j \<in> set (drop (Suc i) bs)" using assms(2,3) by (auto simp: in_set_conv_nth intro!: exI [of _ "j - Suc i"])
  then have "e' \<in> set (concat (drop (Suc i) bs))" using assms(5) by auto
  then show ?thesis
    using assms concat_nth_split [of i bs] by (auto simp: sorted_blocks_def sorted_entries_def sorted_wrt_append)
qed

lemma block_valid: "sorted_blocks c valid bs \<Longrightarrow> i < length bs \<Longrightarrow> e \<in> set (bs ! i) \<Longrightarrow> valid (fst e)"
  by (auto simp: sorted_blocks_def)

lemma block_ne: "sorted_blocks c valid bs \<Longrightarrow> i < length bs \<Longrightarrow> bs ! i \<noteq> []"
  by (auto simp: sorted_blocks_def in_set_conv_nth)

lemma le_last_key:
  assumes "sorted_blocks c valid bs" and "i < length bs" and "e \<in> set (bs ! i)"
  shows "cmp_Compare c (fst e) (last_key (bs ! i)) \<le> 0"
proof -
  have srt: "sorted_entries c (bs ! i)" by (rule sorted_block [OF assms(1,2)])
  obtain es l where split: "bs ! i = es @ [l]" using block_ne [OF assms(1,2)] by (metis append_butlast_last_id)
  show ?thesis
  proof (cases "e = l")
    case True
    then show ?thesis using compare_refl block_valid [OF assms] by (simp add: last_key_def split)
  next
    case False
    then have "e \<in> set es" using assms(3) split by simp
    then have "cmp_Compare c (fst e) (fst l) < 0"
      using srt by (simp add: split sorted_entries_def sorted_wrt_append)
    then show ?thesis by (simp add: last_key_def split)
  qed
qed

lemma block_keys_valid:
  assumes "sorted_blocks c valid bs" and "i < length bs"
  shows "valid (last_key (bs ! i))" "valid (first_key (bs ! i))"
  using block_valid [OF assms] block_ne [OF assms] by (simp_all add: last_key_def first_key_def)

lemma last_less_first:
  "sorted_blocks c valid bs \<Longrightarrow> i < j \<Longrightarrow> j < length bs \<Longrightarrow> cmp_Compare c (last_key (bs ! i)) (first_key (bs ! j)) < 0"
  using sorted_across [of bs i j "last (bs ! i)" "hd (bs ! j)"] block_ne [of bs i] block_ne [of bs j]
  by (simp add: last_key_def first_key_def)

lemma separator_key_facts:
  assumes "sorted_blocks c valid bs" and "i < length bs"
  shows "valid (separator_key c bs i)" "cmp_Compare c (last_key (bs ! i)) (separator_key c bs i) \<le> 0"
    "i + 1 < length bs \<Longrightarrow> cmp_Compare c (separator_key c bs i) (first_key (bs ! (i + 1))) < 0"
proof -
  note v = block_keys_valid [OF assms]
  show "valid (separator_key c bs i)" "cmp_Compare c (last_key (bs ! i)) (separator_key c bs i) \<le> 0"
    "i + 1 < length bs \<Longrightarrow> cmp_Compare c (separator_key c bs i) (first_key (bs ! (i + 1))) < 0"
    using successor [OF v(1)] separator [OF v(1) block_keys_valid(2) [OF assms(1)] last_less_first [OF assms(1), of i "i + 1"]]
    by (auto simp: separator_key_def)
qed

lemma separators_sorted:
  assumes "sorted_blocks c valid bs" and "i < j" and "j < length bs"
  shows "cmp_Compare c (separator_key c bs i) (separator_key c bs j) < 0"
proof -
  have i: "i < length bs" "i + 1 < length bs" "i + 1 \<le> j" using assms(2,3) by auto
  have "cmp_Compare c (first_key (bs ! (i + 1))) (last_key (bs ! j)) \<le> 0"
  proof (cases "i + 1 = j")
    case True
    then show ?thesis using le_last_key [OF assms(1,3), of "hd (bs ! j)"] block_ne [OF assms(1,3)] by (simp add: first_key_def)
  next
    case False
    then show ?thesis
      using sorted_across [OF assms(1), of "i + 1" j "hd (bs ! (i + 1))" "last (bs ! j)"] i assms(3) block_ne [OF assms(1)]
      by (simp add: first_key_def last_key_def)
  qed
  moreover note f = separator_key_facts [OF assms(1) i(1)] separator_key_facts [OF assms(1,3)]
  moreover note v = block_keys_valid [OF assms(1) i(2)] block_keys_valid [OF assms(1,3)]
  ultimately have le: "cmp_Compare c (separator_key c bs i) (last_key (bs ! j)) < 0"
    using compare_trans [OF f(1) v(2,3) f(3) [OF i(2)]] compare_eq [OF v(2,3)] f(3) [OF i(2)]
    by (cases "cmp_Compare c (first_key (bs ! (i + 1))) (last_key (bs ! j)) = 0") auto
  show ?thesis
    using compare_trans [OF f(1) v(3) f(4) le] compare_eq [OF v(3) f(4)] f(5) le
    by (cases "cmp_Compare c (last_key (bs ! j)) (separator_key c bs j) = 0") auto
qed

lemma index_sorted: "sorted_blocks c valid bs \<Longrightarrow> sorted_entries c (index_entries c interval bs (length bs))"
  using separators_sorted by (auto simp: sorted_entries_def index_entries_def sorted_wrt_iff_nth_less)

lemma index_valid: "sorted_blocks c valid bs \<Longrightarrow> e \<in> set (index_entries c interval bs (length bs)) \<Longrightarrow> valid (fst e)"
  using separator_key_facts(1) by (auto simp: index_entries_def)

end

section \<open>Opening the file\<close>

text \<open>
  Two keys for which a lookup has to find an entry: the filter and the separators of the
  index must not come between them.
\<close>

locale table_reader = comparator c valid + random_access_file ops contents sound
  for c valid and ops :: "'f RandomAccessFile" and contents sound +
  fixes opts :: Options and same :: "slice \<Rightarrow> slice \<Rightarrow> bool"
  assumes same_comparator: "opt_comparator opts = c"
    and policy: "opt_filter_policy opts = Some P \<Longrightarrow> filter_policy P"
    and same_filter: "opt_filter_policy opts = Some P \<Longrightarrow> same k k' \<Longrightarrow> k' \<in> set ks \<Longrightarrow>
      fp_KeyMayMatch P k (fp_CreateFilter P ks [])"
    and same_separator: "valid a \<Longrightarrow> valid b \<Longrightarrow> valid k \<Longrightarrow> same k b \<Longrightarrow> cmp_Compare c a b < 0 \<Longrightarrow>
      cmp_Compare c a k < 0 \<Longrightarrow> cmp_Compare c (cmp_FindShortestSeparator c a b) k < 0"

lemma lt_trans_sizes:
  "length (table_bytes opts bs) = length (table_data opts bs) + length (stored (meta_contents opts bs))
     + length (stored (index_contents opts bs)) + kEncodedLength"
  by (simp add: table_bytes_def length_Footer)

lemma blocks_bytes_split:
  "i < length bs \<Longrightarrow> blocks_bytes interval bs = blocks_bytes interval (take i bs) @ stored (build_block interval (bs ! i))
     @ blocks_bytes interval (drop (Suc i) bs)"
  using concat_nth_split [of i "map (\<lambda>es. stored (build_block interval es)) bs"]
  by (simp add: blocks_bytes_def take_map drop_map)

lemma handle_at_eq:
  "handle_at interval bs i = handle_of (length (blocks_bytes interval (take i bs))) (build_block interval (bs ! i))"
  by (simp add: handle_at_def handle_of_def)

definition opened :: "Options \<Rightarrow> 'f \<Rightarrow> entry list list \<Rightarrow> 'f Table" where
  "opened opts f bs =
     \<lparr> t_options = opts, t_file = f,
       t_filter = map_option (\<lambda>P. (P, FilterBlockReader_new (the (filter_contents opts bs)))) (opt_filter_policy opts),
       t_metaindex_handle = ft_metaindex_handle (table_footer opts bs), t_index_block = Block_new (index_contents opts bs) \<rparr>"

context random_access_file
begin

lemma ReadMeta_ok:
  assumes "sound f" and "contents f = table_bytes opts bs" and "length (table_bytes opts bs) < 2 ^ 32"
    and "1 \<le> opt_block_restart_interval opts"
    and t: "t = (opened opts f bs)\<lparr> t_filter := None \<rparr>"
  shows "ReadMeta ops (table_footer opts bs) t = Some (opened opts f bs)"
proof (cases "opt_filter_policy opts")
  case None
  then show ?thesis by (simp add: ReadMeta_def opened_def t)
next
  case (Some P)
  let ?I = "opt_block_restart_interval opts" and ?d = "the (filter_contents opts bs)"
  have data: "table_data opts bs = blocks_bytes ?I bs @ stored ?d"
    by (simp add: table_data_def filter_contents_def Some)
  let ?v = "BlockHandle_EncodeTo [] (handle_of (length (blocks_bytes ?I bs)) ?d)"
  have entries: "meta_entries opts bs = [(filter_key P, ?v)]" by (simp add: meta_entries_def Some)
  have c1: "contents f = table_data opts bs @ stored (meta_contents opts bs)
      @ (stored (index_contents opts bs) @ Footer_EncodeTo [] (table_footer opts bs))"
    by (simp add: assms(2) table_bytes_def)
  obtain b where b: "ReadBlock ops f (opt_paranoid_checks opts) (handle_of (length (table_data opts bs)) (meta_contents opts bs))
      = Some (StatusOK, b)" "bc_data b = meta_contents opts bs" by (rule ReadBlock_stored [OF assms(1) c1])
  have c2: "contents f = blocks_bytes ?I bs @ stored ?d @ (stored (meta_contents opts bs)
      @ stored (index_contents opts bs) @ Footer_EncodeTo [] (table_footer opts bs))"
    by (simp add: assms(2) table_bytes_def data)
  obtain fb where fb: "ReadBlock ops f (opt_paranoid_checks opts) (handle_of (length (blocks_bytes ?I bs)) ?d)
      = Some (StatusOK, fb)" "bc_data fb = ?d" by (rule ReadBlock_stored [OF assms(1) c2])
  have meta: "meta_contents opts bs = build_block ?I [(filter_key P, ?v)]" by (simp add: meta_contents_def entries)
  have "length (meta_contents opts bs) < 2 ^ 32" using assms(3) by (simp add: lt_trans_sizes)
  then have view: "block_view BytewiseComparator (\<lambda>_. True) [(filter_key P, ?v)]
      (Block_NewIterator (Block_new (meta_contents opts bs))) 1"
    using bytewise.built_block_view [OF assms(4), of "[(filter_key P, ?v)]"] by (simp add: meta sorted_entries_def)
  have zero: "lower_bound BytewiseComparator (filter_key P) [(filter_key P, ?v)] = 0"
    by (rule lower_bound_single) (simp add: BytewiseComparator_def)
  obtain it where seek: "i_Seek (BlockIterator BytewiseComparator) (filter_key P)
      (Block_NewIterator (Block_new (meta_contents opts bs))) = Some it"
    and at: "block_view BytewiseComparator (\<lambda>_. True) [(filter_key P, ?v)] it 0"
    using bytewise.block.seek_view [OF view TrueI, of "filter_key P"] unfolding zero by blast
  have it: "i_Valid (BlockIterator BytewiseComparator) it" "i_key (BlockIterator BytewiseComparator) it = filter_key P"
    "i_value (BlockIterator BytewiseComparator) it = ?v"
    using bytewise.block.valid_view [OF at] bytewise.block.key_view [OF at] bytewise.block.value_view [OF at] by simp_all
  have dec: "BlockHandle_DecodeFrom ?v BlockHandle_new = (StatusOK, handle_of (length (blocks_bytes ?I bs)) ?d, [])"
    using BlockHandle_Decode_Encode [of "handle_of (length (blocks_bytes ?I bs)) ?d" "[]"] by simp
  have "ReadFilter ops P ?v t = Some (t\<lparr> t_filter := Some (P, FilterBlockReader_new ?d) \<rparr>)"
    unfolding ReadFilter_def dec using fb by (simp add: status_ok_def t opened_def)
  then show ?thesis
    using b seek it unfolding ReadMeta_def filter_key_def [symmetric] Let_def
    by (simp add: t opened_def Some table_footer_def status_ok_def)
qed

lemma Table_Open_ok:
  assumes "sound f" and "contents f = table_bytes opts bs" and "length (table_bytes opts bs) < 2 ^ 32"
    and "1 \<le> opt_block_restart_interval opts"
  shows "Table_Open ops opts f (word_of_nat (length (table_bytes opts bs))) = Some (StatusOK, Some (opened opts f bs))"
proof -
  let ?n = "length (table_bytes opts bs)" and ?ft = "Footer_EncodeTo [] (table_footer opts bs)"
  let ?pre = "table_data opts bs @ stored (meta_contents opts bs) @ stored (index_contents opts bs)"
  have bytes: "table_bytes opts bs = ?pre @ ?ft" by (simp add: table_bytes_def)
  have n: "?n = length ?pre + kEncodedLength" by (simp add: lt_trans_sizes)
  have u: "unat (word_of_nat ?n :: 64 word) = ?n" "unat (word_of_nat kEncodedLength :: 64 word) = kEncodedLength"
    using assms(3) by (simp_all add: unat_of_nat take_bit_nat_eq_self kEncodedLength_def kMaxEncodedLength_def)
  have le: "(word_of_nat kEncodedLength :: 64 word) \<le> word_of_nat ?n"
    unfolding word_le_nat_alt u using n by simp
  then have off: "unat (word_of_nat ?n - word_of_nat kEncodedLength :: 64 word) = length ?pre"
    using unat_sub [OF le] n unfolding u by simp
  obtain scratch where read: "raf_Read ops (word_of_nat ?n - word_of_nat kEncodedLength) (word_of_nat kEncodedLength) f = Some (?ft, scratch, StatusOK)"
    using read_at [OF assms(1), of "word_of_nat ?n - word_of_nat kEncodedLength" "word_of_nat kEncodedLength"] off u(2) n
    by (auto simp: assms(2) bytes length_Footer)
  have footer: "Footer_DecodeFrom ?ft Footer_new = Some (StatusOK, table_footer opts bs, [])"
    using Footer_Decode_Encode [of "table_footer opts bs" "[]"] by simp
  have c: "contents f = (table_data opts bs @ stored (meta_contents opts bs)) @ stored (index_contents opts bs) @ ?ft"
    by (simp add: assms(2) table_bytes_def)
  obtain b where b: "ReadBlock ops f (opt_paranoid_checks opts)
      (handle_of (length (table_data opts bs @ stored (meta_contents opts bs))) (index_contents opts bs)) = Some (StatusOK, b)"
    "bc_data b = index_contents opts bs" by (rule ReadBlock_stored [OF assms(1) c])
  have "ReadMeta ops (table_footer opts bs) ((opened opts f bs)\<lparr> t_filter := None \<rparr>) = Some (opened opts f bs)"
    by (rule ReadMeta_ok [OF assms refl])
  moreover have "ft_index_handle (table_footer opts bs)
      = handle_of (length (table_data opts bs @ stored (meta_contents opts bs))) (index_contents opts bs)"
    by (simp add: table_footer_def)
  ultimately show ?thesis
    using le b unfolding Table_Open_def read option.case prod.case footer
    by (simp add: not_le [symmetric] status_ok_def opened_def)
qed

end

section \<open>Looking a key up\<close>

text \<open>The first entry at or past a key.\<close>

definition first_at :: "Comparator \<Rightarrow> slice \<Rightarrow> entry list \<Rightarrow> entry option" where
  "first_at c k xs = List.find (\<lambda>e. \<not> cmp_Compare c (fst e) k < 0) xs"

lemma first_at_lower_bound:
  "first_at c k xs = (if lower_bound c k xs < length xs then Some (xs ! lower_bound c k xs) else None)"
  by (induction xs) (auto simp: first_at_def lower_bound_def)

lemma first_at_append: "first_at c k (xs @ ys) = (case first_at c k xs of None \<Rightarrow> first_at c k ys | Some e \<Rightarrow> Some e)"
  by (induction xs) (auto simp: first_at_def)

lemma first_at_None: "first_at c k xs = None \<longleftrightarrow> (\<forall>e \<in> set xs. cmp_Compare c (fst e) k < 0)"
  by (induction xs) (auto simp: first_at_def)

lemma first_at_hd: "xs \<noteq> [] \<Longrightarrow> \<not> cmp_Compare c (fst (hd xs)) k < 0 \<Longrightarrow> first_at c k xs = Some (hd xs)"
  by (cases xs) (auto simp: first_at_def)

lemma first_at_Some: "first_at c k xs = Some e \<Longrightarrow> e \<in> set xs"
  by (auto simp: first_at_def find_Some_iff)

lemma filter_calls_sorted:
  assumes "length (blocks_bytes interval bs) < 2 ^ 64"
  shows "sorted (map (\<lambda>blk. unat (fst blk)) (filter_calls interval bs []))"
proof -
  have len: "length (blocks_bytes interval (take i bs)) \<le> length (blocks_bytes interval (take j bs))" if "i \<le> j" for i j
  proof -
    have "take j bs = take i bs @ drop i (take j bs)" using that by (metis append_take_drop_id min.absorb1 take_take)
    then show ?thesis by (metis blocks_bytes_def concat_append length_append le_add1 map_append)
  qed
  have u: "unat (word_of_nat (length (blocks_bytes interval (take i bs))) :: 64 word) = length (blocks_bytes interval (take i bs))" for i
  proof -
    have "length (blocks_bytes interval (take i bs)) \<le> length (blocks_bytes interval (take (max i (length bs)) bs))" by (rule len) simp
    then show ?thesis using assms by (simp add: unat_of_nat take_bit_nat_eq_self)
  qed
  have "map (\<lambda>blk. unat (fst blk)) (filter_calls interval bs [])
      = map (\<lambda>i. length (blocks_bytes interval (take i bs))) [0..<Suc (length bs)]"
    using u u [of "length bs"] by (simp add: filter_calls_def)
  then show ?thesis using len by (simp add: sorted_iff_nth_mono del: upt_Suc)
qed

context table_reader
begin

definition rejected :: "entry list list \<Rightarrow> nat \<Rightarrow> slice \<Rightarrow> bool" where
  "rejected bs j k =
     (case opt_filter_policy opts of None \<Rightarrow> False
      | Some P \<Rightarrow> \<not> Filter_KeyMayMatch P (FilterBlockReader_new (the (filter_contents opts bs)))
          (bh_offset (handle_at (opt_block_restart_interval opts) bs j)) k)"

lemma block_small:
  assumes "j < length bs" and "length (table_bytes opts bs) < 2 ^ 32"
  shows "length (build_block (opt_block_restart_interval opts) (bs ! j)) < 2 ^ 32"
proof -
  have "length (build_block (opt_block_restart_interval opts) (bs ! j)) \<le> length (blocks_bytes (opt_block_restart_interval opts) bs)"
    using blocks_bytes_split [OF assms(1), of "opt_block_restart_interval opts"] by simp
  then show ?thesis using assms(2) by (simp add: lt_trans_sizes table_data_def)
qed

lemma BlockReader_ok:
  assumes "sound f" and "contents f = table_bytes opts bs" and "j < length bs"
  shows "BlockReader ops verify (BlockHandle_EncodeTo [] (handle_at (opt_block_restart_interval opts) bs j)) (opened opts f bs)
    = Some (Block_NewIterator (Block_new (build_block (opt_block_restart_interval opts) (bs ! j))))"
proof -
  let ?I = "opt_block_restart_interval opts"
  have c: "contents f = blocks_bytes ?I (take j bs) @ stored (build_block ?I (bs ! j))
      @ (blocks_bytes ?I (drop (Suc j) bs) @ (case filter_contents opts bs of None \<Rightarrow> [] | Some d \<Rightarrow> stored d)
        @ stored (meta_contents opts bs) @ stored (index_contents opts bs) @ Footer_EncodeTo [] (table_footer opts bs))"
    using blocks_bytes_split [OF assms(3), of ?I] by (simp add: assms(2) table_bytes_def table_data_def)
  obtain b where b: "ReadBlock ops f verify (handle_at ?I bs j) = Some (StatusOK, b)" "bc_data b = build_block ?I (bs ! j)"
    unfolding handle_at_eq by (rule ReadBlock_stored [OF assms(1) c])
  have "BlockHandle_DecodeFrom (BlockHandle_EncodeTo [] (handle_at ?I bs j)) BlockHandle_new = (StatusOK, handle_at ?I bs j, [])"
    using BlockHandle_Decode_Encode [of "handle_at ?I bs j" "[]"] by simp
  then show ?thesis using b by (simp add: BlockReader_def status_ok_def opened_def)
qed

lemma InternalGet_exact:
  assumes "sound f" and "contents f = table_bytes opts bs" and "length (table_bytes opts bs) < 2 ^ 32"
    and "1 \<le> opt_block_restart_interval opts" and "sorted_blocks c valid bs" and "valid k"
    and j: "j = lower_bound c k (index_entries c (opt_block_restart_interval opts) bs (length bs))"
  shows "InternalGet ops verify k (opened opts f bs)
    = Some (StatusOK, if j < length bs \<and> \<not> rejected bs j k then first_at c k (bs ! j) else None)"
proof -
  let ?I = "opt_block_restart_interval opts"
  let ?idx = "index_entries c ?I bs (length bs)"
  have len: "length ?idx = length bs" by (simp add: index_entries_def)
  have contents: "index_contents opts bs = build_block 1 ?idx" by (simp add: index_contents_def same_comparator)
  have "length (build_block 1 ?idx) < 2 ^ 32" using assms(3) contents by (simp add: lt_trans_sizes)
  then have view: "block_view c valid ?idx (Block_NewIterator (Block_new (index_contents opts bs))) (length ?idx)"
    unfolding contents by (intro built_block_view index_sorted [OF assms(5)] index_valid [OF assms(5)]) simp_all
  have t: "t_options (opened opts f bs) = opts" "t_index_block (opened opts f bs) = Block_new (index_contents opts bs)"
    "t_filter (opened opts f bs) = map_option (\<lambda>P. (P, FilterBlockReader_new (the (filter_contents opts bs)))) (opt_filter_policy opts)"
    by (simp_all add: opened_def)
  obtain iiter where ii: "i_Seek (BlockIterator c) k (Block_NewIterator (Block_new (index_contents opts bs))) = Some iiter"
    "block_view c valid ?idx iiter j" using block.seek_view [OF view assms(6)] j by blast
  note st = block.valid_view [OF ii(2)] block.status_view [OF ii(2)]
  show ?thesis
  proof (cases "j < length bs")
    case False
    then show ?thesis using ii(1) st len by (simp add: InternalGet_def t same_comparator)
  next
    case True
    have val: "i_value (BlockIterator c) iiter = BlockHandle_EncodeTo [] (handle_at ?I bs j)"
      using block.value_view [OF ii(2)] True len by (simp add: index_entries_def)
    have dec: "BlockHandle_DecodeFrom (BlockHandle_EncodeTo [] (handle_at ?I bs j)) BlockHandle_new = (StatusOK, handle_at ?I bs j, [])"
      using BlockHandle_Decode_Encode [of "handle_at ?I bs j" "[]"] by simp
    have rej: "(case t_filter (opened opts f bs) of None \<Rightarrow> False
        | Some (p, flt) \<Rightarrow> status_ok StatusOK \<and> \<not> Filter_KeyMayMatch p flt (bh_offset (handle_at ?I bs j)) k) \<longleftrightarrow> rejected bs j k"
      by (simp add: t rejected_def status_ok_def split: option.split)
    have data: "block_view c valid (bs ! j) (Block_NewIterator (Block_new (build_block ?I (bs ! j)))) (length (bs ! j))"
      by (rule built_block_view [OF assms(4) sorted_block [OF assms(5) True] block_valid [OF assms(5) True] block_small [OF True assms(3)]])
    obtain biter where bi: "i_Seek (BlockIterator c) k (Block_NewIterator (Block_new (build_block ?I (bs ! j)))) = Some biter"
      "block_view c valid (bs ! j) biter (lower_bound c k (bs ! j))" using block.seek_view [OF data assms(6)] by blast
    note bst = block.valid_view [OF bi(2)] block.status_view [OF bi(2)] block.key_view [OF bi(2)] block.value_view [OF bi(2)]
    have found: "(if i_Valid (BlockIterator c) biter then Some (i_key (BlockIterator c) biter, i_value (BlockIterator c) biter) else None)
        = first_at c k (bs ! j)" using bst by (simp add: first_at_lower_bound)
    have valid_ii: "i_Valid (BlockIterator c) iiter" using st(1) True len by simp
    show ?thesis
      unfolding InternalGet_def Let_def t(1,2) same_comparator ii(1) option.case val dec prod.case rej
        BlockReader_ok [OF assms(1,2) True] bi(1) found bst(2) st(2)
      using valid_ii True by (simp add: status_ok_def)
  qed
qed

lemma not_rejected:
  assumes "length (table_bytes opts bs) < 2 ^ 32" and "j < length bs" and "e \<in> set (bs ! j)" and "same k (fst e)"
  shows "\<not> rejected bs j k"
proof (cases "opt_filter_policy opts")
  case (Some P)
  let ?I = "opt_block_restart_interval opts"
  have d: "the (filter_contents opts bs) = build_filter_block P (filter_calls ?I bs [])"
    by (simp add: filter_contents_def Some)
  have small: "length (blocks_bytes ?I bs) < 2 ^ 64" "length (build_filter_block P (filter_calls ?I bs [])) < 2 ^ 32"
    using assms(1) by (simp_all add: lt_trans_sizes table_data_def filter_contents_def Some)
  have "(bh_offset (handle_at ?I bs j), map fst (bs ! j)) \<in> set (filter_calls ?I bs [])"
    using assms(2) by (auto simp: filter_calls_def handle_at_def)
  from filter_policy.filter_block_matches [OF policy [OF Some] filter_calls_sorted [OF small(1)] small(2) this]
  have "Filter_KeyMayMatch P (FilterBlockReader_new (build_filter_block P (filter_calls ?I bs [])))
      (bh_offset (handle_at ?I bs j)) k" using assms(3) same_filter [OF Some assms(4)] by (metis image_eqI list.set_map)
  then show ?thesis by (simp add: rejected_def Some d)
qed (simp add: rejected_def)

text \<open>
  What a lookup delivers: nothing or the first entry at or past the key, and that entry
  whenever the key has to be found under its key.
\<close>

lemma InternalGet_finds:
  assumes "sound f" and "contents f = table_bytes opts bs" and "length (table_bytes opts bs) < 2 ^ 32"
    and "1 \<le> opt_block_restart_interval opts" and "sorted_blocks c valid bs" and "valid k"
  shows "\<exists>r. InternalGet ops verify k (opened opts f bs) = Some (StatusOK, r)
    \<and> (r = None \<or> r = first_at c k (concat bs))
    \<and> (\<forall>e. first_at c k (concat bs) = Some e \<longrightarrow> same k (fst e) \<longrightarrow> r = Some e)"
proof -
  let ?idx = "index_entries c (opt_block_restart_interval opts) bs (length bs)"
  define j where "j = lower_bound c k ?idx"
  note exact = InternalGet_exact [OF assms j_def, of verify]
  have len: "length ?idx = length bs" by (simp add: index_entries_def)
  have sep: "fst (?idx ! i) = separator_key c bs i" if "i < length bs" for i using that by (simp add: index_entries_def)
  have before: "cmp_Compare c (fst e) k < 0" if i: "i < j" and e: "e \<in> set (bs ! i)" for i e
  proof -
    have ib: "i < length bs" using i lower_bound_le [of c k ?idx] len by (simp add: j_def)
    note f = separator_key_facts [OF assms(5) ib]
    have "cmp_Compare c (separator_key c bs i) k < 0"
      using below_lower_bound [of i c k ?idx] i sep [OF ib] by (simp add: j_def)
    then have "cmp_Compare c (last_key (bs ! i)) k < 0"
      using compare_le_trans [OF block_keys_valid(1) [OF assms(5) ib] f(1) assms(6) f(2)] by simp
    then show ?thesis
      using compare_le_trans [OF block_valid [OF assms(5) ib e] block_keys_valid(1) [OF assms(5) ib] assms(6)
          le_last_key [OF assms(5) ib e]] by simp
  qed
  have none: "first_at c k (concat (take j bs)) = None"
    unfolding first_at_None
  proof
    fix e
    assume "e \<in> set (concat (take j bs))"
    then obtain es where es: "es \<in> set (take j bs)" "e \<in> set es" by auto
    from es(1) obtain i where "i < j" "es = bs ! i" by (auto simp: in_set_conv_nth)
    then show "cmp_Compare c (fst e) k < 0" using before es(2) by simp
  qed
  show ?thesis
  proof (cases "j < length bs")
    case False
    then have "take j bs = bs" by simp
    then have "first_at c k (concat bs) = None" using none by simp
    then show ?thesis using exact False by auto
  next
    case True
    have split: "first_at c k (concat bs)
        = (case first_at c k (bs ! j) of None \<Rightarrow> first_at c k (concat (drop (Suc j) bs)) | Some e \<Rightarrow> Some e)"
      by (subst concat_nth_split [OF True]) (simp add: first_at_append none)
    show ?thesis
    proof (cases "first_at c k (bs ! j)")
      case (Some e)
      have "\<not> rejected bs j k" if "same k (fst e)"
        by (rule not_rejected [OF assms(3) True first_at_Some [OF Some] that])
      then show ?thesis using exact True split Some by auto
    next
      case None
      have "\<not> same k (fst e)" if e: "first_at c k (concat bs) = Some e" for e
      proof
        assume same: "same k (fst e)"
        have "first_at c k (concat (drop (Suc j) bs)) = Some e" using e split None by simp
        then have "concat (drop (Suc j) bs) \<noteq> []" by (cases "concat (drop (Suc j) bs)") (simp_all add: first_at_def)
        then have suc: "j + 1 < length bs" by (cases "j + 1 < length bs") auto
        note f = separator_key_facts [OF assms(5) True] and v = block_keys_valid [OF assms(5) suc]
        have ge: "\<not> cmp_Compare c (separator_key c bs j) k < 0"
          using at_lower_bound [of c k ?idx] sep [OF True] True len by (simp add: j_def)
        have "\<not> cmp_Compare c (first_key (bs ! (j + 1))) k < 0"
          using compare_trans [OF f(1) v(2) assms(6) f(3) [OF suc]] ge by blast
        then have "first_at c k (bs ! (j + 1)) = Some (hd (bs ! (j + 1)))"
          using first_at_hd [OF block_ne [OF assms(5) suc]] by (simp add: first_key_def)
        then have "first_at c k (concat (drop (Suc j) bs)) = Some (hd (bs ! (j + 1)))"
          using suc by (simp add: Cons_nth_drop_Suc [of "Suc j", symmetric] first_at_append)
        then have fst_e: "fst e = first_key (bs ! (j + 1))" using e split None by (simp add: first_key_def)
        have "last (bs ! j) \<in> set (bs ! j)" using block_ne [OF assms(5) True] by simp
        then have "cmp_Compare c (last_key (bs ! j)) k < 0" using None by (simp add: first_at_None last_key_def)
        then have "cmp_Compare c (cmp_FindShortestSeparator c (last_key (bs ! j)) (first_key (bs ! (j + 1)))) k < 0"
          using same_separator [OF block_keys_valid(1) [OF assms(5) True] v(2) assms(6)] same fst_e
            last_less_first [OF assms(5) _ suc, of j] by simp
        then show False using ge suc by (simp add: separator_key_def)
      qed
      then show ?thesis using exact True None by auto
    qed
  qed
qed

end

section \<open>The tables of the database\<close>

text \<open>The database wraps the comparator and the filter policy of the user.\<close>

definition db_options :: "Comparator \<Rightarrow> FilterPolicy option \<Rightarrow> bool \<Rightarrow> nat \<Rightarrow> nat \<Rightarrow> CompressionType \<Rightarrow> Options" where
  "db_options user policy paranoid_checks block_size block_restart_interval compression =
     Options_new\<lparr> opt_comparator := InternalKeyComparator user, opt_paranoid_checks := paranoid_checks, opt_block_size := block_size,
       opt_block_restart_interval := block_restart_interval, opt_compression := compression,
       opt_filter_policy := map_option InternalFilterPolicy policy \<rparr>"

definition same_user_key :: "slice \<Rightarrow> slice \<Rightarrow> bool" where
  "same_user_key a b \<longleftrightarrow> ExtractUserKey a = ExtractUserKey b"

lemma bloom_same_user_key:
  "same_user_key k k' \<Longrightarrow> k' \<in> set ks \<Longrightarrow>
     fp_KeyMayMatch (InternalFilterPolicy (NewBloomFilterPolicy bits)) k (fp_CreateFilter (InternalFilterPolicy (NewBloomFilterPolicy bits)) ks [])"
  using bloom.matches [of "ExtractUserKey k" "map ExtractUserKey ks" bits]
  by (simp add: InternalFilterPolicy_def same_user_key_def)

context user_comparator
begin

text \<open>A separator between two user keys is below every internal key of the second one.\<close>

lemma internal_separator_user_key:
  assumes "8 \<le> length a" and "8 \<le> length b" and "8 \<le> length k" and "same_user_key k b"
    and "internal_Compare c a b < 0" and "internal_Compare c a k < 0"
  shows "internal_Compare c (internal_FindShortestSeparator c a b) k < 0"
proof -
  let ?ua = "ExtractUserKey a" and ?ub = "ExtractUserKey b" and ?tmp = "cmp_FindShortestSeparator c (ExtractUserKey a) (ExtractUserKey b)"
  show ?thesis
  proof (cases "length ?tmp < length ?ua \<and> cmp_Compare c ?ua ?tmp < 0")
    case False
    then show ?thesis using assms(6) by (simp only: internal_FindShortestSeparator_def Let_def if_False)
  next
    case True
    have "?ua \<noteq> ?ub" using True separator_same [of ?ua] by auto
    then have "cmp_Compare c ?ua ?ub < 0"
      using assms(5) compare_eq [of ?ua ?ub] by (auto simp: internal_Compare_def Let_def split: if_splits)
    then have "cmp_Compare c ?tmp ?ub < 0" using separator [of ?ua ?ub] by simp
    then have "cmp_Compare c ?tmp (ExtractUserKey k) < 0" using assms(4) by (simp add: same_user_key_def)
    then show ?thesis using True by (simp add: internal_FindShortestSeparator_def internal_Compare_def Let_def)
  qed
qed

end

interpretation db_table: table_reader "InternalKeyComparator BytewiseComparator" "\<lambda>k. 8 \<le> length k" PosixRandomAccessFile pf_bytes
    sound_posix_file "db_options BytewiseComparator (map_option NewBloomFilterPolicy bits) paranoid bsize interval compression" same_user_key
  for bits paranoid bsize interval compression
proof (intro table_reader.intro table_reader_axioms.intro)
  show "comparator (InternalKeyComparator BytewiseComparator) (\<lambda>k. 8 \<le> length k)"
    by (rule bytewise.internal.comparator_axioms)
  show "random_access_file PosixRandomAccessFile pf_bytes sound_posix_file" by (rule posix_random.random_access_file_axioms)
  let ?opts = "db_options BytewiseComparator (map_option NewBloomFilterPolicy bits) paranoid bsize interval compression"
  show "opt_comparator ?opts = InternalKeyComparator BytewiseComparator" by (simp add: db_options_def)
  show "filter_policy P" if "opt_filter_policy ?opts = Some P" for P
    using that internal_bloom.filter_policy_axioms by (auto simp: db_options_def)
  show "fp_KeyMayMatch P k (fp_CreateFilter P ks [])"
    if "opt_filter_policy ?opts = Some P" "same_user_key k k'" "k' \<in> set ks" for P k k' ks
    using that bloom_same_user_key by (auto simp: db_options_def)
  show "cmp_Compare (InternalKeyComparator BytewiseComparator)
      (cmp_FindShortestSeparator (InternalKeyComparator BytewiseComparator) a b) k < 0"
    if "8 \<le> length a" "8 \<le> length b" "8 \<le> length k" "same_user_key k b"
      "cmp_Compare (InternalKeyComparator BytewiseComparator) a b < 0"
      "cmp_Compare (InternalKeyComparator BytewiseComparator) a k < 0" for a b k
    using bytewise.internal_separator_user_key [OF that(1-4)] that(5,6) by (simp add: InternalKeyComparator_def)
qed

end
