(* ===== verification/Table_Properties.thy ===== *)
theory Table_Properties
  imports Ldb_Table_Read
begin

text \<open>What blocks, filters and tables promise together.\<close>

section \<open>Sizes\<close>

lemma length_PutVarint32: "length (PutVarint32 dst v) \<le> length dst + 5"
  using length_EncodeVarint32(1) [of v] by (simp add: PutVarint32_def)

definition add_weight :: "entry list \<Rightarrow> nat" where
  "add_weight kvs = sum_list (map (\<lambda>e. length (fst e) + length (snd e) + 19) kvs)"

lemma BlockBuilder_Add_weight:
  "CurrentSizeEstimate (BlockBuilder_Add interval k v b) \<le> CurrentSizeEstimate b + (length k + length v + 19)"
proof -
  have three: "length (PutVarint32 (PutVarint32 (PutVarint32 d x) y) z) \<le> length d + 15" for d x y z
    using length_PutVarint32 [of d x] length_PutVarint32 [of "PutVarint32 d x" y]
      length_PutVarint32 [of "PutVarint32 (PutVarint32 d x) y" z] by linarith
  define n where "n = (if bb_counter b < interval then diff_index (bb_last_key b) k else 0)"
  have b: "length (bb_buffer (BlockBuilder_Add interval k v b))
      = length (PutVarint32 (PutVarint32 (PutVarint32 (bb_buffer b) (word_of_nat n)) (word_of_nat (length k - n))) (word_of_nat (length v)))
        + (length k - n) + length v"
    "length (bb_restarts (BlockBuilder_Add interval k v b)) \<le> length (bb_restarts b) + 1"
    by (simp_all add: BlockBuilder_Add_def Let_def n_def)
  show ?thesis
    using three [of "bb_buffer b" "word_of_nat n" "word_of_nat (length k - n)" "word_of_nat (length v)"] b
    unfolding CurrentSizeEstimate_def by linarith
qed

lemma length_build_block: "length (build_block interval kvs) \<le> add_weight kvs + 8"
proof -
  have "CurrentSizeEstimate (add_all interval kvs) \<le> add_weight kvs + 8"
  proof (induction kvs rule: rev_induct)
    case Nil
    show ?case by (simp add: add_all_Nil BlockBuilder_new_def CurrentSizeEstimate_def add_weight_def)
  next
    case (snoc kv kvs)
    then show ?case
      using BlockBuilder_Add_weight [of interval "fst kv" "snd kv" "add_all interval kvs"]
      by (cases kv) (simp add: add_all_snoc add_weight_def)
  qed
  moreover have "length (build_block interval kvs) = CurrentSizeEstimate (add_all interval kvs)"
    by (simp add: build_block_eq BlockBuilder_Finish_def CurrentSizeEstimate_def foldl_PutFixed32 PutFixed32_def Let_def)
  ultimately show ?thesis by simp
qed

section \<open>Blocks\<close>

text \<open>Scanning the block forwards, backwards and from a key on.\<close>

context comparator
begin

lemma block_scans:
  assumes "1 \<le> interval" and "sorted_entries c kvs" and "\<And>e. e \<in> set kvs \<Longrightarrow> valid (fst e)"
    and "length (build_block interval kvs) < 2 ^ 32" and "valid k"
    and s_def: "s = Block_NewIterator (Block_new (build_block interval kvs))"
  shows "(\<exists>t. i_SeekToFirst (BlockIterator c) s = Some t \<and> scan (length kvs) (BlockIterator c) t = Some kvs)
    \<and> (\<exists>t. i_SeekToLast (BlockIterator c) s = Some t \<and> scan_back (length kvs) (BlockIterator c) t = Some (rev kvs))
    \<and> (\<exists>t. i_Seek (BlockIterator c) k s = Some t
         \<and> scan (length kvs) (BlockIterator c) t = Some (dropWhile (\<lambda>e. cmp_Compare c (fst e) k < 0) kvs)
         \<and> i_status (BlockIterator c) t = StatusOK)"
proof -
  have view: "block_view c valid kvs s (length kvs)"
    unfolding s_def by (rule built_block_view [OF assms(1-4)])
  note first = block.first_view [OF view] and last = block.last_view [OF view]
    and seek = block.seek_view [OF view assms(5)]
  have drop: "drop (lower_bound c k kvs) kvs = dropWhile (\<lambda>e. cmp_Compare c (fst e) k < 0) kvs"
    by (simp add: lower_bound_def dropWhile_eq_drop)
  have "\<exists>t. i_SeekToLast (BlockIterator c) s = Some t \<and> scan_back (length kvs) (BlockIterator c) t = Some (rev kvs)"
  proof -
    obtain t where t: "i_SeekToLast (BlockIterator c) s = Some t" "block_view c valid kvs t (length kvs - 1)" using last by blast
    show ?thesis
    proof (cases "kvs = []")
      case True
      then show ?thesis using t block.valid_view [OF t(2)] by simp
    next
      case False
      then show ?thesis using t block.scan_back_view [OF t(2), of "length kvs"] by simp
    qed
  qed
  moreover have "\<exists>t. i_SeekToFirst (BlockIterator c) s = Some t \<and> scan (length kvs) (BlockIterator c) t = Some kvs"
    using first block.scan_view [of kvs _ 0 "length kvs"] by fastforce
  moreover have "\<exists>t. i_Seek (BlockIterator c) k s = Some t
      \<and> scan (length kvs) (BlockIterator c) t = Some (dropWhile (\<lambda>e. cmp_Compare c (fst e) k < 0) kvs)
      \<and> i_status (BlockIterator c) t = StatusOK"
    using seek block.scan_view [of kvs _ "lower_bound c k kvs" "length kvs"]
      block.status_view drop by fastforce
  ultimately show ?thesis by blast
qed

end

text \<open>C5: The block that the builder makes of entries in the order of a comparator, read by the
  iterator of the block, delivers exactly these entries: all of them in order from the first
  one on, all of them in reverse from the last one back, and from a sought key on those at or
  past it, however the restart points lie. No search fails or does not return.\<close>

theorem block_iterates:
  assumes "comparator c valid" and "1 \<le> interval" and "sorted_entries c kvs" and "\<forall>e \<in> set kvs. valid (fst e)"
    and "length (build_block interval kvs) < 2 ^ 32" and "valid k"
    and "s = Block_NewIterator (Block_new (build_block interval kvs))"
  shows "(\<exists>t. i_SeekToFirst (BlockIterator c) s = Some t \<and> scan (length kvs) (BlockIterator c) t = Some kvs)
    \<and> (\<exists>t. i_SeekToLast (BlockIterator c) s = Some t \<and> scan_back (length kvs) (BlockIterator c) t = Some (rev kvs))
    \<and> (\<exists>t. i_Seek (BlockIterator c) k s = Some t
         \<and> scan (length kvs) (BlockIterator c) t = Some (dropWhile (\<lambda>e. cmp_Compare c (fst e) k < 0) kvs)
         \<and> i_status (BlockIterator c) t = StatusOK)"
  using comparator.block_scans [OF assms(1-3) _ assms(5,6,7)] assms(4) by blast

lemma block_iterates_witness:
  "\<exists>t. i_Seek (BlockIterator BytewiseComparator) [2, 9] (Block_NewIterator (Block_new (build_block 2 [([1], [7]), ([2], []), ([2, 5, 5], [8]), ([3], [])]))) = Some t
    \<and> scan 4 (BlockIterator BytewiseComparator) t = Some [([3], [])]"
proof -
  let ?kvs = "[([1], [7]), ([2], []), ([2, 5, 5], [8]), ([3], [])] :: entry list"
  have len: "length (build_block 2 ?kvs) < 2 ^ 32" using length_build_block [of 2 ?kvs] by (simp add: add_weight_def)
  have srt: "sorted_entries BytewiseComparator ?kvs" by (simp add: sorted_entries_def BytewiseComparator_def)
  have rest: "dropWhile (\<lambda>e. cmp_Compare BytewiseComparator (fst e) [2, 9] < 0) ?kvs = [([3], [])]" "length ?kvs = 4"
    by (simp_all add: BytewiseComparator_def)
  have "(1 :: nat) \<le> 2" by simp
  from block_iterates [OF bytewise.comparator_axioms this srt _ len _ refl, of "[2, 9]"]
  show ?thesis unfolding rest by blast
qed

text \<open>C40: Decoding an entry of a block checks the two lengths against the bytes that are left, but
  only modulo \<open>2^32\<close>: when it succeeds, either both lengths together fit, or their sum is at least
  \<open>2^32\<close>. The second case occurs: seven bytes are accepted as an entry with a key delta of
  4294967295 bytes although nothing is left, so that the caller reads behind the block.\<close>

theorem decode_entry_bound:
  assumes "DecodeEntry p = Some (shared, non_shared, value_length, q)" and "length q < 2 ^ 32"
  shows "length q + 3 \<le> length p
    \<and> (unat non_shared + unat value_length \<le> length q \<or> 2 ^ 32 \<le> unat non_shared + unat value_length)"
proof
  have b: "length q + 3 \<le> length p \<and> non_shared + value_length \<le> word_of_nat (length q)"
    using assms DecodeEntry_bounds by blast
  then show "length q + 3 \<le> length p" by simp
  have "unat (non_shared + value_length) \<le> length q"
    using b assms(2) unat_length [of "length q"] by (simp add: word_le_nat_alt)
  moreover have "unat (non_shared + value_length) = unat non_shared + unat value_length" if "unat non_shared + unat value_length < 2 ^ 32"
    using that by (simp add: unat_word_ariths)
  ultimately show "unat non_shared + unat value_length \<le> length q \<or> 2 ^ 32 \<le> unat non_shared + unat value_length" by linarith
qed

lemma decode_entry_bound_witness:
  "DecodeEntry [0, 0xff, 0xff, 0xff, 0xff, 0x0f, 1] = Some (0, 4294967295, 1, [])
    \<and> 2 ^ 32 \<le> unat (4294967295 :: 32 word) + unat (1 :: 32 word)"
proof -
  have e: "DecodeEntry [0, 0xff, 0xff, 0xff, 0xff, 0x0f, 1] = Some (0, 4294967295, 1, [])"
    by (simp add: DecodeEntry_def GetVarint32Ptr_def GetVarint32PtrFallback_def)
  from decode_entry_bound [OF e] e show ?thesis by simp
qed

section \<open>Filters\<close>

text \<open>C19: A filter block over internal keys has no false negatives. The keys of each data block are added
  after its start is announced, in the order of the offsets; the reader, asked with the offset of
  a data block and any internal key whose user key is that of a key added for the block, answers
  that it may match, whatever the number of bits per key, and although several small blocks
  share a filter and empty stretches have none.\<close>

theorem filter_block_keeps_keys:
  assumes "P = InternalFilterPolicy (NewBloomFilterPolicy bits_per_key)"
    and "sorted (map (\<lambda>blk. unat (fst blk)) blocks)" and "length (build_filter_block P blocks) < 2 ^ 32"
    and "(off, keys) \<in> set blocks" and "key \<in> set keys" and "ExtractUserKey q = ExtractUserKey key"
  shows "Filter_KeyMayMatch P (FilterBlockReader_new (build_filter_block P blocks)) off q"
  unfolding assms(1)
  by (rule internal_bloom.filter_block_matches [OF assms(2) assms(3) [unfolded assms(1)] assms(4,5)])
    (rule bloom_same_user_key [unfolded same_user_key_def, OF assms(6)])

lemma length_bloom_filter:
  "length (fp_CreateFilter (InternalFilterPolicy (NewBloomFilterPolicy bits)) keys dst)
     = length dst + ((if length keys * bits < 64 then 64 else length keys * bits) + 7) div 8 + 1"
proof -
  have fold: "length (foldl (\<lambda>arr key. set_probes k b (bloom_delta (BloomHash key)) (BloomHash key) arr) arr ks) = length arr" for k b arr ks
    by (induction ks arbitrary: arr) (simp_all add: Let_def)
  show ?thesis
    by (simp add: InternalFilterPolicy_def NewBloomFilterPolicy_def bloom_CreateFilter_def Let_def fold BloomFilterPolicy_new_def)
qed

lemma filter_block_keeps_keys_witness:
  "Filter_KeyMayMatch (InternalFilterPolicy (NewBloomFilterPolicy 10))
     (FilterBlockReader_new (build_filter_block (InternalFilterPolicy (NewBloomFilterPolicy 10))
       [(0, [InternalKey [97] 7 kTypeValue]), (5000, [InternalKey [98] 8 kTypeValue, InternalKey [99] 9 kTypeDeletion])]))
     5000 (InternalKey [99] 100 kTypeValue)"
proof -
  let ?P = "InternalFilterPolicy (NewBloomFilterPolicy 10)"
  let ?blocks = "[(0, [InternalKey [97] 7 kTypeValue]), (5000, [InternalKey [98] 8 kTypeValue, InternalKey [99] 9 kTypeDeletion])]
    :: (64 word \<times> slice list) list"
  obtain k1 k2 k3 where k: "k1 = InternalKey [97] 7 kTypeValue" "k2 = InternalKey [98] 8 kTypeValue" "k3 = InternalKey [99] 9 kTypeDeletion"
    by blast
  have "length (build_filter_block ?P [(0, [k1]), (5000, [k2, k3])]) < 2 ^ 32"
    by (simp add: build_filter_block_def add_block_def StartBlock_def kFilterBase_def kFilterBaseLg_def generate_up_to.simps
        GenerateFilter_def Filter_Finish_def AddKey_def FilterBlockBuilder_new_def foldl_PutFixed32 PutFixed32_def
        length_bloom_filter Let_def)
  then have "length (build_filter_block ?P ?blocks) < 2 ^ 32" by (simp only: k)
  from filter_block_keeps_keys [OF refl _ this, of 5000 "[InternalKey [98] 8 kTypeValue, InternalKey [99] 9 kTypeDeletion]"
      "InternalKey [99] 9 kTypeDeletion" "InternalKey [99] 100 kTypeValue"]
  show ?thesis by simp
qed

text \<open>Reading a block checks the number of bytes it got against the size in the handle plus the trailer,
  modulo \<open>2^64\<close>: over a sound file it stays inside its buffer for every handle whose size is at most
  \<open>2^64 - 6\<close>, and for the sizes from \<open>2^64 - 5\<close> on it accepts the few bytes it got and reads
  outside of them.\<close>

theorem read_block_bound:
  assumes "sound_posix_file f"
  shows "(unat (bh_size h) + 5 < 2 ^ 64 \<longrightarrow> ReadBlock PosixRandomAccessFile f verify h \<noteq> None)
    \<and> (2 ^ 64 \<le> unat (bh_size h) + 5 \<and> unat (bh_offset h) + 5 \<le> length (pf_bytes f)
        \<longrightarrow> ReadBlock PosixRandomAccessFile f verify h = None)"
proof -
  let ?t = "bh_size h + 5"
  have total: "unat ?t = (unat (bh_size h) + 5) mod 2 ^ 64" by (simp add: unat_word_ariths)
  show ?thesis
  proof (intro conjI impI)
    assume small: "unat (bh_size h) + 5 < 2 ^ 64"
    have "raf_Read PosixRandomAccessFile (bh_offset h) ?t f \<noteq> None"
      by (auto simp: PosixRandomAccessFile_def PosixRandomAccessFile_Read_def split: option.split)
    then obtain x where "raf_Read PosixRandomAccessFile (bh_offset h) ?t f = Some x" by blast
    then obtain data scratch s where read: "raf_Read PosixRandomAccessFile (bh_offset h) ?t f = Some (data, scratch, s)"
      by (cases x) simp
    have "unat ?t = unat (bh_size h) + 5" using total small by simp
    then show "ReadBlock PosixRandomAccessFile f verify h \<noteq> None"
      by (auto simp: ReadBlock_def Let_def kBlockTrailerSize_def read Snappy_GetUncompressedLength_def)
  next
    assume big: "2 ^ 64 \<le> unat (bh_size h) + 5 \<and> unat (bh_offset h) + 5 \<le> length (pf_bytes f)"
    have "unat (bh_size h) < 2 ^ 64" by (rule unat64_less)
    then have t: "unat ?t = unat (bh_size h) + 5 - 2 ^ 64" using big total by (simp add: mod_if)
    then have "unat ?t < 5" using \<open>unat (bh_size h) < 2 ^ 64\<close> big by simp
    then have fits: "unat (bh_offset h) + unat ?t \<le> length (pf_bytes f)" using big by simp
    obtain scratch where "raf_Read PosixRandomAccessFile (bh_offset h) ?t f
        = Some (take (unat ?t) (drop (unat (bh_offset h)) (pf_bytes f)), scratch, StatusOK)"
      using posix_random.read_at [OF assms fits] by blast
    moreover have "min (length (pf_bytes f) - unat (bh_offset h)) (unat ?t) = unat ?t" using fits by linarith
    ultimately show "ReadBlock PosixRandomAccessFile f verify h = None"
      using \<open>unat ?t < 5\<close> big by (simp add: ReadBlock_def Let_def kBlockTrailerSize_def status_ok_def)
  qed
qed

lemma read_block_bound_witness:
  "ReadBlock PosixRandomAccessFile
     \<lparr> pf_name = ''000005.ldb'', pf_bytes = [1, 2, 3, 4, 5, 6], pf_temporary_fd = False, pf_unopenable = False,
       pf_unreadable = False, pf_errno = [] \<rparr> True \<lparr> bh_offset = 1, bh_size = 18446744073709551613 \<rparr> = None"
proof -
  let ?f = "\<lparr> pf_name = ''000005.ldb'', pf_bytes = [1, 2, 3, 4, 5, 6], pf_temporary_fd = False, pf_unopenable = False,
       pf_unreadable = False, pf_errno = [] \<rparr>"
  have "sound_posix_file ?f" by (simp add: sound_posix_file_def)
  from read_block_bound [OF this, of "\<lparr> bh_offset = 1, bh_size = 18446744073709551613 \<rparr>" True]
  show ?thesis by simp
qed

section \<open>Tables\<close>

text \<open>A table of one entry.\<close>

abbreviation (input) empty_wstream :: wstream where
  "empty_wstream \<equiv> \<lparr> ws_name = [], ws_data = [], ws_room = None, ws_unflushable = False, ws_errno = [] \<rparr>"

lemma one_entry_table:
  obtains r where "TableBuilder_Finish PosixWritableFile
      (foldl (\<lambda>r (k, v). TableBuilder_Add PosixWritableFile k v r)
        (TableBuilder_new (db_options BytewiseComparator None True 4096 16 kSnappyCompression) empty_wstream)
        [(InternalKey [97] 7 kTypeValue, [120])]) = (StatusOK, r)"
    and "length (ws_data (tb_file r)) < 2 ^ 32"
proof -
  let ?k = "InternalKey [97] 7 kTypeValue" and ?opts = "db_options BytewiseComparator None True 4096 16 kSnappyCompression"
  let ?f = "\<lparr> ws_name = [], ws_data = [], ws_room = None, ws_unflushable = False, ws_errno = [] \<rparr>"
  have f: "sound_wstream ?f" "ws_data ?f = []" by (simp_all add: sound_wstream_def)
  have interval: "1 \<le> opt_block_restart_interval ?opts" by (simp add: db_options_def)
  obtain bs r where b: "TableBuilder_Finish PosixWritableFile
      (foldl (\<lambda>r (k, v). TableBuilder_Add PosixWritableFile k v r) (TableBuilder_new ?opts ?f) [(?k, [120])]) = (StatusOK, r)"
    "ws_data (tb_file r) = table_bytes ?opts bs" "concat bs = [(?k, [120])]" "[] \<notin> set bs"
    by (rule posix_writable.build_table [OF f interval])
  have bs: "bs = [[(?k, [120])]]"
  proof (cases bs)
    case (Cons es bs')
    then have "es = [(?k, [120])]" "concat bs' = []" using b(3,4) by (cases es; simp)+
    moreover have "bs' = []" using \<open>concat bs' = []\<close> b(4) Cons by (cases bs') auto
    ultimately show ?thesis using Cons by simp
  qed (use b(3) in simp)
  have succ: "length (separator_key (InternalKeyComparator BytewiseComparator) [[(?k, [120])]] 0) \<le> 9"
    by (simp add: separator_key_def InternalKeyComparator_def internal_FindShortSuccessor_def last_key_def Let_def
        BytewiseComparator_def)
  have key: "length ?k = 9" by simp
  have "length (table_bytes ?opts bs) < 2 ^ 32"
  proof -
    have "length (build_block 16 [(?k, [120])]) \<le> 37"
      using length_build_block [of 16 "[(?k, [120])]"] by (simp add: add_weight_def key)
    moreover have "length (build_block 16 []) \<le> 8" using length_build_block [of 16 "[]"] by (simp add: add_weight_def)
    moreover have "length (index_contents ?opts bs) \<le> 56"
      using length_build_block [of 1 "index_entries (InternalKeyComparator BytewiseComparator) 16 bs 1"] succ
        length_BlockHandle [of "handle_at 16 bs 0"]
      by (simp add: index_contents_def add_weight_def index_entries_def bs db_options_def kMaxEncodedLength_def)
    ultimately show ?thesis
      by (simp add: lt_trans_sizes table_data_def blocks_bytes_def filter_contents_def meta_contents_def meta_entries_def
          db_options_def bs kBlockTrailerSize_def kEncodedLength_def kMaxEncodedLength_def)
  qed
  then show thesis using that [of r] b(1,2) by simp
qed

text \<open>What is built over a sound file opens, with the entries cut into sorted blocks.\<close>

lemma built_table_opens:
  assumes "opts = db_options BytewiseComparator (map_option NewBloomFilterPolicy bits_per_key) paranoid bsize interval compression"
    and "1 \<le> interval" and "sorted_entries (InternalKeyComparator BytewiseComparator) kvs" and "\<forall>e \<in> set kvs. 8 \<le> length (fst e)"
    and "sound_wstream f" and "ws_data f = []"
    and "(s, r) = TableBuilder_Finish PosixWritableFile
      (foldl (\<lambda>r (k, v). TableBuilder_Add PosixWritableFile k v r) (TableBuilder_new opts f) kvs)"
    and "length (ws_data (tb_file r)) < 2 ^ 32" and "sound_posix_file g" and "pf_bytes g = ws_data (tb_file r)"
  obtains bs where "s = StatusOK" "concat bs = kvs" "pf_bytes g = table_bytes opts bs" "length (table_bytes opts bs) < 2 ^ 32"
    "sorted_blocks (InternalKeyComparator BytewiseComparator) (\<lambda>k. 8 \<le> length k) bs"
    "Table_Open PosixRandomAccessFile opts g (FileSize r) = Some (StatusOK, Some (opened opts g bs))"
proof -
  have interval: "1 \<le> opt_block_restart_interval opts" using assms(1,2) by (simp add: db_options_def)
  obtain bs r' where b: "TableBuilder_Finish PosixWritableFile
      (foldl (\<lambda>r (k, v). TableBuilder_Add PosixWritableFile k v r) (TableBuilder_new opts f) kvs) = (StatusOK, r')"
    "ws_data (tb_file r') = table_bytes opts bs" "FileSize r' = word_of_nat (length (table_bytes opts bs))"
    "concat bs = kvs" "[] \<notin> set bs"
    by (rule posix_writable.build_table [OF assms(5,6) interval])
  have sr: "s = StatusOK" "r' = r" using assms(7) b(1) by simp_all
  have bytes: "pf_bytes g = table_bytes opts bs" "length (table_bytes opts bs) < 2 ^ 32"
    using assms(8,10) b(2) sr(2) by simp_all
  have srt: "sorted_blocks (InternalKeyComparator BytewiseComparator) (\<lambda>k. 8 \<le> length k) bs"
    unfolding sorted_blocks_def b(4) using assms(3,4) b(5) by blast
  have "Table_Open PosixRandomAccessFile opts g (FileSize r) = Some (StatusOK, Some (opened opts g bs))"
    using posix_random.Table_Open_ok [OF assms(9) bytes interval] b(3) sr(2) by simp
  then show thesis using that [OF sr(1) b(4) bytes srt] by blast
qed

text \<open>C4: A table built over a sound file from entries in the order of internal keys, in a database with the
  bytewise comparator, with or without Bloom filter, opens without error, and a lookup in it succeeds: it
  delivers nothing or the first entry at or past the internal key, and it delivers that entry
  whenever it has the user key that is looked up. So neither the filter, nor the shortened keys
  of the index, nor the cut into blocks ever hides an entry.\<close>

theorem table_finds_entry:
  assumes "opts = db_options BytewiseComparator (map_option NewBloomFilterPolicy bits_per_key) paranoid bsize interval compression"
    and "1 \<le> interval" and "sorted_entries (InternalKeyComparator BytewiseComparator) kvs" and "\<forall>e \<in> set kvs. 8 \<le> length (fst e)"
    and "sound_wstream f" and "ws_data f = []"
    and "(s, r) = TableBuilder_Finish PosixWritableFile
      (foldl (\<lambda>r (k, v). TableBuilder_Add PosixWritableFile k v r) (TableBuilder_new opts f) kvs)"
    and "length (ws_data (tb_file r)) < 2 ^ 32" and "sound_posix_file g" and "pf_bytes g = ws_data (tb_file r)" and "8 \<le> length k"
  shows "s = StatusOK \<and> (\<exists>t res. Table_Open PosixRandomAccessFile opts g (FileSize r) = Some (StatusOK, Some t)
    \<and> InternalGet PosixRandomAccessFile verify k t = Some (StatusOK, res)
    \<and> (res = None \<or> res = first_at (InternalKeyComparator BytewiseComparator) k kvs)
    \<and> (\<forall>e. first_at (InternalKeyComparator BytewiseComparator) k kvs = Some e
         \<longrightarrow> ExtractUserKey (fst e) = ExtractUserKey k \<longrightarrow> res = Some e))"
proof -
  have interval: "1 \<le> opt_block_restart_interval opts" using assms(1,2) by (simp add: db_options_def)
  obtain bs where b: "s = StatusOK" "concat bs = kvs" "pf_bytes g = table_bytes opts bs" "length (table_bytes opts bs) < 2 ^ 32"
    "sorted_blocks (InternalKeyComparator BytewiseComparator) (\<lambda>k. 8 \<le> length k) bs"
    "Table_Open PosixRandomAccessFile opts g (FileSize r) = Some (StatusOK, Some (opened opts g bs))"
    by (rule built_table_opens [OF assms(1-10)])
  from db_table.InternalGet_finds [OF assms(9) b(3,4) [unfolded assms(1)] interval [unfolded assms(1)] b(5) assms(11), of verify]
  obtain res where res: "InternalGet PosixRandomAccessFile verify k (opened opts g bs) = Some (StatusOK, res)"
    "res = None \<or> res = first_at (InternalKeyComparator BytewiseComparator) k kvs"
    "\<forall>e. first_at (InternalKeyComparator BytewiseComparator) k kvs = Some e \<longrightarrow> same_user_key k (fst e) \<longrightarrow> res = Some e"
    unfolding assms(1) [symmetric] b(2) by blast
  then show ?thesis using b(1,6) unfolding same_user_key_def by metis
qed

lemma table_finds_entry_witness:
  "\<exists>r t. TableBuilder_Finish PosixWritableFile (TableBuilder_Add PosixWritableFile (InternalKey [97] 7 kTypeValue) [120]
        (TableBuilder_new (db_options BytewiseComparator None True 4096 16 kSnappyCompression)
          \<lparr> ws_name = [], ws_data = [], ws_room = None, ws_unflushable = False, ws_errno = [] \<rparr>)) = (StatusOK, r)
    \<and> Table_Open PosixRandomAccessFile (db_options BytewiseComparator None True 4096 16 kSnappyCompression)
        \<lparr> pf_name = [], pf_bytes = ws_data (tb_file r), pf_temporary_fd = False, pf_unopenable = False,
          pf_unreadable = False, pf_errno = [] \<rparr> (FileSize r) = Some (StatusOK, Some t)
    \<and> InternalGet PosixRandomAccessFile True (InternalKey [97] 9 kTypeValue) t = Some (StatusOK, Some (InternalKey [97] 7 kTypeValue, [120]))"
proof -
  let ?k = "InternalKey [97] 7 kTypeValue" and ?opts = "db_options BytewiseComparator None True 4096 16 kSnappyCompression"
  let ?f = "\<lparr> ws_name = [], ws_data = [], ws_room = None, ws_unflushable = False, ws_errno = [] \<rparr>"
  have f: "sound_wstream ?f" "ws_data ?f = []" by (simp_all add: sound_wstream_def)
  obtain r where b: "TableBuilder_Finish PosixWritableFile
      (foldl (\<lambda>r (k, v). TableBuilder_Add PosixWritableFile k v r) (TableBuilder_new ?opts ?f) [(?k, [120])]) = (StatusOK, r)"
    and len: "length (ws_data (tb_file r)) < 2 ^ 32" by (rule one_entry_table)
  let ?g = "\<lparr> pf_name = [], pf_bytes = ws_data (tb_file r), pf_temporary_fd = False, pf_unopenable = False,
          pf_unreadable = False, pf_errno = [] \<rparr>"
  have g: "sound_posix_file ?g" "pf_bytes ?g = ws_data (tb_file r)" using len by (simp_all add: sound_posix_file_def)
  have opts: "?opts = db_options BytewiseComparator (map_option NewBloomFilterPolicy None) True 4096 16 kSnappyCompression" by simp
  have one: "(1 :: nat) \<le> 16" "sorted_entries (InternalKeyComparator BytewiseComparator) [(?k, [120])]"
    "\<forall>e \<in> set [(?k, [120])]. 8 \<le> length (fst e)" "8 \<le> length (InternalKey [97] 9 kTypeValue)"
    by (simp_all add: sorted_entries_def)
  have first: "first_at (InternalKeyComparator BytewiseComparator) (InternalKey [97] 9 kTypeValue) [(?k, [120])] = Some (?k, [120])"
    by (simp add: first_at_def InternalKeyComparator_def internal_Compare_def Let_def BytewiseComparator_def
        PackSequenceAndType_def)
  from table_finds_entry [OF opts one(1-3) f b [symmetric] len g one(4), of True] first b
  show ?thesis by auto
qed

end
