(* ===== verification/Ldb_Merger.thy ===== *)
theory Ldb_Merger
  imports Ldb_Iterator
begin

text \<open>
  Iterators over several iterators: the wrapper that caches validity and key
  (\<^verbatim>\<open>table/iterator_wrapper.h\<close>) and the merging iterator (\<^verbatim>\<open>table/merger.cc\<close>). The children have the
  same type, so that one record of functions serves all of them; \<open>None\<close> is the result of an
  operation whose child gives none, or that is called without an iterator.
\<close>

section \<open>The wrapper\<close>

record 's IteratorWrapper =
  iw_iter :: "'s option"
  iw_valid :: bool
  iw_key :: slice

definition IteratorWrapper_new :: "'s IteratorWrapper" where
  "IteratorWrapper_new = \<lparr> iw_iter = None, iw_valid = False, iw_key = [] \<rparr>"

definition iw_Update :: "'s Iterator \<Rightarrow> 's \<Rightarrow> 's IteratorWrapper \<Rightarrow> 's IteratorWrapper" where
  "iw_Update ops iter w =
     w\<lparr> iw_iter := Some iter, iw_valid := i_Valid ops iter,
        iw_key := if i_Valid ops iter then i_key ops iter else iw_key w \<rparr>"

definition iw_Set :: "'s Iterator \<Rightarrow> 's option \<Rightarrow> 's IteratorWrapper \<Rightarrow> 's IteratorWrapper" where
  "iw_Set ops iter w =
     (case iter of None \<Rightarrow> w\<lparr> iw_iter := None, iw_valid := False \<rparr> | Some it \<Rightarrow> iw_Update ops it w)"

text \<open>A call of the wrapped iterator, followed by the update of what is cached.\<close>

definition iw_call :: "'s Iterator \<Rightarrow> ('s \<Rightarrow> 's option) \<Rightarrow> 's IteratorWrapper \<Rightarrow> 's IteratorWrapper option" where
  "iw_call ops operation w =
     (case iw_iter w of None \<Rightarrow> None | Some iter \<Rightarrow> map_option (\<lambda>iter. iw_Update ops iter w) (operation iter))"

definition iw_Next :: "'s Iterator \<Rightarrow> 's IteratorWrapper \<Rightarrow> 's IteratorWrapper option" where
  "iw_Next ops = iw_call ops (i_Next ops)"

definition iw_Prev :: "'s Iterator \<Rightarrow> 's IteratorWrapper \<Rightarrow> 's IteratorWrapper option" where
  "iw_Prev ops = iw_call ops (i_Prev ops)"

definition iw_Seek :: "'s Iterator \<Rightarrow> slice \<Rightarrow> 's IteratorWrapper \<Rightarrow> 's IteratorWrapper option" where
  "iw_Seek ops k = iw_call ops (i_Seek ops k)"

definition iw_SeekToFirst :: "'s Iterator \<Rightarrow> 's IteratorWrapper \<Rightarrow> 's IteratorWrapper option" where
  "iw_SeekToFirst ops = iw_call ops (i_SeekToFirst ops)"

definition iw_SeekToLast :: "'s Iterator \<Rightarrow> 's IteratorWrapper \<Rightarrow> 's IteratorWrapper option" where
  "iw_SeekToLast ops = iw_call ops (i_SeekToLast ops)"

text \<open>The value and the status are those of the wrapped iterator, which has to be there.\<close>

definition iw_value :: "'s Iterator \<Rightarrow> 's IteratorWrapper \<Rightarrow> slice" where
  "iw_value ops w = (case iw_iter w of None \<Rightarrow> [] | Some iter \<Rightarrow> i_value ops iter)"

definition iw_status :: "'s Iterator \<Rightarrow> 's IteratorWrapper \<Rightarrow> Status" where
  "iw_status ops w = (case iw_iter w of None \<Rightarrow> StatusOK | Some iter \<Rightarrow> i_status ops iter)"

section \<open>The merging iterator\<close>

datatype Direction = kForward | kReverse

record 's MergingIterator =
  mi_children :: "'s IteratorWrapper list"
  mi_current :: "nat option"
  mi_direction :: Direction

definition MergingIterator_new :: "'s Iterator \<Rightarrow> 's list \<Rightarrow> 's MergingIterator" where
  "MergingIterator_new ops children =
     \<lparr> mi_children = map (\<lambda>s. iw_Set ops (Some s) IteratorWrapper_new) children, mi_current = None,
       mi_direction = kForward \<rparr>"

text \<open>An operation on every child, in their order, and on every child except one.\<close>

fun all_children :: "('a \<Rightarrow> 'a option) \<Rightarrow> 'a list \<Rightarrow> 'a list option" where
  "all_children operation [] = Some []"
| "all_children operation (w # ws) =
     (case operation w of
        None \<Rightarrow> None
      | Some w \<Rightarrow> map_option (\<lambda>ws. w # ws) (all_children operation ws))"

fun other_children :: "('a \<Rightarrow> 'a option) \<Rightarrow> nat \<Rightarrow> 'a list \<Rightarrow> 'a list option" where
  "other_children operation current [] = Some []"
| "other_children operation 0 (w # ws) = map_option (\<lambda>ws. w # ws) (all_children operation ws)"
| "other_children operation (Suc current) (w # ws) =
     (case operation w of
        None \<Rightarrow> None
      | Some w \<Rightarrow> map_option (\<lambda>ws. w # ws) (other_children operation current ws))"

definition FindSmallest :: "Comparator \<Rightarrow> 's IteratorWrapper list \<Rightarrow> nat option" where
  "FindSmallest c children =
     foldl (\<lambda>smallest i.
         if iw_valid (children ! i)
         then case smallest of
             None \<Rightarrow> Some i
           | Some m \<Rightarrow> if cmp_Compare c (iw_key (children ! i)) (iw_key (children ! m)) < 0 then Some i else Some m
         else smallest) None [0..<length children]"

definition FindLargest :: "Comparator \<Rightarrow> 's IteratorWrapper list \<Rightarrow> nat option" where
  "FindLargest c children =
     foldl (\<lambda>largest i.
         if iw_valid (children ! i)
         then case largest of
             None \<Rightarrow> Some i
           | Some m \<Rightarrow> if 0 < cmp_Compare c (iw_key (children ! i)) (iw_key (children ! m)) then Some i else Some m
         else largest) None (rev [0..<length children])"

definition mi_Valid :: "'s MergingIterator \<Rightarrow> bool" where
  "mi_Valid it \<longleftrightarrow> mi_current it \<noteq> None"

definition mi_key :: "'s MergingIterator \<Rightarrow> slice" where
  "mi_key it = (case mi_current it of None \<Rightarrow> [] | Some m \<Rightarrow> iw_key (mi_children it ! m))"

definition mi_value :: "'s Iterator \<Rightarrow> 's MergingIterator \<Rightarrow> slice" where
  "mi_value ops it = (case mi_current it of None \<Rightarrow> [] | Some m \<Rightarrow> iw_value ops (mi_children it ! m))"

definition mi_SeekToFirst :: "Comparator \<Rightarrow> 's Iterator \<Rightarrow> 's MergingIterator \<Rightarrow> 's MergingIterator option" where
  "mi_SeekToFirst c ops it =
     map_option (\<lambda>ws. it\<lparr> mi_children := ws, mi_current := FindSmallest c ws, mi_direction := kForward \<rparr>)
       (all_children (iw_SeekToFirst ops) (mi_children it))"

definition mi_SeekToLast :: "Comparator \<Rightarrow> 's Iterator \<Rightarrow> 's MergingIterator \<Rightarrow> 's MergingIterator option" where
  "mi_SeekToLast c ops it =
     map_option (\<lambda>ws. it\<lparr> mi_children := ws, mi_current := FindLargest c ws, mi_direction := kReverse \<rparr>)
       (all_children (iw_SeekToLast ops) (mi_children it))"

definition mi_Seek :: "Comparator \<Rightarrow> 's Iterator \<Rightarrow> slice \<Rightarrow> 's MergingIterator \<Rightarrow> 's MergingIterator option" where
  "mi_Seek c ops target it =
     map_option (\<lambda>ws. it\<lparr> mi_children := ws, mi_current := FindSmallest c ws, mi_direction := kForward \<rparr>)
       (all_children (iw_Seek ops target) (mi_children it))"

text \<open>Putting a child behind, or before, the current key.\<close>

definition child_after :: "Comparator \<Rightarrow> 's Iterator \<Rightarrow> slice \<Rightarrow> 's IteratorWrapper \<Rightarrow> 's IteratorWrapper option" where
  "child_after c ops key child =
     (case iw_Seek ops key child of
        None \<Rightarrow> None
      | Some child \<Rightarrow>
          if iw_valid child \<and> cmp_Compare c key (iw_key child) = 0 then iw_Next ops child else Some child)"

definition child_before :: "'s Iterator \<Rightarrow> slice \<Rightarrow> 's IteratorWrapper \<Rightarrow> 's IteratorWrapper option" where
  "child_before ops key child =
     (case iw_Seek ops key child of
        None \<Rightarrow> None
      | Some child \<Rightarrow> if iw_valid child then iw_Prev ops child else iw_SeekToLast ops child)"

text \<open>Both need a current child, which the code asserts.\<close>

definition mi_Next :: "Comparator \<Rightarrow> 's Iterator \<Rightarrow> 's MergingIterator \<Rightarrow> 's MergingIterator option" where
  "mi_Next c ops it =
     (case mi_current it of
        None \<Rightarrow> None
      | Some m \<Rightarrow>
          (case (if mi_direction it \<noteq> kForward
                 then other_children (child_after c ops (mi_key it)) m (mi_children it) else Some (mi_children it)) of
             None \<Rightarrow> None
           | Some ws \<Rightarrow>
               (case iw_Next ops (ws ! m) of
                  None \<Rightarrow> None
                | Some w \<Rightarrow>
                    let ws = ws[m := w]
                    in Some (it\<lparr> mi_children := ws, mi_current := FindSmallest c ws, mi_direction := kForward \<rparr>))))"

definition mi_Prev :: "Comparator \<Rightarrow> 's Iterator \<Rightarrow> 's MergingIterator \<Rightarrow> 's MergingIterator option" where
  "mi_Prev c ops it =
     (case mi_current it of
        None \<Rightarrow> None
      | Some m \<Rightarrow>
          (case (if mi_direction it \<noteq> kReverse
                 then other_children (child_before ops (mi_key it)) m (mi_children it) else Some (mi_children it)) of
             None \<Rightarrow> None
           | Some ws \<Rightarrow>
               (case iw_Prev ops (ws ! m) of
                  None \<Rightarrow> None
                | Some w \<Rightarrow>
                    let ws = ws[m := w]
                    in Some (it\<lparr> mi_children := ws, mi_current := FindLargest c ws, mi_direction := kReverse \<rparr>))))"

fun first_error :: "Status list \<Rightarrow> Status" where
  "first_error [] = StatusOK"
| "first_error (s # ss) = (if \<not> status_ok s then s else first_error ss)"

definition mi_status :: "'s Iterator \<Rightarrow> 's MergingIterator \<Rightarrow> Status" where
  "mi_status ops it = first_error (map (iw_status ops) (mi_children it))"

text \<open>The three kinds of iterators that \<^verbatim>\<open>NewMergingIterator\<close> returns.\<close>

datatype 's merged_iterator = NoChild Status | OneChild 's | Merging "'s MergingIterator"

definition NewMergingIterator :: "'s Iterator \<Rightarrow> 's list \<Rightarrow> 's merged_iterator" where
  "NewMergingIterator ops children =
     (case children of
        [] \<Rightarrow> NoChild NewEmptyIterator
      | [child] \<Rightarrow> OneChild child
      | _ \<Rightarrow> Merging (MergingIterator_new ops children))"

definition merged_move ::
    "(Status \<Rightarrow> Status option) \<Rightarrow> ('s \<Rightarrow> 's option) \<Rightarrow> ('s MergingIterator \<Rightarrow> 's MergingIterator option)
      \<Rightarrow> 's merged_iterator \<Rightarrow> 's merged_iterator option" where
  "merged_move none one many s =
     (case s of NoChild e \<Rightarrow> map_option NoChild (none e) | OneChild s \<Rightarrow> map_option OneChild (one s)
      | Merging it \<Rightarrow> map_option Merging (many it))"

definition MergedIterator :: "Comparator \<Rightarrow> 's Iterator \<Rightarrow> 's merged_iterator Iterator" where
  "MergedIterator c ops =
     \<lparr> i_Valid = (\<lambda>s. case s of NoChild e \<Rightarrow> i_Valid EmptyIterator e | OneChild s \<Rightarrow> i_Valid ops s | Merging it \<Rightarrow> mi_Valid it),
       i_SeekToFirst = merged_move (i_SeekToFirst EmptyIterator) (i_SeekToFirst ops) (mi_SeekToFirst c ops),
       i_SeekToLast = merged_move (i_SeekToLast EmptyIterator) (i_SeekToLast ops) (mi_SeekToLast c ops),
       i_Seek = (\<lambda>k. merged_move (i_Seek EmptyIterator k) (i_Seek ops k) (mi_Seek c ops k)),
       i_Next = merged_move (i_Next EmptyIterator) (i_Next ops) (mi_Next c ops),
       i_Prev = merged_move (i_Prev EmptyIterator) (i_Prev ops) (mi_Prev c ops),
       i_key = (\<lambda>s. case s of NoChild e \<Rightarrow> i_key EmptyIterator e | OneChild s \<Rightarrow> i_key ops s | Merging it \<Rightarrow> mi_key it),
       i_value = (\<lambda>s. case s of NoChild e \<Rightarrow> i_value EmptyIterator e | OneChild s \<Rightarrow> i_value ops s | Merging it \<Rightarrow> mi_value ops it),
       i_status = (\<lambda>s. case s of NoChild e \<Rightarrow> i_status EmptyIterator e | OneChild s \<Rightarrow> i_status ops s | Merging it \<Rightarrow> mi_status ops it) \<rparr>"

end
