(* ===== verification/Ldb_Two_Level.thy ===== *)
theory Ldb_Two_Level
  imports Ldb_Merger
begin

text \<open>
  The iterator over the blocks that the entries of an index point to (\<^verbatim>\<open>table/two_level_iterator.cc\<close>).
  The function that opens a block is a parameter; \<open>None\<close> is its result where the code would read
  outside a buffer.
\<close>

record ('i, 'd) TwoLevelIterator =
  ti_status :: Status
  ti_index_iter :: "'i IteratorWrapper"
  ti_data_iter :: "'d IteratorWrapper"
  ti_data_block_handle :: slice

definition TwoLevelIterator_new :: "'i Iterator \<Rightarrow> 'i \<Rightarrow> ('i, 'd) TwoLevelIterator" where
  "TwoLevelIterator_new iops index_iter =
     \<lparr> ti_status = StatusOK, ti_index_iter = iw_Set iops (Some index_iter) IteratorWrapper_new,
       ti_data_iter = IteratorWrapper_new, ti_data_block_handle = [] \<rparr>"

definition ti_Valid :: "('i, 'd) TwoLevelIterator \<Rightarrow> bool" where
  "ti_Valid it \<longleftrightarrow> iw_valid (ti_data_iter it)"

definition two_level_status :: "'i Iterator \<Rightarrow> 'd Iterator \<Rightarrow> ('i, 'd) TwoLevelIterator \<Rightarrow> Status" where
  "two_level_status iops dops it =
     (if \<not> status_ok (iw_status iops (ti_index_iter it)) then iw_status iops (ti_index_iter it)
      else if iw_iter (ti_data_iter it) \<noteq> None \<and> \<not> status_ok (iw_status dops (ti_data_iter it))
      then iw_status dops (ti_data_iter it)
      else ti_status it)"

definition SaveError :: "Status \<Rightarrow> ('i, 'd) TwoLevelIterator \<Rightarrow> ('i, 'd) TwoLevelIterator" where
  "SaveError s it = (if status_ok (ti_status it) \<and> \<not> status_ok s then it\<lparr> ti_status := s \<rparr> else it)"

definition SetDataIterator :: "'d Iterator \<Rightarrow> 'd option \<Rightarrow> ('i, 'd) TwoLevelIterator \<Rightarrow> ('i, 'd) TwoLevelIterator" where
  "SetDataIterator dops data_iter it =
     (let it = (if iw_iter (ti_data_iter it) \<noteq> None then SaveError (iw_status dops (ti_data_iter it)) it else it)
      in it\<lparr> ti_data_iter := iw_Set dops data_iter (ti_data_iter it) \<rparr>)"

definition InitDataBlock ::
    "'i Iterator \<Rightarrow> 'd Iterator \<Rightarrow> (slice \<Rightarrow> 'd option) \<Rightarrow> ('i, 'd) TwoLevelIterator \<Rightarrow> ('i, 'd) TwoLevelIterator option" where
  "InitDataBlock iops dops block_function it =
     (if \<not> iw_valid (ti_index_iter it) then Some (SetDataIterator dops None it)
      else let handle = iw_value iops (ti_index_iter it)
           in if iw_iter (ti_data_iter it) \<noteq> None \<and> slice_compare handle (ti_data_block_handle it) = 0 then Some it
              else case block_function handle of
                  None \<Rightarrow> None
                | Some iter \<Rightarrow> Some (SetDataIterator dops (Some iter) (it\<lparr> ti_data_block_handle := handle \<rparr>)))"

text \<open>An operation of the iterator over the data, where there is one.\<close>

definition on_data ::
    "('d IteratorWrapper \<Rightarrow> 'd IteratorWrapper option) \<Rightarrow> ('i, 'd) TwoLevelIterator \<Rightarrow> ('i, 'd) TwoLevelIterator option" where
  "on_data operation it =
     (if iw_iter (ti_data_iter it) \<noteq> None
      then map_option (\<lambda>w. it\<lparr> ti_data_iter := w \<rparr>) (operation (ti_data_iter it)) else Some it)"

text \<open>Moving the index, opening the block it points to, and moving in that.\<close>

definition move_index ::
    "'i Iterator \<Rightarrow> 'd Iterator \<Rightarrow> (slice \<Rightarrow> 'd option) \<Rightarrow> ('i IteratorWrapper \<Rightarrow> 'i IteratorWrapper option)
      \<Rightarrow> ('d IteratorWrapper \<Rightarrow> 'd IteratorWrapper option) \<Rightarrow> ('i, 'd) TwoLevelIterator \<Rightarrow> ('i, 'd) TwoLevelIterator option" where
  "move_index iops dops block_function index_move data_move it =
     (case index_move (ti_index_iter it) of
        None \<Rightarrow> None
      | Some w \<Rightarrow>
          (case InitDataBlock iops dops block_function (it\<lparr> ti_index_iter := w \<rparr>) of
             None \<Rightarrow> None
           | Some it \<Rightarrow> on_data data_move it))"

partial_function (option) SkipEmptyDataBlocksForward ::
    "'i Iterator \<Rightarrow> 'd Iterator \<Rightarrow> (slice \<Rightarrow> 'd option) \<Rightarrow> ('i, 'd) TwoLevelIterator \<Rightarrow> ('i, 'd) TwoLevelIterator option" where
  "SkipEmptyDataBlocksForward iops dops block_function it =
     (if iw_iter (ti_data_iter it) = None \<or> \<not> iw_valid (ti_data_iter it)
      then if \<not> iw_valid (ti_index_iter it) then Some (SetDataIterator dops None it)
           else case move_index iops dops block_function (iw_Next iops) (iw_SeekToFirst dops) it of
               None \<Rightarrow> None
             | Some it \<Rightarrow> SkipEmptyDataBlocksForward iops dops block_function it
      else Some it)"

partial_function (option) SkipEmptyDataBlocksBackward ::
    "'i Iterator \<Rightarrow> 'd Iterator \<Rightarrow> (slice \<Rightarrow> 'd option) \<Rightarrow> ('i, 'd) TwoLevelIterator \<Rightarrow> ('i, 'd) TwoLevelIterator option" where
  "SkipEmptyDataBlocksBackward iops dops block_function it =
     (if iw_iter (ti_data_iter it) = None \<or> \<not> iw_valid (ti_data_iter it)
      then if \<not> iw_valid (ti_index_iter it) then Some (SetDataIterator dops None it)
           else case move_index iops dops block_function (iw_Prev iops) (iw_SeekToLast dops) it of
               None \<Rightarrow> None
             | Some it \<Rightarrow> SkipEmptyDataBlocksBackward iops dops block_function it
      else Some it)"

definition ti_Seek ::
    "'i Iterator \<Rightarrow> 'd Iterator \<Rightarrow> (slice \<Rightarrow> 'd option) \<Rightarrow> slice \<Rightarrow> ('i, 'd) TwoLevelIterator \<Rightarrow> ('i, 'd) TwoLevelIterator option" where
  "ti_Seek iops dops block_function target it =
     (case move_index iops dops block_function (iw_Seek iops target) (iw_Seek dops target) it of
        None \<Rightarrow> None | Some it \<Rightarrow> SkipEmptyDataBlocksForward iops dops block_function it)"

definition ti_SeekToFirst ::
    "'i Iterator \<Rightarrow> 'd Iterator \<Rightarrow> (slice \<Rightarrow> 'd option) \<Rightarrow> ('i, 'd) TwoLevelIterator \<Rightarrow> ('i, 'd) TwoLevelIterator option" where
  "ti_SeekToFirst iops dops block_function it =
     (case move_index iops dops block_function (iw_SeekToFirst iops) (iw_SeekToFirst dops) it of
        None \<Rightarrow> None | Some it \<Rightarrow> SkipEmptyDataBlocksForward iops dops block_function it)"

definition ti_SeekToLast ::
    "'i Iterator \<Rightarrow> 'd Iterator \<Rightarrow> (slice \<Rightarrow> 'd option) \<Rightarrow> ('i, 'd) TwoLevelIterator \<Rightarrow> ('i, 'd) TwoLevelIterator option" where
  "ti_SeekToLast iops dops block_function it =
     (case move_index iops dops block_function (iw_SeekToLast iops) (iw_SeekToLast dops) it of
        None \<Rightarrow> None | Some it \<Rightarrow> SkipEmptyDataBlocksBackward iops dops block_function it)"

definition ti_Next ::
    "'i Iterator \<Rightarrow> 'd Iterator \<Rightarrow> (slice \<Rightarrow> 'd option) \<Rightarrow> ('i, 'd) TwoLevelIterator \<Rightarrow> ('i, 'd) TwoLevelIterator option" where
  "ti_Next iops dops block_function it =
     (case iw_Next dops (ti_data_iter it) of
        None \<Rightarrow> None
      | Some w \<Rightarrow> SkipEmptyDataBlocksForward iops dops block_function (it\<lparr> ti_data_iter := w \<rparr>))"

definition ti_Prev ::
    "'i Iterator \<Rightarrow> 'd Iterator \<Rightarrow> (slice \<Rightarrow> 'd option) \<Rightarrow> ('i, 'd) TwoLevelIterator \<Rightarrow> ('i, 'd) TwoLevelIterator option" where
  "ti_Prev iops dops block_function it =
     (case iw_Prev dops (ti_data_iter it) of
        None \<Rightarrow> None
      | Some w \<Rightarrow> SkipEmptyDataBlocksBackward iops dops block_function (it\<lparr> ti_data_iter := w \<rparr>))"

definition TwoLevel :: "'i Iterator \<Rightarrow> 'd Iterator \<Rightarrow> (slice \<Rightarrow> 'd option) \<Rightarrow> ('i, 'd) TwoLevelIterator Iterator" where
  "TwoLevel iops dops block_function =
     \<lparr> i_Valid = ti_Valid, i_SeekToFirst = ti_SeekToFirst iops dops block_function,
       i_SeekToLast = ti_SeekToLast iops dops block_function, i_Seek = ti_Seek iops dops block_function,
       i_Next = ti_Next iops dops block_function, i_Prev = ti_Prev iops dops block_function,
       i_key = (\<lambda>it. iw_key (ti_data_iter it)), i_value = (\<lambda>it. iw_value dops (ti_data_iter it)),
       i_status = two_level_status iops dops \<rparr>"

end
