(* ===== verification/Ldb_Merger_View.thy ===== *)
theory Ldb_Merger_View
  imports Ldb_Merger "HOL-Library.Multiset"
begin

text \<open>
  A merging iterator over children that keep the contract of iterators keeps it too, for the
  sorted list of all entries of the children.
\<close>

section \<open>Wrapped iterators\<close>

text \<open>The wrapper holds an iterator that stands at entry \<open>p\<close>, with what it caches.\<close>

definition wraps :: "entry list \<Rightarrow> ('s \<Rightarrow> nat \<Rightarrow> bool) \<Rightarrow> 's IteratorWrapper \<Rightarrow> nat \<Rightarrow> bool" where
  "wraps ys view w p \<longleftrightarrow>
     (\<exists>s. iw_iter w = Some s \<and> view s p \<and> (iw_valid w \<longleftrightarrow> p < length ys) \<and> (p < length ys \<longrightarrow> iw_key w = fst (ys ! p)))"

lemma wraps_valid: "wraps ys view w p \<Longrightarrow> iw_valid w \<longleftrightarrow> p < length ys"
  by (auto simp: wraps_def)

lemma wraps_key: "wraps ys view w p \<Longrightarrow> p < length ys \<Longrightarrow> iw_key w = fst (ys ! p)"
  by (auto simp: wraps_def)

context iterator
begin

lemma wraps_Update: "view s p \<Longrightarrow> wraps xs view (iw_Update ops s w) p"
  using valid_view [of s p] key_view [of s p] by (auto simp: wraps_def iw_Update_def)

lemma wraps_Set: "view s p \<Longrightarrow> wraps xs view (iw_Set ops (Some s) w) p"
  by (simp add: iw_Set_def wraps_Update)

lemma wraps_call:
  assumes "wraps xs view w p" and "\<And>s. view s p \<Longrightarrow> \<exists>t. operation s = Some t \<and> view t q"
  shows "\<exists>w'. iw_call ops operation w = Some w' \<and> wraps xs view w' q"
proof -
  from assms(1) obtain s where s: "iw_iter w = Some s" "view s p" by (auto simp: wraps_def)
  from assms(2) [OF s(2)] obtain t where "operation s = Some t" "view t q" by blast
  then show ?thesis using s(1) wraps_Update by (simp add: iw_call_def)
qed

lemma wraps_Next: "wraps xs view w p \<Longrightarrow> p < length xs \<Longrightarrow> \<exists>w'. iw_Next ops w = Some w' \<and> wraps xs view w' (p + 1)"
  unfolding iw_Next_def by (rule wraps_call) (auto dest: next_view)

lemma wraps_Prev:
  "wraps xs view w p \<Longrightarrow> p < length xs \<Longrightarrow>
     \<exists>w'. iw_Prev ops w = Some w' \<and> wraps xs view w' (if p = 0 then length xs else p - 1)"
  unfolding iw_Prev_def by (rule wraps_call) (auto dest: prev_view)

lemma wraps_Seek: "wraps xs view w p \<Longrightarrow> valid k \<Longrightarrow> \<exists>w'. iw_Seek ops k w = Some w' \<and> wraps xs view w' (lower_bound c k xs)"
  unfolding iw_Seek_def by (rule wraps_call) (auto intro: seek_view)

lemma wraps_SeekToFirst: "wraps xs view w p \<Longrightarrow> \<exists>w'. iw_SeekToFirst ops w = Some w' \<and> wraps xs view w' 0"
  unfolding iw_SeekToFirst_def by (rule wraps_call) (auto intro: first_view)

lemma wraps_SeekToLast:
  "wraps xs view w p \<Longrightarrow> \<exists>w'. iw_SeekToLast ops w = Some w' \<and> wraps xs view w' (length xs - 1)"
  unfolding iw_SeekToLast_def by (rule wraps_call) (auto dest: last_view)

lemma wraps_value: "wraps xs view w p \<Longrightarrow> p < length xs \<Longrightarrow> iw_value ops w = snd (xs ! p)"
  by (auto simp: wraps_def iw_value_def value_view)

lemma wraps_status: "wraps xs view w p \<Longrightarrow> iw_status ops w = StatusOK"
  by (auto simp: wraps_def iw_status_def status_view)

lemma wraps_le: "wraps xs view w p \<Longrightarrow> p \<le> length xs"
  using view_le by (auto simp: wraps_def)

end

section \<open>Operations on the children\<close>

lemma all_children_ok:
  assumes "\<And>j. j < length ws \<Longrightarrow> \<exists>w. operation (ws ! j) = Some w \<and> Q j w"
  shows "\<exists>ws'. all_children operation ws = Some ws' \<and> length ws' = length ws \<and> (\<forall>j < length ws. Q j (ws' ! j))"
  using assms
proof (induction ws arbitrary: Q)
  case (Cons v ws)
  from Cons.prems [of 0] obtain w where w: "operation v = Some w" "Q 0 w" by auto
  have "\<exists>ws'. all_children operation ws = Some ws' \<and> length ws' = length ws \<and> (\<forall>j < length ws. Q (Suc j) (ws' ! j))"
    using Cons.prems [of "Suc _"] by (intro Cons.IH [of "\<lambda>j. Q (Suc j)"]) simp
  then show ?case using w by (auto simp: nth_Cons split: nat.split)
qed simp

lemma other_children_ok:
  assumes "\<And>j. j < length ws \<Longrightarrow> j \<noteq> m \<Longrightarrow> \<exists>w. operation (ws ! j) = Some w \<and> Q j w" and "m < length ws"
  shows "\<exists>ws'. other_children operation m ws = Some ws' \<and> length ws' = length ws \<and> ws' ! m = ws ! m
    \<and> (\<forall>j < length ws. j \<noteq> m \<longrightarrow> Q j (ws' ! j))"
  using assms
proof (induction operation m ws arbitrary: Q rule: other_children.induct)
  case (2 operation v ws)
  have "\<exists>ws'. all_children operation ws = Some ws' \<and> length ws' = length ws \<and> (\<forall>j < length ws. Q (Suc j) (ws' ! j))"
    using 2(1) [of "Suc _"] by (intro all_children_ok) simp
  then show ?case by (auto simp: nth_Cons split: nat.split)
next
  case (3 operation m v ws)
  from 3(2) [of 0] obtain w where w: "operation v = Some w" "Q 0 w" by auto
  have "\<exists>ws'. other_children operation m ws = Some ws' \<and> length ws' = length ws \<and> ws' ! m = ws ! m
      \<and> (\<forall>j < length ws. j \<noteq> m \<longrightarrow> Q (Suc j) (ws' ! j))"
    using 3(2) [of "Suc _"] 3(3) by (intro 3(1) [OF w(1), of "\<lambda>j. Q (Suc j)"]) auto
  then show ?case using w by (auto simp: nth_Cons split: nat.split)
qed simp

text \<open>The search for the best child, in any order of the indices.\<close>

lemma pick_best:
  fixes better :: "nat \<Rightarrow> nat \<Rightarrow> bool" and valid :: "nat \<Rightarrow> bool"
  defines "turn \<equiv> \<lambda>best i. if valid i then (case best of None \<Rightarrow> Some i | Some b \<Rightarrow> if better i b then Some i else Some b) else best"
  assumes "m \<in> set js" and "valid m" and "\<And>j. j \<in> set js \<Longrightarrow> valid j \<Longrightarrow> j \<noteq> m \<Longrightarrow> better m j \<and> \<not> better j m"
  shows "foldl turn None js = Some m"
proof -
  have found: "foldl turn (Some m) is = Some m" if "set is \<subseteq> set js" for "is"
    using that
  proof (induction "is")
    case (Cons i "is")
    then show ?case using assms(4) [of i] by (cases "i = m") (auto simp: turn_def)
  qed simp
  have "foldl turn best is = Some m"
    if "m \<in> set is" "set is \<subseteq> set js" "case best of None \<Rightarrow> True | Some b \<Rightarrow> b = m \<or> better m b" for best "is"
    using that
  proof (induction "is" arbitrary: best)
    case (Cons i "is")
    show ?case
    proof (cases "i = m")
      case True
      then have "turn best i = Some m" using Cons.prems(3) assms(3) by (auto simp: turn_def split: option.splits)
      then show ?thesis using found Cons.prems(2) by simp
    next
      case False
      then have "case turn best i of None \<Rightarrow> True | Some b \<Rightarrow> b = m \<or> better m b"
        using Cons.prems(2,3) assms(4) [of i] by (auto simp: turn_def split: option.splits)
      then show ?thesis using Cons.IH Cons.prems False by simp
    qed
  qed simp
  then show ?thesis using assms(2) by simp
qed

lemma pick_none:
  "(\<And>j. j \<in> set js \<Longrightarrow> \<not> valid j) \<Longrightarrow> foldl (\<lambda>best i. if valid i then f best i else best) b js = b"
  by (induction js) auto

lemma FindSmallest_eq:
  assumes "m < length ws" and "iw_valid (ws ! m)"
    and "\<And>j. j < length ws \<Longrightarrow> iw_valid (ws ! j) \<Longrightarrow> j \<noteq> m \<Longrightarrow>
      cmp_Compare c (iw_key (ws ! m)) (iw_key (ws ! j)) < 0 \<and> \<not> cmp_Compare c (iw_key (ws ! j)) (iw_key (ws ! m)) < 0"
  shows "FindSmallest c ws = Some m"
  unfolding FindSmallest_def using assms
  by (intro pick_best [where better = "\<lambda>i m. cmp_Compare c (iw_key (ws ! i)) (iw_key (ws ! m)) < 0"]) auto

lemma FindLargest_eq:
  assumes "m < length ws" and "iw_valid (ws ! m)"
    and "\<And>j. j < length ws \<Longrightarrow> iw_valid (ws ! j) \<Longrightarrow> j \<noteq> m \<Longrightarrow>
      0 < cmp_Compare c (iw_key (ws ! m)) (iw_key (ws ! j)) \<and> \<not> 0 < cmp_Compare c (iw_key (ws ! j)) (iw_key (ws ! m))"
  shows "FindLargest c ws = Some m"
  unfolding FindLargest_def using assms
  by (intro pick_best [where better = "\<lambda>i m. 0 < cmp_Compare c (iw_key (ws ! i)) (iw_key (ws ! m))"]) auto

lemma Find_none:
  assumes "\<And>j. j < length ws \<Longrightarrow> \<not> iw_valid (ws ! j)"
  shows "FindSmallest c ws = None" "FindLargest c ws = None"
  unfolding FindSmallest_def FindLargest_def using assms by (auto intro!: pick_none)

section \<open>Merged lists\<close>

text \<open>The entries of all children in one sorted list: no key occurs twice.\<close>

definition merge_of :: "Comparator \<Rightarrow> (slice \<Rightarrow> bool) \<Rightarrow> entry list list \<Rightarrow> entry list \<Rightarrow> bool" where
  "merge_of c valid ls xs \<longleftrightarrow>
     sorted_entries c xs \<and> (\<forall>e \<in> set xs. valid (fst e)) \<and> mset xs = mset (concat ls) \<and> (\<forall>l \<in> set ls. sorted_entries c l)"

text \<open>How many of the first \<open>i\<close> entries belong to child \<open>j\<close>.\<close>

definition child_pos :: "entry list \<Rightarrow> entry list list \<Rightarrow> nat \<Rightarrow> nat \<Rightarrow> nat" where
  "child_pos xs ls i j = length (filter (\<lambda>e. e \<in> set (ls ! j)) (take i xs))"

definition rev_pos :: "entry list \<Rightarrow> entry list list \<Rightarrow> nat \<Rightarrow> nat \<Rightarrow> nat" where
  "rev_pos xs ls i j = (if child_pos xs ls (i + 1) j = 0 then length (ls ! j) else child_pos xs ls (i + 1) j - 1)"

lemma child_pos_0 [simp]: "child_pos xs ls 0 j = 0"
  by (simp add: child_pos_def)

lemma child_pos_Suc:
  "i < length xs \<Longrightarrow> child_pos xs ls (Suc i) j = child_pos xs ls i j + (if xs ! i \<in> set (ls ! j) then 1 else 0)"
  by (simp add: child_pos_def take_Suc_conv_app_nth)

lemma append_nth_parts:
  "p < length a \<Longrightarrow> l = a @ b \<Longrightarrow> l ! p \<in> set a"
  "length a \<le> p \<Longrightarrow> p < length l \<Longrightarrow> l = a @ b \<Longrightarrow> l ! p \<in> set b"
  "l = a @ x # b \<Longrightarrow> length a < length l \<and> l ! length a = x"
  by (auto simp: nth_append)

context comparator
begin

lemma sorted_entries_distinct:
  "sorted_entries c xs \<Longrightarrow> \<forall>e \<in> set xs. valid (fst e) \<Longrightarrow> distinct xs"
  by (induction xs) (auto simp: sorted_entries_def dest: compare_irrefl)

lemma sorted_entries_unique:
  assumes "sorted_entries c xs" and "sorted_entries c ys" and "set xs = set ys" and "\<forall>e \<in> set xs. valid (fst e)"
  shows "xs = ys"
  using assms
proof (induction xs arbitrary: ys)
  case (Cons x xs)
  then obtain y zs where ys: "ys = y # zs" by (cases ys) auto
  have asym: "\<not> (cmp_Compare c (fst a) (fst b) < 0 \<and> cmp_Compare c (fst b) (fst a) < 0)"
    if "a \<in> set (x # xs)" "b \<in> set (x # xs)" for a b
    using that Cons.prems(4) compare_swap [of "fst a" "fst b"] by force
  have xy: "x = y"
  proof (rule ccontr)
    assume ne: "x \<noteq> y"
    then have "y \<in> set xs" "x \<in> set zs" using Cons.prems(3) ys by (metis list.set_intros(1) set_ConsD)+
    then have "cmp_Compare c (fst x) (fst y) < 0" "cmp_Compare c (fst y) (fst x) < 0"
      using Cons.prems(1,2) ys by (auto simp: sorted_entries_def)
    then show False using asym [of x y] \<open>y \<in> set xs\<close> by simp
  qed
  have "x \<notin> set xs" using sorted_entries_distinct [OF Cons.prems(1,4)] by simp
  moreover have "y \<notin> set zs" using sorted_entries_distinct [OF Cons.prems(2)] Cons.prems(3,4) ys by auto
  ultimately have "set xs = set zs" using Cons.prems(3) ys xy by auto
  then show ?case using Cons.IH [of zs] Cons.prems ys xy by (auto simp: sorted_entries_def)
qed simp

lemma sorted_entries_nth:
  "sorted_entries c xs \<Longrightarrow> i < j \<Longrightarrow> j < length xs \<Longrightarrow> cmp_Compare c (fst (xs ! i)) (fst (xs ! j)) < 0"
  unfolding sorted_entries_def by (rule sorted_wrt_nth_less)

lemma lower_bound_nth:
  assumes "sorted_entries c xs" and "\<forall>e \<in> set xs. valid (fst e)" and "i < length xs"
  shows "lower_bound c (fst (xs ! i)) xs = i"
  using assms sorted_entries_nth [OF assms(1)] compare_irrefl by (intro lower_bound_eqI) auto

end

locale merging = comparator c valid
  for c :: Comparator and valid :: "slice \<Rightarrow> bool" +
  fixes ops :: "'s Iterator" and view :: "entry list \<Rightarrow> 's \<Rightarrow> nat \<Rightarrow> bool"
  assumes child: "iterator ops c valid ys (view ys)"
begin

lemma filter_child:
  assumes "merge_of c valid ls xs" and "j < length ls"
  shows "filter (\<lambda>e. e \<in> set (ls ! j)) xs = ls ! j"
proof (rule sorted_entries_unique)
  have "set xs = \<Union> (set ` set ls)" using assms(1) by (metis merge_of_def set_concat set_mset_mset)
  then show "set (filter (\<lambda>e. e \<in> set (ls ! j)) xs) = set (ls ! j)" using assms(2) by auto
  show "sorted_entries c (ls ! j)" using assms by (simp add: merge_of_def)
  show "sorted_entries c (filter (\<lambda>e. e \<in> set (ls ! j)) xs)"
    using assms(1) by (simp add: merge_of_def sorted_entries_def sorted_wrt_filter)
  show "\<forall>e \<in> set (filter (\<lambda>e. e \<in> set (ls ! j)) xs). valid (fst e)" using assms(1) by (simp add: merge_of_def)
qed

lemma child_split:
  assumes "merge_of c valid ls xs" and "j < length ls"
  shows "ls ! j = filter (\<lambda>e. e \<in> set (ls ! j)) (take i xs) @ filter (\<lambda>e. e \<in> set (ls ! j)) (drop i xs)"
  using filter_child [OF assms] by (metis append_take_drop_id filter_append)

lemma child_pos_le: "merge_of c valid ls xs \<Longrightarrow> j < length ls \<Longrightarrow> child_pos xs ls i j \<le> length (ls ! j)"
  using child_split [of ls xs j i] by (metis child_pos_def length_append le_add1)

lemma child_pos_all: "merge_of c valid ls xs \<Longrightarrow> j < length ls \<Longrightarrow> child_pos xs ls (length xs) j = length (ls ! j)"
  by (simp add: child_pos_def filter_child)

lemma child_below:
  assumes "merge_of c valid ls xs" and "j < length ls" and "p < child_pos xs ls i j"
  obtains q where "q < i" "q < length xs" "ls ! j ! p = xs ! q"
proof -
  have "ls ! j ! p \<in> set (take i xs)"
    using append_nth_parts(1) [OF assms(3) [unfolded child_pos_def] child_split [OF assms(1,2)]] by simp
  then obtain q where "q < length (take i xs)" "take i xs ! q = ls ! j ! p" by (metis in_set_conv_nth)
  then show ?thesis using that [of q] by simp
qed

lemma child_from:
  assumes "merge_of c valid ls xs" and "j < length ls" and "child_pos xs ls i j \<le> p" and "p < length (ls ! j)"
  obtains q where "i + q < length xs" "ls ! j ! p = xs ! (i + q)"
proof -
  have "ls ! j ! p \<in> set (drop i xs)"
    using append_nth_parts(2) [OF assms(3) [unfolded child_pos_def] assms(4) child_split [OF assms(1,2)]] by simp
  then obtain q where "q < length (drop i xs)" "drop i xs ! q = ls ! j ! p" by (metis in_set_conv_nth)
  then show ?thesis using that [of q] by simp
qed

lemma child_at:
  assumes "merge_of c valid ls xs" and "j < length ls" and "i < length xs" and "xs ! i \<in> set (ls ! j)"
  shows "child_pos xs ls i j < length (ls ! j) \<and> ls ! j ! child_pos xs ls i j = xs ! i"
proof -
  have "drop i xs = xs ! i # drop (Suc i) xs" using assms(3) by (simp add: Cons_nth_drop_Suc)
  then have "filter (\<lambda>e. e \<in> set (ls ! j)) (drop i xs) = xs ! i # filter (\<lambda>e. e \<in> set (ls ! j)) (drop (Suc i) xs)"
    using assms(4) by simp
  from append_nth_parts(3) [OF child_split [OF assms(1,2), of i, unfolded this]] show ?thesis unfolding child_pos_def .
qed

lemma owner_exists: "merge_of c valid ls xs \<Longrightarrow> i < length xs \<Longrightarrow> \<exists>m < length ls. xs ! i \<in> set (ls ! m)"
  by (metis (no_types, lifting) UN_E in_set_conv_nth merge_of_def set_concat set_mset_mset nth_mem)

lemma owner_unique:
  assumes "merge_of c valid ls xs" and "e \<in> set (ls ! j)" and "e \<in> set (ls ! k)" and "j < k" and "k < length ls"
  shows False
proof -
  have "distinct xs" using assms(1) sorted_entries_distinct by (auto simp: merge_of_def)
  then have d: "distinct (concat ls)" using assms(1) unfolding merge_of_def by (metis mset_eq_imp_distinct_iff)
  have "ls = take k ls @ ls ! k # drop (Suc k) ls" using assms(5) by (rule id_take_nth_drop)
  then have "concat ls = concat (take k ls) @ ls ! k @ concat (drop (Suc k) ls)" by (metis concat.simps(2) concat_append)
  moreover have "ls ! j \<in> set (take k ls)" using assms(4,5) by (auto simp: in_set_conv_nth intro!: exI [of _ j])
  ultimately show False using d assms(2,3) by auto
qed

lemma lower_bound_child:
  assumes "merge_of c valid ls xs" and "j < length ls" and "valid k"
  shows "lower_bound c k (ls ! j) = child_pos xs ls (lower_bound c k xs) j"
proof (rule lower_bound_eqI)
  let ?i = "lower_bound c k xs"
  show "child_pos xs ls ?i j \<le> length (ls ! j)" using child_pos_le [OF assms(1,2)] .
  show "cmp_Compare c (fst (ls ! j ! p)) k < 0" if p: "p < child_pos xs ls ?i j" for p
  proof -
    obtain q where "q < ?i" "ls ! j ! p = xs ! q"
      by (rule child_below [OF assms(1,2) p])
    then show ?thesis using below_lower_bound by simp
  qed
  show "\<not> cmp_Compare c (fst (ls ! j ! child_pos xs ls ?i j)) k < 0" if p: "child_pos xs ls ?i j < length (ls ! j)"
  proof -
    obtain q where q: "?i + q < length xs" "ls ! j ! child_pos xs ls ?i j = xs ! (?i + q)"
      by (rule child_from [OF assms(1,2) order_refl p])
    have at: "\<not> cmp_Compare c (fst (xs ! ?i)) k < 0" using at_lower_bound [of c k xs] q(1) by simp
    show ?thesis
    proof (cases "q = 0")
      case False
      have "cmp_Compare c (fst (xs ! ?i)) (fst (xs ! (?i + q))) < 0"
        using assms(1) q(1) False by (intro sorted_entries_nth) (simp_all add: merge_of_def)
      moreover have "valid (fst (xs ! ?i))" "valid (fst (xs ! (?i + q)))" using assms(1) q(1) by (simp_all add: merge_of_def)
      ultimately show ?thesis using at compare_trans [of "fst (xs ! ?i)" "fst (xs ! (?i + q))" k] assms(3) q(2) by auto
    qed (use at q(2) in simp)
  qed
qed

text \<open>Where child \<open>j\<close> stands when the merged iterator stands at entry \<open>i\<close>.\<close>

definition where_child :: "entry list \<Rightarrow> entry list list \<Rightarrow> nat \<Rightarrow> Direction \<Rightarrow> nat \<Rightarrow> nat" where
  "where_child xs ls i d j = (case d of kForward \<Rightarrow> child_pos xs ls i j | kReverse \<Rightarrow> rev_pos xs ls i j)"

definition stands :: "entry list \<Rightarrow> entry list list \<Rightarrow> 's MergingIterator \<Rightarrow> nat \<Rightarrow> bool" where
  "stands xs ls it i \<longleftrightarrow>
     length (mi_children it) = length ls \<and> i \<le> length xs
     \<and> (if i < length xs
        then (\<exists>m < length ls. mi_current it = Some m \<and> xs ! i \<in> set (ls ! m))
          \<and> (\<forall>j < length ls. wraps (ls ! j) (view (ls ! j)) (mi_children it ! j) (where_child xs ls i (mi_direction it) j))
        else mi_current it = None \<and> (\<forall>j < length ls. \<exists>p. wraps (ls ! j) (view (ls ! j)) (mi_children it ! j) p))"

lemma standsE:
  assumes "stands xs ls it i" and "i < length xs"
  obtains m where "m < length ls" "mi_current it = Some m" "xs ! i \<in> set (ls ! m)" "length (mi_children it) = length ls"
    "\<And>j. j < length ls \<Longrightarrow> wraps (ls ! j) (view (ls ! j)) (mi_children it ! j) (where_child xs ls i (mi_direction it) j)"
  using assms by (auto simp: stands_def)

lemma stands_wraps:
  "stands xs ls it i \<Longrightarrow> length (mi_children it) = length ls \<and> (\<forall>j < length ls. \<exists>p. wraps (ls ! j) (view (ls ! j)) (mi_children it ! j) p)"
  by (auto simp: stands_def split: if_splits)

text \<open>The child with the current entry stands at it, in both directions.\<close>

lemma where_owner:
  assumes "merge_of c valid ls xs" and "m < length ls" and "i < length xs" and "xs ! i \<in> set (ls ! m)"
  shows "where_child xs ls i d m = child_pos xs ls i m"
  using assms(3,4) by (cases d) (simp_all add: where_child_def rev_pos_def child_pos_Suc)

lemma where_other:
  assumes "merge_of c valid ls xs" and "m < length ls" and "xs ! i \<in> set (ls ! m)" and "i < length xs" and "j < length ls" and "j \<noteq> m"
  shows "child_pos xs ls (i + 1) j = child_pos xs ls i j"
  using owner_unique [OF assms(1) assms(3), of j] owner_unique [OF assms(1) _ assms(3), of j] assms
  by (cases "j < m") (auto simp: child_pos_Suc)

lemma smallest_at:
  assumes "merge_of c valid ls xs" and "length ws = length ls" and "i \<le> length xs"
    and "\<And>j. j < length ls \<Longrightarrow> wraps (ls ! j) (view (ls ! j)) (ws ! j) (child_pos xs ls i j)"
  shows "stands xs ls (it\<lparr> mi_children := ws, mi_current := FindSmallest c ws, mi_direction := kForward \<rparr>) i"
proof (cases "i < length xs")
  case False
  then have "i = length xs" using assms(3) by simp
  then have "\<not> iw_valid (ws ! j)" if "j < length ws" for j
    using wraps_valid [OF assms(4) [of j]] child_pos_all [OF assms(1), of j] that assms(2) by simp
  then have "FindSmallest c ws = None" by (rule Find_none)
  then show ?thesis using assms(2,3,4) False by (auto simp: stands_def)
next
  case True
  obtain m where m: "m < length ls" "xs ! i \<in> set (ls ! m)" using owner_exists [OF assms(1) True] by blast
  note at = child_at [OF assms(1) m(1) True m(2)]
  have "FindSmallest c ws = Some m"
  proof (rule FindSmallest_eq)
    fix j
    assume j: "j < length ws" "iw_valid (ws ! j)" "j \<noteq> m"
    then have jl: "j < length ls" using assms(2) by simp
    have p: "child_pos xs ls i j < length (ls ! j)" using wraps_valid [OF assms(4) [OF jl]] j(2) by simp
    obtain q where q: "i + q < length xs" "ls ! j ! child_pos xs ls i j = xs ! (i + q)"
      by (rule child_from [OF assms(1) jl order_refl p])
    have "q \<noteq> 0"
    proof
      assume "q = 0"
      then have "xs ! i \<in> set (ls ! j)" using q(2) p by (metis add_0_right nth_mem)
      then show False using owner_unique [OF assms(1)] m(2) j(3) jl m(1) by (metis nat_neq_iff)
    qed
    then have less: "cmp_Compare c (fst (xs ! i)) (fst (xs ! (i + q))) < 0"
      using assms(1) q(1) by (intro sorted_entries_nth) (simp_all add: merge_of_def)
    moreover have "valid (fst (xs ! i))" "valid (fst (xs ! (i + q)))" using assms(1) q(1) True by (simp_all add: merge_of_def)
    ultimately have "\<not> cmp_Compare c (fst (xs ! (i + q))) (fst (xs ! i)) < 0"
      using compare_swap [of "fst (xs ! i)" "fst (xs ! (i + q))"] by simp
    then show "cmp_Compare c (iw_key (ws ! m)) (iw_key (ws ! j)) < 0 \<and> \<not> cmp_Compare c (iw_key (ws ! j)) (iw_key (ws ! m)) < 0"
      using less wraps_key [OF assms(4) [OF jl] p] wraps_key [OF assms(4) [OF m(1)] conjunct1 [OF at]] q(2) at by simp
  qed (use m(1) assms(2) at wraps_valid [OF assms(4) [OF m(1)]] in auto)
  then show ?thesis using assms True m by (auto simp: stands_def where_child_def)
qed

lemma rev_pos_last:
  assumes "merge_of c valid ls xs" and "j < length ls" and "i < length xs" and "rev_pos xs ls i j < length (ls ! j)"
  shows "\<exists>q \<le> i. ls ! j ! rev_pos xs ls i j = xs ! q"
proof -
  have "child_pos xs ls (i + 1) j \<noteq> 0"
  proof
    assume "child_pos xs ls (i + 1) j = 0"
    then have "rev_pos xs ls i j = length (ls ! j)" by (simp add: rev_pos_def)
    then show False using assms(4) by simp
  qed
  then have "rev_pos xs ls i j < child_pos xs ls (i + 1) j" by (simp add: rev_pos_def)
  then obtain q where "q < i + 1" "ls ! j ! rev_pos xs ls i j = xs ! q" by (rule child_below [OF assms(1,2)])
  then show ?thesis by (metis Suc_eq_plus1 less_Suc_eq_le)
qed

lemma largest_at:
  assumes "merge_of c valid ls xs" and "length ws = length ls" and "i < length xs"
    and "\<And>j. j < length ls \<Longrightarrow> wraps (ls ! j) (view (ls ! j)) (ws ! j) (rev_pos xs ls i j)"
  shows "stands xs ls (it\<lparr> mi_children := ws, mi_current := FindLargest c ws, mi_direction := kReverse \<rparr>) i"
proof -
  obtain m where m: "m < length ls" "xs ! i \<in> set (ls ! m)" using owner_exists [OF assms(1,3)] by blast
  have at: "rev_pos xs ls i m < length (ls ! m) \<and> ls ! m ! rev_pos xs ls i m = xs ! i"
    using child_at [OF assms(1) m(1) assms(3) m(2)] where_owner [OF assms(1) m(1) assms(3) m(2), of kReverse]
    by (simp add: where_child_def)
  have "FindLargest c ws = Some m"
  proof (rule FindLargest_eq)
    fix j
    assume j: "j < length ws" "iw_valid (ws ! j)" "j \<noteq> m"
    then have jl: "j < length ls" using assms(2) by simp
    have p: "rev_pos xs ls i j < length (ls ! j)" using wraps_valid [OF assms(4) [OF jl]] j(2) by simp
    obtain q where q: "q \<le> i" "ls ! j ! rev_pos xs ls i j = xs ! q" using rev_pos_last [OF assms(1) jl assms(3) p] by blast
    have "q \<noteq> i"
    proof
      assume "q = i"
      then have "xs ! i \<in> set (ls ! j)" using q(2) p by (metis nth_mem)
      then show False using owner_unique [OF assms(1)] m(2) j(3) jl m(1) by (metis nat_neq_iff)
    qed
    then have less: "cmp_Compare c (fst (xs ! q)) (fst (xs ! i)) < 0"
      using assms(1,3) q(1) by (intro sorted_entries_nth) (simp_all add: merge_of_def)
    moreover have "valid (fst (xs ! i))" "valid (fst (xs ! q))" using assms(1,3) q(1) by (simp_all add: merge_of_def)
    ultimately have "0 < cmp_Compare c (fst (xs ! i)) (fst (xs ! q)) \<and> \<not> 0 < cmp_Compare c (fst (xs ! q)) (fst (xs ! i))"
      using compare_swap [of "fst (xs ! i)" "fst (xs ! q)"] by simp
    then show "0 < cmp_Compare c (iw_key (ws ! m)) (iw_key (ws ! j)) \<and> \<not> 0 < cmp_Compare c (iw_key (ws ! j)) (iw_key (ws ! m))"
      using wraps_key [OF assms(4) [OF jl] p] wraps_key [OF assms(4) [OF m(1)] conjunct1 [OF at]] q(2) at by simp
  qed (use m(1) assms(2) at wraps_valid [OF assms(4) [OF m(1)]] in auto)
  then show ?thesis using assms m by (auto simp: stands_def where_child_def)
qed

lemma largest_none:
  assumes "length ws = length ls" and "\<And>j. j < length ls \<Longrightarrow> wraps (ls ! j) (view (ls ! j)) (ws ! j) (length (ls ! j))"
  shows "stands xs ls (it\<lparr> mi_children := ws, mi_current := FindLargest c ws, mi_direction := kReverse \<rparr>) (length xs)"
proof -
  have "\<not> iw_valid (ws ! j)" if "j < length ws" for j using wraps_valid [OF assms(2) [of j]] that assms(1) by simp
  then have "FindLargest c ws = None" by (rule Find_none)
  then show ?thesis using assms by (auto simp: stands_def)
qed

lemma stands_SeekToFirst:
  assumes "merge_of c valid ls xs" and "stands xs ls it i"
  shows "\<exists>t. mi_SeekToFirst c ops it = Some t \<and> stands xs ls t 0"
proof -
  note w = stands_wraps [OF assms(2)]
  have "\<exists>w. iw_SeekToFirst ops (mi_children it ! j) = Some w \<and> wraps (ls ! j) (view (ls ! j)) w 0"
    if "j < length (mi_children it)" for j
    using iterator.wraps_SeekToFirst [OF child] w that by metis
  from all_children_ok [where Q = "\<lambda>j w. wraps (ls ! j) (view (ls ! j)) w 0", OF this] obtain ws where ws: "all_children (iw_SeekToFirst ops) (mi_children it) = Some ws"
    "length ws = length ls" "\<And>j. j < length ls \<Longrightarrow> wraps (ls ! j) (view (ls ! j)) (ws ! j) 0" using w by auto
  show ?thesis using smallest_at [OF assms(1) ws(2), of 0] ws by (simp add: mi_SeekToFirst_def)
qed

lemma stands_Seek:
  assumes "merge_of c valid ls xs" and "stands xs ls it i" and "valid k"
  shows "\<exists>t. mi_Seek c ops k it = Some t \<and> stands xs ls t (lower_bound c k xs)"
proof -
  note w = stands_wraps [OF assms(2)]
  have "\<exists>w. iw_Seek ops k (mi_children it ! j) = Some w \<and> wraps (ls ! j) (view (ls ! j)) w (lower_bound c k (ls ! j))"
    if "j < length (mi_children it)" for j
    using iterator.wraps_Seek [OF child _ assms(3)] w that by metis
  from all_children_ok [where Q = "\<lambda>j w. wraps (ls ! j) (view (ls ! j)) w (lower_bound c k (ls ! j))", OF this] obtain ws where ws: "all_children (iw_Seek ops k) (mi_children it) = Some ws"
    "length ws = length ls" "\<And>j. j < length ls \<Longrightarrow> wraps (ls ! j) (view (ls ! j)) (ws ! j) (lower_bound c k (ls ! j))"
    using w by auto
  show ?thesis
    using smallest_at [OF assms(1) ws(2) lower_bound_le] ws(1,3) lower_bound_child [OF assms(1) _ assms(3)]
    by (simp add: mi_Seek_def)
qed

lemma stands_SeekToLast:
  assumes "merge_of c valid ls xs" and "stands xs ls it i"
  shows "\<exists>t. mi_SeekToLast c ops it = Some t \<and> stands xs ls t (length xs - 1)"
proof -
  note w = stands_wraps [OF assms(2)]
  have "\<exists>w. iw_SeekToLast ops (mi_children it ! j) = Some w \<and> wraps (ls ! j) (view (ls ! j)) w (length (ls ! j) - 1)"
    if "j < length (mi_children it)" for j
    using iterator.wraps_SeekToLast [OF child] w that by metis
  from all_children_ok [where Q = "\<lambda>j w. wraps (ls ! j) (view (ls ! j)) w (length (ls ! j) - 1)", OF this] obtain ws where ws: "all_children (iw_SeekToLast ops) (mi_children it) = Some ws"
    "length ws = length ls" "\<And>j. j < length ls \<Longrightarrow> wraps (ls ! j) (view (ls ! j)) (ws ! j) (length (ls ! j) - 1)" using w by auto
  show ?thesis
  proof (cases "xs = []")
    case True
    then have "ls ! j = []" if "j < length ls" for j using assms(1) that by (auto simp: merge_of_def)
    then have "\<And>j. j < length ls \<Longrightarrow> wraps (ls ! j) (view (ls ! j)) (ws ! j) (length (ls ! j))" using ws(3) by fastforce
    from largest_none [OF ws(2) this, of xs] show ?thesis using ws(1) True by (simp add: mi_SeekToLast_def)
  next
    case False
    have "rev_pos xs ls (length xs - 1) j = length (ls ! j) - 1" if "j < length ls" for j
      using child_pos_all [OF assms(1) that] False by (auto simp: rev_pos_def)
    then show ?thesis using largest_at [OF assms(1) ws(2), of "length xs - 1"] ws(1,3) False by (simp add: mi_SeekToLast_def)
  qed
qed

lemma child_after_at:
  assumes "merge_of c valid ls xs" and "m < length ls" and "xs ! i \<in> set (ls ! m)" and "i < length xs"
    and "j < length ls" and "j \<noteq> m" and "wraps (ls ! j) (view (ls ! j)) w p"
  shows "\<exists>w'. child_after c ops (fst (xs ! i)) w = Some w' \<and> wraps (ls ! j) (view (ls ! j)) w' (child_pos xs ls i j)"
proof -
  have v: "valid (fst (xs ! i))" "\<forall>e \<in> set xs. valid (fst e)" "sorted_entries c xs" using assms(1,4) by (simp_all add: merge_of_def)
  have "lower_bound c (fst (xs ! i)) (ls ! j) = child_pos xs ls i j"
    using lower_bound_child [OF assms(1,5) v(1)] lower_bound_nth [OF v(3,2) assms(4)] by simp
  then obtain w' where w': "iw_Seek ops (fst (xs ! i)) w = Some w'" "wraps (ls ! j) (view (ls ! j)) w' (child_pos xs ls i j)"
    using iterator.wraps_Seek [OF child assms(7) v(1)] by auto
  have "\<not> (iw_valid w' \<and> cmp_Compare c (fst (xs ! i)) (iw_key w') = 0)"
  proof
    assume a: "iw_valid w' \<and> cmp_Compare c (fst (xs ! i)) (iw_key w') = 0"
    then have p: "child_pos xs ls i j < length (ls ! j)" using wraps_valid [OF w'(2)] by simp
    obtain q where q: "i + q < length xs" "ls ! j ! child_pos xs ls i j = xs ! (i + q)"
      by (rule child_from [OF assms(1,5) order_refl p])
    have "fst (xs ! i) = fst (xs ! (i + q))"
      using a q wraps_key [OF w'(2) p] v compare_eq [of "fst (xs ! i)" "fst (xs ! (i + q))"] by simp
    then have "i = i + q" using lower_bound_nth [OF v(3,2)] assms(4) q(1) by metis
    then have "xs ! i \<in> set (ls ! j)" using q(2) p by (metis nth_mem)
    then show False using owner_unique [OF assms(1)] assms(2,3,5,6) by (metis nat_neq_iff)
  qed
  then show ?thesis using w' by (cases "iw_valid w'") (simp_all add: child_after_def)
qed

lemma child_before_at:
  assumes "merge_of c valid ls xs" and "m < length ls" and "xs ! i \<in> set (ls ! m)" and "i < length xs"
    and "j < length ls" and "j \<noteq> m" and "wraps (ls ! j) (view (ls ! j)) w p"
  shows "\<exists>w'. child_before ops (fst (xs ! i)) w = Some w' \<and> wraps (ls ! j) (view (ls ! j)) w' (rev_pos xs ls i j)"
proof -
  have v: "valid (fst (xs ! i))" "\<forall>e \<in> set xs. valid (fst e)" "sorted_entries c xs" using assms(1,4) by (simp_all add: merge_of_def)
  have "lower_bound c (fst (xs ! i)) (ls ! j) = child_pos xs ls i j"
    using lower_bound_child [OF assms(1,5) v(1)] lower_bound_nth [OF v(3,2) assms(4)] by simp
  then obtain w' where w': "iw_Seek ops (fst (xs ! i)) w = Some w'" "wraps (ls ! j) (view (ls ! j)) w' (child_pos xs ls i j)"
    using iterator.wraps_Seek [OF child assms(7) v(1)] by auto
  have rp: "rev_pos xs ls i j = (if child_pos xs ls i j = 0 then length (ls ! j) else child_pos xs ls i j - 1)"
    unfolding rev_pos_def where_other [OF assms(1-6)] ..
  show ?thesis
  proof (cases "child_pos xs ls i j < length (ls ! j)")
    case True
    then show ?thesis
      using iterator.wraps_Prev [OF child w'(2) True] w'(1) wraps_valid [OF w'(2)] unfolding rp by (simp add: child_before_def)
  next
    case False
    then have "child_pos xs ls i j = length (ls ! j)" using child_pos_le [OF assms(1,5)] by (metis le_neq_implies_less)
    then have "rev_pos xs ls i j = length (ls ! j) - 1" using rp by simp
    then show ?thesis
      using iterator.wraps_SeekToLast [OF child w'(2)] w'(1) wraps_valid [OF w'(2)] False by (simp add: child_before_def)
  qed
qed

lemma stands_key:
  assumes "merge_of c valid ls xs" and "stands xs ls it i" and "i < length xs"
  shows "mi_key it = fst (xs ! i)" and "mi_value ops it = snd (xs ! i)"
proof -
  obtain m where m: "m < length ls" "mi_current it = Some m" "xs ! i \<in> set (ls ! m)" "length (mi_children it) = length ls"
    "\<And>j. j < length ls \<Longrightarrow> wraps (ls ! j) (view (ls ! j)) (mi_children it ! j) (where_child xs ls i (mi_direction it) j)"
    using standsE [OF assms(2,3)] by blast
  note at = child_at [OF assms(1) m(1) assms(3) m(3)]
  note w = m(5) [OF m(1), unfolded where_owner [OF assms(1) m(1) assms(3) m(3)]]
  show "mi_key it = fst (xs ! i)" using wraps_key [OF w] at m(2) by (simp add: mi_key_def)
  show "mi_value ops it = snd (xs ! i)" using iterator.wraps_value [OF child w] at m(2) by (simp add: mi_value_def)
qed

text \<open>After turning, if the direction was the other one, every child stands where the direction asks.\<close>

lemma turned:
  assumes "merge_of c valid ls xs" and "stands xs ls it i" and "i < length xs" and "mi_current it = Some m"
    and "xs ! i \<in> set (ls ! m)" and "m < length ls"
    and "\<And>j w. j < length ls \<Longrightarrow> j \<noteq> m \<Longrightarrow> \<exists>p. wraps (ls ! j) (view (ls ! j)) w p \<Longrightarrow>
      \<exists>w'. operation w = Some w' \<and> wraps (ls ! j) (view (ls ! j)) w' (where_child xs ls i d j)"
  shows "\<exists>ws. (if mi_direction it \<noteq> d then other_children operation m (mi_children it) else Some (mi_children it)) = Some ws
    \<and> length ws = length ls \<and> (\<forall>j < length ls. wraps (ls ! j) (view (ls ! j)) (ws ! j) (where_child xs ls i d j))"
proof (cases "mi_direction it = d")
  case True
  then show ?thesis using standsE [OF assms(2,3)] by (metis (no_types, lifting))
next
  case False
  have len: "length (mi_children it) = length ls"
    and w: "\<And>j. j < length ls \<Longrightarrow> wraps (ls ! j) (view (ls ! j)) (mi_children it ! j) (where_child xs ls i (mi_direction it) j)"
    using standsE [OF assms(2,3)] by (metis (no_types, lifting))+
  have "\<exists>w'. operation (mi_children it ! j) = Some w' \<and> wraps (ls ! j) (view (ls ! j)) w' (where_child xs ls i d j)"
    if "j < length (mi_children it)" "j \<noteq> m" for j
    using assms(7) w len that by metis
  from other_children_ok [where Q = "\<lambda>j w. wraps (ls ! j) (view (ls ! j)) w (where_child xs ls i d j)", OF this] assms(6) len
  obtain ws where ws: "other_children operation m (mi_children it) = Some ws" "length ws = length ls"
    "ws ! m = mi_children it ! m" "\<And>j. j < length ls \<Longrightarrow> j \<noteq> m \<Longrightarrow> wraps (ls ! j) (view (ls ! j)) (ws ! j) (where_child xs ls i d j)"
    by auto
  have "wraps (ls ! m) (view (ls ! m)) (ws ! m) (where_child xs ls i d m)"
    using w [OF assms(6)] ws(3) where_owner [OF assms(1,6,3,5)] by simp
  then have "\<forall>j < length ls. wraps (ls ! j) (view (ls ! j)) (ws ! j) (where_child xs ls i d j)" using ws(4) by metis
  then show ?thesis using False ws(1,2) by auto
qed

lemma stands_Next:
  assumes "merge_of c valid ls xs" and "stands xs ls it i" and "i < length xs"
  shows "\<exists>t. mi_Next c ops it = Some t \<and> stands xs ls t (i + 1)"
proof -
  obtain m where m: "m < length ls" "mi_current it = Some m" "xs ! i \<in> set (ls ! m)"
    using standsE [OF assms(2,3)] by blast
  have "\<exists>w'. child_after c ops (mi_key it) w = Some w' \<and> wraps (ls ! j) (view (ls ! j)) w' (where_child xs ls i kForward j)"
    if "j < length ls" "j \<noteq> m" "\<exists>p. wraps (ls ! j) (view (ls ! j)) w p" for j w
    using child_after_at [OF assms(1) m(1,3) assms(3) that(1,2)] that(3) stands_key(1) [OF assms] by (auto simp: where_child_def)
  from turned [where operation = "child_after c ops (mi_key it)" and d = kForward, OF assms m(2,3,1) this] obtain ws where ws:
    "(if mi_direction it \<noteq> kForward then other_children (child_after c ops (mi_key it)) m (mi_children it) else Some (mi_children it)) = Some ws"
    "length ws = length ls" "\<And>j. j < length ls \<Longrightarrow> wraps (ls ! j) (view (ls ! j)) (ws ! j) (child_pos xs ls i j)"
    by (auto simp: where_child_def)
  obtain w where w: "iw_Next ops (ws ! m) = Some w" "wraps (ls ! m) (view (ls ! m)) w (child_pos xs ls i m + 1)"
    using iterator.wraps_Next [OF child ws(3) [OF m(1)]] child_at [OF assms(1) m(1) assms(3) m(3)] by auto
  have "wraps (ls ! j) (view (ls ! j)) (ws[m := w] ! j) (child_pos xs ls (i + 1) j)" if "j < length ls" for j
    using that w(2) ws(2,3) where_other [OF assms(1) m(1,3) assms(3) that] assms(3) m(3)
    by (cases "j = m") (simp_all add: child_pos_Suc)
  from smallest_at [OF assms(1) _ _ this, of it] show ?thesis
    using m(2) ws(1,2) w(1) assms(3) by (simp add: mi_Next_def Let_def)
qed

lemma stands_Prev:
  assumes "merge_of c valid ls xs" and "stands xs ls it i" and "i < length xs"
  shows "\<exists>t. mi_Prev c ops it = Some t \<and> stands xs ls t (if i = 0 then length xs else i - 1)"
proof -
  obtain m where m: "m < length ls" "mi_current it = Some m" "xs ! i \<in> set (ls ! m)"
    using standsE [OF assms(2,3)] by blast
  have "\<exists>w'. child_before ops (mi_key it) w = Some w' \<and> wraps (ls ! j) (view (ls ! j)) w' (where_child xs ls i kReverse j)"
    if "j < length ls" "j \<noteq> m" "\<exists>p. wraps (ls ! j) (view (ls ! j)) w p" for j w
    using child_before_at [OF assms(1) m(1,3) assms(3) that(1,2)] that(3) stands_key(1) [OF assms] by (auto simp: where_child_def)
  from turned [where operation = "child_before ops (mi_key it)" and d = kReverse, OF assms m(2,3,1) this] obtain ws where ws:
    "(if mi_direction it \<noteq> kReverse then other_children (child_before ops (mi_key it)) m (mi_children it) else Some (mi_children it)) = Some ws"
    "length ws = length ls" "\<And>j. j < length ls \<Longrightarrow> wraps (ls ! j) (view (ls ! j)) (ws ! j) (where_child xs ls i kReverse j)"
    by auto
  have owner: "where_child xs ls i kReverse m = child_pos xs ls i m" by (rule where_owner [OF assms(1) m(1) assms(3) m(3)])
  obtain w where w: "iw_Prev ops (ws ! m) = Some w"
    "wraps (ls ! m) (view (ls ! m)) w (if child_pos xs ls i m = 0 then length (ls ! m) else child_pos xs ls i m - 1)"
    using iterator.wraps_Prev [OF child ws(3) [OF m(1), unfolded owner]] child_at [OF assms(1) m(1) assms(3) m(3)] by auto
  have at: "wraps (ls ! j) (view (ls ! j)) (ws[m := w] ! j) (if child_pos xs ls i j = 0 then length (ls ! j) else child_pos xs ls i j - 1)"
    if "j < length ls" for j
  proof (cases "j = m")
    case True
    then show ?thesis using w(2) ws(2) m(1) by (simp only: nth_list_update_eq)
  next
    case False
    have "where_child xs ls i kReverse j = (if child_pos xs ls i j = 0 then length (ls ! j) else child_pos xs ls i j - 1)"
      unfolding where_child_def rev_pos_def where_other [OF assms(1) m(1,3) assms(3) that False] by simp
    then show ?thesis using ws(3) [OF that] False by (simp only: nth_list_update_neq)
  qed
  show ?thesis
  proof (cases "i = 0")
    case True
    have "wraps (ls ! j) (view (ls ! j)) (ws[m := w] ! j) (length (ls ! j))" if "j < length ls" for j
      using at [OF that] True by simp
    from largest_none [OF _ this, of xs it] show ?thesis
      using m(2) ws(1,2) w(1) True by (simp add: mi_Prev_def Let_def)
  next
    case False
    have "wraps (ls ! j) (view (ls ! j)) (ws[m := w] ! j) (rev_pos xs ls (i - 1) j)" if "j < length ls" for j
      using at [OF that] False by (cases "child_pos xs ls i j = 0") (simp_all add: rev_pos_def)
    from largest_at [OF assms(1) _ _ this, of it] show ?thesis
      using m(2) ws(1,2) w(1) False assms(3) by (simp add: mi_Prev_def Let_def)
  qed
qed

lemma stands_status: 
  assumes "stands xs ls it i"
  shows "mi_status ops it = StatusOK"
proof -
  have "first_error ss = StatusOK" if "\<forall>s \<in> set ss. s = StatusOK" for ss
    using that by (induction ss) (auto simp: status_ok_def)
  moreover have "iw_status ops w = StatusOK" if "w \<in> set (mi_children it)" for w
    using that stands_wraps [OF assms] iterator.wraps_status [OF child] by (metis in_set_conv_nth)
  ultimately show ?thesis by (simp add: mi_status_def)
qed

text \<open>The view of all three kinds of merged iterators.\<close>

definition merged_view :: "entry list \<Rightarrow> 's merged_iterator \<Rightarrow> nat \<Rightarrow> bool" where
  "merged_view xs s i \<longleftrightarrow>
     (case s of NoChild e \<Rightarrow> e = NewEmptyIterator \<and> xs = [] \<and> i = 0 | OneChild s \<Rightarrow> view xs s i
      | Merging it \<Rightarrow> \<exists>ls. merge_of c valid ls xs \<and> stands xs ls it i)"

lemma merged_new:
  assumes "merge_of c valid ls xs" and "list_all2 (\<lambda>l s. \<exists>p. view l s p) ls children"
  shows "\<exists>i. merged_view xs (NewMergingIterator ops children) i"
proof -
  have len: "length children = length ls" using assms(2) by (simp add: list_all2_lengthD)
  show ?thesis
  proof (cases children)
    case Nil
    then show ?thesis using assms(1) len by (simp add: NewMergingIterator_def merged_view_def merge_of_def)
  next
    case (Cons s rest)
    show ?thesis
    proof (cases rest)
      case Nil
      then obtain l where l: "ls = [l]" using len Cons by (cases ls) auto
      have "set xs = set l" using assms(1) l by (metis append_Nil2 concat.simps merge_of_def set_mset_mset)
      then have "xs = l" using assms(1) l by (intro sorted_entries_unique) (auto simp: merge_of_def)
      then show ?thesis using assms(2) l Cons Nil by (auto simp: NewMergingIterator_def merged_view_def)
    next
      case (Cons s' rest')
      let ?it = "MergingIterator_new ops children"
      have "\<exists>p. wraps (ls ! j) (view (ls ! j)) (mi_children ?it ! j) p" if "j < length ls" for j
        using list_all2_nthD [OF assms(2) that] iterator.wraps_Set [OF child] len that
        by (fastforce simp: MergingIterator_new_def)
      then have "stands xs ls ?it (length xs)" using len by (simp add: stands_def MergingIterator_new_def)
      then show ?thesis
        using assms(1) Cons \<open>children = s # rest\<close> by (auto simp: NewMergingIterator_def merged_view_def)
    qed
  qed
qed

end

sublocale merging \<subseteq> merged: iterator "MergedIterator c ops" c valid xs "merged_view xs" for xs
proof (rule iterator.intro)
  fix s i
  assume v: "merged_view xs s i"
  show "i \<le> length xs"
    using v iterator.view_le [OF child] by (auto simp: merged_view_def stands_def split: merged_iterator.splits)
  show "i_Valid (MergedIterator c ops) s \<longleftrightarrow> i < length xs"
    using v iterator.valid_view [OF child]
    by (auto simp: merged_view_def MergedIterator_def EmptyIterator_def mi_Valid_def stands_def split: merged_iterator.splits if_splits)
  show "i_status (MergedIterator c ops) s = StatusOK"
    using v iterator.status_view [OF child] stands_status
    by (auto simp: merged_view_def MergedIterator_def EmptyIterator_def NewEmptyIterator_def split: merged_iterator.splits)
  show "\<exists>t. i_SeekToFirst (MergedIterator c ops) s = Some t \<and> merged_view xs t 0"
    using v iterator.first_view [OF child] stands_SeekToFirst
    by (fastforce simp: merged_view_def MergedIterator_def merged_move_def EmptyIterator_def split: merged_iterator.splits)
  show "\<exists>t. i_SeekToLast (MergedIterator c ops) s = Some t \<and> merged_view xs t (length xs - 1)"
    using v iterator.last_view [OF child] stands_SeekToLast
    by (fastforce simp: merged_view_def MergedIterator_def merged_move_def EmptyIterator_def split: merged_iterator.splits)
  show "\<exists>t. i_Seek (MergedIterator c ops) k s = Some t \<and> merged_view xs t (lower_bound c k xs)" if "valid k" for k
    using v that iterator.seek_view [OF child] stands_Seek
    by (fastforce simp: merged_view_def MergedIterator_def merged_move_def EmptyIterator_def lower_bound_def split: merged_iterator.splits)
  assume i: "i < length xs"
  show "i_key (MergedIterator c ops) s = fst (xs ! i)" "i_value (MergedIterator c ops) s = snd (xs ! i)"
    using v i iterator.key_view [OF child] iterator.value_view [OF child] stands_key
    by (auto simp: merged_view_def MergedIterator_def split: merged_iterator.splits)
  show "\<exists>t. i_Next (MergedIterator c ops) s = Some t \<and> merged_view xs t (i + 1)"
    using v i iterator.next_view [OF child] stands_Next
    by (fastforce simp: merged_view_def MergedIterator_def merged_move_def split: merged_iterator.splits)
  show "\<exists>t. i_Prev (MergedIterator c ops) s = Some t \<and> merged_view xs t (if i = 0 then length xs else i - 1)"
    using v i iterator.prev_view [OF child] stands_Prev
    by (fastforce simp: merged_view_def MergedIterator_def merged_move_def split: merged_iterator.splits)
qed

context merging
begin

lemma merged_contract: "iterator (MergedIterator c ops) c valid xs (merged_view xs)"
  by (rule merged.iterator_axioms)

end

end
