(* ===== verification/Ldb_Two_Level_View.thy ===== *)
theory Ldb_Two_Level_View
  imports Ldb_Two_Level Ldb_Merger_View
begin

text \<open>
  A two-level iterator over an index and blocks whose iterators keep the contract of iterators
  keeps it too, for the entries of all blocks one after the other.
\<close>

text \<open>The position of the first entry of a block.\<close>

definition block_start :: "entry list list \<Rightarrow> nat \<Rightarrow> nat" where
  "block_start bs j = length (concat (take j bs))"

lemma block_start_0 [simp]: "block_start bs 0 = 0"
  by (simp add: block_start_def)

lemma block_start_Suc: "j < length bs \<Longrightarrow> block_start bs (Suc j) = block_start bs j + length (bs ! j)"
  by (simp add: block_start_def take_Suc_conv_app_nth)

lemma block_start_all: "length bs \<le> j \<Longrightarrow> block_start bs j = length (concat bs)"
  by (simp add: block_start_def)

lemma block_start_mono: "a \<le> b \<Longrightarrow> block_start bs a \<le> block_start bs b"
  using take_add [of a "b - a" bs] by (simp add: block_start_def del: length_concat)

lemma block_start_nth:
  assumes "j < length bs" and "q < length (bs ! j)"
  shows "concat bs ! (block_start bs j + q) = bs ! j ! q" and "block_start bs j + q < length (concat bs)"
proof -
  have "concat bs = concat (take j bs) @ bs ! j @ concat (drop (Suc j) bs)"
    using id_take_nth_drop [OF assms(1)] by (metis concat.simps(2) concat_append)
  then show "concat bs ! (block_start bs j + q) = bs ! j ! q" "block_start bs j + q < length (concat bs)"
    using assms(2) by (simp_all add: block_start_def nth_append)
qed

lemma nth_block:
  "i < length (concat bs) \<Longrightarrow> \<exists>j < length bs. \<exists>q < length (bs ! j). i = block_start bs j + q"
proof (induction bs arbitrary: i rule: rev_induct)
  case (snoc b bs)
  show ?case
  proof (cases "i < length (concat bs)")
    case True
    from snoc.IH [OF this] obtain j q where "j < length bs" "q < length (bs ! j)" "i = block_start bs j + q" by blast
    then show ?thesis by (intro exI [of _ j] conjI exI [of _ q]) (auto simp: nth_append block_start_def)
  next
    case False
    then show ?thesis
      using snoc.prems by (intro exI [of _ "length bs"] conjI exI [of _ "i - length (concat bs)"]) (auto simp: block_start_def)
  qed
qed simp

locale two_level = comparator c valid
  for c :: Comparator and valid :: "slice \<Rightarrow> bool" +
  fixes iops :: "'i Iterator" and dops :: "'d Iterator"
    and iview :: "entry list \<Rightarrow> 'i \<Rightarrow> nat \<Rightarrow> bool" and dview :: "entry list \<Rightarrow> 'd \<Rightarrow> nat \<Rightarrow> bool"
  assumes index: "iterator iops c valid ys (iview ys)" and data: "iterator dops c valid ys (dview ys)"
begin

text \<open>
  The entries \<open>ies\<close> of the index belong to the blocks \<open>bs\<close>: their values open the blocks, and their keys
  separate them.
\<close>

definition indexes :: "(slice \<Rightarrow> 'd option) \<Rightarrow> entry list \<Rightarrow> entry list list \<Rightarrow> bool" where
  "indexes block_function ies bs \<longleftrightarrow>
     length ies = length bs \<and> (\<forall>e \<in> set ies. valid (fst e)) \<and> (\<forall>e \<in> set (concat bs). valid (fst e))
     \<and> (\<forall>j < length bs. \<exists>d p. block_function (snd (ies ! j)) = Some d \<and> dview (bs ! j) d p)
     \<and> (\<forall>j < length bs. \<forall>k < length bs. snd (ies ! j) = snd (ies ! k) \<longrightarrow> bs ! j = bs ! k)
     \<and> (\<forall>j < length bs. \<forall>e \<in> set (bs ! j). cmp_Compare c (fst e) (fst (ies ! j)) \<le> 0)
     \<and> (\<forall>i j. i < j \<and> j < length bs \<longrightarrow> (\<forall>e \<in> set (bs ! j). cmp_Compare c (fst (ies ! i)) (fst e) < 0))"

text \<open>The iterator over the data, if there is one, is that of the block whose handle is kept.\<close>

definition sound_two :: "entry list \<Rightarrow> entry list list \<Rightarrow> ('i, 'd) TwoLevelIterator \<Rightarrow> bool" where
  "sound_two ies bs it \<longleftrightarrow>
     ti_status it = StatusOK \<and> (\<exists>a. wraps ies (iview ies) (ti_index_iter it) a)
     \<and> (iw_iter (ti_data_iter it) = None \<and> \<not> iw_valid (ti_data_iter it)
        \<or> (\<exists>j < length bs. \<exists>q. wraps (bs ! j) (dview (bs ! j)) (ti_data_iter it) q \<and> ti_data_block_handle it = snd (ies ! j)))"

definition at_data :: "entry list \<Rightarrow> entry list list \<Rightarrow> ('i, 'd) TwoLevelIterator \<Rightarrow> nat \<Rightarrow> nat \<Rightarrow> bool" where
  "at_data ies bs it j q \<longleftrightarrow>
     ti_status it = StatusOK \<and> j < length bs \<and> wraps ies (iview ies) (ti_index_iter it) j
     \<and> wraps (bs ! j) (dview (bs ! j)) (ti_data_iter it) q \<and> ti_data_block_handle it = snd (ies ! j)"

definition at_end :: "entry list \<Rightarrow> ('i, 'd) TwoLevelIterator \<Rightarrow> bool" where
  "at_end ies it \<longleftrightarrow>
     ti_status it = StatusOK \<and> wraps ies (iview ies) (ti_index_iter it) (length ies)
     \<and> iw_iter (ti_data_iter it) = None \<and> \<not> iw_valid (ti_data_iter it)"

definition stands_two :: "entry list \<Rightarrow> entry list list \<Rightarrow> ('i, 'd) TwoLevelIterator \<Rightarrow> nat \<Rightarrow> bool" where
  "stands_two ies bs it i \<longleftrightarrow>
     sound_two ies bs it
     \<and> (i < length (concat bs) \<and> (\<exists>j q. at_data ies bs it j q \<and> q < length (bs ! j) \<and> i = block_start bs j + q)
        \<or> i = length (concat bs) \<and> iw_iter (ti_data_iter it) = None \<and> \<not> iw_valid (ti_data_iter it))"

lemma at_data_sound: "at_data ies bs it j q \<Longrightarrow> sound_two ies bs it"
  by (auto simp: at_data_def sound_two_def)

lemma at_end_sound: "at_end ies it \<Longrightarrow> sound_two ies bs it"
  by (auto simp: at_end_def sound_two_def)

lemma wraps_some: "wraps ys view w p \<Longrightarrow> iw_iter w \<noteq> None"
  by (auto simp: wraps_def)

lemma SetDataIterator_sound:
  assumes "sound_two ies bs it"
  shows "SetDataIterator dops d it = it\<lparr> ti_data_iter := iw_Set dops d (ti_data_iter it) \<rparr>"
proof -
  have "iw_status dops (ti_data_iter it) = StatusOK" if "iw_iter (ti_data_iter it) \<noteq> None"
    using assms that iterator.wraps_status [OF data] by (auto simp: sound_two_def)
  then show ?thesis by (auto simp: SetDataIterator_def SaveError_def status_ok_def)
qed

lemma InitDataBlock_at:
  assumes "indexes block_function ies bs" and "sound_two ies bs it" and "wraps ies (iview ies) (ti_index_iter it) j"
  shows "\<exists>it'. InitDataBlock iops dops block_function it = Some it'
    \<and> (if j < length bs then \<exists>q. at_data ies bs it' j q else at_end ies it')"
proof (cases "j < length bs")
  case False
  have "j \<le> length ies" using iterator.wraps_le [OF index assms(3)] .
  then have j: "j = length ies" using False assms(1) by (simp add: indexes_def)
  then have "\<not> iw_valid (ti_index_iter it)" using wraps_valid [OF assms(3)] by simp
  then have "InitDataBlock iops dops block_function it = Some (it\<lparr> ti_data_iter := iw_Set dops None (ti_data_iter it) \<rparr>)"
    by (simp add: InitDataBlock_def SetDataIterator_sound [OF assms(2)])
  moreover have "at_end ies (it\<lparr> ti_data_iter := iw_Set dops None (ti_data_iter it) \<rparr>)"
    using assms(2,3) j by (simp add: at_end_def sound_two_def iw_Set_def)
  ultimately show ?thesis using False by simp
next
  case True
  then have jl: "j < length ies" using assms(1) by (simp add: indexes_def)
  have valid: "iw_valid (ti_index_iter it)" using wraps_valid [OF assms(3)] jl by simp
  have handle: "iw_value iops (ti_index_iter it) = snd (ies ! j)" using iterator.wraps_value [OF index assms(3) jl] .
  show ?thesis
  proof (cases "iw_iter (ti_data_iter it) \<noteq> None \<and> snd (ies ! j) = ti_data_block_handle it")
    case same: True
    then obtain k q where k: "k < length bs" "wraps (bs ! k) (dview (bs ! k)) (ti_data_iter it) q"
      "ti_data_block_handle it = snd (ies ! k)" using assms(2) by (auto simp: sound_two_def)
    have "\<forall>j < length bs. \<forall>k < length bs. snd (ies ! j) = snd (ies ! k) \<longrightarrow> bs ! j = bs ! k"
      using assms(1) unfolding indexes_def by blast
    from this [rule_format, OF True k(1)] have "bs ! j = bs ! k" using same k(3) by metis
    then have "wraps (bs ! j) (dview (bs ! j)) (ti_data_iter it) q" using k(2) by metis
    then have "at_data ies bs it j q" using same True assms(2,3) by (simp add: at_data_def sound_two_def)
    moreover have "InitDataBlock iops dops block_function it = Some it"
      using valid handle same by (simp add: InitDataBlock_def Let_def)
    ultimately show ?thesis using True by auto
  next
    case other: False
    obtain d p where d: "block_function (snd (ies ! j)) = Some d" "dview (bs ! j) d p"
      using assms(1) True unfolding indexes_def by blast
    have sound: "sound_two ies bs (it\<lparr> ti_data_block_handle := snd (ies ! j) \<rparr>)
        \<or> iw_status dops (ti_data_iter it) = StatusOK \<and> ti_status it = StatusOK"
      using assms(2) iterator.wraps_status [OF data] by (auto simp: sound_two_def)
    have "SetDataIterator dops (Some d) (it\<lparr> ti_data_block_handle := snd (ies ! j) \<rparr>)
        = it\<lparr> ti_data_block_handle := snd (ies ! j), ti_data_iter := iw_Set dops (Some d) (ti_data_iter it) \<rparr>"
      using sound
    proof
      assume "sound_two ies bs (it\<lparr> ti_data_block_handle := snd (ies ! j) \<rparr>)"
      then show ?thesis by (simp add: SetDataIterator_sound)
    qed (simp add: SetDataIterator_def SaveError_def status_ok_def)
    then have "InitDataBlock iops dops block_function it
        = Some (it\<lparr> ti_data_block_handle := snd (ies ! j), ti_data_iter := iw_Set dops (Some d) (ti_data_iter it) \<rparr>)"
      using valid handle other d(1) by (auto simp: InitDataBlock_def Let_def)
    moreover have "at_data ies bs (it\<lparr> ti_data_block_handle := snd (ies ! j), ti_data_iter := iw_Set dops (Some d) (ti_data_iter it) \<rparr>) j p"
      using True assms(2,3) iterator.wraps_Set [OF data d(2)] by (simp add: at_data_def sound_two_def)
    ultimately show ?thesis using True by auto
  qed
qed

text \<open>Moving the index to entry \<open>j\<close> and then within the block.\<close>

lemma move_index_at:
  assumes "indexes block_function ies bs" and "sound_two ies bs it"
    and "index_move (ti_index_iter it) = Some w" and "wraps ies (iview ies) w j"
    and "\<And>w q. j < length bs \<Longrightarrow> wraps (bs ! j) (dview (bs ! j)) w q \<Longrightarrow>
      \<exists>w'. data_move w = Some w' \<and> wraps (bs ! j) (dview (bs ! j)) w' r"
  shows "\<exists>it'. move_index iops dops block_function index_move data_move it = Some it'
    \<and> (if j < length bs then at_data ies bs it' j r else at_end ies it')"
proof -
  have "sound_two ies bs (it\<lparr> ti_index_iter := w \<rparr>)" using assms(2,4) by (auto simp: sound_two_def)
  from InitDataBlock_at [OF assms(1) this, of j] assms(4) obtain it' where it':
    "InitDataBlock iops dops block_function (it\<lparr> ti_index_iter := w \<rparr>) = Some it'"
    "if j < length bs then \<exists>q. at_data ies bs it' j q else at_end ies it'" by auto
  show ?thesis
  proof (cases "j < length bs")
    case True
    then obtain q where q: "at_data ies bs it' j q" using it'(2) by auto
    then have wq: "wraps (bs ! j) (dview (bs ! j)) (ti_data_iter it') q" by (simp add: at_data_def)
    from assms(5) [OF True wq] obtain w' where w': "data_move (ti_data_iter it') = Some w'"
      "wraps (bs ! j) (dview (bs ! j)) w' r" by blast
    have "on_data data_move it' = Some (it'\<lparr> ti_data_iter := w' \<rparr>)" using w'(1) wraps_some [OF wq] by (simp add: on_data_def)
    moreover have "at_data ies bs (it'\<lparr> ti_data_iter := w' \<rparr>) j r" using q w'(2) by (simp add: at_data_def)
    ultimately show ?thesis using assms(3) it'(1) True by (simp add: move_index_def)
  next
    case False
    then have "at_end ies it'" using it'(2) by simp
    then have "on_data data_move it' = Some it'" by (simp add: on_data_def at_end_def)
    then show ?thesis using assms(3) it' False by (simp add: move_index_def)
  qed
qed

lemma stands_end:
  assumes "sound_two ies bs it" and "\<not> iw_valid (ti_index_iter it)"
  shows "stands_two ies bs (SetDataIterator dops None it) (length (concat bs))"
  unfolding SetDataIterator_sound [OF assms(1)] using assms by (auto simp: stands_two_def sound_two_def iw_Set_def)

lemma stands_at:
  assumes "at_data ies bs it j q" and "q < length (bs ! j)"
  shows "stands_two ies bs it (block_start bs j + q)"
  using assms block_start_nth(2) [of j bs q] at_data_sound [OF assms(1)] by (auto simp: stands_two_def at_data_def)

lemma skip_forward_end:
  assumes "at_end ies it"
  shows "\<exists>it'. SkipEmptyDataBlocksForward iops dops block_function it = Some it' \<and> stands_two ies bs it' (length (concat bs))"
    and "\<exists>it'. SkipEmptyDataBlocksBackward iops dops block_function it = Some it' \<and> stands_two ies bs it' (length (concat bs))"
proof -
  have "\<not> iw_valid (ti_index_iter it)" using assms wraps_valid by (fastforce simp: at_end_def)
  then show "\<exists>it'. SkipEmptyDataBlocksForward iops dops block_function it = Some it' \<and> stands_two ies bs it' (length (concat bs))"
    "\<exists>it'. SkipEmptyDataBlocksBackward iops dops block_function it = Some it' \<and> stands_two ies bs it' (length (concat bs))"
    using assms stands_end [OF at_end_sound [OF assms]]
    by (simp_all add: at_end_def SkipEmptyDataBlocksForward.simps [of _ _ _ it] SkipEmptyDataBlocksBackward.simps [of _ _ _ it])
qed

lemma skip_forward:
  assumes "indexes block_function ies bs" and "at_data ies bs it j q"
  shows "\<exists>it'. SkipEmptyDataBlocksForward iops dops block_function it = Some it' \<and> stands_two ies bs it' (block_start bs j + q)"
  using assms(2)
proof (induction "length bs - j" arbitrary: it j q)
  case 0
  then show ?case by (simp add: at_data_def)
next
  case (Suc n)
  have j: "j < length bs" "j < length ies" using Suc.prems assms(1) by (simp_all add: at_data_def indexes_def)
  have wi: "wraps ies (iview ies) (ti_index_iter it) j" and wd: "wraps (bs ! j) (dview (bs ! j)) (ti_data_iter it) q"
    using Suc.prems by (simp_all add: at_data_def)
  show ?case
  proof (cases "q < length (bs ! j)")
    case True
    then have "SkipEmptyDataBlocksForward iops dops block_function it = Some it"
      using wraps_some [OF wd] wraps_valid [OF wd] by (auto simp: SkipEmptyDataBlocksForward.simps [of _ _ _ it])
    then show ?thesis using stands_at [OF Suc.prems True] by simp
  next
    case False
    then have q: "q = length (bs ! j)" using iterator.wraps_le [OF data wd] by simp
    have start: "block_start bs j + q = block_start bs (Suc j)" using block_start_Suc [OF j(1)] q by simp
    from iterator.wraps_Next [OF index wi j(2)] obtain w where w: "iw_Next iops (ti_index_iter it) = Some w"
      "wraps ies (iview ies) w (Suc j)" by auto
    from move_index_at [where index_move = "iw_Next iops" and data_move = "iw_SeekToFirst dops" and r = 0, OF assms(1) at_data_sound [OF Suc.prems] w] obtain it' where
      it': "move_index iops dops block_function (iw_Next iops) (iw_SeekToFirst dops) it = Some it'"
      "if Suc j < length bs then at_data ies bs it' (Suc j) 0 else at_end ies it'"
      using iterator.wraps_SeekToFirst [OF data] by blast
    have step: "SkipEmptyDataBlocksForward iops dops block_function it = SkipEmptyDataBlocksForward iops dops block_function it'"
      using wraps_valid [OF wd] wraps_valid [OF wi] j(2) q it'(1) by (simp add: SkipEmptyDataBlocksForward.simps [of _ _ _ it])
    show ?thesis
    proof (cases "Suc j < length bs")
      case True
      then show ?thesis using Suc.hyps(1) [of "Suc j" it' 0] Suc.hyps(2) it'(2) step start by simp
    next
      case False
      then have "block_start bs (Suc j) = length (concat bs)" by (simp add: block_start_all)
      then show ?thesis using skip_forward_end(1) [of ies it' block_function bs] it'(2) False step start by simp
    qed
  qed
qed

text \<open>Backwards: past the front of a block lies the end of the one before.\<close>

definition before_start :: "entry list list \<Rightarrow> nat \<Rightarrow> nat" where
  "before_start bs i = (if i = 0 then length (concat bs) else i - 1)"

lemma skip_backward:
  assumes "indexes block_function ies bs" and "at_data ies bs it j q"
  shows "\<exists>it'. SkipEmptyDataBlocksBackward iops dops block_function it = Some it'
    \<and> stands_two ies bs it' (if q < length (bs ! j) then block_start bs j + q else before_start bs (block_start bs j))"
  using assms(2)
proof (induction j arbitrary: it q)
  case (0 it q)
  have j: "0 < length bs" "0 < length ies" using 0 assms(1) by (simp_all add: at_data_def indexes_def)
  have wi: "wraps ies (iview ies) (ti_index_iter it) 0" and wd: "wraps (bs ! 0) (dview (bs ! 0)) (ti_data_iter it) q"
    using 0 by (simp_all add: at_data_def)
  show ?case
  proof (cases "q < length (bs ! 0)")
    case True
    then have "SkipEmptyDataBlocksBackward iops dops block_function it = Some it"
      using wraps_some [OF wd] wraps_valid [OF wd] by (auto simp: SkipEmptyDataBlocksBackward.simps [of _ _ _ it])
    then show ?thesis using stands_at [OF 0 True] True by simp
  next
    case False
    from iterator.wraps_Prev [OF index wi j(2)] obtain w where w: "iw_Prev iops (ti_index_iter it) = Some w"
      "wraps ies (iview ies) w (length ies)" by auto
    have n: "\<not> length ies < length bs" using assms(1) by (simp add: indexes_def)
    from move_index_at [where index_move = "iw_Prev iops" and data_move = "iw_SeekToLast dops" and r = 0, OF assms(1) at_data_sound [OF 0] w] n obtain it' where
      it': "move_index iops dops block_function (iw_Prev iops) (iw_SeekToLast dops) it = Some it'" "at_end ies it'" by auto
    have "SkipEmptyDataBlocksBackward iops dops block_function it = SkipEmptyDataBlocksBackward iops dops block_function it'"
      using wraps_valid [OF wd] wraps_valid [OF wi] j(2) False it'(1) by (simp add: SkipEmptyDataBlocksBackward.simps [of _ _ _ it])
    then show ?thesis using skip_forward_end(2) [OF it'(2)] False by (simp add: before_start_def)
  qed
next
  case (Suc j)
  have j: "Suc j < length bs" "Suc j < length ies" "j < length bs" using Suc.prems assms(1) by (simp_all add: at_data_def indexes_def)
  have wi: "wraps ies (iview ies) (ti_index_iter it) (Suc j)" and wd: "wraps (bs ! Suc j) (dview (bs ! Suc j)) (ti_data_iter it) q"
    using Suc.prems by (simp_all add: at_data_def)
  show ?case
  proof (cases "q < length (bs ! Suc j)")
    case True
    then have "SkipEmptyDataBlocksBackward iops dops block_function it = Some it"
      using wraps_some [OF wd] wraps_valid [OF wd] by (auto simp: SkipEmptyDataBlocksBackward.simps [of _ _ _ it])
    then show ?thesis using stands_at [OF Suc.prems True] True by simp
  next
    case False
    from iterator.wraps_Prev [OF index wi j(2)] obtain w where w: "iw_Prev iops (ti_index_iter it) = Some w"
      "wraps ies (iview ies) w j" by auto
    from move_index_at [where index_move = "iw_Prev iops" and data_move = "iw_SeekToLast dops" and r = "length (bs ! j) - 1",
        OF assms(1) at_data_sound [OF Suc.prems] w] obtain it' where
      it': "move_index iops dops block_function (iw_Prev iops) (iw_SeekToLast dops) it = Some it'"
      "at_data ies bs it' j (length (bs ! j) - 1)"
      using iterator.wraps_SeekToLast [OF data] j(3) by metis
    have step: "SkipEmptyDataBlocksBackward iops dops block_function it = SkipEmptyDataBlocksBackward iops dops block_function it'"
      using wraps_valid [OF wd] wraps_valid [OF wi] j(2) False it'(1) by (simp add: SkipEmptyDataBlocksBackward.simps [of _ _ _ it])
    have "(if length (bs ! j) - 1 < length (bs ! j) then block_start bs j + (length (bs ! j) - 1) else before_start bs (block_start bs j))
        = before_start bs (block_start bs (Suc j))"
      using block_start_Suc [OF j(3)] by (cases "bs ! j") (auto simp: before_start_def)
    then show ?thesis using Suc.IH [OF it'(2)] step False by simp
  qed
qed

text \<open>The index leads to the block with the first entry at or past a key.\<close>

lemma lower_bound_blocks:
  assumes "indexes block_function ies bs" and "valid k"
  shows "lower_bound c k (concat bs) =
    (if lower_bound c k ies < length bs
     then block_start bs (lower_bound c k ies) + lower_bound c k (bs ! lower_bound c k ies) else length (concat bs))"
proof -
  let ?j = "lower_bound c k ies"
  have len: "length ies = length bs" and "\<forall>e \<in> set ies. valid (fst e)" and "\<forall>e \<in> set (concat bs). valid (fst e)"
    and up: "\<And>j e. j < length bs \<Longrightarrow> e \<in> set (bs ! j) \<Longrightarrow> cmp_Compare c (fst e) (fst (ies ! j)) \<le> 0"
    and low: "\<And>i j e. i < j \<Longrightarrow> j < length bs \<Longrightarrow> e \<in> set (bs ! j) \<Longrightarrow> cmp_Compare c (fst (ies ! i)) (fst e) < 0"
    using assms(1) unfolding indexes_def by blast+
  then have vi: "\<And>i. i < length bs \<Longrightarrow> valid (fst (ies ! i))"
    and vb: "\<And>j e. j < length bs \<Longrightarrow> e \<in> set (bs ! j) \<Longrightarrow> valid (fst e)"
    using nth_mem [of _ bs] by auto
  have below: "cmp_Compare c (fst e) k < 0" if "i < ?j" "i < length bs" "e \<in> set (bs ! i)" for i e
    using compare_le_trans [OF vb [OF that(2,3)] vi [OF that(2)] assms(2) up [OF that(2,3)]] below_lower_bound [OF that(1)] by simp
  show ?thesis
  proof (cases "?j < length bs")
    case True
    have at: "\<not> cmp_Compare c (fst (ies ! ?j)) k < 0" using at_lower_bound [of c k ies] True len by simp
    have above: "\<not> cmp_Compare c (fst e) k < 0" if "?j < i" "i < length bs" "e \<in> set (bs ! i)" for i e
      using compare_trans [OF vi [OF True] vb [OF that(2,3)] assms(2) low [OF that]] at by blast
    let ?p = "lower_bound c k (bs ! ?j)"
    have "lower_bound c k (concat bs) = block_start bs ?j + ?p"
    proof (rule lower_bound_eqI)
      show "block_start bs ?j + ?p \<le> length (concat bs)"
      proof (cases "?p < length (bs ! ?j)")
        case True
        then show ?thesis using block_start_nth(2) [OF \<open>?j < length bs\<close> True] by simp
      next
        case False
        then have "?p = length (bs ! ?j)" using lower_bound_le [of c k "bs ! ?j"] by simp
        then have "block_start bs ?j + ?p = block_start bs (Suc ?j)" using block_start_Suc [OF True] by simp
        moreover have "concat bs = concat (take (Suc ?j) bs) @ concat (drop (Suc ?j) bs)"
          by (metis append_take_drop_id concat_append)
        ultimately show ?thesis by (simp add: block_start_def)
      qed
      fix i
      assume i: "i < block_start bs ?j + ?p"
      then have "i < length (concat bs)" using \<open>block_start bs ?j + ?p \<le> length (concat bs)\<close> by simp
      from nth_block [OF this] obtain a q where a: "a < length bs" "q < length (bs ! a)" "i = block_start bs a + q" by blast
      have e: "concat bs ! i = bs ! a ! q" using block_start_nth(1) [OF a(1,2)] a(3) by simp
      show "cmp_Compare c (fst (concat bs ! i)) k < 0"
      proof (cases a ?j rule: linorder_cases)
        case less
        then show ?thesis using below [OF less a(1)] a(2) e by simp
      next
        case equal
        then show ?thesis using i a below_lower_bound [of q c k "bs ! ?j"] e by simp
      next
        case greater
        then have "block_start bs (Suc ?j) \<le> block_start bs a"
          by (intro block_start_mono) simp
        then have False using i a(3) block_start_Suc [OF True] lower_bound_le [of c k "bs ! ?j"] by simp
        then show ?thesis ..
      qed
    next
      assume i: "block_start bs ?j + ?p < length (concat bs)"
      from nth_block [OF this] obtain a q where a: "a < length bs" "q < length (bs ! a)" "block_start bs ?j + ?p = block_start bs a + q" by blast
      have e: "concat bs ! (block_start bs ?j + ?p) = bs ! a ! q" using block_start_nth(1) [OF a(1,2)] a(3) by simp
      show "\<not> cmp_Compare c (fst (concat bs ! (block_start bs ?j + ?p))) k < 0"
      proof (cases a ?j rule: linorder_cases)
        case less
        then have "block_start bs (Suc a) \<le> block_start bs ?j"
          by (intro block_start_mono) simp
        then have False using a block_start_Suc [OF a(1)] by simp
        then show ?thesis ..
      next
        case equal
        then show ?thesis using a at_lower_bound [of c k "bs ! ?j"] e by simp
      next
        case greater
        then show ?thesis using above [OF greater a(1)] a(2) e by simp
      qed
    qed
    then show ?thesis using True by simp
  next
    case False
    then have "?j = length bs" using lower_bound_le [of c k ies] len by simp
    have "lower_bound c k (concat bs) = length (concat bs)"
    proof (rule lower_bound_eqI)
      fix i
      assume "i < length (concat bs)"
      from nth_block [OF this] obtain a q where a: "a < length bs" "q < length (bs ! a)" "i = block_start bs a + q" by blast
      then show "cmp_Compare c (fst (concat bs ! i)) k < 0"
        using below [of a "bs ! a ! q"] \<open>?j = length bs\<close> block_start_nth(1) [OF a(1,2)] by simp
    qed simp_all
    then show ?thesis using False by simp
  qed
qed

lemma stands_index: "stands_two ies bs it i \<Longrightarrow> sound_two ies bs it \<and> (\<exists>a. wraps ies (iview ies) (ti_index_iter it) a)"
  by (auto simp: stands_two_def sound_two_def)

lemma two_Seek:
  assumes "indexes block_function ies bs" and "stands_two ies bs it i" and "valid k"
  shows "\<exists>it'. ti_Seek iops dops block_function k it = Some it' \<and> stands_two ies bs it' (lower_bound c k (concat bs))"
proof -
  obtain a where sound: "sound_two ies bs it" and "wraps ies (iview ies) (ti_index_iter it) a" using stands_index [OF assms(2)] by blast
  from iterator.wraps_Seek [OF index this(2) assms(3)] obtain w where w: "iw_Seek iops k (ti_index_iter it) = Some w"
    "wraps ies (iview ies) w (lower_bound c k ies)" by blast
  let ?j = "lower_bound c k ies"
  from move_index_at [where index_move = "iw_Seek iops k" and data_move = "iw_Seek dops k" and r = "lower_bound c k (bs ! ?j)",
      OF assms(1) sound w] obtain it' where
    it': "move_index iops dops block_function (iw_Seek iops k) (iw_Seek dops k) it = Some it'"
    "if ?j < length bs then at_data ies bs it' ?j (lower_bound c k (bs ! ?j)) else at_end ies it'"
    using iterator.wraps_Seek [OF data _ assms(3)] by blast
  show ?thesis
  proof (cases "?j < length bs")
    case True
    then show ?thesis
      using skip_forward [OF assms(1), of it' ?j "lower_bound c k (bs ! ?j)"] it' lower_bound_blocks [OF assms(1,3)]
      by (simp add: ti_Seek_def)
  next
    case False
    then show ?thesis
      using skip_forward_end(1) [of ies it' block_function bs] it' lower_bound_blocks [OF assms(1,3)] by (simp add: ti_Seek_def)
  qed
qed

lemma two_SeekToFirst:
  assumes "indexes block_function ies bs" and "stands_two ies bs it i"
  shows "\<exists>it'. ti_SeekToFirst iops dops block_function it = Some it' \<and> stands_two ies bs it' 0"
proof -
  obtain a where sound: "sound_two ies bs it" and "wraps ies (iview ies) (ti_index_iter it) a" using stands_index [OF assms(2)] by blast
  from iterator.wraps_SeekToFirst [OF index this(2)] obtain w where w: "iw_SeekToFirst iops (ti_index_iter it) = Some w"
    "wraps ies (iview ies) w 0" by blast
  from move_index_at [where index_move = "iw_SeekToFirst iops" and data_move = "iw_SeekToFirst dops" and r = 0, OF assms(1) sound w]
  obtain it' where it': "move_index iops dops block_function (iw_SeekToFirst iops) (iw_SeekToFirst dops) it = Some it'"
    "if 0 < length bs then at_data ies bs it' 0 0 else at_end ies it'"
    using iterator.wraps_SeekToFirst [OF data] by blast
  show ?thesis
  proof (cases "0 < length bs")
    case True
    then show ?thesis using skip_forward [OF assms(1), of it' 0 0] it' by (simp add: ti_SeekToFirst_def)
  next
    case False
    then show ?thesis using skip_forward_end(1) [of ies it' block_function bs] it' by (simp add: ti_SeekToFirst_def)
  qed
qed

lemma two_SeekToLast:
  assumes "indexes block_function ies bs" and "stands_two ies bs it i"
  shows "\<exists>it'. ti_SeekToLast iops dops block_function it = Some it' \<and> stands_two ies bs it' (length (concat bs) - 1)"
proof -
  have len: "length ies = length bs" using assms(1) by (simp add: indexes_def)
  obtain a where sound: "sound_two ies bs it" and "wraps ies (iview ies) (ti_index_iter it) a" using stands_index [OF assms(2)] by blast
  from iterator.wraps_SeekToLast [OF index this(2)] obtain w where w: "iw_SeekToLast iops (ti_index_iter it) = Some w"
    "wraps ies (iview ies) w (length bs - 1)" using len by auto
  let ?j = "length bs - 1"
  from move_index_at [where index_move = "iw_SeekToLast iops" and data_move = "iw_SeekToLast dops" and r = "length (bs ! ?j) - 1",
      OF assms(1) sound w]
  obtain it' where it': "move_index iops dops block_function (iw_SeekToLast iops) (iw_SeekToLast dops) it = Some it'"
    "if ?j < length bs then at_data ies bs it' ?j (length (bs ! ?j) - 1) else at_end ies it'"
    using iterator.wraps_SeekToLast [OF data] by blast
  show ?thesis
  proof (cases "?j < length bs")
    case True
    have all: "block_start bs (Suc ?j) = length (concat bs)" using True by (intro block_start_all) simp
    have "(if l - 1 < l then m + (l - 1) else if m = 0 then n else m - 1) = n - 1" if "m + l = n" for m l n :: nat
      using that by (cases l) auto
    from this [of "block_start bs ?j" "length (bs ! ?j)" "length (concat bs)"] all
    have "(if length (bs ! ?j) - 1 < length (bs ! ?j) then block_start bs ?j + (length (bs ! ?j) - 1) else before_start bs (block_start bs ?j))
        = length (concat bs) - 1"
      unfolding block_start_Suc [OF True] before_start_def by blast
    then show ?thesis using skip_backward [OF assms(1), of it' ?j "length (bs ! ?j) - 1"] it' True by (simp add: ti_SeekToLast_def)
  next
    case False
    then have "bs = []" by (cases bs) simp_all
    then show ?thesis using skip_forward_end(2) [of ies it' block_function bs] it' by (simp add: ti_SeekToLast_def)
  qed
qed

lemma two_Next:
  assumes "indexes block_function ies bs" and "stands_two ies bs it i" and "i < length (concat bs)"
  shows "\<exists>it'. ti_Next iops dops block_function it = Some it' \<and> stands_two ies bs it' (i + 1)"
proof -
  obtain j q where at: "at_data ies bs it j q" "q < length (bs ! j)" "i = block_start bs j + q"
    using assms(2,3) by (auto simp: stands_two_def)
  then have wd: "wraps (bs ! j) (dview (bs ! j)) (ti_data_iter it) q" by (simp add: at_data_def)
  from iterator.wraps_Next [OF data wd at(2)] obtain w where w: "iw_Next dops (ti_data_iter it) = Some w"
    "wraps (bs ! j) (dview (bs ! j)) w (q + 1)" by blast
  then have "at_data ies bs (it\<lparr> ti_data_iter := w \<rparr>) j (q + 1)" using at(1) by (simp add: at_data_def)
  from skip_forward [OF assms(1) this] show ?thesis using w(1) at(3) by (simp add: ti_Next_def add.assoc)
qed

lemma two_Prev:
  assumes "indexes block_function ies bs" and "stands_two ies bs it i" and "i < length (concat bs)"
  shows "\<exists>it'. ti_Prev iops dops block_function it = Some it' \<and> stands_two ies bs it' (if i = 0 then length (concat bs) else i - 1)"
proof -
  obtain j q where at: "at_data ies bs it j q" "q < length (bs ! j)" "i = block_start bs j + q"
    using assms(2,3) by (auto simp: stands_two_def)
  then have wd: "wraps (bs ! j) (dview (bs ! j)) (ti_data_iter it) q" by (simp add: at_data_def)
  let ?q = "if q = 0 then length (bs ! j) else q - 1"
  from iterator.wraps_Prev [OF data wd at(2)] obtain w where w: "iw_Prev dops (ti_data_iter it) = Some w"
    "wraps (bs ! j) (dview (bs ! j)) w ?q" by blast
  then have "at_data ies bs (it\<lparr> ti_data_iter := w \<rparr>) j ?q" using at(1) by (simp add: at_data_def)
  from skip_backward [OF assms(1) this] obtain it' where it':
    "SkipEmptyDataBlocksBackward iops dops block_function (it\<lparr> ti_data_iter := w \<rparr>) = Some it'"
    "stands_two ies bs it' (if ?q < length (bs ! j) then block_start bs j + ?q else before_start bs (block_start bs j))" by blast
  have "(if ?q < length (bs ! j) then block_start bs j + ?q else before_start bs (block_start bs j))
      = (if i = 0 then length (concat bs) else i - 1)"
    using at(2,3) by (cases "q = 0") (auto simp: before_start_def)
  then show ?thesis using it' w(1) unfolding ti_Prev_def by simp
qed

definition two_level_view :: "(slice \<Rightarrow> 'd option) \<Rightarrow> entry list \<Rightarrow> ('i, 'd) TwoLevelIterator \<Rightarrow> nat \<Rightarrow> bool" where
  "two_level_view block_function xs it i \<longleftrightarrow>
     (\<exists>ies bs. indexes block_function ies bs \<and> concat bs = xs \<and> stands_two ies bs it i)"

end

sublocale two_level \<subseteq> two: iterator "TwoLevel iops dops block_function" c valid xs "two_level_view block_function xs"
  for block_function xs
proof (rule iterator.intro)
  fix s i
  assume "two_level_view block_function xs s i"
  then obtain ies bs where v: "indexes block_function ies bs" "concat bs = xs" "stands_two ies bs s i"
    by (auto simp: two_level_view_def)
  have intro: "\<exists>t. f = Some t \<and> two_level_view block_function xs t n" if "\<exists>t. f = Some t \<and> stands_two ies bs t n" for f n
    using that v(1,2) by (auto simp: two_level_view_def)
  show "i \<le> length xs" using v by (auto simp: stands_two_def)
  show "i_Valid (TwoLevel iops dops block_function) s \<longleftrightarrow> i < length xs"
    using v wraps_valid by (fastforce simp: stands_two_def at_data_def TwoLevel_def ti_Valid_def)
  show "i_status (TwoLevel iops dops block_function) s = StatusOK"
    using v(3) iterator.wraps_status [OF index] iterator.wraps_status [OF data]
    by (auto simp: stands_two_def sound_two_def TwoLevel_def two_level_status_def status_ok_def)
  show "\<exists>t. i_SeekToFirst (TwoLevel iops dops block_function) s = Some t \<and> two_level_view block_function xs t 0"
    using two_SeekToFirst [OF v(1,3)] by (intro intro) (simp add: TwoLevel_def)
  show "\<exists>t. i_SeekToLast (TwoLevel iops dops block_function) s = Some t \<and> two_level_view block_function xs t (length xs - 1)"
    using two_SeekToLast [OF v(1,3)] v(2) by (intro intro) (simp add: TwoLevel_def)
  show "\<exists>t. i_Seek (TwoLevel iops dops block_function) k s = Some t \<and> two_level_view block_function xs t (lower_bound c k xs)"
    if "valid k" for k
    using two_Seek [OF v(1,3) that] v(2) by (intro intro) (simp add: TwoLevel_def)
  assume i: "i < length xs"
  then obtain j q where at: "at_data ies bs s j q" "q < length (bs ! j)" "i = block_start bs j + q"
    using v by (auto simp: stands_two_def)
  then have wd: "j < length bs" "wraps (bs ! j) (dview (bs ! j)) (ti_data_iter s) q" by (simp_all add: at_data_def)
  show "i_key (TwoLevel iops dops block_function) s = fst (xs ! i)" "i_value (TwoLevel iops dops block_function) s = snd (xs ! i)"
    using block_start_nth(1) [OF wd(1) at(2)] at(2,3) v(2) wraps_key [OF wd(2)] iterator.wraps_value [OF data wd(2)]
    by (simp_all add: TwoLevel_def)
  show "\<exists>t. i_Next (TwoLevel iops dops block_function) s = Some t \<and> two_level_view block_function xs t (i + 1)"
    using two_Next [OF v(1,3)] i v(2) by (intro intro) (simp add: TwoLevel_def)
  show "\<exists>t. i_Prev (TwoLevel iops dops block_function) s = Some t \<and> two_level_view block_function xs t (if i = 0 then length xs else i - 1)"
    using two_Prev [OF v(1,3)] i v(2) by (intro intro; cases "i = 0") (simp_all add: TwoLevel_def)
qed

context two_level
begin

lemma two_level_new:
  assumes "indexes block_function ies bs" and "iview ies s p"
  shows "two_level_view block_function (concat bs) (TwoLevelIterator_new iops s) (length (concat bs))"
  using assms iterator.wraps_Set [OF index assms(2)]
  by (fastforce simp: two_level_view_def stands_two_def sound_two_def TwoLevelIterator_new_def IteratorWrapper_new_def)

end

end
