(* ===== verification/Ldb_Table_Iter.thy ===== *)
theory Ldb_Table_Iter
  imports Ldb_Two_Level_View Ldb_Table_Read
begin

text \<open>
  The iterator over a table (\<^verbatim>\<open>Table::NewIterator\<close> in \<^verbatim>\<open>table/table.cc\<close>): a two-level iterator over the index
  block, which opens data blocks with \<open>BlockReader\<close>. It goes through the entries of the table.
\<close>

definition Table_NewIterator :: "'f Table \<Rightarrow> (block_iterator, block_iterator) TwoLevelIterator" where
  "Table_NewIterator t =
     TwoLevelIterator_new (BlockIterator (opt_comparator (t_options t))) (Block_NewIterator (t_index_block t))"

definition TableIterator ::
    "'f RandomAccessFile \<Rightarrow> bool \<Rightarrow> 'f Table \<Rightarrow> (block_iterator, block_iterator) TwoLevelIterator Iterator" where
  "TableIterator ops verify_checksums t =
     TwoLevel (BlockIterator (opt_comparator (t_options t))) (BlockIterator (opt_comparator (t_options t)))
       (\<lambda>handle. BlockReader ops verify_checksums handle t)"

text \<open>A state stands in one list of entries only.\<close>

lemma iterator_entries_unique:
  assumes "iterator ops c valid xs V" and "iterator ops c valid ys W" and "V s i" and "W s j"
  shows "xs = ys"
proof -
  obtain t where t: "i_SeekToFirst ops s = Some t" "V t 0" using iterator.first_view [OF assms(1,3)] by blast
  then have w: "W t 0" using iterator.first_view [OF assms(2,4)] by auto
  let ?n = "length xs + length ys"
  have "scan ?n ops t = Some xs" "scan ?n ops t = Some ys"
    using iterator.scan_view [OF assms(1) t(2), of ?n] iterator.scan_view [OF assms(2) w, of ?n] by simp_all
  then show ?thesis by simp
qed

sublocale comparator \<subseteq> blocks: two_level c valid "BlockIterator c" "BlockIterator c" "block_view c valid" "block_view c valid"
  by unfold_locales

context table_reader
begin

lemma table_indexes:
  assumes "sound f" and "contents f = table_bytes opts bs" and "length (table_bytes opts bs) < 2 ^ 32"
    and "1 \<le> opt_block_restart_interval opts" and "sorted_blocks c valid bs"
  shows "blocks.indexes (\<lambda>handle. BlockReader ops verify handle (opened opts f bs))
    (index_entries c (opt_block_restart_interval opts) bs (length bs)) bs"
proof -
  let ?I = "opt_block_restart_interval opts"
  let ?idx = "index_entries c ?I bs (length bs)"
  have nth: "?idx ! j = (separator_key c bs j, BlockHandle_EncodeTo [] (handle_at ?I bs j))" if "j < length bs" for j
    using that by (simp add: index_entries_def)
  have opens: "\<exists>d p. BlockReader ops verify (snd (?idx ! j)) (opened opts f bs) = Some d \<and> block_view c valid (bs ! j) d p"
    if "j < length bs" for j
    using BlockReader_ok [OF assms(1,2) that] nth [OF that]
      built_block_view [OF assms(4) sorted_block [OF assms(5) that] block_valid [OF assms(5) that] block_small [OF that assms(3)]]
    by auto
  show ?thesis
    unfolding blocks.indexes_def
  proof (intro conjI allI impI ballI)
    show "length ?idx = length bs" by (simp add: index_entries_def)
    show "valid (fst e)" if "e \<in> set ?idx" for e using index_valid [OF assms(5) that] .
    show "valid (fst e)" if "e \<in> set (concat bs)" for e using assms(5) that by (auto simp: sorted_blocks_def)
    show "\<exists>d p. BlockReader ops verify (snd (?idx ! j)) (opened opts f bs) = Some d \<and> block_view c valid (bs ! j) d p"
      if "j < length bs" for j using opens [OF that] .
    show "bs ! j = bs ! k" if "j < length bs" "k < length bs" "snd (?idx ! j) = snd (?idx ! k)" for j k
      using opens [OF that(1)] opens [OF that(2)] that(3) iterator_entries_unique [OF block.iterator_axioms block.iterator_axioms]
      by fastforce
    show "cmp_Compare c (fst e) (fst (?idx ! j)) \<le> 0" if "j < length bs" "e \<in> set (bs ! j)" for j e
    proof -
      note le = le_last_key [OF assms(5) that] and f = separator_key_facts [OF assms(5) that(1)]
        and v = block_valid [OF assms(5) that] and l = block_keys_valid(1) [OF assms(5) that(1)]
      show ?thesis
      proof (cases "cmp_Compare c (last_key (bs ! j)) (separator_key c bs j) = 0")
        case True
        then have "last_key (bs ! j) = separator_key c bs j" using compare_eq [OF l f(1)] by simp
        then show ?thesis using le nth [OF that(1)] by simp
      next
        case False
        then show ?thesis using compare_le_trans [OF v l f(1) le] f(2) nth [OF that(1)] by simp
      qed
    qed
    show "cmp_Compare c (fst (?idx ! i)) (fst e) < 0" if "i < j \<and> j < length bs" "e \<in> set (bs ! j)" for i j e
    proof -
      have i: "i < length bs" "i + 1 < length bs" "j < length bs" using that by auto
      note f = separator_key_facts [OF assms(5) i(1)] and v = block_valid [OF assms(5) i(3) that(2)]
        and h = block_keys_valid(2) [OF assms(5) i(2)]
      have hd_in: "hd (bs ! (i + 1)) \<in> set (bs ! (i + 1))" using block_ne [OF assms(5) i(2)] by simp
      show ?thesis
      proof (cases "fst e = first_key (bs ! (i + 1))")
        case True
        then show ?thesis using f(3) [OF i(2)] nth [OF i(1)] by simp
      next
        case False
        have "cmp_Compare c (first_key (bs ! (i + 1))) (fst e) < 0"
        proof (cases "i + 1 = j")
          case True
          obtain e0 es where b: "bs ! (i + 1) = e0 # es" using block_ne [OF assms(5) i(2)] by (cases "bs ! (i + 1)") auto
          have "e \<noteq> e0" using \<open>fst e \<noteq> first_key (bs ! (i + 1))\<close> b by (auto simp: first_key_def)
          then have "e \<in> set es" using that(2) True b by simp
          then show ?thesis using sorted_block [OF assms(5) i(2)] b by (simp add: sorted_entries_def first_key_def)
        next
          case False
          then show ?thesis using sorted_across [OF assms(5) _ i(3) hd_in that(2)] that(1) by (simp add: first_key_def)
        qed
        then show ?thesis using compare_trans [OF f(1) h v f(3) [OF i(2)]] nth [OF i(1)] by simp
      qed
    qed
  qed
qed

lemma table_iterates:
  assumes "sound f" and "contents f = table_bytes opts bs" and "length (table_bytes opts bs) < 2 ^ 32"
    and "1 \<le> opt_block_restart_interval opts" and "sorted_blocks c valid bs"
  shows "blocks.two_level_view (\<lambda>handle. BlockReader ops verify handle (opened opts f bs)) (concat bs)
    (Table_NewIterator (opened opts f bs)) (length (concat bs))"
    and "iterator (TableIterator ops verify (opened opts f bs)) c valid xs
      (blocks.two_level_view (\<lambda>handle. BlockReader ops verify handle (opened opts f bs)) xs)"
proof -
  let ?idx = "index_entries c (opt_block_restart_interval opts) bs (length bs)"
  have contents: "index_contents opts bs = build_block 1 ?idx" by (simp add: index_contents_def same_comparator)
  have "length (build_block 1 ?idx) < 2 ^ 32" using assms(3) contents by (simp add: lt_trans_sizes)
  then have view: "block_view c valid ?idx (Block_NewIterator (Block_new (index_contents opts bs))) (length ?idx)"
    unfolding contents by (intro built_block_view index_sorted [OF assms(5)] index_valid [OF assms(5)]) simp_all
  have t: "t_options (opened opts f bs) = opts" "t_index_block (opened opts f bs) = Block_new (index_contents opts bs)"
    by (simp_all add: opened_def)
  show "blocks.two_level_view (\<lambda>handle. BlockReader ops verify handle (opened opts f bs)) (concat bs)
    (Table_NewIterator (opened opts f bs)) (length (concat bs))"
    unfolding Table_NewIterator_def t same_comparator by (rule blocks.two_level_new [OF table_indexes [OF assms] view])
  show "iterator (TableIterator ops verify (opened opts f bs)) c valid xs
      (blocks.two_level_view (\<lambda>handle. BlockReader ops verify handle (opened opts f bs)) xs)"
    unfolding TableIterator_def t same_comparator by (rule blocks.two.iterator_axioms)
qed

end

end
