(* ===== verification/Ldb_Mem_Iter.thy ===== *)
theory Ldb_Mem_Iter
  imports Ldb_Memtable Ldb_Iterator
begin

text \<open>
  The iterator over a memtable (\<^verbatim>\<open>MemTableIterator\<close> in \<^verbatim>\<open>db/memtable.cc\<close>) as an instance of the interface of
  iterators. Its state is the memtable it points to and its position in the skip list; its entries
  are the writes that the memtable holds, in the order of their internal keys.
\<close>

section \<open>The iterator\<close>

record mem_iterator =
  mi_table :: MemTable
  mi_position :: "nat option"

definition MemTable_NewIterator :: "MemTable \<Rightarrow> mem_iterator" where
  "MemTable_NewIterator mem = \<lparr> mi_table = mem, mi_position = None \<rparr>"

definition mem_move :: "(MemTable \<Rightarrow> nat option \<Rightarrow> nat option option) \<Rightarrow> mem_iterator \<Rightarrow> mem_iterator option" where
  "mem_move operation it = map_option (\<lambda>p. it\<lparr> mi_position := p \<rparr>) (operation (mi_table it) (mi_position it))"

definition MemTableIterator :: "mem_iterator Iterator" where
  "MemTableIterator =
     \<lparr> i_Valid = \<lambda>it. iter_Valid (mi_position it),
       i_SeekToFirst = mem_move (\<lambda>mem _. Some (MemTableIterator_SeekToFirst mem)),
       i_SeekToLast = mem_move (\<lambda>mem _. MemTableIterator_SeekToLast mem),
       i_Seek = \<lambda>k. mem_move (\<lambda>mem _. MemTableIterator_Seek k mem),
       i_Next = mem_move (\<lambda>mem p. Some (MemTableIterator_Next mem p)),
       i_Prev = mem_move MemTableIterator_Prev,
       i_key = \<lambda>it. MemTableIterator_key (mi_table it) (mi_position it),
       i_value = \<lambda>it. MemTableIterator_value (mi_table it) (mi_position it),
       i_status = \<lambda>_. StatusOK \<rparr>"

section \<open>Positions in a chain\<close>

text \<open>The iterator of the skip list stands at node \<open>i\<close> of the chain, or past its end.\<close>

definition node_at :: "nat list \<Rightarrow> nat \<Rightarrow> nat option" where
  "node_at ns i = (if i < length ns then Some (ns ! i) else None)"

lemma node_at_hd: "node_at ns i = hd_option (drop i ns)"
  by (cases "i < length ns") (simp_all add: node_at_def Cons_nth_drop_Suc [symmetric])

context key_order
begin

lemma chain_first: "chain s ns \<Longrightarrow> iter_SeekToFirst s = node_at ns 0"
  using chain_next [of s "[]" ns 0] filter_chain_0 [of s "[]" ns]
  by (simp add: iter_SeekToFirst_def chain_def kMaxHeight_def node_at_hd)

lemma chain_Next: "chain s ns \<Longrightarrow> i < length ns \<Longrightarrow> iter_Next s (node_at ns i) = node_at ns (i + 1)"
proof -
  assume c: "chain s ns" and i: "i < length ns"
  have ns: "ns = take (Suc i) ns @ drop (Suc i) ns" by simp
  have l: "last (0 # take (Suc i) ns) = ns ! i" using i by (simp add: take_Suc_conv_app_nth)
  have "1 \<le> ht s (ns ! i)" using c i by (simp add: chain_def)
  then show "iter_Next s (node_at ns i) = node_at ns (i + 1)"
    using chain_next [of s "take (Suc i) ns" "drop (Suc i) ns" 0] filter_chain_0 [of s "take (Suc i) ns" "drop (Suc i) ns"] c i l
    by (simp add: iter_Next_def node_at_hd [of _ "Suc i"]) (simp add: node_at_def)
qed

lemma chain_Prev:
  assumes "chain s ns" and "sorted_keys (keys_of s ns)" and "i < length ns"
  shows "iter_Prev cmp s (node_at ns i) = Some (node_at ns (if i = 0 then length ns else i - 1))"
proof -
  have ns: "ns = take i ns @ ns ! i # drop (Suc i) ns" using assms(3) by (rule id_take_nth_drop)
  have "iter_Prev cmp s (Some (ns ! i)) = Some (if take i ns = [] then None else Some (last (take i ns)))"
    by (rule iter_Prev_chain [where zs = "drop (Suc i) ns"]) (simp_all only: ns [symmetric] assms)
  moreover have "last (take i ns) = ns ! (i - 1)" if "i \<noteq> 0"
    using that assms(3) by (cases i) (simp_all add: take_Suc_conv_app_nth)
  ultimately show ?thesis using assms(3) by (auto simp: node_at_def)
qed

lemma chain_last:
  assumes "chain s ns"
  shows "iter_SeekToLast s = Some (node_at ns (length ns - 1))"
proof -
  have "find_last_loop s (last (0 # [])) (sl_max_height s - 1) = Some (last (0 # [] @ ns))"
    by (rule find_last_loop_chain) (use assms chain_head [OF assms] in simp_all)
  moreover have "ns \<noteq> [] \<Longrightarrow> last ns \<noteq> 0"
    using chain_not_head [OF assms] by (metis last_in_set)
  ultimately show ?thesis
    by (cases "ns = []") (simp_all add: iter_SeekToLast_def FindLast_def node_at_def last_conv_nth)
qed

lemma chain_Seek:
  assumes "chain s ns" and "sorted_keys (keys_of s ns)" and "valid key"
  shows "iter_Seek cmp s key = Some (node_at ns (length (before key (keys_of s ns))))"
proof -
  define lt where "lt = takeWhile (\<lambda>n. cmp (node_key s n) key < 0) ns"
  define ge where "ge = dropWhile (\<lambda>n. cmp (node_key s n) key < 0) ns"
  have split: "ns = lt @ ge" by (simp add: lt_def ge_def)
  have parts: "before key (keys_of s ns) = map (node_key s) lt" "behind key (keys_of s ns) = map (node_key s) ge"
    by (simp_all add: before_def behind_def keys_of_def lt_def ge_def takeWhile_map dropWhile_map comp_def)
  have below: "\<forall>n \<in> set lt. cmp (node_key s n) key < 0" and above: "\<forall>n \<in> set ge. \<not> cmp (node_key s n) key < 0"
    using in_before [of _ key "keys_of s ns"] in_behind [OF assms(2,3)] by (auto simp: parts)
  have "sl_max_height s - 1 < ht s 0" by (rule chain_head [OF assms(1)])
  then have "iter_Seek cmp s key = Some (hd_option ge)"
    using find_ge_loop_chain [of s "[]" lt ge "sl_max_height s - 1" cmp key None] assms(1) [unfolded split] below above
    by (simp add: iter_Seek_def FindGreaterOrEqual_def)
  moreover have "drop (length (before key (keys_of s ns))) ns = ge"
  proof -
    have "drop (length lt) ns = ge" by (simp add: split)
    then show ?thesis by (simp only: parts length_map)
  qed
  ultimately show ?thesis by (simp add: node_at_hd)
qed

end

section \<open>Where the iterator stands\<close>

fun write_kv :: "mem_write \<Rightarrow> entry" where
  "write_kv (s, t, k, v) = (InternalKey k s t, v)"

definition short_key :: "slice \<Rightarrow> bool" where
  "short_key k \<longleftrightarrow> 8 \<le> length k \<and> length k < 2 ^ 32"

lemma MemTableIterator_entry:
  assumes "fits w" and "node_key (mt_table mem) x = write_entry w"
  shows "MemTableIterator_key mem (Some x) = fst (write_kv w)" and "MemTableIterator_value mem (Some x) = snd (write_kv w)"
proof -
  obtain s t k v where w: "w = (s, t, k, v)" by (cases w)
  have len: "length k + 8 < 2 ^ 32" "length v < 2 ^ 32" using assms(1) w by simp_all
  show "MemTableIterator_key mem (Some x) = fst (write_kv w)"
    using assms(2) w entry_slice_write [OF len(1)] by (simp add: MemTableIterator_key_def iter_key_def)
  have v: "entry_slice (EncodeVarint32 (word_of_nat (length v)) @ v) = v"
    using entry_slice_Encode [of v "[]"] len(2) by simp
  obtain kl where e: "length_prefix (entry_bytes s t k v) = Some (kl,
      k @ EncodeFixed64 (PackSequenceAndType s t) @ EncodeVarint32 (word_of_nat (length v)) @ v)" "unat kl = length k + 8"
    using Get_entry(1) [OF len] Get_entry(2) [OF len] by blast
  then show "MemTableIterator_value mem (Some x) = snd (write_kv w)"
    using assms(2) w v by (simp add: MemTableIterator_value_def iter_key_def)
qed

context user_comparator
begin

definition mem_view :: "entry list \<Rightarrow> mem_iterator \<Rightarrow> nat \<Rightarrow> bool" where
  "mem_view xs it i \<longleftrightarrow> mt_comparator (mi_table it) = c \<and> i \<le> length xs
     \<and> (\<exists>ns ws. chain (mt_table (mi_table it)) ns \<and> keys_of (mt_table (mi_table it)) ns = map write_entry ws
          \<and> entries.sorted_keys (map write_entry ws) \<and> (\<forall>w \<in> set ws. fits w) \<and> xs = map write_kv ws
          \<and> mi_position it = node_at ns i)"

lemma mem_view_move:
  assumes "mem_view xs it i" and "j \<le> length xs"
    and "\<And>ns ws. chain (mt_table (mi_table it)) ns \<Longrightarrow> keys_of (mt_table (mi_table it)) ns = map write_entry ws \<Longrightarrow>
      entries.sorted_keys (map write_entry ws) \<Longrightarrow> \<forall>w \<in> set ws. fits w \<Longrightarrow> xs = map write_kv ws \<Longrightarrow> length xs = length ns \<Longrightarrow>
      mi_position it = node_at ns i \<Longrightarrow> mt_comparator (mi_table it) = c \<Longrightarrow>
      operation (mi_table it) (mi_position it) = Some (node_at ns j)"
  shows "\<exists>it'. mem_move operation it = Some it' \<and> mem_view xs it' j"
proof -
  obtain ns ws where v: "chain (mt_table (mi_table it)) ns" "keys_of (mt_table (mi_table it)) ns = map write_entry ws"
    "entries.sorted_keys (map write_entry ws)" "\<forall>w \<in> set ws. fits w" "xs = map write_kv ws"
    "mi_position it = node_at ns i" "mt_comparator (mi_table it) = c"
    using assms(1) by (auto simp: mem_view_def)
  have "length xs = length ns" using arg_cong [OF v(2), of length] v(5) by (simp add: keys_of_def)
  then have "mem_move operation it = Some (it\<lparr> mi_position := node_at ns j \<rparr>)"
    using assms(3) [OF v(1-5) _ v(6,7)] by (simp add: mem_move_def)
  moreover have "mem_view xs (it\<lparr> mi_position := node_at ns j \<rparr>) j"
    using v assms(2) unfolding mem_view_def by (auto intro!: exI [of _ ns] exI [of _ ws])
  ultimately show ?thesis by blast
qed

lemma mem_lower_bound:
  assumes "\<forall>w \<in> set ws. fits w" and "short_key k"
  shows "length (entries.before (EncodeKey k) (map write_entry ws)) = lower_bound (InternalKeyComparator c) k (map write_kv ws)"
proof -
  have k: "entry_slice (EncodeKey k) = k"
    using entry_slice_Encode [of k "[]"] assms(2) by (simp add: EncodeKey_def PutVarint32_def short_key_def)
  have "entry_compare c (write_entry w) (EncodeKey k) = internal_Compare c (fst (write_kv w)) k" if "w \<in> set ws" for w
    using assms(1) that k by (cases w) (auto simp: entry_compare_def entry_slice_write)
  then have "takeWhile (\<lambda>w. entry_compare c (write_entry w) (EncodeKey k) < 0) ws
      = takeWhile (\<lambda>w. internal_Compare c (fst (write_kv w)) k < 0) ws"
    by (intro takeWhile_cong) simp_all
  then show ?thesis
    by (simp add: entries.before_def lower_bound_def takeWhile_map comp_def InternalKeyComparator_def)
qed

lemma mem_view_entry:
  assumes "mem_view xs it i" and "i < length xs"
  shows "MemTableIterator_key (mi_table it) (mi_position it) = fst (xs ! i)"
    and "MemTableIterator_value (mi_table it) (mi_position it) = snd (xs ! i)"
proof -
  obtain ns ws where v: "keys_of (mt_table (mi_table it)) ns = map write_entry ws"
    "\<forall>w \<in> set ws. fits w" "xs = map write_kv ws" "mi_position it = node_at ns i"
    using assms(1) by (auto simp: mem_view_def)
  have len: "length ns = length ws" using arg_cong [OF v(1), of length] by (simp add: keys_of_def)
  then have "keys_of (mt_table (mi_table it)) ns ! i = write_entry (ws ! i)" using v(1,3) assms(2) by simp
  then have "node_key (mt_table (mi_table it)) (ns ! i) = write_entry (ws ! i)"
    using len v(3) assms(2) by (simp add: keys_of_def)
  moreover have "fits (ws ! i)" using v(2,3) assms(2) by simp
  ultimately show "MemTableIterator_key (mi_table it) (mi_position it) = fst (xs ! i)"
    "MemTableIterator_value (mi_table it) (mi_position it) = snd (xs ! i)"
    using MemTableIterator_entry v(3,4) len assms(2) by (simp_all add: node_at_def)
qed

end

lemma EncodeKey_valid: "short_key k \<Longrightarrow> valid_entry (EncodeKey k)"
  unfolding valid_entry_def short_key_def EncodeKey_def PutVarint32_def by (intro exI [of _ k] exI [of _ "[]"]) simp

sublocale user_comparator \<subseteq> mem: iterator MemTableIterator "InternalKeyComparator c" short_key xs "mem_view xs" for xs
proof (rule iterator.intro)
  fix s i
  assume v: "mem_view xs s i"
  then obtain ns ws where p: "mi_position s = node_at ns i" "xs = map write_kv ws"
    "keys_of (mt_table (mi_table s)) ns = map write_entry ws" by (auto simp: mem_view_def)
  have len: "length xs = length ns" using arg_cong [OF p(3), of length] p(2) by (simp add: keys_of_def)
  show "i \<le> length xs" using v by (simp add: mem_view_def)
  show "i_Valid MemTableIterator s \<longleftrightarrow> i < length xs"
    using p(1) len by (simp add: MemTableIterator_def iter_Valid_def node_at_def)
  show "i_status MemTableIterator s = StatusOK" by (simp add: MemTableIterator_def)
  show "\<exists>t. i_SeekToFirst MemTableIterator s = Some t \<and> mem_view xs t 0"
    unfolding MemTableIterator_def Iterator.simps
    by (rule mem_view_move [OF v]) (simp_all add: MemTableIterator_SeekToFirst_def entries.chain_first)
  show "\<exists>t. i_SeekToLast MemTableIterator s = Some t \<and> mem_view xs t (length xs - 1)"
    unfolding MemTableIterator_def Iterator.simps
    by (rule mem_view_move [OF v]) (simp_all add: MemTableIterator_SeekToLast_def entries.chain_last)
  show "\<exists>t. i_Seek MemTableIterator k s = Some t \<and> mem_view xs t (lower_bound (InternalKeyComparator c) k xs)"
    if k: "short_key k" for k
    unfolding MemTableIterator_def Iterator.simps
  proof (rule mem_view_move [OF v lower_bound_le])
    fix ns ws
    assume "chain (mt_table (mi_table s)) ns" "keys_of (mt_table (mi_table s)) ns = map write_entry ws"
      "entries.sorted_keys (map write_entry ws)" "\<forall>w \<in> set ws. fits w" "xs = map write_kv ws" "mt_comparator (mi_table s) = c"
    then show "MemTableIterator_Seek k (mi_table s) = Some (node_at ns (lower_bound (InternalKeyComparator c) k xs))"
      using entries.chain_Seek [of "mt_table (mi_table s)" ns "EncodeKey k"] mem_lower_bound [of ws k] k EncodeKey_valid [OF k]
      by (simp add: MemTableIterator_Seek_def)
  qed
  assume i: "i < length xs"
  show "i_key MemTableIterator s = fst (xs ! i)" "i_value MemTableIterator s = snd (xs ! i)"
    using mem_view_entry [OF v i] by (simp_all add: MemTableIterator_def)
  show "\<exists>t. i_Next MemTableIterator s = Some t \<and> mem_view xs t (i + 1)"
    unfolding MemTableIterator_def Iterator.simps
    by (rule mem_view_move [OF v]) (use i in \<open>simp_all add: MemTableIterator_Next_def entries.chain_Next\<close>)
  show "\<exists>t. i_Prev MemTableIterator s = Some t \<and> mem_view xs t (if i = 0 then length xs else i - 1)"
    unfolding MemTableIterator_def Iterator.simps
  proof (rule mem_view_move [OF v])
    fix ns ws
    assume "chain (mt_table (mi_table s)) ns" "keys_of (mt_table (mi_table s)) ns = map write_entry ws"
      "entries.sorted_keys (map write_entry ws)" "length xs = length ns" "mi_position s = node_at ns i" "mt_comparator (mi_table s) = c"
    then show "MemTableIterator_Prev (mi_table s) (mi_position s) = Some (node_at ns (if i = 0 then length xs else i - 1))"
      using entries.chain_Prev [of "mt_table (mi_table s)" ns i] i by (simp add: MemTableIterator_Prev_def)
  qed (use i in auto)
qed

section \<open>The entries of a memtable\<close>

context user_comparator
begin

lemma mem_new:
  assumes "mem_holds mem hist"
  obtains xs where "mem_view xs (MemTable_NewIterator mem) (length xs)" "set xs = write_kv ` set hist"
    "sorted_entries (InternalKeyComparator c) xs"
proof -
  obtain ks where ks: "skip_holds (entry_compare c) valid_entry (mt_table mem) ks" "set ks = write_entry ` set hist"
    and mem: "mt_comparator mem = c" "\<forall>w \<in> set hist. fits w"
    using assms by (auto simp: mem_holds_def)
  obtain ns where ns: "chain (mt_table mem) ns" "ks = keys_of (mt_table mem) ns" using ks(1) by (auto simp: skip_holds_def)
  have srt: "entries.sorted_keys ks" by (rule entries.skip.holds_sorted [OF ks(1)])
  have "\<forall>x \<in> set ks. \<exists>w \<in> set hist. write_entry w = x" using ks(2) by auto
  then obtain f where f: "\<And>x. x \<in> set ks \<Longrightarrow> f x \<in> set hist \<and> write_entry (f x) = x" by metis
  let ?ws = "map f ks"
  have ws: "map write_entry ?ws = ks" using f by (simp add: map_idI)
  have fit: "\<forall>w \<in> set ?ws. fits w" using f mem(2) by auto
  have slice: "entry_slice (write_entry w) = fst (write_kv w)" if "fits w" for w
    using that by (cases w) (simp add: entry_slice_write)
  have kv: "write_kv w = write_kv w'" if "fits w" "fits w'" "write_entry w = write_entry w'" for w w'
  proof -
    let ?m = "\<lparr> mt_comparator = c, mt_table = SkipList (write_entry w) \<rparr>"
    have "node_key (mt_table ?m) 0 = write_entry w" by (simp add: SkipList_def node_key_def)
    then show ?thesis using MemTableIterator_entry [of w ?m 0] MemTableIterator_entry [of w' ?m 0] that
      by (metis prod.collapse)
  qed
  have set: "set (map write_kv ?ws) = write_kv ` set hist"
  proof
    show "set (map write_kv ?ws) \<subseteq> write_kv ` set hist" using f by auto
    show "write_kv ` set hist \<subseteq> set (map write_kv ?ws)"
    proof
      fix e
      assume "e \<in> write_kv ` set hist"
      then obtain w where w: "w \<in> set hist" "e = write_kv w" by auto
      have k: "write_entry w \<in> set ks" unfolding ks(2) by (rule imageI [OF w(1)])
      note fw = f [OF k]
      have "write_kv (f (write_entry w)) = write_kv w"
        by (rule kv) (use fw w(1) mem(2) in blast)+
      then show "e \<in> set (map write_kv ?ws)" unfolding w(2) set_map using k by (metis imageI)
    qed
  qed
  have sk: "entries.sorted_keys (map write_entry ?ws)" unfolding ws by (rule srt)
  then have "sorted_wrt (\<lambda>a b. entry_compare c (write_entry a) (write_entry b) < 0) ?ws"
    unfolding entries.sorted_keys_def sorted_wrt_map by (rule conjunct1)
  then have "sorted_wrt (\<lambda>a b. internal_Compare c (fst (write_kv a)) (fst (write_kv b)) < 0) ?ws"
    by (rule sorted_wrt_mono_rel [rotated]) (use fit slice in \<open>simp add: entry_compare_def\<close>)
  then have sorted: "sorted_entries (InternalKeyComparator c) (map write_kv ?ws)"
    by (simp add: sorted_entries_def sorted_wrt_map InternalKeyComparator_def)
  have len: "length ns = length ks" using ns(2) by (simp add: keys_of_def)
  have "mem_view (map write_kv ?ws) (MemTable_NewIterator mem) (length (map write_kv ?ws))"
    unfolding mem_view_def
  proof (intro conjI exI)
    show "chain (mt_table (mi_table (MemTable_NewIterator mem))) ns"
      "keys_of (mt_table (mi_table (MemTable_NewIterator mem))) ns = map write_entry ?ws"
      "mt_comparator (mi_table (MemTable_NewIterator mem)) = c"
      using ns ws mem(1) by (simp_all add: MemTable_NewIterator_def)
    show "entries.sorted_keys (map write_entry ?ws)" by (rule sk)
    show "mi_position (MemTable_NewIterator mem) = node_at ns (length (map write_kv ?ws))"
      using len by (simp add: MemTable_NewIterator_def node_at_def)
  qed (use fit in simp_all)
  then show thesis using that set sorted by blast
qed

end

end
