(* ===== verification/Ldb_DB_Iter.thy ===== *)
theory Ldb_DB_Iter
  imports Ldb_Merger Ldb_Random
begin

text \<open>
  The iterator of a database (\<^verbatim>\<open>db/db_iter.cc\<close>): over an iterator of internal keys it shows, for every
  user key, the newest entry at or below a sequence number, unless that is a deletion. The loops
  follow the internal iterator; a result \<open>None\<close> means that one of them does not return.
\<close>

definition kReadBytesPeriod :: nat where
  "kReadBytesPeriod = 1048576"

text \<open>
  The members of \<^verbatim>\<open>DBIter\<close>; \<open>di_samples\<close> are the keys for which it called
  \<^verbatim>\<open>DBImpl::RecordReadSample\<close>, which counts reads and does not concern the iterator.
\<close>

record 's DBIter =
  di_iter :: 's
  di_status :: Status
  di_saved_key :: slice
  di_saved_value :: slice
  di_direction :: Direction
  di_valid :: bool
  di_rnd :: "32 word"
  di_bytes_counter :: int
  di_samples :: "slice list"

definition RandomPeriod :: "32 word \<Rightarrow> int \<times> 32 word" where
  "RandomPeriod rnd = (let (r, rnd) = Random_Uniform (word_of_nat (2 * kReadBytesPeriod)) rnd in (uint r, rnd))"

definition DBIter_new :: "'s \<Rightarrow> 32 word \<Rightarrow> 's DBIter" where
  "DBIter_new iter seed =
     (let (period, rnd) = RandomPeriod (Random_seed seed)
      in \<lparr> di_iter = iter, di_status = StatusOK, di_saved_key = [], di_saved_value = [], di_direction = kForward,
           di_valid = False, di_rnd = rnd, di_bytes_counter = period, di_samples = [] \<rparr>)"

definition di_key :: "'s Iterator \<Rightarrow> 's DBIter \<Rightarrow> slice" where
  "di_key ops it = (if di_direction it = kForward then ExtractUserKey (i_key ops (di_iter it)) else di_saved_key it)"

definition di_value :: "'s Iterator \<Rightarrow> 's DBIter \<Rightarrow> slice" where
  "di_value ops it = (if di_direction it = kForward then i_value ops (di_iter it) else di_saved_value it)"

definition db_iter_status :: "'s Iterator \<Rightarrow> 's DBIter \<Rightarrow> Status" where
  "db_iter_status ops it = (if status_ok (di_status it) then i_status ops (di_iter it) else di_status it)"

section \<open>Reading the entry at hand\<close>

partial_function (option) sample_reads :: "slice \<Rightarrow> 's DBIter \<Rightarrow> 's DBIter option" where
  "sample_reads k it =
     (if di_bytes_counter it < 0
      then sample_reads k
        (it\<lparr> di_rnd := snd (RandomPeriod (di_rnd it)),
             di_bytes_counter := di_bytes_counter it + fst (RandomPeriod (di_rnd it)),
             di_samples := di_samples it @ [k] \<rparr>)
      else Some it)"

definition ParseKey :: "'s Iterator \<Rightarrow> 's DBIter \<Rightarrow> (ParsedInternalKey option \<times> 's DBIter) option" where
  "ParseKey ops it =
     (let k = i_key ops (di_iter it); n = int (length k + length (i_value ops (di_iter it)))
      in case sample_reads k (it\<lparr> di_bytes_counter := di_bytes_counter it - n \<rparr>) of
           None \<Rightarrow> None
         | Some it \<Rightarrow>
             Some (case ParseInternalKey k of
                 None \<Rightarrow> (None, it\<lparr> di_status := Corruption ''corrupted internal key in DBIter'' \<rparr>)
               | Some ikey \<Rightarrow> (Some ikey, it)))"

section \<open>Forwards\<close>

text \<open>
  What the loop does with an entry: the entry is the next one to show, or it goes on, perhaps
  skipping a user key from now on.
\<close>

definition yields :: "Comparator \<Rightarrow> SequenceNumber \<Rightarrow> bool \<Rightarrow> slice \<Rightarrow> ParsedInternalKey option \<Rightarrow> bool" where
  "yields c sequence skipping skip parsed =
     (case parsed of
        None \<Rightarrow> False
      | Some ikey \<Rightarrow>
          pk_sequence ikey \<le> sequence \<and> pk_type ikey = kTypeValue
          \<and> \<not> (skipping \<and> cmp_Compare c (pk_user_key ikey) skip \<le> 0))"

definition hides :: "SequenceNumber \<Rightarrow> ParsedInternalKey option \<Rightarrow> bool" where
  "hides sequence parsed =
     (case parsed of
        None \<Rightarrow> False
      | Some ikey \<Rightarrow> pk_sequence ikey \<le> sequence \<and> pk_type ikey = kTypeDeletion)"

partial_function (option) FindNextUserEntry ::
    "Comparator \<Rightarrow> SequenceNumber \<Rightarrow> 's Iterator \<Rightarrow> bool \<Rightarrow> 's DBIter \<Rightarrow> 's DBIter option" where
  "FindNextUserEntry c sequence ops skipping it =
     (case ParseKey ops it of
        None \<Rightarrow> None
      | Some r \<Rightarrow>
          if yields c sequence skipping (di_saved_key (snd r)) (fst r)
          then Some ((snd r)\<lparr> di_valid := True, di_saved_key := [] \<rparr>)
          else case i_Next ops (di_iter (snd r)) of
              None \<Rightarrow> None
            | Some s \<Rightarrow>
                let skip = (if hides sequence (fst r) then pk_user_key (the (fst r)) else di_saved_key (snd r));
                    it = (snd r)\<lparr> di_saved_key := skip, di_iter := s \<rparr>
                in if i_Valid ops s
                   then FindNextUserEntry c sequence ops (skipping \<or> hides sequence (fst r)) it
                   else Some (it\<lparr> di_saved_key := [], di_valid := False \<rparr>))"

definition di_Next :: "Comparator \<Rightarrow> SequenceNumber \<Rightarrow> 's Iterator \<Rightarrow> 's DBIter \<Rightarrow> 's DBIter option" where
  "di_Next c sequence ops it =
     (if di_direction it = kReverse
      then let it = it\<lparr> di_direction := kForward \<rparr>
           in case (if \<not> i_Valid ops (di_iter it) then i_SeekToFirst ops (di_iter it) else i_Next ops (di_iter it)) of
                None \<Rightarrow> None
              | Some s \<Rightarrow>
                  let it = it\<lparr> di_iter := s \<rparr>
                  in if \<not> i_Valid ops s then Some (it\<lparr> di_valid := False, di_saved_key := [] \<rparr>)
                     else FindNextUserEntry c sequence ops True it
      else FindNextUserEntry c sequence ops True (it\<lparr> di_saved_key := ExtractUserKey (i_key ops (di_iter it)) \<rparr>))"

section \<open>Backwards\<close>

text \<open>The scan to the first smaller user key: the iterator, and whether it is at such a key.\<close>

partial_function (option) back_before :: "Comparator \<Rightarrow> 's Iterator \<Rightarrow> slice \<Rightarrow> 's \<Rightarrow> (bool \<times> 's) option" where
  "back_before c ops saved_key s =
     (case i_Prev ops s of
        None \<Rightarrow> None
      | Some s \<Rightarrow>
          if \<not> i_Valid ops s then Some (False, s)
          else if cmp_Compare c (ExtractUserKey (i_key ops s)) saved_key < 0 then Some (True, s)
          else back_before c ops saved_key s)"

text \<open>An entry of the sequence makes the value or the deletion that was seen last obsolete.\<close>

definition save_entry :: "'s Iterator \<Rightarrow> ValueType \<Rightarrow> 's DBIter \<Rightarrow> 's DBIter" where
  "save_entry ops value_type it =
     (case value_type of
        kTypeDeletion \<Rightarrow> it\<lparr> di_saved_key := [], di_saved_value := [] \<rparr>
      | kTypeValue \<Rightarrow>
          it\<lparr> di_saved_key := ExtractUserKey (i_key ops (di_iter it)), di_saved_value := i_value ops (di_iter it) \<rparr>)"

partial_function (option) prev_loop ::
    "Comparator \<Rightarrow> SequenceNumber \<Rightarrow> 's Iterator \<Rightarrow> ValueType \<Rightarrow> 's DBIter \<Rightarrow> (ValueType \<times> 's DBIter) option" where
  "prev_loop c sequence ops value_type it =
     (case ParseKey ops it of
        None \<Rightarrow> None
      | Some r \<Rightarrow>
          let shown = (case fst r of None \<Rightarrow> False | Some ikey \<Rightarrow> pk_sequence ikey \<le> sequence)
          in if shown \<and> value_type \<noteq> kTypeDeletion
               \<and> cmp_Compare c (pk_user_key (the (fst r))) (di_saved_key (snd r)) < 0
             then Some (value_type, snd r)
             else let value_type = (if shown then pk_type (the (fst r)) else value_type);
                      it = (if shown then save_entry ops value_type (snd r) else snd r)
                  in case i_Prev ops (di_iter it) of
                       None \<Rightarrow> None
                     | Some s \<Rightarrow>
                         let it = it\<lparr> di_iter := s \<rparr>
                         in if i_Valid ops s then prev_loop c sequence ops value_type it else Some (value_type, it))"

definition FindPrevUserEntry :: "Comparator \<Rightarrow> SequenceNumber \<Rightarrow> 's Iterator \<Rightarrow> 's DBIter \<Rightarrow> 's DBIter option" where
  "FindPrevUserEntry c sequence ops it =
     (case (if i_Valid ops (di_iter it) then prev_loop c sequence ops kTypeDeletion it else Some (kTypeDeletion, it)) of
        None \<Rightarrow> None
      | Some (value_type, it) \<Rightarrow>
          Some (if value_type = kTypeDeletion
                then it\<lparr> di_valid := False, di_saved_key := [], di_saved_value := [], di_direction := kForward \<rparr>
                else it\<lparr> di_valid := True \<rparr>))"

definition di_Prev :: "Comparator \<Rightarrow> SequenceNumber \<Rightarrow> 's Iterator \<Rightarrow> 's DBIter \<Rightarrow> 's DBIter option" where
  "di_Prev c sequence ops it =
     (if di_direction it = kForward
      then let it = it\<lparr> di_saved_key := ExtractUserKey (i_key ops (di_iter it)) \<rparr>
           in case back_before c ops (di_saved_key it) (di_iter it) of
                None \<Rightarrow> None
              | Some (found, s) \<Rightarrow>
                  let it = it\<lparr> di_iter := s \<rparr>
                  in if \<not> found then Some (it\<lparr> di_valid := False, di_saved_key := [], di_saved_value := [] \<rparr>)
                     else FindPrevUserEntry c sequence ops (it\<lparr> di_direction := kReverse \<rparr>)
      else FindPrevUserEntry c sequence ops it)"

section \<open>Searching\<close>

definition di_Seek :: "Comparator \<Rightarrow> SequenceNumber \<Rightarrow> 's Iterator \<Rightarrow> slice \<Rightarrow> 's DBIter \<Rightarrow> 's DBIter option" where
  "di_Seek c sequence ops target it =
     (let it = it\<lparr> di_direction := kForward, di_saved_value := [], di_saved_key := InternalKey target sequence kValueTypeForSeek \<rparr>
      in case i_Seek ops (di_saved_key it) (di_iter it) of
           None \<Rightarrow> None
         | Some s \<Rightarrow>
             let it = it\<lparr> di_iter := s \<rparr>
             in if i_Valid ops s then FindNextUserEntry c sequence ops False it else Some (it\<lparr> di_valid := False \<rparr>))"

definition di_SeekToFirst :: "Comparator \<Rightarrow> SequenceNumber \<Rightarrow> 's Iterator \<Rightarrow> 's DBIter \<Rightarrow> 's DBIter option" where
  "di_SeekToFirst c sequence ops it =
     (let it = it\<lparr> di_direction := kForward, di_saved_value := [] \<rparr>
      in case i_SeekToFirst ops (di_iter it) of
           None \<Rightarrow> None
         | Some s \<Rightarrow>
             let it = it\<lparr> di_iter := s \<rparr>
             in if i_Valid ops s then FindNextUserEntry c sequence ops False it else Some (it\<lparr> di_valid := False \<rparr>))"

definition di_SeekToLast :: "Comparator \<Rightarrow> SequenceNumber \<Rightarrow> 's Iterator \<Rightarrow> 's DBIter \<Rightarrow> 's DBIter option" where
  "di_SeekToLast c sequence ops it =
     (let it = it\<lparr> di_direction := kReverse, di_saved_value := [] \<rparr>
      in case i_SeekToLast ops (di_iter it) of
           None \<Rightarrow> None
         | Some s \<Rightarrow> FindPrevUserEntry c sequence ops (it\<lparr> di_iter := s \<rparr>))"

definition DBIterator :: "Comparator \<Rightarrow> SequenceNumber \<Rightarrow> 's Iterator \<Rightarrow> 's DBIter Iterator" where
  "DBIterator c sequence ops =
     \<lparr> i_Valid = di_valid, i_SeekToFirst = di_SeekToFirst c sequence ops, i_SeekToLast = di_SeekToLast c sequence ops,
       i_Seek = di_Seek c sequence ops, i_Next = di_Next c sequence ops, i_Prev = di_Prev c sequence ops,
       i_key = di_key ops, i_value = di_value ops, i_status = db_iter_status ops \<rparr>"

end
