(* ===== verification/Ldb_DB_Iter_View.thy ===== *)
theory Ldb_DB_Iter_View
  imports Ldb_DB_Iter
begin

text \<open>
  The iterator of a database keeps the contract of iterators, for the user keys and values
  that a snapshot shows.
\<close>

section \<open>The snapshot\<close>

abbreviation user_key :: "entry \<Rightarrow> slice" where
  "user_key e \<equiv> ExtractUserKey (fst e)"

text \<open>An entry counts for a snapshot when its sequence number is not above that of the snapshot.\<close>

definition visible_entry :: "SequenceNumber \<Rightarrow> entry \<Rightarrow> bool" where
  "visible_entry sequence e = (case ParseInternalKey (fst e) of None \<Rightarrow> False | Some ikey \<Rightarrow> pk_sequence ikey \<le> sequence)"

definition is_value :: "entry \<Rightarrow> bool" where
  "is_value e = (case ParseInternalKey (fst e) of None \<Rightarrow> False | Some ikey \<Rightarrow> pk_type ikey = kTypeValue)"

text \<open>
  An entry is shown when it is a value, counts for the snapshot, and no entry before it (with the
  same user key, that is a newer one) does.
\<close>

definition shown_at :: "SequenceNumber \<Rightarrow> entry list \<Rightarrow> nat \<Rightarrow> bool" where
  "shown_at sequence xs i \<longleftrightarrow>
     visible_entry sequence (xs ! i) \<and> is_value (xs ! i)
     \<and> (\<forall>e \<in> set (take i xs). visible_entry sequence e \<longrightarrow> user_key e \<noteq> user_key (xs ! i))"

definition shown :: "SequenceNumber \<Rightarrow> entry list \<Rightarrow> nat list" where
  "shown sequence xs = filter (shown_at sequence xs) [0..<length xs]"

definition snapshot :: "SequenceNumber \<Rightarrow> entry list \<Rightarrow> entry list" where
  "snapshot sequence xs = map (\<lambda>i. (user_key (xs ! i), snd (xs ! i))) (shown sequence xs)"

section \<open>The entries before a position that have a property\<close>

definition rank :: "(nat \<Rightarrow> bool) \<Rightarrow> nat \<Rightarrow> nat" where
  "rank P p = length (filter P [0..<p])"

lemma rank_0 [simp]: "rank P 0 = 0"
  by (simp add: rank_def)

lemma rank_Suc: "rank P (Suc p) = rank P p + (if P p then 1 else 0)"
  by (simp add: rank_def)

lemma rank_skip: "p \<le> q \<Longrightarrow> (\<And>j. p \<le> j \<Longrightarrow> j < q \<Longrightarrow> \<not> P j) \<Longrightarrow> rank P q = rank P p"
  by (induction q) (auto simp: rank_Suc le_Suc_eq)

lemma rank_less: "p \<le> q \<Longrightarrow> P p \<Longrightarrow> p < q \<Longrightarrow> rank P p < rank P q"
proof (induction q)
  case (Suc q)
  then show ?case by (cases "p = q") (auto simp: rank_Suc)
qed simp

lemma rank_mono: "p \<le> q \<Longrightarrow> rank P p \<le> rank P q"
  by (induction q) (auto simp: rank_Suc le_Suc_eq)

lemma nth_rank:
  assumes "p < n" and "P p"
  shows "filter P [0..<n] ! rank P p = p \<and> rank P p < length (filter P [0..<n])"
proof -
  have "[0..<n] = [0..<p] @ p # [Suc p..<n]"
    using assms(1) by (metis le0 less_imp_le_nat upt_add_eq_append upt_conv_Cons le_add_diff_inverse)
  then have "filter P [0..<n] = filter P [0..<p] @ p # filter P [Suc p..<n]" using assms(2) by simp
  then show ?thesis by (simp add: rank_def nth_append)
qed

lemma rank_nth:
  assumes "i < length (filter P [0..<n])"
  shows "rank P (filter P [0..<n] ! i) = i \<and> P (filter P [0..<n] ! i) \<and> filter P [0..<n] ! i < n"
proof -
  let ?m = "filter P [0..<n] ! i"
  have "?m \<in> set (filter P [0..<n])" using assms by (rule nth_mem)
  then have m: "P ?m" "?m < n" by auto
  have "distinct (filter P [0..<n])" by simp
  then show ?thesis using nth_rank [of ?m n P] m assms nth_eq_iff_index_eq by blast
qed

section \<open>The periods of the samples\<close>

definition good_seed :: "32 word \<Rightarrow> bool" where
  "good_seed s \<longleftrightarrow> 0 < s \<and> s < 2147483647"

lemma RandomPeriod_eq:
  "RandomPeriod rnd = (int (unat (Random_Next rnd) mod 2097152), Random_Next rnd)"
  unfolding RandomPeriod_def Random_Uniform_def kReadBytesPeriod_def Let_def prod.case uint_nat unat_mod by simp

lemma good_seed_Next: "good_seed s \<Longrightarrow> good_seed (Random_Next s)"
  using Random_Next_eq by (simp add: good_seed_def)

text \<open>A period may be 0, but no two in a row.\<close>

lemma period_after_zero:
  assumes "good_seed s" and "unat s mod 2097152 = 0"
  shows "unat (Random_Next s) mod 2097152 \<noteq> 0"
proof -
  obtain m where m: "unat s = 2097152 * m" using assms(2) by auto
  have s: "0 < unat s" "unat s < 2147483647"
    using assms(1) by (simp_all add: good_seed_def word_less_nat_alt unat_gt_0)
  then have m1: "1 \<le> m" "m < 1024" using m by auto
  define a where "a = (16807 * m) div 1024"
  define b where "b = (16807 * m) mod 1024"
  have k: "16807 * m = 1024 * a + b" unfolding a_def b_def by simp
  have b: "b < 1024" by (simp add: b_def)
  have a: "16 \<le> a" "a < 16807" using m1 k b by linarith+
  have "unat s * 16807 = 2147483647 * a + (a + 2097152 * b)" using m k by simp
  then have "(unat s * 16807) mod 2147483647 = (a + 2097152 * b) mod 2147483647"
    by (simp only: mod_mult_self4)
  also have "\<dots> = a + 2097152 * b" using a b by simp
  finally have "unat (Random_Next s) = a + 2097152 * b" using Random_Next_eq(1) assms(1) by (simp add: good_seed_def)
  then have "unat (Random_Next s) mod 2097152 = a" using a by simp
  then show ?thesis using a by simp
qed

text \<open>Sampling returns, and changes only what concerns samples.\<close>

definition same_but_samples :: "'s DBIter \<Rightarrow> 's DBIter \<Rightarrow> bool" where
  "same_but_samples it it' \<longleftrightarrow> (\<exists>r b l. it' = it\<lparr> di_rnd := r, di_bytes_counter := b, di_samples := l \<rparr> \<and> (good_seed (di_rnd it) \<longrightarrow> good_seed r))"

lemma sample_reads_returns:
  "good_seed (di_rnd it) \<Longrightarrow> \<exists>it'. sample_reads k it = Some it' \<and> same_but_samples it it'"
proof (induction "2 * nat (- di_bytes_counter it) + (if fst (RandomPeriod (di_rnd it)) = 0 then 1 else 0)" arbitrary: it
    rule: less_induct)
  case less
  show ?case
  proof (cases "di_bytes_counter it < 0")
    case False
    have "it = it\<lparr> di_rnd := di_rnd it, di_bytes_counter := di_bytes_counter it, di_samples := di_samples it \<rparr>" by simp
    then have "same_but_samples it it" unfolding same_but_samples_def by blast
    then show ?thesis using False by (simp add: sample_reads.simps)
  next
    case True
    define it' where "it' = it\<lparr> di_rnd := snd (RandomPeriod (di_rnd it)),
      di_bytes_counter := di_bytes_counter it + fst (RandomPeriod (di_rnd it)), di_samples := di_samples it @ [k] \<rparr>"
    have seed: "good_seed (di_rnd it')" using good_seed_Next [OF less.prems] by (simp add: it'_def RandomPeriod_eq)
    have smaller: "2 * nat (- di_bytes_counter it') + (if fst (RandomPeriod (di_rnd it')) = 0 then 1 else 0)
        < 2 * nat (- di_bytes_counter it) + (if fst (RandomPeriod (di_rnd it)) = 0 then 1 else 0)"
    proof (cases "fst (RandomPeriod (di_rnd it)) = 0")
      case zero: True
      then have "fst (RandomPeriod (di_rnd it')) \<noteq> 0"
        using period_after_zero [OF good_seed_Next [OF less.prems]] by (simp add: it'_def RandomPeriod_eq)
      then show ?thesis using zero by (simp add: it'_def)
    next
      case False
      then have "0 < fst (RandomPeriod (di_rnd it))" by (simp add: RandomPeriod_eq)
      then have "nat (- di_bytes_counter it') < nat (- di_bytes_counter it)" using True by (simp add: it'_def)
      moreover have "(if fst (RandomPeriod (di_rnd it')) = 0 then 1 else 0) \<le> (1 :: nat)" by simp
      ultimately show ?thesis by linarith
    qed
    from less.hyps [OF this seed] obtain it'' where it'': "sample_reads k it' = Some it''" "same_but_samples it' it''" by blast
    have "same_but_samples it it''"
      using it''(2) seed unfolding same_but_samples_def it'_def by auto
    then show ?thesis using it''(1) True by (subst sample_reads.simps) (simp add: it'_def)
  qed
qed

section \<open>The order of the entries\<close>

text \<open>The entries of a database: sorted, and every key is an internal key.\<close>

definition db_entries :: "Comparator \<Rightarrow> entry list \<Rightarrow> bool" where
  "db_entries c xs \<longleftrightarrow>
     sorted_entries (InternalKeyComparator c) xs \<and> (\<forall>e \<in> set xs. ParseInternalKey (fst e) \<noteq> None)"

lemma ParseInternalKey_parts:
  assumes "ParseInternalKey k = Some ikey"
  shows "pk_user_key ikey = ExtractUserKey k" and "pk_sequence ikey = drop_bit 8 (key_tag k)" and "8 \<le> length k"
    and "unat (key_tag k) = 256 * unat (pk_sequence ikey) + (if pk_type ikey = kTypeValue then 1 else 0)"
proof -
  have c: "8 \<le> length k" "key_tag k AND 0xff \<le> 1"
    and ikey: "ikey = \<lparr> pk_user_key = take (length k - 8) k, pk_sequence = drop_bit 8 (key_tag k),
      pk_type = (if key_tag k AND 0xff = 0 then kTypeDeletion else kTypeValue) \<rparr>"
    using assms by (auto simp: ParseInternalKey_def Let_def split: if_splits)
  show "pk_user_key ikey = ExtractUserKey k" "pk_sequence ikey = drop_bit 8 (key_tag k)" "8 \<le> length k"
    using c ikey by (simp_all add: ExtractUserKey_def)
  have "(0xff :: 64 word) = mask 8" by (simp add: mask_eq_exp_minus_1)
  then have "key_tag k AND 0xff = take_bit 8 (key_tag k)" by (simp only: take_bit_eq_mask)
  then have "unat (key_tag k AND 0xff) = take_bit 8 (unat (key_tag k))" by (simp only: unsigned_take_bit_eq)
  then have low: "unat (key_tag k AND 0xff) = unat (key_tag k) mod 256" by (simp add: take_bit_eq_mod)
  have "unat (key_tag k AND 0xff) \<le> 1" using c(2) by (simp add: word_le_nat_alt)
  then have "unat (key_tag k AND 0xff) = (if key_tag k AND 0xff = 0 then 0 else 1)"
    by (auto simp: unat_eq_zero le_Suc_eq)
  moreover have "unat (drop_bit 8 (key_tag k)) = unat (key_tag k) div 256" by (simp add: unat_drop_bit)
  ultimately show "unat (key_tag k) = 256 * unat (pk_sequence ikey) + (if pk_type ikey = kTypeValue then 1 else 0)"
    using low ikey div_mult_mod_eq [of "unat (key_tag k)" 256] by auto
qed

context user_comparator
begin

lemma user_key_mono:
  assumes "db_entries c xs" and "i \<le> j" and "j < length xs"
  shows "cmp_Compare c (user_key (xs ! i)) (user_key (xs ! j)) \<le> 0"
proof (cases "i = j")
  case False
  then have "internal_Compare c (fst (xs ! i)) (fst (xs ! j)) < 0"
    using assms sorted_wrt_nth_less [of _ xs i j] by (auto simp: db_entries_def sorted_entries_def InternalKeyComparator_def)
  then show ?thesis unfolding internal_Compare_less using compare_refl by auto
qed (simp add: compare_refl)

lemma user_key_antisym:
  "cmp_Compare c a b \<le> 0 \<Longrightarrow> cmp_Compare c b a \<le> 0 \<Longrightarrow> a = b"
  using compare_eq [of a b] compare_swap [of b a] by auto

lemma user_key_between:
  assumes "db_entries c xs" and "i \<le> j" and "j \<le> k" and "k < length xs" and "user_key (xs ! i) = user_key (xs ! k)"
  shows "user_key (xs ! j) = user_key (xs ! k)"
  using user_key_antisym [of "user_key (xs ! j)" "user_key (xs ! k)"] user_key_mono [OF assms(1), of j k]
    user_key_mono [OF assms(1), of i j] assms by auto

lemma shown_atD:
  "shown_at sequence xs i \<Longrightarrow> i < length xs \<Longrightarrow> j < i \<Longrightarrow> visible_entry sequence (xs ! j) \<Longrightarrow> user_key (xs ! j) \<noteq> user_key (xs ! i)"
  using nth_mem [of j "take i xs"] by (auto simp: shown_at_def)

lemma not_shown:
  assumes "\<not> shown_at sequence xs i" and "i < length xs" and "visible_entry sequence (xs ! i)" and "is_value (xs ! i)"
  obtains j where "j < i" "visible_entry sequence (xs ! j)" "user_key (xs ! j) = user_key (xs ! i)"
  using assms by (auto simp: shown_at_def in_set_conv_nth)

lemma shown_at_least:
  assumes "shown_at sequence xs i" and "i < length xs" and "j < i" and "visible_entry sequence (xs ! j)" and "db_entries c xs"
  shows "cmp_Compare c (user_key (xs ! j)) (user_key (xs ! i)) < 0"
  using shown_atD [OF assms(1-4)] user_key_mono [OF assms(5), of j i] assms(2,3) compare_eq by (metis le_less less_imp_le_nat)

lemma visible_parse: "ParseInternalKey (fst e) = Some ikey \<Longrightarrow> visible_entry sequence e \<longleftrightarrow> pk_sequence ikey \<le> sequence"
  by (simp add: visible_entry_def)

text \<open>The key that is searched for lies between the entries that count for the snapshot and those that do not.\<close>

lemma before_target:
  assumes "ParseInternalKey (fst e) \<noteq> None" and sequence: "sequence \<le> kMaxSequenceNumber"
  shows "internal_Compare c (fst e) (InternalKey target sequence kValueTypeForSeek) < 0 \<longleftrightarrow>
    cmp_Compare c (user_key e) target < 0 \<or> user_key e = target \<and> \<not> visible_entry sequence e"
proof -
  obtain ikey where ikey: "ParseInternalKey (fst e) = Some ikey" using assms(1) by auto
  note tag = ParseInternalKey_parts(4) [OF ikey]
  have pack: "unat (PackSequenceAndType sequence kValueTypeForSeek) = 256 * unat sequence + 1"
    by (simp add: unat_PackSequenceAndType [OF sequence] kValueTypeForSeek_def)
  have "PackSequenceAndType sequence kValueTypeForSeek < key_tag (fst e) \<longleftrightarrow> \<not> pk_sequence ikey \<le> sequence"
    unfolding word_less_nat_alt word_le_nat_alt pack tag by auto
  then show ?thesis by (simp add: internal_Compare_less visible_parse [OF ikey])
qed

end

section \<open>Where the iterator stands\<close>

locale db_iterator = user_comparator c
  for c :: Comparator +
  fixes valid :: "slice \<Rightarrow> bool" and ops :: "'s Iterator" and view :: "entry list \<Rightarrow> 's \<Rightarrow> nat \<Rightarrow> bool"
    and sequence :: SequenceNumber
  assumes child: "iterator ops (InternalKeyComparator c) valid ys (view ys)"
    and sequence: "sequence \<le> kMaxSequenceNumber"
begin

text \<open>
  At position \<open>i\<close> of the snapshot: forwards the internal iterator is at the entry that is shown, backwards
  it is at the last entry before it that counts, and key and value are saved.
\<close>

definition entry_view :: "entry list \<Rightarrow> 's DBIter \<Rightarrow> nat \<Rightarrow> bool" where
  "entry_view xs it m \<longleftrightarrow>
     (case di_direction it of
        kForward \<Rightarrow> view xs (di_iter it) m
      | kReverse \<Rightarrow>
          di_saved_key it = user_key (xs ! m) \<and> di_saved_value it = snd (xs ! m)
          \<and> (\<exists>q. view xs (di_iter it) q \<and> (q < m \<or> q = length xs)
               \<and> (\<forall>j < m. q < j \<or> q = length xs \<longrightarrow> \<not> visible_entry sequence (xs ! j))))"

definition sound_iter :: "entry list \<Rightarrow> 's DBIter \<Rightarrow> bool" where
  "sound_iter xs it \<longleftrightarrow> db_entries c xs \<and> good_seed (di_rnd it) \<and> di_status it = StatusOK"

definition db_view :: "entry list \<Rightarrow> 's DBIter \<Rightarrow> nat \<Rightarrow> bool" where
  "db_view xs it i \<longleftrightarrow>
     sound_iter xs it \<and> i \<le> length (shown sequence xs) \<and> (\<exists>p. view xs (di_iter it) p)
     \<and> (di_valid it \<longleftrightarrow> i < length (shown sequence xs))
     \<and> (i < length (shown sequence xs) \<longrightarrow> entry_view xs it (shown sequence xs ! i))"

abbreviation count_shown :: "entry list \<Rightarrow> nat \<Rightarrow> nat" where
  "count_shown xs \<equiv> rank (shown_at sequence xs)"

lemma count_shown_all: "count_shown xs (length xs) = length (shown sequence xs)"
  by (simp add: rank_def shown_def)

lemma count_shown_le: "p \<le> length xs \<Longrightarrow> count_shown xs p \<le> length (shown sequence xs)"
  unfolding count_shown_all [symmetric] by (rule rank_mono)

lemma nth_shown:
  "p < length xs \<Longrightarrow> shown_at sequence xs p \<Longrightarrow>
     shown sequence xs ! count_shown xs p = p \<and> count_shown xs p < length (shown sequence xs)"
  unfolding shown_def by (rule nth_rank)

lemma shown_nth:
  "i < length (shown sequence xs) \<Longrightarrow>
     count_shown xs (shown sequence xs ! i) = i \<and> shown_at sequence xs (shown sequence xs ! i) \<and> shown sequence xs ! i < length xs"
  unfolding shown_def by (rule rank_nth)

lemma db_view_past:
  assumes "sound_iter xs it" and "view xs (di_iter it) p" and "\<not> di_valid it"
  shows "db_view xs it (length (shown sequence xs))"
  using assms by (auto simp: db_view_def)

lemma db_view_forward:
  assumes "sound_iter xs it" and "view xs (di_iter it) p" and "di_valid it" and "di_direction it = kForward"
    and "p < length xs" and "shown_at sequence xs p"
  shows "db_view xs it (count_shown xs p)"
  using assms nth_shown [OF assms(5,6)] by (auto simp: db_view_def entry_view_def)

text \<open>Reading the entry at hand.\<close>

lemma ParseKey_at:
  assumes "sound_iter xs it" and "view xs (di_iter it) p" and "p < length xs"
  obtains ikey it' where "ParseKey ops it = Some (Some ikey, it')" "same_but_samples it it'"
    "ParseInternalKey (fst (xs ! p)) = Some ikey"
proof -
  have key: "i_key ops (di_iter it) = fst (xs ! p)" using iterator.key_view [OF child assms(2,3)] .
  obtain ikey where ikey: "ParseInternalKey (fst (xs ! p)) = Some ikey"
    using assms(1,3) by (fastforce simp: sound_iter_def db_entries_def)
  let ?n = "int (length (fst (xs ! p)) + length (i_value ops (di_iter it)))"
  have "good_seed (di_rnd (it\<lparr> di_bytes_counter := di_bytes_counter it - ?n \<rparr>))" using assms(1) by (simp add: sound_iter_def)
  from sample_reads_returns [OF this, of "fst (xs ! p)"] obtain it' where it':
    "sample_reads (fst (xs ! p)) (it\<lparr> di_bytes_counter := di_bytes_counter it - ?n \<rparr>) = Some it'"
    "same_but_samples (it\<lparr> di_bytes_counter := di_bytes_counter it - ?n \<rparr>) it'" by blast
  have "same_but_samples it it'" using it'(2) by (auto simp: same_but_samples_def)
  moreover have "ParseKey ops it = Some (Some ikey, it')" using it'(1) ikey by (simp add: ParseKey_def key Let_def)
  ultimately show ?thesis using that ikey by blast
qed

lemma same_but_samples_simps:
  assumes "same_but_samples it it'"
  shows "di_iter it' = di_iter it" "di_saved_key it' = di_saved_key it" "di_saved_value it' = di_saved_value it"
    "di_direction it' = di_direction it" "di_valid it' = di_valid it" "sound_iter xs it \<Longrightarrow> sound_iter xs it'"
  using assms by (auto simp: same_but_samples_def sound_iter_def)

lemma sound_iter_update [simp]:
  "sound_iter xs (it\<lparr> di_saved_key := k \<rparr>) = sound_iter xs it" "sound_iter xs (it\<lparr> di_saved_value := v \<rparr>) = sound_iter xs it"
  "sound_iter xs (it\<lparr> di_direction := d \<rparr>) = sound_iter xs it" "sound_iter xs (it\<lparr> di_valid := b \<rparr>) = sound_iter xs it"
  "sound_iter xs (it\<lparr> di_iter := s \<rparr>) = sound_iter xs it"
  by (simp_all add: sound_iter_def)

section \<open>Forwards\<close>

text \<open>
  From position \<open>p\<close> on: the entries that are shown from \<open>t\<close> on are not skipped, and every other value that
  counts is, or an entry between with the same user key will see to it.
\<close>

definition skips_rest :: "entry list \<Rightarrow> nat \<Rightarrow> nat \<Rightarrow> bool \<Rightarrow> slice \<Rightarrow> bool" where
  "skips_rest xs t p skipping skip \<longleftrightarrow>
     (\<forall>j. p \<le> j \<and> j < length xs \<and> visible_entry sequence (xs ! j) \<and> skipping \<longrightarrow> cmp_Compare c skip (user_key (xs ! j)) \<le> 0)
     \<and> (\<forall>j. p \<le> j \<and> t \<le> j \<and> j < length xs \<and> shown_at sequence xs j \<and> skipping \<longrightarrow> user_key (xs ! j) \<noteq> skip)
     \<and> (\<forall>j. p \<le> j \<and> j < length xs \<and> visible_entry sequence (xs ! j) \<and> is_value (xs ! j) \<and> (shown_at sequence xs j \<longrightarrow> j < t) \<longrightarrow>
          skipping \<and> user_key (xs ! j) = skip \<or> (\<exists>i. p \<le> i \<and> i < j \<and> visible_entry sequence (xs ! i) \<and> user_key (xs ! i) = user_key (xs ! j)))"

lemma is_value_parse: "ParseInternalKey (fst e) = Some ikey \<Longrightarrow> is_value e \<longleftrightarrow> pk_type ikey = kTypeValue"
  by (simp add: is_value_def)

text \<open>One turn: the entry is the next one shown, or the description holds for the next position.\<close>

lemma skips_yield:
  assumes "skips_rest xs t p skipping skip" and "p < length xs" and "db_entries c xs"
    and "visible_entry sequence (xs ! p)" and "is_value (xs ! p)" and "\<not> (skipping \<and> cmp_Compare c (user_key (xs ! p)) skip \<le> 0)"
  shows "shown_at sequence xs p \<and> t \<le> p"
proof (rule ccontr)
  assume "\<not> (shown_at sequence xs p \<and> t \<le> p)"
  then have "skipping \<and> user_key (xs ! p) = skip" using assms(1,2,4,5) unfolding skips_rest_def by fastforce
  then show False using assms(6) by (simp add: compare_refl)
qed

lemma skips_turn:
  assumes "skips_rest xs t p skipping skip" and "p < length xs" and "db_entries c xs"
    and "\<not> (visible_entry sequence (xs ! p) \<and> is_value (xs ! p) \<and> \<not> (skipping \<and> cmp_Compare c (user_key (xs ! p)) skip \<le> 0))"
    and "hid \<longleftrightarrow> visible_entry sequence (xs ! p) \<and> \<not> is_value (xs ! p)"
  shows "skips_rest xs t (Suc p) (skipping \<or> hid) (if hid then user_key (xs ! p) else skip)"
    and "\<not> (shown_at sequence xs p \<and> t \<le> p)"
proof -
  note order = user_key_mono [OF assms(3)]
  have A: "cmp_Compare c skip (user_key (xs ! j)) \<le> 0" if "p \<le> j" "j < length xs" "visible_entry sequence (xs ! j)" skipping for j
    using assms(1) that unfolding skips_rest_def by blast
  have B: "user_key (xs ! j) \<noteq> skip" if "p \<le> j" "t \<le> j" "j < length xs" "shown_at sequence xs j" skipping for j
    using assms(1) that unfolding skips_rest_def by blast
  have C: "skipping \<and> user_key (xs ! j) = skip \<or> (\<exists>i. p \<le> i \<and> i < j \<and> visible_entry sequence (xs ! i) \<and> user_key (xs ! i) = user_key (xs ! j))"
    if "p \<le> j" "j < length xs" "visible_entry sequence (xs ! j)" "is_value (xs ! j)" "shown_at sequence xs j \<longrightarrow> j < t" for j
    using assms(1) that unfolding skips_rest_def by blast
  show not_shown: "\<not> (shown_at sequence xs p \<and> t \<le> p)"
    using assms(4) B [of p] A [of p] assms(2) user_key_antisym [of skip "user_key (xs ! p)"] by (auto simp: shown_at_def)
  have hidden: "user_key (xs ! p) = skip" if "skipping" "visible_entry sequence (xs ! p)" "is_value (xs ! p)"
    using that assms(2,4) A [of p] user_key_antisym [of skip "user_key (xs ! p)"] by auto
  show "skips_rest xs t (Suc p) (skipping \<or> hid) (if hid then user_key (xs ! p) else skip)"
  proof (cases hid)
    case True
    then have v: "visible_entry sequence (xs ! p)" using assms(5) by simp
    show ?thesis unfolding skips_rest_def
    proof (intro conjI allI impI)
      fix j
      show "cmp_Compare c (if hid then user_key (xs ! p) else skip) (user_key (xs ! j)) \<le> 0"
        if "Suc p \<le> j \<and> j < length xs \<and> visible_entry sequence (xs ! j) \<and> (skipping \<or> hid)"
        using True that order [of p j] by simp
      show "user_key (xs ! j) \<noteq> (if hid then user_key (xs ! p) else skip)"
        if "Suc p \<le> j \<and> t \<le> j \<and> j < length xs \<and> shown_at sequence xs j \<and> (skipping \<or> hid)"
        using True that shown_atD [of sequence xs j p] v by auto
      assume j: "Suc p \<le> j \<and> j < length xs \<and> visible_entry sequence (xs ! j) \<and> is_value (xs ! j) \<and> (shown_at sequence xs j \<longrightarrow> j < t)"
      show "(skipping \<or> hid) \<and> user_key (xs ! j) = (if hid then user_key (xs ! p) else skip)
        \<or> (\<exists>i. Suc p \<le> i \<and> i < j \<and> visible_entry sequence (xs ! i) \<and> user_key (xs ! i) = user_key (xs ! j))"
      proof (cases "skipping \<and> user_key (xs ! j) = skip")
        case s: True
        then have "cmp_Compare c (user_key (xs ! j)) (user_key (xs ! p)) \<le> 0" using A [of p] v assms(2) by simp
        then have "user_key (xs ! j) = user_key (xs ! p)" using order [of p j] j user_key_antisym by simp
        then show ?thesis using True by simp
      next
        case False
        then obtain i where i: "p \<le> i" "i < j" "visible_entry sequence (xs ! i)" "user_key (xs ! i) = user_key (xs ! j)"
          using C [of j] j by auto
        then show ?thesis using True by (cases "i = p") (auto simp: Suc_le_eq)
      qed
    qed
  next
    case False
    show ?thesis unfolding skips_rest_def
    proof (intro conjI allI impI)
      fix j
      show "cmp_Compare c (if hid then user_key (xs ! p) else skip) (user_key (xs ! j)) \<le> 0"
        if "Suc p \<le> j \<and> j < length xs \<and> visible_entry sequence (xs ! j) \<and> (skipping \<or> hid)"
        using False that A [of j] by simp
      show "user_key (xs ! j) \<noteq> (if hid then user_key (xs ! p) else skip)"
        if "Suc p \<le> j \<and> t \<le> j \<and> j < length xs \<and> shown_at sequence xs j \<and> (skipping \<or> hid)"
        using False that B [of j] by simp
      assume j: "Suc p \<le> j \<and> j < length xs \<and> visible_entry sequence (xs ! j) \<and> is_value (xs ! j) \<and> (shown_at sequence xs j \<longrightarrow> j < t)"
      show "(skipping \<or> hid) \<and> user_key (xs ! j) = (if hid then user_key (xs ! p) else skip)
        \<or> (\<exists>i. Suc p \<le> i \<and> i < j \<and> visible_entry sequence (xs ! i) \<and> user_key (xs ! i) = user_key (xs ! j))"
      proof (cases "skipping \<and> user_key (xs ! j) = skip")
        case True
        then show ?thesis using False by simp
      next
        case no: False
        then obtain i where i: "p \<le> i" "i < j" "visible_entry sequence (xs ! i)" "user_key (xs ! i) = user_key (xs ! j)"
          using C [of j] j by auto
        have "i \<noteq> p"
        proof
          assume "i = p"
          then have v: "visible_entry sequence (xs ! p)" "is_value (xs ! p)" using i(3) False assms(5) by auto
          then have skipping using assms(4) by auto
          then show False using hidden v i(4) \<open>i = p\<close> no by simp
        qed
        then show ?thesis using i by (intro disjI2 exI [of _ i]) simp
      qed
    qed
  qed
qed

text \<open>The search ends at the first entry that is shown from \<open>p\<close> and \<open>t\<close> on.\<close>

lemma FindNextUserEntry_at:
  assumes "sound_iter xs it" and "view xs (di_iter it) p" and "p < length xs" and "di_direction it = kForward"
    and "skips_rest xs t p skipping (di_saved_key it)" and "t \<le> length xs"
  shows "\<exists>it'. FindNextUserEntry c sequence ops skipping it = Some it' \<and> db_view xs it' (count_shown xs (max p t))"
  using assms
proof (induction "length xs - p" arbitrary: p it skipping)
  case (Suc n)
  have db: "db_entries c xs" using Suc.prems(1) by (simp add: sound_iter_def)
  obtain ikey it' where r: "ParseKey ops it = Some (Some ikey, it')" "same_but_samples it it'"
    "ParseInternalKey (fst (xs ! p)) = Some ikey" by (rule ParseKey_at [OF Suc.prems(1-3)])
  note same = same_but_samples_simps [OF r(2)]
  note parts = ParseInternalKey_parts [OF r(3)]
  let ?yields = "visible_entry sequence (xs ! p) \<and> is_value (xs ! p)
    \<and> \<not> (skipping \<and> cmp_Compare c (user_key (xs ! p)) (di_saved_key it) \<le> 0)"
  let ?hides = "visible_entry sequence (xs ! p) \<and> \<not> is_value (xs ! p)"
  have yields: "yields c sequence skipping (di_saved_key it) (Some ikey) \<longleftrightarrow> ?yields"
    using parts by (simp add: yields_def visible_parse [OF r(3)] is_value_parse [OF r(3)])
  have hides: "hides sequence (Some ikey) \<longleftrightarrow> ?hides"
    by (cases "pk_type ikey") (simp_all add: hides_def visible_parse [OF r(3)] is_value_parse [OF r(3)])
  show ?case
  proof (cases ?yields)
    case True
    then have shown: "shown_at sequence xs p \<and> t \<le> p" using skips_yield [OF Suc.prems(5,3) db] by blast
    have "FindNextUserEntry c sequence ops skipping it = Some (it'\<lparr> di_valid := True, di_saved_key := [] \<rparr>)"
      using r(1) yields True same(2) by (simp add: FindNextUserEntry.simps [of c sequence ops skipping it])
    moreover have "db_view xs (it'\<lparr> di_valid := True, di_saved_key := [] \<rparr>) (count_shown xs p)"
      using shown Suc.prems same by (intro db_view_forward) simp_all
    moreover have "max p t = p" using shown by simp
    ultimately show ?thesis by metis
  next
    case False
    let ?skip = "if ?hides then user_key (xs ! p) else di_saved_key it"
    obtain s where s: "i_Next ops (di_iter it) = Some s" "view xs s (p + 1)"
      using iterator.next_view [OF child Suc.prems(2,3)] by blast
    define it2 where "it2 = it'\<lparr> di_saved_key := ?skip, di_iter := s \<rparr>"
    have rest: "skips_rest xs t (Suc p) (skipping \<or> ?hides) ?skip" and no: "\<not> (shown_at sequence xs p \<and> t \<le> p)"
      using skips_turn [OF Suc.prems(5,3) db False refl] by blast+
    have "max p t \<le> max (Suc p) t" "\<And>j. max p t \<le> j \<Longrightarrow> j < max (Suc p) t \<Longrightarrow> j = p \<and> t \<le> p" by linarith+
    then have rank: "count_shown xs (max (Suc p) t) = count_shown xs (max p t)"
      using rank_skip [of "max p t" "max (Suc p) t" "shown_at sequence xs"] no by blast
    have no_yield: "\<not> yields c sequence skipping (di_saved_key it) (Some ikey)" using yields False by blast
    have step: "FindNextUserEntry c sequence ops skipping it =
        (if i_Valid ops s then FindNextUserEntry c sequence ops (skipping \<or> ?hides) it2
         else Some (it2\<lparr> di_saved_key := [], di_valid := False \<rparr>))"
      unfolding it2_def hides [symmetric] using r(1) no_yield same(1,2) s(1) parts(1)
      by (simp add: FindNextUserEntry.simps [of c sequence ops skipping it] Let_def)
    have sound2: "sound_iter xs it2" using same(6) Suc.prems(1) by (simp add: it2_def)
    show ?thesis
    proof (cases "Suc p < length xs")
      case True
      have "\<exists>it''. FindNextUserEntry c sequence ops (skipping \<or> ?hides) it2 = Some it'' \<and> db_view xs it'' (count_shown xs (max (Suc p) t))"
      proof (rule Suc.hyps(1))
        show "n = length xs - Suc p" using Suc.hyps(2) by simp
        show "skips_rest xs t (Suc p) (skipping \<or> ?hides) (di_saved_key it2)" using rest by (simp add: it2_def)
        show "di_direction it2 = kForward" using Suc.prems(4) same(4) by (simp add: it2_def)
      qed (use sound2 s(2) True Suc.prems(6) in \<open>simp_all add: it2_def\<close>)
      moreover have "i_Valid ops s" using iterator.valid_view [OF child s(2)] True by simp
      ultimately show ?thesis using step rank by simp
    next
      case past: False
      then have len: "Suc p = length xs" using Suc.prems(3) by simp
      have "max (Suc p) t = length xs" using len Suc.prems(6) by simp
      then have "count_shown xs (max p t) = length (shown sequence xs)" using rank count_shown_all by simp
      moreover have "\<not> i_Valid ops s" using iterator.valid_view [OF child s(2)] past by simp
      moreover have "db_view xs (it2\<lparr> di_saved_key := [], di_valid := False \<rparr>) (length (shown sequence xs))"
        using sound2 s(2) by (intro db_view_past [where p = "p + 1"]) (simp_all add: it2_def)
      ultimately show ?thesis using step by simp
    qed
  qed
qed simp

lemma skips_nothing:
  assumes "db_entries c xs" and "\<And>i j. i < p \<Longrightarrow> p \<le> j \<Longrightarrow> j < length xs \<Longrightarrow> visible_entry sequence (xs ! i) \<Longrightarrow>
      user_key (xs ! i) \<noteq> user_key (xs ! j)"
  shows "skips_rest xs 0 p False skip"
  unfolding skips_rest_def
proof (intro conjI allI impI)
  fix j
  assume j: "p \<le> j \<and> j < length xs \<and> visible_entry sequence (xs ! j) \<and> is_value (xs ! j) \<and> (shown_at sequence xs j \<longrightarrow> j < 0)"
  then obtain i where i: "i < j" "visible_entry sequence (xs ! i)" "user_key (xs ! i) = user_key (xs ! j)"
    using not_shown [of sequence xs j] by auto
  then have "p \<le> i" using assms(2) [of i j] j by (metis not_le_imp_less)
  then show "False \<and> user_key (xs ! j) = skip \<or> (\<exists>i. p \<le> i \<and> i < j \<and> visible_entry sequence (xs ! i) \<and> user_key (xs ! i) = user_key (xs ! j))"
    using i by blast
qed auto

lemma skips_key:
  assumes "db_entries c xs" and "m < length xs" and "shown_at sequence xs m" and "p \<le> m"
    and "\<And>j. p \<le> j \<Longrightarrow> j < m \<Longrightarrow> \<not> visible_entry sequence (xs ! j)"
  shows "skips_rest xs (Suc m) p True (user_key (xs ! m))"
  unfolding skips_rest_def
proof (intro conjI allI impI)
  fix j
  have behind: "m \<le> j" if "p \<le> j" "visible_entry sequence (xs ! j)" using that assms(5) [of j] by (metis not_le_imp_less)
  show "cmp_Compare c (user_key (xs ! m)) (user_key (xs ! j)) \<le> 0" if "p \<le> j \<and> j < length xs \<and> visible_entry sequence (xs ! j) \<and> True"
    using that behind user_key_mono [OF assms(1)] by simp
  show "user_key (xs ! j) \<noteq> user_key (xs ! m)" if "p \<le> j \<and> Suc m \<le> j \<and> j < length xs \<and> shown_at sequence xs j \<and> True"
    using that shown_atD [of sequence xs j m] assms(3) by (auto simp: shown_at_def)
  assume j: "p \<le> j \<and> j < length xs \<and> visible_entry sequence (xs ! j) \<and> is_value (xs ! j) \<and> (shown_at sequence xs j \<longrightarrow> j < Suc m)"
  show "True \<and> user_key (xs ! j) = user_key (xs ! m)
      \<or> (\<exists>i. p \<le> i \<and> i < j \<and> visible_entry sequence (xs ! i) \<and> user_key (xs ! i) = user_key (xs ! j))"
  proof (cases "j = m")
    case False
    then have mj: "m < j" using behind j by (simp add: le_less)
    then obtain i where i: "i < j" "visible_entry sequence (xs ! i)" "user_key (xs ! i) = user_key (xs ! j)"
      using not_shown [of sequence xs j] j by auto
    have "\<not> i < m"
    proof
      assume "i < m"
      then have "user_key (xs ! m) = user_key (xs ! i)"
        using user_key_between [OF assms(1), of i m j] i(3) mj j by simp
      then show False using shown_atD [OF assms(3,2) \<open>i < m\<close> i(2)] by simp
    qed
    then show ?thesis using i assms(4) by (intro disjI2 exI [of _ i]) simp
  qed simp
qed

lemma db_next:
  assumes "db_view xs it i" and "i < length (shown sequence xs)"
  shows "\<exists>it'. di_Next c sequence ops it = Some it' \<and> db_view xs it' (i + 1)"
proof -
  define m where "m = shown sequence xs ! i"
  have m: "count_shown xs m = i" "shown_at sequence xs m" "m < length xs" using shown_nth [OF assms(2)] by (simp_all add: m_def)
  have rank: "count_shown xs (Suc m) = i + 1" using m by (simp add: rank_Suc)
  have sound: "sound_iter xs it" and at: "entry_view xs it m" using assms by (simp_all add: db_view_def m_def)
  have db: "db_entries c xs" using sound by (simp add: sound_iter_def)
  show ?thesis
  proof (cases "di_direction it")
    case kForward
    have v: "view xs (di_iter it) m" using at kForward by (simp add: entry_view_def)
    have "i_key ops (di_iter it) = fst (xs ! m)" using iterator.key_view [OF child v m(3)] .
    then show ?thesis
      using FindNextUserEntry_at [of xs "it\<lparr> di_saved_key := user_key (xs ! m) \<rparr>" m "Suc m" True] sound v m(3) kForward
        skips_key [OF db m(3,2) order_refl] rank
      by (simp add: di_Next_def)
  next
    case kReverse
    then obtain q where q: "view xs (di_iter it) q" "q < m \<or> q = length xs"
      and clear: "\<forall>j < m. q < j \<or> q = length xs \<longrightarrow> \<not> visible_entry sequence (xs ! j)"
      and key: "di_saved_key it = user_key (xs ! m)"
      using at by (auto simp: entry_view_def)
    define p where "p = (if q < length xs then Suc q else 0)"
    obtain s where s: "(if \<not> i_Valid ops (di_iter it) then i_SeekToFirst ops (di_iter it) else i_Next ops (di_iter it)) = Some s"
      "view xs s p"
      using iterator.first_view [OF child q(1)] iterator.next_view [OF child q(1)] iterator.valid_view [OF child q(1)]
      unfolding p_def by (cases "q < length xs") auto
    have pm: "p \<le> m" using q(2) m(3) by (auto simp: p_def)
    then have "i_Valid ops s" using iterator.valid_view [OF child s(2)] m(3) by simp
    moreover have "skips_rest xs (Suc m) p True (user_key (xs ! m))"
      using clear q(2) m(3) by (intro skips_key [OF db m(3,2) pm]) (auto simp: p_def split: if_splits)
    ultimately show ?thesis
      using FindNextUserEntry_at [of xs "it\<lparr> di_direction := kForward, di_iter := s \<rparr>" p "Suc m" True] sound s pm m(3) key
        kReverse rank
      by (cases "i_Valid ops (di_iter it)") (simp_all add: di_Next_def Let_def max_def)
  qed
qed

lemma db_find_from:
  assumes "sound_iter xs it" and "view xs (di_iter it) p" and "p \<le> length xs" and "di_direction it = kForward"
    and "\<And>i j. i < p \<Longrightarrow> p \<le> j \<Longrightarrow> j < length xs \<Longrightarrow> visible_entry sequence (xs ! i) \<Longrightarrow> user_key (xs ! i) \<noteq> user_key (xs ! j)"
  shows "\<exists>it'. (if i_Valid ops (di_iter it) then FindNextUserEntry c sequence ops False it else Some (it\<lparr> di_valid := False \<rparr>)) = Some it'
    \<and> db_view xs it' (count_shown xs p)"
proof (cases "p < length xs")
  case True
  have db: "db_entries c xs" using assms(1) by (simp add: sound_iter_def)
  show ?thesis
    using FindNextUserEntry_at [OF assms(1,2) True assms(4) skips_nothing [OF db assms(5)]] True
      iterator.valid_view [OF child assms(2)] by simp
next
  case False
  then have "p = length xs" using assms(3) by simp
  then show ?thesis
    using db_view_past [of xs "it\<lparr> di_valid := False \<rparr>" p] assms(1,2) iterator.valid_view [OF child assms(2)]
    by (simp add: count_shown_all)
qed

lemma db_first:
  assumes "db_view xs it i"
  shows "\<exists>it'. di_SeekToFirst c sequence ops it = Some it' \<and> db_view xs it' 0"
proof -
  obtain p where "view xs (di_iter it) p" using assms by (auto simp: db_view_def)
  then obtain s where s: "i_SeekToFirst ops (di_iter it) = Some s" "view xs s 0" using iterator.first_view [OF child] by blast
  have "sound_iter xs it" using assms by (simp add: db_view_def)
  then show ?thesis
    using db_find_from [of xs "it\<lparr> di_direction := kForward, di_saved_value := [], di_iter := s \<rparr>" 0] s
    by (simp add: di_SeekToFirst_def Let_def)
qed

lemma db_seek:
  assumes "db_view xs it i" and "valid (InternalKey target sequence kValueTypeForSeek)"
  shows "\<exists>it'. di_Seek c sequence ops target it = Some it' \<and> db_view xs it' (lower_bound c target (snapshot sequence xs))"
proof -
  let ?k = "InternalKey target sequence kValueTypeForSeek"
  define p where "p = lower_bound (InternalKeyComparator c) ?k xs"
  have sound: "sound_iter xs it" and db: "db_entries c xs" using assms(1) by (simp_all add: db_view_def sound_iter_def)
  have ple: "p \<le> length xs" by (simp add: p_def lower_bound_le)
  have parse: "ParseInternalKey (fst (xs ! j)) \<noteq> None" if "j < length xs" for j
    using db that by (auto simp: db_entries_def)
  have cmp: "cmp_Compare (InternalKeyComparator c) = internal_Compare c" by (simp add: InternalKeyComparator_def)
  have below: "cmp_Compare c (user_key (xs ! j)) target < 0 \<or> user_key (xs ! j) = target \<and> \<not> visible_entry sequence (xs ! j)" if "j < p" for j
    using below_lower_bound [of j "InternalKeyComparator c" ?k xs] that ple before_target [OF parse [of j] sequence, of target]
    by (simp add: p_def [symmetric] cmp)
  have at: "\<not> cmp_Compare c (user_key (xs ! p)) target < 0" if "p < length xs"
    using at_lower_bound [of "InternalKeyComparator c" ?k xs] that before_target [OF parse [OF that] sequence, of target]
    by (simp add: p_def [symmetric] cmp)
  have above: "\<not> cmp_Compare c (user_key (xs ! j)) target < 0" if "p \<le> j" "j < length xs" for j
    using at user_key_mono [OF db that] that compare_le_trans [of "user_key (xs ! p)" "user_key (xs ! j)" target] by auto
  obtain q where "view xs (di_iter it) q" using assms(1) by (auto simp: db_view_def)
  then obtain s where s: "i_Seek ops ?k (di_iter it) = Some s" "view xs s p"
    using iterator.seek_view [OF child, of xs "di_iter it" q ?k] assms(2) by (auto simp: p_def)
  have apart: "user_key (xs ! a) \<noteq> user_key (xs ! b)" if "a < p" "p \<le> b" "b < length xs" "visible_entry sequence (xs ! a)" for a b
    using below [OF that(1)] above [OF that(2,3)] that(4) by auto
  have "lower_bound c target (snapshot sequence xs) = count_shown xs p"
  proof (rule lower_bound_eqI)
    show "count_shown xs p \<le> length (snapshot sequence xs)" using count_shown_le [OF ple] by (simp add: snapshot_def)
    fix a
    assume a: "a < count_shown xs p"
    then have al: "a < length (shown sequence xs)" using count_shown_le [OF ple] by simp
    note sa = shown_nth [OF al]
    have "shown sequence xs ! a < p"
      using sa a rank_mono [of p "shown sequence xs ! a" "shown_at sequence xs"] by (metis leD le_less_linear)
    then show "cmp_Compare c (fst (snapshot sequence xs ! a)) target < 0"
      using below [of "shown sequence xs ! a"] sa al by (auto simp: snapshot_def shown_at_def)
  next
    assume "count_shown xs p < length (snapshot sequence xs)"
    then have al: "count_shown xs p < length (shown sequence xs)" by (simp add: snapshot_def)
    note sa = shown_nth [OF al]
    have "p \<le> shown sequence xs ! count_shown xs p"
    proof (rule ccontr)
      assume "\<not> p \<le> shown sequence xs ! count_shown xs p"
      then show False using rank_less [of "shown sequence xs ! count_shown xs p" p "shown_at sequence xs"] sa by simp
    qed
    then show "\<not> cmp_Compare c (fst (snapshot sequence xs ! count_shown xs p)) target < 0"
      using above sa al by (simp add: snapshot_def)
  qed
  then show ?thesis
    using db_find_from [of xs "it\<lparr> di_direction := kForward, di_saved_value := [], di_saved_key := ?k, di_iter := s \<rparr>" p]
      s sound ple apart by (simp add: di_Seek_def Let_def)
qed

section \<open>Backwards\<close>

text \<open>
  Entry \<open>m\<close> is the value that was saved, and no entry between the position and \<open>m\<close> counts; or, if a
  deletion was seen last or nothing, no entry up to \<open>p0\<close> that was passed is shown.
\<close>

definition saved_entry :: "entry list \<Rightarrow> nat \<Rightarrow> nat \<Rightarrow> ValueType \<Rightarrow> 's DBIter \<Rightarrow> bool" where
  "saved_entry xs p0 p vt it \<longleftrightarrow>
     (case vt of
        kTypeDeletion \<Rightarrow> \<forall>j. p \<le> j \<and> j \<le> p0 \<longrightarrow> \<not> shown_at sequence xs j
      | kTypeValue \<Rightarrow>
          \<exists>m. p \<le> m \<and> m \<le> p0 \<and> visible_entry sequence (xs ! m) \<and> is_value (xs ! m)
            \<and> di_saved_key it = user_key (xs ! m) \<and> di_saved_value it = snd (xs ! m)
            \<and> (\<forall>j. p \<le> j \<and> j < m \<longrightarrow> \<not> visible_entry sequence (xs ! j)) \<and> (\<forall>j. m < j \<and> j \<le> p0 \<longrightarrow> \<not> shown_at sequence xs j))"

lemma saved_entry_cong:
  "di_saved_key it' = di_saved_key it \<Longrightarrow> di_saved_value it' = di_saved_value it \<Longrightarrow>
     saved_entry xs p0 p vt it' = saved_entry xs p0 p vt it"
  by (cases vt) (simp_all add: saved_entry_def)

text \<open>The result of the loop: nothing is shown up to \<open>p0\<close>, or the last entry that is.\<close>

definition found_entry :: "entry list \<Rightarrow> nat \<Rightarrow> ValueType \<times> 's DBIter \<Rightarrow> bool" where
  "found_entry xs p0 r \<longleftrightarrow>
     sound_iter xs (snd r) \<and> di_direction (snd r) = kReverse \<and> (\<exists>p. view xs (di_iter (snd r)) p)
     \<and> (if fst r = kTypeDeletion then \<forall>j \<le> p0. \<not> shown_at sequence xs j
        else \<exists>m \<le> p0. shown_at sequence xs m \<and> entry_view xs (snd r) m \<and> (\<forall>j. m < j \<and> j \<le> p0 \<longrightarrow> \<not> shown_at sequence xs j))"

lemma save_entry_keeps [simp]:
  "di_iter (save_entry ops vt it) = di_iter it" "di_direction (save_entry ops vt it) = di_direction it"
  "sound_iter xs (save_entry ops vt it) = sound_iter xs it"
  by (cases vt; simp add: save_entry_def sound_iter_def)+

lemma saved_turn:
  assumes "saved_entry xs p0 (Suc p) vt it" and "p \<le> p0" and "p0 < length xs" and "db_entries c xs"
    and "ParseInternalKey (fst (xs ! p)) = Some ikey" and "view xs (di_iter it) p" and "i_key ops (di_iter it) = fst (xs ! p)"
    and "\<not> (visible_entry sequence (xs ! p) \<and> vt \<noteq> kTypeDeletion \<and> cmp_Compare c (user_key (xs ! p)) (di_saved_key it) < 0)"
    and "vt' = (if visible_entry sequence (xs ! p) then pk_type ikey else vt)"
    and "it' = (if visible_entry sequence (xs ! p) then save_entry ops vt' it else it)"
  shows "saved_entry xs p0 p vt' it'"
proof (cases "visible_entry sequence (xs ! p)")
  case False
  then have no: "\<not> shown_at sequence xs p" by (simp add: shown_at_def)
  have split: "p \<le> j \<longleftrightarrow> j = p \<or> Suc p \<le> j" for j by auto
  show ?thesis
  proof (cases vt)
    case kTypeDeletion
    then show ?thesis using assms(1,9,10) False no unfolding saved_entry_def split by auto
  next
    case kTypeValue
    then obtain m where m: "Suc p \<le> m" "m \<le> p0" "visible_entry sequence (xs ! m)" "is_value (xs ! m)"
      "di_saved_key it = user_key (xs ! m)" "di_saved_value it = snd (xs ! m)"
      "\<forall>j. Suc p \<le> j \<and> j < m \<longrightarrow> \<not> visible_entry sequence (xs ! j)" "\<forall>j. m < j \<and> j \<le> p0 \<longrightarrow> \<not> shown_at sequence xs j"
      using assms(1) by (auto simp: saved_entry_def)
    have "\<forall>j. p \<le> j \<and> j < m \<longrightarrow> \<not> visible_entry sequence (xs ! j)" using m(7) False unfolding split by auto
    moreover have "p \<le> m" using m(1) by simp
    ultimately show ?thesis
      using m(2-6,8) assms(9,10) False kTypeValue by (auto simp: saved_entry_def intro!: exI [of _ m])
  qed
next
  case True
  have later: "\<not> shown_at sequence xs j" if "p < j" "j \<le> p0" for j
  proof (cases vt)
    case kTypeDeletion
    then show ?thesis using assms(1) that by (auto simp: saved_entry_def)
  next
    case kTypeValue
    then obtain m where m: "Suc p \<le> m" "m \<le> p0" "di_saved_key it = user_key (xs ! m)"
      "\<forall>j. Suc p \<le> j \<and> j < m \<longrightarrow> \<not> visible_entry sequence (xs ! j)" "\<forall>j. m < j \<and> j \<le> p0 \<longrightarrow> \<not> shown_at sequence xs j"
      using assms(1) by (auto simp: saved_entry_def)
    have "\<not> cmp_Compare c (user_key (xs ! p)) (user_key (xs ! m)) < 0" using assms(8) True kTypeValue m(3) by simp
    moreover have "cmp_Compare c (user_key (xs ! p)) (user_key (xs ! m)) \<le> 0"
      using m(1,2) assms(3) by (intro user_key_mono [OF assms(4)]) simp_all
    ultimately have "user_key (xs ! p) = user_key (xs ! m)"
      using compare_eq [of "user_key (xs ! p)" "user_key (xs ! m)"] by simp
    then have "\<not> shown_at sequence xs m" using shown_atD [of sequence xs m p] True m(1,2) assms(3) by auto
    then show ?thesis using m(4,5) that by (cases "j < m"; cases "j = m") (auto simp: shown_at_def)
  qed
  have its_value: "snd (xs ! p) = i_value ops (di_iter it)"
    using iterator.value_view [OF child assms(6)] assms(2,3) by simp
  show ?thesis
  proof (cases "pk_type ikey")
    case kTypeDeletion
    then have "\<not> shown_at sequence xs p" by (simp add: shown_at_def is_value_parse [OF assms(5)])
    then have "\<forall>j. p \<le> j \<and> j \<le> p0 \<longrightarrow> \<not> shown_at sequence xs j" using later by (metis le_less)
    then show ?thesis using True assms(9) kTypeDeletion by (simp add: saved_entry_def)
  next
    case kTypeValue
    then have "is_value (xs ! p)" by (simp add: is_value_parse [OF assms(5)])
    then show ?thesis
      using True later assms(2,7,9,10) kTypeValue its_value by (auto simp: saved_entry_def save_entry_def intro!: exI [of _ p])
  qed
qed

lemma prev_loop_at:
  assumes "sound_iter xs it" and "view xs (di_iter it) p" and "p \<le> p0" and "p0 < length xs" and "di_direction it = kReverse"
    and "saved_entry xs p0 (Suc p) vt it"
  shows "\<exists>r. prev_loop c sequence ops vt it = Some r \<and> found_entry xs p0 r"
  using assms
proof (induction p arbitrary: it vt rule: less_induct)
  case (less p)
  have db: "db_entries c xs" using less.prems(1) by (simp add: sound_iter_def)
  have p: "p < length xs" using less.prems(3,4) by simp
  obtain ikey it1 where r: "ParseKey ops it = Some (Some ikey, it1)" "same_but_samples it it1"
    "ParseInternalKey (fst (xs ! p)) = Some ikey" by (rule ParseKey_at [OF less.prems(1,2) p])
  note same = same_but_samples_simps [OF r(2)]
  note parts = ParseInternalKey_parts [OF r(3)]
  have key: "i_key ops (di_iter it1) = fst (xs ! p)" using iterator.key_view [OF child less.prems(2) p] same(1) by simp
  have saved1: "saved_entry xs p0 (Suc p) vt it1" using less.prems(6) saved_entry_cong [OF same(2,3)] by simp
  let ?stop = "visible_entry sequence (xs ! p) \<and> vt \<noteq> kTypeDeletion \<and> cmp_Compare c (user_key (xs ! p)) (di_saved_key it1) < 0"
  let ?vt = "if visible_entry sequence (xs ! p) then pk_type ikey else vt"
  let ?it = "if visible_entry sequence (xs ! p) then save_entry ops ?vt it1 else it1"
  show ?case
  proof (cases ?stop)
    case True
    then have res: "prev_loop c sequence ops vt it = Some (vt, it1)"
      using r(1) parts(1) by (simp add: prev_loop.simps [of c sequence ops vt it] visible_parse [OF r(3)])
    from True have vt: "vt = kTypeValue" by (cases vt) simp_all
    then obtain m where m: "Suc p \<le> m" "m \<le> p0" "visible_entry sequence (xs ! m)" "is_value (xs ! m)"
      "di_saved_key it1 = user_key (xs ! m)" "di_saved_value it1 = snd (xs ! m)"
      "\<forall>j. Suc p \<le> j \<and> j < m \<longrightarrow> \<not> visible_entry sequence (xs ! j)" "\<forall>j. m < j \<and> j \<le> p0 \<longrightarrow> \<not> shown_at sequence xs j"
      using saved1 by (auto simp: saved_entry_def)
    have "shown_at sequence xs m"
    proof (rule ccontr)
      assume "\<not> shown_at sequence xs m"
      then obtain j where j: "j < m" "visible_entry sequence (xs ! j)" "user_key (xs ! j) = user_key (xs ! m)"
        using not_shown [of sequence xs m] m(2-4) less.prems(4) by auto
      then have "j \<le> p" using m(7) by (metis not_less_eq_eq)
      then have "user_key (xs ! p) = user_key (xs ! m)"
        using user_key_between [OF db, of j p m] j(3) m(1,2) less.prems(4) by simp
      then show False using True m(5) compare_irrefl by simp
    qed
    moreover have "entry_view xs it1 m"
      using m less.prems(2,5) same p by (auto simp: entry_view_def intro!: exI [of _ p])
    ultimately have "found_entry xs p0 (vt, it1)"
      using m(2,8) same less.prems(1,2,5) vt by (auto simp: found_entry_def)
    then show ?thesis using res by blast
  next
    case False
    have saved: "saved_entry xs p0 p ?vt ?it"
      using saved_turn [OF saved1 less.prems(3,4) db r(3) _ key False refl refl] less.prems(2) same(1) by simp
    have keep: "sound_iter xs ?it" "di_iter ?it = di_iter it" "di_direction ?it = kReverse"
      using same less.prems(1,5) by auto
    obtain s where s: "i_Prev ops (di_iter it) = Some s" "view xs s (if p = 0 then length xs else p - 1)"
      using iterator.prev_view [OF child less.prems(2) p] by blast
    have step: "prev_loop c sequence ops vt it =
        (if i_Valid ops s then prev_loop c sequence ops ?vt (?it\<lparr> di_iter := s \<rparr>) else Some (?vt, ?it\<lparr> di_iter := s \<rparr>))"
      unfolding prev_loop.simps [of c sequence ops vt it] using r(1) parts(1) False s(1) same(1)
      by (cases "pk_sequence ikey \<le> sequence"; cases "vt = kTypeDeletion")
        (simp_all add: visible_parse [OF r(3)] Let_def)
    have saved': "saved_entry xs p0 p ?vt (?it\<lparr> di_iter := s \<rparr>)"
      using saved saved_entry_cong [of "?it\<lparr> di_iter := s \<rparr>" ?it] by simp
    show ?thesis
    proof (cases "p = 0")
      case False
      have "\<exists>r. prev_loop c sequence ops ?vt (?it\<lparr> di_iter := s \<rparr>) = Some r \<and> found_entry xs p0 r"
        using keep s(2) False less.prems(3,4) saved' by (intro less.IH [of "p - 1"]) simp_all
      moreover have "i_Valid ops s" using iterator.valid_view [OF child s(2)] False p by simp
      ultimately show ?thesis using step by simp
    next
      case True
      then have inv: "\<not> i_Valid ops s" using iterator.valid_view [OF child s(2)] by simp
      have "found_entry xs p0 (?vt, ?it\<lparr> di_iter := s \<rparr>)"
      proof (cases ?vt)
        case kTypeDeletion
        then show ?thesis using saved' keep s(2) True by (auto simp: found_entry_def saved_entry_def)
      next
        case kTypeValue
        then obtain m where m: "m \<le> p0" "visible_entry sequence (xs ! m)" "is_value (xs ! m)"
          "di_saved_key ?it = user_key (xs ! m)" "di_saved_value ?it = snd (xs ! m)"
          "\<forall>j. j < m \<longrightarrow> \<not> visible_entry sequence (xs ! j)" "\<forall>j. m < j \<and> j \<le> p0 \<longrightarrow> \<not> shown_at sequence xs j"
          using saved True by (auto simp: saved_entry_def)
        have "shown_at sequence xs m"
          using m(1-3,6) less.prems(4) not_shown [of sequence xs m] by (metis le_less_trans)
        moreover have "entry_view xs (?it\<lparr> di_iter := s \<rparr>) m"
          using m(4-6) keep(3) s(2) True by (auto simp: entry_view_def)
        ultimately show ?thesis using m(1,7) keep s(2) kTypeValue by (auto simp: found_entry_def)
      qed
      then show ?thesis using step inv by simp
    qed
  qed
qed

lemma FindPrevUserEntry_at:
  assumes "sound_iter xs it" and "view xs (di_iter it) p" and "p < length xs" and "di_direction it = kReverse"
  shows "\<exists>it'. FindPrevUserEntry c sequence ops it = Some it'
    \<and> db_view xs it' (if count_shown xs (Suc p) = 0 then length (shown sequence xs) else count_shown xs (Suc p) - 1)"
proof -
  have "saved_entry xs p (Suc p) kTypeDeletion it" by (auto simp: saved_entry_def)
  from prev_loop_at [OF assms(1,2) order_refl assms(3,4) this] obtain vt it1 where r:
    "prev_loop c sequence ops kTypeDeletion it = Some (vt, it1)" "found_entry xs p (vt, it1)" by (metis surj_pair)
  have "i_Valid ops (di_iter it)" using iterator.valid_view [OF child assms(2)] assms(3) by simp
  then have res: "FindPrevUserEntry c sequence ops it = Some (if vt = kTypeDeletion
      then it1\<lparr> di_valid := False, di_saved_key := [], di_saved_value := [], di_direction := kForward \<rparr>
      else it1\<lparr> di_valid := True \<rparr>)" using r(1) by (simp add: FindPrevUserEntry_def)
  obtain q where q: "view xs (di_iter it1) q" and sound: "sound_iter xs it1" using r(2) by (auto simp: found_entry_def)
  show ?thesis
  proof (cases vt)
    case kTypeDeletion
    then have "\<forall>j \<le> p. \<not> shown_at sequence xs j" using r(2) by (simp add: found_entry_def)
    then have "count_shown xs (Suc p) = 0" using rank_skip [of 0 "Suc p" "shown_at sequence xs"] by simp
    then show ?thesis using res kTypeDeletion q sound by (auto intro!: db_view_past)
  next
    case kTypeValue
    then obtain m where m: "m \<le> p" "shown_at sequence xs m" "entry_view xs it1 m"
      "\<forall>j. m < j \<and> j \<le> p \<longrightarrow> \<not> shown_at sequence xs j"
      using r(2) by (auto simp: found_entry_def)
    have "count_shown xs (Suc p) = count_shown xs (Suc m)"
      using m(1,4) by (intro rank_skip) auto
    then have rank: "count_shown xs (Suc p) = Suc (count_shown xs m)" using m(2) by (simp add: rank_Suc)
    note n = nth_shown [OF _ m(2)]
    have "entry_view xs (it1\<lparr> di_valid := True \<rparr>) m" using m(3) by (auto simp: entry_view_def split: Direction.splits)
    then have "db_view xs (it1\<lparr> di_valid := True \<rparr>) (count_shown xs m)"
      using n m(1) assms(3) q sound by (auto simp: db_view_def)
    then show ?thesis using res kTypeValue rank by simp
  qed
qed

lemma FindPrevUserEntry_none:
  assumes "sound_iter xs it" and "view xs (di_iter it) (length xs)"
  shows "\<exists>it'. FindPrevUserEntry c sequence ops it = Some it' \<and> db_view xs it' (length (shown sequence xs))"
proof -
  have "\<not> i_Valid ops (di_iter it)" using iterator.valid_view [OF child assms(2)] by simp
  then show ?thesis using assms by (auto simp: FindPrevUserEntry_def intro!: db_view_past)
qed

text \<open>The scan over the entries of one user key.\<close>

lemma back_before_at:
  assumes "db_entries c xs" and "view xs s p" and "p \<le> m" and "m < length xs" and "user_key (xs ! p) = user_key (xs ! m)"
  shows "\<exists>found s'. back_before c ops (user_key (xs ! m)) s = Some (found, s')
    \<and> (if found then \<exists>q < p. view xs s' q \<and> (\<forall>j. q < j \<and> j < p \<longrightarrow> user_key (xs ! j) = user_key (xs ! m))
          \<and> cmp_Compare c (user_key (xs ! q)) (user_key (xs ! m)) < 0
       else view xs s' (length xs) \<and> (\<forall>j < p. user_key (xs ! j) = user_key (xs ! m)))"
  using assms(2,3,5)
proof (induction p arbitrary: s)
  case 0
  obtain t where t: "i_Prev ops s = Some t" "view xs t (length xs)"
    using iterator.prev_view [OF child 0(1)] assms(4) by fastforce
  then have "\<not> i_Valid ops t" using iterator.valid_view [OF child] by simp
  then show ?case using t by (intro exI [of _ False] exI [of _ t]) (simp add: back_before.simps [of c ops _ s])
next
  case (Suc p)
  obtain t where t: "i_Prev ops s = Some t" "view xs t p"
    using iterator.prev_view [OF child Suc.prems(1)] assms(4) Suc.prems(2) by fastforce
  have valid: "i_Valid ops t" "i_key ops t = fst (xs ! p)"
    using iterator.valid_view [OF child t(2)] iterator.key_view [OF child t(2)] assms(4) Suc.prems(2) by simp_all
  show ?case
  proof (cases "cmp_Compare c (user_key (xs ! p)) (user_key (xs ! m)) < 0")
    case True
    then have "back_before c ops (user_key (xs ! m)) s = Some (True, t)"
      using t(1) valid by (simp add: back_before.simps [of c ops _ s])
    moreover have "\<exists>q < Suc p. view xs t q \<and> (\<forall>j. q < j \<and> j < Suc p \<longrightarrow> user_key (xs ! j) = user_key (xs ! m))
        \<and> cmp_Compare c (user_key (xs ! q)) (user_key (xs ! m)) < 0"
      using t(2) True by (intro exI [of _ p]) auto
    ultimately show ?thesis by auto
  next
    case False
    then have same: "user_key (xs ! p) = user_key (xs ! m)"
      using user_key_mono [OF assms(1), of p m] Suc.prems(2) assms(4) compare_eq [of "user_key (xs ! p)" "user_key (xs ! m)"] by simp
    have "back_before c ops (user_key (xs ! m)) s = back_before c ops (user_key (xs ! m)) t"
      using t(1) valid False by (simp add: back_before.simps [of c ops _ s])
    moreover from Suc.IH [OF t(2) _ same] Suc.prems(2) obtain found s' where
      r: "back_before c ops (user_key (xs ! m)) t = Some (found, s')"
      "if found then \<exists>q < p. view xs s' q \<and> (\<forall>j. q < j \<and> j < p \<longrightarrow> user_key (xs ! j) = user_key (xs ! m))
          \<and> cmp_Compare c (user_key (xs ! q)) (user_key (xs ! m)) < 0
       else view xs s' (length xs) \<and> (\<forall>j < p. user_key (xs ! j) = user_key (xs ! m))" by auto
    ultimately show ?thesis using same by (fastforce simp: less_Suc_eq split: if_splits)
  qed
qed

lemma db_prev:
  assumes "db_view xs it i" and "i < length (shown sequence xs)"
  shows "\<exists>it'. di_Prev c sequence ops it = Some it' \<and> db_view xs it' (if i = 0 then length (shown sequence xs) else i - 1)"
proof -
  define m where "m = shown sequence xs ! i"
  have m: "count_shown xs m = i" "shown_at sequence xs m" "m < length xs" using shown_nth [OF assms(2)] by (simp_all add: m_def)
  have sound: "sound_iter xs it" and at: "entry_view xs it m" using assms by (simp_all add: db_view_def m_def)
  have db: "db_entries c xs" using sound by (simp add: sound_iter_def)
  show ?thesis
  proof (cases "di_direction it")
    case kForward
    have v: "view xs (di_iter it) m" using at kForward by (simp add: entry_view_def)
    have key: "i_key ops (di_iter it) = fst (xs ! m)" using iterator.key_view [OF child v m(3)] .
    from back_before_at [OF db v order_refl m(3) refl] obtain found s where
      r: "back_before c ops (user_key (xs ! m)) (di_iter it) = Some (found, s)"
      "if found then \<exists>q < m. view xs s q \<and> (\<forall>j. q < j \<and> j < m \<longrightarrow> user_key (xs ! j) = user_key (xs ! m))
          \<and> cmp_Compare c (user_key (xs ! q)) (user_key (xs ! m)) < 0
       else view xs s (length xs) \<and> (\<forall>j < m. user_key (xs ! j) = user_key (xs ! m))" by blast
    have hidden: "\<not> shown_at sequence xs j" if "j < m" "user_key (xs ! j) = user_key (xs ! m)" for j
      using shown_atD [OF m(2,3) that(1)] that(2) by (auto simp: shown_at_def)
    show ?thesis
    proof (cases found)
      case False
      then have "count_shown xs m = 0" using r(2) hidden rank_skip [of 0 m "shown_at sequence xs"] by simp
      moreover have "db_view xs (it\<lparr> di_saved_key := user_key (xs ! m), di_iter := s, di_valid := False, di_saved_key := [], di_saved_value := [] \<rparr>)
          (length (shown sequence xs))"
        using r(2) False sound by (intro db_view_past [where p = "length xs"]) simp_all
      ultimately show ?thesis using r(1) False m(1) kForward key by (simp add: di_Prev_def Let_def)
    next
      case True
      then obtain q where q: "q < m" "view xs s q" "\<forall>j. q < j \<and> j < m \<longrightarrow> user_key (xs ! j) = user_key (xs ! m)"
        using r(2) by auto
      have "count_shown xs (Suc q) = i"
        using rank_skip [of "Suc q" m "shown_at sequence xs"] q(1,3) hidden m(1) by auto
      then show ?thesis
        using FindPrevUserEntry_at [of xs "it\<lparr> di_saved_key := user_key (xs ! m), di_iter := s, di_direction := kReverse \<rparr>" q]
          sound q m(3) r(1) True kForward key by (cases "i = 0") (simp_all add: di_Prev_def Let_def)
    qed
  next
    case kReverse
    then obtain q where q: "view xs (di_iter it) q" "q < m \<or> q = length xs"
      and clear: "\<forall>j < m. q < j \<or> q = length xs \<longrightarrow> \<not> visible_entry sequence (xs ! j)"
      using at by (auto simp: entry_view_def)
    have hidden: "\<not> shown_at sequence xs j" if "j < m" "q < j \<or> q = length xs" for j
      using clear that by (auto simp: shown_at_def)
    show ?thesis
    proof (cases "q = length xs")
      case True
      then have "count_shown xs m = 0" using hidden rank_skip [of 0 m "shown_at sequence xs"] by simp
      then show ?thesis using FindPrevUserEntry_none [OF sound] q(1) True kReverse m(1) by (simp add: di_Prev_def)
    next
      case False
      then have "q < m" using q(2) by simp
      then have "count_shown xs (Suc q) = i"
        using rank_skip [of "Suc q" m "shown_at sequence xs"] hidden m(1) by auto
      then show ?thesis using FindPrevUserEntry_at [OF sound q(1) _ kReverse] \<open>q < m\<close> m(3) kReverse
        by (cases "i = 0") (simp_all add: di_Prev_def)
    qed
  qed
qed

lemma db_last:
  assumes "db_view xs it i"
  shows "\<exists>it'. di_SeekToLast c sequence ops it = Some it' \<and> db_view xs it' (length (shown sequence xs) - 1)"
proof -
  obtain p where "view xs (di_iter it) p" using assms by (auto simp: db_view_def)
  then obtain s where s: "i_SeekToLast ops (di_iter it) = Some s" "view xs s (length xs - 1)"
    using iterator.last_view [OF child] by blast
  have sound: "sound_iter xs it" using assms by (simp add: db_view_def)
  show ?thesis
  proof (cases "xs = []")
    case True
    then show ?thesis
      using FindPrevUserEntry_none [of xs "it\<lparr> di_direction := kReverse, di_saved_value := [], di_iter := s \<rparr>"] s sound
      by (simp add: di_SeekToLast_def shown_def)
  next
    case False
    then have "count_shown xs (Suc (length xs - 1)) = length (shown sequence xs)" using count_shown_all by simp
    then show ?thesis
      using FindPrevUserEntry_at [of xs "it\<lparr> di_direction := kReverse, di_saved_value := [], di_iter := s \<rparr>" "length xs - 1"] s sound False
      by (cases "shown sequence xs") (simp_all add: di_SeekToLast_def)
  qed
qed

end

sublocale db_iterator \<subseteq> snap: iterator "DBIterator c sequence ops" c
    "\<lambda>u. valid (InternalKey u sequence kValueTypeForSeek)" "snapshot sequence xs" "db_view xs" for xs
proof (rule iterator.intro)
  have len: "length (snapshot sequence xs) = length (shown sequence xs)" by (simp add: snapshot_def)
  fix s i
  assume v: "db_view xs s i"
  show "i \<le> length (snapshot sequence xs)" "i_Valid (DBIterator c sequence ops) s \<longleftrightarrow> i < length (snapshot sequence xs)"
    using v len by (simp_all add: db_view_def DBIterator_def)
  show "i_status (DBIterator c sequence ops) s = StatusOK"
    using v iterator.status_view [OF child]
    by (auto simp: db_view_def sound_iter_def DBIterator_def db_iter_status_def status_ok_def)
  show "\<exists>t. i_SeekToFirst (DBIterator c sequence ops) s = Some t \<and> db_view xs t 0"
    using db_first [OF v] by (simp add: DBIterator_def)
  show "\<exists>t. i_SeekToLast (DBIterator c sequence ops) s = Some t \<and> db_view xs t (length (snapshot sequence xs) - 1)"
    using db_last [OF v] len by (simp add: DBIterator_def)
  show "\<exists>t. i_Seek (DBIterator c sequence ops) k s = Some t \<and> db_view xs t (lower_bound c k (snapshot sequence xs))"
    if "valid (InternalKey k sequence kValueTypeForSeek)" for k
    using db_seek [OF v that] by (simp add: DBIterator_def)
  assume i: "i < length (snapshot sequence xs)"
  then have il: "i < length (shown sequence xs)" by (simp add: len)
  have at: "entry_view xs s (shown sequence xs ! i)" using v il by (simp add: db_view_def)
  have m: "shown sequence xs ! i < length xs" using shown_nth [OF il] by simp
  show "i_key (DBIterator c sequence ops) s = fst (snapshot sequence xs ! i)"
    "i_value (DBIterator c sequence ops) s = snd (snapshot sequence xs ! i)"
    using at il m iterator.key_view [OF child] iterator.value_view [OF child]
    by (cases "di_direction s"; auto simp: entry_view_def DBIterator_def di_key_def di_value_def snapshot_def)+
  show "\<exists>t. i_Next (DBIterator c sequence ops) s = Some t \<and> db_view xs t (i + 1)"
    using db_next [OF v il] by (simp add: DBIterator_def)
  show "\<exists>t. i_Prev (DBIterator c sequence ops) s = Some t \<and> db_view xs t (if i = 0 then length (snapshot sequence xs) else i - 1)"
    using db_prev [OF v il] len by (cases "i = 0") (simp_all add: DBIterator_def)
qed

context db_iterator
begin

lemma db_new:
  assumes "db_entries c xs" and "view xs iter p"
  shows "db_view xs (DBIter_new iter seed) (length (shown sequence xs))"
  using assms good_seed_Next [of "Random_seed seed"] Random_seed_range [of seed]
  by (auto simp: DBIter_new_def Let_def RandomPeriod_eq good_seed_def sound_iter_def intro!: db_view_past)

lemma db_contract:
  "iterator (DBIterator c sequence ops) c (\<lambda>u. valid (InternalKey u sequence kValueTypeForSeek)) (snapshot sequence xs) (db_view xs)"
  by (rule snap.iterator_axioms)

end

end
