(* ===== verification/Iterator_Properties.thy ===== *)
theory Iterator_Properties
  imports Table_Properties Ldb_Table_Iter Ldb_Mem_Iter Ldb_DB_Iter_View
begin

text \<open>What the iterators over tables, memtables, merged sources and the database promise.\<close>

section \<open>Going through the entries\<close>

text \<open>
  From the first entry on, the iterator delivers all entries; from the last one back, all of them in
  reverse; from a sought key on, those at or past it.
\<close>

definition iterates :: "'s Iterator \<Rightarrow> Comparator \<Rightarrow> slice \<Rightarrow> entry list \<Rightarrow> 's \<Rightarrow> bool" where
  "iterates ops c k xs s \<longleftrightarrow>
     (\<exists>t. i_SeekToFirst ops s = Some t \<and> scan (length xs) ops t = Some xs)
     \<and> (\<exists>t. i_SeekToLast ops s = Some t \<and> scan_back (length xs) ops t = Some (rev xs))
     \<and> (\<exists>t. i_Seek ops k s = Some t \<and> i_status ops t = StatusOK
          \<and> scan (length xs) ops t = Some (dropWhile (\<lambda>e. cmp_Compare c (fst e) k < 0) xs))"

context iterator
begin

lemma view_iterates:
  assumes "view s i" and "valid k"
  shows "iterates ops c k xs s"
proof -
  have "\<exists>t. i_SeekToFirst ops s = Some t \<and> scan (length xs) ops t = Some xs"
    using first_view [OF assms(1)] scan_view [of _ 0 "length xs"] by fastforce
  moreover have "\<exists>t. i_SeekToLast ops s = Some t \<and> scan_back (length xs) ops t = Some (rev xs)"
  proof -
    obtain t where t: "i_SeekToLast ops s = Some t" "view t (length xs - 1)" using last_view [OF assms(1)] by blast
    show ?thesis
    proof (cases "xs = []")
      case True
      then show ?thesis using t valid_view [OF t(2)] by simp
    next
      case False
      then show ?thesis using t scan_back_view [OF t(2), of "length xs"] by simp
    qed
  qed
  moreover have "\<exists>t. i_Seek ops k s = Some t \<and> i_status ops t = StatusOK
      \<and> scan (length xs) ops t = Some (dropWhile (\<lambda>e. cmp_Compare c (fst e) k < 0) xs)"
  proof -
    obtain t where t: "i_Seek ops k s = Some t" "view t (lower_bound c k xs)" using seek_view [OF assms] by blast
    have "scan (length xs) ops t = Some (drop (lower_bound c k xs) xs)" using scan_view [OF t(2), of "length xs"] by simp
    then show ?thesis using t status_view [OF t(2)] by (auto simp: lower_bound_def dropWhile_eq_drop)
  qed
  ultimately show ?thesis by (simp add: iterates_def)
qed

end

section \<open>Merging\<close>

text \<open>Block iterators merge.\<close>

sublocale comparator \<subseteq> merged_blocks: merging c valid "BlockIterator c" "block_view c valid"
  by unfold_locales

text \<open>C13: The merging iterator over children that each keep the contract of an iterator over a sorted list keeps the
  contract itself, for the sorted list of all their entries: it moves forwards and backwards in any order,
  turning the children around where the direction changes, and it never repeats, skips or misorders an
  entry. This covers the cases of no child and of one child, which the code treats apart.\<close>

theorem merging_iterates:
  assumes "comparator c valid" and "\<forall>ys. iterator ops c valid ys (view ys)"
    and "sorted_entries c xs" and "\<forall>e \<in> set xs. valid (fst e)" and "mset xs = mset (concat ls)" and "\<forall>l \<in> set ls. sorted_entries c l"
    and "list_all2 (\<lambda>l s. \<exists>p. view l s p) ls children" and "valid k"
  shows "\<exists>V i. iterator (MergedIterator c ops) c valid xs V \<and> V (NewMergingIterator ops children) i
    \<and> iterates (MergedIterator c ops) c k xs (NewMergingIterator ops children)"
proof -
  have m: "merging c valid ops view" using assms(1,2) by (intro merging.intro merging_axioms.intro) simp_all
  have "merge_of c valid ls xs" using assms(3-6) by (simp add: merge_of_def)
  then obtain i where i: "merging.merged_view c valid view xs (NewMergingIterator ops children) i"
    using merging.merged_new [OF m _ assms(7)] by blast
  have it: "iterator (MergedIterator c ops) c valid xs (merging.merged_view c valid view xs)"
    by (rule merging.merged_contract [OF m])
  then show ?thesis using i iterator.view_iterates [OF it i assms(8)] by blast
qed

lemma merging_iterates_witness:
  "\<exists>t. i_Seek (MergedIterator BytewiseComparator (BlockIterator BytewiseComparator)) [2]
      (NewMergingIterator (BlockIterator BytewiseComparator)
        [Block_NewIterator (Block_new (build_block 2 [([1], [7]), ([3], [9])])), Block_NewIterator (Block_new (build_block 2 [([2], [8])]))])
      = Some t
    \<and> scan 3 (MergedIterator BytewiseComparator (BlockIterator BytewiseComparator)) t = Some [([2], [8]), ([3], [9])]"
proof -
  let ?a = "[([1], [7]), ([3], [9])] :: entry list" and ?b = "[([2], [8])] :: entry list"
    and ?xs = "[([1], [7]), ([2], [8]), ([3], [9])] :: entry list"
  let ?V = "block_view BytewiseComparator (\<lambda>_. True)" and ?s = "\<lambda>es. Block_NewIterator (Block_new (build_block 2 es))"
  have srt: "sorted_entries BytewiseComparator ?xs" "sorted_entries BytewiseComparator ?a" "sorted_entries BytewiseComparator ?b"
    by (simp_all add: sorted_entries_def BytewiseComparator_def)
  have "length (build_block 2 ?a) < 2 ^ 32" "length (build_block 2 ?b) < 2 ^ 32"
    using length_build_block [of 2 ?a] length_build_block [of 2 ?b] by (simp_all add: add_weight_def)
  then have "?V ?a (?s ?a) (length ?a)" "?V ?b (?s ?b) (length ?b)"
    by (intro bytewise.built_block_view; use srt in simp)+
  then have views: "list_all2 (\<lambda>l s. \<exists>p. ?V l s p) [?a, ?b] [?s ?a, ?s ?b]" by auto
  have child: "\<forall>ys. iterator (BlockIterator BytewiseComparator) BytewiseComparator (\<lambda>_. True) ys (?V ys)"
    by (simp add: bytewise.block.iterator_axioms)
  have rest: "dropWhile (\<lambda>e. cmp_Compare BytewiseComparator (fst e) [2] < 0) ?xs = [([2], [8]), ([3], [9])]" "length ?xs = 3"
    by (simp_all add: BytewiseComparator_def)
  have ms: "mset ?xs = mset (concat [?a, ?b])" and sorted: "\<forall>l \<in> set [?a, ?b]. sorted_entries BytewiseComparator l"
    using srt by simp_all
  have "\<forall>e \<in> set ?xs. True" by simp
  from merging_iterates [OF bytewise.comparator_axioms child srt(1) this ms sorted views, of "[2]"]
  have "iterates (MergedIterator BytewiseComparator (BlockIterator BytewiseComparator)) BytewiseComparator [2] ?xs
      (NewMergingIterator (BlockIterator BytewiseComparator) [?s ?a, ?s ?b])" by blast
  then show ?thesis unfolding iterates_def rest by blast
qed

section \<open>Tables\<close>

text \<open>C14: The iterator over a table that was built from entries in the order of internal keys goes through exactly these
  entries, across the borders of the data blocks, which it opens as it reaches them through the index:
  it keeps the contract of iterators for any order of moves.\<close>

theorem table_iterator_exact:
  assumes "opts = db_options BytewiseComparator (map_option NewBloomFilterPolicy bits_per_key) paranoid bsize interval compression"
    and "1 \<le> interval" and "sorted_entries (InternalKeyComparator BytewiseComparator) kvs" and "\<forall>e \<in> set kvs. 8 \<le> length (fst e)"
    and "sound_wstream f" and "ws_data f = []"
    and "(s, r) = TableBuilder_Finish PosixWritableFile
      (foldl (\<lambda>r (k, v). TableBuilder_Add PosixWritableFile k v r) (TableBuilder_new opts f) kvs)"
    and "length (ws_data (tb_file r)) < 2 ^ 32" and "sound_posix_file g" and "pf_bytes g = ws_data (tb_file r)" and "8 \<le> length k"
  shows "\<exists>t V. Table_Open PosixRandomAccessFile opts g (FileSize r) = Some (StatusOK, Some t)
    \<and> iterator (TableIterator PosixRandomAccessFile verify t) (InternalKeyComparator BytewiseComparator) (\<lambda>k. 8 \<le> length k) kvs V
    \<and> V (Table_NewIterator t) (length kvs)
    \<and> iterates (TableIterator PosixRandomAccessFile verify t) (InternalKeyComparator BytewiseComparator) k kvs (Table_NewIterator t)"
proof -
  have interval: "1 \<le> opt_block_restart_interval opts" using assms(1,2) by (simp add: db_options_def)
  obtain bs where b: "concat bs = kvs" "pf_bytes g = table_bytes opts bs" "length (table_bytes opts bs) < 2 ^ 32"
    "sorted_blocks (InternalKeyComparator BytewiseComparator) (\<lambda>k. 8 \<le> length k) bs"
    "Table_Open PosixRandomAccessFile opts g (FileSize r) = Some (StatusOK, Some (opened opts g bs))"
    by (rule built_table_opens [OF assms(1-10)])
  note t = db_table.table_iterates [OF assms(9) b(2,3) [unfolded assms(1)] interval [unfolded assms(1)] b(4)]
  note it = t(2) [of verify kvs, folded assms(1)] and new = t(1) [of verify, folded assms(1), unfolded b(1)]
  show ?thesis using b(5) it new iterator.view_iterates [OF it new, of k] assms(11) by blast
qed

lemma table_iterator_exact_witness:
  "\<exists>r t it. TableBuilder_Finish PosixWritableFile (TableBuilder_Add PosixWritableFile (InternalKey [97] 7 kTypeValue) [120]
        (TableBuilder_new (db_options BytewiseComparator None True 4096 16 kSnappyCompression)
          \<lparr> ws_name = [], ws_data = [], ws_room = None, ws_unflushable = False, ws_errno = [] \<rparr>)) = (StatusOK, r)
    \<and> Table_Open PosixRandomAccessFile (db_options BytewiseComparator None True 4096 16 kSnappyCompression)
        \<lparr> pf_name = [], pf_bytes = ws_data (tb_file r), pf_temporary_fd = False, pf_unopenable = False,
          pf_unreadable = False, pf_errno = [] \<rparr> (FileSize r) = Some (StatusOK, Some t)
    \<and> i_SeekToFirst (TableIterator PosixRandomAccessFile True t) (Table_NewIterator t) = Some it
    \<and> scan 1 (TableIterator PosixRandomAccessFile True t) it = Some [(InternalKey [97] 7 kTypeValue, [120])]"
proof -
  let ?k = "InternalKey [97] 7 kTypeValue" and ?opts = "db_options BytewiseComparator None True 4096 16 kSnappyCompression"
  let ?f = "\<lparr> ws_name = [], ws_data = [], ws_room = None, ws_unflushable = False, ws_errno = [] \<rparr>"
  have f: "sound_wstream ?f" "ws_data ?f = []" by (simp_all add: sound_wstream_def)
  obtain r where b: "TableBuilder_Finish PosixWritableFile
      (foldl (\<lambda>r (k, v). TableBuilder_Add PosixWritableFile k v r) (TableBuilder_new ?opts ?f) [(?k, [120])]) = (StatusOK, r)"
    and len: "length (ws_data (tb_file r)) < 2 ^ 32" by (rule one_entry_table)
  let ?g = "\<lparr> pf_name = [], pf_bytes = ws_data (tb_file r), pf_temporary_fd = False, pf_unopenable = False,
          pf_unreadable = False, pf_errno = [] \<rparr>"
  have g: "sound_posix_file ?g" "pf_bytes ?g = ws_data (tb_file r)" using len by (simp_all add: sound_posix_file_def)
  have opts: "?opts = db_options BytewiseComparator (map_option NewBloomFilterPolicy None) True 4096 16 kSnappyCompression" by simp
  have one: "(1 :: nat) \<le> 16" "sorted_entries (InternalKeyComparator BytewiseComparator) [(?k, [120])]"
    "\<forall>e \<in> set [(?k, [120])]. 8 \<le> length (fst e)" "8 \<le> length ?k"
    by (simp_all add: sorted_entries_def)
  from table_iterator_exact [OF opts one(1-3) f b [symmetric] len g one(4), of True]
  obtain t where t: "Table_Open PosixRandomAccessFile ?opts ?g (FileSize r) = Some (StatusOK, Some t)"
    "iterates (TableIterator PosixRandomAccessFile True t) (InternalKeyComparator BytewiseComparator) ?k [(?k, [120])]
      (Table_NewIterator t)" by blast
  obtain it where "i_SeekToFirst (TableIterator PosixRandomAccessFile True t) (Table_NewIterator t) = Some it"
    "scan (length [(?k, [120] :: slice)]) (TableIterator PosixRandomAccessFile True t) it = Some [(?k, [120])]"
    using t(2) unfolding iterates_def by blast
  moreover have "length [(?k, [120] :: slice)] = 1" by simp
  ultimately show ?thesis using b t(1) by auto
qed

section \<open>The database iterator\<close>

text \<open>A database that consists of a memtable.\<close>

sublocale user_comparator \<subseteq> mem_snapshot: db_iterator c short_key MemTableIterator mem_view kMaxSequenceNumber
  by unfold_locales (simp_all add: mem.iterator_axioms)

text \<open>C12: The iterator of the database, over any iterator of the versions of its keys, shows the snapshot of a sequence
  number: of every user key the newest version that is not newer than the snapshot, unless that is a
  deletion, in the order of the user keys. It keeps the contract of iterators for any order of
  moves, forwards, backwards and by search; each move returns, whatever its random samples are.\<close>

theorem db_iterator_shows_snapshot:
  assumes "user_comparator c" and "\<forall>ys. iterator ops (InternalKeyComparator c) valid ys (view ys)"
    and "sequence \<le> kMaxSequenceNumber" and "db_entries c xs" and "view xs s p"
    and "valid (InternalKey u sequence kValueTypeForSeek)"
  shows "\<exists>V i. iterator (DBIterator c sequence ops) c (\<lambda>u. valid (InternalKey u sequence kValueTypeForSeek)) (snapshot sequence xs) V
    \<and> V (DBIter_new s seed) i
    \<and> iterates (DBIterator c sequence ops) c u (snapshot sequence xs) (DBIter_new s seed)"
proof -
  have m: "db_iterator c valid ops view sequence" using assms(1-3) by (intro db_iterator.intro db_iterator_axioms.intro) simp_all
  note it = db_iterator.db_contract [OF m, of xs] and new = db_iterator.db_new [OF m assms(4,5), of seed]
  show ?thesis using it new iterator.view_iterates [OF it new, of u] assms(6) by blast
qed

lemma db_iterator_shows_snapshot_witness:
  "\<exists>mem it. MemTable_Add 5 kTypeValue [97] [120] (MemTable_new BytewiseComparator) = Some mem
    \<and> i_SeekToFirst (DBIterator BytewiseComparator 9 MemTableIterator) (DBIter_new (MemTable_NewIterator mem) 7) = Some it
    \<and> scan 1 (DBIterator BytewiseComparator 9 MemTableIterator) it = Some [([97], [120])]"
proof -
  have "fits (5, kTypeValue, [97], [120])" by (simp add: kMaxSequenceNumber_def)
  from bytewise.MemTable_Add_holds [OF bytewise.mem_holds_new this]
  obtain mem where mem: "MemTable_Add 5 kTypeValue [97] [120] (MemTable_new BytewiseComparator) = Some mem"
    "bytewise.mem_holds mem [(5, kTypeValue, [97], [120])]" by auto
  let ?xs = "[(InternalKey [97] 5 kTypeValue, [120])] :: entry list"
  have sorted: "sorted_entries (InternalKeyComparator BytewiseComparator) ?xs" by (simp add: sorted_entries_def)
  have view: "bytewise.mem_view ?xs (MemTable_NewIterator mem) 1"
  proof (rule bytewise.mem_new [OF mem(2)])
    fix xs
    assume xs: "bytewise.mem_view xs (MemTable_NewIterator mem) (length xs)" "set xs = write_kv ` set [(5, kTypeValue, [97], [120])]"
      "sorted_entries (InternalKeyComparator BytewiseComparator) xs"
    have "xs = ?xs"
      by (rule bytewise.internal.sorted_entries_unique [OF xs(3) sorted]) (use xs(2) in simp_all)
    then show ?thesis using xs(1) by simp
  qed
  have parse: "ParseInternalKey (InternalKey [97] 5 kTypeValue) = Some \<lparr> pk_user_key = [97], pk_sequence = 5, pk_type = kTypeValue \<rparr>"
    by (rule ParseInternalKey_InternalKey) (simp add: kMaxSequenceNumber_def)
  have entries: "db_entries BytewiseComparator ?xs" using sorted parse by (simp add: db_entries_def)
  have snap: "snapshot 9 ?xs = [([97], [120])]"
    by (simp add: snapshot_def shown_def shown_at_def visible_entry_def is_value_def parse)
  have child: "\<forall>ys. iterator MemTableIterator (InternalKeyComparator BytewiseComparator) short_key ys (bytewise.mem_view ys)"
    by (simp add: bytewise.mem.iterator_axioms)
  have "(9 :: 64 word) \<le> kMaxSequenceNumber" by (simp add: kMaxSequenceNumber_def)
  moreover have "short_key (InternalKey [97] 9 kValueTypeForSeek)" by (simp add: short_key_def)
  ultimately have "iterates (DBIterator BytewiseComparator 9 MemTableIterator) BytewiseComparator [97] (snapshot 9 ?xs)
      (DBIter_new (MemTable_NewIterator mem) 7)"
    using db_iterator_shows_snapshot [OF bytewise.user_comparator_axioms child _ entries view, of 9 "[97]" 7] by blast
  then have "\<exists>it. i_SeekToFirst (DBIterator BytewiseComparator 9 MemTableIterator) (DBIter_new (MemTable_NewIterator mem) 7) = Some it
      \<and> scan (length [([97] :: slice, [120] :: slice)]) (DBIterator BytewiseComparator 9 MemTableIterator) it = Some [([97], [120])]"
    unfolding snap iterates_def by blast
  then show ?thesis using mem(1) by (simp only: list.size One_nat_def add_Suc_right add_0 add_0_right) blast
qed

end
