(* ===== verification/Ldb_Version_Edit.thy ===== *)
theory Ldb_Version_Edit
  imports Ldb_Keys Ldb_Env "HOL-Library.Product_Lexorder"
begin

text \<open>
  Version edits (\<^verbatim>\<open>db/version_edit.h\<close>, \<^verbatim>\<open>db/version_edit.cc\<close>): the changes of a set of files, and the record of
  the manifest that stores them. Levels are natural numbers; the ordered set of deleted files is a set
  that is read in its order.
\<close>

section \<open>Files and edits\<close>

text \<open>Counts of references are not modelled; an \<^verbatim>\<open>InternalKey\<close> is its bytes.\<close>

record FileMetaData =
  fm_allowed_seeks :: int
  fm_number :: "64 word"
  fm_file_size :: "64 word"
  fm_smallest :: slice
  fm_largest :: slice

definition FileMetaData_new :: FileMetaData where
  "FileMetaData_new =
     \<lparr> fm_allowed_seeks = 2 ^ 30, fm_number = 0, fm_file_size = 0, fm_smallest = [], fm_largest = [] \<rparr>"

definition kNumLevels :: nat where
  "kNumLevels = 7"

record VersionEdit =
  ve_comparator :: slice
  ve_log_number :: "64 word"
  ve_prev_log_number :: "64 word"
  ve_next_file_number :: "64 word"
  ve_last_sequence :: SequenceNumber
  ve_has_comparator :: bool
  ve_has_log_number :: bool
  ve_has_prev_log_number :: bool
  ve_has_next_file_number :: bool
  ve_has_last_sequence :: bool
  ve_compact_pointers :: "(nat \<times> slice) list"
  ve_deleted_files :: "(nat \<times> 64 word) set"
  ve_new_files :: "(nat \<times> FileMetaData) list"

text \<open>The compaction pointers are not among what is cleared.\<close>

definition VersionEdit_Clear :: "VersionEdit \<Rightarrow> VersionEdit" where
  "VersionEdit_Clear e =
     e\<lparr> ve_comparator := [], ve_log_number := 0, ve_prev_log_number := 0, ve_last_sequence := 0,
        ve_next_file_number := 0, ve_has_comparator := False, ve_has_log_number := False,
        ve_has_prev_log_number := False, ve_has_next_file_number := False, ve_has_last_sequence := False,
        ve_deleted_files := {}, ve_new_files := [] \<rparr>"

definition VersionEdit_new :: VersionEdit where
  "VersionEdit_new =
     \<lparr> ve_comparator = [], ve_log_number = 0, ve_prev_log_number = 0, ve_next_file_number = 0, ve_last_sequence = 0,
       ve_has_comparator = False, ve_has_log_number = False, ve_has_prev_log_number = False,
       ve_has_next_file_number = False, ve_has_last_sequence = False, ve_compact_pointers = [],
       ve_deleted_files = {}, ve_new_files = [] \<rparr>"

definition SetComparatorName :: "slice \<Rightarrow> VersionEdit \<Rightarrow> VersionEdit" where
  "SetComparatorName name e = e\<lparr> ve_has_comparator := True, ve_comparator := name \<rparr>"

definition SetLogNumber :: "64 word \<Rightarrow> VersionEdit \<Rightarrow> VersionEdit" where
  "SetLogNumber num e = e\<lparr> ve_has_log_number := True, ve_log_number := num \<rparr>"

definition SetPrevLogNumber :: "64 word \<Rightarrow> VersionEdit \<Rightarrow> VersionEdit" where
  "SetPrevLogNumber num e = e\<lparr> ve_has_prev_log_number := True, ve_prev_log_number := num \<rparr>"

definition SetNextFile :: "64 word \<Rightarrow> VersionEdit \<Rightarrow> VersionEdit" where
  "SetNextFile num e = e\<lparr> ve_has_next_file_number := True, ve_next_file_number := num \<rparr>"

definition SetLastSequence :: "SequenceNumber \<Rightarrow> VersionEdit \<Rightarrow> VersionEdit" where
  "SetLastSequence s e = e\<lparr> ve_has_last_sequence := True, ve_last_sequence := s \<rparr>"

definition SetCompactPointer :: "nat \<Rightarrow> slice \<Rightarrow> VersionEdit \<Rightarrow> VersionEdit" where
  "SetCompactPointer level key e = e\<lparr> ve_compact_pointers := ve_compact_pointers e @ [(level, key)] \<rparr>"

definition AddFile :: "nat \<Rightarrow> 64 word \<Rightarrow> 64 word \<Rightarrow> slice \<Rightarrow> slice \<Rightarrow> VersionEdit \<Rightarrow> VersionEdit" where
  "AddFile level file file_size smallest largest e =
     e\<lparr> ve_new_files := ve_new_files e @ [(level, FileMetaData_new\<lparr> fm_number := file, fm_file_size := file_size,
         fm_smallest := smallest, fm_largest := largest \<rparr>)] \<rparr>"

definition DeleteFile :: "nat \<Rightarrow> 64 word \<Rightarrow> VersionEdit \<Rightarrow> VersionEdit" where
  "DeleteFile level file e = e\<lparr> ve_deleted_files := insert (level, file) (ve_deleted_files e) \<rparr>"

section \<open>Encoding\<close>

definition kTagComparator :: "32 word" where "kTagComparator = 1"
definition kTagLogNumber :: "32 word" where "kTagLogNumber = 2"
definition kTagNextFileNumber :: "32 word" where "kTagNextFileNumber = 3"
definition kTagLastSequence :: "32 word" where "kTagLastSequence = 4"
definition kTagCompactPointer :: "32 word" where "kTagCompactPointer = 5"
definition kTagDeletedFile :: "32 word" where "kTagDeletedFile = 6"
definition kTagNewFile :: "32 word" where "kTagNewFile = 7"
definition kTagPrevLogNumber :: "32 word" where "kTagPrevLogNumber = 9"

lemmas version_tags = kTagComparator_def kTagLogNumber_def kTagNextFileNumber_def kTagLastSequence_def
  kTagCompactPointer_def kTagDeletedFile_def kTagNewFile_def kTagPrevLogNumber_def

definition put_number :: "bool \<Rightarrow> 32 word \<Rightarrow> 64 word \<Rightarrow> byte list \<Rightarrow> byte list" where
  "put_number has_it tag num dst = (if has_it then PutVarint64 (PutVarint32 dst tag) num else dst)"

definition put_compact_pointer :: "byte list \<Rightarrow> nat \<times> slice \<Rightarrow> byte list" where
  "put_compact_pointer dst p =
     PutLengthPrefixedSlice (PutVarint32 (PutVarint32 dst kTagCompactPointer) (word_of_nat (fst p))) (snd p)"

definition put_deleted_file :: "byte list \<Rightarrow> nat \<times> 64 word \<Rightarrow> byte list" where
  "put_deleted_file dst p = PutVarint64 (PutVarint32 (PutVarint32 dst kTagDeletedFile) (word_of_nat (fst p))) (snd p)"

definition put_new_file :: "byte list \<Rightarrow> nat \<times> FileMetaData \<Rightarrow> byte list" where
  "put_new_file dst p =
     (let f = snd p;
          dst = PutVarint32 (PutVarint32 dst kTagNewFile) (word_of_nat (fst p));
          dst = PutVarint64 (PutVarint64 dst (fm_number f)) (fm_file_size f)
      in PutLengthPrefixedSlice (PutLengthPrefixedSlice dst (fm_smallest f)) (fm_largest f))"

definition VersionEdit_EncodeTo :: "byte list \<Rightarrow> VersionEdit \<Rightarrow> byte list" where
  "VersionEdit_EncodeTo dst e =
     (let dst = (if ve_has_comparator e then PutLengthPrefixedSlice (PutVarint32 dst kTagComparator) (ve_comparator e) else dst);
          dst = put_number (ve_has_log_number e) kTagLogNumber (ve_log_number e) dst;
          dst = put_number (ve_has_prev_log_number e) kTagPrevLogNumber (ve_prev_log_number e) dst;
          dst = put_number (ve_has_next_file_number e) kTagNextFileNumber (ve_next_file_number e) dst;
          dst = put_number (ve_has_last_sequence e) kTagLastSequence (ve_last_sequence e) dst;
          dst = foldl put_compact_pointer dst (ve_compact_pointers e);
          dst = foldl put_deleted_file dst (sorted_list_of_set (ve_deleted_files e))
      in foldl put_new_file dst (ve_new_files e))"

section \<open>Decoding\<close>

definition GetInternalKey :: "slice \<Rightarrow> (slice \<times> slice) option" where
  "GetInternalKey input = GetLengthPrefixedSlice input"

definition GetLevel :: "slice \<Rightarrow> (nat \<times> slice) option" where
  "GetLevel input =
     (case GetVarint32 input of
        None \<Rightarrow> None
      | Some (v, input) \<Rightarrow> if v < word_of_nat kNumLevels then Some (unat v, input) else None)"

text \<open>One turn of the loop behind the tag: a message, or the edit with the field and what is left.\<close>

definition get_number ::
    "string \<Rightarrow> slice \<Rightarrow> (64 word \<Rightarrow> VersionEdit \<Rightarrow> VersionEdit) \<Rightarrow> VersionEdit \<Rightarrow> string + slice \<times> VersionEdit" where
  "get_number msg input set_field e =
     (case GetVarint64 input of None \<Rightarrow> Inl msg | Some (v, input) \<Rightarrow> Inr (input, set_field v e))"

definition get_compact_pointer :: "slice \<Rightarrow> VersionEdit \<Rightarrow> string + slice \<times> VersionEdit" where
  "get_compact_pointer input e =
     (case GetLevel input of
        None \<Rightarrow> Inl ''compaction pointer''
      | Some (level, input) \<Rightarrow>
          (case GetInternalKey input of
             None \<Rightarrow> Inl ''compaction pointer''
           | Some (key, input) \<Rightarrow> Inr (input, e\<lparr> ve_compact_pointers := ve_compact_pointers e @ [(level, key)] \<rparr>)))"

definition get_deleted_file :: "slice \<Rightarrow> VersionEdit \<Rightarrow> string + slice \<times> VersionEdit" where
  "get_deleted_file input e =
     (case GetLevel input of
        None \<Rightarrow> Inl ''deleted file''
      | Some (level, input) \<Rightarrow>
          (case GetVarint64 input of
             None \<Rightarrow> Inl ''deleted file''
           | Some (number, input) \<Rightarrow>
               Inr (input, e\<lparr> ve_deleted_files := insert (level, number) (ve_deleted_files e) \<rparr>)))"

definition get_new_file :: "slice \<Rightarrow> VersionEdit \<Rightarrow> string + slice \<times> VersionEdit" where
  "get_new_file input e =
     (case GetLevel input of None \<Rightarrow> Inl ''new-file entry'' | Some (level, input) \<Rightarrow>
      case GetVarint64 input of None \<Rightarrow> Inl ''new-file entry'' | Some (number, input) \<Rightarrow>
      case GetVarint64 input of None \<Rightarrow> Inl ''new-file entry'' | Some (file_size, input) \<Rightarrow>
      case GetInternalKey input of None \<Rightarrow> Inl ''new-file entry'' | Some (smallest, input) \<Rightarrow>
      case GetInternalKey input of None \<Rightarrow> Inl ''new-file entry'' | Some (largest, input) \<Rightarrow>
        Inr (input, e\<lparr> ve_new_files := ve_new_files e @
          [(level, FileMetaData_new\<lparr> fm_number := number, fm_file_size := file_size,
              fm_smallest := smallest, fm_largest := largest \<rparr>)] \<rparr>))"

definition get_field :: "32 word \<Rightarrow> slice \<Rightarrow> VersionEdit \<Rightarrow> string + slice \<times> VersionEdit" where
  "get_field tag input e =
     (if tag = kTagComparator then
        (case GetLengthPrefixedSlice input of
           None \<Rightarrow> Inl ''comparator name''
         | Some (str, input) \<Rightarrow> Inr (input, e\<lparr> ve_comparator := str, ve_has_comparator := True \<rparr>))
      else if tag = kTagLogNumber then
        get_number ''log number'' input (\<lambda>v e. e\<lparr> ve_log_number := v, ve_has_log_number := True \<rparr>) e
      else if tag = kTagPrevLogNumber then
        get_number ''previous log number'' input (\<lambda>v e. e\<lparr> ve_prev_log_number := v, ve_has_prev_log_number := True \<rparr>) e
      else if tag = kTagNextFileNumber then
        get_number ''next file number'' input (\<lambda>v e. e\<lparr> ve_next_file_number := v, ve_has_next_file_number := True \<rparr>) e
      else if tag = kTagLastSequence then
        get_number ''last sequence number'' input (\<lambda>v e. e\<lparr> ve_last_sequence := v, ve_has_last_sequence := True \<rparr>) e
      else if tag = kTagCompactPointer then get_compact_pointer input e
      else if tag = kTagDeletedFile then get_deleted_file input e
      else if tag = kTagNewFile then get_new_file input e
      else Inl ''unknown tag'')"

lemma GetVarint_shorter:
  "GetVarint32 p = Some (v, q) \<Longrightarrow> length q < length p" "GetVarint64 p = Some (w, q) \<Longrightarrow> length q < length p"
proof -
  show "length q < length p" if "GetVarint32 p = Some (v, q)"
    using GetVarint32_Some [OF that] by auto
  show "length q < length p" if "GetVarint64 p = Some (w, q)"
    using GetVarint64_Some [OF that] by auto
qed

lemma GetLevel_shorter: "GetLevel p = Some (l, q) \<Longrightarrow> length q < length p"
  using GetVarint_shorter(1) [of p] by (auto simp: GetLevel_def split: option.splits if_splits)

lemma get_field_shorter: "get_field tag p e = Inr (q, e') \<Longrightarrow> length q < length p"
  by (fastforce simp: get_field_def get_number_def get_compact_pointer_def get_deleted_file_def get_new_file_def GetInternalKey_def
      split: option.splits if_splits dest: GetVarint_shorter GetLevel_shorter GetLengthPrefixedSlice_shorter)

function edit_loop :: "slice \<Rightarrow> VersionEdit \<Rightarrow> string option \<times> VersionEdit" where
  "edit_loop input e =
     (case GetVarint32 input of
        None \<Rightarrow> (if input \<noteq> [] then Some ''invalid tag'' else None, e)
      | Some (tag, input) \<Rightarrow>
          (case get_field tag input e of
             Inl msg \<Rightarrow> (Some msg, e)
           | Inr (input, e) \<Rightarrow> edit_loop input e))"
  by pat_completeness auto
termination
  by (relation "measure (\<lambda>(input, e). length input)") (auto dest!: GetVarint_shorter get_field_shorter)

definition VersionEdit_DecodeFrom :: "slice \<Rightarrow> VersionEdit \<Rightarrow> Status \<times> VersionEdit" where
  "VersionEdit_DecodeFrom src e =
     (case edit_loop src (VersionEdit_Clear e) of
        (None, e) \<Rightarrow> (StatusOK, e)
      | (Some msg, e) \<Rightarrow> (make_Status kCorruption ''VersionEdit'' msg, e))"

declare edit_loop.simps [simp del]

section \<open>What is written is read\<close>

definition slice_bytes :: "slice \<Rightarrow> byte list" where
  "slice_bytes s = EncodeVarint32 (word_of_nat (length s)) @ s"

definition number_bytes :: "bool \<Rightarrow> 32 word \<Rightarrow> 64 word \<Rightarrow> byte list" where
  "number_bytes has_it tag num = (if has_it then EncodeVarint32 tag @ EncodeVarint64 num else [])"

definition compact_pointer_bytes :: "nat \<times> slice \<Rightarrow> byte list" where
  "compact_pointer_bytes p = EncodeVarint32 kTagCompactPointer @ EncodeVarint32 (word_of_nat (fst p)) @ slice_bytes (snd p)"

definition deleted_file_bytes :: "nat \<times> 64 word \<Rightarrow> byte list" where
  "deleted_file_bytes p = EncodeVarint32 kTagDeletedFile @ EncodeVarint32 (word_of_nat (fst p)) @ EncodeVarint64 (snd p)"

definition new_file_bytes :: "nat \<times> FileMetaData \<Rightarrow> byte list" where
  "new_file_bytes p = EncodeVarint32 kTagNewFile @ EncodeVarint32 (word_of_nat (fst p)) @ EncodeVarint64 (fm_number (snd p))
     @ EncodeVarint64 (fm_file_size (snd p)) @ slice_bytes (fm_smallest (snd p)) @ slice_bytes (fm_largest (snd p))"

definition comparator_bytes :: "VersionEdit \<Rightarrow> byte list" where
  "comparator_bytes e = (if ve_has_comparator e then EncodeVarint32 kTagComparator @ slice_bytes (ve_comparator e) else [])"

lemma foldl_appends: "(\<And>dst x. put dst x = dst @ bytes x) \<Longrightarrow> foldl put dst xs = dst @ concat (map bytes xs)"
  by (induction xs arbitrary: dst) simp_all

lemma EncodeTo_eq:
  "VersionEdit_EncodeTo dst e = dst @ comparator_bytes e
     @ number_bytes (ve_has_log_number e) kTagLogNumber (ve_log_number e)
     @ number_bytes (ve_has_prev_log_number e) kTagPrevLogNumber (ve_prev_log_number e)
     @ number_bytes (ve_has_next_file_number e) kTagNextFileNumber (ve_next_file_number e)
     @ number_bytes (ve_has_last_sequence e) kTagLastSequence (ve_last_sequence e)
     @ concat (map compact_pointer_bytes (ve_compact_pointers e))
     @ concat (map deleted_file_bytes (sorted_list_of_set (ve_deleted_files e)))
     @ concat (map new_file_bytes (ve_new_files e))"
proof -
  have "foldl put_compact_pointer d xs = d @ concat (map compact_pointer_bytes xs)" for d xs
    by (rule foldl_appends) (simp add: put_compact_pointer_def compact_pointer_bytes_def slice_bytes_def PutLengthPrefixedSlice_def PutVarint32_def)
  moreover have "foldl put_deleted_file d xs = d @ concat (map deleted_file_bytes xs)" for d xs
    by (rule foldl_appends) (simp add: put_deleted_file_def deleted_file_bytes_def PutVarint32_def PutVarint64_def)
  moreover have "foldl put_new_file d xs = d @ concat (map new_file_bytes xs)" for d xs
    by (rule foldl_appends)
      (simp add: put_new_file_def new_file_bytes_def slice_bytes_def PutLengthPrefixedSlice_def PutVarint32_def PutVarint64_def Let_def)
  ultimately show ?thesis
    by (simp add: VersionEdit_EncodeTo_def Let_def comparator_bytes_def number_bytes_def put_number_def slice_bytes_def
        PutLengthPrefixedSlice_def PutVarint32_def PutVarint64_def)
qed

lemma GetLengthPrefixedSlice_bytes [simp]:
  "length s < 2 ^ 32 \<Longrightarrow> GetLengthPrefixedSlice (slice_bytes s @ rest) = Some (s, rest)"
  using GetLengthPrefixedSlice_Put [of s rest] by (simp add: slice_bytes_def PutLengthPrefixedSlice_def PutVarint32_def)

lemma GetLevel_bytes [simp]: "l < kNumLevels \<Longrightarrow> GetLevel (EncodeVarint32 (word_of_nat l) @ rest) = Some (l, rest)"
  by (auto simp: GetLevel_def kNumLevels_def word_less_nat_alt unat_of_nat take_bit_nat_eq_self)

lemma edit_step: "get_field tag p e = Inr (q, e') \<Longrightarrow> edit_loop (EncodeVarint32 tag @ p) e = edit_loop q e'"
  by (simp add: edit_loop.simps [of "EncodeVarint32 tag @ p"])

lemma comparator_step:
  "length (ve_comparator d) < 2 ^ 32 \<Longrightarrow>
    edit_loop (comparator_bytes d @ rest) e = edit_loop rest (if ve_has_comparator d then e\<lparr> ve_comparator := ve_comparator d, ve_has_comparator := True \<rparr> else e)"
  by (simp add: comparator_bytes_def edit_step get_field_def)

lemma number_step:
  assumes "\<And>p e. get_field tag p e = get_number msg p set_field e"
  shows "edit_loop (number_bytes has_it tag num @ rest) e = edit_loop rest (if has_it then set_field num e else e)"
  using edit_step [of tag "EncodeVarint64 num @ rest" e rest "set_field num e"]
  by (simp add: number_bytes_def assms get_number_def)

lemma numbers_step:
  "edit_loop (number_bytes b kTagLogNumber n @ rest) e
     = edit_loop rest (if b then e\<lparr> ve_log_number := n, ve_has_log_number := True \<rparr> else e)"
  "edit_loop (number_bytes b kTagPrevLogNumber n @ rest) e
     = edit_loop rest (if b then e\<lparr> ve_prev_log_number := n, ve_has_prev_log_number := True \<rparr> else e)"
  "edit_loop (number_bytes b kTagNextFileNumber n @ rest) e
     = edit_loop rest (if b then e\<lparr> ve_next_file_number := n, ve_has_next_file_number := True \<rparr> else e)"
  "edit_loop (number_bytes b kTagLastSequence n @ rest) e
     = edit_loop rest (if b then e\<lparr> ve_last_sequence := n, ve_has_last_sequence := True \<rparr> else e)"
proof -
  note fields = get_field_def version_tags
  show "edit_loop (number_bytes b kTagLogNumber n @ rest) e
     = edit_loop rest (if b then e\<lparr> ve_log_number := n, ve_has_log_number := True \<rparr> else e)"
    by (rule number_step [where msg = "''log number''"]) (simp add: fields)
  show "edit_loop (number_bytes b kTagPrevLogNumber n @ rest) e
     = edit_loop rest (if b then e\<lparr> ve_prev_log_number := n, ve_has_prev_log_number := True \<rparr> else e)"
    by (rule number_step [where msg = "''previous log number''"]) (simp add: fields)
  show "edit_loop (number_bytes b kTagNextFileNumber n @ rest) e
     = edit_loop rest (if b then e\<lparr> ve_next_file_number := n, ve_has_next_file_number := True \<rparr> else e)"
    by (rule number_step [where msg = "''next file number''"]) (simp add: fields)
  show "edit_loop (number_bytes b kTagLastSequence n @ rest) e
     = edit_loop rest (if b then e\<lparr> ve_last_sequence := n, ve_has_last_sequence := True \<rparr> else e)"
    by (rule number_step [where msg = "''last sequence number''"]) (simp add: fields)
qed

lemma compact_pointers_step:
  "\<forall>p \<in> set ps. fst p < kNumLevels \<and> length (snd p) < 2 ^ 32 \<Longrightarrow>
    edit_loop (concat (map compact_pointer_bytes ps) @ rest) e
      = edit_loop rest (e\<lparr> ve_compact_pointers := ve_compact_pointers e @ ps \<rparr>)"
proof (induction ps arbitrary: e)
  case (Cons p ps)
  then show ?case
    by (simp add: compact_pointer_bytes_def edit_step get_field_def get_compact_pointer_def GetInternalKey_def version_tags)
qed simp

lemma deleted_files_step:
  "\<forall>p \<in> set ps. fst p < kNumLevels \<Longrightarrow>
    edit_loop (concat (map deleted_file_bytes ps) @ rest) e
      = edit_loop rest (e\<lparr> ve_deleted_files := set ps \<union> ve_deleted_files e \<rparr>)"
proof (induction ps arbitrary: e)
  case (Cons p ps)
  then show ?case
    by (simp add: deleted_file_bytes_def edit_step get_field_def get_deleted_file_def version_tags)
qed simp

definition sound_file_entry :: "FileMetaData \<Rightarrow> bool" where
  "sound_file_entry f \<longleftrightarrow> fm_allowed_seeks f = 2 ^ 30 \<and> length (fm_smallest f) < 2 ^ 32 \<and> length (fm_largest f) < 2 ^ 32"

lemma new_files_step:
  "\<forall>p \<in> set ps. fst p < kNumLevels \<and> sound_file_entry (snd p) \<Longrightarrow>
    edit_loop (concat (map new_file_bytes ps) @ rest) e = edit_loop rest (e\<lparr> ve_new_files := ve_new_files e @ ps \<rparr>)"
proof (induction ps arbitrary: e)
  case (Cons p ps)
  have "FileMetaData_new\<lparr> fm_number := fm_number f, fm_file_size := fm_file_size f,
      fm_smallest := fm_smallest f, fm_largest := fm_largest f \<rparr> = f" if "sound_file_entry f" for f :: FileMetaData
    using that by (cases f) (simp add: FileMetaData_new_def sound_file_entry_def)
  then show ?case
    using Cons
    by (simp add: new_file_bytes_def edit_step get_field_def get_new_file_def GetInternalKey_def version_tags sound_file_entry_def)
qed simp

text \<open>Edits that can be written: what was not set has its initial value, and levels and lengths are in range.\<close>

definition sound_edit :: "VersionEdit \<Rightarrow> bool" where
  "sound_edit e \<longleftrightarrow>
     (\<not> ve_has_comparator e \<longrightarrow> ve_comparator e = []) \<and> (\<not> ve_has_log_number e \<longrightarrow> ve_log_number e = 0)
     \<and> (\<not> ve_has_prev_log_number e \<longrightarrow> ve_prev_log_number e = 0) \<and> (\<not> ve_has_next_file_number e \<longrightarrow> ve_next_file_number e = 0)
     \<and> (\<not> ve_has_last_sequence e \<longrightarrow> ve_last_sequence e = 0)
     \<and> length (ve_comparator e) < 2 ^ 32
     \<and> (\<forall>p \<in> set (ve_compact_pointers e). fst p < kNumLevels \<and> length (snd p) < 2 ^ 32)
     \<and> finite (ve_deleted_files e) \<and> (\<forall>p \<in> ve_deleted_files e. fst p < kNumLevels)
     \<and> (\<forall>p \<in> set (ve_new_files e). fst p < kNumLevels \<and> sound_file_entry (snd p))"

lemma edit_loop_Nil: "edit_loop [] e = (None, e)"
  by (simp add: edit_loop.simps [of "[]"] GetVarint32_def GetVarint32Ptr_def GetVarint32PtrFallback_def)

lemma edit_loop_EncodeTo:
  assumes "sound_edit e"
  shows "edit_loop (VersionEdit_EncodeTo [] e) (VersionEdit_Clear e0)
    = (None, e\<lparr> ve_compact_pointers := ve_compact_pointers e0 @ ve_compact_pointers e \<rparr>)"
proof -
  have files: "set (sorted_list_of_set (ve_deleted_files e)) = ve_deleted_files e"
    using assms by (simp add: sound_edit_def)
  have "edit_loop (concat (map new_file_bytes (ve_new_files e))) d = (None, d\<lparr> ve_new_files := ve_new_files d @ ve_new_files e \<rparr>)" for d
    using new_files_step [of "ve_new_files e" "[]" d] assms by (simp add: sound_edit_def edit_loop_Nil)
  moreover have "length (ve_comparator e) < 2 ^ 32" using assms by (simp add: sound_edit_def)
  moreover have "\<forall>p \<in> set (ve_compact_pointers e). fst p < kNumLevels \<and> length (snd p) < 2 ^ 32"
    "\<forall>p \<in> set (sorted_list_of_set (ve_deleted_files e)). fst p < kNumLevels"
    unfolding files using assms by (auto simp: sound_edit_def)
  ultimately have "edit_loop (VersionEdit_EncodeTo [] e) (VersionEdit_Clear e0)
    = (None, let d = VersionEdit_Clear e0;
        d = (if ve_has_comparator e then d\<lparr> ve_comparator := ve_comparator e, ve_has_comparator := True \<rparr> else d);
        d = (if ve_has_log_number e then d\<lparr> ve_log_number := ve_log_number e, ve_has_log_number := True \<rparr> else d);
        d = (if ve_has_prev_log_number e then d\<lparr> ve_prev_log_number := ve_prev_log_number e, ve_has_prev_log_number := True \<rparr> else d);
        d = (if ve_has_next_file_number e then d\<lparr> ve_next_file_number := ve_next_file_number e, ve_has_next_file_number := True \<rparr> else d);
        d = (if ve_has_last_sequence e then d\<lparr> ve_last_sequence := ve_last_sequence e, ve_has_last_sequence := True \<rparr> else d);
        d = d\<lparr> ve_compact_pointers := ve_compact_pointers d @ ve_compact_pointers e \<rparr>;
        d = d\<lparr> ve_deleted_files := ve_deleted_files e \<union> ve_deleted_files d \<rparr>
      in d\<lparr> ve_new_files := ve_new_files d @ ve_new_files e \<rparr>)"
    unfolding EncodeTo_eq append_Nil Let_def
    by (simp only: comparator_step numbers_step compact_pointers_step deleted_files_step files)
  also have "\<dots> = (None, e\<lparr> ve_compact_pointers := ve_compact_pointers e0 @ ve_compact_pointers e \<rparr>)"
    using assms
    by (cases "ve_has_comparator e"; cases "ve_has_log_number e"; cases "ve_has_prev_log_number e";
        cases "ve_has_next_file_number e"; cases "ve_has_last_sequence e")
      (simp_all add: Let_def VersionEdit_Clear_def sound_edit_def)
  finally show ?thesis .
qed

end
