(* ===== verification/Ldb_Version.thy ===== *)
theory Ldb_Version
  imports Ldb_Version_Edit Ldb_Table Ldb_Memtable
begin

text \<open>
  Versions (\<^verbatim>\<open>db/version_set.cc\<close>): the files of each level, the search for the files that may hold a key, the
  lookup in them and the choice of files that overlap a range. A pointer to the data of a file is the
  data itself; links between versions and counts of references are not modelled. Indices into a level
  are natural numbers.
\<close>

section \<open>Sizes\<close>

text \<open>Limits are computed as \<^verbatim>\<open>int\<close>: a product that does not fit is undefined behaviour, here \<open>None\<close>.\<close>

definition TargetFileSize :: "Options \<Rightarrow> int" where
  "TargetFileSize options = sint (word_of_nat (opt_max_file_size options) :: 32 word)"

definition int_product :: "int \<Rightarrow> int \<Rightarrow> int option" where
  "int_product a b = (if - (2 ^ 31) \<le> a * b \<and> a * b < 2 ^ 31 then Some (a * b) else None)"

definition MaxGrandParentOverlapBytes :: "Options \<Rightarrow> int option" where
  "MaxGrandParentOverlapBytes options = int_product 10 (TargetFileSize options)"

definition ExpandedCompactionByteSizeLimit :: "Options \<Rightarrow> int option" where
  "ExpandedCompactionByteSizeLimit options = int_product 25 (TargetFileSize options)"

definition MaxFileSizeForLevel :: "Options \<Rightarrow> nat \<Rightarrow> 64 word" where
  "MaxFileSizeForLevel options level = word_of_int (TargetFileSize options)"

definition TotalFileSize :: "FileMetaData list \<Rightarrow> int" where
  "TotalFileSize files = sint (foldl (\<lambda>sum f. sum + fm_file_size f) 0 files)"

section \<open>Versions\<close>

definition kMaxMemCompactLevel :: nat where
  "kMaxMemCompactLevel = 2"

record Version =
  v_files :: "nat \<Rightarrow> FileMetaData list"
  v_file_to_compact :: "FileMetaData option"
  v_file_to_compact_level :: int
  v_compaction_score :: "int \<times> int"
  v_compaction_level :: int

text \<open>The score is a quotient, which the code rounds to a \<^verbatim>\<open>double\<close>; here it is the pair of its numerator and denominator.\<close>

definition Version_new :: Version where
  "Version_new =
     \<lparr> v_files = (\<lambda>_. []), v_file_to_compact = None, v_file_to_compact_level = - 1, v_compaction_score = (- 1, 1),
       v_compaction_level = - 1 \<rparr>"

text \<open>The first file whose largest key is not below a key.\<close>

function find_file_loop :: "Comparator \<Rightarrow> FileMetaData list \<Rightarrow> slice \<Rightarrow> nat \<Rightarrow> nat \<Rightarrow> nat" where
  "find_file_loop c files key left right =
     (if left < right
      then let mid = (left + right) div 2
           in if internal_Compare c (fm_largest (files ! mid)) key < 0
              then find_file_loop c files key (mid + 1) right
              else find_file_loop c files key left mid
      else right)"
  by pat_completeness auto
termination
  by (relation "measure (\<lambda>(c, files, key, left, right). right - left)") auto

declare find_file_loop.simps [simp del]

definition FindFile :: "Comparator \<Rightarrow> FileMetaData list \<Rightarrow> slice \<Rightarrow> nat" where
  "FindFile c files key = find_file_loop c files key 0 (length files)"

text \<open>A range of user keys without bound has \<open>None\<close> for the null pointer.\<close>

definition AfterFile :: "Comparator \<Rightarrow> slice option \<Rightarrow> FileMetaData \<Rightarrow> bool" where
  "AfterFile c user_key f =
     (case user_key of None \<Rightarrow> False | Some k \<Rightarrow> 0 < cmp_Compare c k (ExtractUserKey (fm_largest f)))"

definition BeforeFile :: "Comparator \<Rightarrow> slice option \<Rightarrow> FileMetaData \<Rightarrow> bool" where
  "BeforeFile c user_key f =
     (case user_key of None \<Rightarrow> False | Some k \<Rightarrow> cmp_Compare c k (ExtractUserKey (fm_smallest f)) < 0)"

definition SomeFileOverlapsRange ::
    "Comparator \<Rightarrow> bool \<Rightarrow> FileMetaData list \<Rightarrow> slice option \<Rightarrow> slice option \<Rightarrow> bool" where
  "SomeFileOverlapsRange c disjoint_sorted_files files smallest_user_key largest_user_key =
     (if \<not> disjoint_sorted_files
      then list_ex (\<lambda>f. \<not> (AfterFile c smallest_user_key f \<or> BeforeFile c largest_user_key f)) files
      else let index = (case smallest_user_key of
                   None \<Rightarrow> 0
                 | Some k \<Rightarrow> FindFile c files (InternalKey k kMaxSequenceNumber kValueTypeForSeek))
           in if length files \<le> index then False else \<not> BeforeFile c largest_user_key (files ! index))"

definition OverlapInLevel :: "Comparator \<Rightarrow> nat \<Rightarrow> slice option \<Rightarrow> slice option \<Rightarrow> Version \<Rightarrow> bool" where
  "OverlapInLevel c level smallest_user_key largest_user_key v =
     SomeFileOverlapsRange c (0 < level) (v_files v level) smallest_user_key largest_user_key"

section \<open>The files that may hold a key\<close>

text \<open>Files of level 0 overlap; the one with the largest number is the newest.\<close>

definition NewestFirst :: "FileMetaData list \<Rightarrow> FileMetaData list" where
  "NewestFirst files = sort_key (\<lambda>f. - uint (fm_number f)) files"

definition level0_files :: "Comparator \<Rightarrow> slice \<Rightarrow> Version \<Rightarrow> FileMetaData list" where
  "level0_files c user_key v =
     NewestFirst (filter (\<lambda>f. 0 \<le> cmp_Compare c user_key (ExtractUserKey (fm_smallest f))
         \<and> cmp_Compare c user_key (ExtractUserKey (fm_largest f)) \<le> 0) (v_files v 0))"

definition deeper_file :: "Comparator \<Rightarrow> slice \<Rightarrow> slice \<Rightarrow> FileMetaData list \<Rightarrow> FileMetaData list" where
  "deeper_file c user_key ikey files =
     (let index = FindFile c files ikey
      in if length files \<le> index then []
         else if cmp_Compare c user_key (ExtractUserKey (fm_smallest (files ! index))) < 0 then []
         else [files ! index])"

definition files_for_key :: "Comparator \<Rightarrow> slice \<Rightarrow> slice \<Rightarrow> Version \<Rightarrow> (nat \<times> FileMetaData) list" where
  "files_for_key c user_key ikey v =
     concat (map (\<lambda>level. map (Pair level)
         (if level = 0 then level0_files c user_key v else deeper_file c user_key ikey (v_files v level)))
       [0..<kNumLevels])"

text \<open>Calling a function with a state on each of them, until it returns false.\<close>

fun call_each :: "('a \<Rightarrow> nat \<Rightarrow> FileMetaData \<Rightarrow> bool \<times> 'a) \<Rightarrow> 'a \<Rightarrow> (nat \<times> FileMetaData) list \<Rightarrow> 'a" where
  "call_each func arg [] = arg"
| "call_each func arg ((level, f) # fs) =
     (case func arg level f of (True, arg) \<Rightarrow> call_each func arg fs | (False, arg) \<Rightarrow> arg)"

definition ForEachOverlapping ::
    "Comparator \<Rightarrow> slice \<Rightarrow> slice \<Rightarrow> 'a \<Rightarrow> ('a \<Rightarrow> nat \<Rightarrow> FileMetaData \<Rightarrow> bool \<times> 'a) \<Rightarrow> Version \<Rightarrow> 'a" where
  "ForEachOverlapping c user_key internal_key arg func v = call_each func arg (files_for_key c user_key internal_key v)"

section \<open>Looking up a key\<close>

datatype SaverState = SaverNotFound | SaverFound | SaverDeleted | SaverCorrupt

record Saver =
  sv_state :: SaverState
  sv_ucmp :: Comparator
  sv_user_key :: slice
  sv_value :: slice

definition SaveValue :: "Saver \<Rightarrow> slice \<Rightarrow> slice \<Rightarrow> Saver" where
  "SaveValue s ikey v =
     (case ParseInternalKey ikey of
        None \<Rightarrow> s\<lparr> sv_state := SaverCorrupt \<rparr>
      | Some parsed_key \<Rightarrow>
          if cmp_Compare (sv_ucmp s) (pk_user_key parsed_key) (sv_user_key s) = 0
          then if pk_type parsed_key = kTypeValue then s\<lparr> sv_state := SaverFound, sv_value := v \<rparr>
               else s\<lparr> sv_state := SaverDeleted \<rparr>
          else s)"

record GetStats =
  gs_seek_file :: "FileMetaData option"
  gs_seek_file_level :: int

definition GetStats_new :: GetStats where
  "GetStats_new = \<lparr> gs_seek_file = None, gs_seek_file_level = - 1 \<rparr>"

text \<open>
  The loop over the files. \<open>get\<close> is \<^verbatim>\<open>TableCache::Get\<close> on a state: it delivers a status and the entry for which it
  called the function that saves the value, if any. The second file that is read charges the first.
\<close>

fun get_from_files ::
    "(64 word \<Rightarrow> 64 word \<Rightarrow> slice \<Rightarrow> 's \<Rightarrow> ((Status \<times> entry option) \<times> 's) option) \<Rightarrow> Comparator \<Rightarrow> slice \<Rightarrow> slice
      \<Rightarrow> (nat \<times> FileMetaData) option \<Rightarrow> slice \<Rightarrow> GetStats \<Rightarrow> 's \<Rightarrow> (nat \<times> FileMetaData) list
      \<Rightarrow> (((Status \<times> slice) \<times> GetStats) \<times> 's) option" where
  "get_from_files get ucmp user_key ikey last_file_read value stats s [] = Some (((NotFound [], value), stats), s)"
| "get_from_files get ucmp user_key ikey last_file_read value stats s ((level, f) # fs) =
     (let stats = (case last_file_read of
              Some (l, g) \<Rightarrow>
                if gs_seek_file stats = None then stats\<lparr> gs_seek_file := Some g, gs_seek_file_level := int l \<rparr> else stats
            | None \<Rightarrow> stats)
      in case get (fm_number f) (fm_file_size f) ikey s of
           None \<Rightarrow> None
         | Some ((st, found), s) \<Rightarrow>
             (let saver = \<lparr> sv_state = SaverNotFound, sv_ucmp = ucmp, sv_user_key = user_key, sv_value = value \<rparr>;
                  saver = (case found of None \<Rightarrow> saver | Some (k, v) \<Rightarrow> SaveValue saver k v)
              in if \<not> status_ok st then Some (((st, sv_value saver), stats), s)
                 else case sv_state saver of
                     SaverNotFound \<Rightarrow> get_from_files get ucmp user_key ikey (Some (level, f)) (sv_value saver) stats s fs
                   | SaverFound \<Rightarrow> Some (((st, sv_value saver), stats), s)
                   | SaverDeleted \<Rightarrow> Some (((NotFound [], sv_value saver), stats), s)
                   | SaverCorrupt \<Rightarrow>
                       Some (((make_Status kCorruption ''corrupted key for '' (map (\<lambda>b. char_of (unat b)) user_key), sv_value saver), stats), s)))"

definition Version_Get ::
    "(64 word \<Rightarrow> 64 word \<Rightarrow> slice \<Rightarrow> 's \<Rightarrow> ((Status \<times> entry option) \<times> 's) option) \<Rightarrow> Comparator
      \<Rightarrow> lookup_key \<Rightarrow> slice \<Rightarrow> Version \<Rightarrow> 's \<Rightarrow> (((Status \<times> slice) \<times> GetStats) \<times> 's) option" where
  "Version_Get get c k value v s =
     (let ikey = lk_internal_key k; user_key = lk_user_key k
      in get_from_files get c user_key ikey None value GetStats_new s (files_for_key c user_key ikey v))"

section \<open>Counting seeks\<close>

text \<open>The number of allowed seeks of a file in the version; files of a level have different numbers.\<close>

definition file_numbered :: "nat \<Rightarrow> FileMetaData \<Rightarrow> Version \<Rightarrow> FileMetaData" where
  "file_numbered level f v =
     (case List.find (\<lambda>g. fm_number g = fm_number f) (v_files v level) of None \<Rightarrow> f | Some g \<Rightarrow> g)"

definition charge_seek :: "nat \<Rightarrow> FileMetaData \<Rightarrow> Version \<Rightarrow> Version" where
  "charge_seek level f v =
     v\<lparr> v_files := (v_files v)(level :=
          map (\<lambda>g. if fm_number g = fm_number f then g\<lparr> fm_allowed_seeks := fm_allowed_seeks g - 1 \<rparr> else g) (v_files v level)) \<rparr>"

definition UpdateStats :: "GetStats \<Rightarrow> Version \<Rightarrow> bool \<times> Version" where
  "UpdateStats stats v =
     (case gs_seek_file stats of
        None \<Rightarrow> (False, v)
      | Some f \<Rightarrow>
          let level = nat (gs_seek_file_level stats); g = file_numbered level f v;
              f = g\<lparr> fm_allowed_seeks := fm_allowed_seeks g - 1 \<rparr>; v = charge_seek level f v
          in if fm_allowed_seeks f \<le> 0 \<and> v_file_to_compact v = None
             then (True, v\<lparr> v_file_to_compact := Some f, v_file_to_compact_level := gs_seek_file_level stats \<rparr>)
             else (False, v))"

definition match_file :: "GetStats \<times> nat \<Rightarrow> nat \<Rightarrow> FileMetaData \<Rightarrow> bool \<times> GetStats \<times> nat" where
  "match_file arg level f =
     (let matches = snd arg + 1;
          stats = (if matches = 1 then (fst arg)\<lparr> gs_seek_file := Some f, gs_seek_file_level := int level \<rparr> else fst arg)
      in (matches < 2, stats, matches))"

definition RecordReadSample :: "Comparator \<Rightarrow> slice \<Rightarrow> Version \<Rightarrow> bool \<times> Version" where
  "RecordReadSample c internal_key v =
     (case ParseInternalKey internal_key of
        None \<Rightarrow> (False, v)
      | Some ikey \<Rightarrow>
          let (stats, matches) = ForEachOverlapping c (pk_user_key ikey) internal_key (GetStats_new, 0) match_file v
          in if 2 \<le> matches then UpdateStats stats v else (False, v))"

section \<open>The files that overlap a range\<close>

text \<open>
  The range widens to the files of level 0 that it meets, and the search starts again each time.
  The loop reads the bounds as user keys, \<open>None\<close> where there is no bound.
\<close>

partial_function (option) overlap_loop ::
    "Comparator \<Rightarrow> bool \<Rightarrow> FileMetaData list \<Rightarrow> slice option \<Rightarrow> slice option \<Rightarrow> nat \<Rightarrow> FileMetaData list
      \<Rightarrow> FileMetaData list option" where
  "overlap_loop c level0 files user_begin user_end i inputs =
     (if length files \<le> i then Some inputs
      else let f = files ! i; file_start = ExtractUserKey (fm_smallest f); file_limit = ExtractUserKey (fm_largest f)
           in if user_begin \<noteq> None \<and> cmp_Compare c file_limit (the user_begin) < 0
              then overlap_loop c level0 files user_begin user_end (i + 1) inputs
              else if user_end \<noteq> None \<and> 0 < cmp_Compare c file_start (the user_end)
              then overlap_loop c level0 files user_begin user_end (i + 1) inputs
              else if level0 \<and> user_begin \<noteq> None \<and> cmp_Compare c file_start (the user_begin) < 0
              then overlap_loop c level0 files (Some file_start) user_end 0 []
              else if level0 \<and> user_end \<noteq> None \<and> 0 < cmp_Compare c file_limit (the user_end)
              then overlap_loop c level0 files user_begin (Some file_limit) 0 []
              else overlap_loop c level0 files user_begin user_end (i + 1) (inputs @ [f]))"

declare overlap_loop.simps [code]

lemma overlap_loop_Nil [simp]: "overlap_loop c level0 [] user_begin user_end i inputs = Some inputs"
  by (simp add: overlap_loop.simps)

definition GetOverlappingInputs ::
    "Comparator \<Rightarrow> nat \<Rightarrow> slice option \<Rightarrow> slice option \<Rightarrow> Version \<Rightarrow> FileMetaData list option" where
  "GetOverlappingInputs c level begin_key end_key v =
     overlap_loop c (level = 0) (v_files v level) (map_option ExtractUserKey begin_key) (map_option ExtractUserKey end_key) 0 []"

section \<open>Where a memtable goes\<close>

text \<open>\<open>None\<close>: a limit overflows, or a search does not return.\<close>

function pick_level_loop :: "Comparator \<Rightarrow> Options \<Rightarrow> slice \<Rightarrow> slice \<Rightarrow> Version \<Rightarrow> nat \<Rightarrow> nat option" where
  "pick_level_loop c options smallest_user_key largest_user_key v level =
     (if level < kMaxMemCompactLevel
      then if OverlapInLevel c (level + 1) (Some smallest_user_key) (Some largest_user_key) v then Some level
           else if level + 2 < kNumLevels
           then case GetOverlappingInputs c (level + 2) (Some (InternalKey smallest_user_key kMaxSequenceNumber kValueTypeForSeek))
                    (Some (InternalKey largest_user_key 0 kTypeDeletion)) v of
                  None \<Rightarrow> None
                | Some overlaps \<Rightarrow>
                    (case MaxGrandParentOverlapBytes options of
                       None \<Rightarrow> None
                     | Some limit \<Rightarrow>
                         if limit < TotalFileSize overlaps then Some level
                         else pick_level_loop c options smallest_user_key largest_user_key v (level + 1))
           else pick_level_loop c options smallest_user_key largest_user_key v (level + 1)
      else Some level)"
  by pat_completeness auto
termination
  by (relation "measure (\<lambda>(c, options, a, b, v, level). kMaxMemCompactLevel - level)") auto

declare pick_level_loop.simps [simp del]

definition PickLevelForMemTableOutput :: "Comparator \<Rightarrow> Options \<Rightarrow> slice \<Rightarrow> slice \<Rightarrow> Version \<Rightarrow> nat option" where
  "PickLevelForMemTableOutput c options smallest_user_key largest_user_key v =
     (if \<not> OverlapInLevel c 0 (Some smallest_user_key) (Some largest_user_key) v
      then pick_level_loop c options smallest_user_key largest_user_key v 0
      else Some 0)"

end
