(* ===== verification/Ldb_Version_Search.thy ===== *)
theory Ldb_Version_Search
  imports Ldb_Version Ldb_DB_Iter_View
begin

text \<open>
  What the searches among the files of a level find: the binary search for a file, the test for an overlap and the
  choice of the files that overlap a range.
\<close>

section \<open>Sorted levels\<close>

text \<open>The keys of a file are internal keys in their order, and the files of a level follow each other.\<close>

definition sound_file :: "Comparator \<Rightarrow> FileMetaData \<Rightarrow> bool" where
  "sound_file c f \<longleftrightarrow> ParseInternalKey (fm_smallest f) \<noteq> None \<and> ParseInternalKey (fm_largest f) \<noteq> None
     \<and> internal_Compare c (fm_smallest f) (fm_largest f) \<le> 0"

definition disjoint_files :: "Comparator \<Rightarrow> FileMetaData list \<Rightarrow> bool" where
  "disjoint_files c files \<longleftrightarrow>
     (\<forall>f \<in> set files. sound_file c f) \<and> sorted_wrt (\<lambda>f g. internal_Compare c (fm_largest f) (fm_smallest g) < 0) files"

abbreviation file_start :: "FileMetaData \<Rightarrow> slice" where
  "file_start f \<equiv> ExtractUserKey (fm_smallest f)"

abbreviation file_limit :: "FileMetaData \<Rightarrow> slice" where
  "file_limit f \<equiv> ExtractUserKey (fm_largest f)"

context user_comparator
begin

lemma internal_le_cases:
  assumes "internal_Compare c a b \<le> 0"
  obtains "internal_Compare c a b < 0" | "ExtractUserKey a = ExtractUserKey b" "key_tag a = key_tag b"
  using assms internal_Compare_eq [of a b] by linarith

lemma internal_le_trans:
  "internal_Compare c a b \<le> 0 \<Longrightarrow> internal_Compare c b d < 0 \<Longrightarrow> internal_Compare c a d < 0"
  by (erule internal_le_cases) (blast intro: internal_Compare_trans, simp add: internal_Compare_less)

lemma internal_trans_le:
  "internal_Compare c a b < 0 \<Longrightarrow> internal_Compare c b d \<le> 0 \<Longrightarrow> internal_Compare c a d < 0"
  by (erule internal_le_cases [of b d]) (blast intro: internal_Compare_trans, simp add: internal_Compare_less)

lemma user_le: "internal_Compare c a b \<le> 0 \<Longrightarrow> cmp_Compare c (ExtractUserKey a) (ExtractUserKey b) \<le> 0"
  by (erule internal_le_cases) (auto simp: internal_Compare_less compare_refl)

lemma user_le_trans: "cmp_Compare c a b \<le> 0 \<Longrightarrow> cmp_Compare c b d \<le> 0 \<Longrightarrow> cmp_Compare c a d \<le> 0"
  using compare_le_trans [of a b d] compare_eq [of b d] by (cases "cmp_Compare c b d = 0") auto

lemma user_not_less: "\<not> cmp_Compare c a b < 0 \<longleftrightarrow> cmp_Compare c b a \<le> 0"
  using compare_swap [of b a] compare_eq [of a b] compare_eq [of b a] by auto

lemma user_greater: "0 < cmp_Compare c a b \<longleftrightarrow> cmp_Compare c b a < 0"
  by (rule compare_swap) simp_all

lemma disjoint_nth:
  assumes "disjoint_files c files" and "i < j" and "j < length files"
  shows "internal_Compare c (fm_largest (files ! i)) (fm_smallest (files ! j)) < 0"
  using assms sorted_wrt_nth_less by (auto simp: disjoint_files_def)

lemma disjoint_sound: "disjoint_files c files \<Longrightarrow> i < length files \<Longrightarrow> sound_file c (files ! i)"
  by (simp add: disjoint_files_def)

lemma disjoint_largest:
  assumes "disjoint_files c files" and "i < j" and "j < length files"
  shows "internal_Compare c (fm_largest (files ! i)) (fm_largest (files ! j)) < 0"
  using internal_trans_le [OF disjoint_nth [OF assms]] disjoint_sound [OF assms(1,3)] by (simp add: sound_file_def)

lemma disjoint_smallest:
  assumes "disjoint_files c files" and "i < j" and "j < length files"
  shows "internal_Compare c (fm_smallest (files ! i)) (fm_smallest (files ! j)) < 0"
  using internal_le_trans [OF _ disjoint_nth [OF assms]] disjoint_sound [OF assms(1), of i] assms(2,3) by (simp add: sound_file_def)

section \<open>The binary search\<close>

lemma find_file_loop_spec:
  assumes "\<And>i j. i < j \<Longrightarrow> j < length files \<Longrightarrow> internal_Compare c (fm_largest (files ! i)) (fm_largest (files ! j)) < 0"
    and "left \<le> right" and "right \<le> length files"
    and "\<And>i. i < left \<Longrightarrow> internal_Compare c (fm_largest (files ! i)) key < 0"
    and "\<And>i. right \<le> i \<Longrightarrow> i < length files \<Longrightarrow> \<not> internal_Compare c (fm_largest (files ! i)) key < 0"
  shows "find_file_loop c files key left right \<le> length files
    \<and> (\<forall>i < find_file_loop c files key left right. internal_Compare c (fm_largest (files ! i)) key < 0)
    \<and> (\<forall>i. find_file_loop c files key left right \<le> i \<and> i < length files \<longrightarrow> \<not> internal_Compare c (fm_largest (files ! i)) key < 0)"
  using assms(2-5)
proof (induction "right - left" arbitrary: left right rule: less_induct)
  case less
  show ?case
  proof (cases "left < right")
    case True
    define mid where "mid = (left + right) div 2"
    have mid: "left \<le> mid" "mid < right" using True by (auto simp: mid_def)
    show ?thesis
    proof (cases "internal_Compare c (fm_largest (files ! mid)) key < 0")
      case below: True
      have eq: "find_file_loop c files key left right = find_file_loop c files key (mid + 1) right"
        using True below by (simp add: find_file_loop.simps [of c files key left right] mid_def [symmetric])
      have "internal_Compare c (fm_largest (files ! i)) key < 0" if "i < mid + 1" for i
        using that below internal_Compare_trans [OF assms(1) [of i mid] below] mid less.prems(2) by (cases "i = mid") auto
      then show ?thesis unfolding eq using mid less.prems by (intro less.hyps) auto
    next
      case above: False
      have eq: "find_file_loop c files key left right = find_file_loop c files key left mid"
        using True above by (simp add: find_file_loop.simps [of c files key left right] mid_def [symmetric])
      have "\<not> internal_Compare c (fm_largest (files ! i)) key < 0" if "mid \<le> i" "i < length files" for i
        using that above internal_Compare_trans [OF assms(1) [of mid i]] by (cases "i = mid") auto
      then show ?thesis unfolding eq using mid less.prems by (intro less.hyps) auto
    qed
  next
    case False
    then have "left = right" using less.prems(1) by simp
    moreover have "find_file_loop c files key left right = right"
      using False by (simp add: find_file_loop.simps [of c files key left right])
    ultimately show ?thesis using less.prems by simp
  qed
qed

lemma FindFile_spec:
  assumes "disjoint_files c files"
  shows "FindFile c files key \<le> length files"
    and "i < FindFile c files key \<Longrightarrow> internal_Compare c (fm_largest (files ! i)) key < 0"
    and "FindFile c files key \<le> i \<Longrightarrow> i < length files \<Longrightarrow> \<not> internal_Compare c (fm_largest (files ! i)) key < 0"
  using find_file_loop_spec [of files 0 "length files" key] disjoint_largest [OF assms] by (auto simp: FindFile_def)

section \<open>Overlaps\<close>

lemma tag_le_max: "ParseInternalKey k \<noteq> None \<Longrightarrow> key_tag k \<le> PackSequenceAndType kMaxSequenceNumber kValueTypeForSeek"
proof -
  assume "ParseInternalKey k \<noteq> None"
  then obtain ikey where ikey: "ParseInternalKey k = Some ikey" by auto
  have "unat (pk_sequence ikey) < 2 ^ 56" using unat_drop_bit [of 8 "key_tag k"] unat64_less [of "key_tag k"]
    by (simp add: ParseInternalKey_parts(2) [OF ikey])
  then show ?thesis
    using ParseInternalKey_parts(4) [OF ikey] unat_PackSequenceAndType [of kMaxSequenceNumber kValueTypeForSeek]
    by (auto simp: word_le_nat_alt unat_kMaxSequenceNumber kValueTypeForSeek_def split: if_splits)
qed

lemma below_earliest:
  "ParseInternalKey k \<noteq> None \<Longrightarrow>
    internal_Compare c k (InternalKey u kMaxSequenceNumber kValueTypeForSeek) < 0 \<longleftrightarrow> cmp_Compare c (ExtractUserKey k) u < 0"
  using tag_le_max [of k] by (auto simp: internal_Compare_less)

text \<open>The binary search answers like the linear one.\<close>

lemma overlap_sorted:
  assumes "disjoint_files c files"
  shows "SomeFileOverlapsRange c True files lo hi = SomeFileOverlapsRange c False files lo hi"
proof -
  define index where "index = (case lo of None \<Rightarrow> 0
    | Some k \<Rightarrow> FindFile c files (InternalKey k kMaxSequenceNumber kValueTypeForSeek))"
  have after: "AfterFile c lo (files ! i) \<longleftrightarrow> i < index" if "i < length files" for i
  proof (cases lo)
    case (Some k)
    have parse: "ParseInternalKey (fm_largest (files ! i)) \<noteq> None" using disjoint_sound [OF assms that] by (simp add: sound_file_def)
    have "i < index \<longleftrightarrow> internal_Compare c (fm_largest (files ! i)) (InternalKey k kMaxSequenceNumber kValueTypeForSeek) < 0"
      using FindFile_spec(2,3) [OF assms, where i = i and key = "InternalKey k kMaxSequenceNumber kValueTypeForSeek"] that Some
      by (cases "FindFile c files (InternalKey k kMaxSequenceNumber kValueTypeForSeek) \<le> i") (auto simp: index_def)
    then show ?thesis using below_earliest [OF parse] user_greater Some by (simp add: AfterFile_def)
  qed (simp add: AfterFile_def index_def)
  have mono: "BeforeFile c hi (files ! j)" if "BeforeFile c hi (files ! i)" "i \<le> j" "j < length files" for i j
  proof (cases hi)
    case (Some k)
    have "cmp_Compare c (file_start (files ! i)) (file_start (files ! j)) \<le> 0"
      using user_le [of "fm_smallest (files ! i)" "fm_smallest (files ! j)"] disjoint_smallest [OF assms, of i j] that(2,3)
        compare_refl by (cases "i = j") auto
    then show ?thesis
      using that(1) Some user_le_trans [of "file_start (files ! i)" "file_start (files ! j)" k] user_not_less [of k]
      by (auto simp: BeforeFile_def)
  qed (use that in \<open>simp add: BeforeFile_def\<close>)
  have "(\<exists>i < length files. \<not> (AfterFile c lo (files ! i) \<or> BeforeFile c hi (files ! i)))
      \<longleftrightarrow> index < length files \<and> \<not> BeforeFile c hi (files ! index)"
  proof
    assume "\<exists>i < length files. \<not> (AfterFile c lo (files ! i) \<or> BeforeFile c hi (files ! i))"
    then obtain i where "i < length files" "index \<le> i" "\<not> BeforeFile c hi (files ! i)" using after by force
    then show "index < length files \<and> \<not> BeforeFile c hi (files ! index)" using mono [of index i] by auto
  qed (use after in auto)
  then show ?thesis
    by (auto simp: SomeFileOverlapsRange_def index_def [symmetric] list_ex_length Let_def not_le)
qed

section \<open>The files that overlap a range\<close>

definition overlaps_range :: "slice option \<Rightarrow> slice option \<Rightarrow> FileMetaData \<Rightarrow> bool" where
  "overlaps_range lo hi f \<longleftrightarrow>
     (\<forall>k. lo = Some k \<longrightarrow> \<not> cmp_Compare c (file_limit f) k < 0) \<and> (\<forall>k. hi = Some k \<longrightarrow> \<not> 0 < cmp_Compare c (file_start f) k)"

definition inside_range :: "slice option \<Rightarrow> slice option \<Rightarrow> FileMetaData \<Rightarrow> bool" where
  "inside_range lo hi f \<longleftrightarrow>
     (\<forall>k. lo = Some k \<longrightarrow> \<not> cmp_Compare c (file_start f) k < 0) \<and> (\<forall>k. hi = Some k \<longrightarrow> \<not> 0 < cmp_Compare c (file_limit f) k)"

definition wider_range :: "slice option \<Rightarrow> slice option \<Rightarrow> slice option \<Rightarrow> slice option \<Rightarrow> bool" where
  "wider_range lo hi lo' hi' \<longleftrightarrow>
     (lo = None \<longleftrightarrow> lo' = None) \<and> (hi = None \<longleftrightarrow> hi' = None)
     \<and> (\<forall>k k'. lo = Some k \<longrightarrow> lo' = Some k' \<longrightarrow> cmp_Compare c k' k \<le> 0)
     \<and> (\<forall>k k'. hi = Some k \<longrightarrow> hi' = Some k' \<longrightarrow> cmp_Compare c k k' \<le> 0)"

definition outside_count :: "slice option \<Rightarrow> slice option \<Rightarrow> FileMetaData list \<Rightarrow> nat" where
  "outside_count lo hi files =
     length (filter (\<lambda>f. case lo of None \<Rightarrow> False | Some k \<Rightarrow> cmp_Compare c (file_start f) k < 0) files)
     + length (filter (\<lambda>f. case hi of None \<Rightarrow> False | Some k \<Rightarrow> 0 < cmp_Compare c (file_limit f) k) files)"

lemma length_filter_drops:
  assumes "\<And>y. y \<in> set xs \<Longrightarrow> Q y \<Longrightarrow> P y" and "x \<in> set xs" and "P x" and "\<not> Q x"
  shows "length (filter Q xs) < length (filter P xs)"
proof -
  have "filter Q xs = filter Q (filter P xs)" using assms(1) by (auto intro: filter_cong)
  moreover have "length (filter Q (filter P xs)) < length (filter P xs)"
    by (rule length_filter_less [of x]) (use assms in auto)
  ultimately show ?thesis by simp
qed

lemma outside_count_start:
  assumes "f \<in> set files" and "cmp_Compare c (file_start f) k < 0"
  shows "outside_count (Some (file_start f)) hi files < outside_count (Some k) hi files"
proof -
  have "length (filter (\<lambda>g. cmp_Compare c (file_start g) (file_start f) < 0) files) < length (filter (\<lambda>g. cmp_Compare c (file_start g) k < 0) files)"
    by (rule length_filter_drops [where x = f]) (use assms(1) compare_trans assms(2) compare_irrefl in auto)
  then show ?thesis by (simp add: outside_count_def)
qed

lemma outside_count_limit:
  assumes "f \<in> set files" and "0 < cmp_Compare c (file_limit f) k"
  shows "outside_count lo (Some (file_limit f)) files < outside_count lo (Some k) files"
proof -
  have "length (filter (\<lambda>g. 0 < cmp_Compare c (file_limit g) (file_limit f)) files) < length (filter (\<lambda>g. 0 < cmp_Compare c (file_limit g) k) files)"
    by (rule length_filter_drops [where x = f]) (use assms(1) compare_trans assms(2) compare_irrefl in \<open>auto simp: user_greater\<close>)
  then show ?thesis by (simp add: outside_count_def)
qed

lemma wider_refl: "wider_range lo hi lo hi"
  by (auto simp: wider_range_def compare_refl)

lemma wider_start:
  "wider_range (Some a) hi lo' hi' \<Longrightarrow> cmp_Compare c a k < 0 \<Longrightarrow> wider_range (Some k) hi lo' hi'"
  using user_le_trans [of _ a k] by (fastforce simp: wider_range_def)

lemma wider_limit:
  "wider_range lo (Some a) lo' hi' \<Longrightarrow> 0 < cmp_Compare c a k \<Longrightarrow> wider_range lo (Some k) lo' hi'"
  using user_le_trans [of k a] by (fastforce simp: wider_range_def user_greater)

text \<open>The loop returns; on level 0 the files that overlap lie inside of the range that it ends with.\<close>

lemma overlap_loop_spec:
  assumes "inputs = filter (overlaps_range lo hi) (take i files)" and "level0 \<longrightarrow> (\<forall>f \<in> set inputs. inside_range lo hi f)"
  shows "\<exists>lo' hi'. wider_range lo hi lo' hi' \<and> (\<not> level0 \<longrightarrow> lo' = lo \<and> hi' = hi)
    \<and> overlap_loop c level0 files lo hi i inputs = Some (filter (overlaps_range lo' hi') files)
    \<and> (level0 \<longrightarrow> (\<forall>f \<in> set files. overlaps_range lo' hi' f \<longrightarrow> inside_range lo' hi' f))"
  using assms
proof (induction "(outside_count lo hi files, length files - i)" arbitrary: lo hi i inputs rule: wf_induct_rule [OF wf_lex_prod [OF wf_less_than wf_less_than]])
  case less: 1
  show ?case
  proof (cases "length files \<le> i")
    case True
    then show ?thesis using less.prems wider_refl
      by (intro exI [of _ lo] exI [of _ hi]) (auto simp: overlap_loop.simps [of c level0 files lo hi i])
  next
    case False
    define f where "f = files ! i"
    have f: "f \<in> set files" "take (i + 1) files = take i files @ [f]"
      using False by (simp_all add: f_def take_Suc_conv_app_nth)
    note loop = overlap_loop.simps [of c level0 files lo hi i inputs, unfolded Let_def, folded f_def]
    have inputs: "filter (overlaps_range lo hi) (take (i + 1) files) = inputs @ (if overlaps_range lo hi f then [f] else [])"
      unfolding f(2) less.prems(1) by simp
    have step: "\<exists>lo' hi'. wider_range lo hi lo' hi' \<and> (\<not> level0 \<longrightarrow> lo' = lo \<and> hi' = hi)
        \<and> overlap_loop c level0 files lo hi (i + 1) ins = Some (filter (overlaps_range lo' hi') files)
        \<and> (level0 \<longrightarrow> (\<forall>f \<in> set files. overlaps_range lo' hi' f \<longrightarrow> inside_range lo' hi' f))"
      if "ins = filter (overlaps_range lo hi) (take (i + 1) files)" "level0 \<longrightarrow> (\<forall>f \<in> set ins. inside_range lo hi f)" for ins
      using False by (intro less.hyps that) simp
    show ?thesis
    proof (cases "overlaps_range lo hi f")
      case out: False
      then have "overlap_loop c level0 files lo hi i inputs = overlap_loop c level0 files lo hi (i + 1) inputs"
        unfolding loop using False by (auto simp: overlaps_range_def)
      then show ?thesis using step [of inputs] inputs out less.prems(2) by simp
    next
      case over: True
      show ?thesis
      proof (cases "level0 \<and> \<not> inside_range lo hi f")
        case grow: True
        then consider k where "lo = Some k" "cmp_Compare c (file_start f) k < 0"
          | k where "hi = Some k" "0 < cmp_Compare c (file_limit f) k" "\<forall>j. lo = Some j \<longrightarrow> \<not> cmp_Compare c (file_start f) j < 0"
          by (auto simp: inside_range_def)
        then show ?thesis
        proof cases
          case 1
          have "overlap_loop c level0 files lo hi i inputs = overlap_loop c level0 files (Some (file_start f)) hi 0 []"
            unfolding loop using False over grow 1 by (auto simp: overlaps_range_def)
          moreover have "\<exists>lo' hi'. wider_range (Some (file_start f)) hi lo' hi' \<and> (\<not> level0 \<longrightarrow> lo' = Some (file_start f) \<and> hi' = hi)
              \<and> overlap_loop c level0 files (Some (file_start f)) hi 0 [] = Some (filter (overlaps_range lo' hi') files)
              \<and> (level0 \<longrightarrow> (\<forall>f \<in> set files. overlaps_range lo' hi' f \<longrightarrow> inside_range lo' hi' f))"
            using outside_count_start [OF f(1) 1(2), of hi] 1(1) by (intro less.hyps) simp_all
          ultimately show ?thesis using wider_start [OF _ 1(2)] grow 1(1) by fastforce
        next
          case 2
          have "overlap_loop c level0 files lo hi i inputs = overlap_loop c level0 files lo (Some (file_limit f)) 0 []"
            unfolding loop using False over grow 2 by (auto simp: overlaps_range_def)
          moreover have "\<exists>lo' hi'. wider_range lo (Some (file_limit f)) lo' hi' \<and> (\<not> level0 \<longrightarrow> lo' = lo \<and> hi' = Some (file_limit f))
              \<and> overlap_loop c level0 files lo (Some (file_limit f)) 0 [] = Some (filter (overlaps_range lo' hi') files)
              \<and> (level0 \<longrightarrow> (\<forall>f \<in> set files. overlaps_range lo' hi' f \<longrightarrow> inside_range lo' hi' f))"
            using outside_count_limit [OF f(1) 2(2), of lo] 2(1) by (intro less.hyps) simp_all
          ultimately show ?thesis using wider_limit [OF _ 2(2)] grow 2(1) by fastforce
        qed
      next
        case False': False
        have "overlap_loop c level0 files lo hi i inputs = overlap_loop c level0 files lo hi (i + 1) (inputs @ [f])"
          unfolding loop using False over False' by (auto simp: overlaps_range_def inside_range_def)
        moreover have "inputs @ [f] = filter (overlaps_range lo hi) (take (i + 1) files)" using inputs over by simp
        moreover have "level0 \<longrightarrow> (\<forall>g \<in> set (inputs @ [f]). inside_range lo hi g)"
          using False' less.prems(2) by auto
        ultimately show ?thesis using step [of "inputs @ [f]"] by simp
      qed
    qed
  qed
qed

end

end
