(* ===== verification/Ldb_Version_Builder.thy ===== *)
theory Ldb_Version_Builder
  imports Ldb_Version_Search
begin

text \<open>
  The builder of versions (\<^verbatim>\<open>VersionSet::Builder\<close> in \<^verbatim>\<open>db/version_set.cc\<close>): it collects edits and merges them
  with the files of a base version. \<^verbatim>\<open>std::set\<close> is a list in the order of the set; counts of references are
  not modelled.
\<close>

section \<open>The builder\<close>

definition by_smallest_key :: "Comparator \<Rightarrow> FileMetaData \<Rightarrow> FileMetaData \<Rightarrow> bool" where
  "by_smallest_key c f1 f2 =
     (let r = internal_Compare c (fm_smallest f1) (fm_smallest f2)
      in if r \<noteq> 0 then r < 0 else fm_number f1 < fm_number f2)"

fun insert_file :: "Comparator \<Rightarrow> FileMetaData \<Rightarrow> FileMetaData list \<Rightarrow> FileMetaData list" where
  "insert_file c f [] = [f]"
| "insert_file c f (g # gs) =
     (if by_smallest_key c g f then g # insert_file c f gs
      else if by_smallest_key c f g then f # g # gs
      else g # gs)"

record LevelState =
  ls_deleted_files :: "64 word set"
  ls_added_files :: "FileMetaData list"

record Builder =
  bd_base :: Version
  bd_levels :: "nat \<Rightarrow> LevelState"

definition Builder_new :: "Version \<Rightarrow> Builder" where
  "Builder_new base = \<lparr> bd_base = base, bd_levels = (\<lambda>_. \<lparr> ls_deleted_files = {}, ls_added_files = [] \<rparr>) \<rparr>"

section \<open>Applying an edit\<close>

definition apply_pointers :: "(nat \<times> slice) list \<Rightarrow> (nat \<Rightarrow> slice) \<Rightarrow> nat \<Rightarrow> slice" where
  "apply_pointers pointers compact_pointer = foldl (\<lambda>m (level, key). m(level := key)) compact_pointer pointers"

definition delete_files :: "(nat \<times> 64 word) set \<Rightarrow> (nat \<Rightarrow> LevelState) \<Rightarrow> nat \<Rightarrow> LevelState" where
  "delete_files del levels =
     (\<lambda>level. (levels level)\<lparr> ls_deleted_files := ls_deleted_files (levels level) \<union> {number. (level, number) \<in> del} \<rparr>)"

text \<open>One seek is allowed for every 16 KB of a file, and never fewer than 100.\<close>

definition with_allowed_seeks :: "FileMetaData \<Rightarrow> FileMetaData" where
  "with_allowed_seeks f =
     (let seeks = sint (ucast (fm_file_size f div 16384) :: 32 word)
      in f\<lparr> fm_allowed_seeks := (if seeks < 100 then 100 else seeks) \<rparr>)"

definition add_file :: "Comparator \<Rightarrow> (nat \<Rightarrow> LevelState) \<Rightarrow> nat \<times> FileMetaData \<Rightarrow> nat \<Rightarrow> LevelState" where
  "add_file c levels p =
     (let level = fst p; f = with_allowed_seeks (snd p); ls = levels level
      in levels(level := ls\<lparr> ls_deleted_files := ls_deleted_files ls - {fm_number f},
           ls_added_files := insert_file c f (ls_added_files ls) \<rparr>))"

text \<open>The builder, and the compaction pointers of the version set.\<close>

definition Builder_Apply ::
    "Comparator \<Rightarrow> VersionEdit \<Rightarrow> Builder \<times> (nat \<Rightarrow> slice) \<Rightarrow> Builder \<times> (nat \<Rightarrow> slice)" where
  "Builder_Apply c edit s =
     (let b = fst s;
          compact_pointer = apply_pointers (ve_compact_pointers edit) (snd s);
          levels = delete_files (ve_deleted_files edit) (bd_levels b);
          levels = foldl (add_file c) levels (ve_new_files edit)
      in (b\<lparr> bd_levels := levels \<rparr>, compact_pointer))"

section \<open>The new version\<close>

definition MaybeAddFile :: "64 word set \<Rightarrow> FileMetaData list \<Rightarrow> FileMetaData \<Rightarrow> FileMetaData list" where
  "MaybeAddFile deleted files f = (if fm_number f \<in> deleted then files else files @ [f])"

text \<open>\<^verbatim>\<open>std::upper_bound\<close> on sorted files: how many come before the first file that is larger.\<close>

definition upper_bound :: "Comparator \<Rightarrow> FileMetaData list \<Rightarrow> FileMetaData \<Rightarrow> nat" where
  "upper_bound c files f = length (takeWhile (\<lambda>g. \<not> by_smallest_key c f g) files)"

fun save_level ::
    "Comparator \<Rightarrow> 64 word set \<Rightarrow> FileMetaData list \<Rightarrow> FileMetaData list \<Rightarrow> FileMetaData list \<Rightarrow> FileMetaData list" where
  "save_level c deleted base [] files = foldl (MaybeAddFile deleted) files base"
| "save_level c deleted base (f # added) files =
     (let bpos = upper_bound c base f;
          files = foldl (MaybeAddFile deleted) files (take bpos base)
      in save_level c deleted (drop bpos base) added (MaybeAddFile deleted files f))"

definition SaveTo :: "Comparator \<Rightarrow> Builder \<Rightarrow> Version \<Rightarrow> Version" where
  "SaveTo c b v =
     v\<lparr> v_files := (\<lambda>level.
          if level < kNumLevels
          then let ls = bd_levels b level
               in save_level c (ls_deleted_files ls) (v_files (bd_base b) level) (ls_added_files ls) (v_files v level)
          else v_files v level) \<rparr>"

section \<open>What is saved\<close>

text \<open>Files in the order of their smallest keys, and of their numbers where those are equal.\<close>

definition sorted_files :: "Comparator \<Rightarrow> FileMetaData list \<Rightarrow> bool" where
  "sorted_files c files \<longleftrightarrow> sorted_wrt (\<lambda>f g. \<not> by_smallest_key c g f) files"

lemma foldl_MaybeAddFile: "foldl (MaybeAddFile deleted) files fs = files @ filter (\<lambda>f. fm_number f \<notin> deleted) fs"
  by (induction fs arbitrary: files) (simp_all add: MaybeAddFile_def)

lemma set_save_level:
  "set (save_level c deleted base added files)
     = set files \<union> {f \<in> set base \<union> set added. fm_number f \<notin> deleted}"
proof (induction added arbitrary: base files)
  case (Cons f added)
  define n where "n = upper_bound c base f"
  have base: "set base = set (take n base) \<union> set (drop n base)" by (metis append_take_drop_id set_append)
  show ?case
    unfolding base save_level.simps Let_def n_def [symmetric] Cons.IH
    by (auto simp: foldl_MaybeAddFile MaybeAddFile_def)
qed (auto simp: foldl_MaybeAddFile)

context user_comparator
begin

lemma by_smallest_less:
  "by_smallest_key c f g \<longleftrightarrow>
     cmp_Compare c (ExtractUserKey (fm_smallest f)) (ExtractUserKey (fm_smallest g)) < 0
     \<or> ExtractUserKey (fm_smallest f) = ExtractUserKey (fm_smallest g)
       \<and> (key_tag (fm_smallest g) < key_tag (fm_smallest f)
          \<or> key_tag (fm_smallest f) = key_tag (fm_smallest g) \<and> fm_number f < fm_number g)"
  using compare_irrefl by (auto simp: by_smallest_key_def Let_def internal_Compare_eq internal_Compare_less)

lemma key_less_trans:
  fixes a b d :: slice and x y z m n k :: "64 word"
  assumes "cmp_Compare c a b < 0 \<or> a = b \<and> (y < x \<or> x = y \<and> m < n)"
    and "cmp_Compare c b d < 0 \<or> b = d \<and> (z < y \<or> y = z \<and> n < k)"
  shows "cmp_Compare c a d < 0 \<or> a = d \<and> (z < x \<or> x = z \<and> m < k)"
  using assms compare_trans [of a b d] by auto

lemma key_less_negative:
  fixes a b d :: slice and x y z m n k :: "64 word"
  assumes "\<not> (cmp_Compare c b a < 0 \<or> b = a \<and> (x < y \<or> y = x \<and> n < m))"
    and "\<not> (cmp_Compare c d b < 0 \<or> d = b \<and> (y < z \<or> z = y \<and> k < n))"
  shows "\<not> (cmp_Compare c d a < 0 \<or> d = a \<and> (x < z \<or> z = x \<and> k < m))"
proof -
  have "cmp_Compare c d b < 0" if "cmp_Compare c d a < 0"
    by (rule compare_linear [of a b]) (use that assms(1) compare_trans [of d a b] in auto)
  moreover have "cmp_Compare c d b < 0" if "d = a" "a \<noteq> b"
    by (rule compare_linear [of a b]) (use that assms(1) in auto)
  ultimately show ?thesis using assms by (cases "a = b") auto
qed

lemma by_smallest_irrefl [simp]: "\<not> by_smallest_key c f f"
  using compare_irrefl by (simp add: by_smallest_less)

lemma by_smallest_trans: "by_smallest_key c f g \<Longrightarrow> by_smallest_key c g h \<Longrightarrow> by_smallest_key c f h"
  unfolding by_smallest_less by (rule key_less_trans)

lemma by_smallest_asym: "by_smallest_key c f g \<Longrightarrow> \<not> by_smallest_key c g f"
  using by_smallest_trans by_smallest_irrefl by blast

lemma by_smallest_linear: "by_smallest_key c f g \<or> by_smallest_key c g f \<or> fm_number f = fm_number g"
  unfolding by_smallest_less
  by (rule compare_linear [of "ExtractUserKey (fm_smallest f)" "ExtractUserKey (fm_smallest g)"]) auto

lemma by_smallest_negative:
  "\<not> by_smallest_key c g f \<Longrightarrow> \<not> by_smallest_key c h g \<Longrightarrow> \<not> by_smallest_key c h f"
  unfolding by_smallest_less by (rule key_less_negative)

lemma set_insert_file: "fm_number f \<notin> fm_number ` set gs \<Longrightarrow> set (insert_file c f gs) = insert f (set gs)"
proof (induction gs)
  case (Cons g gs)
  then show ?case using by_smallest_linear [of f g] by auto
qed simp

lemma sorted_insert_file:
  "sorted_wrt (by_smallest_key c) gs \<Longrightarrow> fm_number f \<notin> fm_number ` set gs \<Longrightarrow> sorted_wrt (by_smallest_key c) (insert_file c f gs)"
proof (induction gs)
  case (Cons g gs)
  have "fm_number f \<notin> fm_number ` set gs" using Cons.prems(2) by simp
  then show ?case
    using Cons set_insert_file [of f gs] by_smallest_trans [of f g] by auto
qed simp

lemma sorted_save_level:
  assumes "sorted_files c base" and "sorted_wrt (by_smallest_key c) added" and "sorted_files c files"
    and "\<forall>f \<in> set files. \<forall>g \<in> set base \<union> set added. \<not> by_smallest_key c g f"
  shows "sorted_files c (save_level c deleted base added files)"
  using assms
proof (induction added arbitrary: base files)
  case Nil
  have "sorted_wrt (\<lambda>f g. \<not> by_smallest_key c g f) (filter (\<lambda>f. fm_number f \<notin> deleted) base)"
    using Nil.prems(1) by (simp add: sorted_files_def sorted_wrt_filter)
  then show ?case using Nil.prems by (auto simp: sorted_files_def foldl_MaybeAddFile sorted_wrt_append)
next
  case (Cons f added)
  define n where "n = upper_bound c base f"
  have low: "\<not> by_smallest_key c f g" if "g \<in> set (take n base)" for g
    using that by (auto simp: n_def upper_bound_def takeWhile_eq_take [symmetric] dest: set_takeWhileD)
  have high: "by_smallest_key c f g" if g: "g \<in> set (drop n base)" for g
  proof -
    have "drop n base = dropWhile (\<lambda>g. \<not> by_smallest_key c f g) base" by (simp add: n_def upper_bound_def dropWhile_eq_drop)
    then obtain h hs where h: "drop n base = h # hs" "by_smallest_key c f h"
      using g hd_dropWhile [of "\<lambda>g. \<not> by_smallest_key c f g" base] by (cases "dropWhile (\<lambda>g. \<not> by_smallest_key c f g) base") auto
    have "sorted_wrt (\<lambda>f g. \<not> by_smallest_key c g f) (h # hs)"
      using Cons.prems(1) sorted_wrt_drop [of _ base n] unfolding h(1) [symmetric] by (simp add: sorted_files_def)
    then consider "g = h" | "\<not> by_smallest_key c g h" using g h(1) by auto
    then show ?thesis
    proof cases
      case 2
      then show ?thesis using by_smallest_negative [OF 2, of f] h(2) by (cases "by_smallest_key c f g") simp_all
    qed (simp add: h(2))
  qed
  have parts: "set (take n base) \<subseteq> set base" "set (drop n base) \<subseteq> set base" by (auto dest: in_set_takeD in_set_dropD)
  have cross: "\<not> by_smallest_key c h g" if "g \<in> set (take n base)" "h \<in> set (drop n base)" for g h
  proof -
    have "sorted_wrt (\<lambda>f g. \<not> by_smallest_key c g f) (take n base @ drop n base)"
      using Cons.prems(1) by (simp add: sorted_files_def)
    then show ?thesis unfolding sorted_wrt_append using that by blast
  qed
  let ?files = "MaybeAddFile deleted (foldl (MaybeAddFile deleted) files (take n base)) f"
  have sub: "set ?files \<subseteq> insert f (set files \<union> set (take n base))" by (auto simp: foldl_MaybeAddFile MaybeAddFile_def)
  have "sorted_files c ?files"
    using Cons.prems(1,3,4) low parts(1) sorted_wrt_take [of _ base n]
    by (auto simp: sorted_files_def foldl_MaybeAddFile MaybeAddFile_def sorted_wrt_append sorted_wrt_filter)
  moreover have "\<forall>g \<in> set ?files. \<forall>h \<in> set (drop n base) \<union> set added. \<not> by_smallest_key c h g"
  proof (intro ballI)
    fix g h
    assume "g \<in> set ?files" and h: "h \<in> set (drop n base) \<union> set added"
    then consider "g = f" | "g \<in> set files" | "g \<in> set (take n base)" using sub by blast
    then show "\<not> by_smallest_key c h g"
    proof cases
      case 1
      then have "by_smallest_key c g h" using h high Cons.prems(2) by auto
      then show ?thesis by (rule by_smallest_asym)
    next
      case 2
      then show ?thesis using Cons.prems(4) h parts(2) by auto
    next
      case 3
      show ?thesis
      proof (cases "h \<in> set (drop n base)")
        case False
        then have "by_smallest_key c f h" using h Cons.prems(2) by auto
        then show ?thesis using low [OF 3] by_smallest_negative [of f g h] by_smallest_asym by blast
      qed (rule cross [OF 3])
    qed
  qed
  moreover have "sorted_files c (drop n base)" using Cons.prems(1) by (simp add: sorted_files_def sorted_wrt_drop)
  ultimately show ?case using Cons.IH Cons.prems(2) by (simp add: n_def [symmetric] Let_def)
qed

end

section \<open>Edits one after another\<close>

text \<open>What an edit does to the files of a level.\<close>

definition edit_files :: "nat \<Rightarrow> VersionEdit \<Rightarrow> FileMetaData set \<Rightarrow> FileMetaData set" where
  "edit_files level e fs =
     {f \<in> fs. (level, fm_number f) \<notin> ve_deleted_files e} \<union> with_allowed_seeks ` {f. (level, f) \<in> set (ve_new_files e)}"

text \<open>Each new file of a level has a number that no file of the level ever had.\<close>

definition new_at :: "nat \<Rightarrow> VersionEdit \<Rightarrow> FileMetaData list" where
  "new_at level e = map snd (filter (\<lambda>p. fst p = level) (ve_new_files e))"

primrec fresh_edits :: "nat \<Rightarrow> 64 word set \<Rightarrow> VersionEdit list \<Rightarrow> bool" where
  "fresh_edits level used [] = True"
| "fresh_edits level used (e # es) =
     (distinct (map fm_number (new_at level e)) \<and> fm_number ` set (new_at level e) \<inter> used = {}
      \<and> fresh_edits level (used \<union> fm_number ` set (new_at level e)) es)"

definition live_files :: "Builder \<Rightarrow> nat \<Rightarrow> FileMetaData set" where
  "live_files b level =
     {f \<in> set (v_files (bd_base b) level) \<union> set (ls_added_files (bd_levels b level)).
        fm_number f \<notin> ls_deleted_files (bd_levels b level)}"

definition add_to_level :: "Comparator \<Rightarrow> LevelState \<Rightarrow> FileMetaData \<Rightarrow> LevelState" where
  "add_to_level c ls f =
     ls\<lparr> ls_deleted_files := ls_deleted_files ls - {fm_number f},
        ls_added_files := insert_file c (with_allowed_seeks f) (ls_added_files ls) \<rparr>"

lemma fm_number_with_allowed_seeks [simp]: "fm_number (with_allowed_seeks f) = fm_number f"
  by (simp add: with_allowed_seeks_def Let_def)

lemma add_file_level: "add_file c levels p level = (if fst p = level then add_to_level c (levels level) (snd p) else levels level)"
  by (auto simp: add_file_def add_to_level_def Let_def)

lemma foldl_add_file:
  "foldl (add_file c) levels ps level = foldl (add_to_level c) (levels level) (map snd (filter (\<lambda>p. fst p = level) ps))"
  by (induction ps arbitrary: levels) (simp_all add: add_file_level)

lemma Builder_Apply_level:
  "bd_levels (fst (Builder_Apply c e s)) level =
     foldl (add_to_level c) (delete_files (ve_deleted_files e) (bd_levels (fst s)) level) (new_at level e)"
  by (simp add: Builder_Apply_def Let_def foldl_add_file new_at_def)

lemma Builder_Apply_base [simp]: "bd_base (fst (Builder_Apply c e s)) = bd_base (fst s)"
  by (simp add: Builder_Apply_def Let_def)

context user_comparator
begin

lemma add_to_level_all:
  assumes "sorted_wrt (by_smallest_key c) (ls_added_files ls)" and "distinct (map fm_number fs)"
    and "fm_number ` set fs \<inter> fm_number ` set (ls_added_files ls) = {}"
  shows "ls_deleted_files (foldl (add_to_level c) ls fs) = ls_deleted_files ls - fm_number ` set fs
    \<and> set (ls_added_files (foldl (add_to_level c) ls fs)) = set (ls_added_files ls) \<union> with_allowed_seeks ` set fs
    \<and> sorted_wrt (by_smallest_key c) (ls_added_files (foldl (add_to_level c) ls fs))"
  using assms
proof (induction fs arbitrary: ls)
  case (Cons f fs)
  have new: "fm_number (with_allowed_seeks f) \<notin> fm_number ` set (ls_added_files ls)" using Cons.prems(3) by auto
  let ?ls = "add_to_level c ls f"
  have set: "set (ls_added_files ?ls) = insert (with_allowed_seeks f) (set (ls_added_files ls))"
    using set_insert_file [OF new] by (simp add: add_to_level_def)
  have "sorted_wrt (by_smallest_key c) (ls_added_files ?ls)"
    using sorted_insert_file [OF Cons.prems(1) new] by (simp add: add_to_level_def)
  moreover have "fm_number ` set fs \<inter> fm_number ` set (ls_added_files ?ls) = {}"
    using Cons.prems(2,3) unfolding set by auto
  ultimately show ?case
    using Cons.IH [of ?ls] Cons.prems(2) unfolding set by (auto simp: add_to_level_def)
qed simp

lemma Apply_live:
  assumes "sorted_wrt (by_smallest_key c) (ls_added_files (bd_levels (fst s) level))"
    and "fm_number ` (set (v_files (bd_base (fst s)) level) \<union> set (ls_added_files (bd_levels (fst s) level))) \<subseteq> used"
    and "distinct (map fm_number (new_at level e))" and "fm_number ` set (new_at level e) \<inter> used = {}"
  shows "live_files (fst (Builder_Apply c e s)) level = edit_files level e (live_files (fst s) level)"
    and "sorted_wrt (by_smallest_key c) (ls_added_files (bd_levels (fst (Builder_Apply c e s)) level))"
    and "fm_number ` (set (v_files (bd_base (fst s)) level) \<union> set (ls_added_files (bd_levels (fst (Builder_Apply c e s)) level)))
      \<subseteq> used \<union> fm_number ` set (new_at level e)"
proof -
  let ?ls = "delete_files (ve_deleted_files e) (bd_levels (fst s)) level" and ?B = "set (v_files (bd_base (fst s)) level)"
  have added: "ls_added_files ?ls = ls_added_files (bd_levels (fst s) level)" by (simp add: delete_files_def)
  have deleted: "ls_deleted_files ?ls = ls_deleted_files (bd_levels (fst s) level) \<union> {number. (level, number) \<in> ve_deleted_files e}"
    by (simp add: delete_files_def)
  have "fm_number ` set (new_at level e) \<inter> fm_number ` set (ls_added_files ?ls) = {}" using assms(2,4) unfolding added by blast
  from add_to_level_all [OF _ assms(3) this] assms(1)
  have r: "ls_deleted_files (bd_levels (fst (Builder_Apply c e s)) level) = ls_deleted_files ?ls - fm_number ` set (new_at level e)"
    "set (ls_added_files (bd_levels (fst (Builder_Apply c e s)) level))
       = set (ls_added_files (bd_levels (fst s) level)) \<union> with_allowed_seeks ` set (new_at level e)"
    "sorted_wrt (by_smallest_key c) (ls_added_files (bd_levels (fst (Builder_Apply c e s)) level))"
    by (simp_all add: added Builder_Apply_level)
  show "sorted_wrt (by_smallest_key c) (ls_added_files (bd_levels (fst (Builder_Apply c e s)) level))" by (rule r(3))
  have "fm_number ` with_allowed_seeks ` set (new_at level e) = fm_number ` set (new_at level e)" by (simp add: image_image)
  then show "fm_number ` (?B \<union> set (ls_added_files (bd_levels (fst (Builder_Apply c e s)) level)))
      \<subseteq> used \<union> fm_number ` set (new_at level e)"
    using assms(2) unfolding r(2) image_Un by blast
  have old: "fm_number f \<notin> fm_number ` set (new_at level e)"
    if "f \<in> ?B \<union> set (ls_added_files (bd_levels (fst s) level))" for f
    using that assms(2,4) by blast
  have "{f. (level, f) \<in> set (ve_new_files e)} = set (new_at level e)" by (force simp: new_at_def)
  then show "live_files (fst (Builder_Apply c e s)) level = edit_files level e (live_files (fst s) level)"
    unfolding live_files_def edit_files_def r(1,2) deleted Builder_Apply_base using old by auto
qed

text \<open>The builder does what its edits do one after another.\<close>

lemma Apply_all_live:
  assumes "sorted_wrt (by_smallest_key c) (ls_added_files (bd_levels (fst s) level))"
    and "fm_number ` (set (v_files (bd_base (fst s)) level) \<union> set (ls_added_files (bd_levels (fst s) level))) \<subseteq> used"
    and "fresh_edits level used es"
  shows "live_files (fst (foldl (\<lambda>s e. Builder_Apply c e s) s es)) level = foldl (\<lambda>fs e. edit_files level e fs) (live_files (fst s) level) es
    \<and> sorted_wrt (by_smallest_key c) (ls_added_files (bd_levels (fst (foldl (\<lambda>s e. Builder_Apply c e s) s es)) level))
    \<and> bd_base (fst (foldl (\<lambda>s e. Builder_Apply c e s) s es)) = bd_base (fst s)"
  using assms
proof (induction es arbitrary: s used)
  case (Cons e es)
  have fresh: "distinct (map fm_number (new_at level e))" "fm_number ` set (new_at level e) \<inter> used = {}"
    using Cons.prems(3) by simp_all
  note r = Apply_live [OF Cons.prems(1,2) fresh]
  show ?case using Cons.IH [of "Builder_Apply c e s" "used \<union> fm_number ` set (new_at level e)"] r Cons.prems(3) by simp
qed simp

lemma SaveTo_all:
  assumes "sorted_files c (v_files base level)" and "level < kNumLevels"
    and "fresh_edits level (fm_number ` set (v_files base level)) es"
  shows "sorted_files c (v_files (SaveTo c (fst (foldl (\<lambda>s e. Builder_Apply c e s) (Builder_new base, m) es)) Version_new) level)
    \<and> set (v_files (SaveTo c (fst (foldl (\<lambda>s e. Builder_Apply c e s) (Builder_new base, m) es)) Version_new) level)
      = foldl (\<lambda>fs e. edit_files level e fs) (set (v_files base level)) es"
proof -
  define b where "b = fst (foldl (\<lambda>s e. Builder_Apply c e s) (Builder_new base, m) es)"
  have new: "ls_added_files (bd_levels (Builder_new base) level) = []" "bd_base (Builder_new base) = base"
    "live_files (Builder_new base) level = set (v_files base level)"
    by (simp_all add: Builder_new_def live_files_def)
  have b: "live_files b level = foldl (\<lambda>fs e. edit_files level e fs) (set (v_files base level)) es"
    "sorted_wrt (by_smallest_key c) (ls_added_files (bd_levels b level))" "bd_base b = base"
    using Apply_all_live [of "(Builder_new base, m)" level "fm_number ` set (v_files base level)" es, folded b_def] assms(3)
      new by simp_all
  show ?thesis
    unfolding b_def [symmetric]
    using sorted_save_level [OF assms(1) b(2), of "[]"] b(1,3) assms(2)
    by (simp add: SaveTo_def Let_def Version_new_def set_save_level live_files_def sorted_files_def)
qed

text \<open>Files that do not overlap follow each other.\<close>

lemma sorted_disjoint:
  assumes "sorted_files c files" and "distinct (map fm_number files)"
    and "\<And>f. f \<in> set files \<Longrightarrow> internal_Compare c (fm_smallest f) (fm_largest f) \<le> 0"
    and "\<And>f g. f \<in> set files \<Longrightarrow> g \<in> set files \<Longrightarrow> f \<noteq> g \<Longrightarrow>
      internal_Compare c (fm_largest f) (fm_smallest g) < 0 \<or> internal_Compare c (fm_largest g) (fm_smallest f) < 0"
  shows "sorted_wrt (\<lambda>f g. internal_Compare c (fm_largest f) (fm_smallest g) < 0) files"
  unfolding sorted_wrt_iff_nth_less
proof (intro allI impI)
  fix i j
  assume ij: "i < j" "j < length files"
  let ?f = "files ! i" and ?g = "files ! j"
  have ne: "?f \<noteq> ?g" using assms(2) ij by (auto simp: distinct_map nth_eq_iff_index_eq)
  have "\<not> by_smallest_key c ?g ?f" using assms(1) ij by (simp add: sorted_files_def sorted_wrt_iff_nth_less)
  moreover have "internal_Compare c (fm_smallest ?g) (fm_smallest ?f) < 0"
    if "internal_Compare c (fm_largest ?g) (fm_smallest ?f) < 0"
    using internal_le_trans [OF _ that] assms(3) [of ?g] ij by simp
  ultimately show "internal_Compare c (fm_largest ?f) (fm_smallest ?g) < 0"
    using assms(4) [of ?f ?g] ne ij by (auto simp: by_smallest_key_def)
qed

end

end
