(* ===== verification/Ldb_Filename.thy ===== *)
theory Ldb_Filename
  imports Ldb_Log
begin

text \<open>
  Decimal numbers (\<^verbatim>\<open>util/logging.cc\<close>) and the names of the files of a database (\<^verbatim>\<open>db/filename.cc\<close>).
  Names are strings of characters.
\<close>

section \<open>Decimal numbers\<close>

definition AppendNumberTo :: "string \<Rightarrow> 64 word \<Rightarrow> string" where
  "AppendNumberTo str num = str @ decimal (unat num)"

definition NumberToString :: "64 word \<Rightarrow> string" where
  "NumberToString num = AppendNumberTo [] num"

text \<open>Two hexadecimal digits, as \<^verbatim>\<open>%02x\<close> writes them.\<close>

definition hex_digit :: "nat \<Rightarrow> char" where
  "hex_digit n = ''0123456789abcdef'' ! n"

definition AppendEscapedStringTo :: "string \<Rightarrow> string \<Rightarrow> string" where
  "AppendEscapedStringTo str value =
     str @ concat (map (\<lambda>c. if 32 \<le> (of_char c :: nat) \<and> (of_char c :: nat) \<le> 126 then [c]
         else [CHR 0x5C, CHR ''x'', hex_digit (of_char c div 16), hex_digit (of_char c mod 16)]) value)"

definition EscapeString :: "string \<Rightarrow> string" where
  "EscapeString value = AppendEscapedStringTo [] value"

definition digit_value :: "char \<Rightarrow> nat" where
  "digit_value ch = of_char ch - 48"

definition is_digit :: "char \<Rightarrow> bool" where
  "is_digit ch \<longleftrightarrow> 48 \<le> (of_char ch :: nat) \<and> (of_char ch :: nat) \<le> 57"

text \<open>The value so far, whether there was a digit, and what is left; \<open>None\<close> when the value overflows.\<close>

definition kMaxUint64 :: "64 word" where
  "kMaxUint64 = - 1"

fun decimal_loop :: "string \<Rightarrow> 64 word \<Rightarrow> nat \<Rightarrow> (64 word \<times> nat \<times> string) option" where
  "decimal_loop [] v digits = Some (v, digits, [])"
| "decimal_loop (ch # rest) v digits =
     (if is_digit ch
      then let delta = word_of_nat (digit_value ch)
           in if v > kMaxUint64 div 10 \<or> v = kMaxUint64 div 10 \<and> delta > kMaxUint64 mod 10 then None
              else decimal_loop rest (v * 10 + delta) (digits + 1)
      else Some (v, digits, ch # rest))"

definition ConsumeDecimalNumber :: "string \<Rightarrow> (64 word \<times> string) option" where
  "ConsumeDecimalNumber input =
     (case decimal_loop input 0 0 of
        None \<Rightarrow> None
      | Some (v, digits, rest) \<Rightarrow> if 0 < digits then Some (v, rest) else None)"

section \<open>Names\<close>

text \<open>The numeral that \<^verbatim>\<open>%06llu\<close> writes.\<close>

definition decimal6 :: "nat \<Rightarrow> string" where
  "decimal6 n = replicate (6 - length (decimal n)) (CHR ''0'') @ decimal n"

definition MakeFileName :: "string \<Rightarrow> 64 word \<Rightarrow> string \<Rightarrow> string" where
  "MakeFileName name number extension = name @ ''/'' @ decimal6 (unat number) @ ''.'' @ extension"

definition LogFileName :: "string \<Rightarrow> 64 word \<Rightarrow> string" where
  "LogFileName name number = MakeFileName name number ''log''"

definition TableFileName :: "string \<Rightarrow> 64 word \<Rightarrow> string" where
  "TableFileName name number = MakeFileName name number ''ldb''"

definition SSTTableFileName :: "string \<Rightarrow> 64 word \<Rightarrow> string" where
  "SSTTableFileName name number = MakeFileName name number ''sst''"

definition DescriptorFileName :: "string \<Rightarrow> 64 word \<Rightarrow> string" where
  "DescriptorFileName dbname number = dbname @ ''/MANIFEST-'' @ decimal6 (unat number)"

definition CurrentFileName :: "string \<Rightarrow> string" where
  "CurrentFileName dbname = dbname @ ''/CURRENT''"

definition LockFileName :: "string \<Rightarrow> string" where
  "LockFileName dbname = dbname @ ''/LOCK''"

definition TempFileName :: "string \<Rightarrow> 64 word \<Rightarrow> string" where
  "TempFileName dbname number = MakeFileName dbname number ''dbtmp''"

definition InfoLogFileName :: "string \<Rightarrow> string" where
  "InfoLogFileName dbname = dbname @ ''/LOG''"

definition OldInfoLogFileName :: "string \<Rightarrow> string" where
  "OldInfoLogFileName dbname = dbname @ ''/LOG.old''"

datatype FileType = kLogFile | kDBLockFile | kTableFile | kDescriptorFile | kCurrentFile | kTempFile | kInfoLogFile

definition ParseFileName :: "string \<Rightarrow> (64 word \<times> FileType) option" where
  "ParseFileName fname =
     (if fname = ''CURRENT'' then Some (0, kCurrentFile)
      else if fname = ''LOCK'' then Some (0, kDBLockFile)
      else if fname = ''LOG'' \<or> fname = ''LOG.old'' then Some (0, kInfoLogFile)
      else if take 9 fname = ''MANIFEST-'' then
        (case ConsumeDecimalNumber (drop 9 fname) of
           None \<Rightarrow> None
         | Some (num, rest) \<Rightarrow> if rest \<noteq> [] then None else Some (num, kDescriptorFile))
      else
        (case ConsumeDecimalNumber fname of
           None \<Rightarrow> None
         | Some (num, extension) \<Rightarrow>
             if extension = ''.log'' then Some (num, kLogFile)
             else if extension = ''.sst'' \<or> extension = ''.ldb'' then Some (num, kTableFile)
             else if extension = ''.dbtmp'' then Some (num, kTempFile)
             else None))"

section \<open>Reading decimal numbers\<close>

definition digits_value :: "string \<Rightarrow> nat" where
  "digits_value ds = foldl (\<lambda>v ch. 10 * v + digit_value ch) 0 ds"

lemma digits_value_foldl: "foldl (\<lambda>v ch. 10 * v + digit_value ch) a ds = a * 10 ^ length ds + digits_value ds"
  unfolding digits_value_def
proof (induction ds arbitrary: a)
  case (Cons d ds)
  show ?case
    using Cons.IH [of "10 * a + digit_value d"] Cons.IH [of "digit_value d"] by (simp add: algebra_simps)
qed simp

lemma digit_value_less: "is_digit ch \<Longrightarrow> digit_value ch < 10"
  unfolding is_digit_def digit_value_def by linarith

text \<open>The test for overflow is exact: it lets a digit through when the new value fits.\<close>

lemma overflow_test:
  assumes "d < 10"
  shows "(v > kMaxUint64 div 10 \<or> v = kMaxUint64 div 10 \<and> word_of_nat d > kMaxUint64 mod 10) \<longleftrightarrow> 2 ^ 64 \<le> 10 * unat v + d"
proof -
  have m: "unat (kMaxUint64 div 10) = 1844674407370955161" "unat (kMaxUint64 mod 10) = 5" by (simp_all add: kMaxUint64_def)
  have d: "unat (word_of_nat d :: 64 word) = d" using assms by (simp add: unat_of_nat take_bit_nat_eq_self)
  show ?thesis unfolding word_less_nat_alt word_unat_eq_iff m d using assms by auto
qed

lemma decimal_loop_digits:
  assumes "\<forall>ch \<in> set ds. is_digit ch" and "rest = [] \<or> \<not> is_digit (hd rest)"
  shows "decimal_loop (ds @ rest) v k =
    (if unat v * 10 ^ length ds + digits_value ds < 2 ^ 64
     then Some (word_of_nat (unat v * 10 ^ length ds + digits_value ds), k + length ds, rest) else None)"
  using assms(1)
proof (induction ds arbitrary: v k)
  case Nil
  have "unat v < 2 ^ 64" by (rule unat64_less)
  then show ?case using assms(2) by (cases rest) (simp_all add: digits_value_def)
next
  case (Cons d ds)
  have d: "is_digit d" using Cons.prems by simp
  have val: "digits_value (d # ds) = digit_value d * 10 ^ length ds + digits_value ds"
    using digits_value_foldl [of "digit_value d" ds] by (simp add: digits_value_def)
  show ?case
  proof (cases "2 ^ 64 \<le> 10 * unat v + digit_value d")
    case True
    have "(10 * unat v + digit_value d) * 1 \<le> (10 * unat v + digit_value d) * 10 ^ length ds" by (intro mult_le_mono) simp_all
    then have "\<not> unat v * 10 ^ length (d # ds) + digits_value (d # ds) < 2 ^ 64"
      using True by (simp add: val algebra_simps)
    moreover have "decimal_loop ((d # ds) @ rest) v k = None"
      using d True overflow_test [OF digit_value_less [OF d], of v] by (simp add: Let_def)
    ultimately show ?thesis by simp
  next
    case False
    then have "unat (v * 10 + word_of_nat (digit_value d)) = 10 * unat v + digit_value d"
      using digit_value_less [OF d] by (simp add: unat_word_ariths unat_of_nat take_bit_nat_eq_self)
    moreover have "decimal_loop ((d # ds) @ rest) v k = decimal_loop (ds @ rest) (v * 10 + word_of_nat (digit_value d)) (k + 1)"
      using d False overflow_test [OF digit_value_less [OF d], of v] by (simp only: append_Cons decimal_loop.simps Let_def if_True if_False)
    ultimately show ?thesis
      using Cons.IH [of "v * 10 + word_of_nat (digit_value d)" "k + 1"] Cons.prems val
      by (simp add: algebra_simps)
  qed
qed

lemma decimal_digits: "(\<forall>ch \<in> set (decimal n). is_digit ch) \<and> digits_value (decimal n) = n \<and> decimal n \<noteq> []"
proof (induction n rule: decimal.induct)
  case (1 n)
  have ch: "of_char (char_of (48 + m) :: char) = (48 + m :: nat)" if "m < 10" for m
    using that by simp
  show ?case
  proof (cases "n < 10")
    case True
    then show ?thesis using ch [of n]
      by (simp add: decimal.simps [of n] is_digit_def digit_value_def digits_value_def)
  next
    case False
    then show ?thesis using 1 ch [of "n mod 10"]
      by (simp add: decimal.simps [of n] is_digit_def digit_value_def digits_value_def)
  qed
qed

lemma ConsumeDecimalNumber_digits:
  assumes "\<forall>ch \<in> set ds. is_digit ch" and "rest = [] \<or> \<not> is_digit (hd rest)"
  shows "ConsumeDecimalNumber (ds @ rest) =
    (if ds \<noteq> [] \<and> digits_value ds < 2 ^ 64 then Some (word_of_nat (digits_value ds), rest) else None)"
  using decimal_loop_digits [OF assms, of 0 0] by (simp add: ConsumeDecimalNumber_def)

lemma decimal6_digits: "(\<forall>ch \<in> set (decimal6 n). is_digit ch) \<and> digits_value (decimal6 n) = n \<and> decimal6 n \<noteq> []"
proof -
  have "foldl (\<lambda>v ch. 10 * v + digit_value ch) 0 (replicate k (CHR ''0'')) = 0" for k
    by (induction k) (simp_all add: digit_value_def)
  then have "digits_value (decimal6 n) = digits_value (decimal n)"
    by (simp add: decimal6_def digits_value_def)
  then show ?thesis using decimal_digits [of n] by (auto simp: decimal6_def is_digit_def)
qed

lemma ConsumeDecimalNumber_decimal6:
  assumes "rest = [] \<or> \<not> is_digit (hd rest)"
  shows "ConsumeDecimalNumber (decimal6 (unat number) @ rest) = Some (number, rest)"
    and "ConsumeDecimalNumber (NumberToString number @ rest) = Some (number, rest)"
  using ConsumeDecimalNumber_digits [OF _ assms, of "decimal6 (unat number)"] decimal6_digits [of "unat number"]
    ConsumeDecimalNumber_digits [OF _ assms, of "decimal (unat number)"] decimal_digits [of "unat number"] unat64_less [of number]
  by (simp_all add: NumberToString_def AppendNumberTo_def)

section \<open>Reading names\<close>

lemma numbered_name:
  assumes "extension = ''log'' \<or> extension = ''ldb'' \<or> extension = ''sst'' \<or> extension = ''dbtmp''"
  shows "ParseFileName (decimal6 (unat number) @ ''.'' @ extension) =
    Some (number, if extension = ''log'' then kLogFile else if extension = ''dbtmp'' then kTempFile else kTableFile)"
proof -
  obtain ch rest where d: "decimal6 (unat number) = ch # rest" "is_digit ch"
    using decimal6_digits [of "unat number"] by (cases "decimal6 (unat number)") auto
  have no: "ch \<noteq> CHR ''C''" "ch \<noteq> CHR ''L''" "ch \<noteq> CHR ''M''" using d(2) by (auto simp: is_digit_def)
  have "ConsumeDecimalNumber (decimal6 (unat number) @ ''.'' @ extension) = Some (number, ''.'' @ extension)"
    by (rule ConsumeDecimalNumber_decimal6) (simp add: is_digit_def)
  then show ?thesis using assms no d(1) by (auto simp: ParseFileName_def)
qed

lemma descriptor_name: "ParseFileName (''MANIFEST-'' @ decimal6 (unat number)) = Some (number, kDescriptorFile)"
  using ConsumeDecimalNumber_decimal6(1) [of "[]" number] by (simp add: ParseFileName_def)

end
