(* ===== verification/Ldb_Version_Read.thy ===== *)
theory Ldb_Version_Read
  imports Ldb_Version_Search Ldb_Table_Read "HOL-Library.Multiset"
begin

text \<open>
  What a lookup in a version finds: the newest entry of a key that a snapshot sees, among all entries of all files.
  The locale \<open>file_store\<close> states what it needs of the cache of tables.
\<close>

section \<open>Reading from a set of entries\<close>

definition entry_sequence :: "entry \<Rightarrow> SequenceNumber" where
  "entry_sequence e = drop_bit 8 (key_tag (fst e))"

text \<open>The versions of a key that a snapshot sees.\<close>

definition seen :: "entry set \<Rightarrow> slice \<Rightarrow> SequenceNumber \<Rightarrow> entry set" where
  "seen E u n = {e \<in> E. user_key e = u \<and> visible_entry n e}"

definition newest :: "entry set \<Rightarrow> slice \<Rightarrow> SequenceNumber \<Rightarrow> entry \<Rightarrow> bool" where
  "newest E u n e \<longleftrightarrow> e \<in> seen E u n \<and> (\<forall>e' \<in> seen E u n. entry_sequence e' \<le> entry_sequence e)"

text \<open>What reading a key delivers: the newest value, or that there is none; then the result variable stays.\<close>

definition reads :: "entry set \<Rightarrow> slice \<Rightarrow> SequenceNumber \<Rightarrow> slice \<Rightarrow> Status \<times> slice \<Rightarrow> bool" where
  "reads E u n value r \<longleftrightarrow>
     (\<exists>e. newest E u n e \<and> r = (if is_value e then (StatusOK, snd e) else (NotFound [], value)))
     \<or> seen E u n = {} \<and> r = (NotFound [], value)"

lemma reads_newest: "newest E u n e \<Longrightarrow> reads E u n value (if is_value e then (StatusOK, snd e) else (NotFound [], value))"
  unfolding reads_def by blast

lemma reads_cong: "seen E u n = seen E' u n \<Longrightarrow> reads E u n value r \<longleftrightarrow> reads E' u n value r"
  by (simp add: reads_def newest_def)

lemma reads_dominated:
  assumes "E' \<subseteq> E" and "\<And>e. e \<in> seen E u n \<Longrightarrow> \<exists>e' \<in> seen E' u n. entry_sequence e \<le> entry_sequence e'"
    and "reads E' u n value r"
  shows "reads E u n value r"
proof -
  have sub: "seen E' u n \<subseteq> seen E u n" using assms(1) by (auto simp: seen_def)
  show ?thesis
  proof (cases "seen E' u n = {}")
    case True
    then have "seen E u n = {}" using assms(2) by auto
    then show ?thesis using assms(3) True by (auto simp: reads_def newest_def)
  next
    case False
    then obtain e where e: "newest E' u n e" "r = (if is_value e then (StatusOK, snd e) else (NotFound [], value))"
      using assms(3) by (auto simp: reads_def)
    have "newest E u n e" using e(1) sub assms(2) by (fastforce simp: newest_def)
    then show ?thesis unfolding reads_def using e(2) by blast
  qed
qed

section \<open>Reading from a sorted list\<close>

lemma find_split: "List.find P es = Some e \<Longrightarrow> \<exists>xs ys. es = xs @ e # ys \<and> (\<forall>d \<in> set xs. \<not> P d) \<and> P e"
proof (induction es)
  case (Cons a es)
  show ?case
  proof (cases "P a")
    case True
    then show ?thesis using Cons.prems by (intro exI [of _ "[]"] exI [of _ es]) auto
  next
    case False
    then obtain xs ys where "es = xs @ e # ys" "\<forall>d \<in> set xs. \<not> P d" "P e" using Cons by auto
    then show ?thesis using False by (intro exI [of _ "a # xs"] exI [of _ ys]) auto
  qed
qed simp

lemma entry_sequence_parse: "ParseInternalKey (fst e) = Some ikey \<Longrightarrow> pk_sequence ikey = entry_sequence e"
  by (simp add: ParseInternalKey_parts(2) entry_sequence_def)

context user_comparator
begin

lemma sequence_antimono:
  assumes "ParseInternalKey (fst a) \<noteq> None" and "ParseInternalKey (fst b) \<noteq> None"
    and "internal_Compare c (fst a) (fst b) < 0" and "user_key a = user_key b"
  shows "entry_sequence b \<le> entry_sequence a"
proof -
  have "key_tag (fst b) < key_tag (fst a)" using assms(3,4) compare_irrefl by (auto simp: internal_Compare_less)
  then have "unat (drop_bit 8 (key_tag (fst b))) \<le> unat (drop_bit 8 (key_tag (fst a)))"
    by (simp add: unat_drop_bit word_less_nat_alt div_le_mono)
  then show ?thesis by (simp add: entry_sequence_def word_le_nat_alt)
qed

text \<open>The first entry at or past the search key is the newest version, if it has the user key at all.\<close>

lemma first_at_newest:
  assumes "db_entries c es" and "n \<le> kMaxSequenceNumber"
    and "first_at (InternalKeyComparator c) (InternalKey u n kValueTypeForSeek) es = Some e"
  shows "e \<in> set es" and "user_key e = u \<Longrightarrow> newest (set es) u n e" and "user_key e \<noteq> u \<Longrightarrow> seen (set es) u n = {}"
proof -
  let ?k = "InternalKey u n kValueTypeForSeek"
  have parse: "ParseInternalKey (fst e) \<noteq> None" if "e \<in> set es" for e using assms(1) that by (simp add: db_entries_def)
  have cmp: "cmp_Compare (InternalKeyComparator c) = internal_Compare c" by (simp add: InternalKeyComparator_def)
  obtain xs ys where es: "es = xs @ e # ys" and below: "\<forall>d \<in> set xs. internal_Compare c (fst d) ?k < 0"
    and at: "\<not> internal_Compare c (fst e) ?k < 0"
    using find_split [OF assms(3) [unfolded first_at_def cmp]] by auto
  show e: "e \<in> set es" by (simp add: es)
  have srt: "\<forall>d \<in> set ys. internal_Compare c (fst e) (fst d) < 0"
    using assms(1) by (simp add: db_entries_def sorted_entries_def es sorted_wrt_append cmp)
  have none: "d \<notin> seen (set es) u n" if "d \<in> set xs" for d
  proof -
    have "ParseInternalKey (fst d) \<noteq> None" using that es parse by simp
    then show ?thesis using below that before_target [of d n u] assms(2) compare_irrefl by (auto simp: seen_def)
  qed
  note split = before_target [OF parse [OF e] assms(2), of u]
  show "newest (set es) u n e" if u: "user_key e = u"
    unfolding newest_def
  proof
    show "e \<in> seen (set es) u n" using at u split e by (auto simp: seen_def)
    show "\<forall>d \<in> seen (set es) u n. entry_sequence d \<le> entry_sequence e"
    proof
      fix d
      assume d: "d \<in> seen (set es) u n"
      then have "d \<in> set (e # ys)" using none [of d] by (auto simp: seen_def es)
      then show "entry_sequence d \<le> entry_sequence e"
        using srt sequence_antimono [of e d] parse [OF e] parse [of d] d u by (auto simp: seen_def)
    qed
  qed
  show "seen (set es) u n = {}" if u: "user_key e \<noteq> u"
  proof (rule ccontr)
    assume "seen (set es) u n \<noteq> {}"
    then obtain d where d: "d \<in> set ys" "user_key d = u" using none es u by (auto simp: seen_def)
    then have "cmp_Compare c (user_key e) u \<le> 0" using srt user_le [of "fst e" "fst d"] by auto
    then show False using at split u compare_eq [of "user_key e" u] by auto
  qed
qed

lemma first_at_none:
  assumes "db_entries c es" and "n \<le> kMaxSequenceNumber"
    and "first_at (InternalKeyComparator c) (InternalKey u n kValueTypeForSeek) es = None"
  shows "seen (set es) u n = {}"
  using assms before_target [of _ n u] compare_irrefl
  by (fastforce simp: first_at_None seen_def db_entries_def InternalKeyComparator_def)

end

section \<open>The contents of the files\<close>

text \<open>The entries of a file lie in its range, which their first and last keys bound.\<close>

definition file_holds :: "Comparator \<Rightarrow> FileMetaData \<Rightarrow> entry list \<Rightarrow> bool" where
  "file_holds c f es \<longleftrightarrow> es \<noteq> [] \<and> db_entries c es \<and> fm_smallest f = fst (hd es) \<and> fm_largest f = fst (last es)"

text \<open>
  A sound version: files below level 0 are disjoint and sorted; what a newer file, or a lower level, holds of
  a user key is newer.
\<close>

definition newer_than :: "(FileMetaData \<Rightarrow> entry list) \<Rightarrow> FileMetaData \<Rightarrow> FileMetaData \<Rightarrow> bool" where
  "newer_than entries f g \<longleftrightarrow>
     (\<forall>e \<in> set (entries f). \<forall>e' \<in> set (entries g). user_key e = user_key e' \<longrightarrow> entry_sequence e' < entry_sequence e)"

definition sound_version :: "Comparator \<Rightarrow> (FileMetaData \<Rightarrow> entry list) \<Rightarrow> Version \<Rightarrow> bool" where
  "sound_version c entries v \<longleftrightarrow>
     (\<forall>level < kNumLevels. \<forall>f \<in> set (v_files v level). file_holds c f (entries f))
     \<and> (\<forall>level < kNumLevels. 0 < level \<longrightarrow> disjoint_files c (v_files v level))
     \<and> (\<forall>f \<in> set (v_files v 0). \<forall>g \<in> set (v_files v 0). fm_number g < fm_number f \<longrightarrow> newer_than entries f g)
     \<and> distinct (map fm_number (v_files v 0))
     \<and> (\<forall>i j. i < j \<and> j < kNumLevels \<longrightarrow> (\<forall>f \<in> set (v_files v i). \<forall>g \<in> set (v_files v j). newer_than entries f g))"

definition version_entries :: "(FileMetaData \<Rightarrow> entry list) \<Rightarrow> Version \<Rightarrow> entry set" where
  "version_entries entries v = (\<Union>level < kNumLevels. \<Union>f \<in> set (v_files v level). set (entries f))"

context user_comparator
begin

lemma file_holds_sound: "file_holds c f es \<Longrightarrow> sound_file c f"
proof -
  assume f: "file_holds c f es"
  then obtain e es' where es: "es = e # es'" by (cases es) (auto simp: file_holds_def)
  have "last es = e \<or> last es \<in> set es'" using es by auto
  then have "internal_Compare c (fst e) (fst (last es)) \<le> 0"
    using f es by (auto simp: file_holds_def db_entries_def sorted_entries_def InternalKeyComparator_def dest!: order_less_imp_le)
  moreover have "ParseInternalKey (fst e) \<noteq> None" "ParseInternalKey (fst (last es)) \<noteq> None"
    using f es last_in_set [of es] by (auto simp: file_holds_def db_entries_def)
  ultimately show ?thesis using f es by (simp add: file_holds_def sound_file_def)
qed

lemma file_holds_range:
  assumes "file_holds c f es" and "e \<in> set es"
  shows "internal_Compare c (fm_smallest f) (fst e) \<le> 0" and "internal_Compare c (fst e) (fm_largest f) \<le> 0"
proof -
  have srt: "sorted_wrt (\<lambda>a b. internal_Compare c (fst a) (fst b) < 0) es" and ne: "es \<noteq> []"
    using assms(1) by (simp_all add: file_holds_def db_entries_def sorted_entries_def InternalKeyComparator_def)
  obtain i where i: "i < length es" "es ! i = e" using assms(2) by (auto simp: in_set_conv_nth)
  show "internal_Compare c (fm_smallest f) (fst e) \<le> 0"
    using sorted_wrt_nth_less [OF srt, of 0 i] i ne assms(1) by (cases "i = 0") (auto simp: file_holds_def hd_conv_nth)
  show "internal_Compare c (fst e) (fm_largest f) \<le> 0"
  proof (cases "i = length es - 1")
    case False
    then have "i < length es - 1" using i(1) by linarith
    then have "internal_Compare c (fst (es ! i)) (fst (es ! (length es - 1))) < 0"
      using sorted_wrt_nth_less [OF srt, of i "length es - 1"] ne by simp
    then show ?thesis using i(2) ne assms(1) by (simp add: file_holds_def last_conv_nth)
  qed (use i ne assms(1) in \<open>simp add: file_holds_def last_conv_nth\<close>)
qed

end

section \<open>The files that are read\<close>

lemma sorted_wrt_levels:
  assumes "\<And>i. i < m \<Longrightarrow> sorted_wrt R (g i)" and "\<And>i j x y. i < j \<Longrightarrow> j < m \<Longrightarrow> x \<in> set (g i) \<Longrightarrow> y \<in> set (g j) \<Longrightarrow> R x y"
  shows "sorted_wrt R (concat (map g [0..<m]))"
  using assms by (induction m) (auto simp: sorted_wrt_append)

context user_comparator
begin

lemma NewestFirst_newer:
  assumes "\<forall>f \<in> set fs. \<forall>g \<in> set fs. fm_number g < fm_number f \<longrightarrow> newer_than entries f g" and "distinct (map fm_number fs)"
  shows "sorted_wrt (newer_than entries) (NewestFirst fs)"
proof -
  have srt: "sorted (map (\<lambda>f. - uint (fm_number f)) (NewestFirst fs))" by (simp add: NewestFirst_def)
  have ms: "mset (map fm_number (NewestFirst fs)) = mset (map fm_number fs)" by (simp add: NewestFirst_def)
  then have dist: "distinct (map fm_number (NewestFirst fs))" using assms(2) mset_eq_imp_distinct_iff by blast
  show ?thesis
    unfolding sorted_wrt_iff_nth_less
  proof (intro allI impI)
    fix i j
    assume ij: "i < j" "j < length (NewestFirst fs)"
    let ?f = "NewestFirst fs ! i" and ?g = "NewestFirst fs ! j"
    have "- uint (fm_number ?f) \<le> - uint (fm_number ?g)" using sorted_nth_mono [OF srt, of i j] ij by simp
    moreover have "fm_number ?f \<noteq> fm_number ?g" using dist ij by (auto simp: distinct_conv_nth)
    ultimately have "fm_number ?g < fm_number ?f" by (simp add: word_less_alt word_uint_eq_iff)
    moreover have "?f \<in> set fs" "?g \<in> set fs" using ij nth_mem [of _ "NewestFirst fs"] by (auto simp: NewestFirst_def)
    ultimately show "newer_than entries ?f ?g" using assms(1) by blast
  qed
qed

lemma deeper_file_length: "deeper_file c u k files = [] \<or> (\<exists>f \<in> set files. deeper_file c u k files = [f])"
  by (auto simp: deeper_file_def Let_def)

lemma files_for_key_in:
  "(level, f) \<in> set (files_for_key c u k v) \<Longrightarrow> level < kNumLevels \<and> f \<in> set (v_files v level)"
  using deeper_file_length [of u k "v_files v level"]
  by (auto simp: files_for_key_def level0_files_def NewestFirst_def split: if_splits)

lemma in_files_for_key:
  "level < kNumLevels \<Longrightarrow> f \<in> set (if level = 0 then level0_files c u v else deeper_file c u k (v_files v level)) \<Longrightarrow>
    (level, f) \<in> set (files_for_key c u k v)"
  unfolding files_for_key_def by (simp del: upt_Suc) (rule bexI [of _ level], auto)

lemma files_for_key_newer:
  assumes "sound_version c entries v"
  shows "sorted_wrt (\<lambda>p q. newer_than entries (snd p) (snd q)) (files_for_key c u k v)"
  unfolding files_for_key_def
proof (rule sorted_wrt_levels)
  fix i
  let ?fs = "if i = 0 then level0_files c u v else deeper_file c u k (v_files v i)"
  show "sorted_wrt (\<lambda>p q. newer_than entries (snd p) (snd q)) (map (Pair i) ?fs)"
  proof (cases "i = 0")
    case True
    have "sorted_wrt (newer_than entries) (level0_files c u v)"
      unfolding level0_files_def
      by (rule NewestFirst_newer) (use assms in \<open>auto simp: sound_version_def distinct_map_filter\<close>)
    then show ?thesis using True by (simp add: sorted_wrt_map)
  next
    case False
    then show ?thesis using deeper_file_length [of u k "v_files v i"] by auto
  qed
next
  fix i j p q
  assume "i < j" "j < kNumLevels" and p: "p \<in> set (map (Pair i) (if i = 0 then level0_files c u v else deeper_file c u k (v_files v i)))"
    and q: "q \<in> set (map (Pair j) (if j = 0 then level0_files c u v else deeper_file c u k (v_files v j)))"
  moreover have "snd p \<in> set (v_files v i)"
    using p deeper_file_length [of u k "v_files v i"] by (auto simp: level0_files_def NewestFirst_def split: if_splits)
  moreover have "snd q \<in> set (v_files v j)"
    using q deeper_file_length [of u k "v_files v j"] by (auto simp: level0_files_def NewestFirst_def split: if_splits)
  ultimately show "newer_than entries (snd p) (snd q)" using assms by (auto simp: sound_version_def)
qed

text \<open>The newest version that is seen lies in one of the files that are read.\<close>

lemma files_for_key_dominate:
  assumes "sound_version c entries v" and "n \<le> kMaxSequenceNumber" and "e \<in> seen (version_entries entries v) u n"
  shows "\<exists>e' \<in> seen (\<Union>p \<in> set (files_for_key c u (InternalKey u n kValueTypeForSeek) v). set (entries (snd p))) u n.
    entry_sequence e \<le> entry_sequence e'"
proof -
  let ?k = "InternalKey u n kValueTypeForSeek"
  obtain level f where f: "level < kNumLevels" "f \<in> set (v_files v level)" "e \<in> set (entries f)"
    and e: "user_key e = u" "visible_entry n e"
    using assms(3) by (auto simp: seen_def version_entries_def)
  have holds: "file_holds c g (entries g)" if "g \<in> set (v_files v level)" for g
    using assms(1) f(1) that by (simp add: sound_version_def)
  have parse: "ParseInternalKey (fst d) \<noteq> None" if "g \<in> set (v_files v level)" "d \<in> set (entries g)" for g d
    using holds [OF that(1)] that(2) by (simp add: file_holds_def db_entries_def)
  note range = file_holds_range [OF holds [OF f(2)] f(3)]
  have at: "\<not> internal_Compare c (fst e) ?k < 0"
    using before_target [OF parse [OF f(2,3)] assms(2), of u] e compare_refl by auto
  have found: ?thesis if "(level, g) \<in> set (files_for_key c u ?k v)" "d \<in> set (entries g)" "user_key d = u" "visible_entry n d"
    "entry_sequence e \<le> entry_sequence d" for g d
    using that unfolding seen_def by (intro bexI [of _ d]) (auto intro!: bexI [of _ "(level, g)"])
  show ?thesis
  proof (cases "level = 0")
    case True
    have "cmp_Compare c (file_start f) u \<le> 0" "cmp_Compare c u (file_limit f) \<le> 0"
      using user_le [OF range(1)] user_le [OF range(2)] e(1) by simp_all
    moreover have "0 \<le> cmp_Compare c u (file_start f)"
      using calculation user_not_less [of u "file_start f"] by linarith
    ultimately have "f \<in> set (level0_files c u v)"
      using f(2) True by (auto simp: level0_files_def NewestFirst_def)
    then have "(level, f) \<in> set (files_for_key c u ?k v)"
      using True by (intro in_files_for_key [OF f(1)]) simp
    then show ?thesis using found f(3) e by blast
  next
    case False
    define files where "files = v_files v level"
    have disj: "disjoint_files c files" using assms(1) False f(1) by (simp add: sound_version_def files_def)
    obtain j where j: "j < length files" "files ! j = f" using f(2) by (auto simp: files_def in_set_conv_nth)
    define index where "index = FindFile c files ?k"
    have "\<not> internal_Compare c (fm_largest f) ?k < 0" using at internal_le_trans [OF range(2)] by blast
    then have index: "index \<le> j" using FindFile_spec(2) [OF disj, of j ?k] j by (force simp: index_def)
    define g where "g = files ! index"
    have g: "g \<in> set files" "index < length files" using index j(1) by (simp_all add: g_def)
    have start: "cmp_Compare c (file_start g) u \<le> 0"
    proof -
      have "internal_Compare c (fm_smallest g) (fm_smallest f) \<le> 0"
        using disjoint_smallest [OF disj, of index j] index j internal_Compare_refl by (cases "index = j") (auto simp: g_def)
      from user_le_trans [OF user_le [OF this] user_le [OF range(1)]] show ?thesis using e(1) by simp
    qed
    have "\<not> cmp_Compare c u (file_start g) < 0" using start user_not_less [of u "file_start g"] by blast
    then have "deeper_file c u ?k files = [g]"
      using g(2) by (simp add: deeper_file_def Let_def index_def [symmetric] g_def)
    then have cand: "(level, g) \<in> set (files_for_key c u ?k v)"
      using False by (intro in_files_for_key [OF f(1)]) (simp add: files_def)
    show ?thesis
    proof (cases "index = j")
      case True
      then show ?thesis using found cand f(3) e j g_def by blast
    next
      case False
      define d where "d = last (entries g)"
      have hg: "file_holds c g (entries g)" using holds g(1) by (simp add: files_def)
      have d: "d \<in> set (entries g)" "fst d = fm_largest g" using hg by (auto simp: d_def file_holds_def)
      have pd: "ParseInternalKey (fst d) \<noteq> None" using parse d(1) g(1) by (simp add: files_def)
      have below: "internal_Compare c (fst d) (fst e) < 0"
        using internal_trans_le [OF disjoint_nth [OF disj, of index j]] range(1) index False j d(2) by (simp add: g_def)
      have "\<not> internal_Compare c (fst d) ?k < 0" using FindFile_spec(3) [OF disj, of ?k index] g d(2) by (simp add: index_def g_def)
      then have "\<not> cmp_Compare c (user_key d) u < 0" "user_key d = u \<Longrightarrow> visible_entry n d"
        using before_target [OF pd assms(2), of u] by auto
      moreover have "cmp_Compare c (user_key d) u \<le> 0" using user_le [of "fst d" "fst e"] below e(1) by simp
      ultimately have u: "user_key d = u" "visible_entry n d" using compare_eq [of "user_key d" u] by auto
      have "entry_sequence e \<le> entry_sequence d"
        using sequence_antimono [OF pd parse [OF f(2,3)] below] u(1) e(1) by simp
      then show ?thesis using found [OF cand d(1) u] by blast
    qed
  qed
qed

end

section \<open>The lookup\<close>

text \<open>
  The cache of tables: for a file that is stored with a list of entries, it delivers nothing or the first entry at
  or past a key, and it does deliver that entry when it has the user key that is looked up.
\<close>

locale file_store = user_comparator c
  for c :: Comparator +
  fixes get :: "64 word \<Rightarrow> 64 word \<Rightarrow> slice \<Rightarrow> 's \<Rightarrow> ((Status \<times> entry option) \<times> 's) option"
    and stored :: "'s \<Rightarrow> FileMetaData \<Rightarrow> entry list \<Rightarrow> bool"
  assumes get_finds: "stored s f es \<Longrightarrow> 8 \<le> length k \<Longrightarrow>
      \<exists>res s'. get (fm_number f) (fm_file_size f) k s = Some ((StatusOK, res), s')
        \<and> (\<forall>g gs. stored s g gs \<longrightarrow> stored s' g gs)
        \<and> (res = None \<or> res = first_at (InternalKeyComparator c) k es)
        \<and> (\<forall>e. first_at (InternalKeyComparator c) k es = Some e \<longrightarrow> user_key e = ExtractUserKey k \<longrightarrow> res = Some e)"
begin

lemma get_from_files_reads:
  assumes "\<forall>p \<in> set fs. stored s (snd p) (entries (snd p)) \<and> db_entries c (entries (snd p))"
    and "sorted_wrt (\<lambda>p q. newer_than entries (snd p) (snd q)) fs" and "n \<le> kMaxSequenceNumber"
  shows "\<exists>r stats' s'. get_from_files get c u (InternalKey u n kValueTypeForSeek) last_read value stats s fs = Some ((r, stats'), s')
    \<and> reads (\<Union>p \<in> set fs. set (entries (snd p))) u n value r \<and> (\<forall>g gs. stored s g gs \<longrightarrow> stored s' g gs)"
  using assms(1,2)
proof (induction fs arbitrary: last_read stats s)
  case Nil
  then show ?case by (simp add: reads_def seen_def newest_def)
next
  case (Cons p fs)
  obtain level f where p: "p = (level, f)" by (cases p)
  let ?k = "InternalKey u n kValueTypeForSeek" and ?es = "entries f"
  have st: "stored s f ?es" and db: "db_entries c ?es" using Cons.prems(1) p by simp_all
  obtain res s1 where get: "get (fm_number f) (fm_file_size f) ?k s = Some ((StatusOK, res), s1)"
    and keep: "\<forall>g gs. stored s g gs \<longrightarrow> stored s1 g gs"
    and res: "res = None \<or> res = first_at (InternalKeyComparator c) ?k ?es"
    and hit: "\<And>e. first_at (InternalKeyComparator c) ?k ?es = Some e \<Longrightarrow> user_key e = u \<Longrightarrow> res = Some e"
    using get_finds [OF st, of ?k] by auto
  define stats1 where "stats1 = (case last_read of
      Some (l, g) \<Rightarrow> if gs_seek_file stats = None then stats\<lparr> gs_seek_file := Some g, gs_seek_file_level := int l \<rparr> else stats
    | None \<Rightarrow> stats)"
  note one_turn = get_from_files.simps(2) [of get c u ?k last_read "value" stats s level f fs, folded stats1_def]
  show ?case
  proof (cases "\<exists>e. first_at (InternalKeyComparator c) ?k ?es = Some e \<and> user_key e = u")
    case True
    then obtain e where e: "first_at (InternalKeyComparator c) ?k ?es = Some e" "user_key e = u" by blast
    note new = first_at_newest [OF db assms(3) e(1)]
    obtain ikey where ikey: "ParseInternalKey (fst e) = Some ikey" using db new(1) by (auto simp: db_entries_def)
    have "cmp_Compare c (pk_user_key ikey) u = 0"
      using ParseInternalKey_parts(1) [OF ikey] e(2) compare_refl by simp
    then have "get_from_files get c u ?k last_read value stats s (p # fs)
        = Some (((if is_value e then (StatusOK, snd e) else (NotFound [], value)), stats1), s1)"
      unfolding p one_turn using get hit [OF e] ikey
      by (cases e) (auto simp: SaveValue_def is_value_def Let_def status_ok_def)
    moreover have "newest (\<Union>p \<in> set (p # fs). set (entries (snd p))) u n e"
      unfolding newest_def
    proof
      show "e \<in> seen (\<Union>p \<in> set (p # fs). set (entries (snd p))) u n"
        using new(2) [OF e(2)] p by (auto simp: newest_def seen_def)
      show "\<forall>d \<in> seen (\<Union>p \<in> set (p # fs). set (entries (snd p))) u n. entry_sequence d \<le> entry_sequence e"
      proof
        fix d
        assume d: "d \<in> seen (\<Union>p \<in> set (p # fs). set (entries (snd p))) u n"
        show "entry_sequence d \<le> entry_sequence e"
        proof (cases "d \<in> set ?es")
          case True
          then have "d \<in> seen (set ?es) u n" using d by (simp add: seen_def)
          then show ?thesis using new(2) [OF e(2)] by (simp add: newest_def)
        next
          case False
          then obtain q where "q \<in> set fs" "d \<in> set (entries (snd q))" "user_key d = u" using d p by (auto simp: seen_def)
          then show ?thesis using Cons.prems(2) new(1) e(2) p by (fastforce simp: newer_than_def)
        qed
      qed
    qed
    ultimately show ?thesis using keep reads_newest by blast
  next
    case False
    have unseen: "seen (set ?es) u n = {}"
    proof (cases "first_at (InternalKeyComparator c) ?k ?es")
      case None
      then show ?thesis by (rule first_at_none [OF db assms(3)])
    next
      case (Some e)
      then show ?thesis using first_at_newest(3) [OF db assms(3) Some] False by blast
    qed
    have eq: "get_from_files get c u ?k last_read value stats s (p # fs)
        = get_from_files get c u ?k (Some (level, f)) value stats1 s1 fs"
    proof (cases res)
      case None
      then show ?thesis unfolding p one_turn using get by (simp add: Let_def status_ok_def)
    next
      case (Some e)
      then have first: "first_at (InternalKeyComparator c) ?k ?es = Some e" using res by simp
      then have "user_key e \<noteq> u" using False by blast
      moreover obtain ikey where ikey: "ParseInternalKey (fst e) = Some ikey"
        using db first_at_Some [OF first] by (auto simp: db_entries_def)
      ultimately have "cmp_Compare c (pk_user_key ikey) u \<noteq> 0"
        using ParseInternalKey_parts(1) [OF ikey] compare_eq by simp
      then show ?thesis unfolding p one_turn using get Some ikey
        by (cases e) (simp add: SaveValue_def Let_def status_ok_def)
    qed
    have a: "\<forall>p \<in> set fs. stored s1 (snd p) (entries (snd p)) \<and> db_entries c (entries (snd p))"
      using Cons.prems(1) keep by auto
    have b: "sorted_wrt (\<lambda>p q. newer_than entries (snd p) (snd q)) fs" using Cons.prems(2) by simp
    have seen: "seen (\<Union>p \<in> set (p # fs). set (entries (snd p))) u n = seen (\<Union>p \<in> set fs. set (entries (snd p))) u n"
      using unseen p by (auto simp: seen_def)
    obtain r stats' s' where "get_from_files get c u ?k (Some (level, f)) value stats1 s1 fs = Some ((r, stats'), s')"
      "reads (\<Union>p \<in> set fs. set (entries (snd p))) u n value r" "\<forall>g gs. stored s1 g gs \<longrightarrow> stored s' g gs"
      using Cons.IH [OF a b, of "Some (level, f)" stats1] by blast
    then show ?thesis unfolding eq reads_cong [OF seen] using keep by blast
  qed
qed

theorem Version_Get_reads:
  assumes "sound_version c entries v" and "\<And>level f. level < kNumLevels \<Longrightarrow> f \<in> set (v_files v level) \<Longrightarrow> stored s f (entries f)"
    and "length u + 8 < 2 ^ 32" and "n \<le> kMaxSequenceNumber"
  shows "\<exists>r stats s'. Version_Get get c (LookupKey u n) value v s = Some ((r, stats), s')
    \<and> reads (version_entries entries v) u n value r \<and> (\<forall>g gs. stored s g gs \<longrightarrow> stored s' g gs)"
proof -
  let ?k = "InternalKey u n kValueTypeForSeek"
  let ?fs = "files_for_key c u ?k v"
  have key: "lk_internal_key (LookupKey u n) = ?k" "lk_user_key (LookupKey u n) = u"
    using lookup_parts(3) [OF assms(3)]
    by (simp_all add: lk_internal_key_def LookupKey_def Let_def InternalKey_def AppendInternalKey_def PutFixed64_def)
  have "stored s (snd p) (entries (snd p)) \<and> db_entries c (entries (snd p))" if "p \<in> set ?fs" for p
    using files_for_key_in [of "fst p" "snd p" u ?k v] that assms(1,2) by (auto simp: sound_version_def file_holds_def)
  then obtain r stats s' where r: "get_from_files get c u ?k None value GetStats_new s ?fs = Some ((r, stats), s')"
    "reads (\<Union>p \<in> set ?fs. set (entries (snd p))) u n value r" "\<forall>g gs. stored s g gs \<longrightarrow> stored s' g gs"
    using get_from_files_reads [OF _ files_for_key_newer [OF assms(1)] assms(4)] by blast
  have sub: "(\<Union>p \<in> set ?fs. set (entries (snd p))) \<subseteq> version_entries entries v"
    using files_for_key_in by (force simp: version_entries_def)
  have "reads (version_entries entries v) u n value r"
    by (rule reads_dominated [OF sub files_for_key_dominate [OF assms(1,4)] r(2)])
  then show ?thesis using r(1,3) by (simp add: Version_Get_def key)
qed

end

end
