(* ===== verification/Ldb_Table_Cache.thy ===== *)
theory Ldb_Table_Cache
  imports Ldb_Filename Ldb_Version_Read Ldb_Table_Iter
begin

text \<open>
  The cache of open tables (\<^verbatim>\<open>db/table_cache.cc\<close>). The environment opens a file by its name; what the LRU cache
  holds is a map from its keys to tables, from which entries go only when they are evicted. Releasing
  handles is not modelled.
\<close>

section \<open>The cache\<close>

record 'f table_cache =
  tc_open :: "string \<Rightarrow> Status \<times> 'f option"
  tc_dbname :: string
  tc_options :: Options
  tc_cache :: "slice \<Rightarrow> 'f Table option"

definition TableCache_new :: "(string \<Rightarrow> Status \<times> 'f option) \<Rightarrow> string \<Rightarrow> Options \<Rightarrow> 'f table_cache" where
  "TableCache_new open_file dbname options =
     \<lparr> tc_open = open_file, tc_dbname = dbname, tc_options = options, tc_cache = (\<lambda>_. None) \<rparr>"

text \<open>A table file, under its new name or under the one that older versions used.\<close>

definition open_table_file :: "64 word \<Rightarrow> 'f table_cache \<Rightarrow> Status \<times> 'f option" where
  "open_table_file file_number tc =
     (let (s, file) = tc_open tc (TableFileName (tc_dbname tc) file_number)
      in if \<not> status_ok s
         then let (old_s, old_file) = tc_open tc (SSTTableFileName (tc_dbname tc) file_number)
              in if status_ok old_s then (StatusOK, old_file) else (s, old_file)
         else (s, file))"

definition FindTable ::
    "'f RandomAccessFile \<Rightarrow> 64 word \<Rightarrow> 64 word \<Rightarrow> 'f table_cache \<Rightarrow> ((Status \<times> 'f Table option) \<times> 'f table_cache) option" where
  "FindTable ops file_number file_size tc =
     (let key = EncodeFixed64 file_number
      in case tc_cache tc key of
           Some t \<Rightarrow> Some ((StatusOK, Some t), tc)
         | None \<Rightarrow>
             (case open_table_file file_number tc of
                (s, Some file) \<Rightarrow>
                  if \<not> status_ok s then Some ((s, None), tc)
                  else (case Table_Open ops (tc_options tc) file file_size of
                      None \<Rightarrow> None
                    | Some (s, table) \<Rightarrow>
                        Some (if \<not> status_ok s then ((s, None), tc)
                              else ((s, table), tc\<lparr> tc_cache := (tc_cache tc)(key := table) \<rparr>)))
              | (s, None) \<Rightarrow> Some ((s, None), tc)))"

text \<open>The iterator of a table file, or the iterator that holds the error.\<close>

datatype 'f file_iterator = FileError Status | FileEntries "'f Table" "(block_iterator, block_iterator) TwoLevelIterator"

definition TableCache_NewIterator ::
    "'f RandomAccessFile \<Rightarrow> 64 word \<Rightarrow> 64 word \<Rightarrow> 'f table_cache
      \<Rightarrow> (('f file_iterator \<times> 'f Table option) \<times> 'f table_cache) option" where
  "TableCache_NewIterator ops file_number file_size tc =
     (case FindTable ops file_number file_size tc of
        None \<Rightarrow> None
      | Some ((s, table), tc) \<Rightarrow>
          (case table of
             None \<Rightarrow> Some ((FileError (NewErrorIterator s), None), tc)
           | Some t \<Rightarrow>
               Some (if \<not> status_ok s then ((FileError (NewErrorIterator s), None), tc)
                     else ((FileEntries t (Table_NewIterator t), Some t), tc))))"

definition TableCache_Get ::
    "'f RandomAccessFile \<Rightarrow> bool \<Rightarrow> 64 word \<Rightarrow> 64 word \<Rightarrow> slice \<Rightarrow> 'f table_cache
      \<Rightarrow> ((Status \<times> entry option) \<times> 'f table_cache) option" where
  "TableCache_Get ops verify_checksums file_number file_size k tc =
     (case FindTable ops file_number file_size tc of
        None \<Rightarrow> None
      | Some ((s, table), tc) \<Rightarrow>
          (case table of
             None \<Rightarrow> Some ((s, None), tc)
           | Some t \<Rightarrow>
               if \<not> status_ok s then Some ((s, None), tc)
               else map_option (\<lambda>r. (r, tc)) (InternalGet ops verify_checksums k t)))"

definition Evict :: "64 word \<Rightarrow> 'f table_cache \<Rightarrow> 'f table_cache" where
  "Evict file_number tc = tc\<lparr> tc_cache := (tc_cache tc)(EncodeFixed64 file_number := None) \<rparr>"

section \<open>Files that hold a table\<close>

text \<open>The file of the given number is a sound POSIX file with the table of some entries; if it is open already, as this table.\<close>

definition table_at :: "posix_file table_cache \<Rightarrow> 64 word \<Rightarrow> 64 word \<Rightarrow> posix_file \<Rightarrow> entry list list \<Rightarrow> bool" where
  "table_at tc number len g bs \<longleftrightarrow>
     open_table_file number tc = (StatusOK, Some g) \<and> sound_posix_file g \<and> pf_bytes g = table_bytes (tc_options tc) bs
     \<and> length (table_bytes (tc_options tc) bs) < 2 ^ 32 \<and> len = word_of_nat (length (table_bytes (tc_options tc) bs))
     \<and> sorted_blocks (InternalKeyComparator BytewiseComparator) (\<lambda>k. 8 \<le> length k) bs
     \<and> (\<forall>t. tc_cache tc (EncodeFixed64 number) = Some t \<longrightarrow> t = opened (tc_options tc) g bs)"

definition sound_options :: "Options \<Rightarrow> bool" where
  "sound_options opts \<longleftrightarrow>
     (\<exists>bits paranoid bsize interval compression. 1 \<le> interval
        \<and> opts = db_options BytewiseComparator (map_option NewBloomFilterPolicy bits) paranoid bsize interval compression)"

definition table_stored :: "posix_file table_cache \<Rightarrow> FileMetaData \<Rightarrow> entry list \<Rightarrow> bool" where
  "table_stored tc f es \<longleftrightarrow> sound_options (tc_options tc) \<and> (\<exists>g bs. table_at tc (fm_number f) (fm_file_size f) g bs \<and> concat bs = es)"

lemma EncodeFixed64_inject: "EncodeFixed64 a = EncodeFixed64 b \<longleftrightarrow> a = b"
  by (metis Decode_Encode_Nil(2))

lemma sound_options_interval: "sound_options opts \<Longrightarrow> 1 \<le> opt_block_restart_interval opts"
  by (auto simp: sound_options_def db_options_def)

lemma FindTable_ok:
  assumes "sound_options (tc_options tc)" and "table_at tc number len g bs"
  shows "\<exists>tc'. FindTable PosixRandomAccessFile number len tc = Some ((StatusOK, Some (opened (tc_options tc) g bs)), tc')
    \<and> (\<forall>n s g bs. table_at tc n s g bs \<longrightarrow> table_at tc' n s g bs) \<and> tc_options tc' = tc_options tc"
proof (cases "tc_cache tc (EncodeFixed64 number)")
  case (Some t)
  then show ?thesis using assms(2) by (simp add: FindTable_def Let_def table_at_def)
next
  case None
  let ?t = "opened (tc_options tc) g bs"
  have "Table_Open PosixRandomAccessFile (tc_options tc) g len = Some (StatusOK, Some ?t)"
    using posix_random.Table_Open_ok [of g "tc_options tc" bs] sound_options_interval [OF assms(1)] assms(2)
    by (simp add: table_at_def)
  then have find: "FindTable PosixRandomAccessFile number len tc
      = Some ((StatusOK, Some ?t), tc\<lparr> tc_cache := (tc_cache tc)(EncodeFixed64 number := Some ?t) \<rparr>)"
    using None assms(2) by (simp add: FindTable_def Let_def table_at_def status_ok_def)
  have "table_at (tc\<lparr> tc_cache := (tc_cache tc)(EncodeFixed64 number := Some ?t) \<rparr>) n s h cs" if "table_at tc n s h cs" for n s h cs
  proof -
    have "opened (tc_options tc) h cs = ?t" if "n = number"
    proof -
      have "h = g" using \<open>table_at tc n s h cs\<close> assms(2) that by (simp add: table_at_def)
      have "Table_Open PosixRandomAccessFile (tc_options tc) h s = Some (StatusOK, Some (opened (tc_options tc) h cs))"
        using posix_random.Table_Open_ok [of h "tc_options tc" cs] sound_options_interval [OF assms(1)] \<open>table_at tc n s h cs\<close>
        by (simp add: table_at_def)
      moreover have "s = len"
        using \<open>table_at tc n s h cs\<close> assms(2) \<open>h = g\<close> by (simp add: table_at_def)
      ultimately show ?thesis
        using \<open>Table_Open PosixRandomAccessFile (tc_options tc) g len = Some (StatusOK, Some ?t)\<close> \<open>h = g\<close> by simp
    qed
    then show ?thesis using that by (auto simp: table_at_def open_table_file_def EncodeFixed64_inject Let_def split: prod.splits)
  qed
  then show ?thesis using find by simp
qed

interpretation db_files: file_store BytewiseComparator "TableCache_Get PosixRandomAccessFile verify" table_stored for verify
proof (intro file_store.intro file_store_axioms.intro bytewise.user_comparator_axioms)
  fix s :: "posix_file table_cache" and f es and k :: slice
  assume st: "table_stored s f es" and k: "8 \<le> length k"
  then obtain g bs where opts: "sound_options (tc_options s)" and at: "table_at s (fm_number f) (fm_file_size f) g bs" and es: "concat bs = es"
    by (auto simp: table_stored_def)
  from FindTable_ok [OF opts at] obtain s' where find:
    "FindTable PosixRandomAccessFile (fm_number f) (fm_file_size f) s = Some ((StatusOK, Some (opened (tc_options s) g bs)), s')"
    and keep: "\<forall>n t g bs. table_at s n t g bs \<longrightarrow> table_at s' n t g bs" "tc_options s' = tc_options s" by blast
  obtain bits paranoid bsize interval compression where o: "1 \<le> interval"
    "tc_options s = db_options BytewiseComparator (map_option NewBloomFilterPolicy bits) paranoid bsize interval compression"
    using opts by (auto simp: sound_options_def)
  from db_table.InternalGet_finds [of g bits paranoid bsize interval compression bs k verify, folded o(2)]
  obtain r where r: "InternalGet PosixRandomAccessFile verify k (opened (tc_options s) g bs) = Some (StatusOK, r)"
    "r = None \<or> r = first_at (InternalKeyComparator BytewiseComparator) k es"
    "\<forall>e. first_at (InternalKeyComparator BytewiseComparator) k es = Some e \<longrightarrow> same_user_key k (fst e) \<longrightarrow> r = Some e"
    using at sound_options_interval [OF opts] k es by (auto simp: table_at_def)
  have "\<forall>g gs. table_stored s g gs \<longrightarrow> table_stored s' g gs"
    unfolding table_stored_def keep(2) using keep(1) by blast
  then show "\<exists>res s'. TableCache_Get PosixRandomAccessFile verify (fm_number f) (fm_file_size f) k s = Some ((StatusOK, res), s')
      \<and> (\<forall>g gs. table_stored s g gs \<longrightarrow> table_stored s' g gs)
      \<and> (res = None \<or> res = first_at (InternalKeyComparator BytewiseComparator) k es)
      \<and> (\<forall>e. first_at (InternalKeyComparator BytewiseComparator) k es = Some e \<longrightarrow> user_key e = ExtractUserKey k \<longrightarrow> res = Some e)"
    using r find by (auto simp: TableCache_Get_def status_ok_def same_user_key_def)
qed

end
