(* ===== verification/Ldb_Version_Set.thy ===== *)
theory Ldb_Version_Set
  imports Ldb_Version_Builder Ldb_Log Ldb_Table_Cache
begin

text \<open>
  The set of versions (\<^verbatim>\<open>VersionSet\<close> in \<^verbatim>\<open>db/version_set.h\<close> and \<^verbatim>\<open>db/version_set.cc\<close>): the numbers that it
  hands out, the current version and those that are still in use, and the compaction that is due. The
  writer of the manifest holds the handle of its file. Counts of references are not modelled: when a
  version is dropped is up to the code that uses it.
\<close>

section \<open>The state\<close>

record VersionSet =
  vs_dbname :: string
  vs_options :: Options
  vs_comparator :: Comparator
  vs_next_file_number :: "64 word"
  vs_manifest_file_number :: "64 word"
  vs_last_sequence :: "64 word"
  vs_log_number :: "64 word"
  vs_prev_log_number :: "64 word"
  vs_descriptor_log :: "nat log_writer option"
  vs_versions :: "Version list"
  vs_current :: Version
  vs_compact_pointer :: "nat \<Rightarrow> slice"

definition AppendVersion :: "Version \<Rightarrow> VersionSet \<Rightarrow> VersionSet" where
  "AppendVersion v vs = vs\<lparr> vs_current := v, vs_versions := vs_versions vs @ [v] \<rparr>"

definition VersionSet_new :: "string \<Rightarrow> Options \<Rightarrow> Comparator \<Rightarrow> VersionSet" where
  "VersionSet_new dbname options c =
     AppendVersion Version_new
       \<lparr> vs_dbname = dbname, vs_options = options, vs_comparator = c, vs_next_file_number = 2,
         vs_manifest_file_number = 0, vs_last_sequence = 0, vs_log_number = 0, vs_prev_log_number = 0,
         vs_descriptor_log = None, vs_versions = [], vs_current = Version_new, vs_compact_pointer = (\<lambda>_. []) \<rparr>"

section \<open>Numbers\<close>

definition NewFileNumber :: "VersionSet \<Rightarrow> 64 word \<times> VersionSet" where
  "NewFileNumber vs = (vs_next_file_number vs, vs\<lparr> vs_next_file_number := vs_next_file_number vs + 1 \<rparr>)"

definition ReuseFileNumber :: "64 word \<Rightarrow> VersionSet \<Rightarrow> VersionSet" where
  "ReuseFileNumber file_number vs =
     (if vs_next_file_number vs = file_number + 1 then vs\<lparr> vs_next_file_number := file_number \<rparr> else vs)"

definition MarkFileNumberUsed :: "64 word \<Rightarrow> VersionSet \<Rightarrow> VersionSet" where
  "MarkFileNumberUsed number vs =
     (if vs_next_file_number vs \<le> number then vs\<lparr> vs_next_file_number := number + 1 \<rparr> else vs)"

definition SetLastSequence_vs :: "64 word \<Rightarrow> VersionSet \<Rightarrow> VersionSet" where
  "SetLastSequence_vs s vs = vs\<lparr> vs_last_sequence := s \<rparr>"

definition NumLevelFiles :: "nat \<Rightarrow> VersionSet \<Rightarrow> nat" where
  "NumLevelFiles level vs = length (v_files (vs_current vs) level)"

definition NumLevelBytes :: "nat \<Rightarrow> VersionSet \<Rightarrow> int" where
  "NumLevelBytes level vs = TotalFileSize (v_files (vs_current vs) level)"

definition LevelSummary :: "VersionSet \<Rightarrow> string" where
  "LevelSummary vs =
     ''files[ '' @ concat (map (\<lambda>level. decimal (length (v_files (vs_current vs) level)) @ '' '') [0..<7]) @ '']''"

section \<open>The compaction that is due\<close>

definition kL0_CompactionTrigger :: nat where
  "kL0_CompactionTrigger = 4"

definition kL0_SlowdownWritesTrigger :: nat where
  "kL0_SlowdownWritesTrigger = 8"

definition kL0_StopWritesTrigger :: nat where
  "kL0_StopWritesTrigger = 12"

text \<open>A limit that the code computes as a \<^verbatim>\<open>double\<close>, exactly.\<close>

definition MaxBytesForLevel :: "nat \<Rightarrow> int" where
  "MaxBytesForLevel level = 10 * 1048576 * 10 ^ (level - 1)"

definition level_score :: "Version \<Rightarrow> nat \<Rightarrow> int \<times> int" where
  "level_score v level =
     (if level = 0 then (int (length (v_files v level)), int kL0_CompactionTrigger)
      else (uint (word_of_int (TotalFileSize (v_files v level)) :: 64 word), MaxBytesForLevel level))"

definition score_less :: "int \<times> int \<Rightarrow> int \<times> int \<Rightarrow> bool" where
  "score_less a b \<longleftrightarrow> fst a * snd b < fst b * snd a"

definition Finalize :: "Version \<Rightarrow> Version" where
  "Finalize v =
     (let (best_level, best_score) =
        foldl (\<lambda>(best_level, best_score) level.
            let score = level_score v level
            in if score_less best_score score then (int level, score) else (best_level, best_score))
          (- 1, (- 1, 1)) [0..<kNumLevels - 1]
      in v\<lparr> v_compaction_level := best_level, v_compaction_score := best_score \<rparr>)"

definition size_compaction :: "Version \<Rightarrow> bool" where
  "size_compaction v \<longleftrightarrow> snd (v_compaction_score v) \<le> fst (v_compaction_score v)"

definition NeedsCompaction :: "VersionSet \<Rightarrow> bool" where
  "NeedsCompaction vs = (let v = vs_current vs in size_compaction v \<or> v_file_to_compact v \<noteq> None)"

section \<open>Files that are in use\<close>

definition AddLiveFiles :: "64 word set \<Rightarrow> VersionSet \<Rightarrow> 64 word set" where
  "AddLiveFiles live vs =
     live \<union> \<Union> (set (map (\<lambda>v. \<Union> (set (map (\<lambda>level. fm_number ` set (v_files v level)) [0..<kNumLevels]))) (vs_versions vs)))"

text \<open>\<open>None\<close>: a search does not return.\<close>

definition MaxNextLevelOverlappingBytes :: "VersionSet \<Rightarrow> int option" where
  "MaxNextLevelOverlappingBytes vs =
     foldl (\<lambda>result p. case result of None \<Rightarrow> None | Some result \<Rightarrow>
         map_option (\<lambda>overlaps. let sum = TotalFileSize overlaps in if result < sum then sum else result)
           (GetOverlappingInputs (vs_comparator vs) (fst p + 1) (Some (fm_smallest (snd p))) (Some (fm_largest (snd p)))
             (vs_current vs)))
       (Some 0)
       (concat (map (\<lambda>level. map (Pair level) (v_files (vs_current vs) level)) [1..<kNumLevels - 1]))"

text \<open>The offset of a key: whole files before it, and within the file of its range what the index says.\<close>

fun offset_in_level ::
    "'f RandomAccessFile \<Rightarrow> Comparator \<Rightarrow> nat \<Rightarrow> slice \<Rightarrow> FileMetaData list \<Rightarrow> 64 word \<Rightarrow> 'f table_cache
      \<Rightarrow> (64 word \<times> 'f table_cache) option" where
  "offset_in_level ops c level ikey [] result tc = Some (result, tc)"
| "offset_in_level ops c level ikey (f # fs) result tc =
     (if internal_Compare c (fm_largest f) ikey \<le> 0
      then offset_in_level ops c level ikey fs (result + fm_file_size f) tc
      else if 0 < internal_Compare c (fm_smallest f) ikey
      then if 0 < level then Some (result, tc) else offset_in_level ops c level ikey fs result tc
      else case TableCache_NewIterator ops (fm_number f) (fm_file_size f) tc of
          None \<Rightarrow> None
        | Some ((iter, None), tc) \<Rightarrow> offset_in_level ops c level ikey fs result tc
        | Some ((iter, Some table), tc) \<Rightarrow>
            (case ApproximateOffsetOf ikey table of
               None \<Rightarrow> None
             | Some offset \<Rightarrow> offset_in_level ops c level ikey fs (result + offset) tc))"

definition VersionSet_ApproximateOffsetOf ::
    "'f RandomAccessFile \<Rightarrow> Version \<Rightarrow> slice \<Rightarrow> VersionSet \<Rightarrow> 'f table_cache \<Rightarrow> (64 word \<times> 'f table_cache) option" where
  "VersionSet_ApproximateOffsetOf ops v ikey vs tc =
     foldl (\<lambda>r level. case r of None \<Rightarrow> None
         | Some (result, tc) \<Rightarrow> offset_in_level ops (vs_comparator vs) level ikey (v_files v level) result tc)
       (Some (0, tc)) [0..<kNumLevels]"

end
