(* ===== verification/Ldb_Compaction.thy ===== *)
theory Ldb_Compaction
  imports Ldb_Version_Set
begin

text \<open>
  Compactions (\<^verbatim>\<open>class Compaction\<close> and the functions that pick one, in \<^verbatim>\<open>db/version_set.h\<close> and
  \<^verbatim>\<open>db/version_set.cc\<close>): the files that are merged, and what the loop over their entries asks about a key.
\<close>

section \<open>The state\<close>

text \<open>The sum of the overlapping bytes is a signed integer of 64 bits, kept as its word.\<close>

record Compaction =
  co_level :: nat
  co_max_output_file_size :: "64 word"
  co_input_version :: Version
  co_edit :: VersionEdit
  co_inputs0 :: "FileMetaData list"
  co_inputs1 :: "FileMetaData list"
  co_grandparents :: "FileMetaData list"
  co_grandparent_index :: nat
  co_seen_key :: bool
  co_overlapped_bytes :: "64 word"
  co_level_ptrs :: "nat \<Rightarrow> nat"

text \<open>The constructor; the input version is set right after it.\<close>

definition Compaction_new :: "Options \<Rightarrow> nat \<Rightarrow> Version \<Rightarrow> FileMetaData list \<Rightarrow> Compaction" where
  "Compaction_new options level v inputs =
     \<lparr> co_level = level, co_max_output_file_size = MaxFileSizeForLevel options level, co_input_version = v,
       co_edit = VersionEdit_new, co_inputs0 = inputs, co_inputs1 = [], co_grandparents = [],
       co_grandparent_index = 0, co_seen_key = False, co_overlapped_bytes = 0, co_level_ptrs = (\<lambda>_. 0) \<rparr>"

section \<open>Ranges\<close>

text \<open>The smallest and the largest key of files; without files they stay cleared.\<close>

definition GetRange :: "Comparator \<Rightarrow> FileMetaData list \<Rightarrow> slice \<times> slice" where
  "GetRange c inputs =
     (case inputs of
        [] \<Rightarrow> ([], [])
      | f # fs \<Rightarrow>
          foldl (\<lambda>(smallest, largest) f.
              (if internal_Compare c (fm_smallest f) smallest < 0 then fm_smallest f else smallest,
               if 0 < internal_Compare c (fm_largest f) largest then fm_largest f else largest))
            (fm_smallest f, fm_largest f) fs)"

definition GetRange2 :: "Comparator \<Rightarrow> FileMetaData list \<Rightarrow> FileMetaData list \<Rightarrow> slice \<times> slice" where
  "GetRange2 c inputs1 inputs2 = GetRange c (inputs1 @ inputs2)"

section \<open>Setting up the inputs\<close>

text \<open>
  The inputs of the level grow while those of the next level stay the same. \<open>None\<close>: a limit overflows, or a
  search does not return.
\<close>

definition expanded_inputs ::
    "Comparator \<Rightarrow> Options \<Rightarrow> Version \<Rightarrow> nat \<Rightarrow> slice \<times> slice \<Rightarrow> FileMetaData list \<times> FileMetaData list \<times> slice
      \<Rightarrow> (FileMetaData list \<times> FileMetaData list \<times> slice) option" where
  "expanded_inputs c options v level all p =
     (let (inputs0, inputs1, largest) = p
      in if inputs1 = [] then Some p
         else case GetOverlappingInputs c level (Some (fst all)) (Some (snd all)) v of
             None \<Rightarrow> None
           | Some expanded0 \<Rightarrow>
               if length expanded0 \<le> length inputs0 then Some p
               else case ExpandedCompactionByteSizeLimit options of
                   None \<Rightarrow> None
                 | Some limit \<Rightarrow>
                     if limit \<le> TotalFileSize inputs1 + TotalFileSize expanded0 then Some p
                     else let (new_start, new_limit) = GetRange c expanded0
                          in case GetOverlappingInputs c (level + 1) (Some new_start) (Some new_limit) v of
                              None \<Rightarrow> None
                            | Some expanded1 \<Rightarrow>
                                Some (if length expanded1 = length inputs1 then (expanded0, expanded1, new_limit) else p))"

definition SetupOtherInputs :: "Compaction \<Rightarrow> VersionSet \<Rightarrow> (Compaction \<times> VersionSet) option" where
  "SetupOtherInputs co vs =
     (let c = vs_comparator vs; v = vs_current vs; level = co_level co;
          (smallest, largest) = GetRange c (co_inputs0 co)
      in case GetOverlappingInputs c (level + 1) (Some smallest) (Some largest) v of
           None \<Rightarrow> None
         | Some inputs1 \<Rightarrow>
             (case expanded_inputs c (vs_options vs) v level (GetRange2 c (co_inputs0 co) inputs1) (co_inputs0 co, inputs1, largest) of
                None \<Rightarrow> None
              | Some (inputs0, inputs1, largest) \<Rightarrow>
                  let (all_start, all_limit) = GetRange2 c inputs0 inputs1
                  in case (if level + 2 < kNumLevels
                           then GetOverlappingInputs c (level + 2) (Some all_start) (Some all_limit) v
                           else Some (co_grandparents co)) of
                       None \<Rightarrow> None
                     | Some grandparents \<Rightarrow>
                         Some (co\<lparr> co_inputs0 := inputs0, co_inputs1 := inputs1, co_grandparents := grandparents,
                                   co_edit := SetCompactPointer level largest (co_edit co) \<rparr>,
                               vs\<lparr> vs_compact_pointer := (vs_compact_pointer vs)(level := largest) \<rparr>)))"

text \<open>The first file of the level behind the place where the last compaction ended, or the first one.\<close>

definition first_behind :: "VersionSet \<Rightarrow> nat \<Rightarrow> FileMetaData" where
  "first_behind vs level =
     (case List.find (\<lambda>f. vs_compact_pointer vs level = []
          \<or> 0 < internal_Compare (vs_comparator vs) (fm_largest f) (vs_compact_pointer vs level)) (v_files (vs_current vs) level) of
        Some f \<Rightarrow> f
      | None \<Rightarrow> v_files (vs_current vs) level ! 0)"

text \<open>On level 0 the files overlap; all those that overlap are taken.\<close>

definition all_overlapping :: "VersionSet \<Rightarrow> nat \<Rightarrow> FileMetaData list \<Rightarrow> FileMetaData list option" where
  "all_overlapping vs level inputs =
     (if level = 0
      then let (smallest, largest) = GetRange (vs_comparator vs) inputs
           in GetOverlappingInputs (vs_comparator vs) 0 (Some smallest) (Some largest) (vs_current vs)
      else Some inputs)"

text \<open>The outer \<open>None\<close> is as above; the inner one is the null pointer.\<close>

definition PickCompaction :: "VersionSet \<Rightarrow> (Compaction option \<times> VersionSet) option" where
  "PickCompaction vs =
     (let v = vs_current vs;
          choice = (if size_compaction v
            then let level = nat (v_compaction_level v) in Some (level, first_behind vs level)
            else case v_file_to_compact v of
                Some f \<Rightarrow> Some (nat (v_file_to_compact_level v), f)
              | None \<Rightarrow> None)
      in case choice of
           None \<Rightarrow> Some (None, vs)
         | Some (level, f) \<Rightarrow>
             (case all_overlapping vs level [f] of
                None \<Rightarrow> None
              | Some inputs \<Rightarrow>
                  map_option (\<lambda>(co, vs). (Some co, vs))
                    (SetupOtherInputs (Compaction_new (vs_options vs) level v inputs) vs)))"

text \<open>Below level 0, a manual compaction takes files up to a limit of bytes.\<close>

fun limit_inputs :: "64 word \<Rightarrow> 64 word \<Rightarrow> FileMetaData list \<Rightarrow> FileMetaData list" where
  "limit_inputs limit bytes [] = []"
| "limit_inputs limit bytes (f # fs) =
     (let bytes = bytes + fm_file_size f in if limit \<le> bytes then [f] else f # limit_inputs limit bytes fs)"

definition VersionSet_CompactRange ::
    "nat \<Rightarrow> slice option \<Rightarrow> slice option \<Rightarrow> VersionSet \<Rightarrow> (Compaction option \<times> VersionSet) option" where
  "VersionSet_CompactRange level begin_key end_key vs =
     (case GetOverlappingInputs (vs_comparator vs) level begin_key end_key (vs_current vs) of
        None \<Rightarrow> None
      | Some inputs \<Rightarrow>
          if inputs = [] then Some (None, vs)
          else let inputs = (if 0 < level then limit_inputs (MaxFileSizeForLevel (vs_options vs) level) 0 inputs else inputs)
               in map_option (\<lambda>(co, vs). (Some co, vs))
                    (SetupOtherInputs (Compaction_new (vs_options vs) level (vs_current vs) inputs) vs))"

section \<open>Operations of a compaction\<close>

definition IsTrivialMove :: "Options \<Rightarrow> Compaction \<Rightarrow> bool option" where
  "IsTrivialMove options co =
     (if length (co_inputs0 co) = 1 \<and> length (co_inputs1 co) = 0
      then map_option (\<lambda>limit. TotalFileSize (co_grandparents co) \<le> limit) (MaxGrandParentOverlapBytes options)
      else Some False)"

definition AddInputDeletions :: "Compaction \<Rightarrow> VersionEdit \<Rightarrow> VersionEdit" where
  "AddInputDeletions co edit =
     foldl (\<lambda>edit f. DeleteFile (co_level co + 1) (fm_number f) edit)
       (foldl (\<lambda>edit f. DeleteFile (co_level co) (fm_number f) edit) edit (co_inputs0 co)) (co_inputs1 co)"

text \<open>The edit of a move to the next level, in \<^verbatim>\<open>DBImpl::BackgroundCompaction\<close>.\<close>

definition trivial_move_edit :: "Compaction \<Rightarrow> VersionEdit" where
  "trivial_move_edit co =
     (let f = co_inputs0 co ! 0
      in AddFile (co_level co + 1) (fm_number f) (fm_file_size f) (fm_smallest f) (fm_largest f)
           (DeleteFile (co_level co) (fm_number f) (co_edit co)))"

text \<open>The pointer into a level moves to the first file that does not end before the key.\<close>

function advance_level :: "Comparator \<Rightarrow> slice \<Rightarrow> FileMetaData list \<Rightarrow> nat \<Rightarrow> bool \<times> nat" where
  "advance_level c ukey files i =
     (if i < length files
      then let f = files ! i
           in if cmp_Compare c ukey (ExtractUserKey (fm_largest f)) \<le> 0
              then (0 \<le> cmp_Compare c ukey (ExtractUserKey (fm_smallest f)), i)
              else advance_level c ukey files (i + 1)
      else (False, i))"
  by pat_completeness auto
termination
  by (relation "measure (\<lambda>(c, ukey, files, i). length files - i)") auto

declare advance_level.simps [simp del]

fun base_level_loop :: "Comparator \<Rightarrow> slice \<Rightarrow> Version \<Rightarrow> nat list \<Rightarrow> (nat \<Rightarrow> nat) \<Rightarrow> bool \<times> (nat \<Rightarrow> nat)" where
  "base_level_loop c ukey v [] ptrs = (True, ptrs)"
| "base_level_loop c ukey v (lvl # lvls) ptrs =
     (let (holds, p) = advance_level c ukey (v_files v lvl) (ptrs lvl); ptrs = ptrs(lvl := p)
      in if holds then (False, ptrs) else base_level_loop c ukey v lvls ptrs)"

definition IsBaseLevelForKey :: "Comparator \<Rightarrow> slice \<Rightarrow> Compaction \<Rightarrow> bool \<times> Compaction" where
  "IsBaseLevelForKey c ukey co =
     (let (b, ptrs) = base_level_loop c ukey (co_input_version co) [co_level co + 2..<kNumLevels] (co_level_ptrs co)
      in (b, co\<lparr> co_level_ptrs := ptrs \<rparr>))"

text \<open>The grandparents that end before the key count as overlap once a key has been seen.\<close>

function skip_grandparents :: "Comparator \<Rightarrow> slice \<Rightarrow> Compaction \<Rightarrow> Compaction" where
  "skip_grandparents c internal_key co =
     (let i = co_grandparent_index co
      in if i < length (co_grandparents co) \<and> 0 < internal_Compare c internal_key (fm_largest (co_grandparents co ! i))
         then skip_grandparents c internal_key
           (co\<lparr> co_overlapped_bytes := co_overlapped_bytes co + (if co_seen_key co then fm_file_size (co_grandparents co ! i) else 0),
                co_grandparent_index := i + 1 \<rparr>)
         else co)"
  by pat_completeness auto
termination
  by (relation "measure (\<lambda>(c, k, co). length (co_grandparents co) - co_grandparent_index co)") auto

declare skip_grandparents.simps [simp del]

definition ShouldStopBefore :: "Comparator \<Rightarrow> Options \<Rightarrow> slice \<Rightarrow> Compaction \<Rightarrow> (bool \<times> Compaction) option" where
  "ShouldStopBefore c options internal_key co =
     (let co = (skip_grandparents c internal_key co)\<lparr> co_seen_key := True \<rparr>
      in map_option (\<lambda>limit. if limit < sint (co_overlapped_bytes co) then (True, co\<lparr> co_overlapped_bytes := 0 \<rparr>) else (False, co))
           (MaxGrandParentOverlapBytes options))"

section \<open>Which entries a compaction drops\<close>

text \<open>
  The variables of the loop in \<^verbatim>\<open>DBImpl::DoCompactionWork\<close>: the current user key, if there is one, and the sequence
  number of the last entry of it.
\<close>

record key_state =
  ks_current_user_key :: slice
  ks_has_current_user_key :: bool
  ks_last_sequence_for_key :: SequenceNumber

definition key_state_new :: key_state where
  "key_state_new =
     \<lparr> ks_current_user_key = [], ks_has_current_user_key = False, ks_last_sequence_for_key = kMaxSequenceNumber \<rparr>"

definition note_user_key :: "Comparator \<Rightarrow> slice \<Rightarrow> key_state \<Rightarrow> key_state" where
  "note_user_key c ukey ks =
     (if \<not> ks_has_current_user_key ks \<or> cmp_Compare c ukey (ks_current_user_key ks) \<noteq> 0
      then \<lparr> ks_current_user_key = ukey, ks_has_current_user_key = True, ks_last_sequence_for_key = kMaxSequenceNumber \<rparr>
      else ks)"

definition drops_entry ::
    "Comparator \<Rightarrow> SequenceNumber \<Rightarrow> slice \<Rightarrow> key_state \<times> Compaction \<Rightarrow> bool \<times> key_state \<times> Compaction" where
  "drops_entry c smallest_snapshot key s =
     (let (ks, co) = s
      in case ParseInternalKey key of
           None \<Rightarrow> (False, key_state_new, co)
         | Some ikey \<Rightarrow>
             let ks = note_user_key c (pk_user_key ikey) ks;
                 (drop, co) =
                   (if ks_last_sequence_for_key ks \<le> smallest_snapshot then (True, co)
                    else if pk_type ikey = kTypeDeletion \<and> pk_sequence ikey \<le> smallest_snapshot
                    then IsBaseLevelForKey c (pk_user_key ikey) co
                    else (False, co))
             in (drop, ks\<lparr> ks_last_sequence_for_key := pk_sequence ikey \<rparr>, co))"

end
