(* ===== verification/Ldb_Compaction_Spec.thy ===== *)
theory Ldb_Compaction_Spec
  imports Ldb_Compaction
begin

text \<open>
  What a compaction drops does not matter to anyone who still can read: the entries that it keeps, with the newer
  ones above and the older ones below, answer every read at a snapshot that is not older than the oldest
  one in use like all its inputs did.
\<close>

section \<open>Reading from newer and older entries\<close>

definition newer_entries :: "entry set \<Rightarrow> entry set \<Rightarrow> bool" where
  "newer_entries A B \<longleftrightarrow> (\<forall>a \<in> A. \<forall>b \<in> B. user_key a = user_key b \<longrightarrow> entry_sequence b < entry_sequence a)"

lemma seen_Un: "seen (A \<union> B) u n = seen A u n \<union> seen B u n"
  by (auto simp: seen_def)

lemma seen_newer: "newer_entries A B \<Longrightarrow> a \<in> seen A u n \<Longrightarrow> b \<in> seen B u n \<Longrightarrow> entry_sequence b < entry_sequence a"
  by (simp add: newer_entries_def seen_def)

lemma newest_Un:
  assumes "newer_entries A B" and "seen A u n \<noteq> {}"
  shows "newest (A \<union> B) u n e \<longleftrightarrow> newest A u n e"
proof -
  obtain a where a: "a \<in> seen A u n" using assms(2) by blast
  show ?thesis
  proof
    assume e: "newest (A \<union> B) u n e"
    then have "entry_sequence a \<le> entry_sequence e" using a by (simp add: newest_def seen_Un)
    then have "e \<notin> seen B u n" using seen_newer [OF assms(1) a, of e] by (meson leD)
    then show "newest A u n e" using e by (simp add: newest_def seen_Un)
  next
    assume e: "newest A u n e"
    then have "\<forall>b \<in> seen B u n. entry_sequence b \<le> entry_sequence e"
      unfolding newest_def by (blast intro: order_less_imp_le seen_newer [OF assms(1)])
    then show "newest (A \<union> B) u n e" using e unfolding newest_def seen_Un by blast
  qed
qed

lemma reads_Un:
  assumes "newer_entries A B"
  shows "reads (A \<union> B) u n value r \<longleftrightarrow> (if seen A u n = {} then reads B u n value r else reads A u n value r)"
proof (cases "seen A u n = {}")
  case True
  then show ?thesis using reads_cong [of "A \<union> B" u n B] by (simp add: seen_Un)
next
  case False
  then show ?thesis using newest_Un [OF assms False] by (simp add: reads_def seen_Un)
qed

lemma newer_entries_subset: "newer_entries A B \<Longrightarrow> A' \<subseteq> A \<Longrightarrow> B' \<subseteq> B \<Longrightarrow> newer_entries A' B'"
  unfolding newer_entries_def by blast

lemma newest_exists:
  assumes "finite E" and "seen E u n \<noteq> {}"
  shows "\<exists>e. newest E u n e"
proof -
  have "finite (entry_sequence ` seen E u n)" "entry_sequence ` seen E u n \<noteq> {}"
    using assms by (simp_all add: seen_def)
  then have m: "Max (entry_sequence ` seen E u n) \<in> entry_sequence ` seen E u n"
    "\<forall>e \<in> seen E u n. entry_sequence e \<le> Max (entry_sequence ` seen E u n)" by (simp_all add: Max_in)
  from m(1) obtain e where "e \<in> seen E u n" "entry_sequence e = Max (entry_sequence ` seen E u n)" by (metis imageE)
  then show ?thesis using m(2) unfolding newest_def by (intro exI [of _ e]) simp
qed

section \<open>The deeper levels\<close>

definition covers_key :: "Comparator \<Rightarrow> slice \<Rightarrow> FileMetaData \<Rightarrow> bool" where
  "covers_key c u f \<longleftrightarrow> 0 \<le> cmp_Compare c u (file_start f) \<and> cmp_Compare c u (file_limit f) \<le> 0"

definition passed :: "Comparator \<Rightarrow> Version \<Rightarrow> slice \<Rightarrow> nat list \<Rightarrow> (nat \<Rightarrow> nat) \<Rightarrow> bool" where
  "passed c v u lvls ptrs \<longleftrightarrow>
     (\<forall>lvl \<in> set lvls. \<forall>i < ptrs lvl. i < length (v_files v lvl) \<longrightarrow> 0 < cmp_Compare c u (file_limit (v_files v lvl ! i)))"

context user_comparator
begin

lemma user_flip: "0 \<le> cmp_Compare c a b \<longleftrightarrow> cmp_Compare c b a \<le> 0"
  using user_not_less [of a b] by auto

lemma not_covered_behind:
  assumes "disjoint_files c files" and "i < length files" and "\<not> 0 \<le> cmp_Compare c u (file_start (files ! i))"
    and "i \<le> j" and "j < length files"
  shows "\<not> covers_key c u (files ! j)"
proof (cases "i = j")
  case False
  then have "cmp_Compare c (file_start (files ! i)) (file_start (files ! j)) \<le> 0"
    using user_le [OF order_less_imp_le [OF disjoint_smallest [OF assms(1), of i j]]] assms(4,5) by simp
  then show ?thesis using assms(3) user_le_trans [of "file_start (files ! i)" "file_start (files ! j)" u]
    by (auto simp: covers_key_def user_flip)
qed (use assms(3) in \<open>simp add: covers_key_def\<close>)

lemma advance_level_spec:
  assumes "disjoint_files c files" and "\<forall>j < i. j < length files \<longrightarrow> 0 < cmp_Compare c u (file_limit (files ! j))"
    and "advance_level c u files i = (b, p)"
  shows "(b \<longleftrightarrow> (\<exists>f \<in> set files. covers_key c u f)) \<and> (\<forall>j < p. j < length files \<longrightarrow> 0 < cmp_Compare c u (file_limit (files ! j)))"
  using assms(2,3)
proof (induction "length files - i" arbitrary: i rule: less_induct)
  case less
  have behind: "\<not> covers_key c u (files ! j)" if "j < i" "j < length files" for j
    using less.prems(1) that by (auto simp: covers_key_def)
  show ?case
  proof (cases "i < length files")
    case True
    show ?thesis
    proof (cases "cmp_Compare c u (file_limit (files ! i)) \<le> 0")
      case stop: True
      then have r: "b \<longleftrightarrow> 0 \<le> cmp_Compare c u (file_start (files ! i))" "p = i"
        using less.prems(2) True by (auto simp: advance_level.simps [of c u files i] Let_def)
      have "(\<exists>f \<in> set files. covers_key c u f) \<longleftrightarrow> 0 \<le> cmp_Compare c u (file_start (files ! i))"
      proof
        assume "\<exists>f \<in> set files. covers_key c u f"
        then obtain j where j: "j < length files" "covers_key c u (files ! j)" by (auto simp: in_set_conv_nth)
        then have "i \<le> j" using behind [of j] by (cases "i \<le> j") simp_all
        then show "0 \<le> cmp_Compare c u (file_start (files ! i))" using not_covered_behind [OF assms(1) True _ _ j(1)] j(2) by blast
      next
        assume "0 \<le> cmp_Compare c u (file_start (files ! i))"
        then show "\<exists>f \<in> set files. covers_key c u f" using stop True nth_mem by (auto simp: covers_key_def)
      qed
      then show ?thesis using r less.prems(1) by simp
    next
      case False
      then have "advance_level c u files (i + 1) = (b, p)"
        using less.prems(2) True by (simp add: advance_level.simps [of c u files i] Let_def)
      moreover have "\<forall>j < i + 1. j < length files \<longrightarrow> 0 < cmp_Compare c u (file_limit (files ! j))"
        using less.prems(1) False by (auto simp: less_Suc_eq)
      ultimately show ?thesis using less.hyps [of "i + 1"] True by simp
    qed
  next
    case False
    then have r: "\<not> b" "p = i" using less.prems(2) by (simp_all add: advance_level.simps [of c u files i])
    have "\<not> covers_key c u f" if "f \<in> set files" for f using that behind False by (auto simp: in_set_conv_nth)
    then show ?thesis using r less.prems(1) by simp
  qed
qed

lemma base_level_loop_spec:
  assumes "\<forall>lvl \<in> set lvls. disjoint_files c (v_files v lvl)" and "distinct lvls"
    and "passed c v u lvls ptrs" and "base_level_loop c u v lvls ptrs = (b, ptrs')"
  shows "(b \<longleftrightarrow> (\<forall>lvl \<in> set lvls. \<forall>f \<in> set (v_files v lvl). \<not> covers_key c u f)) \<and> passed c v u lvls ptrs'
    \<and> (\<forall>lvl. lvl \<notin> set lvls \<longrightarrow> ptrs' lvl = ptrs lvl)"
  using assms
proof (induction lvls arbitrary: ptrs)
  case (Cons lvl lvls)
  obtain h p where a: "advance_level c u (v_files v lvl) (ptrs lvl) = (h, p)" by fastforce
  from advance_level_spec [OF _ _ a] Cons.prems(1,3)
  have h: "h \<longleftrightarrow> (\<exists>f \<in> set (v_files v lvl). covers_key c u f)"
    "\<forall>j < p. j < length (v_files v lvl) \<longrightarrow> 0 < cmp_Compare c u (file_limit (v_files v lvl ! j))"
    by (simp_all add: passed_def)
  show ?case
  proof (cases h)
    case True
    then have "\<not> b" "ptrs' = ptrs(lvl := p)" using Cons.prems(4) a by simp_all
    then show ?thesis using h True Cons.prems(3) by (auto simp: passed_def)
  next
    case False
    then have loop: "base_level_loop c u v lvls (ptrs(lvl := p)) = (b, ptrs')" using Cons.prems(4) a by simp
    have "passed c v u lvls (ptrs(lvl := p))" using Cons.prems(2,3) by (auto simp: passed_def)
    have dis: "\<forall>lvl \<in> set lvls. disjoint_files c (v_files v lvl)" "distinct lvls" "lvl \<notin> set lvls" using Cons.prems(1,2) by simp_all
    note r = Cons.IH [OF dis(1,2) \<open>passed c v u lvls (ptrs(lvl := p))\<close> loop]
    then have "ptrs' lvl = p" using dis(3) by simp
    moreover have "\<forall>l. l \<notin> set (lvl # lvls) \<longrightarrow> ptrs' l = ptrs l" using r by simp
    moreover have "passed c v u (lvl # lvls) ptrs'" using r h(2) \<open>ptrs' lvl = p\<close> by (simp add: passed_def)
    ultimately show ?thesis using r h(1) False by simp
  qed
qed (simp add: passed_def)

end

section \<open>The entries that are kept\<close>

fun keep_entries :: "Comparator \<Rightarrow> SequenceNumber \<Rightarrow> entry list \<Rightarrow> key_state \<times> Compaction \<Rightarrow> entry list" where
  "keep_entries c smallest_snapshot [] s = []"
| "keep_entries c smallest_snapshot (e # es) s =
     (let (drop, s) = drops_entry c smallest_snapshot (fst e) s
      in if drop then keep_entries c smallest_snapshot es s else e # keep_entries c smallest_snapshot es s)"

definition deep_levels :: "Compaction \<Rightarrow> nat list" where
  "deep_levels co = [co_level co + 2..<kNumLevels]"

definition base_key :: "Comparator \<Rightarrow> Compaction \<Rightarrow> slice \<Rightarrow> bool" where
  "base_key c co u \<longleftrightarrow> (\<forall>lvl \<in> set (deep_levels co). \<forall>f \<in> set (v_files (co_input_version co) lvl). \<not> covers_key c u f)"

text \<open>The same with the entry before at hand.\<close>

definition hidden_by :: "SequenceNumber \<Rightarrow> entry option \<Rightarrow> entry \<Rightarrow> bool" where
  "hidden_by smallest_snapshot before e \<longleftrightarrow>
     (case before of None \<Rightarrow> False | Some p \<Rightarrow> user_key p = user_key e \<and> entry_sequence p \<le> smallest_snapshot)"

definition obsolete :: "Comparator \<Rightarrow> SequenceNumber \<Rightarrow> Compaction \<Rightarrow> entry \<Rightarrow> bool" where
  "obsolete c smallest_snapshot co e \<longleftrightarrow>
     \<not> is_value e \<and> entry_sequence e \<le> smallest_snapshot \<and> base_key c co (user_key e)"

fun kept :: "Comparator \<Rightarrow> SequenceNumber \<Rightarrow> Compaction \<Rightarrow> entry option \<Rightarrow> entry list \<Rightarrow> entry list" where
  "kept c smallest_snapshot co before [] = []"
| "kept c smallest_snapshot co before (e # es) =
     (if hidden_by smallest_snapshot before e \<or> obsolete c smallest_snapshot co e
      then kept c smallest_snapshot co (Some e) es else e # kept c smallest_snapshot co (Some e) es)"

definition tracks :: "key_state \<Rightarrow> entry option \<Rightarrow> bool" where
  "tracks ks before \<longleftrightarrow>
     (case before of
        None \<Rightarrow> \<not> ks_has_current_user_key ks
      | Some p \<Rightarrow> ks_has_current_user_key ks \<and> ks_current_user_key ks = user_key p \<and> ks_last_sequence_for_key ks = entry_sequence p)"

context user_comparator
begin

lemma IsBaseLevelForKey_spec:
  assumes "\<forall>lvl \<in> set (deep_levels co). disjoint_files c (v_files (co_input_version co) lvl)"
    and "passed c (co_input_version co) u (deep_levels co) (co_level_ptrs co)"
  obtains ptrs where "IsBaseLevelForKey c u co = (base_key c co u, co\<lparr> co_level_ptrs := ptrs \<rparr>)"
    "passed c (co_input_version co) u (deep_levels co) ptrs"
proof -
  obtain b ptrs where r: "base_level_loop c u (co_input_version co) (deep_levels co) (co_level_ptrs co) = (b, ptrs)" by fastforce
  have "distinct (deep_levels co)" by (simp add: deep_levels_def)
  note spec = base_level_loop_spec [OF assms(1) this assms(2) r]
  have "b \<longleftrightarrow> base_key c co u" unfolding base_key_def using spec by blast
  then have "IsBaseLevelForKey c u co = (base_key c co u, co\<lparr> co_level_ptrs := ptrs \<rparr>)"
    using r by (simp add: IsBaseLevelForKey_def deep_levels_def)
  then show ?thesis using that spec by blast
qed

lemma passed_larger: "passed c v u lvls ptrs \<Longrightarrow> cmp_Compare c u u' \<le> 0 \<Longrightarrow> passed c v u' lvls ptrs"
  using compare_le_trans [of _ u u'] by (auto simp: passed_def user_greater) (metis compare_eq compare_trans order_le_less)

lemma drops_entry_spec:
  assumes "ParseInternalKey (fst e) \<noteq> None" and "tracks ks before" and "smallest_snapshot < kMaxSequenceNumber"
    and "\<forall>lvl \<in> set (deep_levels co). disjoint_files c (v_files (co_input_version co) lvl)"
    and "passed c (co_input_version co) (user_key e) (deep_levels co) (co_level_ptrs co)"
  obtains ks' ptrs where "drops_entry c smallest_snapshot (fst e) (ks, co)
      = (hidden_by smallest_snapshot before e \<or> obsolete c smallest_snapshot co e, ks', co\<lparr> co_level_ptrs := ptrs \<rparr>)"
    "tracks ks' (Some e)" "passed c (co_input_version co) (user_key e) (deep_levels co) ptrs"
proof -
  obtain ikey where ikey: "ParseInternalKey (fst e) = Some ikey" using assms(1) by auto
  have parts: "pk_user_key ikey = user_key e" "pk_sequence ikey = entry_sequence e" "pk_type ikey = kTypeDeletion \<longleftrightarrow> \<not> is_value e"
    using ParseInternalKey_parts(1) [OF ikey] entry_sequence_parse [OF ikey] ikey
    by (auto simp: is_value_def) (metis ValueType.exhaust)+
  define ks1 where "ks1 = note_user_key c (user_key e) ks"
  have hidden: "ks_last_sequence_for_key ks1 \<le> smallest_snapshot \<longleftrightarrow> hidden_by smallest_snapshot before e"
    using assms(2,3) compare_eq [of "user_key e"] compare_refl
    by (auto simp: ks1_def note_user_key_def tracks_def hidden_by_def split: option.splits)
  have ks1: "ks_has_current_user_key ks1" "ks_current_user_key ks1 = user_key e"
    using compare_eq [of "user_key e"] by (auto simp: ks1_def note_user_key_def)
  let ?ks' = "ks1\<lparr> ks_last_sequence_for_key := entry_sequence e \<rparr>"
  have track: "tracks ?ks' (Some e)" using ks1 by (simp add: tracks_def)
  obtain ptrs where base: "IsBaseLevelForKey c (user_key e) co = (base_key c co (user_key e), co\<lparr> co_level_ptrs := ptrs \<rparr>)"
    "passed c (co_input_version co) (user_key e) (deep_levels co) ptrs"
    using IsBaseLevelForKey_spec [OF assms(4,5)] by blast
  have same: "co\<lparr> co_level_ptrs := co_level_ptrs co \<rparr> = co" by simp
  have eq: "drops_entry c smallest_snapshot (fst e) (ks, co) =
     (let (drop, co) = (if hidden_by smallest_snapshot before e then (True, co)
        else if \<not> is_value e \<and> entry_sequence e \<le> smallest_snapshot then IsBaseLevelForKey c (user_key e) co else (False, co))
      in (drop, ?ks', co))"
    unfolding drops_entry_def by (simp add: ikey parts ks1_def [symmetric] hidden Let_def)
  show ?thesis
  proof (cases "\<not> hidden_by smallest_snapshot before e \<and> \<not> is_value e \<and> entry_sequence e \<le> smallest_snapshot")
    case True
    then show ?thesis using that [of ?ks' ptrs] base track eq by (simp add: obsolete_def)
  next
    case False
    then have "obsolete c smallest_snapshot co e \<longrightarrow> hidden_by smallest_snapshot before e" by (auto simp: obsolete_def)
    then have "drops_entry c smallest_snapshot (fst e) (ks, co)
        = (hidden_by smallest_snapshot before e \<or> obsolete c smallest_snapshot co e, ?ks', co\<lparr> co_level_ptrs := co_level_ptrs co \<rparr>)"
      unfolding eq same using False by (cases "hidden_by smallest_snapshot before e") auto
    then show ?thesis using that track assms(5) by blast
  qed
qed

lemma keep_entries_kept:
  assumes "db_entries c es" and "tracks ks before" and "smallest_snapshot < kMaxSequenceNumber"
    and "\<forall>lvl \<in> set (deep_levels co). disjoint_files c (v_files (co_input_version co) lvl)"
    and "\<forall>e \<in> set es. passed c (co_input_version co) (user_key e) (deep_levels co) (co_level_ptrs co)"
  shows "keep_entries c smallest_snapshot es (ks, co) = kept c smallest_snapshot co before es"
  using assms
proof (induction es arbitrary: ks co before)
  case (Cons e es)
  have db: "db_entries c es" "ParseInternalKey (fst e) \<noteq> None" using Cons.prems(1) by (simp_all add: db_entries_def sorted_entries_def)
  have up: "cmp_Compare c (user_key e) (user_key e') \<le> 0" if "e' \<in> set es" for e'
    using Cons.prems(1) that user_le [of "fst e" "fst e'"]
    by (simp add: db_entries_def sorted_entries_def InternalKeyComparator_def order_less_imp_le)
  obtain ks' ptrs where r: "drops_entry c smallest_snapshot (fst e) (ks, co)
      = (hidden_by smallest_snapshot before e \<or> obsolete c smallest_snapshot co e, ks', co\<lparr> co_level_ptrs := ptrs \<rparr>)"
    "tracks ks' (Some e)" "passed c (co_input_version co) (user_key e) (deep_levels co) ptrs"
    using drops_entry_spec [OF db(2) Cons.prems(2-4)] Cons.prems(5) by auto
  let ?co = "co\<lparr> co_level_ptrs := ptrs \<rparr>"
  have levels: "deep_levels ?co = deep_levels co" "co_input_version ?co = co_input_version co" "co_level_ptrs ?co = ptrs"
    by (simp_all add: deep_levels_def)
  have "kept c smallest_snapshot ?co b xs = kept c smallest_snapshot co b xs" for b xs
    by (induction xs arbitrary: b) (simp_all add: obsolete_def base_key_def levels)
  moreover have "keep_entries c smallest_snapshot es (ks', ?co) = kept c smallest_snapshot ?co (Some e) es"
    using Cons.IH [OF db(1) r(2) Cons.prems(3), of ?co] Cons.prems(4) passed_larger [OF r(3) up] unfolding levels by blast
  ultimately show ?case by (simp add: r(1))
qed simp

end

section \<open>What is kept answers like what was there\<close>

lemma kept_append:
  "kept c m co before (xs @ ys) = kept c m co before xs @ kept c m co (if xs = [] then before else Some (last xs)) ys"
  by (induction xs arbitrary: before) auto

lemma kept_subset: "set (kept c m co before es) \<subseteq> set es"
  by (induction es arbitrary: before) auto

lemma in_kept:
  assumes "distinct es" and "i < length es"
  shows "es ! i \<in> set (kept c m co None es) \<longleftrightarrow>
    \<not> hidden_by m (if i = 0 then None else Some (es ! (i - 1))) (es ! i) \<and> \<not> obsolete c m co (es ! i)"
proof -
  let ?before = "if i = 0 then None else Some (es ! (i - 1))"
  have es: "es = take i es @ es ! i # drop (Suc i) es" using assms(2) by (rule id_take_nth_drop)
  have before: "(if take i es = [] then None else Some (last (take i es))) = ?before"
    using assms(2) by (auto simp: last_conv_nth min_def)
  have "kept c m co None es = kept c m co None (take i es)
      @ (if hidden_by m ?before (es ! i) \<or> obsolete c m co (es ! i) then [] else [es ! i]) @ kept c m co (Some (es ! i)) (drop (Suc i) es)"
    by (subst es) (simp only: kept_append before kept.simps, simp)
  moreover have "es ! i \<notin> set (take i es) \<union> set (drop (Suc i) es)"
  proof -
    have "distinct (take i es @ es ! i # drop (Suc i) es)" using assms(1) es by simp
    then show ?thesis by simp
  qed
  ultimately show ?thesis
    using kept_subset [of c m co None "take i es"] kept_subset [of c m co "Some (es ! i)" "drop (Suc i) es"] by auto
qed

text \<open>The versions of a key in a list have different sequence numbers.\<close>

definition distinct_versions :: "entry list \<Rightarrow> bool" where
  "distinct_versions es \<longleftrightarrow> distinct (map (\<lambda>e. (user_key e, entry_sequence e)) es)"

lemma distinct_versions_distinct: "distinct_versions es \<Longrightarrow> distinct es"
  by (simp add: distinct_versions_def distinct_map)

lemma same_version:
  "distinct_versions es \<Longrightarrow> i < length es \<Longrightarrow> j < length es \<Longrightarrow> user_key (es ! i) = user_key (es ! j) \<Longrightarrow>
    entry_sequence (es ! i) = entry_sequence (es ! j) \<Longrightarrow> i = j"
  unfolding distinct_versions_def by (metis (no_types, lifting) length_map nth_eq_iff_index_eq nth_map)

lemma visible_sequence: "ParseInternalKey (fst e) \<noteq> None \<Longrightarrow> visible_entry n e \<longleftrightarrow> entry_sequence e \<le> n"
  using entry_sequence_parse [of e] by (auto simp: visible_entry_def)

lemma reads_unique:
  assumes "newest E u n e" and "\<And>e'. newest E u n e' \<Longrightarrow> e' = e"
  shows "reads E u n value r \<longleftrightarrow> r = (if is_value e then (StatusOK, snd e) else (NotFound [], value))"
proof -
  have "seen E u n \<noteq> {}" using assms(1) by (auto simp: newest_def)
  then show ?thesis unfolding reads_def using assms by blast
qed

text \<open>The files of the deeper levels, with what they hold.\<close>

definition deep_entries :: "(FileMetaData \<Rightarrow> entry list) \<Rightarrow> Compaction \<Rightarrow> entry set" where
  "deep_entries entries co =
     (\<Union>level \<in> set (deep_levels co). \<Union>f \<in> set (v_files (co_input_version co) level). set (entries f))"

context user_comparator
begin

lemma versions_descend:
  assumes "db_entries c es" and "distinct_versions es" and "i < j" and "j < length es" and "user_key (es ! i) = user_key (es ! j)"
  shows "entry_sequence (es ! j) < entry_sequence (es ! i)"
proof -
  have "entry_sequence (es ! j) \<le> entry_sequence (es ! i)"
    using assms sorted_wrt_nth_less [of _ es i j]
    by (intro sequence_antimono) (auto simp: db_entries_def sorted_entries_def InternalKeyComparator_def)
  then show ?thesis using same_version [OF assms(2), of i j] assms(3-5) by (metis less_trans nat_neq_iff order_le_less)
qed

lemma newest_unique:
  assumes "distinct_versions es" and "newest (set es) u n e" and "newest (set es) u n e'"
  shows "e' = e"
proof -
  obtain i j where ij: "i < length es" "j < length es" "es ! i = e" "es ! j = e'"
    using assms(2,3) by (auto simp: newest_def seen_def in_set_conv_nth)
  have "entry_sequence e = entry_sequence e'" using assms(2,3) unfolding newest_def by (meson order_antisym)
  moreover have "user_key e = user_key e'" using assms(2,3) by (simp add: newest_def seen_def)
  ultimately show ?thesis using same_version [OF assms(1) ij(1,2)] ij by metis
qed

lemma newest_kept:
  assumes "db_entries c es" and "distinct_versions es" and "m \<le> n" and "newest (set es) u n e"
  shows "e \<in> set (kept c m co None es) \<longleftrightarrow> \<not> obsolete c m co e"
    and "obsolete c m co e \<Longrightarrow> seen (set (kept c m co None es)) u n = {}"
proof -
  have dist: "distinct es" using assms(2) by (rule distinct_versions_distinct)
  have parse: "ParseInternalKey (fst (es ! j)) \<noteq> None" if "j < length es" for j
    using assms(1) nth_mem [OF that] by (simp add: db_entries_def)
  obtain i where i: "i < length es" "es ! i = e" using assms(4) by (auto simp: newest_def seen_def in_set_conv_nth)
  have e: "user_key e = u" "visible_entry n e" using assms(4) by (simp_all add: newest_def seen_def)
  have largest: "entry_sequence (es ! j) \<le> entry_sequence e"
    if "j < length es" "user_key (es ! j) = u" "entry_sequence (es ! j) \<le> n" for j
  proof -
    have "es ! j \<in> seen (set es) u n" using that visible_sequence [OF parse] by (simp add: seen_def)
    then show ?thesis using assms(4) unfolding newest_def by blast
  qed
  have "\<not> hidden_by m (if i = 0 then None else Some (es ! (i - 1))) e"
  proof
    assume "hidden_by m (if i = 0 then None else Some (es ! (i - 1))) e"
    then have p: "0 < i" "user_key (es ! (i - 1)) = u" "entry_sequence (es ! (i - 1)) \<le> n"
      using e(1) assms(3) by (auto simp: hidden_by_def split: if_splits)
    then have "entry_sequence e < entry_sequence (es ! (i - 1))"
      using versions_descend [OF assms(1,2), of "i - 1" i] i e(1) by simp
    moreover have "i - 1 < length es" using i(1) by linarith
    ultimately show False using largest [OF _ p(2,3)] by (simp add: not_le [symmetric])
  qed
  then show 1: "e \<in> set (kept c m co None es) \<longleftrightarrow> \<not> obsolete c m co e" using in_kept [OF dist i(1)] i(2) by simp
  assume obs: "obsolete c m co e"
  show "seen (set (kept c m co None es)) u n = {}"
  proof (rule ccontr)
    assume "seen (set (kept c m co None es)) u n \<noteq> {}"
    then obtain e' where e': "e' \<in> set (kept c m co None es)" "user_key e' = u" "visible_entry n e'" by (auto simp: seen_def)
    then have "e' \<in> set es" using kept_subset by blast
    then obtain j where j: "j < length es" "es ! j = e'" by (metis in_set_conv_nth)
    have "entry_sequence e' \<le> entry_sequence e" using largest [OF j(1)] j(2) e'(2,3) visible_sequence [OF parse [OF j(1)]] by simp
    moreover have "j \<noteq> i" using 1 obs e'(1) i(2) j(2) by auto
    ultimately have "i < j" using versions_descend [OF assms(1,2), of j i] i j e(1) e'(2) by (cases "i < j") auto
    then have same: "user_key (es ! (j - 1)) = u"
      using user_key_between [OF assms(1), of i "j - 1" j] i j e(1) e'(2) by simp
    have "entry_sequence (es ! (j - 1)) \<le> entry_sequence e"
    proof (cases "i = j - 1")
      case False
      then have "i < j - 1" "j - 1 < length es" using \<open>i < j\<close> j(1) by linarith+
      from versions_descend [OF assms(1,2) this] show ?thesis using i(2) e(1) same by (simp add: order_less_imp_le)
    qed (use i(2) in simp)
    then have "hidden_by m (if j = 0 then None else Some (es ! (j - 1))) e'"
      using obs same e'(2) \<open>i < j\<close> by (auto simp: hidden_by_def obsolete_def)
    then show False using in_kept [OF dist j(1), of c m co] j(2) e'(1) by simp
  qed
qed

text \<open>A compaction keeps every read at or above the smallest snapshot.\<close>

lemma kept_reads:
  assumes "db_entries c es" and "distinct_versions es" and "m \<le> n"
    and "newer_entries N (set es \<union> D)" and "newer_entries (set es) D" and "\<And>d. d \<in> D \<Longrightarrow> \<not> base_key c co (user_key d)"
  shows "reads (N \<union> set (kept c m co None es) \<union> D) u n value r \<longleftrightarrow> reads (N \<union> set es \<union> D) u n value r"
proof -
  let ?K = "set (kept c m co None es)"
  have N: "newer_entries N (?K \<union> D)" "newer_entries ?K D"
    by (rule newer_entries_subset [OF assms(4)], use kept_subset [of c m co None es] in auto)
      (rule newer_entries_subset [OF assms(5)], use kept_subset [of c m co None es] in auto)
  have "reads (?K \<union> D) u n value r \<longleftrightarrow> reads (set es \<union> D) u n value r"
  proof (cases "seen (set es) u n = {}")
    case True
    then have "seen ?K u n = {}" using kept_subset [of c m co None es] by (auto simp: seen_def)
    then show ?thesis unfolding reads_Un [OF N(2)] reads_Un [OF assms(5)] using True by simp
  next
    case False
    then obtain e where e: "newest (set es) u n e" using newest_exists [of "set es" u n] by auto
    have es: "reads (set es) u n value r \<longleftrightarrow> r = (if is_value e then (StatusOK, snd e) else (NotFound [], value))"
      by (rule reads_unique [OF e newest_unique [OF assms(2) e]])
    show ?thesis
    proof (cases "obsolete c m co e")
      case True
      then have "seen ?K u n = {}" by (rule newest_kept(2) [OF assms(1-3) e])
      moreover have "seen D u n = {}"
      proof -
        have "base_key c co u" using True e by (simp add: obsolete_def newest_def seen_def)
        then show ?thesis using assms(6) unfolding seen_def by blast
      qed
      moreover have "\<not> is_value e" using True by (simp add: obsolete_def)
      ultimately show ?thesis unfolding reads_Un [OF N(2)] reads_Un [OF assms(5)] using False es by (simp add: reads_def newest_def)
    next
      case keep: False
      then have K: "e \<in> ?K" using newest_kept(1) [OF assms(1-3) e] by simp
      have newest: "newest ?K u n e"
        using e K kept_subset [of c m co None es] unfolding newest_def seen_def by blast
      have "e' = e" if "newest ?K u n e'" for e'
      proof -
        have "entry_sequence e \<le> entry_sequence e'" using that newest unfolding newest_def by blast
        then have "newest (set es) u n e'"
          using that e kept_subset [of c m co None es] unfolding newest_def seen_def by (blast intro: order_trans)
        then show ?thesis by (rule newest_unique [OF assms(2) e])
      qed
      from reads_unique [OF newest this] have "reads ?K u n value r \<longleftrightarrow> reads (set es) u n value r" using es by simp
      moreover have "seen ?K u n \<noteq> {}" using newest by (auto simp: newest_def)
      ultimately show ?thesis unfolding reads_Un [OF N(2)] reads_Un [OF assms(5)] using False by simp
    qed
  qed
  then show ?thesis
    unfolding Un_assoc reads_Un [OF N(1)] reads_Un [OF assms(4)] by simp
qed

lemma deep_not_base:
  assumes "\<forall>level \<in> set (deep_levels co). \<forall>f \<in> set (v_files (co_input_version co) level). file_holds c f (entries f)"
    and "d \<in> deep_entries entries co"
  shows "\<not> base_key c co (user_key d)"
proof -
  obtain level f where f: "level \<in> set (deep_levels co)" "f \<in> set (v_files (co_input_version co) level)" "d \<in> set (entries f)"
    using assms(2) by (auto simp: deep_entries_def)
  then have "file_holds c f (entries f)" using assms(1) by blast
  from file_holds_range [OF this f(3)] have "covers_key c (user_key d) f"
    using user_le by (simp add: covers_key_def user_flip)
  then show ?thesis using f(1,2) by (auto simp: base_key_def)
qed

theorem keep_entries_reads:
  assumes "db_entries c es" and "distinct_versions es" and "smallest_snapshot \<le> n" and "smallest_snapshot < kMaxSequenceNumber"
    and "\<forall>level \<in> set (deep_levels co). disjoint_files c (v_files (co_input_version co) level)
      \<and> (\<forall>f \<in> set (v_files (co_input_version co) level). file_holds c f (entries f))"
    and "co_level_ptrs co = (\<lambda>_. 0)"
    and "newer_entries N (set es \<union> deep_entries entries co)" and "newer_entries (set es) (deep_entries entries co)"
  shows "reads (N \<union> set (keep_entries c smallest_snapshot es (key_state_new, co)) \<union> deep_entries entries co) u n value r
    \<longleftrightarrow> reads (N \<union> set es \<union> deep_entries entries co) u n value r"
proof -
  have "keep_entries c smallest_snapshot es (key_state_new, co) = kept c smallest_snapshot co None es"
    using assms(1,4,5,6) by (intro keep_entries_kept) (simp_all add: tracks_def key_state_new_def passed_def)
  moreover have "\<not> base_key c co (user_key d)" if "d \<in> deep_entries entries co" for d
    by (rule deep_not_base [OF _ that]) (use assms(5) in blast)
  ultimately show ?thesis using kept_reads [OF assms(1-3,7,8)] by simp
qed

end

end
