(* ===== verification/Version_Properties.thy ===== *)
theory Version_Properties
  imports Table_Properties Ldb_Compaction_Spec
begin

text \<open>What version edits, versions and their searches, file names and compactions promise.\<close>

section \<open>Edits\<close>

text \<open>C11: An edit of the version that is written to the manifest is read back, whatever of its fields are set.\<close>

theorem version_edit_round_trip:
  assumes "sound_edit e"
  shows "VersionEdit_DecodeFrom (VersionEdit_EncodeTo [] e) VersionEdit_new = (StatusOK, e)"
  using edit_loop_EncodeTo [OF assms, of VersionEdit_new]
  by (simp add: VersionEdit_DecodeFrom_def VersionEdit_new_def)

lemma version_edit_round_trip_witness:
  "\<exists>e. ve_new_files e \<noteq> [] \<and> ve_deleted_files e = {(1, 4)}
    \<and> VersionEdit_DecodeFrom (VersionEdit_EncodeTo [] e) VersionEdit_new = (StatusOK, e)"
proof -
  let ?e = "AddFile 2 7 100 (InternalKey [97] 7 kTypeValue) (InternalKey [98] 8 kTypeValue)
    (DeleteFile 1 4 (SetCompactPointer 1 [] (SetLogNumber 3 VersionEdit_new)))"
  have "sound_edit ?e"
    by (simp add: sound_edit_def VersionEdit_new_def AddFile_def DeleteFile_def SetCompactPointer_def SetLogNumber_def
        sound_file_entry_def FileMetaData_new_def kNumLevels_def)
  from version_edit_round_trip [OF this] show ?thesis
    by (intro exI [of _ ?e]) (simp add: AddFile_def DeleteFile_def SetCompactPointer_def SetLogNumber_def VersionEdit_new_def)
qed

text \<open>C10: The builder of versions that collects a sequence of edits produces what the edits produce one after another,
  deleting and adding files, on every level, in the order of the smallest keys; provided that a file that
  is added to a level has a number that the level never had.\<close>

theorem builder_applies_edits:
  assumes "user_comparator c" and "level < kNumLevels" and "sorted_files c (v_files base level)"
    and "fresh_edits level (fm_number ` set (v_files base level)) es"
  shows "sorted_files c (v_files (SaveTo c (fst (foldl (\<lambda>s e. Builder_Apply c e s) (Builder_new base, m) es)) Version_new) level)
    \<and> set (v_files (SaveTo c (fst (foldl (\<lambda>s e. Builder_Apply c e s) (Builder_new base, m) es)) Version_new) level)
      = foldl (\<lambda>fs e. edit_files level e fs) (set (v_files base level)) es"
  by (rule user_comparator.SaveTo_all [OF assms(1,3,2,4)])

lemma builder_applies_edits_witness:
  "\<exists>f g. edit_files 1 (DeleteFile 1 5 VersionEdit_new) (edit_files 1 (AddFile 1 5 9 f g VersionEdit_new) {}) = {}
    \<and> set (v_files (SaveTo BytewiseComparator (fst (foldl (\<lambda>s e. Builder_Apply BytewiseComparator e s) (Builder_new Version_new, \<lambda>_. [])
        [AddFile 1 5 9 f g VersionEdit_new, DeleteFile 1 5 VersionEdit_new])) Version_new) 1) = {}"
proof -
  let ?f = "InternalKey [97] 7 kTypeValue" and ?es = "\<lambda>f. [AddFile 1 5 9 f f VersionEdit_new, DeleteFile 1 5 VersionEdit_new]"
  have gone: "edit_files 1 (DeleteFile 1 5 VersionEdit_new) (edit_files 1 (AddFile 1 5 9 ?f ?f VersionEdit_new) {}) = {}"
    by (auto simp: edit_files_def AddFile_def DeleteFile_def VersionEdit_new_def FileMetaData_new_def)
  have "fresh_edits 1 (fm_number ` set (v_files Version_new 1)) (?es ?f)"
    by (simp add: new_at_def AddFile_def DeleteFile_def VersionEdit_new_def Version_new_def)
  moreover have "sorted_files BytewiseComparator (v_files Version_new 1)" by (simp add: sorted_files_def Version_new_def)
  ultimately have "set (v_files (SaveTo BytewiseComparator (fst (foldl (\<lambda>s e. Builder_Apply BytewiseComparator e s) (Builder_new Version_new, \<lambda>_. [])
      (?es ?f))) Version_new) 1) = foldl (\<lambda>fs e. edit_files 1 e fs) (set (v_files Version_new 1)) (?es ?f)"
    using builder_applies_edits [OF bytewise.user_comparator_axioms, of 1 Version_new "?es ?f" "\<lambda>_. []"] by (simp add: kNumLevels_def)
  also have "\<dots> = {}" using gone by (simp add: Version_new_def)
  finally show ?thesis using gone by blast
qed

section \<open>Searching a version\<close>

text \<open>C9: A lookup in a sound version through the cache of tables finds the newest version of the key that the snapshot
  sees among all entries of all files, or that there is none, although it reads only the files that may
  hold the key, newest first, and stops at the first that does; files are opened as they are needed.\<close>

theorem version_get_newest:
  assumes "sound_version BytewiseComparator entries v"
    and "\<forall>level < kNumLevels. \<forall>f \<in> set (v_files v level). table_stored tc f (entries f)"
    and "length u + 8 < 2 ^ 32" and "n \<le> kMaxSequenceNumber"
  shows "\<exists>r stats tc'. Version_Get (TableCache_Get PosixRandomAccessFile verify) BytewiseComparator (LookupKey u n) value v tc
      = Some ((r, stats), tc')
    \<and> reads (version_entries entries v) u n value r"
proof -
  have "\<exists>r stats tc'. Version_Get (TableCache_Get PosixRandomAccessFile verify) BytewiseComparator (LookupKey u n) value v tc
      = Some ((r, stats), tc')
    \<and> reads (version_entries entries v) u n value r \<and> (\<forall>g gs. table_stored tc g gs \<longrightarrow> table_stored tc' g gs)"
    by (rule db_files.Version_Get_reads [where verify = verify, OF assms(1) _ assms(3,4)]) (use assms(2) in blast)
  then show ?thesis by blast
qed

text \<open>A version with one file, which holds one entry.\<close>

definition one_entry :: entry where
  "one_entry = (InternalKey [97] 7 kTypeValue, [120])"

definition one_file_version :: "FileMetaData \<Rightarrow> Version" where
  "one_file_version f = Version_new\<lparr> v_files := (\<lambda>level. if level = 1 then [f] else []) \<rparr>"

lemma one_entry_parse: "ParseInternalKey (fst one_entry) = Some \<lparr> pk_user_key = [97], pk_sequence = 7, pk_type = kTypeValue \<rparr>"
  unfolding one_entry_def fst_conv by (rule ParseInternalKey_InternalKey) (simp add: kMaxSequenceNumber_def)

lemma reads_one_entry: "reads {one_entry} [97] 9 value r \<longleftrightarrow> r = (StatusOK, [120])"
proof -
  have "newest {one_entry} [97] 9 one_entry"
    using one_entry_parse by (simp add: newest_def seen_def visible_entry_def) (simp add: one_entry_def)
  from reads_unique [OF this] one_entry_parse show ?thesis
    by (simp add: is_value_def newest_def seen_def) (simp add: one_entry_def)
qed

lemma one_file_stored:
  obtains f and tc :: "posix_file table_cache" where "table_stored tc f [one_entry]"
    "sound_version BytewiseComparator (\<lambda>_. [one_entry]) (one_file_version f)"
    "version_entries (\<lambda>_. [one_entry]) (one_file_version f) = {one_entry}"
proof -
  let ?opts = "db_options BytewiseComparator None True 4096 16 kSnappyCompression"
  obtain r where b: "TableBuilder_Finish PosixWritableFile
      (foldl (\<lambda>r (k, v). TableBuilder_Add PosixWritableFile k v r) (TableBuilder_new ?opts empty_wstream) [one_entry]) = (StatusOK, r)"
    and len: "length (ws_data (tb_file r)) < 2 ^ 32" unfolding one_entry_def by (rule one_entry_table)
  let ?g = "\<lparr> pf_name = [], pf_bytes = ws_data (tb_file r), pf_temporary_fd = False, pf_unopenable = False,
          pf_unreadable = False, pf_errno = [] \<rparr>"
  have g: "sound_posix_file ?g" "pf_bytes ?g = ws_data (tb_file r)" using len by (simp_all add: sound_posix_file_def)
  have opts: "?opts = db_options BytewiseComparator (map_option NewBloomFilterPolicy None) True 4096 16 kSnappyCompression" by simp
  have f: "sound_wstream empty_wstream" "ws_data empty_wstream = []" by (simp_all add: sound_wstream_def)
  have one: "(1 :: nat) \<le> 16" "sorted_entries (InternalKeyComparator BytewiseComparator) [one_entry]"
    "\<forall>e \<in> set [one_entry]. 8 \<le> length (fst e)"
    by (simp_all add: sorted_entries_def one_entry_def)
  obtain bs where bs: "concat bs = [one_entry]" "pf_bytes ?g = table_bytes ?opts bs" "length (table_bytes ?opts bs) < 2 ^ 32"
    "sorted_blocks (InternalKeyComparator BytewiseComparator) (\<lambda>k. 8 \<le> length k) bs"
    by (rule built_table_opens [OF opts one f b [symmetric] len g])
  let ?tc = "TableCache_new (\<lambda>_. (StatusOK, Some ?g)) [] ?opts"
  let ?f = "FileMetaData_new\<lparr> fm_number := 5, fm_file_size := word_of_nat (length (table_bytes ?opts bs)),
      fm_smallest := fst one_entry, fm_largest := fst one_entry \<rparr>"
  have "sound_options ?opts" unfolding sound_options_def using opts one(1) by blast
  moreover have "table_at ?tc (fm_number ?f) (fm_file_size ?f) ?g bs"
    using g bs(2-4) by (simp add: table_at_def TableCache_new_def open_table_file_def status_ok_def)
  ultimately have "table_stored ?tc ?f [one_entry]" unfolding table_stored_def using bs(1) by (auto simp: TableCache_new_def)
  moreover have "sound_version BytewiseComparator (\<lambda>_. [one_entry]) (one_file_version ?f)"
    using one_entry_parse one(2)
    by (simp add: sound_version_def one_file_version_def file_holds_def db_entries_def disjoint_files_def sound_file_def)
  moreover have "version_entries (\<lambda>_. [one_entry]) (one_file_version ?f) = {one_entry}"
    by (auto simp: version_entries_def one_file_version_def kNumLevels_def)
  ultimately show ?thesis by (rule that)
qed

lemma version_get_newest_witness:
  "\<exists>f tc stats tc'. v_files (one_file_version f) 1 = [f]
    \<and> Version_Get (TableCache_Get PosixRandomAccessFile True) BytewiseComparator (LookupKey [97] 9) [] (one_file_version f) tc
      = Some (((StatusOK, [120]), stats), tc')"
proof -
  obtain f and tc :: "posix_file table_cache" where f: "table_stored tc f [one_entry]"
    "sound_version BytewiseComparator (\<lambda>_. [one_entry]) (one_file_version f)"
    "version_entries (\<lambda>_. [one_entry]) (one_file_version f) = {one_entry}" by (rule one_file_stored)
  have "\<forall>level < kNumLevels. \<forall>g \<in> set (v_files (one_file_version f) level). table_stored tc g [one_entry]"
    using f(1) by (simp add: one_file_version_def)
  from version_get_newest [OF f(2) this, of "[97]" 9 True "[]"]
  obtain r stats tc' where "Version_Get (TableCache_Get PosixRandomAccessFile True) BytewiseComparator (LookupKey [97] 9) [] (one_file_version f) tc
      = Some ((r, stats), tc')" "reads {one_entry} [97] 9 [] r"
    unfolding f(3) by (auto simp: kMaxSequenceNumber_def)
  moreover have "v_files (one_file_version f) 1 = [f]" by (simp add: one_file_version_def)
  ultimately show ?thesis unfolding reads_one_entry by blast
qed

text \<open>C15: The binary search that decides whether a sorted level overlaps a range of user keys answers as looking at each file
  does, for ranges that are bounded or not.\<close>

theorem overlap_search_exact:
  assumes "user_comparator c" and "disjoint_files c (v_files v level)"
  shows "OverlapInLevel c level lo hi v \<longleftrightarrow>
    (\<exists>f \<in> set (v_files v level). \<not> AfterFile c lo f \<and> \<not> BeforeFile c hi f)"
proof -
  have "SomeFileOverlapsRange c b (v_files v level) lo hi = SomeFileOverlapsRange c False (v_files v level) lo hi" for b
    by (cases b) (simp_all add: user_comparator.overlap_sorted [OF assms])
  from this [of "0 < level"] show ?thesis by (auto simp: OverlapInLevel_def SomeFileOverlapsRange_def list_ex_iff)
qed

lemma overlap_search_exact_witness:
  "\<not> OverlapInLevel BytewiseComparator 1 (Some [98]) None (Version_new\<lparr> v_files := (\<lambda>_.
      [FileMetaData_new\<lparr> fm_smallest := InternalKey [97] 7 kTypeValue, fm_largest := InternalKey [97] 7 kTypeValue \<rparr>]) \<rparr>)"
proof -
  let ?k = "InternalKey [97] 7 kTypeValue"
  let ?f = "FileMetaData_new\<lparr> fm_smallest := ?k, fm_largest := ?k \<rparr>" let ?v = "Version_new\<lparr> v_files := (\<lambda>_. [?f]) \<rparr>"
  have "ParseInternalKey ?k = Some \<lparr> pk_user_key = [97], pk_sequence = 7, pk_type = kTypeValue \<rparr>"
    by (rule ParseInternalKey_InternalKey) (simp add: kMaxSequenceNumber_def)
  then have "disjoint_files BytewiseComparator (v_files ?v 1)" by (simp add: disjoint_files_def sound_file_def)
  from overlap_search_exact [OF bytewise.user_comparator_axioms this, of "Some [98]" None]
  show ?thesis by (simp add: AfterFile_def BytewiseComparator_def)
qed

text \<open>C16: The choice of the files that overlap a range returns, although on level 0 it starts again whenever a file widens the
  range; below level 0 it is exactly the files that overlap the range; on level 0 it is those that overlap
  a wider range out of which none of them sticks.\<close>

theorem overlapping_inputs_returns:
  assumes "user_comparator c"
  shows "\<exists>lo hi. GetOverlappingInputs c level begin_key end_key v = Some (filter (user_comparator.overlaps_range c lo hi) (v_files v level))
    \<and> user_comparator.wider_range c (map_option ExtractUserKey begin_key) (map_option ExtractUserKey end_key) lo hi
    \<and> (0 < level \<longrightarrow> lo = map_option ExtractUserKey begin_key \<and> hi = map_option ExtractUserKey end_key)
    \<and> (level = 0 \<longrightarrow> (\<forall>f \<in> set (v_files v level). user_comparator.overlaps_range c lo hi f \<longrightarrow> user_comparator.inside_range c lo hi f))"
  using user_comparator.overlap_loop_spec [OF assms, where inputs = "[]" and i = 0 and ?level0.0 = "level = 0"
      and files = "v_files v level" and lo = "map_option ExtractUserKey begin_key" and hi = "map_option ExtractUserKey end_key"]
  by (auto simp: GetOverlappingInputs_def)

lemma overlapping_inputs_returns_witness:
  "\<exists>fs. GetOverlappingInputs BytewiseComparator 0 (Some (InternalKey [97] 7 kTypeValue)) None Version_new = Some fs"
  using overlapping_inputs_returns [OF bytewise.user_comparator_axioms, of 0 "Some (InternalKey [97] 7 kTypeValue)" None Version_new] by blast

section \<open>File names\<close>

text \<open>C18: The names of log, table, temporary and manifest files parse to their number and kind, for every number of 64 bits.\<close>

theorem file_names_parse:
  "ParseFileName (drop (length dbname + 1) (LogFileName dbname number)) = Some (number, kLogFile)
    \<and> ParseFileName (drop (length dbname + 1) (TableFileName dbname number)) = Some (number, kTableFile)
    \<and> ParseFileName (drop (length dbname + 1) (SSTTableFileName dbname number)) = Some (number, kTableFile)
    \<and> ParseFileName (drop (length dbname + 1) (TempFileName dbname number)) = Some (number, kTempFile)
    \<and> ParseFileName (drop (length dbname + 1) (DescriptorFileName dbname number)) = Some (number, kDescriptorFile)"
  using numbered_name [of "''log''" number] numbered_name [of "''ldb''" number] numbered_name [of "''sst''" number]
    numbered_name [of "''dbtmp''" number] descriptor_name [of number]
  by (simp add: LogFileName_def TableFileName_def SSTTableFileName_def TempFileName_def DescriptorFileName_def MakeFileName_def)

section \<open>Compactions\<close>

text \<open>C7: A compaction does not change what anyone can still read: the entries that it keeps, together with the newer entries
  above and the entries of the deeper levels, answer every read at a snapshot that is not older than the
  smallest one in use as all entries did; for deletion markers it drops this rests on the search
  through the deeper levels, whose pointers only move forwards.\<close>

theorem compaction_keeps_reads:
  assumes "user_comparator c" and "db_entries c es" and "distinct_versions es"
    and "smallest_snapshot \<le> n" and "smallest_snapshot < kMaxSequenceNumber"
    and "\<forall>level \<in> set (deep_levels co). disjoint_files c (v_files (co_input_version co) level)
      \<and> (\<forall>f \<in> set (v_files (co_input_version co) level). file_holds c f (entries f))"
    and "co_level_ptrs co = (\<lambda>_. 0)"
    and "newer_entries N (set es \<union> deep_entries entries co)" and "newer_entries (set es) (deep_entries entries co)"
  shows "reads (N \<union> set (keep_entries c smallest_snapshot es (key_state_new, co)) \<union> deep_entries entries co) u n value r
    \<longleftrightarrow> reads (N \<union> set es \<union> deep_entries entries co) u n value r"
  by (rule user_comparator.keep_entries_reads [OF assms])

text \<open>A deletion marker above the value that it deletes, and a compaction with nothing below.\<close>

definition deleted_entries :: "entry list" where
  "deleted_entries = [(InternalKey [97] 8 kTypeDeletion, []), (InternalKey [97] 7 kTypeValue, [120])]"

definition bottom_compaction :: Compaction where
  "bottom_compaction = Compaction_new Options_new 1 Version_new []"

lemma deleted_entries_sound:
  "db_entries BytewiseComparator deleted_entries" "distinct_versions deleted_entries"
  "reads (set deleted_entries) [97] 9 [] (NotFound [], [])"
proof -
  let ?d = "(InternalKey [97] 8 kTypeDeletion, []) :: entry" and ?v = "(InternalKey [97] 7 kTypeValue, [120]) :: entry"
  have p: "ParseInternalKey (fst ?d) = Some \<lparr> pk_user_key = [97], pk_sequence = 8, pk_type = kTypeDeletion \<rparr>"
    "ParseInternalKey (fst ?v) = Some \<lparr> pk_user_key = [97], pk_sequence = 7, pk_type = kTypeValue \<rparr>"
    by (simp_all only: fst_conv) (intro ParseInternalKey_InternalKey; simp add: kMaxSequenceNumber_def)+
  note s = entry_sequence_parse [OF p(1)] entry_sequence_parse [OF p(2)]
  have "internal_Compare BytewiseComparator (fst ?d) (fst ?v) < 0"
    using s by (simp add: bytewise.internal_Compare_less PackSequenceAndType_def)
  then show "db_entries BytewiseComparator deleted_entries"
    using p by (simp add: deleted_entries_def db_entries_def sorted_entries_def InternalKeyComparator_def)
  show "distinct_versions deleted_entries" using s by (simp add: deleted_entries_def distinct_versions_def)
  have "newest (set deleted_entries) [97] 9 ?d"
    using p s by (auto simp: deleted_entries_def newest_def seen_def visible_entry_def)
  from reads_newest [OF this, of "[]"] show "reads (set deleted_entries) [97] 9 [] (NotFound [], [])"
    using p by (simp add: is_value_def)
qed

lemma bottom_compaction_sound:
  "deep_entries (\<lambda>_. []) bottom_compaction = {}" "co_level_ptrs bottom_compaction = (\<lambda>_. 0)"
  "\<forall>level \<in> set (deep_levels bottom_compaction). disjoint_files c (v_files (co_input_version bottom_compaction) level)
    \<and> (\<forall>f \<in> set (v_files (co_input_version bottom_compaction) level). file_holds c f [])"
  by (simp_all add: bottom_compaction_def deep_entries_def Compaction_new_def Version_new_def disjoint_files_def)

lemma compaction_keeps_reads_witness:
  "reads (set (keep_entries BytewiseComparator 9 deleted_entries (key_state_new, bottom_compaction))) [97] 9 [] (NotFound [], [])"
  using compaction_keeps_reads [OF bytewise.user_comparator_axioms deleted_entries_sound(1,2), of 9 9 bottom_compaction
      "\<lambda>_. []" "{}" "[97]" "[]" "(NotFound [], [])"] deleted_entries_sound(3) bottom_compaction_sound
  by (simp add: newer_entries_def kMaxSequenceNumber_def)

section \<open>A key that continues in the next file\<close>

text \<open>A lookup in files whose contents are given by their numbers.\<close>

definition lookup_in :: "(64 word \<Rightarrow> entry list) \<Rightarrow> slice \<Rightarrow> SequenceNumber \<Rightarrow> Version \<Rightarrow> (Status \<times> slice) option" where
  "lookup_in entries u n v =
     map_option (\<lambda>r. fst (fst r))
       (Version_Get (\<lambda>number len k s. Some ((StatusOK, first_at (InternalKeyComparator BytewiseComparator) k (entries number)), s))
         BytewiseComparator (LookupKey u n) [] v ())"

text \<open>Two files of level 1 that share a user key: the newer version ends the first, the older one begins the second.\<close>

definition split_entries :: "64 word \<Rightarrow> entry list" where
  "split_entries number =
     (if number = 1 then [(InternalKey [97] 5 kTypeValue, [9]), (InternalKey [98] 9 kTypeValue, [2])]
      else [(InternalKey [98] 3 kTypeValue, [1]), (InternalKey [99] 4 kTypeValue, [7])])"

definition split_file :: "64 word \<Rightarrow> FileMetaData" where
  "split_file number = FileMetaData_new\<lparr> fm_number := number, fm_file_size := 100,
     fm_smallest := fst (hd (split_entries number)), fm_largest := fst (last (split_entries number)) \<rparr>"

definition split_version :: Version where
  "split_version = Version_new\<lparr> v_files := (\<lambda>level. if level = 1 then [split_file 1, split_file 2] else []),
     v_file_to_compact := Some (split_file 1), v_file_to_compact_level := 1, v_compaction_score := (0, 1) \<rparr>"

definition split_set :: VersionSet where
  "split_set = (VersionSet_new [] Options_new BytewiseComparator)\<lparr> vs_current := split_version \<rparr>"

definition split_compaction :: Compaction where
  "split_compaction = (Compaction_new Options_new 1 split_version [split_file 1])\<lparr>
     co_edit := SetCompactPointer 1 (fm_largest (split_file 1)) VersionEdit_new \<rparr>"

lemma split_pick:
  "PickCompaction split_set = Some (Some split_compaction,
     split_set\<lparr> vs_compact_pointer := (vs_compact_pointer split_set)(1 := fm_largest (split_file 1)) \<rparr>)"
  by (simp add: PickCompaction_def size_compaction_def split_set_def split_version_def all_overlapping_def SetupOtherInputs_def
      GetOverlappingInputs_def expanded_inputs_def Compaction_new_def Version_new_def kNumLevels_def GetRange_def GetRange2_def
      VersionSet_new_def AppendVersion_def split_compaction_def Let_def)

lemma split_trivial: "IsTrivialMove Options_new split_compaction = Some True"
  by (simp add: IsTrivialMove_def split_compaction_def Compaction_new_def MaxGrandParentOverlapBytes_def TargetFileSize_def
      Options_new_def int_product_def TotalFileSize_def)

definition moved_version :: "Compaction \<Rightarrow> VersionSet \<Rightarrow> Version" where
  "moved_version co vs = SaveTo (vs_comparator vs)
     (fst (Builder_Apply (vs_comparator vs) (trivial_move_edit co) (Builder_new (vs_current vs), vs_compact_pointer vs))) Version_new"

lemma split_moved:
  "vs_current vs = split_version \<Longrightarrow> vs_comparator vs = BytewiseComparator \<Longrightarrow>
    v_files (moved_version split_compaction vs)
      = (\<lambda>level. if level = 1 then [split_file 2] else if level = 2 then [with_allowed_seeks (split_file 1)] else [])"
  by (rule ext)
    (simp add: moved_version_def SaveTo_def Builder_Apply_def trivial_move_edit_def split_compaction_def Compaction_new_def AddFile_def
      DeleteFile_def SetCompactPointer_def VersionEdit_new_def delete_files_def add_file_def Builder_new_def Version_new_def
      split_version_def split_file_def FileMetaData_new_def with_allowed_seeks_def Let_def kNumLevels_def foldl_MaybeAddFile
      MaybeAddFile_def upper_bound_def)

lemmas split_parts = split_file_def split_entries_def FileMetaData_new_def

lemma split_key: "lk_internal_key (LookupKey [98] 9) = InternalKey [98] 9 kTypeValue" "lk_user_key (LookupKey [98] 9) = [98]"
  by code_simp+

lemmas split_search = files_for_key_def level0_files_def NewestFirst_def deeper_file_def kNumLevels_def upt_rec FindFile_def
  find_file_loop.simps split_parts Let_def

lemmas split_compare = BytewiseComparator_def internal_Compare_def key_tag_def Let_def

lemma split_files:
  "files_for_key BytewiseComparator [98] (InternalKey [98] 9 kTypeValue) split_version = [(1, split_file 1)]"
  "v_files v = (\<lambda>level. if level = 1 then [split_file 2] else if level = 2 then [with_allowed_seeks (split_file 1)] else []) \<Longrightarrow>
    files_for_key BytewiseComparator [98] (InternalKey [98] 9 kTypeValue) v = [(1, split_file 2), (2, with_allowed_seeks (split_file 1))]"
proof -
  show "files_for_key BytewiseComparator [98] (InternalKey [98] 9 kTypeValue) split_version = [(1, split_file 1)]"
    by (simp add: split_search split_version_def Version_new_def) (simp add: split_compare)
  show "files_for_key BytewiseComparator [98] (InternalKey [98] 9 kTypeValue) v = [(1, split_file 2), (2, with_allowed_seeks (split_file 1))]"
    if "v_files v = (\<lambda>level. if level = 1 then [split_file 2] else if level = 2 then [with_allowed_seeks (split_file 1)] else [])"
    using that by (simp add: split_search with_allowed_seeks_def) (simp add: split_compare)
qed

lemma split_found:
  "first_at (InternalKeyComparator BytewiseComparator) (InternalKey [98] 9 kTypeValue) (split_entries 1) = Some (InternalKey [98] 9 kTypeValue, [2])"
  "first_at (InternalKeyComparator BytewiseComparator) (InternalKey [98] 9 kTypeValue) (split_entries 2) = Some (InternalKey [98] 3 kTypeValue, [1])"
  by (simp_all add: first_at_def split_entries_def InternalKeyComparator_def bytewise.internal_Compare_less PackSequenceAndType_def)
    (simp_all add: BytewiseComparator_def)

lemma split_lookup:
  "files_for_key BytewiseComparator [98] (InternalKey [98] 9 kTypeValue) v = (level, split_file n) # fs \<Longrightarrow>
    first_at (InternalKeyComparator BytewiseComparator) (InternalKey [98] 9 kTypeValue) (split_entries n) = Some (InternalKey [98] s kTypeValue, x) \<Longrightarrow>
    s \<le> kMaxSequenceNumber \<Longrightarrow> lookup_in split_entries [98] 9 v = Some (StatusOK, x)"
  using ParseInternalKey_InternalKey [of s "[98]" kTypeValue] bytewise.compare_refl [of "[98]"]
  by (simp add: lookup_in_def Version_Get_def split_key Let_def SaveValue_def status_ok_def split_file_def)

lemma split_sound: "sound_version BytewiseComparator (\<lambda>f. split_entries (fm_number f)) split_version"
proof -
  have parse: "ParseInternalKey (InternalKey k s kTypeValue) \<noteq> None" if "s \<le> kMaxSequenceNumber" for k s
    using ParseInternalKey_InternalKey [OF that] by simp
  have max: "(5 :: 64 word) \<le> kMaxSequenceNumber" "(9 :: 64 word) \<le> kMaxSequenceNumber" "(3 :: 64 word) \<le> kMaxSequenceNumber"
    "(4 :: 64 word) \<le> kMaxSequenceNumber" by (simp_all add: kMaxSequenceNumber_def)
  have less: "internal_Compare BytewiseComparator (InternalKey [97] 5 kTypeValue) (InternalKey [98] 9 kTypeValue) < 0"
    "internal_Compare BytewiseComparator (InternalKey [98] 9 kTypeValue) (InternalKey [98] 3 kTypeValue) < 0"
    "internal_Compare BytewiseComparator (InternalKey [98] 3 kTypeValue) (InternalKey [99] 4 kTypeValue) < 0"
    by (simp_all only: bytewise.internal_Compare_less InternalKey_parts) (simp_all add: BytewiseComparator_def PackSequenceAndType_def)
  have holds: "file_holds BytewiseComparator (split_file n) (split_entries n)" for n
    using parse max less
    by (simp add: file_holds_def db_entries_def sorted_entries_def InternalKeyComparator_def split_file_def split_entries_def)
  have number: "fm_number (split_file n) = n" for n by (simp add: split_file_def)
  have "fm_largest (split_file 1) = InternalKey [98] 9 kTypeValue" "fm_smallest (split_file 2) = InternalKey [98] 3 kTypeValue"
    by (simp_all add: split_file_def split_entries_def)
  then have "disjoint_files BytewiseComparator [split_file 1, split_file 2]"
    using bytewise.file_holds_sound [OF holds] less(2) by (simp add: disjoint_files_def)
  moreover have "v_files split_version = (\<lambda>level. if level = 1 then [split_file 1, split_file 2] else [])"
    by (simp add: split_version_def)
  moreover have "disjoint_files BytewiseComparator []" by (simp add: disjoint_files_def)
  ultimately show ?thesis using holds number by (auto simp: sound_version_def)
qed

text \<open>C17: A file that is moved to the next level as it is may hide its newest version: where the versions of its last user
  key continue in the next file of the level, which is not among the inputs, a lookup finds the older
  version in the upper level and stops. The version set, options and files are sound before.\<close>

theorem trivial_move_hides_newer:
  "\<exists>vs entries co vs'. sound_version BytewiseComparator (\<lambda>f. entries (fm_number f)) (vs_current vs)
    \<and> vs_comparator vs = BytewiseComparator \<and> vs_options vs = Options_new
    \<and> PickCompaction vs = Some (Some co, vs') \<and> IsTrivialMove (vs_options vs) co = Some True
    \<and> lookup_in entries [98] 9 (vs_current vs) = Some (StatusOK, [2])
    \<and> lookup_in entries [98] 9 (moved_version co vs') = Some (StatusOK, [1])"
proof -
  let ?vs' = "split_set\<lparr> vs_compact_pointer := (vs_compact_pointer split_set)(1 := fm_largest (split_file 1)) \<rparr>"
  have cur: "vs_current split_set = split_version" "vs_comparator split_set = BytewiseComparator" "vs_options split_set = Options_new"
    by (simp_all add: split_set_def VersionSet_new_def AppendVersion_def)
  have "sound_version BytewiseComparator (\<lambda>f. split_entries (fm_number f)) split_version" by (rule split_sound)
  moreover have "lookup_in split_entries [98] 9 split_version = Some (StatusOK, [2])"
    by (rule split_lookup [OF split_files(1) split_found(1)]) (simp add: kMaxSequenceNumber_def)
  moreover have "lookup_in split_entries [98] 9 (moved_version split_compaction ?vs') = Some (StatusOK, [1])"
    by (rule split_lookup [OF split_files(2) [OF split_moved] split_found(2)]) (use cur in \<open>simp_all add: kMaxSequenceNumber_def\<close>)
  ultimately show ?thesis using split_pick split_trivial cur by (intro exI [of _ split_set] exI [of _ split_entries] exI conjI) simp_all
qed

end
