(* ===== verification/Ldb_DB.thy ===== *)
theory Ldb_DB
  imports Ldb_Compaction_Spec Ldb_Mem_Iter
begin

text \<open>
  The database (\<^verbatim>\<open>db/db_impl.h\<close>, \<^verbatim>\<open>db/db_impl.cc\<close>, \<^verbatim>\<open>db/snapshot.h\<close>): its state, snapshots and reads. The operations
  are those of one thread: what other threads may do while the mutex is released, and waiting
  for them, is not modelled. \<open>None\<close> stands for a search that does not return.
\<close>

section \<open>Snapshots\<close>

text \<open>A snapshot is an object with a sequence number; objects are numbered in the order in which they are made.\<close>

type_synonym Snapshot = "nat \<times> SequenceNumber"

record SnapshotList =
  sl_made :: nat
  sl_list :: "Snapshot list"

definition SnapshotList_new :: SnapshotList where
  "SnapshotList_new = \<lparr> sl_made = 0, sl_list = [] \<rparr>"

definition SnapshotList_empty :: "SnapshotList \<Rightarrow> bool" where
  "SnapshotList_empty sl \<longleftrightarrow> sl_list sl = []"

definition SnapshotList_oldest :: "SnapshotList \<Rightarrow> Snapshot" where
  "SnapshotList_oldest sl = hd (sl_list sl)"

definition SnapshotList_newest :: "SnapshotList \<Rightarrow> Snapshot" where
  "SnapshotList_newest sl = last (sl_list sl)"

definition SnapshotList_New :: "SequenceNumber \<Rightarrow> SnapshotList \<Rightarrow> Snapshot \<times> SnapshotList" where
  "SnapshotList_New seq sl =
     (let s = (sl_made sl, seq) in (s, \<lparr> sl_made = sl_made sl + 1, sl_list = sl_list sl @ [s] \<rparr>))"

definition SnapshotList_Delete :: "Snapshot \<Rightarrow> SnapshotList \<Rightarrow> SnapshotList" where
  "SnapshotList_Delete s sl = sl\<lparr> sl_list := remove1 s (sl_list sl) \<rparr>"

section \<open>The state\<close>

record ManualCompaction =
  mc_level :: nat
  mc_done :: bool
  mc_begin :: "slice option"
  mc_end :: "slice option"

record 'f DBImpl =
  im_comparator :: Comparator
  im_options :: Options
  im_table_cache :: "'f table_cache"
  im_shutting_down :: bool
  im_mem :: MemTable
  im_imm :: "MemTable option"
  im_seed :: "32 word"
  im_snapshots :: SnapshotList
  im_bg_compaction_scheduled :: bool
  im_manual_compaction :: "ManualCompaction option"
  im_versions :: VersionSet
  im_bg_error :: Status

section \<open>Scheduling\<close>

definition RecordBackgroundError :: "Status \<Rightarrow> 'f DBImpl \<Rightarrow> 'f DBImpl" where
  "RecordBackgroundError s db = (if status_ok (im_bg_error db) then db\<lparr> im_bg_error := s \<rparr> else db)"

definition MaybeScheduleCompaction :: "'f DBImpl \<Rightarrow> 'f DBImpl" where
  "MaybeScheduleCompaction db =
     (if im_bg_compaction_scheduled db then db
      else if im_shutting_down db then db
      else if \<not> status_ok (im_bg_error db) then db
      else if im_imm db = None \<and> im_manual_compaction db = None \<and> \<not> NeedsCompaction (im_versions db) then db
      else db\<lparr> im_bg_compaction_scheduled := True \<rparr>)"

section \<open>Reading\<close>

definition set_current_version :: "Version \<Rightarrow> 'f DBImpl \<Rightarrow> 'f DBImpl" where
  "set_current_version v db = db\<lparr> im_versions := (im_versions db)\<lparr> vs_current := v \<rparr> \<rparr>"

text \<open>The memtable, then the immutable memtable; \<open>fst\<close> of the result says whether the key was there.\<close>

definition get_from_memtables ::
    "lookup_key \<Rightarrow> slice \<Rightarrow> Status \<Rightarrow> 'f DBImpl \<Rightarrow> (bool \<times> slice \<times> Status) option" where
  "get_from_memtables lkey value s db =
     (case MemTable_Get lkey (im_mem db) value s of
        None \<Rightarrow> None
      | Some (True, value, s) \<Rightarrow> Some (True, value, s)
      | Some (False, value, s) \<Rightarrow>
          (case im_imm db of
             None \<Rightarrow> Some (False, value, s)
           | Some imm \<Rightarrow> MemTable_Get lkey imm value s))"

text \<open>The variable behind the pointer \<^verbatim>\<open>value\<close> goes in and comes out.\<close>

definition DBImpl_Get ::
    "'f RandomAccessFile \<Rightarrow> bool \<Rightarrow> Snapshot option \<Rightarrow> slice \<Rightarrow> slice \<Rightarrow> 'f DBImpl \<Rightarrow> ((Status \<times> slice) \<times> 'f DBImpl) option" where
  "DBImpl_Get ops verify_checksums options_snapshot key value db =
     (let sequence = (case options_snapshot of Some s \<Rightarrow> snd s | None \<Rightarrow> vs_last_sequence (im_versions db));
          lkey = LookupKey key sequence; current = vs_current (im_versions db)
      in case get_from_memtables lkey value StatusOK db of
           None \<Rightarrow> None
         | Some (True, value, s) \<Rightarrow> Some ((s, value), db)
         | Some (False, value, s) \<Rightarrow>
             (case Version_Get (TableCache_Get ops verify_checksums) (im_comparator db) lkey value current (im_table_cache db) of
                None \<Rightarrow> None
              | Some ((r, stats), tables) \<Rightarrow>
                  let (charged, current) = UpdateStats stats current;
                      db = set_current_version current (db\<lparr> im_table_cache := tables \<rparr>)
                  in Some (r, if charged then MaybeScheduleCompaction db else db)))"

definition DBImpl_RecordReadSample :: "slice \<Rightarrow> 'f DBImpl \<Rightarrow> 'f DBImpl" where
  "DBImpl_RecordReadSample key db =
     (let (charged, current) = RecordReadSample (im_comparator db) key (vs_current (im_versions db));
          db = set_current_version current db
      in if charged then MaybeScheduleCompaction db else db)"

definition GetSnapshot :: "'f DBImpl \<Rightarrow> Snapshot \<times> 'f DBImpl" where
  "GetSnapshot db =
     (let (s, sl) = SnapshotList_New (vs_last_sequence (im_versions db)) (im_snapshots db)
      in (s, db\<lparr> im_snapshots := sl \<rparr>))"

definition ReleaseSnapshot :: "Snapshot \<Rightarrow> 'f DBImpl \<Rightarrow> 'f DBImpl" where
  "ReleaseSnapshot s db = db\<lparr> im_snapshots := SnapshotList_Delete s (im_snapshots db) \<rparr>"

text \<open>The limit below which a compaction may drop hidden entries, fixed when it starts.\<close>

definition smallest_snapshot :: "'f DBImpl \<Rightarrow> SequenceNumber" where
  "smallest_snapshot db =
     (if SnapshotList_empty (im_snapshots db) then vs_last_sequence (im_versions db)
      else snd (SnapshotList_oldest (im_snapshots db)))"

section \<open>Snapshots over time\<close>

text \<open>
  The steps that users of the database take, in any order: snapshots are taken and released (once each),
  keys are read, reads are sampled, and the sequence number grows with every write, as the
  assertion of \<^verbatim>\<open>SetLastSequence\<close> asks. Between them the background thread may change everything but
  the snapshots and the sequence number.
\<close>

inductive user_step :: "'f DBImpl \<Rightarrow> 'f DBImpl \<Rightarrow> bool" where
  take: "user_step db (snd (GetSnapshot db))"
| release: "s \<in> set (sl_list (im_snapshots db)) \<Longrightarrow> user_step db (ReleaseSnapshot s db)"
| get: "DBImpl_Get ops verify_checksums options_snapshot key value db = Some (result, db') \<Longrightarrow> user_step db db'"
| sample: "user_step db (DBImpl_RecordReadSample key db)"
| advance: "vs_last_sequence (im_versions db) \<le> n \<Longrightarrow>
    user_step db (db\<lparr> im_versions := SetLastSequence_vs n (im_versions db) \<rparr>)"
| background: "im_snapshots db' = im_snapshots db \<Longrightarrow>
    vs_last_sequence (im_versions db') = vs_last_sequence (im_versions db) \<Longrightarrow> user_step db db'"

lemma reads_keep_snapshots:
  "DBImpl_Get ops verify_checksums options_snapshot key value db = Some (result, db') \<Longrightarrow>
    im_snapshots db' = im_snapshots db \<and> vs_last_sequence (im_versions db') = vs_last_sequence (im_versions db)"
  "im_snapshots (DBImpl_RecordReadSample key db) = im_snapshots db"
  "vs_last_sequence (im_versions (DBImpl_RecordReadSample key db)) = vs_last_sequence (im_versions db)"
  by (auto simp: DBImpl_Get_def DBImpl_RecordReadSample_def MaybeScheduleCompaction_def set_current_version_def Let_def
      split: option.splits prod.splits bool.splits if_splits)

text \<open>What a step does to the snapshots and to the sequence number.\<close>

lemma user_step_effect:
  assumes "user_step db db'"
  obtains (taken) k where "sl_list (im_snapshots db') = sl_list (im_snapshots db) @ [(k, vs_last_sequence (im_versions db))]"
      "vs_last_sequence (im_versions db') = vs_last_sequence (im_versions db)"
    | (released) s where "sl_list (im_snapshots db') = remove1 s (sl_list (im_snapshots db))"
      "vs_last_sequence (im_versions db') = vs_last_sequence (im_versions db)"
    | (kept) "sl_list (im_snapshots db') = sl_list (im_snapshots db)"
      "vs_last_sequence (im_versions db) \<le> vs_last_sequence (im_versions db')"
  using assms
proof cases
  case take
  then show thesis by (intro taken) (simp_all add: GetSnapshot_def SnapshotList_New_def Let_def)
next
  case (release s)
  then show thesis by (intro released) (simp_all add: ReleaseSnapshot_def SnapshotList_Delete_def)
next
  case get
  then show thesis by (intro kept) (simp_all add: reads_keep_snapshots(1))
next
  case sample
  then show thesis by (intro kept) (simp_all add: reads_keep_snapshots)
next
  case (advance n)
  then show thesis by (intro kept) (simp_all add: SetLastSequence_vs_def)
next
  case background
  then show thesis by (intro kept) simp_all
qed

text \<open>The snapshots in use are in the order of their numbers, none above the last one.\<close>

definition snapshots_ordered :: "'f DBImpl \<Rightarrow> bool" where
  "snapshots_ordered db \<longleftrightarrow> sorted (map snd (sl_list (im_snapshots db)))
     \<and> (\<forall>s \<in> set (sl_list (im_snapshots db)). snd s \<le> vs_last_sequence (im_versions db))"

text \<open>Nobody reads below a number.\<close>

definition in_use_from :: "SequenceNumber \<Rightarrow> 'f DBImpl \<Rightarrow> bool" where
  "in_use_from low db \<longleftrightarrow> low \<le> vs_last_sequence (im_versions db) \<and> (\<forall>s \<in> set (sl_list (im_snapshots db)). low \<le> snd s)"

lemma user_step_ordered: "user_step db db' \<Longrightarrow> snapshots_ordered db \<Longrightarrow> snapshots_ordered db'"
  by (erule user_step_effect)
    (auto simp: snapshots_ordered_def sorted_append intro: sorted_map_remove1 order_trans dest: notin_set_remove1)

lemma user_step_in_use: "user_step db db' \<Longrightarrow> in_use_from low db \<Longrightarrow> in_use_from low db'"
  by (erule user_step_effect) (auto simp: in_use_from_def intro: order_trans dest: notin_set_remove1)

lemma user_steps_ordered: "user_step\<^sup>*\<^sup>* db db' \<Longrightarrow> snapshots_ordered db \<Longrightarrow> snapshots_ordered db'"
  by (induction rule: rtranclp_induct) (auto intro: user_step_ordered)

lemma user_steps_in_use: "user_step\<^sup>*\<^sup>* db db' \<Longrightarrow> in_use_from low db \<Longrightarrow> in_use_from low db'"
  by (induction rule: rtranclp_induct) (auto intro: user_step_in_use)

lemma smallest_snapshot_in_use: "snapshots_ordered db \<Longrightarrow> in_use_from (smallest_snapshot db) db"
  by (cases "sl_list (im_snapshots db)")
    (auto simp: snapshots_ordered_def in_use_from_def smallest_snapshot_def SnapshotList_empty_def SnapshotList_oldest_def)

section \<open>What a read delivers\<close>

text \<open>The entries of a memtable, which is empty where there is none.\<close>

definition mem_entries :: "mem_write list \<Rightarrow> entry set" where
  "mem_entries hist = write_kv ` set hist"

context user_comparator
begin

lemma write_kv_entry:
  assumes "fits w"
  shows "user_key (write_kv w) = (case w of (s, t, k, v) \<Rightarrow> k)" and "entry_sequence (write_kv w) = (case w of (s, t, k, v) \<Rightarrow> s)"
    and "ParseInternalKey (fst (write_kv w)) \<noteq> None" and "is_value (write_kv w) \<longleftrightarrow> (case w of (s, t, k, v) \<Rightarrow> t = kTypeValue)"
    and "snd (write_kv w) = (case w of (s, t, k, v) \<Rightarrow> v)"
proof -
  obtain s t k v where w: "w = (s, t, k, v)" by (cases w)
  have p: "ParseInternalKey (InternalKey k s t) = Some \<lparr> pk_user_key = k, pk_sequence = s, pk_type = t \<rparr>"
    using assms by (intro ParseInternalKey_InternalKey) (simp add: w)
  show "user_key (write_kv w) = (case w of (s, t, k, v) \<Rightarrow> k)" "snd (write_kv w) = (case w of (s, t, k, v) \<Rightarrow> v)" by (simp_all add: w)
  show "ParseInternalKey (fst (write_kv w)) \<noteq> None" "is_value (write_kv w) \<longleftrightarrow> (case w of (s, t, k, v) \<Rightarrow> t = kTypeValue)"
    using p by (simp_all add: w is_value_def)
  show "entry_sequence (write_kv w) = (case w of (s, t, k, v) \<Rightarrow> s)"
    using entry_sequence_parse [of "write_kv w"] p by (simp add: w)
qed

lemma seen_mem_entries:
  assumes "\<forall>w \<in> set hist. fits w"
  shows "seen (mem_entries hist) u n = write_kv ` visible hist u n"
proof -
  have "user_key (write_kv w) = u \<and> visible_entry n (write_kv w) \<longleftrightarrow> (case w of (s, t, k, v) \<Rightarrow> k = u \<and> s \<le> n)"
    if "w \<in> set hist" for w
    using that assms write_kv_entry [of w] visible_sequence [of "write_kv w" n] by (auto split: prod.splits)
  then have "{e \<in> write_kv ` set hist. user_key e = u \<and> visible_entry n e}
      = write_kv ` {w \<in> set hist. case w of (s, t, k, v) \<Rightarrow> k = u \<and> s \<le> n}" by blast
  moreover have "{w \<in> set hist. case w of (s, t, k, v) \<Rightarrow> k = u \<and> s \<le> n} = visible hist u n" by (auto simp: visible_def)
  ultimately show ?thesis by (simp add: seen_def mem_entries_def)
qed

text \<open>What a lookup in a memtable delivers.\<close>

lemma MemTable_Get_reads:
  assumes "mem_holds mem hist" and "length u + 8 < 2 ^ 32" and "n \<le> kMaxSequenceNumber"
  shows "seen (mem_entries hist) u n = {} \<Longrightarrow> MemTable_Get (LookupKey u n) mem value StatusOK = Some (False, value, StatusOK)"
    and "seen (mem_entries hist) u n \<noteq> {} \<Longrightarrow> \<exists>v s. MemTable_Get (LookupKey u n) mem value StatusOK = Some (True, v, s)
      \<and> reads (mem_entries hist) u n value (s, v)"
proof -
  have fit: "\<forall>w \<in> set hist. fits w" using assms(1) by (simp add: mem_holds_def)
  note seen = seen_mem_entries [OF fit, of u n]
  show "MemTable_Get (LookupKey u n) mem value StatusOK = Some (False, value, StatusOK)" if "seen (mem_entries hist) u n = {}"
    using MemTable_Get_holds(1) [OF assms] that seen by simp
  assume "seen (mem_entries hist) u n \<noteq> {}"
  then obtain e where e: "newest (mem_entries hist) u n e" using newest_exists [of "mem_entries hist" u n] by (auto simp: mem_entries_def)
  then obtain w where w: "w \<in> visible hist u n" "e = write_kv w" using seen by (auto simp: newest_def)
  obtain s t k v where stkv: "w = (s, t, k, v)" by (cases w)
  have in_hist: "w' \<in> set hist" "(case w' of (s, t, k, v) \<Rightarrow> k = u \<and> s \<le> n)" if "w' \<in> visible hist u n" for w'
    using that by (auto simp: visible_def)
  have k: "k = u" using in_hist(2) [OF w(1)] stkv by simp
  have "\<forall>(s', t', k', v') \<in> visible hist u n. s' \<le> s"
  proof
    fix w'
    assume w': "w' \<in> visible hist u n"
    then have "entry_sequence (write_kv w') \<le> entry_sequence (write_kv w)" using e seen w(2) unfolding newest_def by blast
    then show "case w' of (s', t', k', v') \<Rightarrow> s' \<le> s"
      using write_kv_entry(2) fit in_hist(1) [OF w'] in_hist(1) [OF w(1)] stkv by (auto split: prod.splits)
  qed
  then have get: "MemTable_Get (LookupKey u n) mem value StatusOK
      = Some (case t of kTypeValue \<Rightarrow> (True, v, StatusOK) | kTypeDeletion \<Rightarrow> (True, value, NotFound []))"
    using MemTable_Get_holds(2) [OF assms] w(1) stkv k by blast
  have "is_value e \<longleftrightarrow> t = kTypeValue" "snd e = v" using write_kv_entry(4,5) [of w] fit in_hist(1) [OF w(1)] stkv w(2) by auto
  then show "\<exists>v s. MemTable_Get (LookupKey u n) mem value StatusOK = Some (True, v, s) \<and> reads (mem_entries hist) u n value (s, v)"
    using get reads_newest [OF e, of "value"] by (cases t) auto
qed

definition imm_holds :: "MemTable option \<Rightarrow> mem_write list \<Rightarrow> bool" where
  "imm_holds imm hist \<longleftrightarrow> (case imm of None \<Rightarrow> hist = [] | Some mem \<Rightarrow> mem_holds mem hist)"

lemma get_from_memtables_reads:
  assumes "mem_holds (im_mem db) hist" and "imm_holds (im_imm db) ihist" and "newer_entries (mem_entries hist) (mem_entries ihist)"
    and "length u + 8 < 2 ^ 32" and "n \<le> kMaxSequenceNumber"
  shows "seen (mem_entries hist \<union> mem_entries ihist) u n = {} \<Longrightarrow>
      get_from_memtables (LookupKey u n) value StatusOK db = Some (False, value, StatusOK)"
    and "seen (mem_entries hist \<union> mem_entries ihist) u n \<noteq> {} \<Longrightarrow>
      \<exists>v s. get_from_memtables (LookupKey u n) value StatusOK db = Some (True, v, s)
        \<and> reads (mem_entries hist \<union> mem_entries ihist) u n value (s, v)"
proof -
  note mem = MemTable_Get_reads [OF assms(1,4,5), of "value"]
  have imm: "im_imm db = Some imm \<Longrightarrow> mem_holds imm ihist" for imm using assms(2) by (simp add: imm_holds_def)
  have none: "im_imm db = None \<Longrightarrow> mem_entries ihist = {}" using assms(2) by (simp add: imm_holds_def mem_entries_def)
  show "get_from_memtables (LookupKey u n) value StatusOK db = Some (False, value, StatusOK)"
    if "seen (mem_entries hist \<union> mem_entries ihist) u n = {}"
    using that mem(1) MemTable_Get_reads(1) [OF imm assms(4,5)]
    by (auto simp: seen_Un get_from_memtables_def split: option.splits)
  assume some: "seen (mem_entries hist \<union> mem_entries ihist) u n \<noteq> {}"
  show "\<exists>v s. get_from_memtables (LookupKey u n) value StatusOK db = Some (True, v, s)
        \<and> reads (mem_entries hist \<union> mem_entries ihist) u n value (s, v)"
  proof (cases "seen (mem_entries hist) u n = {}")
    case False
    then show ?thesis using mem(2) reads_Un [OF assms(3)] by (auto simp: get_from_memtables_def)
  next
    case True
    then have "seen (mem_entries ihist) u n \<noteq> {}" using some by (simp add: seen_Un)
    moreover from this obtain imm where i: "im_imm db = Some imm" using none by (cases "im_imm db") (auto simp: seen_def)
    ultimately show ?thesis
      using mem(1) [OF True] MemTable_Get_reads(2) [OF imm [OF i] assms(4,5), of "value"] reads_Un [OF assms(3)] True
      by (simp add: get_from_memtables_def)
  qed
qed

end

end
