(* ===== verification/DB_Properties.thy ===== *)
theory DB_Properties
  imports Version_Properties Ldb_DB
begin

text \<open>
  What the database promises: reads see the newest version of a key, in memory and in the files, and
  compactions leave every snapshot that is in use as it was.
\<close>

section \<open>Reads\<close>

text \<open>C6: A read of the database at a snapshot, or at the last sequence number, delivers the newest version of the key that the
  snapshot sees among all entries of the memtable, the immutable memtable and the files, or that there is
  none. The version is sound (its files hold what they say, the levels below the first are sorted and newer
  entries lie above older ones), its tables are stored in files that can be opened, and the memtables are newer
  than what lies below them.\<close>

theorem db_get_newest:
  assumes "im_comparator db = BytewiseComparator"
    and "bytewise.mem_holds (im_mem db) hist" and "bytewise.imm_holds (im_imm db) ihist"
    and "sound_version BytewiseComparator entries (vs_current (im_versions db))"
    and "\<forall>level < kNumLevels. \<forall>f \<in> set (v_files (vs_current (im_versions db)) level). table_stored (im_table_cache db) f (entries f)"
    and "newer_entries (mem_entries hist) (mem_entries ihist \<union> version_entries entries (vs_current (im_versions db)))"
    and "newer_entries (mem_entries ihist) (version_entries entries (vs_current (im_versions db)))"
    and "length u + 8 < 2 ^ 32" and "n = (case snap of Some s \<Rightarrow> snd s | None \<Rightarrow> vs_last_sequence (im_versions db))"
    and "n \<le> kMaxSequenceNumber"
  shows "\<exists>r db'. DBImpl_Get PosixRandomAccessFile verify snap u value db = Some (r, db')
    \<and> reads (mem_entries hist \<union> mem_entries ihist \<union> version_entries entries (vs_current (im_versions db))) u n value r"
proof -
  let ?M = "mem_entries hist \<union> mem_entries ihist" and ?v = "vs_current (im_versions db)"
  have newer: "newer_entries ?M (version_entries entries ?v)" using assms(6,7) unfolding newer_entries_def by blast
  have "newer_entries (mem_entries hist) (mem_entries ihist)" using newer_entries_subset [OF assms(6)] by blast
  note mem = bytewise.get_from_memtables_reads [OF assms(2,3) this assms(8,10), of "value"]
  show ?thesis
  proof (cases "seen ?M u n = {}")
    case False
    then obtain v s where "get_from_memtables (LookupKey u n) value StatusOK db = Some (True, v, s)" "reads ?M u n value (s, v)"
      using mem(2) by blast
    then show ?thesis using reads_Un [OF newer] False by (simp add: DBImpl_Get_def assms(9) [symmetric] Let_def)
  next
    case True
    obtain r stats tc' where get: "Version_Get (TableCache_Get PosixRandomAccessFile verify) BytewiseComparator (LookupKey u n) value ?v
        (im_table_cache db) = Some ((r, stats), tc')" "reads (version_entries entries ?v) u n value r"
      using db_files.Version_Get_reads [where verify = verify, OF assms(4) _ assms(8,10), of "im_table_cache db" "value"] assms(5) by blast
    then have "\<exists>db'. DBImpl_Get PosixRandomAccessFile verify snap u value db = Some (r, db')"
      using mem(1) [OF True] by (simp add: DBImpl_Get_def assms(1) assms(9) [symmetric] Let_def split: prod.split)
    moreover have "reads (?M \<union> version_entries entries ?v) u n value r" unfolding reads_Un [OF newer] using True get(2) by simp
    ultimately show ?thesis by blast
  qed
qed

definition small_db :: "FileMetaData \<Rightarrow> 'f table_cache \<Rightarrow> 'f DBImpl" where
  "small_db f tc =
     \<lparr> im_comparator = BytewiseComparator, im_options = Options_new, im_table_cache = tc, im_shutting_down = False,
       im_mem = MemTable_new BytewiseComparator, im_imm = None, im_seed = 0, im_snapshots = SnapshotList_new,
       im_bg_compaction_scheduled = False, im_manual_compaction = None,
       im_versions = (VersionSet_new [] Options_new BytewiseComparator)\<lparr> vs_current := one_file_version f, vs_last_sequence := 9 \<rparr>,
       im_bg_error = StatusOK \<rparr>"

lemma db_get_newest_witness:
  "\<exists>f tc db'. DBImpl_Get PosixRandomAccessFile True None [97] [] (small_db f tc) = Some ((StatusOK, [120]), db')"
proof -
  obtain f and tc :: "posix_file table_cache" where f: "table_stored tc f [one_entry]"
    "sound_version BytewiseComparator (\<lambda>_. [one_entry]) (one_file_version f)"
    "version_entries (\<lambda>_. [one_entry]) (one_file_version f) = {one_entry}" by (rule one_file_stored)
  let ?db = "small_db f tc"
  have cur: "vs_current (im_versions ?db) = one_file_version f" by (simp add: small_db_def)
  have "\<forall>level < kNumLevels. \<forall>g \<in> set (v_files (vs_current (im_versions ?db)) level). table_stored (im_table_cache ?db) g [one_entry]"
    using f(1) unfolding cur by (simp add: one_file_version_def small_db_def)
  moreover have "bytewise.mem_holds (im_mem ?db) []" "bytewise.imm_holds (im_imm ?db) []" "im_comparator ?db = BytewiseComparator"
    "newer_entries (mem_entries []) E" "(9 :: 64 word) \<le> kMaxSequenceNumber"
    "9 = (case None of Some s \<Rightarrow> snd (s :: Snapshot) | None \<Rightarrow> vs_last_sequence (im_versions ?db))" for E
    using bytewise.mem_holds_new
    by (simp_all add: small_db_def bytewise.imm_holds_def mem_entries_def newer_entries_def kMaxSequenceNumber_def)
  ultimately obtain r db' where r: "DBImpl_Get PosixRandomAccessFile True None [97] [] ?db = Some (r, db')"
    "reads (mem_entries [] \<union> mem_entries [] \<union> version_entries (\<lambda>_. [one_entry]) (vs_current (im_versions ?db))) [97] 9 [] r"
    using db_get_newest [of ?db "[]" "[]" "\<lambda>_. [one_entry]" "[97]" 9 None True "[]"] f(2) unfolding cur by auto
  have "r = (StatusOK, [120])" using r(2) unfolding cur f(3) by (simp add: mem_entries_def reads_one_entry)
  then show ?thesis using r(1) by blast
qed

section \<open>Snapshots and compactions\<close>



end
