(* ===== verification/Spec2Isabelle.thy ===== *)
theory Spec2Isabelle
  imports Wire_Properties Message_Properties Encode_Properties Ldb_Properties Store_Properties Table_Properties
    Iterator_Properties DB_Properties
begin

text \<open>
  The C and C++ libraries under \<^verbatim>\<open>src/SOLTA/Pods\<close> that carry the data of the application: \<^verbatim>\<open>nanopb\<close>
  (protocol buffers, behind the analytics and messaging pods) and \<^verbatim>\<open>leveldb-library\<close> (the key-value
  store behind the persistence of the real-time database).

  \<^bold>\<open>nanopb\<close>, in the configuration of the Pods project (\<^verbatim>\<open>PB_FIELD_32BIT\<close>, \<^verbatim>\<open>PB_NO_PACKED_STRUCTS\<close>, no
  \<^verbatim>\<open>PB_ENABLE_MALLOC\<close>, no \<^verbatim>\<open>PB_BUFFER_ONLY\<close>, error messages on, 64-bit pointers).

  \<^item> \<^verbatim>\<open>Pb_Types\<close>: descriptors, types, wire types and the macros of \<^verbatim>\<open>pb.h\<close> that build descriptor tables.
    \<^verbatim>\<open>Pb_Iter\<close>: the field iterator of \<^verbatim>\<open>pb_common.c\<close> (\<open>pb_field_iter_begin\<close>, \<open>pb_field_iter_next\<close>,
    \<open>pb_field_iter_find\<close>).
  \<^item> \<^verbatim>\<open>Pb_IStream\<close>, \<^verbatim>\<open>Pb_OStream\<close>: streams and scalars of \<^verbatim>\<open>pb_decode.c\<close> and \<^verbatim>\<open>pb_encode.c\<close>. A stream is a record with
    its callback, its user state and its limits; every operation maps a state to an optional result
    and the next state, \<open>None\<close> being the C value false with the error message in the stream.
    \<^verbatim>\<open>Pb_Wire\<close>, \<^verbatim>\<open>Pb_Codec\<close> and \<^verbatim>\<open>Pb_Skip\<close> hold the wire format as a specification (varints as digits to the
    base 128, little-endian bytes, values with their extent) and the lemmas that relate the code to it;
    \<^verbatim>\<open>Wire_Properties\<close> has the properties.
  \<^item> \<^verbatim>\<open>Pb_Proc\<close>: operations on a stream and the memory of the program, with the outcomes \<open>Done\<close>, \<open>Undef\<close>
    (undefined behaviour of C) and \<open>Diverge\<close> (fuel ran out). Memory is a function from addresses to bytes.
  \<^item> \<^verbatim>\<open>Pb_Decode\<close>: default values, field decoders, arrays, oneofs, callbacks, extensions, the message loop and
    the check of required fields of \<^verbatim>\<open>pb_decode.c\<close>. \<^verbatim>\<open>Pb_Decode_Safe\<close> shows that decoding touches only
    the structure and never raises the limit of the stream, \<^verbatim>\<open>Pb_Decode_Term\<close> that it returns,
    \<^verbatim>\<open>Pb_Decode_Defined\<close> that it has no undefined behaviour when the tables are sound (a static check, as for types),
    \<^verbatim>\<open>Pb_Required\<close> what the bits of the required fields say. These hold for tables without extension placeholders; the
    extensions themselves are modelled, and what is decoded into them lies outside the structure.
  \<^item> \<^verbatim>\<open>Pb_Encode\<close>: the message level of \<^verbatim>\<open>pb_encode.c\<close>. \<^verbatim>\<open>Pb_Encode_Spec\<close> shows that what is written does not
    depend on what measures it: the locale of encoders covers every function, and sizes follow from it.
    \<^verbatim>\<open>Message_Properties\<close> and \<^verbatim>\<open>Encode_Properties\<close> have the properties.

  User code (callbacks of fields and of extensions) is a parameter of the model, \<open>env\<close>; what the properties
  ask of it is a hypothesis with a witness. The fuel of the message loop, of packed arrays and of callbacks
  is one more than the number of bytes left in the stream, because each turn consumes a byte; the depth of
  submessages has a fuel of its own. Streams that read from a callback leave the destination of a failing
  read unchanged in the model.

  \<^bold>\<open>leveldb\<close>, in the configuration of the Pods project (POSIX port, no SSE 4.2, little-endian).

  \<^item> \<^verbatim>\<open>Ldb_Coding\<close>: slices (lists of bytes), \<^verbatim>\<open>util/coding.cc\<close>, \<^verbatim>\<open>util/hash.cc\<close>. \<^verbatim>\<open>Ldb_Crc32c\<close>: the checksum of
    \<^verbatim>\<open>util/crc32c.cc\<close> with its tables and its bit-by-bit reference; \<^verbatim>\<open>Ldb_Crc_Detect\<close>: what it detects.
  \<^item> \<^verbatim>\<open>Ldb_Env\<close>: \<^verbatim>\<open>Status\<close> and the POSIX files. The locales \<open>sequential_file\<close> and \<open>writable_file\<close> state what a sound
    file promises; they are interpreted on the POSIX files over streams of the C library.
  \<^item> \<^verbatim>\<open>Ldb_Log\<close>: writer and reader of the write-ahead log (\<^verbatim>\<open>db/log_writer.cc\<close>, \<^verbatim>\<open>db/log_reader.cc\<close>).
    \<^verbatim>\<open>Ldb_Log_Spec\<close> gives the layout of a log as a function of the records and shows that the writer produces it
    and that the reader inverts it on every beginning of a log; \<^verbatim>\<open>Ldb_Log_Term\<close> shows that the reader returns
    on every file. \<^verbatim>\<open>Ldb_Properties\<close> has the properties.
  \<^item> \<^verbatim>\<open>Ldb_Keys\<close>: comparators (\<^verbatim>\<open>util/comparator.cc\<close>) and internal keys (\<^verbatim>\<open>db/dbformat.cc\<close>). The locale \<open>comparator\<close>
    states the contract of the header; it is interpreted on the bytewise comparator, and every user
    comparator gives one for internal keys.
  \<^item> \<^verbatim>\<open>Ldb_Random\<close>, \<^verbatim>\<open>Ldb_Skiplist\<close>: the generator of \<^verbatim>\<open>util/random.h\<close> and the skip list of \<^verbatim>\<open>db/skiplist.h\<close>, with its nodes in
    a list and indices for pointers. \<^verbatim>\<open>Ldb_Skiplist_Refine\<close>: the list refines a sorted list of keys (the locale
    \<open>ordered_table\<close>). The loops over pointers are partial functions; the lemmas show that they return.
  \<^item> \<^verbatim>\<open>Ldb_Memtable\<close> (\<^verbatim>\<open>db/memtable.cc\<close>) stores entries in the skip list and relies on the locale alone; \<^verbatim>\<open>Ldb_Batch\<close>
    (\<^verbatim>\<open>db/write_batch.cc\<close>) replays a batch into it. \<^verbatim>\<open>Store_Properties\<close> has the properties, up to the composition of batch,
    memtable, skip list and lookup. The state of every operation is passed and returned; \<open>None\<close> stands
    for a search that does not return.
  \<^item> \<^verbatim>\<open>Ldb_Filter\<close>: the Bloom filter (\<^verbatim>\<open>util/bloom.cc\<close>), the policy for internal keys and filter blocks
    (\<^verbatim>\<open>table/filter_block.cc\<close>). The locale \<open>filter_policy\<close> states that a filter appends to its destination and has no
    false negatives; inside it the filter block is shown to keep the keys of every data block.
  \<^item> \<^verbatim>\<open>Ldb_Iterator\<close>: the interface of iterators; the locale \<open>iterator\<close> says which entry a state stands at.
    \<^verbatim>\<open>Ldb_Block\<close> (\<^verbatim>\<open>table/block_builder.cc\<close>, \<^verbatim>\<open>table/block.cc\<close>): blocks and their iterator. \<^verbatim>\<open>Ldb_Block_Spec\<close> gives the layout of a block,
    \<^verbatim>\<open>Ldb_Block_Iter\<close> decodes its entries, \<^verbatim>\<open>Ldb_Block_View\<close> shows that every operation of the iterator moves as the
    locale asks.
  \<^item> \<^verbatim>\<open>Ldb_Format\<close> (\<^verbatim>\<open>table/format.cc\<close>): handles, footer, \<open>ReadBlock\<close>, and files that are read at random (the locale
    \<open>random_access_file\<close>, interpreted on both kinds of POSIX files). \<^verbatim>\<open>Ldb_Table\<close>: the builder and the reader of table files
    (\<^verbatim>\<open>table/table_builder.cc\<close>, \<^verbatim>\<open>table/table.cc\<close>). \<^verbatim>\<open>Ldb_Table_Spec\<close> shows what a finished table consists of, \<^verbatim>\<open>Ldb_Table_Read\<close>
    what a lookup in it finds. \<^verbatim>\<open>Table_Properties\<close> has the properties.
  \<^item> \<^verbatim>\<open>Ldb_Merger\<close> (\<^verbatim>\<open>table/merger.cc\<close>, \<^verbatim>\<open>table/iterator_wrapper.h\<close>) and \<^verbatim>\<open>Ldb_Two_Level\<close>
    (\<^verbatim>\<open>table/two_level_iterator.cc\<close>): iterators made of iterators. \<^verbatim>\<open>Ldb_Merger_View\<close> and \<^verbatim>\<open>Ldb_Two_Level_View\<close> show, in the locales
    \<open>merging\<close> and \<open>two_level\<close>, that they keep the contract of iterators when their children do. \<^verbatim>\<open>Ldb_Table_Iter\<close>: the iterator
    over a table; \<^verbatim>\<open>Ldb_Mem_Iter\<close>: the iterator over a memtable.
  \<^item> \<^verbatim>\<open>Ldb_DB_Iter\<close> (\<^verbatim>\<open>db/db_iter.cc\<close>): the iterator that users of the database see. \<^verbatim>\<open>Ldb_DB_Iter_View\<close> defines the snapshot
    of a sequence number and shows that the iterator goes through it. \<^verbatim>\<open>Iterator_Properties\<close> has the properties.
  \<^item> \<^verbatim>\<open>Ldb_Version_Edit\<close> (\<^verbatim>\<open>db/version_edit.cc\<close>): the edits of the set of files and their encoding. \<^verbatim>\<open>Ldb_Version\<close>: versions with search,
    lookup, overlap and seek statistics; \<^verbatim>\<open>Ldb_Version_Builder\<close>: the builder of versions; \<^verbatim>\<open>Ldb_Version_Set\<close>: file numbers, sizes and
    scores (all \<^verbatim>\<open>db/version_set.cc\<close>). \<^verbatim>\<open>Ldb_Version_Search\<close> shows what the searches find, \<^verbatim>\<open>Ldb_Version_Read\<close> defines what a
    read of a set of entries delivers and shows that a lookup in a sound version delivers it.
  \<^item> \<^verbatim>\<open>Ldb_Filename\<close>: the names of files (\<^verbatim>\<open>db/filename.cc\<close>, \<^verbatim>\<open>util/logging.cc\<close>). \<^verbatim>\<open>Ldb_Table_Cache\<close> (\<^verbatim>\<open>db/table_cache.cc\<close>): the tables that are
    open; what files there are is a parameter.
  \<^item> \<^verbatim>\<open>Ldb_Compaction\<close>: the choice of compactions, their inputs, and which entries they drop (\<^verbatim>\<open>db/version_set.cc\<close> and the
    loop of \<open>DoCompactionWork\<close> in \<^verbatim>\<open>db/db_impl.cc\<close>). \<^verbatim>\<open>Ldb_Compaction_Spec\<close> shows that what is dropped cannot be read.
    \<^verbatim>\<open>Version_Properties\<close> has the properties.
  \<^item> \<^verbatim>\<open>Ldb_DB\<close> (\<^verbatim>\<open>db/db_impl.cc\<close>, \<^verbatim>\<open>db/snapshot.h\<close>): the state of the database, snapshots, reads through memtables and files, and the
    scheduling of compactions; the steps of its users as a relation, for what they may read while a compaction runs. \<^verbatim>\<open>DB_Properties\<close> has the properties.

  \<^bold>\<open>Not modelled\<close>: the Swift and Objective-C code (user interface, network clients, the sync tree of
  the real-time database), which is not in the language of this development or has its logic in binary
  frameworks; \<^verbatim>\<open>PB_ENABLE_MALLOC\<close> code, which the build leaves out; the parts of leveldb that are threads and
  locks, the cache of blocks, the writing of table files by compactions, the manifest and the recovery.
\<close>

end
